(* ===== verification/MOS_Prelude.thy ===== *)
theory MOS_Prelude
  imports Main "HOL-Library.Word" "HOL-Library.Monad_Syntax"
begin

text \<open>
  What every component of the MOS development shares: the machine types of
  \<^verbatim>\<open>include/types.h\<close>, the error codes of \<^verbatim>\<open>include/error.h\<close>, the address-space
  constants and page-table macros of \<^verbatim>\<open>include/mmu.h\<close>, the rounding macros, and the
  generic lemmas on words, options and partial maps that the component proofs use.

  Conventions. A kernel routine that may stop the machine (\<^verbatim>\<open>panic\<close>, a failed
  \<^verbatim>\<open>assert\<close>, an access the kernel cannot make) returns an \<open>option\<close>: \<open>None\<close> is
  the stop, and the \<open>do\<close> blocks propagate it. A routine that returns a C error code
  returns a sum: \<open>Inl e\<close> is the negative code \<open>e\<close>, \<open>Inr v\<close> is success with
  what the routine stores through its out-pointer.
\<close>

unbundle bit_operations_syntax

section \<open>Types\<close>

type_synonym u8 = "8 word"
type_synonym u16 = "16 word"
type_synonym u32 = "32 word"

text \<open>An out-of-band error code or a value: the shape of \<^verbatim>\<open>int f(..., T **out)\<close>.\<close>

type_synonym 'a res = "int + 'a"

named_theorems mmu_defs "the constants and macros of include/mmu.h"
named_theorems pte_simps "facts on page table entries: their frame number and their flags"

section \<open>Error codes (include/error.h)\<close>

abbreviation E_UNSPECIFIED :: int where "E_UNSPECIFIED \<equiv> 1"
abbreviation E_BAD_ENV :: int where "E_BAD_ENV \<equiv> 2"
abbreviation E_INVAL :: int where "E_INVAL \<equiv> 3"
abbreviation E_NO_MEM :: int where "E_NO_MEM \<equiv> 4"
abbreviation E_NO_SYS :: int where "E_NO_SYS \<equiv> 5"
abbreviation E_NO_FREE_ENV :: int where "E_NO_FREE_ENV \<equiv> 6"
abbreviation E_IPC_NOT_RECV :: int where "E_IPC_NOT_RECV \<equiv> 7"
abbreviation E_NO_DISK :: int where "E_NO_DISK \<equiv> 8"
abbreviation E_MAX_OPEN :: int where "E_MAX_OPEN \<equiv> 9"
abbreviation E_NOT_FOUND :: int where "E_NOT_FOUND \<equiv> 10"
abbreviation E_BAD_PATH :: int where "E_BAD_PATH \<equiv> 11"
abbreviation E_FILE_EXISTS :: int where "E_FILE_EXISTS \<equiv> 12"
abbreviation E_NOT_EXEC :: int where "E_NOT_EXEC \<equiv> 13"

section \<open>Rounding (include/types.h)\<close>

definition ROUND :: "u32 \<Rightarrow> u32 \<Rightarrow> u32" where
  "ROUND a n = (a + n - 1) AND NOT (n - 1)"

definition ROUNDDOWN :: "u32 \<Rightarrow> u32 \<Rightarrow> u32" where
  "ROUNDDOWN a n = a AND NOT (n - 1)"

section \<open>Page tables and the address space (include/mmu.h)\<close>

abbreviation PAGE_SIZE :: u32 where "PAGE_SIZE \<equiv> 4096"
abbreviation PTMAP :: u32 where "PTMAP \<equiv> 4096"
abbreviation PDMAP :: u32 where "PDMAP \<equiv> 0x400000"
abbreviation NASID :: nat where "NASID \<equiv> 256"

definition PDX :: "u32 \<Rightarrow> nat" where
  "PDX va = unat (drop_bit 22 va AND 0x3FF)"

definition PTX :: "u32 \<Rightarrow> nat" where
  "PTX va = unat (drop_bit 12 va AND 0x3FF)"

definition PTE_ADDR :: "u32 \<Rightarrow> u32" where
  "PTE_ADDR pte = pte AND NOT 0xFFF"

definition PTE_FLAGS :: "u32 \<Rightarrow> u32" where
  "PTE_FLAGS pte = pte AND 0xFFF"

text \<open>The page number field of an address: \<^verbatim>\<open>PPN\<close> and \<^verbatim>\<open>VPN\<close> are the same shift.\<close>

definition PPN :: "u32 \<Rightarrow> nat" where
  "PPN pa = unat (drop_bit 12 pa)"

definition VPN :: "u32 \<Rightarrow> nat" where
  "VPN va = unat (drop_bit 12 va)"

definition PTE_G :: u32 where "PTE_G = push_bit 6 0x0001"
definition PTE_V :: u32 where "PTE_V = push_bit 6 0x0002"
definition PTE_D :: u32 where "PTE_D = push_bit 6 0x0004"
definition PTE_C_CACHEABLE :: u32 where "PTE_C_CACHEABLE = push_bit 6 0x0018"
definition PTE_COW :: u32 where "PTE_COW = 0x0001"
definition PTE_LIBRARY :: u32 where "PTE_LIBRARY = 0x0002"

lemmas pte_flag_defs =
  PTE_G_def PTE_V_def PTE_D_def PTE_C_CACHEABLE_def PTE_COW_def PTE_LIBRARY_def

abbreviation KSEG1 :: u32 where "KSEG1 \<equiv> 0xA0000000"
abbreviation ULIM :: u32 where "ULIM \<equiv> 0x80000000"
abbreviation UVPT :: u32 where "UVPT \<equiv> 0x7fc00000"
abbreviation UPAGES :: u32 where "UPAGES \<equiv> 0x7f800000"
abbreviation UENVS :: u32 where "UENVS \<equiv> 0x7f400000"
abbreviation UTOP :: u32 where "UTOP \<equiv> 0x7f400000"
abbreviation UXSTACKTOP :: u32 where "UXSTACKTOP \<equiv> 0x7f400000"
abbreviation USTACKTOP :: u32 where "USTACKTOP \<equiv> 0x7f3fe000"
abbreviation UTEXT :: u32 where "UTEXT \<equiv> 0x400000"
abbreviation UCOW :: u32 where "UCOW \<equiv> 0x3ff000"
abbreviation UTEMP :: u32 where "UTEMP \<equiv> 0x3fe000"

text \<open>The layout of \<^verbatim>\<open>include/mmu.h\<close> gives these values by subtraction from \<^verbatim>\<open>ULIM\<close>.\<close>

lemma layout_constants:
  "UVPT = ULIM - PDMAP" "UPAGES = UVPT - PDMAP" "UENVS = UPAGES - PDMAP"
  "USTACKTOP = UTOP - 2 * PTMAP" "UCOW = UTEXT - PTMAP" "UTEMP = UCOW - PTMAP"
  by simp_all

text \<open>\<^verbatim>\<open>PADDR\<close> panics below \<open>ULIM\<close>.\<close>

definition PADDR :: "u32 \<Rightarrow> u32 option" where
  "PADDR kva = (if kva < ULIM then None else Some (kva - ULIM))"

text \<open>A page table or page directory entry is valid when its \<open>PTE_V\<close> bit is set.\<close>

definition pte_valid :: "u32 \<Rightarrow> bool" where
  "pte_valid pte \<longleftrightarrow> pte AND PTE_V \<noteq> 0"

text \<open>What the memory system calls check of an address (\<^verbatim>\<open>is_illegal_va\<close>), and the flags \<^verbatim>\<open>page_insert\<close>
  gives a mapping.\<close>

definition va_ok :: "u32 \<Rightarrow> bool" where
  "va_ok va \<longleftrightarrow> UTEMP \<le> va \<and> va < UTOP"

definition mapped_flags :: "u32 \<Rightarrow> u32" where
  "mapped_flags perm = perm OR PTE_V OR PTE_C_CACHEABLE"

section \<open>Words\<close>

lemma and_or_absorb [simp]: "((a::'a::len word) OR b) AND b = b"
  by (simp add: bit.conj_disj_distrib2)

lemma pte_valid_bit: "pte_valid x \<longleftrightarrow> bit x 7"
proof -
  have "PTE_V = push_bit 7 1"
    by (simp add: PTE_V_def)
  moreover have "bit (push_bit 7 (1::u32)) n \<longleftrightarrow> n = 7" for n
    by (simp only: bit_push_bit_iff bit_1_iff) (auto simp: possible_bit_word)
  ultimately have V: "bit PTE_V n \<longleftrightarrow> n = 7" for n
    by (simp only:)
  have "x AND PTE_V = (if bit x 7 then PTE_V else 0)"
    by (rule bit_word_eqI) (auto simp: bit_and_iff V)
  then show ?thesis
    by (simp add: pte_valid_def PTE_V_def)
qed

lemma pte_valid_0 [simp, pte_simps]: "\<not> pte_valid 0"
  by (simp add: pte_valid_def)

lemma pte_valid_or_V [simp, pte_simps]: "pte_valid (x OR PTE_V)"
  by (simp add: pte_valid_def PTE_V_def)

lemma unat_drop_bit_div: "unat (drop_bit n (x::'a::len word)) = unat x div 2 ^ n"
  by (subst unat_drop_bit_eq) (rule drop_bit_eq_div)

lemma drop_bit_eq_0_less: "drop_bit n (x::'a::len word) = 0" if "x < 2 ^ n" "n < LENGTH('a)"
proof -
  from that have "uint x < 2 ^ n"
    by (simp add: word_2p_lem word_size)
  then have "int (unat x) < int (2 ^ n)"
    by simp
  then have "unat x < 2 ^ n"
    by (simp only: of_nat_less_iff)
  then have "unat (drop_bit n x) = 0"
    by (simp only: unat_drop_bit_div div_less)
  then show ?thesis
    by (simp add: unat_eq_0)
qed

lemma PDX_less [simp]: "PDX va < 1024"
proof -
  have "drop_bit 22 va AND (0x3FF::u32) \<le> 0x3FF"
    by (rule word_and_le1)
  then show ?thesis
    by (simp add: PDX_def word_le_nat_alt)
qed

lemma PTX_less [simp]: "PTX va < 1024"
proof -
  have "drop_bit 12 va AND (0x3FF::u32) \<le> 0x3FF"
    by (rule word_and_le1)
  then show ?thesis
    by (simp add: PTX_def word_le_nat_alt)
qed

lemma PPN_less [simp]: "PPN x < 2 ^ 20"
proof -
  have "unat x < 2 ^ 32"
    using unsigned_less [of x] by simp
  then show ?thesis
    by (simp add: PPN_def unat_drop_bit_div)
qed

lemma PPN_or_flags: "PPN (x OR f) = PPN x" if "f < PAGE_SIZE"
proof -
  from that have "drop_bit 12 f = 0"
    by (intro drop_bit_eq_0_less) simp_all
  then show ?thesis
    by (simp add: PPN_def drop_bit_or)
qed

lemma PPN_PTE_ADDR [simp]: "PPN (PTE_ADDR x) = PPN x"
proof -
  have "drop_bit 12 (NOT 0xFFF :: u32) = 0xFFFFF"
    by simp
  moreover have "drop_bit 12 x AND 0xFFFFF = drop_bit 12 x"
  proof -
    have "(0xFFFFF :: u32) = mask 20"
      by (simp add: mask_eq_exp_minus_1)
    then have "drop_bit 12 x AND 0xFFFFF = take_bit 20 (drop_bit 12 x)"
      by (simp add: take_bit_eq_mask)
    also have "\<dots> = drop_bit 12 x"
      by (rule bit_word_eqI) (auto simp: bit_simps dest: bit_imp_le_length)
    finally show ?thesis .
  qed
  ultimately show ?thesis
    by (simp add: PPN_def PTE_ADDR_def)
qed

text \<open>Small words are the same signed and unsigned.\<close>

lemma sint_small: "unat (x::u32) < 2 ^ 31 \<Longrightarrow> sint x = uint x"
proof -
  assume "unat x < 2 ^ 31"
  then have "int (unat x) < int (2 ^ 31)" by (simp only: of_nat_less_iff)
  then have "uint x < 2 ^ 31" by simp
  then have "signed_take_bit 31 (uint x) = uint x"
    by (intro signed_take_bit_int_eq_self) (rule order_trans [OF _ uint_ge_0], simp_all)
  then show ?thesis by (simp add: sint_uint)
qed

lemma small_not_neg: "unat (x::u32) < 2 ^ 31 \<Longrightarrow> \<not> x <s 0"
  by (simp add: word_sless_alt sint_small)

lemma small_sless: "unat (x::u32) < 2 ^ 31 \<Longrightarrow> unat y < 2 ^ 31 \<Longrightarrow> x <s y \<longleftrightarrow> x < y"
  by (simp add: word_sless_alt sint_small word_less_def)

text \<open>An address is its page number and its offset in the page.\<close>

lemma VPN_div: "VPN va = unat va div 4096"
  by (simp add: VPN_def unat_drop_bit_div)

lemma unat_page_offset: "unat (va AND 0xFFF :: u32) = unat va mod 4096"
proof -
  have m: "(0xFFF :: u32) = mask 12" by (simp add: mask_eq_exp_minus_1)
  show ?thesis unfolding m take_bit_eq_mask [symmetric] by (simp add: take_bit_eq_mod unat_mod)
qed

lemma va_eq_iff: "va' = va \<longleftrightarrow> VPN va' = VPN va \<and> va' AND 0xFFF = (va AND 0xFFF :: u32)"
proof
  assume "VPN va' = VPN va \<and> va' AND 0xFFF = (va AND 0xFFF :: u32)"
  then have "unat va' div 4096 = unat va div 4096" "unat va' mod 4096 = unat va mod 4096"
    unfolding VPN_div unat_page_offset [symmetric] by simp_all
  then have "unat va' = unat va" by (metis div_mult_mod_eq)
  then show "va' = va" by (simp add: word_unat_eq_iff)
qed simp

lemma unat_page_addr: "v < 2 ^ 20 \<Longrightarrow> unat (push_bit 12 (of_nat v :: u32)) = 4096 * v"
  unfolding push_bit_eq_mult by (subst unat_mult_lem [THEN iffD1]) (simp_all add: unat_of_nat)

lemma VPN_addr: "v < 2 ^ 20 \<Longrightarrow> VPN (push_bit 12 (of_nat v)) = v"
  by (simp add: VPN_def unat_drop_bit_div unat_page_addr)

lemma va_ok_addr: "0x3fe \<le> v \<Longrightarrow> v < 0x7f400 \<Longrightarrow> va_ok (push_bit 12 (of_nat v))"
  by (simp add: va_ok_def word_le_nat_alt word_less_nat_alt unat_page_addr)

section \<open>Single bits and page flags\<close>

lemma and_push_bit_1: "(w::u32) AND push_bit n 1 \<noteq> 0 \<longleftrightarrow> bit w n"
proof (cases "n < 32")
  case True
  have "bit (push_bit n (1::u32)) k \<longleftrightarrow> k = n \<and> n < 32" for k
    by (auto simp: bit_simps)
  then have "w AND push_bit n 1 = (if bit w n then push_bit n 1 else 0)"
    by (intro bit_word_eqI) (auto simp: bit_and_iff)
  moreover have "bit (push_bit n (1::u32)) n"
    using True by (simp add: bit_simps)
  then have "push_bit n (1::u32) \<noteq> 0"
    by (metis bit_0_eq bot_apply bot_bool_def)
  ultimately show ?thesis by simp
next
  case False
  then have p: "push_bit n (1::u32) = 0"
    by (intro bit_word_eqI) (auto simp: bit_simps)
  show ?thesis
    unfolding p using False by (auto dest: bit_imp_le_length)
qed

lemma pte_bits:
  "x AND PTE_D \<noteq> 0 \<longleftrightarrow> bit x 8" "x AND PTE_LIBRARY \<noteq> 0 \<longleftrightarrow> bit x 1" "x AND PTE_COW \<noteq> 0 \<longleftrightarrow> bit x 0"
proof -
  have *: "PTE_D = push_bit 8 1" "PTE_LIBRARY = push_bit 1 1" "PTE_COW = push_bit 0 1" by (simp_all add: pte_flag_defs)
  show "x AND PTE_D \<noteq> 0 \<longleftrightarrow> bit x 8" unfolding *(1) by (rule and_push_bit_1)
  show "x AND PTE_LIBRARY \<noteq> 0 \<longleftrightarrow> bit x 1" unfolding *(2) by (rule and_push_bit_1)
  show "x AND PTE_COW \<noteq> 0 \<longleftrightarrow> bit x 0" unfolding *(3) by (rule and_push_bit_1)
qed

lemma pte_bits0: "x AND PTE_D = 0 \<longleftrightarrow> \<not> bit x 8" "x AND PTE_LIBRARY = 0 \<longleftrightarrow> \<not> bit x 1" "x AND PTE_COW = 0 \<longleftrightarrow> \<not> bit x 0"
  using pte_bits [of x] by auto

lemma bit_fff: "bit (x AND 0xfff :: u32) k \<longleftrightarrow> k < 12 \<and> bit x k"
proof -
  have m: "(0xfff :: u32) = mask 12" by (simp add: mask_eq_exp_minus_1)
  show ?thesis unfolding m by (auto simp: bit_simps dest: bit_imp_le_length)
qed

lemma bit_D: "bit PTE_D k \<longleftrightarrow> k = 8"
proof -
  have *: "PTE_D = push_bit 8 1" by (simp add: pte_flag_defs)
  show ?thesis unfolding * by (auto simp: bit_simps simp del: push_bit_of_1)
qed

lemma bit_COW: "bit PTE_COW k \<longleftrightarrow> k = 0"
  by (simp add: PTE_COW_def bit_1_iff)

lemma bit_mapped_flags: "k \<in> {0, 1, 8} \<Longrightarrow> bit (mapped_flags p) k \<longleftrightarrow> bit p k"
proof -
  have v: "PTE_V = push_bit 7 1" "PTE_C_CACHEABLE = push_bit 9 1 OR push_bit 10 1" by (simp_all add: pte_flag_defs)
  have "bit (push_bit n (1 :: u32)) k \<longleftrightarrow> k = n \<and> n < 32" for n k by (auto simp: bit_simps)
  then show "k \<in> {0, 1, 8} \<Longrightarrow> bit (mapped_flags p) k \<longleftrightarrow> bit p k"
    unfolding mapped_flags_def v bit_or_iff by auto
qed

lemma cow_flags: "bit (mapped_flags PTE_COW) 0" "\<not> bit (mapped_flags PTE_COW) 1" "\<not> bit (mapped_flags PTE_COW) 8"
  by (simp_all add: bit_mapped_flags bit_COW)

section \<open>Lists\<close>

lemma last_notin_butlast: "last xs \<notin> set (butlast xs)" if "distinct xs" "xs \<noteq> []"
proof -
  have "distinct (butlast xs @ [last xs])"
    using that by simp
  then show ?thesis
    by (simp del: append_butlast_last_id)
qed

section \<open>Options\<close>

text \<open>Inversion of the \<open>do\<close> blocks, for forward reasoning on a returned result.\<close>

lemmas bind_Some_simps = Option.bind_eq_Some_conv

lemma if_None_eq_Some [simp]:
  "(if b then None else x) = Some y \<longleftrightarrow> \<not> b \<and> x = Some y"
  "(if b then x else None) = Some y \<longleftrightarrow> b \<and> x = Some y"
  by auto

text \<open>A loop over a list of indices whose body may stop.\<close>

primrec foldM :: "('a \<Rightarrow> 's \<Rightarrow> 's option) \<Rightarrow> 'a list \<Rightarrow> 's \<Rightarrow> 's option" where
  "foldM f [] s = Some s"
| "foldM f (x # xs) s = do { s \<leftarrow> f x s; foldM f xs s }"

lemma foldM_append: "foldM f (xs @ ys) s = do { s \<leftarrow> foldM f xs s; foldM f ys s }"
  by (induction xs arbitrary: s) (simp_all split: bind_splits)

text \<open>A loop keeps what its body keeps.\<close>

lemma foldM_invariant:
  assumes "P [] s"
    and "\<And>ys x zs s. xs = ys @ x # zs \<Longrightarrow> P ys s \<Longrightarrow> \<exists>s'. f x s = Some s' \<and> P (ys @ [x]) s'"
  shows "\<exists>s'. foldM f xs s = Some s' \<and> P xs s'"
  using assms
proof (induction xs arbitrary: s rule: rev_induct)
  case Nil
  then show ?case by simp
next
  case (snoc x xs)
  have "\<exists>s'. foldM f xs s = Some s' \<and> P xs s'"
    by (rule snoc.IH [OF snoc.prems(1)]) (use snoc.prems(2) in fastforce)
  then obtain s' where "foldM f xs s = Some s'" "P xs s'" by blast
  moreover obtain s'' where "f x s' = Some s''" "P (xs @ [x]) s''"
    using snoc.prems(2) [of xs x "[]"] \<open>P xs s'\<close> by auto
  ultimately show ?case
    by (auto simp: foldM_append)
qed

end
