(* ===== verification/MOS_Queue.thy ===== *)
theory MOS_Queue
  imports MOS_Prelude
begin

text \<open>
  The intrusive queues of \<^verbatim>\<open>include/queue.h\<close>. Elements are array indices (a
  \<^verbatim>\<open>struct Page *\<close> or a \<^verbatim>\<open>struct Env *\<close>), \<open>None\<close> is the null pointer, and the
  value of a \<^verbatim>\<open>struct type **\<close> link is the cell it points at: the head's first-element
  cell, some element's next cell, or null (the state of the zero-initialised arrays
  before the first insertion; storing through it stops the kernel). The macros are
  translated assignment by assignment, so that what they do to an element that is not on
  the queue, or is on it already, is what the C does. \<open>is_LIST\<close> and \<open>is_TAILQ\<close>
  relate the links to the sequence they represent, and the two locales at the end are the
  interface the allocators and the scheduler rely on.
\<close>

section \<open>Links\<close>

datatype slot = NullSlot | HeadSlot | NextSlot nat

record list_links =
  lh_first :: "nat option"
  le_next :: "nat \<Rightarrow> nat option"
  le_prev :: "nat \<Rightarrow> slot"

record tailq_links =
  tqh_first :: "nat option"
  tqh_last :: slot
  tqe_next :: "nat \<Rightarrow> nat option"
  tqe_prev :: "nat \<Rightarrow> slot"

text \<open>\<open>*sl = v\<close> for a list or tail-queue cell.\<close>

fun list_store :: "slot \<Rightarrow> nat option \<Rightarrow> list_links \<Rightarrow> list_links option" where
  "list_store NullSlot v l = None"
| "list_store HeadSlot v l = Some (l\<lparr>lh_first := v\<rparr>)"
| "list_store (NextSlot e) v l = Some (l\<lparr>le_next := (le_next l)(e := v)\<rparr>)"

fun tailq_store :: "slot \<Rightarrow> nat option \<Rightarrow> tailq_links \<Rightarrow> tailq_links option" where
  "tailq_store NullSlot v q = None"
| "tailq_store HeadSlot v q = Some (q\<lparr>tqh_first := v\<rparr>)"
| "tailq_store (NextSlot e) v q = Some (q\<lparr>tqe_next := (tqe_next q)(e := v)\<rparr>)"

section \<open>List macros\<close>

definition LIST_EMPTY :: "list_links \<Rightarrow> bool" where
  "LIST_EMPTY l \<longleftrightarrow> lh_first l = None"

definition LIST_FIRST :: "list_links \<Rightarrow> nat option" where
  "LIST_FIRST l = lh_first l"

definition LIST_NEXT :: "nat \<Rightarrow> list_links \<Rightarrow> nat option" where
  "LIST_NEXT elm l = le_next l elm"

definition LIST_INIT :: "list_links \<Rightarrow> list_links" where
  "LIST_INIT l = l\<lparr>lh_first := None\<rparr>"

definition LIST_INSERT_AFTER :: "nat \<Rightarrow> nat \<Rightarrow> list_links \<Rightarrow> list_links" where
  "LIST_INSERT_AFTER listelm elm l =
    (let l = l\<lparr>le_next := (le_next l)(elm := le_next l listelm)\<rparr>;
         l = (case le_next l elm of
                None \<Rightarrow> l
              | Some _ \<Rightarrow>
                  (case le_next l listelm of
                     None \<Rightarrow> l
                   | Some nx \<Rightarrow> l\<lparr>le_prev := (le_prev l)(nx := NextSlot elm)\<rparr>));
         l = l\<lparr>le_next := (le_next l)(listelm := Some elm)\<rparr>
     in l\<lparr>le_prev := (le_prev l)(elm := NextSlot listelm)\<rparr>)"

definition LIST_INSERT_BEFORE :: "nat \<Rightarrow> nat \<Rightarrow> list_links \<Rightarrow> list_links option" where
  "LIST_INSERT_BEFORE listelm elm l =
    (let l = l\<lparr>le_prev := (le_prev l)(elm := le_prev l listelm)\<rparr>;
         l = l\<lparr>le_next := (le_next l)(elm := Some listelm)\<rparr>
     in do {
          l \<leftarrow> list_store (le_prev l listelm) (Some elm) l;
          Some (l\<lparr>le_prev := (le_prev l)(listelm := NextSlot elm)\<rparr>)
        })"

definition LIST_INSERT_HEAD :: "nat \<Rightarrow> list_links \<Rightarrow> list_links" where
  "LIST_INSERT_HEAD elm l =
    (let l = l\<lparr>le_next := (le_next l)(elm := lh_first l)\<rparr>;
         l = (case lh_first l of
                None \<Rightarrow> l
              | Some f \<Rightarrow> l\<lparr>le_prev := (le_prev l)(f := NextSlot elm)\<rparr>);
         l = l\<lparr>lh_first := Some elm\<rparr>
     in l\<lparr>le_prev := (le_prev l)(elm := HeadSlot)\<rparr>)"

definition LIST_REMOVE :: "nat \<Rightarrow> list_links \<Rightarrow> list_links option" where
  "LIST_REMOVE elm l =
    (let l = (case le_next l elm of
                None \<Rightarrow> l
              | Some nx \<Rightarrow> l\<lparr>le_prev := (le_prev l)(nx := le_prev l elm)\<rparr>)
     in list_store (le_prev l elm) (le_next l elm) l)"

section \<open>Tail queue macros\<close>

definition TAILQ_EMPTY :: "tailq_links \<Rightarrow> bool" where
  "TAILQ_EMPTY q \<longleftrightarrow> tqh_first q = None"

definition TAILQ_FIRST :: "tailq_links \<Rightarrow> nat option" where
  "TAILQ_FIRST q = tqh_first q"

definition TAILQ_NEXT :: "nat \<Rightarrow> tailq_links \<Rightarrow> nat option" where
  "TAILQ_NEXT elm q = tqe_next q elm"

definition TAILQ_INIT :: "tailq_links \<Rightarrow> tailq_links" where
  "TAILQ_INIT q = q\<lparr>tqh_first := None, tqh_last := HeadSlot\<rparr>"

definition TAILQ_INSERT_HEAD :: "nat \<Rightarrow> tailq_links \<Rightarrow> tailq_links" where
  "TAILQ_INSERT_HEAD elm q =
    (let q = q\<lparr>tqe_next := (tqe_next q)(elm := tqh_first q)\<rparr>;
         q = (case tqh_first q of
                None \<Rightarrow> q\<lparr>tqh_last := NextSlot elm\<rparr>
              | Some f \<Rightarrow> q\<lparr>tqe_prev := (tqe_prev q)(f := NextSlot elm)\<rparr>);
         q = q\<lparr>tqh_first := Some elm\<rparr>
     in q\<lparr>tqe_prev := (tqe_prev q)(elm := HeadSlot)\<rparr>)"

definition TAILQ_INSERT_TAIL :: "nat \<Rightarrow> tailq_links \<Rightarrow> tailq_links option" where
  "TAILQ_INSERT_TAIL elm q =
    (let q = q\<lparr>tqe_next := (tqe_next q)(elm := None)\<rparr>;
         q = q\<lparr>tqe_prev := (tqe_prev q)(elm := tqh_last q)\<rparr>
     in do {
          q \<leftarrow> tailq_store (tqh_last q) (Some elm) q;
          Some (q\<lparr>tqh_last := NextSlot elm\<rparr>)
        })"

definition TAILQ_INSERT_AFTER :: "nat \<Rightarrow> nat \<Rightarrow> tailq_links \<Rightarrow> tailq_links" where
  "TAILQ_INSERT_AFTER listelm elm q =
    (let q = q\<lparr>tqe_next := (tqe_next q)(elm := tqe_next q listelm)\<rparr>;
         q = (case tqe_next q elm of
                None \<Rightarrow> q\<lparr>tqh_last := NextSlot elm\<rparr>
              | Some nx \<Rightarrow> q\<lparr>tqe_prev := (tqe_prev q)(nx := NextSlot elm)\<rparr>);
         q = q\<lparr>tqe_next := (tqe_next q)(listelm := Some elm)\<rparr>
     in q\<lparr>tqe_prev := (tqe_prev q)(elm := NextSlot listelm)\<rparr>)"

definition TAILQ_INSERT_BEFORE :: "nat \<Rightarrow> nat \<Rightarrow> tailq_links \<Rightarrow> tailq_links option" where
  "TAILQ_INSERT_BEFORE listelm elm q =
    (let q = q\<lparr>tqe_prev := (tqe_prev q)(elm := tqe_prev q listelm)\<rparr>;
         q = q\<lparr>tqe_next := (tqe_next q)(elm := Some listelm)\<rparr>
     in do {
          q \<leftarrow> tailq_store (tqe_prev q listelm) (Some elm) q;
          Some (q\<lparr>tqe_prev := (tqe_prev q)(listelm := NextSlot elm)\<rparr>)
        })"

definition TAILQ_REMOVE :: "nat \<Rightarrow> tailq_links \<Rightarrow> tailq_links option" where
  "TAILQ_REMOVE elm q =
    (let q = (case tqe_next q elm of
                None \<Rightarrow> q\<lparr>tqh_last := tqe_prev q elm\<rparr>
              | Some nx \<Rightarrow> q\<lparr>tqe_prev := (tqe_prev q)(nx := tqe_prev q elm)\<rparr>)
     in tailq_store (tqe_prev q elm) (tqe_next q elm) q)"

section \<open>The sequence a chain of links represents\<close>

text \<open>
  \<open>lseg nx pv p sl xs q sl'\<close>: following next cells from the pointer \<open>p\<close> (stored in
  the cell \<open>sl\<close>) visits \<open>xs\<close> and arrives at the pointer \<open>q\<close>, stored in the cell
  \<open>sl'\<close>, and the previous-cell links agree.
\<close>

fun lseg :: "(nat \<Rightarrow> nat option) \<Rightarrow> (nat \<Rightarrow> slot) \<Rightarrow> nat option \<Rightarrow> slot \<Rightarrow> nat list \<Rightarrow>
    nat option \<Rightarrow> slot \<Rightarrow> bool" where
  "lseg nx pv p sl [] q sl' \<longleftrightarrow> p = q \<and> sl = sl'"
| "lseg nx pv p sl (x # xs) q sl' \<longleftrightarrow>
     p = Some x \<and> pv x = sl \<and> lseg nx pv (nx x) (NextSlot x) xs q sl'"

definition is_LIST :: "list_links \<Rightarrow> nat list \<Rightarrow> bool" where
  "is_LIST l xs \<longleftrightarrow> distinct xs \<and>
     (\<exists>sl. lseg (le_next l) (le_prev l) (lh_first l) HeadSlot xs None sl)"

definition is_TAILQ :: "tailq_links \<Rightarrow> nat list \<Rightarrow> bool" where
  "is_TAILQ q xs \<longleftrightarrow> distinct xs \<and>
     lseg (tqe_next q) (tqe_prev q) (tqh_first q) HeadSlot xs None (tqh_last q)"

definition last_slot :: "slot \<Rightarrow> nat list \<Rightarrow> slot" where
  "last_slot sl xs = (if xs = [] then sl else NextSlot (last xs))"

lemma last_slot_simps [simp]:
  "last_slot sl [] = sl"
  "last_slot sl (x # xs) = last_slot (NextSlot x) xs"
  "last_slot sl (xs @ [x]) = NextSlot x"
  by (simp_all add: last_slot_def)

lemma lseg_end: "lseg nx pv p sl xs q sl' \<Longrightarrow> sl' = last_slot sl xs"
  by (induction xs arbitrary: p sl) auto

lemma lseg_append:
  "lseg nx pv p sl (xs @ ys) q sl' \<longleftrightarrow>
     (\<exists>r sl''. lseg nx pv p sl xs r sl'' \<and> lseg nx pv r sl'' ys q sl')"
  by (induction xs arbitrary: p sl) auto

lemma lseg_upd_next [simp]:
  "x \<notin> set xs \<Longrightarrow> lseg (nx(x := v)) pv p sl xs q sl' = lseg nx pv p sl xs q sl'"
  by (induction xs arbitrary: p sl) auto

lemma lseg_upd_prev [simp]:
  "x \<notin> set xs \<Longrightarrow> lseg nx (pv(x := v)) p sl xs q sl' = lseg nx pv p sl xs q sl'"
  by (induction xs arbitrary: p sl) auto

lemma lseg_first: "lseg nx pv p sl xs None sl' \<Longrightarrow> p = (case xs of [] \<Rightarrow> None | x # _ \<Rightarrow> Some x)"
  by (cases xs) auto

lemma lseg_unique:
  "lseg nx pv p sl xs None a \<Longrightarrow> lseg nx pv p sl ys None b \<Longrightarrow> xs = ys"
proof (induction xs arbitrary: p sl ys)
  case Nil
  then show ?case by (cases ys) auto
next
  case (Cons x xs)
  then show ?case by (cases ys) auto
qed

text \<open>Redirecting the last next cell of a segment.\<close>

lemma lseg_upd_last:
  "distinct (xs @ [x]) \<Longrightarrow> lseg nx pv p sl (xs @ [x]) q sl' \<Longrightarrow>
     lseg (nx(x := r)) pv p sl (xs @ [x]) r (NextSlot x)"
  by (auto simp: lseg_append)

text \<open>Replacing what follows a prefix: the cell at its end is redirected and the first element
  of the new rest points back at that cell.\<close>

lemma lseg_splice:
  assumes "lseg nx pv p sl (ys @ zs) q sl'" "distinct (ys @ zs)" "ys \<noteq> []"
    and "lseg nx' pv' r (NextSlot (last ys)) ws q' sl''"
    and "\<And>x. x \<in> set (butlast ys) \<Longrightarrow> nx' x = nx x" "\<And>x. x \<in> set ys \<Longrightarrow> pv' x = pv x"
    and "nx' (last ys) = r"
  shows "lseg nx' pv' p sl (ys @ ws) q' sl''"
  using assms
proof (induction ys arbitrary: p sl)
  case Nil
  then show ?case by simp
next
  case (Cons y ys)
  show ?case
  proof (cases "ys = []")
    case True
    with Cons.prems show ?thesis by auto
  next
    case False
    with Cons.prems have "lseg nx' pv' (nx y) (NextSlot y) (ys @ ws) q' sl''"
      by (intro Cons.IH) auto
    with False Cons.prems show ?thesis by auto
  qed
qed

section \<open>The macros on a well-formed queue\<close>

lemma lseg_remove:
  assumes seg: "lseg nx pv p HeadSlot (ys @ x # zs) None e" and dist: "distinct (ys @ x # zs)"
  shows "pv x = last_slot HeadSlot ys"
    and "lseg (if ys = [] then nx else nx(last ys := nx x))
           (case nx x of None \<Rightarrow> pv | Some z \<Rightarrow> pv(z := pv x))
           (if ys = [] then nx x else p) HeadSlot (ys @ zs) None (if zs = [] then pv x else e)"
    and "nx x = (case zs of [] \<Rightarrow> None | z # _ \<Rightarrow> Some z)"
proof -
  from seg obtain r s where pre: "lseg nx pv p HeadSlot ys (Some x) s" "pv x = s" "r = Some x"
      and post: "lseg nx pv (nx x) (NextSlot x) zs None e"
    by (auto simp: lseg_append)
  from pre show pv: "pv x = last_slot HeadSlot ys"
    using lseg_end by blast
  from post show nx: "nx x = (case zs of [] \<Rightarrow> None | z # _ \<Rightarrow> Some z)"
    by (rule lseg_first)
  let ?pv = "case nx x of None \<Rightarrow> pv | Some z \<Rightarrow> pv(z := pv x)"
  let ?nx = "if ys = [] then nx else nx(last ys := nx x)"
  have rest: "lseg ?nx ?pv (nx x) (last_slot HeadSlot ys) zs None (if zs = [] then pv x else e)"
  proof (cases zs)
    case Nil
    with nx pv show ?thesis by simp
  next
    case (Cons z zs')
    have "last ys \<noteq> z" "last ys \<notin> set zs'" if "ys \<noteq> []"
      using that dist Cons by (auto dest: last_in_set)
    with Cons nx pv post dist show ?thesis
      by auto
  qed
  show "lseg ?nx ?pv (if ys = [] then nx x else p) HeadSlot (ys @ zs) None (if zs = [] then pv x else e)"
  proof (cases "ys = []")
    case True
    with rest show ?thesis by simp
  next
    case False
    have "last ys \<notin> set (butlast ys)"
      using False dist by (intro last_notin_butlast) simp_all
    then have "?nx y = nx y" if "y \<in> set (butlast ys)" for y
      using that False by auto
    moreover have "?pv y = pv y" if "y \<in> set ys" for y
      using that dist nx by (cases zs) auto
    moreover have "lseg ?nx ?pv (nx x) (NextSlot (last ys)) zs None (if zs = [] then pv x else e)"
      using rest False by (simp only: last_slot_def if_False)
    ultimately have "lseg ?nx ?pv p HeadSlot (ys @ zs) None (if zs = [] then pv x else e)"
      using False by (intro lseg_splice [OF seg dist False]) simp_all
    with False show ?thesis by simp
  qed
qed

lemma list_remove_split:
  "distinct (ys @ x # zs) \<Longrightarrow> remove1 x (ys @ x # zs) = ys @ zs"
  by (simp add: remove1_append)

lemma LIST_INIT_seq: "is_LIST (LIST_INIT l) []"
  by (simp add: is_LIST_def LIST_INIT_def)

lemma LIST_FIRST_seq: "is_LIST l xs \<Longrightarrow> LIST_FIRST l = (case xs of [] \<Rightarrow> None | x # _ \<Rightarrow> Some x)"
  by (auto simp: is_LIST_def LIST_FIRST_def dest: lseg_first)

lemma LIST_EMPTY_seq: "is_LIST l xs \<Longrightarrow> LIST_EMPTY l \<longleftrightarrow> xs = []"
  by (auto simp: LIST_EMPTY_def is_LIST_def dest!: lseg_first split: list.splits)

lemma is_LIST_distinct: "is_LIST l xs \<Longrightarrow> distinct xs"
  by (simp add: is_LIST_def)

lemma is_LIST_unique: "is_LIST l xs \<Longrightarrow> is_LIST l ys \<Longrightarrow> xs = ys"
  by (auto simp: is_LIST_def dest: lseg_unique)

lemma LIST_INSERT_HEAD_seq:
  assumes "is_LIST l xs" "x \<notin> set xs"
  shows "is_LIST (LIST_INSERT_HEAD x l) (x # xs)"
proof (cases xs)
  case Nil
  with assms show ?thesis
    by (auto simp: is_LIST_def LIST_INSERT_HEAD_def)
next
  case (Cons y ys)
  with assms show ?thesis
    by (auto simp: is_LIST_def LIST_INSERT_HEAD_def)
qed

lemma LIST_REMOVE_seq:
  assumes "is_LIST l xs" "x \<in> set xs"
  shows "\<exists>l'. LIST_REMOVE x l = Some l' \<and> is_LIST l' (remove1 x xs)"
proof -
  from \<open>x \<in> set xs\<close> obtain ys zs where xs: "xs = ys @ x # zs"
    by (auto dest: split_list)
  with assms obtain sl where dist: "distinct (ys @ x # zs)"
    and seg: "lseg (le_next l) (le_prev l) (lh_first l) HeadSlot (ys @ x # zs) None sl"
    by (auto simp: is_LIST_def)
  note rm = lseg_remove [OF seg dist]
  have self: "le_next l x \<noteq> Some x"
    using rm(3) dist by (auto split: list.splits)
  show ?thesis
  proof (cases "ys = []")
    case True
    with rm self dist show ?thesis
      by (auto simp: LIST_REMOVE_def is_LIST_def xs split: option.splits intro!: exI)
  next
    case False
    with rm self have "LIST_REMOVE x l = Some (l\<lparr>
        le_prev := (case le_next l x of None \<Rightarrow> le_prev l | Some z \<Rightarrow> (le_prev l)(z := le_prev l x)),
        le_next := (le_next l)(last ys := le_next l x)\<rparr>)"
      by (auto simp: LIST_REMOVE_def last_slot_def split: option.splits)
    with rm(2) False dist show ?thesis
      by (auto simp: is_LIST_def xs list_remove_split [OF dist])
  qed
qed

lemma LIST_INSERT_AFTER_seq:
  assumes "is_LIST l (ys @ y # zs)" "x \<notin> set (ys @ y # zs)"
  shows "is_LIST (LIST_INSERT_AFTER y x l) (ys @ y # x # zs)"
  using assms
  by (cases zs) (auto simp: is_LIST_def LIST_INSERT_AFTER_def lseg_append intro!: exI)

lemma TAILQ_INIT_seq: "is_TAILQ (TAILQ_INIT q) []"
  by (simp add: is_TAILQ_def TAILQ_INIT_def)

lemma TAILQ_FIRST_seq: "is_TAILQ q xs \<Longrightarrow> TAILQ_FIRST q = (case xs of [] \<Rightarrow> None | x # _ \<Rightarrow> Some x)"
  by (auto simp: is_TAILQ_def TAILQ_FIRST_def dest: lseg_first)

lemma TAILQ_EMPTY_seq: "is_TAILQ q xs \<Longrightarrow> TAILQ_EMPTY q \<longleftrightarrow> xs = []"
  by (auto simp: TAILQ_EMPTY_def is_TAILQ_def dest!: lseg_first split: list.splits)

lemma is_TAILQ_distinct: "is_TAILQ q xs \<Longrightarrow> distinct xs"
  by (simp add: is_TAILQ_def)

lemma is_TAILQ_unique: "is_TAILQ q xs \<Longrightarrow> is_TAILQ q ys \<Longrightarrow> xs = ys"
  by (auto simp: is_TAILQ_def dest: lseg_unique)

lemma TAILQ_INSERT_HEAD_seq:
  assumes "is_TAILQ q xs" "x \<notin> set xs"
  shows "is_TAILQ (TAILQ_INSERT_HEAD x q) (x # xs)"
  using assms by (cases xs) (auto simp: is_TAILQ_def TAILQ_INSERT_HEAD_def)

lemma lseg_insert_tail:
  assumes "lseg nx pv p HeadSlot xs None e" "distinct xs" "x \<notin> set xs" "xs \<noteq> []"
  shows "lseg (nx(x := None, last xs := Some x)) (pv(x := e)) p HeadSlot (xs @ [x]) None (NextSlot x)"
proof -
  have e: "e = NextSlot (last xs)"
    using assms(1,4) by (auto simp: last_slot_def dest: lseg_end)
  have ne: "last xs \<noteq> x"
    using assms(3,4) last_in_set by blast
  have seg: "lseg nx pv p HeadSlot (xs @ []) None e" and dist: "distinct (xs @ [])"
    using assms by simp_all
  show ?thesis
    using ne e assms(3) last_notin_butlast [OF assms(2,4)]
    by (intro lseg_splice [OF seg dist assms(4), where r = "Some x"])
      (auto dest: in_set_butlastD)
qed

lemma TAILQ_INSERT_TAIL_seq:
  assumes "is_TAILQ q xs" "x \<notin> set xs"
  shows "\<exists>q'. TAILQ_INSERT_TAIL x q = Some q' \<and> is_TAILQ q' (xs @ [x])"
proof (cases "xs = []")
  case True
  with assms show ?thesis
    by (auto simp: is_TAILQ_def TAILQ_INSERT_TAIL_def)
next
  case False
  from assms have seg: "lseg (tqe_next q) (tqe_prev q) (tqh_first q) HeadSlot xs None (tqh_last q)"
    and dist: "distinct xs"
    by (auto simp: is_TAILQ_def)
  with False have "tqh_last q = NextSlot (last xs)"
    by (auto simp: last_slot_def dest: lseg_end)
  with lseg_insert_tail [OF seg dist assms(2) False] dist assms(2) show ?thesis
    by (auto simp: is_TAILQ_def TAILQ_INSERT_TAIL_def)
qed

lemma TAILQ_REMOVE_seq:
  assumes "is_TAILQ q xs" "x \<in> set xs"
  shows "\<exists>q'. TAILQ_REMOVE x q = Some q' \<and> is_TAILQ q' (remove1 x xs)"
proof -
  from \<open>x \<in> set xs\<close> obtain ys zs where xs: "xs = ys @ x # zs"
    by (auto dest: split_list)
  with assms have dist: "distinct (ys @ x # zs)"
    and seg: "lseg (tqe_next q) (tqe_prev q) (tqh_first q) HeadSlot (ys @ x # zs) None (tqh_last q)"
    by (auto simp: is_TAILQ_def)
  note rm = lseg_remove [OF seg dist]
  have self: "tqe_next q x \<noteq> Some x"
    using rm(3) dist by (auto split: list.splits)
  show ?thesis
  proof (cases zs)
    case Nil
    with rm self dist show ?thesis
      by (cases "ys = []") (auto simp: TAILQ_REMOVE_def is_TAILQ_def xs last_slot_def
          list_remove_split split: option.splits)
  next
    case (Cons z zs')
    with rm self dist show ?thesis
      by (cases "ys = []") (auto simp: TAILQ_REMOVE_def is_TAILQ_def xs last_slot_def
          list_remove_split split: option.splits)
  qed
qed

text \<open>
  Removing an element keeps its own links, so removing it a second time, with no other
  operation in between, stores the same values into the same cells. The scheduler does
  this when the blocked process has already taken itself off the queue.
\<close>

lemma TAILQ_REMOVE_twice:
  assumes q: "is_TAILQ q xs" "x \<in> set xs" and rm: "TAILQ_REMOVE x q = Some q'"
  shows "TAILQ_REMOVE x q' = Some q'"
proof -
  from \<open>x \<in> set xs\<close> obtain ys zs where xs: "xs = ys @ x # zs"
    by (auto dest: split_list)
  with q have dist: "distinct (ys @ x # zs)"
    and seg: "lseg (tqe_next q) (tqe_prev q) (tqh_first q) HeadSlot (ys @ x # zs) None (tqh_last q)"
    by (auto simp: is_TAILQ_def)
  note seg' = lseg_remove(1,3) [OF seg dist]
  have self: "tqe_next q x \<noteq> Some x"
    using seg'(2) dist by (auto split: list.splits)
  have prev: "tqe_prev q x = HeadSlot \<or> (\<exists>y. y \<noteq> x \<and> tqe_prev q x = NextSlot y)"
    using seg'(1) dist by (auto simp: last_slot_def split: if_splits dest: last_in_set)
  from self prev rm show ?thesis
    by (auto simp: TAILQ_REMOVE_def split: option.splits)
qed

section \<open>The interface of the queues\<close>

text \<open>
  What the free lists and the run queue of the kernel rely on: each operation refines the
  obvious operation on the represented sequence. \<^verbatim>\<open>LIST\<close> gives the first interface,
  \<^verbatim>\<open>TAILQ\<close> the second, which adds insertion at the tail.
\<close>

locale intrusive_list =
  fixes seq :: "'q \<Rightarrow> nat list \<Rightarrow> bool"
    and first :: "'q \<Rightarrow> nat option"
    and ins_head :: "nat \<Rightarrow> 'q \<Rightarrow> 'q"
    and remove :: "nat \<Rightarrow> 'q \<Rightarrow> 'q option"
  assumes seq_distinct: "seq q xs \<Longrightarrow> distinct xs"
    and seq_unique: "seq q xs \<Longrightarrow> seq q ys \<Longrightarrow> xs = ys"
    and first_seq: "seq q xs \<Longrightarrow> first q = (case xs of [] \<Rightarrow> None | x # _ \<Rightarrow> Some x)"
    and ins_head_seq: "seq q xs \<Longrightarrow> x \<notin> set xs \<Longrightarrow> seq (ins_head x q) (x # xs)"
    and remove_seq: "seq q xs \<Longrightarrow> x \<in> set xs \<Longrightarrow>
      \<exists>q'. remove x q = Some q' \<and> seq q' (remove1 x xs)"
begin

lemma removeE:
  assumes "seq q xs" "x \<in> set xs"
  obtains q' where "remove x q = Some q'" "seq q' (remove1 x xs)"
  using remove_seq [OF assms] by blast

lemma pop:
  assumes "first q = Some x" "seq q xs"
  shows "\<exists>ys q'. xs = x # ys \<and> remove x q = Some q' \<and> seq q' ys"
proof -
  from assms obtain ys where xs: "xs = x # ys"
    by (auto dest: first_seq split: list.splits)
  with assms(2) obtain q' where "remove x q = Some q'" "seq q' (remove1 x xs)"
    by (auto elim: removeE)
  with xs show ?thesis by auto
qed

lemma push_pop:
  assumes "seq q xs" "x \<notin> set xs"
  shows "first (ins_head x q) = Some x"
    and "\<exists>q'. remove x (ins_head x q) = Some q' \<and> seq q' xs"
proof -
  note q = ins_head_seq [OF assms]
  show "first (ins_head x q) = Some x"
    using first_seq [OF q] by simp
  from pop [OF this q] show "\<exists>q'. remove x (ins_head x q) = Some q' \<and> seq q' xs"
    by auto
qed

lemma remove_commute:
  assumes "seq q xs" "x \<in> set xs" "y \<in> set xs" "x \<noteq> y"
  shows "\<exists>q1 q2. Option.bind (remove x q) (remove y) = Some q1 \<and>
    Option.bind (remove y q) (remove x) = Some q2 \<and>
    seq q1 (remove1 x (remove1 y xs)) \<and> seq q2 (remove1 x (remove1 y xs))"
proof -
  from assms obtain a where a: "remove x q = Some a" "seq a (remove1 x xs)"
    by (auto elim: removeE)
  from assms obtain b where b: "remove y q = Some b" "seq b (remove1 y xs)"
    by (auto elim: removeE)
  have mem: "y \<in> set (remove1 x xs)" "x \<in> set (remove1 y xs)"
    using assms by auto
  from a(2) mem(1) obtain c where c: "remove y a = Some c" "seq c (remove1 y (remove1 x xs))"
    by (rule removeE)
  from b(2) mem(2) obtain d where d: "remove x b = Some d" "seq d (remove1 x (remove1 y xs))"
    by (rule removeE)
  have "remove1 y (remove1 x xs) = remove1 x (remove1 y xs)"
    by (rule remove1_commute)
  with a b c d show ?thesis by auto
qed

end

locale intrusive_tailq = intrusive_list seq first ins_head remove
  for seq :: "'q \<Rightarrow> nat list \<Rightarrow> bool" and first and ins_head and remove +
  fixes ins_tail :: "nat \<Rightarrow> 'q \<Rightarrow> 'q option"
  assumes ins_tail_seq: "seq q xs \<Longrightarrow> x \<notin> set xs \<Longrightarrow>
    \<exists>q'. ins_tail x q = Some q' \<and> seq q' (xs @ [x])"
begin

text \<open>Moving an element to the tail, the rotation of a round-robin queue.\<close>

lemma to_tail:
  assumes "seq q xs" "x \<in> set xs"
  shows "\<exists>q'. Option.bind (remove x q) (ins_tail x) = Some q' \<and> seq q' (remove1 x xs @ [x])"
proof -
  from assms obtain a where a: "remove x q = Some a" "seq a (remove1 x xs)"
    by (rule removeE)
  have "x \<notin> set (remove1 x xs)"
    using seq_distinct [OF assms(1)] by simp
  with a show ?thesis
    using ins_tail_seq by auto
qed

text \<open>First in, first out: an element enqueued behind \<open>xs\<close> is first once \<open>xs\<close> are gone.\<close>

lemma fifo:
  assumes "seq q [y]" "x \<noteq> y"
  shows "\<exists>q1 q2. ins_tail x q = Some q1 \<and> remove y q1 = Some q2 \<and> first q2 = Some x"
proof -
  from assms obtain a where a: "ins_tail x q = Some a" "seq a [y, x]"
    using ins_tail_seq [of q "[y]" x] by auto
  then obtain b where b: "remove y a = Some b" "seq b [x]"
    using remove_seq [of a "[y, x]" y] by auto
  with a show ?thesis
    using first_seq [OF b(2)] by auto
qed

end

interpretation lst: intrusive_list is_LIST LIST_FIRST LIST_INSERT_HEAD LIST_REMOVE
  by unfold_locales
    (auto intro: is_LIST_distinct is_LIST_unique LIST_FIRST_seq LIST_INSERT_HEAD_seq LIST_REMOVE_seq)

interpretation tq: intrusive_tailq is_TAILQ TAILQ_FIRST TAILQ_INSERT_HEAD TAILQ_REMOVE TAILQ_INSERT_TAIL
  by unfold_locales
    (auto intro: is_TAILQ_distinct is_TAILQ_unique TAILQ_FIRST_seq TAILQ_INSERT_HEAD_seq
      TAILQ_REMOVE_seq TAILQ_INSERT_TAIL_seq)

end
