(* ===== verification/MOS_Pmap.thy ===== *)
theory MOS_Pmap
  imports MOS_Queue
begin

text \<open>
  Physical memory and page tables: \<^verbatim>\<open>kern/pmap.c\<close>, \<^verbatim>\<open>include/pmap.h\<close>, and the TLB
  routines they call (\<^verbatim>\<open>kern/tlbex.c\<close>, \<^verbatim>\<open>kern/tlb_asm.S\<close>).

  A \<^verbatim>\<open>struct Page *\<close> is its index in \<^verbatim>\<open>pages\<close>, which is the number of the physical
  page it describes. Physical memory is \<open>frame\<close>: page number, then the index of the
  32-bit word in the page. A kernel pointer into kseg0 that points at a page-sized table
  (\<^verbatim>\<open>Pde *pgdir\<close>) is the number of that page, and a \<^verbatim>\<open>Pte *\<close> is the pair of the page
  and the index of the entry. Page tables live in the same \<open>frame\<close> as every other page,
  so that clearing or overwriting a page that is in use as a table is visible.
\<close>

section \<open>State\<close>

record tlb_entry =
  entryhi :: u32
  entrylo0 :: u32
  entrylo1 :: u32

record pmap =
  memsize :: u32
  npage :: nat
  freemem :: u32
  pages :: u32
  pp_ref :: "nat \<Rightarrow> u16"
  page_free_list :: list_links
  frame :: "nat \<Rightarrow> nat \<Rightarrow> u32"
  tlb :: "tlb_entry list"

type_synonym pte_ptr = "nat \<times> nat"

abbreviation pte_at :: "pmap \<Rightarrow> pte_ptr \<Rightarrow> u32" where
  "pte_at s p \<equiv> frame s (fst p) (snd p)"

definition store_pte :: "pte_ptr \<Rightarrow> u32 \<Rightarrow> pmap \<Rightarrow> pmap" where
  "store_pte p v s = s\<lparr>frame := (frame s)(fst p := (frame s (fst p))(snd p := v))\<rparr>"

section \<open>Pages and addresses (include/pmap.h, include/mmu.h)\<close>

definition page2ppn :: "nat \<Rightarrow> nat" where
  "page2ppn pp = pp"

definition page2pa :: "nat \<Rightarrow> u32" where
  "page2pa pp = push_bit 12 (of_nat (page2ppn pp))"

definition pa2page :: "pmap \<Rightarrow> u32 \<Rightarrow> nat option" where
  "pa2page s pa = (if npage s \<le> PPN pa then None else Some (PPN pa))"

text \<open>\<^verbatim>\<open>KADDR\<close> panics outside physical memory; its result is represented by the page.\<close>

definition KADDR :: "pmap \<Rightarrow> u32 \<Rightarrow> nat option" where
  "KADDR s pa = (if npage s \<le> PPN pa then None else Some (PPN pa))"

definition page2kva :: "pmap \<Rightarrow> nat \<Rightarrow> nat option" where
  "page2kva s pp = KADDR s (page2pa pp)"

definition va2pa :: "pmap \<Rightarrow> nat \<Rightarrow> u32 \<Rightarrow> u32 option" where
  "va2pa s pgdir va =
    (let pde = frame s pgdir (PDX va) in
     if \<not> pte_valid pde then Some (NOT 0)
     else do {
       p \<leftarrow> KADDR s (PTE_ADDR pde);
       let pte = frame s p (PTX va);
       if \<not> pte_valid pte then Some (NOT 0) else Some (PTE_ADDR pte)
     })"

section \<open>TLB (kern/tlbex.c, kern/tlb_asm.S)\<close>

text \<open>\<^verbatim>\<open>tlbp\<close> matches the virtual page pair and, unless both halves are global, the ASID.\<close>

definition tlb_match :: "u32 \<Rightarrow> tlb_entry \<Rightarrow> bool" where
  "tlb_match hi e \<longleftrightarrow> drop_bit 13 hi = drop_bit 13 (entryhi e) \<and>
     (hi AND 0xFF = entryhi e AND 0xFF \<or> bit (entrylo0 e) 0 \<and> bit (entrylo1 e) 0)"

fun tlb_zap :: "u32 \<Rightarrow> tlb_entry list \<Rightarrow> tlb_entry list" where
  "tlb_zap hi [] = []"
| "tlb_zap hi (e # es) =
     (if tlb_match hi e then \<lparr>entryhi = 0, entrylo0 = 0, entrylo1 = 0\<rparr> # es
      else e # tlb_zap hi es)"

definition tlb_out :: "u32 \<Rightarrow> pmap \<Rightarrow> pmap" where
  "tlb_out hi s = s\<lparr>tlb := tlb_zap hi (tlb s)\<rparr>"

definition GENMASK :: "nat \<Rightarrow> nat \<Rightarrow> u32" where
  "GENMASK h l = push_bit l (NOT 0) AND drop_bit (32 - 1 - h) (NOT 0)"

definition tlb_invalidate :: "u32 \<Rightarrow> u32 \<Rightarrow> pmap \<Rightarrow> pmap" where
  "tlb_invalidate asid va s =
     tlb_out ((va AND NOT (GENMASK 12 0)) OR (asid AND (of_nat NASID - 1))) s"

section \<open>Boot-time memory (kern/pmap.c)\<close>

definition mips_detect_memory :: "u32 \<Rightarrow> pmap \<Rightarrow> pmap" where
  "mips_detect_memory ms s =
    (let s = s\<lparr>memsize := ms\<rparr>
     in s\<lparr>npage := unat (memsize s div PAGE_SIZE)\<rparr>)"

text \<open>\<^verbatim>\<open>memset(a, 0, n)\<close> on physical memory, for the word-aligned ranges of the boot
  allocator.\<close>

definition zero_range :: "nat \<Rightarrow> nat \<Rightarrow> (nat \<Rightarrow> nat \<Rightarrow> u32) \<Rightarrow> nat \<Rightarrow> nat \<Rightarrow> u32" where
  "zero_range a n f p i =
     (if a \<le> p * 4096 + 4 * i \<and> p * 4096 + 4 * i < a + n \<and> i < 1024 then 0 else f p i)"

text \<open>\<^verbatim>\<open>end\<close> is the linker's symbol, a parameter.\<close>

definition alloc :: "u32 \<Rightarrow> u32 \<Rightarrow> u32 \<Rightarrow> bool \<Rightarrow> pmap \<Rightarrow> (u32 \<times> pmap) option" where
  "alloc end_sym n align clear s =
    (let s = (if freemem s = 0 then s\<lparr>freemem := end_sym\<rparr> else s);
         s = s\<lparr>freemem := ROUND (freemem s) align\<rparr>;
         alloced_mem = freemem s;
         s = s\<lparr>freemem := freemem s + n\<rparr>
     in do {
          pa \<leftarrow> PADDR (freemem s);
          if memsize s \<le> pa then None
          else Some (alloced_mem,
            if clear then s\<lparr>frame := zero_range (unat (alloced_mem - ULIM)) (unat n) (frame s)\<rparr> else s)
        })"

text \<open>\<^verbatim>\<open>sizeof(struct Page)\<close> is 12. The allocated range is the \<^verbatim>\<open>pages\<close> array itself,
  cleared: every reference count 0 and every link null.\<close>

definition mips_vm_init :: "u32 \<Rightarrow> pmap \<Rightarrow> pmap option" where
  "mips_vm_init end_sym s = do {
     (a, s) \<leftarrow> alloc end_sym (of_nat (npage s) * 12) PAGE_SIZE True s;
     Some (s\<lparr>pages := a, pp_ref := (\<lambda>_. 0),
       page_free_list := (page_free_list s)\<lparr>le_next := (\<lambda>_. None), le_prev := (\<lambda>_. NullSlot)\<rparr>\<rparr>)
   }"

text \<open>The bodies of the two loops of \<^verbatim>\<open>page_init\<close>.\<close>

definition mark_used :: "nat \<Rightarrow> pmap \<Rightarrow> pmap" where
  "mark_used i s = s\<lparr>pp_ref := (pp_ref s)(i := 1)\<rparr>"

definition mark_free :: "nat \<Rightarrow> pmap \<Rightarrow> pmap" where
  "mark_free i s = s\<lparr>pp_ref := (pp_ref s)(i := 0),
     page_free_list := LIST_INSERT_HEAD i (page_free_list s)\<rparr>"

definition page_init :: "pmap \<Rightarrow> pmap option" where
  "page_init s =
    (let s = s\<lparr>page_free_list := LIST_INIT (page_free_list s)\<rparr>;
         s = s\<lparr>freemem := ROUND (freemem s) PAGE_SIZE\<rparr>
     in do {
          pa \<leftarrow> PADDR (freemem s);
          let usedPageNum = PPN pa;
          let s = fold mark_used [0..<usedPageNum] s;
          Some (fold mark_free [usedPageNum..<npage s] s)
        })"

section \<open>Page allocation (kern/pmap.c)\<close>

definition page_alloc :: "pmap \<Rightarrow> (nat res \<times> pmap) option" where
  "page_alloc s =
    (if LIST_EMPTY (page_free_list s) then Some (Inl (- E_NO_MEM), s)
     else do {
       pp \<leftarrow> LIST_FIRST (page_free_list s);
       l \<leftarrow> LIST_REMOVE pp (page_free_list s);
       let s = s\<lparr>page_free_list := l\<rparr>;
       kva \<leftarrow> page2kva s pp;
       Some (Inr pp, s\<lparr>frame := (frame s)(kva := (\<lambda>_. 0))\<rparr>)
     })"

definition page_free :: "nat \<Rightarrow> pmap \<Rightarrow> pmap option" where
  "page_free pp s =
    (if pp_ref s pp \<noteq> 0 then None
     else Some (s\<lparr>page_free_list := LIST_INSERT_HEAD pp (page_free_list s)\<rparr>))"

definition page_decref :: "nat \<Rightarrow> pmap \<Rightarrow> pmap option" where
  "page_decref pp s =
    (if \<not> pp_ref s pp > 0 then None
     else let s = s\<lparr>pp_ref := (pp_ref s)(pp := pp_ref s pp - 1)\<rparr>
          in if pp_ref s pp = 0 then page_free pp s else Some s)"

section \<open>Page tables (kern/pmap.c)\<close>

text \<open>\<open>Inr None\<close> is success with the null pointer in \<^verbatim>\<open>*ppte\<close>.\<close>

definition pgdir_walk ::
  "nat \<Rightarrow> u32 \<Rightarrow> bool \<Rightarrow> pmap \<Rightarrow> (pte_ptr option res \<times> pmap) option" where
  "pgdir_walk pgdir va create s =
    (let finish = (\<lambda>s. do {
           pthead \<leftarrow> KADDR s (PTE_ADDR (frame s pgdir (PDX va)));
           Some (Inr (Some (pthead, PTX va)), s)
         })
     in if \<not> pte_valid (frame s pgdir (PDX va)) then
          if \<not> create then Some (Inr None, s)
          else do {
            (r, s) \<leftarrow> page_alloc s;
            case r of
              Inl e \<Rightarrow> Some (Inl (- E_NO_MEM), s)
            | Inr pp \<Rightarrow>
                (let s = s\<lparr>pp_ref := (pp_ref s)(pp := 1)\<rparr>;
                     s = store_pte (pgdir, PDX va) (page2pa pp OR PTE_C_CACHEABLE OR PTE_V) s
                 in finish s)
          }
        else finish s)"

definition page_lookup :: "nat \<Rightarrow> u32 \<Rightarrow> pmap \<Rightarrow> (nat \<times> pte_ptr) option option" where
  "page_lookup pgdir va s = do {
     (r, s) \<leftarrow> pgdir_walk pgdir va False s;
     case r of
       Inl e \<Rightarrow> None
     | Inr None \<Rightarrow> Some None
     | Inr (Some pte) \<Rightarrow>
         if \<not> pte_valid (pte_at s pte) then Some None
         else do {
           pp \<leftarrow> pa2page s (pte_at s pte);
           Some (Some (pp, pte))
         }
   }"

definition page_remove :: "nat \<Rightarrow> u32 \<Rightarrow> u32 \<Rightarrow> pmap \<Rightarrow> pmap option" where
  "page_remove pgdir asid va s = do {
     r \<leftarrow> page_lookup pgdir va s;
     case r of
       None \<Rightarrow> Some s
     | Some (pp, pte) \<Rightarrow> do {
         s \<leftarrow> page_decref pp s;
         let s = store_pte pte 0 s;
         Some (tlb_invalidate asid va s)
       }
   }"

text \<open>The entry \<^verbatim>\<open>page_insert\<close> writes.\<close>

definition mk_pte :: "nat \<Rightarrow> u32 \<Rightarrow> u32" where
  "mk_pte pp perm = page2pa pp OR perm OR PTE_C_CACHEABLE OR PTE_V"

text \<open>Steps 2 to 4 of \<^verbatim>\<open>page_insert\<close>: flush, get or create the entry, write it.\<close>

definition page_insert_new ::
  "nat \<Rightarrow> u32 \<Rightarrow> nat \<Rightarrow> u32 \<Rightarrow> u32 \<Rightarrow> pmap \<Rightarrow> (int \<times> pmap) option" where
  "page_insert_new pgdir asid pp va perm s = do {
     let s = tlb_invalidate asid va s;
     (r, s) \<leftarrow> pgdir_walk pgdir va True s;
     case r of
       Inl e \<Rightarrow> Some (- E_NO_MEM, s)
     | Inr None \<Rightarrow> None
     | Inr (Some pte) \<Rightarrow>
         (let s = s\<lparr>pp_ref := (pp_ref s)(pp := pp_ref s pp + 1)\<rparr>
          in Some (0, store_pte pte (mk_pte pp perm) s))
   }"

definition page_insert ::
  "nat \<Rightarrow> u32 \<Rightarrow> nat \<Rightarrow> u32 \<Rightarrow> u32 \<Rightarrow> pmap \<Rightarrow> (int \<times> pmap) option" where
  "page_insert pgdir asid pp va perm s = do {
     (r, s) \<leftarrow> pgdir_walk pgdir va False s;
     case r of
       Inl e \<Rightarrow> None
     | Inr None \<Rightarrow> page_insert_new pgdir asid pp va perm s
     | Inr (Some pte) \<Rightarrow>
         if pte_valid (pte_at s pte) then do {
           old \<leftarrow> pa2page s (pte_at s pte);
           if old \<noteq> pp then do {
             s \<leftarrow> page_remove pgdir asid va s;
             page_insert_new pgdir asid pp va perm s
           } else
             (let s = tlb_invalidate asid va s
              in Some (0, store_pte pte (mk_pte pp perm) s))
         } else page_insert_new pgdir asid pp va perm s
   }"

end
