(* ===== verification/MOS_PmapInv.thy ===== *)
theory MOS_PmapInv
  imports MOS_Pmap
begin

text \<open>
  The invariant of the physical page allocator and the page tables, and its preservation.

  Every reference to a physical page is a \<open>site\<close>: the page directory of an address
  space, a valid directory entry in the user part of a directory, or a valid entry of a
  page table such an entry points at. \<open>pm_inv s R H xs\<close> says that, for the address
  spaces with page directories \<open>R\<close>, every reference count is the number of its sites
  plus the references \<open>H\<close> the kernel holds elsewhere, that the free list is \<open>xs\<close> and
  holds only unreferenced pages, and that directories and tables are referenced once.
  That the tables of different address spaces are disjoint, and that no page is at the
  same time free, a table and mapped, follows from the counting.
\<close>

section \<open>Entries\<close>

abbreviation UPDX :: nat where "UPDX \<equiv> 509"

lemma PDX_UTOP: "PDX UTOP = UPDX"
  by (simp add: PDX_def)

lemma PDX_user: "va < UTOP \<Longrightarrow> PDX va < UPDX"
proof -
  assume "va < UTOP"
  then have "unat va < 2134900736"
    by (simp add: word_less_nat_alt)
  then have "unat va div 4194304 < 509"
    by (simp add: div_less_iff_less_mult)
  moreover have "PDX va \<le> unat va div 4194304"
  proof -
    have "PDX va \<le> unat (drop_bit 22 va)"
      unfolding PDX_def by (rule word_and_le2 [THEN word_le_nat_alt [THEN iffD1]])
    then show ?thesis by (simp add: unat_drop_bit_div)
  qed
  ultimately show ?thesis by linarith
qed

lemma PPN_page2pa [simp]: "PPN (page2pa pp) = pp" if "pp < 2 ^ 20"
proof -
  have "drop_bit 12 (push_bit 12 (of_nat pp :: u32)) = take_bit 20 (of_nat pp)"
    by (rule bit_word_eqI) (auto simp: bit_simps)
  then have "PPN (page2pa pp) = unat (take_bit 20 (of_nat pp :: u32))"
    by (simp add: PPN_def page2pa_def page2ppn_def)
  also have "\<dots> = take_bit 20 (unat (of_nat pp :: u32))"
    by (simp add: unsigned_take_bit_eq)
  also have "unat (of_nat pp :: u32) = pp"
    using that by (simp add: unat_of_nat take_bit_eq_mod)
  also have "take_bit 20 pp = pp"
    using that by (simp add: take_bit_eq_mod)
  finally show ?thesis .
qed

lemma PPN_flags [simp]:
  "PPN (x OR PTE_V) = PPN x" "PPN (x OR PTE_C_CACHEABLE) = PPN x"
  by (rule PPN_or_flags, simp add: pte_flag_defs)+

lemma PPN_mk_pte [simp]: "pp < 2 ^ 20 \<Longrightarrow> perm < PAGE_SIZE \<Longrightarrow> PPN (mk_pte pp perm) = pp"
  by (simp add: mk_pte_def PPN_or_flags or.assoc [symmetric])

lemma pte_valid_mk_pte [simp]: "pte_valid (mk_pte pp perm)"
  by (simp add: mk_pte_def or.assoc [symmetric])

lemma PPN_mk_pde [simp]: "pp < 2 ^ 20 \<Longrightarrow> PPN (page2pa pp OR PTE_C_CACHEABLE OR PTE_V) = pp"
  by (simp add: or.assoc [symmetric])

lemma pte_valid_mk_pde [simp]: "pte_valid (page2pa pp OR PTE_C_CACHEABLE OR PTE_V)"
  by (simp add: or.assoc [symmetric])

text \<open>Updates that page-table reasoning ignores.\<close>

lemma tlb_invalidate_simps [simp]:
  "frame (tlb_invalidate asid va s) = frame s"
  "pp_ref (tlb_invalidate asid va s) = pp_ref s"
  "npage (tlb_invalidate asid va s) = npage s"
  "page_free_list (tlb_invalidate asid va s) = page_free_list s"
  by (simp_all add: tlb_invalidate_def tlb_out_def)

lemma store_pte_simps [simp]:
  "pp_ref (store_pte p v s) = pp_ref s"
  "npage (store_pte p v s) = npage s"
  "page_free_list (store_pte p v s) = page_free_list s"
  "frame (store_pte p v s) = (frame s)(fst p := (frame s (fst p))(snd p := v))"
  by (simp_all add: store_pte_def)

section \<open>Reference sites\<close>

datatype site = Root nat | PdeAt nat nat | PteAt nat nat nat

fun target :: "pmap \<Rightarrow> nat set \<Rightarrow> site \<Rightarrow> nat option" where
  "target s R (Root d) = (if d \<in> R then Some d else None)"
| "target s R (PdeAt d i) =
     (if d \<in> R \<and> i < UPDX \<and> pte_valid (frame s d i) then Some (PPN (frame s d i)) else None)"
| "target s R (PteAt d i j) =
     (if d \<in> R \<and> i < UPDX \<and> pte_valid (frame s d i) \<and> j < 1024 \<and>
         pte_valid (frame s (PPN (frame s d i)) j)
      then Some (PPN (frame s (PPN (frame s d i)) j)) else None)"

definition refs :: "pmap \<Rightarrow> nat set \<Rightarrow> nat \<Rightarrow> site set" where
  "refs s R p = {x. target s R x = Some p}"

definition pm_inv :: "pmap \<Rightarrow> nat set \<Rightarrow> (nat \<Rightarrow> nat) \<Rightarrow> nat list \<Rightarrow> bool" where
  "pm_inv s R H xs \<longleftrightarrow>
     npage s \<le> 2 ^ 20 \<and> finite R \<and> is_LIST (page_free_list s) xs \<and>
     (\<forall>p\<in>set xs. p < npage s \<and> pp_ref s p = 0) \<and>
     (\<forall>x p. target s R x = Some p \<longrightarrow> p < npage s) \<and>
     (\<forall>p<npage s. unat (pp_ref s p) = H p + card (refs s R p)) \<and>
     (\<forall>d\<in>R. pp_ref s d = 1) \<and>
     (\<forall>d i p. target s R (PdeAt d i) = Some p \<longrightarrow> pp_ref s p = 1)"

text \<open>The address space of a page directory: the entries of its user part.\<close>

definition aspace :: "pmap \<Rightarrow> nat \<Rightarrow> nat \<times> nat \<Rightarrow> u32 option" where
  "aspace s d = (\<lambda>(i, j).
     if i < UPDX \<and> j < 1024 \<and> pte_valid (frame s d i) \<and> pte_valid (frame s (PPN (frame s d i)) j)
     then Some (frame s (PPN (frame s d i)) j) else None)"

lemma target_PteAt_aspace:
  "d \<in> R \<Longrightarrow> target s R (PteAt d i j) = map_option PPN (aspace s d (i, j))"
  by (auto simp: aspace_def)

lemma finite_refs: "finite (refs s R p)" if "finite R"
proof (rule finite_subset)
  show "refs s R p \<subseteq> Root ` R \<union> (\<lambda>(d, i). PdeAt d i) ` (R \<times> {..<UPDX}) \<union>
      (\<lambda>(d, i, j). PteAt d i j) ` (R \<times> {..<UPDX} \<times> {..<1024})"
  proof
    fix x assume "x \<in> refs s R p"
    then show "x \<in> Root ` R \<union> (\<lambda>(d, i). PdeAt d i) ` (R \<times> {..<UPDX}) \<union>
      (\<lambda>(d, i, j). PteAt d i j) ` (R \<times> {..<UPDX} \<times> {..<1024})"
      by (cases x) (force simp: refs_def split: if_splits)+
  qed
qed (use that in auto)

text \<open>\<open>target\<close> reads the directories and their tables only.\<close>

lemma target_cong:
  assumes "\<And>d i. d \<in> R \<Longrightarrow> i < UPDX \<Longrightarrow> frame s' d i = frame s d i"
    and "\<And>d i j. d \<in> R \<Longrightarrow> i < UPDX \<Longrightarrow> pte_valid (frame s d i) \<Longrightarrow> j < 1024 \<Longrightarrow>
      frame s' (PPN (frame s d i)) j = frame s (PPN (frame s d i)) j"
  shows "target s' R = target s R"
proof
  fix x show "target s' R x = target s R x"
    using assms by (cases x) auto
qed

lemma aspace_cong:
  assumes "\<And>i. i < UPDX \<Longrightarrow> frame s' d i = frame s d i"
    and "\<And>i j. i < UPDX \<Longrightarrow> pte_valid (frame s d i) \<Longrightarrow> j < 1024 \<Longrightarrow>
      frame s' (PPN (frame s d i)) j = frame s (PPN (frame s d i)) j"
  shows "aspace s' d = aspace s d"
  using assms by (auto simp: aspace_def fun_eq_iff)

section \<open>Consequences of the invariant\<close>

lemma pm_invD:
  assumes "pm_inv s R H xs"
  shows "npage s \<le> 2 ^ 20" "finite R" "is_LIST (page_free_list s) xs"
    and "p \<in> set xs \<Longrightarrow> p < npage s \<and> pp_ref s p = 0"
    and "target s R x = Some p \<Longrightarrow> p < npage s"
    and "p < npage s \<Longrightarrow> unat (pp_ref s p) = H p + card (refs s R p)"
    and "d \<in> R \<Longrightarrow> pp_ref s d = 1"
    and "target s R (PdeAt d i) = Some p \<Longrightarrow> pp_ref s p = 1"
  using assms by (auto simp: pm_inv_def)

lemma pm_inv_root: "pm_inv s R H xs \<Longrightarrow> d \<in> R \<Longrightarrow> d < npage s"
  using pm_invD(5) [of s R H xs "Root d" d] by simp

lemma pm_inv_distinct: "pm_inv s R H xs \<Longrightarrow> distinct xs"
  by (auto dest: pm_invD(3) is_LIST_distinct)

text \<open>An unreferenced page has no sites; a page referenced once has at most one.\<close>

lemma no_site:
  assumes "pm_inv s R H xs" "p < npage s" "pp_ref s p = 0"
  shows "target s R x \<noteq> Some p" "H p = 0"
proof -
  have "card (refs s R p) = 0" and "H p = 0"
    using pm_invD(6) [OF assms(1,2)] assms(3) by auto
  then show "H p = 0" by simp
  from \<open>card (refs s R p) = 0\<close> have "refs s R p = {}"
    using finite_refs [OF pm_invD(2) [OF assms(1)]] by simp
  then show "target s R x \<noteq> Some p"
    by (auto simp: refs_def)
qed

lemma free_no_site: "pm_inv s R H xs \<Longrightarrow> p \<in> set xs \<Longrightarrow> target s R x \<noteq> Some p"
  using no_site(1) pm_invD(4) by metis

lemma one_site:
  assumes "pm_inv s R H xs" "pp_ref s p = 1" "target s R x = Some p" "target s R y = Some p"
  shows "x = y"
proof -
  have "p < npage s"
    using pm_invD(5) [OF assms(1,3)] .
  then have "card (refs s R p) \<le> 1"
    using pm_invD(6) [OF assms(1)] assms(2) by fastforce
  moreover have "x \<in> refs s R p" "y \<in> refs s R p"
    using assms by (auto simp: refs_def)
  ultimately show ?thesis
    using finite_refs [OF pm_invD(2) [OF assms(1)]] by (auto simp: card_le_Suc0_iff_eq)
qed

lemma root_unique: "pm_inv s R H xs \<Longrightarrow> d \<in> R \<Longrightarrow> target s R x = Some d \<Longrightarrow> x = Root d"
  using one_site [of s R H xs d x "Root d"] pm_invD(7) by auto

lemma table_unique:
  "pm_inv s R H xs \<Longrightarrow> target s R (PdeAt d i) = Some t \<Longrightarrow> target s R x = Some t \<Longrightarrow> x = PdeAt d i"
  using one_site [of s R H xs t x "PdeAt d i"] pm_invD(8) by metis

lemma table_not_root: "pm_inv s R H xs \<Longrightarrow> target s R (PdeAt d i) = Some t \<Longrightarrow> t \<notin> R"
  using table_unique [of s R H xs d i t "Root t"] by auto

section \<open>Changing one site\<close>

lemma card_refs_upd:
  assumes "finite R" "target s' R = (target s R)(x := v)"
  shows "card (refs s' R p) + (if target s R x = Some p then 1 else 0) =
         card (refs s R p) + (if v = Some p then 1 else 0)"
proof -
  have fin: "finite (refs s R p)"
    using assms(1) by (rule finite_refs)
  have "refs s' R p = (refs s R p - {x}) \<union> (if v = Some p then {x} else {})"
    using assms(2) by (auto simp: refs_def)
  moreover have "x \<in> refs s R p \<longleftrightarrow> target s R x = Some p"
    by (simp add: refs_def)
  ultimately show ?thesis
    using fin card_Suc_Diff1 [OF fin, of x] by (auto simp: insert_absorb)
qed

text \<open>The invariant survives a change of one site that is matched by the reference counts.\<close>

lemma pm_inv_upd:
  assumes inv: "pm_inv s R H xs"
    and tgt: "target s' R = (target s R)(x := v)"
    and np: "npage s' = npage s"
    and free: "is_LIST (page_free_list s') ys" "\<And>p. p \<in> set ys \<Longrightarrow> p < npage s \<and> pp_ref s' p = 0"
    and v: "\<And>p. v = Some p \<Longrightarrow> p < npage s"
    and cnt: "\<And>p. p < npage s \<Longrightarrow>
      unat (pp_ref s' p) + (if target s R x = Some p then 1 else 0) =
      unat (pp_ref s p) + (if v = Some p then 1 else 0)"
    and root: "\<And>d. d \<in> R \<Longrightarrow> pp_ref s' d = 1"
    and tab: "\<And>d i p. target s' R (PdeAt d i) = Some p \<Longrightarrow> pp_ref s' p = 1"
  shows "pm_inv s' R H ys"
proof -
  note fin = pm_invD(2) [OF inv]
  have "unat (pp_ref s' p) = H p + card (refs s' R p)" if "p < npage s" for p
    using cnt [OF that] card_refs_upd [OF fin tgt, of p] pm_invD(6) [OF inv that] by linarith
  moreover have "p < npage s" if "target s' R y = Some p" for y p
    using that v pm_invD(5) [OF inv] by (auto simp: tgt split: if_splits)
  ultimately show ?thesis
    using pm_invD(1) [OF inv] fin np free root tab by (auto simp: pm_inv_def)
qed

lemma pm_inv_same:
  assumes inv: "pm_inv s R H xs"
    and "target s' R = target s R" "npage s' = npage s" "pp_ref s' = pp_ref s"
    and "is_LIST (page_free_list s') ys" "set ys \<subseteq> set xs"
  shows "pm_inv s' R H ys"
  using assms by (auto simp: pm_inv_def refs_def)

text \<open>Storing an entry into a page table of an address space changes exactly that site.\<close>

lemma target_store:
  assumes inv: "pm_inv s R H xs" and t: "target s R (PdeAt d i) = Some t" and "j < 1024"
    and fr: "frame s' = (frame s)(t := (frame s t)(j := v))"
  shows "target s' R = (target s R)(PteAt d i j := if pte_valid v then Some (PPN v) else None)"
proof
  fix x
  have nr: "t \<notin> R"
    by (rule table_not_root [OF inv t])
  have di: "d \<in> R" "i < UPDX" "pte_valid (frame s d i)" "PPN (frame s d i) = t"
    using t by (auto split: if_splits)
  show "target s' R x = ((target s R)(PteAt d i j := if pte_valid v then Some (PPN v) else None)) x"
  proof (cases x)
    case (PteAt d' i' j')
    have uniq: "d' = d \<and> i' = i" if "d' \<in> R" "i' < UPDX" "pte_valid (frame s d' i')" "PPN (frame s d' i') = t"
      using table_unique [OF inv t, of "PdeAt d' i'"] that by simp
    have same: "frame s' d' = frame s d'" if "d' \<in> R"
      using that nr fr by auto
    show ?thesis
    proof (cases "d' \<in> R \<and> i' < UPDX \<and> pte_valid (frame s d' i')")
      case False
      then have "x \<noteq> PteAt d i j" using PteAt di by blast
      with False same PteAt show ?thesis by auto
    next
      case True
      note T = this same [OF conjunct1 [OF True]]
      show ?thesis
      proof (cases "PPN (frame s d' i') = t")
        case True
        with uniq T have "d' = d" "i' = i" by auto
        with True T PteAt fr \<open>j < 1024\<close> show ?thesis by simp
      next
        case False
        then have "frame s' (PPN (frame s d' i')) = frame s (PPN (frame s d' i'))"
          using fr by auto
        with T PteAt have "target s' R x = target s R x" by simp
        moreover have "x \<noteq> PteAt d i j"
          using False PteAt di by auto
        ultimately show ?thesis by (simp only: fun_upd_other not_False_eq_True)
      qed
    qed
  qed (use fr nr in auto)
qed

lemma aspace_store:
  assumes inv: "pm_inv s R H xs" and t: "target s R (PdeAt d i) = Some t" and "j < 1024"
    and fr: "frame s' = (frame s)(t := (frame s t)(j := v))"
  shows "aspace s' d = (aspace s d)((i, j) := if pte_valid v then Some v else None)"
    and "d' \<in> R \<Longrightarrow> d' \<noteq> d \<Longrightarrow> aspace s' d' = aspace s d'"
proof -
  have nr: "t \<notin> R"
    by (rule table_not_root [OF inv t])
  have di: "d \<in> R" "i < UPDX" "pte_valid (frame s d i)" "PPN (frame s d i) = t"
    using t by (auto split: if_splits)
  have uniq: "d' = d \<and> i' = i" if "d' \<in> R" "i' < UPDX" "pte_valid (frame s d' i')" "PPN (frame s d' i') = t"
    for d' i'
    using table_unique [OF inv t, of "PdeAt d' i'"] that by simp
  have same: "frame s' d' = frame s d'" if "d' \<in> R" for d'
    using that nr fr by auto
  show "aspace s' d = (aspace s d)((i, j) := if pte_valid v then Some v else None)"
  proof
    fix ij :: "nat \<times> nat"
    obtain i' j' where ij: "ij = (i', j')" by (cases ij)
    show "aspace s' d ij = ((aspace s d)((i, j) := if pte_valid v then Some v else None)) ij"
    proof (cases "i' = i")
      case True
      with ij fr di same [OF di(1)] \<open>j < 1024\<close> show ?thesis by (simp add: aspace_def)
    next
      case False
      then have "PPN (frame s d i') \<noteq> t" if "i' < UPDX" "pte_valid (frame s d i')"
        using uniq [OF di(1)] that by blast
      with False ij fr di same [OF di(1)] show ?thesis by (auto simp: aspace_def)
    qed
  qed
  show "aspace s' d' = aspace s d'" if "d' \<in> R" "d' \<noteq> d"
  proof (intro aspace_cong)
    fix i' j' assume *: "i' < UPDX" "pte_valid (frame s d' i')"
    then have "PPN (frame s d' i') \<noteq> t"
      using uniq [OF that(1)] that(2) by blast
    then show "frame s' (PPN (frame s d' i')) j' = frame s (PPN (frame s d' i')) j'"
      using fr by simp
  qed (simp add: same that)
qed

section \<open>Allocation and release\<close>

text \<open>Clearing a page that has no site changes no address space.\<close>

lemma target_clear:
  assumes "\<And>x. target s R x \<noteq> Some p" "frame s' = (frame s)(p := f)"
  shows "target s' R = target s R" "d \<in> R \<Longrightarrow> aspace s' d = aspace s d"
proof -
  have np: "p \<notin> R" "\<And>d i. d \<in> R \<Longrightarrow> i < UPDX \<Longrightarrow> pte_valid (frame s d i) \<Longrightarrow> PPN (frame s d i) \<noteq> p"
    using assms(1) [of "Root p"] assms(1) [of "PdeAt _ _"] by (auto split: if_splits)
  then show "target s' R = target s R"
    by (intro target_cong) (auto simp: assms(2))
  show "aspace s' d = aspace s d" if "d \<in> R"
    using np that by (intro aspace_cong) (auto simp: assms(2))
qed

lemma page_alloc_empty: "pm_inv s R H [] \<Longrightarrow> page_alloc s = Some (Inl (- E_NO_MEM), s)"
  using LIST_EMPTY_seq [OF pm_invD(3)] by (simp add: page_alloc_def)

lemma page_alloc_Cons:
  assumes inv: "pm_inv s R H (p # xs)"
  obtains s' where "page_alloc s = Some (Inr p, s')" "pm_inv s' R H xs"
    "target s' R = target s R" "pp_ref s' = pp_ref s" "npage s' = npage s"
    "frame s' = (frame s)(p := (\<lambda>_. 0))" "\<And>d. d \<in> R \<Longrightarrow> aspace s' d = aspace s d"
proof -
  have lst: "is_LIST (page_free_list s) (p # xs)"
    using inv by (rule pm_invD(3))
  have first: "LIST_FIRST (page_free_list s) = Some p"
    using LIST_FIRST_seq [OF lst] by simp
  from lst.pop [OF first lst] obtain l where l: "LIST_REMOVE p (page_free_list s) = Some l" "is_LIST l xs"
    by auto
  have p: "p < npage s" "pp_ref s p = 0"
    using pm_invD(4) [OF inv, of p] by auto
  then have kva: "page2kva (s\<lparr>page_free_list := l\<rparr>) p = Some p"
    using pm_invD(1) [OF inv] by (simp add: page2kva_def KADDR_def)
  let ?s = "s\<lparr>page_free_list := l, frame := (frame s)(p := (\<lambda>_. 0))\<rparr>"
  note clear = target_clear [where s' = ?s and f = "\<lambda>_. 0", OF no_site(1) [OF inv p]]
  show thesis
  proof
    show "page_alloc s = Some (Inr p, ?s)"
      using first l kva by (simp add: page_alloc_def LIST_EMPTY_seq [OF lst])
    show "pm_inv ?s R H xs"
      using l clear(1) by (intro pm_inv_same [OF inv]) auto
  qed (use clear in auto)
qed

lemma page_free_ok:
  "pp_ref s p = 0 \<Longrightarrow>
     page_free p s = Some (s\<lparr>page_free_list := LIST_INSERT_HEAD p (page_free_list s)\<rparr>)"
  by (simp add: page_free_def)

section \<open>Lookup\<close>

lemma KADDR_table:
  assumes "pm_inv s R H xs" "target s R (PdeAt d i) = Some t"
  shows "KADDR s (PTE_ADDR (frame s d i)) = Some t"
proof -
  have "t < npage s"
    using pm_invD(5) [OF assms] .
  with assms(2) show ?thesis
    by (auto simp: KADDR_def split: if_splits)
qed

text \<open>Walking without creating reads the tables and changes nothing.\<close>

lemma pgdir_walk_lookup:
  assumes "pm_inv s R H xs" "d \<in> R" "PDX va < UPDX"
  shows "pgdir_walk d va False s = Some (Inr
    (map_option (\<lambda>t. (t, PTX va)) (target s R (PdeAt d (PDX va)))), s)"
proof (cases "pte_valid (frame s d (PDX va))")
  case True
  with assms have t: "target s R (PdeAt d (PDX va)) = Some (PPN (frame s d (PDX va)))"
    by simp
  with True KADDR_table [OF assms(1) t] show ?thesis
    by (simp add: pgdir_walk_def)
next
  case False
  then show ?thesis by (simp add: pgdir_walk_def)
qed

lemma aspace_Some_target:
  assumes "d \<in> R" "aspace s d (i, j) = Some e"
  shows "target s R (PteAt d i j) = Some (PPN e)"
    "target s R (PdeAt d i) = Some (PPN (frame s d i))" "frame s (PPN (frame s d i)) j = e"
    "pte_valid e" "j < 1024"
  using assms by (auto simp: aspace_def split: if_splits)

lemma page_lookup_aspace:
  assumes inv: "pm_inv s R H xs" and d: "d \<in> R" and va: "PDX va < UPDX"
  shows "page_lookup d va s = Some (map_option
    (\<lambda>e. (PPN e, (PPN (frame s d (PDX va)), PTX va))) (aspace s d (PDX va, PTX va)))"
proof (cases "aspace s d (PDX va, PTX va)")
  case None
  then show ?thesis
    using pgdir_walk_lookup [OF inv d va] d va
    by (auto simp: page_lookup_def aspace_def split: if_splits)
next
  case (Some e)
  note t = aspace_Some_target [OF d Some]
  have "PPN e < npage s"
    using pm_invD(5) [OF inv t(1)] .
  with t Some show ?thesis
    using pgdir_walk_lookup [OF inv d va] by (simp add: page_lookup_def pa2page_def)
qed

section \<open>Removal\<close>

text \<open>
  \<open>page_remove\<close> deletes the mapping of \<open>va\<close> from the address space and from no other,
  and frees the page exactly when that mapping was its last reference.
\<close>

lemma page_remove_mapped:
  assumes inv: "pm_inv s R H xs" and d: "d \<in> R" and va: "PDX va < UPDX"
    and e: "aspace s d (PDX va, PTX va) = Some e"
  obtains s' where "page_remove d asid va s = Some s'"
    "pm_inv s' R H (if pp_ref s (PPN e) = 1 then PPN e # xs else xs)"
    "pp_ref s' = (pp_ref s)(PPN e := pp_ref s (PPN e) - 1)"
    "aspace s' d = (aspace s d)((PDX va, PTX va) := None)"
    "\<And>d'. d' \<in> R \<Longrightarrow> d' \<noteq> d \<Longrightarrow> aspace s' d' = aspace s d'"
    "npage s' = npage s"
    "\<And>d' i. target s' R (PdeAt d' i) = target s R (PdeAt d' i)"
    "\<And>q. q \<noteq> PPN (frame s d (PDX va)) \<Longrightarrow> frame s' q = frame s q"
proof -
  let ?i = "PDX va" and ?j = "PTX va"
  define p where "p = PPN e"
  define t where "t = PPN (frame s d ?i)"
  note T = aspace_Some_target [OF d e, folded p_def t_def]
  have p: "p < npage s"
    using pm_invD(5) [OF inv T(1)] .
  have pos: "pp_ref s p > 0"
    using no_site(1) [OF inv p] T(1) by (metis word_gt_0)
  let ?one = "pp_ref s p = 1"
  define l where "l = (if ?one then LIST_INSERT_HEAD p (page_free_list s) else page_free_list s)"
  define s' where "s' = tlb_invalidate asid va (store_pte (t, ?j) 0
      (s\<lparr>pp_ref := (pp_ref s)(p := pp_ref s p - 1), page_free_list := l\<rparr>))"
  have fr: "frame s' = (frame s)(t := (frame s t)(?j := 0))"
    by (simp add: s'_def)
  have lk: "page_lookup d va s = Some (Some (p, (t, ?j)))"
    using page_lookup_aspace [OF inv d va] e by (simp add: p_def t_def)
  have rm: "page_remove d asid va s = Some s'"
    using lk pos by (auto simp: page_remove_def page_decref_def page_free_def s'_def l_def)
  have tgt: "target s' R = (target s R)(PteAt d ?i ?j := None)"
    using target_store [OF inv T(2) _ fr] by simp
  have pde: "target s' R (PdeAt d' i) = target s R (PdeAt d' i)" for d' i
    unfolding tgt by (simp del: target.simps)
  have px: "p \<notin> set xs"
    using free_no_site [OF inv] T(1) by blast
  have nsite: "target s R (PdeAt d' i) \<noteq> Some p" "p \<notin> R" for d' i
    using table_unique [OF inv _ T(1)] root_unique [OF inv _ T(1)] by blast+
  have "pm_inv s' R H (if ?one then p # xs else xs)"
  proof (rule pm_inv_upd [OF inv tgt])
    show "is_LIST (page_free_list s') (if ?one then p # xs else xs)"
      using pm_invD(3) [OF inv] px by (simp add: s'_def l_def LIST_INSERT_HEAD_seq)
    show "q < npage s \<and> pp_ref s' q = 0" if "q \<in> set (if ?one then p # xs else xs)" for q
      using that p pm_invD(4) [OF inv, of q] px by (auto simp: s'_def split: if_splits)
    show "unat (pp_ref s' q) + (if target s R (PteAt d ?i ?j) = Some q then 1 else 0) =
        unat (pp_ref s q) + (if None = Some q then 1 else 0)" for q
      using T(1) pos by (auto simp: s'_def unat_minus_one word_gt_0 unat_gt_0 simp del: target.simps)
    show "pp_ref s' d' = 1" if "d' \<in> R" for d'
      using that nsite(2) pm_invD(7) [OF inv that] by (auto simp: s'_def)
    show "pp_ref s' q = 1" if "target s' R (PdeAt d' i) = Some q" for d' i q
      using that nsite(1) pm_invD(8) [OF inv] unfolding pde
      by (auto simp: s'_def simp del: target.simps)
  qed (simp_all add: s'_def)
  with rm show thesis
    using aspace_store [OF inv T(2) _ fr] pde
    by (intro that [of s', folded p_def]) (simp_all add: s'_def t_def del: target.simps)
qed

lemma page_remove_unmapped:
  assumes "pm_inv s R H xs" "d \<in> R" "PDX va < UPDX" "aspace s d (PDX va, PTX va) = None"
  shows "page_remove d asid va s = Some s"
  using page_lookup_aspace [OF assms(1-3)] assms(4) by (simp add: page_remove_def)

section \<open>Insertion\<close>

lemma pm_inv_tlb [simp]: "pm_inv (tlb_invalidate asid va s) R H xs = pm_inv s R H xs"
proof -
  have "target (tlb_invalidate asid va s) R = target s R"
    by (intro target_cong) simp_all
  then show ?thesis
    by (simp add: pm_inv_def refs_def)
qed

lemma target_tlb [simp]: "target (tlb_invalidate asid va s) R = target s R"
  by (intro target_cong) simp_all

lemma aspace_tlb [simp]: "aspace (tlb_invalidate asid va s) d = aspace s d"
  by (intro aspace_cong) simp_all

lemma pgdir_walk_create_old:
  assumes "pm_inv s R H xs" "target s R (PdeAt d (PDX va)) = Some t"
  shows "pgdir_walk d va True s = Some (Inr (Some (t, PTX va)), s)"
  using KADDR_table [OF assms] assms(2) by (auto simp: pgdir_walk_def split: if_splits)

lemma pgdir_walk_create_nomem:
  assumes "pm_inv s R H []" "\<not> pte_valid (frame s d (PDX va))"
  shows "pgdir_walk d va True s = Some (Inl (- E_NO_MEM), s)"
  using page_alloc_empty [OF assms(1)] assms(2) by (simp add: pgdir_walk_def)

text \<open>Creating a page table: a free page becomes the empty table of one directory entry.\<close>

lemma pgdir_walk_create_new:
  assumes inv: "pm_inv s R H (t # xs)" and d: "d \<in> R" and va: "PDX va < UPDX"
    and new: "\<not> pte_valid (frame s d (PDX va))"
  obtains s' where "pgdir_walk d va True s = Some (Inr (Some (t, PTX va)), s')"
    "pm_inv s' R H xs" "pp_ref s' = (pp_ref s)(t := 1)" "npage s' = npage s"
    "target s' R = (target s R)(PdeAt d (PDX va) := Some t)"
    "\<And>d'. d' \<in> R \<Longrightarrow> aspace s' d' = aspace s d'"
proof -
  let ?i = "PDX va"
  obtain s1 where s1: "page_alloc s = Some (Inr t, s1)" "pm_inv s1 R H xs"
    "target s1 R = target s R" "pp_ref s1 = pp_ref s" "npage s1 = npage s"
    "frame s1 = (frame s)(t := (\<lambda>_. 0))" "\<And>d. d \<in> R \<Longrightarrow> aspace s1 d = aspace s d"
    using page_alloc_Cons [OF inv] by metis
  have t: "t < npage s" "pp_ref s t = 0" "t < 2 ^ 20"
    using pm_invD(4) [OF inv, of t] pm_invD(1) [OF inv] by auto
  have tn: "target s R x \<noteq> Some t" for x
    using free_no_site [OF inv, of t] by simp
  then have tR: "t \<notin> R"
    using tn [of "Root t"] by auto
  let ?pde = "page2pa t OR PTE_C_CACHEABLE OR PTE_V"
  define s' where "s' = store_pte (d, ?i) ?pde (s1\<lparr>pp_ref := (pp_ref s1)(t := 1)\<rparr>)"
  have fr: "frame s' = (frame s)(t := (\<lambda>_. 0), d := (frame s d)(?i := ?pde))"
    using s1(6) d tR by (auto simp: s'_def)
  have dtab: "PPN (frame s d' i') \<noteq> d" "PPN (frame s d' i') \<noteq> t"
    if "d' \<in> R" "i' < UPDX" "pte_valid (frame s d' i')" for d' i'
    using root_unique [OF inv d, of "PdeAt d' i'"] tn [of "PdeAt d' i'"] that by auto
  have ne: "d' \<noteq> t" if "d' \<in> R" for d'
    using that tR by blast
  have dt: "d \<noteq> t" using ne [OF d] .
  have tgt: "target s' R = (target s R)(PdeAt d ?i := Some t)"
  proof
    fix x show "target s' R x = ((target s R)(PdeAt d ?i := Some t)) x"
    proof (cases x)
      case (PdeAt d' i')
      with fr ne t d va show ?thesis by auto
    next
      case (PteAt d' i' j')
      show ?thesis
      proof (cases "d' = d \<and> i' = ?i")
        case True
        with PteAt fr t d va dt new show ?thesis by simp
      next
        case False
        then have "frame s' d' i' = frame s d' i'" if "d' \<in> R"
          using that fr ne by auto
        moreover have "frame s' (PPN (frame s d' i')) = frame s (PPN (frame s d' i'))"
          if "d' \<in> R" "i' < UPDX" "pte_valid (frame s d' i')"
          using dtab [OF that] fr by simp
        ultimately show ?thesis using PteAt by auto
      qed
    qed simp
  qed
  have asp: "aspace s' d' = aspace s d'" if "d' \<in> R" for d'
  proof
    fix ij :: "nat \<times> nat"
    obtain i j where ij: "ij = (i, j)" by (cases ij)
    show "aspace s' d' ij = aspace s d' ij"
    proof (cases "d' = d \<and> i = ?i")
      case True
      with ij fr t d va dt new show ?thesis by (simp add: aspace_def)
    next
      case False
      then have "frame s' d' i = frame s d' i"
        using that fr ne by auto
      moreover have "frame s' (PPN (frame s d' i)) = frame s (PPN (frame s d' i))"
        if "i < UPDX" "pte_valid (frame s d' i)"
        using dtab [OF \<open>d' \<in> R\<close> that] fr by simp
      ultimately show ?thesis using ij by (auto simp: aspace_def)
    qed
  qed
  have old: "target s R (PdeAt d ?i) = None"
    using new by simp
  have "pm_inv s' R H xs"
  proof (rule pm_inv_upd [OF inv tgt])
    show "is_LIST (page_free_list s') xs"
      using pm_invD(3) [OF s1(2)] by (simp add: s'_def)
    show "q < npage s \<and> pp_ref s' q = 0" if "q \<in> set xs" for q
      using that pm_invD(4) [OF inv, of q] pm_inv_distinct [OF inv] s1(4) by (auto simp: s'_def)
    show "unat (pp_ref s' q) + (if target s R (PdeAt d ?i) = Some q then 1 else 0) =
        unat (pp_ref s q) + (if Some t = Some q then 1 else 0)" for q
      using t s1(4) by (auto simp: old s'_def simp del: target.simps)
    show "pp_ref s' d' = 1" if "d' \<in> R" for d'
      using that ne [OF that] s1(4) pm_invD(7) [OF inv that] by (simp add: s'_def)
    show "pp_ref s' q = 1" if "target s' R (PdeAt d' i) = Some q" for d' i q
      using that s1(4) pm_invD(8) [OF inv, of d' i q] unfolding tgt
      by (auto simp: s'_def simp del: target.simps split: if_splits)
  qed (use t s1(5) in \<open>simp_all add: s'_def\<close>)
  moreover have "pgdir_walk d va True s = Some (Inr (Some (t, PTX va)), s')"
    using s1 new t d by (simp add: pgdir_walk_def KADDR_def s'_def Let_def)
  ultimately show thesis
    using tgt asp s1 by (intro that [of s']) (simp_all add: s'_def)
qed

text \<open>A page that may be mapped: not free, neither a directory nor a table, and with room in
  its 16-bit reference count.\<close>

definition mappable :: "pmap \<Rightarrow> nat set \<Rightarrow> nat list \<Rightarrow> nat \<Rightarrow> bool" where
  "mappable s R xs pp \<longleftrightarrow> pp < npage s \<and> pp \<notin> set xs \<and> pp \<notin> R \<and>
     (\<forall>d i. target s R (PdeAt d i) \<noteq> Some pp) \<and> unat (pp_ref s pp) < 65535"

lemma unat_u16_Suc: "unat (x::u16) < 65535 \<Longrightarrow> unat (x + 1) = unat x + 1"
  using unsigned_less [of x] by (simp add: unat_word_ariths)

text \<open>Writing the entry into an existing table, where \<open>va\<close> is not mapped.\<close>

lemma map_entry:
  assumes inv: "pm_inv s R H xs" and t: "target s R (PdeAt d i) = Some t" and j: "j < 1024"
    and none: "target s R (PteAt d i j) = None"
    and pp: "mappable s R xs pp" and perm: "perm < PAGE_SIZE"
    and s': "s' = store_pte (t, j) (mk_pte pp perm) (s\<lparr>pp_ref := (pp_ref s)(pp := pp_ref s pp + 1)\<rparr>)"
  shows "pm_inv s' R H xs" "aspace s' d = (aspace s d)((i, j) \<mapsto> mk_pte pp perm)"
    "d' \<in> R \<Longrightarrow> d' \<noteq> d \<Longrightarrow> aspace s' d' = aspace s d'"
    "target s' R (PdeAt d' i') = target s R (PdeAt d' i')"
proof -
  have fr: "frame s' = (frame s)(t := (frame s t)(j := mk_pte pp perm))"
    by (simp add: s')
  note P = pp [unfolded mappable_def]
  have ppn: "PPN (mk_pte pp perm) = pp"
    using P perm pm_invD(1) [OF inv] by simp
  note T = target_store [OF inv t j fr]
  have tgt: "target s' R = (target s R)(PteAt d i j := Some pp)"
    using T ppn by simp
  have pde: "target s' R (PdeAt d' i) = target s R (PdeAt d' i)" for d' i
    unfolding tgt by (simp del: target.simps)
  then show "target s' R (PdeAt d' i') = target s R (PdeAt d' i')" .
  show "pm_inv s' R H xs"
  proof (rule pm_inv_upd [OF inv tgt])
    show "q < npage s \<and> pp_ref s' q = 0" if "q \<in> set xs" for q
      using that P pm_invD(4) [OF inv, of q] by (auto simp: s')
    show "unat (pp_ref s' q) + (if target s R (PteAt d i j) = Some q then 1 else 0) =
        unat (pp_ref s q) + (if Some pp = Some q then 1 else 0)" for q
      using P unat_u16_Suc by (auto simp: none s' simp del: target.simps)
    show "pp_ref s' d' = 1" if "d' \<in> R" for d'
      using that P pm_invD(7) [OF inv that] by (auto simp: s')
    show "pp_ref s' q = 1" if "target s' R (PdeAt d' i) = Some q" for d' i q
      using that P pm_invD(8) [OF inv] unfolding pde
      by (auto simp: s' simp del: target.simps)
  qed (use P pm_invD(3) [OF inv] in \<open>simp_all add: s'\<close>)
  show "aspace s' d = (aspace s d)((i, j) \<mapsto> mk_pte pp perm)"
    "d' \<in> R \<Longrightarrow> d' \<noteq> d \<Longrightarrow> aspace s' d' = aspace s d'"
    using aspace_store [OF inv t j fr] by simp_all
qed

lemma aspace_None_target: "d \<in> R \<Longrightarrow> aspace s d (i, j) = None \<Longrightarrow> target s R (PteAt d i j) = None"
  by (simp add: target_PteAt_aspace del: target.simps)

text \<open>The outcome of mapping: \<open>- E_NO_MEM\<close> with nothing changed but the TLB when a table is
  missing and no page is free, otherwise the new mapping and nothing else.\<close>

lemma page_insert_new_ok:
  assumes inv: "pm_inv s R H xs" and d: "d \<in> R" and va: "PDX va < UPDX"
    and none: "aspace s d (PDX va, PTX va) = None"
    and pp: "mappable s R xs pp" and perm: "perm < PAGE_SIZE"
    and mem: "pte_valid (frame s d (PDX va)) \<or> xs \<noteq> []"
  obtains s' where "page_insert_new d asid pp va perm s = Some (0, s')"
    "pm_inv s' R H (if pte_valid (frame s d (PDX va)) then xs else tl xs)"
    "aspace s' d = (aspace s d)((PDX va, PTX va) \<mapsto> mk_pte pp perm)"
    "\<And>d'. d' \<in> R \<Longrightarrow> d' \<noteq> d \<Longrightarrow> aspace s' d' = aspace s d'"
proof (cases "pte_valid (frame s d (PDX va))")
  case True
  let ?s = "tlb_invalidate asid va s"
  have inv': "pm_inv ?s R H xs" and pp': "mappable ?s R xs pp"
    using inv pp by (simp_all add: mappable_def)
  have t: "target ?s R (PdeAt d (PDX va)) = Some (PPN (frame s d (PDX va)))"
    using True d va by simp
  have n: "target ?s R (PteAt d (PDX va) (PTX va)) = None"
    using aspace_None_target [OF d none] by simp
  note E = map_entry [OF inv' t PTX_less n pp' perm refl]
  show thesis
  proof (rule that)
    show "page_insert_new d asid pp va perm s = Some (0, store_pte (PPN (frame s d (PDX va)), PTX va)
        (mk_pte pp perm) (?s\<lparr>pp_ref := (pp_ref ?s)(pp := pp_ref ?s pp + 1)\<rparr>))"
      using pgdir_walk_create_old [OF inv' t] by (simp add: page_insert_new_def)
  qed (use E(1-3) True in \<open>simp_all del: tlb_invalidate_simps\<close>)
next
  case False
  let ?s = "tlb_invalidate asid va s"
  obtain t ys where xs: "xs = t # ys"
    using mem False by (cases xs) auto
  have inv': "pm_inv ?s R H (t # ys)"
    using inv xs by simp
  obtain s1 where s1: "pgdir_walk d va True ?s = Some (Inr (Some (t, PTX va)), s1)"
    "pm_inv s1 R H ys" "pp_ref s1 = (pp_ref ?s)(t := 1)" "npage s1 = npage ?s"
    "target s1 R = (target ?s R)(PdeAt d (PDX va) := Some t)"
    "\<And>d'. d' \<in> R \<Longrightarrow> aspace s1 d' = aspace ?s d'"
    using pgdir_walk_create_new [OF inv' d va] False by auto
  have pp': "mappable s1 R ys pp"
    using pp s1 xs by (auto simp: mappable_def simp del: target.simps)
  have t: "target s1 R (PdeAt d (PDX va)) = Some t"
    using s1(5) by (simp del: target.simps)
  have n: "target s1 R (PteAt d (PDX va) (PTX va)) = None"
    by (rule aspace_None_target [OF d]) (use s1(6) [OF d] none in simp)
  note E = map_entry [OF s1(2) t PTX_less n pp' perm refl]
  show thesis
  proof (rule that)
    show "page_insert_new d asid pp va perm s = Some (0, store_pte (t, PTX va)
        (mk_pte pp perm) (s1\<lparr>pp_ref := (pp_ref s1)(pp := pp_ref s1 pp + 1)\<rparr>))"
      using s1(1) by (simp add: page_insert_new_def)
  qed (use E(1-3) s1(6) False xs d in simp_all)
qed

lemma page_insert_new_nomem:
  assumes "pm_inv s R H []" "\<not> pte_valid (frame s d (PDX va))"
  shows "page_insert_new d asid pp va perm s = Some (- E_NO_MEM, tlb_invalidate asid va s)"
  using pgdir_walk_create_nomem [of "tlb_invalidate asid va s"] assms
  by (simp add: page_insert_new_def)

text \<open>Remapping a page at the address where it already is: only the permissions change.\<close>

lemma remap_entry:
  assumes inv: "pm_inv s R H xs" and d: "d \<in> R" and va: "PDX va < UPDX"
    and e: "aspace s d (PDX va, PTX va) = Some e"
    and perm: "perm < PAGE_SIZE"
    and s': "s' = store_pte (PPN (frame s d (PDX va)), PTX va) (mk_pte (PPN e) perm) (tlb_invalidate asid va s)"
  shows "pm_inv s' R H xs" "aspace s' d = (aspace s d)((PDX va, PTX va) \<mapsto> mk_pte (PPN e) perm)"
    "d' \<in> R \<Longrightarrow> d' \<noteq> d \<Longrightarrow> aspace s' d' = aspace s d'"
proof -
  note T = aspace_Some_target [OF d e]
  have fr: "frame s' = (frame s)(PPN (frame s d (PDX va)) :=
      (frame s (PPN (frame s d (PDX va))))(PTX va := mk_pte (PPN e) perm))"
    by (simp add: s')
  have "target s' R = (target s R)(PteAt d (PDX va) (PTX va) := Some (PPN e))"
    using target_store [OF inv T(2) PTX_less fr] PPN_mk_pte [OF PPN_less perm] by simp
  also have "\<dots> = target s R"
    using T(1) by (simp add: fun_upd_idem del: target.simps)
  finally have tgt: "target s' R = target s R" .
  show "pm_inv s' R H xs"
    using pm_invD(3) [OF inv] by (intro pm_inv_same [OF inv tgt]) (simp_all add: s')
  show "aspace s' d = (aspace s d)((PDX va, PTX va) \<mapsto> mk_pte (PPN e) perm)"
    "d' \<in> R \<Longrightarrow> d' \<noteq> d \<Longrightarrow> aspace s' d' = aspace s d'"
    using aspace_store [OF inv T(2) PTX_less fr] by simp_all
qed

lemma page_insert_ok:
  assumes inv: "pm_inv s R H xs" and d: "d \<in> R" and va: "PDX va < UPDX"
    and pp: "mappable s R xs pp" and perm: "perm < PAGE_SIZE"
    and mem: "pte_valid (frame s d (PDX va)) \<or> xs \<noteq> []"
  obtains s' ys where "page_insert d asid pp va perm s = Some (0, s')" "pm_inv s' R H ys"
    "aspace s' d = (aspace s d)((PDX va, PTX va) \<mapsto> mk_pte pp perm)"
    "\<And>d'. d' \<in> R \<Longrightarrow> d' \<noteq> d \<Longrightarrow> aspace s' d' = aspace s d'"
proof (cases "aspace s d (PDX va, PTX va)")
  case None
  obtain s' where s': "page_insert_new d asid pp va perm s = Some (0, s')"
    "pm_inv s' R H (if pte_valid (frame s d (PDX va)) then xs else tl xs)"
    "aspace s' d = (aspace s d)((PDX va, PTX va) \<mapsto> mk_pte pp perm)"
    "\<And>d'. d' \<in> R \<Longrightarrow> d' \<noteq> d \<Longrightarrow> aspace s' d' = aspace s d'"
    using page_insert_new_ok [OF inv d va None pp perm mem, where asid = asid] by metis
  have "page_insert d asid pp va perm s = Some (0, s')"
    using pgdir_walk_lookup [OF inv d va] None d va s'(1)
    by (auto simp: page_insert_def aspace_def split: if_splits)
  with s' show thesis by (intro that)
next
  case (Some e)
  note T = aspace_Some_target [OF d Some]
  have e: "PPN e < npage s"
    using pm_invD(5) [OF inv T(1)] .
  have val: "pte_valid (frame s d (PDX va))"
    using T(2) by (auto split: if_splits)
  have ins: "page_insert d asid pp va perm s =
      (if PPN e \<noteq> pp then Option.bind (page_remove d asid va s) (page_insert_new d asid pp va perm)
       else Some (0, store_pte (PPN (frame s d (PDX va)), PTX va) (mk_pte pp perm) (tlb_invalidate asid va s)))"
    using pgdir_walk_lookup [OF inv d va] T e
    by (simp add: page_insert_def pa2page_def del: target.simps)
  show thesis
  proof (cases "PPN e = pp")
    case True
    note E = remap_entry [OF inv d va Some perm refl, where asid = asid]
    show thesis
    proof (rule that)
      show "page_insert d asid pp va perm s = Some (0, store_pte (PPN (frame s d (PDX va)), PTX va)
          (mk_pte (PPN e) perm) (tlb_invalidate asid va s))"
        using ins True by simp
    qed (use E True in simp_all)
  next
    case False
    obtain s1 where s1: "page_remove d asid va s = Some s1"
      "pm_inv s1 R H (if pp_ref s (PPN e) = 1 then PPN e # xs else xs)" (is "pm_inv _ _ _ ?ys")
      "pp_ref s1 = (pp_ref s)(PPN e := pp_ref s (PPN e) - 1)"
      "aspace s1 d = (aspace s d)((PDX va, PTX va) := None)"
      "\<And>d'. d' \<in> R \<Longrightarrow> d' \<noteq> d \<Longrightarrow> aspace s1 d' = aspace s d'"
      "npage s1 = npage s"
      "\<And>d' i. target s1 R (PdeAt d' i) = target s R (PdeAt d' i)"
      using page_remove_mapped [OF inv d va Some] by metis
    have pp1: "mappable s1 R ?ys pp"
      using pp False s1 by (auto simp: mappable_def simp del: target.simps)
    have val1: "pte_valid (frame s1 d (PDX va))"
      using s1(7) [of d "PDX va"] T(2) by (auto split: if_splits)
    obtain s' where s': "page_insert_new d asid pp va perm s1 = Some (0, s')"
      "pm_inv s' R H (if pte_valid (frame s1 d (PDX va)) then ?ys else tl ?ys)"
      "aspace s' d = (aspace s1 d)((PDX va, PTX va) \<mapsto> mk_pte pp perm)"
      "\<And>d'. d' \<in> R \<Longrightarrow> d' \<noteq> d \<Longrightarrow> aspace s' d' = aspace s1 d'"
      using page_insert_new_ok [OF s1(2) d va _ pp1 perm, where asid = asid] val1 s1(4) by auto
    show thesis
    proof (rule that)
      show "page_insert d asid pp va perm s = Some (0, s')"
        using ins False s1(1) s'(1) by simp
    qed (use s' s1 in simp_all)
  qed
qed

lemma page_insert_nomem:
  assumes inv: "pm_inv s R H []" and d: "d \<in> R" and va: "PDX va < UPDX"
    and new: "\<not> pte_valid (frame s d (PDX va))"
  shows "page_insert d asid pp va perm s = Some (- E_NO_MEM, tlb_invalidate asid va s)"
  using pgdir_walk_lookup [OF inv d va] page_insert_new_nomem [OF inv new] new
  by (simp add: page_insert_def)

section \<open>Establishing the invariant\<close>

lemma refs_no_root [simp]: "refs s {} p = {}"
proof -
  have "target s {} x = None" for x
    by (cases x) simp_all
  then show ?thesis by (simp add: refs_def)
qed

lemma target_no_root [simp]: "target s {} x = None"
  by (cases x) simp_all

text \<open>Before the first address space every reference is one the kernel holds.\<close>

lemma pm_inv_empty:
  assumes "npage s \<le> 2 ^ 20" "is_LIST (page_free_list s) xs"
    "\<And>p. p \<in> set xs \<Longrightarrow> p < npage s \<and> pp_ref s p = 0"
    "\<And>p. p < npage s \<Longrightarrow> H p = unat (pp_ref s p)"
  shows "pm_inv s {} H xs"
  using assms by (simp add: pm_inv_def del: target.simps)

text \<open>A page the kernel holds once and whose user part has no valid entry can become a page
  directory.\<close>

lemma pm_inv_add_root:
  assumes inv: "pm_inv s R H xs" and d: "d < npage s" "d \<notin> R" "pp_ref s d = 1" "H d = 1"
    and clear: "\<And>i. i < UPDX \<Longrightarrow> \<not> pte_valid (frame s d i)"
  shows "pm_inv s (insert d R) (H(d := 0)) xs"
proof -
  have tgt: "target s (insert d R) = (target s R)(Root d := Some d)"
  proof
    fix x show "target s (insert d R) x = ((target s R)(Root d := Some d)) x"
      using clear d by (cases x) auto
  qed
  have fin: "finite R" "finite (refs s R p)" for p
    using pm_invD(2) [OF inv] finite_refs by blast+
  have rf: "refs s (insert d R) p = (if p = d then insert (Root d) (refs s R p) else refs s R p)" for p
    using d(2) unfolding refs_def tgt by auto
  have nd: "Root d \<notin> refs s R d"
    using d by (simp add: refs_def)
  have cnt: "unat (pp_ref s p) = (H(d := 0)) p + card (refs s (insert d R) p)" if "p < npage s" for p
    using pm_invD(6) [OF inv that] d fin nd by (auto simp: rf)
  have "pp_ref s p = 1" if "target s (insert d R) (PdeAt d' i) = Some p" for d' i p
    using that pm_invD(8) [OF inv] unfolding tgt by (auto simp del: target.simps)
  moreover have "p < npage s" if "target s (insert d R) x = Some p" for x p
    using that d pm_invD(5) [OF inv] unfolding tgt by (auto simp del: target.simps split: if_splits)
  ultimately show ?thesis
    using inv cnt d fin unfolding pm_inv_def by (auto simp del: target.simps fun_upd_apply)
qed

lemma aspace_clear: "(\<And>i. i < UPDX \<Longrightarrow> \<not> pte_valid (frame s d i)) \<Longrightarrow> aspace s d = Map.empty"
  by (auto simp: aspace_def fun_eq_iff)

text \<open>\<open>page_init\<close>: the loops of the boot code as lists.\<close>

lemma fold_mark_used:
  "fold mark_used xs s = s\<lparr>pp_ref := (\<lambda>p. if p \<in> set xs then 1 else pp_ref s p)\<rparr>"
  by (induction xs arbitrary: s) (auto simp: mark_used_def fun_eq_iff intro!: pmap.equality)

lemma fold_mark_free:
  assumes "is_LIST (page_free_list s) ys" "distinct xs" "set xs \<inter> set ys = {}"
  shows "\<exists>l. fold mark_free xs s =
     s\<lparr>pp_ref := (\<lambda>p. if p \<in> set xs then 0 else pp_ref s p), page_free_list := l\<rparr> \<and>
     is_LIST l (rev xs @ ys)"
  using assms
proof (induction xs arbitrary: s ys)
  case Nil
  then show ?case by (intro exI [of _ "page_free_list s"]) simp
next
  case (Cons i xs)
  have m: "is_LIST (page_free_list (mark_free i s)) (i # ys)"
    using Cons.prems LIST_INSERT_HEAD_seq by (simp add: mark_free_def)
  obtain l where l: "fold mark_free xs (mark_free i s) =
     (mark_free i s)\<lparr>pp_ref := (\<lambda>p. if p \<in> set xs then 0 else pp_ref (mark_free i s) p),
        page_free_list := l\<rparr>"
    "is_LIST l (rev xs @ i # ys)"
    using Cons.IH [OF m] Cons.prems by auto
  have "(\<lambda>p. if p \<in> set xs then 0 else pp_ref (mark_free i s) p) =
      (\<lambda>p. if p \<in> set (i # xs) then 0 else pp_ref s p)"
    by (auto simp: mark_free_def)
  with l show ?case
    by (intro exI [of _ l]) (simp add: mark_free_def [of i s])
qed

lemma page_init_ok:
  assumes np: "npage s \<le> 2 ^ 20" and fm: "ROUND (freemem s) PAGE_SIZE \<ge> ULIM"
    and u: "u = PPN (ROUND (freemem s) PAGE_SIZE - ULIM)" "u \<le> npage s"
  obtains s' where "page_init s = Some s'" "frame s' = frame s" "npage s' = npage s"
    "pm_inv s' {} (\<lambda>p. if p < u then 1 else 0) (rev [u..<npage s])"
proof -
  define s1 where "s1 = s\<lparr>page_free_list := LIST_INIT (page_free_list s),
    freemem := ROUND (freemem s) PAGE_SIZE\<rparr>"
  define s2 where "s2 = fold mark_used [0..<u] s1"
  have s2: "s2 = s1\<lparr>pp_ref := (\<lambda>p. if p < u then 1 else pp_ref s p)\<rparr>"
    by (simp add: s2_def fold_mark_used s1_def cong: if_cong)
  have np2: "npage s2 = npage s"
    by (simp add: s2 s1_def)
  have "is_LIST (page_free_list s2) []"
    by (simp add: s2 s1_def LIST_INIT_seq)
  from fold_mark_free [OF this, of "[u..<npage s]"] obtain l where l:
    "fold mark_free [u..<npage s] s2 =
       s2\<lparr>pp_ref := (\<lambda>p. if p \<in> set [u..<npage s] then 0 else pp_ref s2 p), page_free_list := l\<rparr>"
    "is_LIST l (rev [u..<npage s])"
    by auto
  have ini: "page_init s = Some (fold mark_free [u..<npage s] s2)"
    using fm np2 by (simp add: page_init_def PADDR_def Let_def u(1) [symmetric]
        not_less [symmetric] s1_def s2_def)
  show thesis
  proof (rule that [OF ini])
    show "pm_inv (fold mark_free [u..<npage s] s2) {} (\<lambda>p. if p < u then 1 else 0) (rev [u..<npage s])"
      unfolding l(1) using np l(2) np2 by (intro pm_inv_empty) (auto simp: s2)
  qed (unfold l(1), simp_all add: s2 s1_def)
qed

section \<open>Correctness of the page tables\<close>

text \<open>A small machine for the instances below: eight pages, page 1 the directory of one
  address space, pages 3, 4 and 5 free, page 2 allocated and not yet mapped.\<close>

definition small_pmap :: pmap where
  "small_pmap = \<lparr>memsize = 0x8000, npage = 8, freemem = ULIM, pages = ULIM,
     pp_ref = (\<lambda>_. 0)(1 := 1),
     page_free_list = LIST_INSERT_HEAD 3 (LIST_INSERT_HEAD 4 (LIST_INSERT_HEAD 5
       (LIST_INIT \<lparr>lh_first = None, le_next = (\<lambda>_. None), le_prev = (\<lambda>_. NullSlot)\<rparr>))),
     frame = (\<lambda>_ _. 0), tlb = []\<rparr>"

lemma small_pmap_simps [simp]:
  "npage small_pmap = 8" "pp_ref small_pmap = (\<lambda>_. 0)(1 := 1)" "frame small_pmap = (\<lambda>_ _. 0)"
  by (simp_all add: small_pmap_def)

lemma small_pmap_inv: "pm_inv small_pmap {1} (\<lambda>_. 0) [3, 4, 5]"
proof -
  have "is_LIST (page_free_list small_pmap) [3, 4, 5]"
    by (simp add: small_pmap_def LIST_INSERT_HEAD_seq LIST_INIT_seq)
  then have "pm_inv small_pmap {} ((\<lambda>_. 0)(1 := 1)) [3, 4, 5]"
    by (intro pm_inv_empty) auto
  from pm_inv_add_root [OF this, of 1] show ?thesis
    by (simp add: fun_upd_idem)
qed

lemma small_pmap_mappable: "mappable small_pmap {1} [3, 4, 5] 2"
  by (simp add: mappable_def)

text \<open>C2. Mapping a page: \<^verbatim>\<open>page_insert\<close> on an address space of the kernel, at a user
  address, with permission bits below the page size, returns 0; the address space then maps
  \<open>va\<close> to exactly that page with exactly those permissions and is otherwise unchanged
  (whether a page was mapped there before, another one or the same one), no other address
  space changes, and every reference count is again the number of references.\<close>

theorem page_insert_spec:
  assumes "pm_inv s R H xs" "d \<in> R" "va < UTOP" "mappable s R xs pp" "perm < PAGE_SIZE"
    and "pte_valid (frame s d (PDX va)) \<or> xs \<noteq> []"
  shows "\<exists>s' ys. page_insert d asid pp va perm s = Some (0, s') \<and> pm_inv s' R H ys \<and>
    aspace s' d = (aspace s d)((PDX va, PTX va) \<mapsto> mk_pte pp perm) \<and>
    (\<forall>d'\<in>R - {d}. aspace s' d' = aspace s d')"
  using page_insert_ok [OF assms(1,2) PDX_user [OF assms(3)] assms(4-6), where asid = asid]
  by (metis DiffD1 DiffD2 singletonI)

theorem page_insert_spec_witness:
  "\<exists>s' ys. page_insert 1 7 2 UTEXT PTE_D small_pmap = Some (0, s') \<and> pm_inv s' {1} (\<lambda>_. 0) ys \<and>
    aspace s' 1 = (aspace small_pmap 1)((PDX UTEXT, PTX UTEXT) \<mapsto> mk_pte 2 PTE_D) \<and>
    (\<forall>d'\<in>{1} - {1}. aspace s' d' = aspace small_pmap d')"
  by (rule page_insert_spec [OF small_pmap_inv _ _ small_pmap_mappable]) (simp_all add: PTE_D_def)

text \<open>Mapping without memory for a page table: \<^verbatim>\<open>page_insert\<close> returns \<open>- E_NO_MEM\<close> and
  changes nothing but the TLB.\<close>

theorem page_insert_out_of_memory:
  assumes "pm_inv s R H []" "d \<in> R" "va < UTOP" "\<not> pte_valid (frame s d (PDX va))"
  shows "page_insert d asid pp va perm s = Some (- E_NO_MEM, tlb_invalidate asid va s)"
  using page_insert_nomem [OF assms(1,2) PDX_user [OF assms(3)] assms(4)] .

lemma small_pmap_full:
  "pm_inv (small_pmap\<lparr>page_free_list := LIST_INIT (page_free_list small_pmap)\<rparr>) {1} (\<lambda>_. 0) []"
proof -
  let ?s = "small_pmap\<lparr>page_free_list := LIST_INIT (page_free_list small_pmap)\<rparr>"
  have "target ?s {1} = target small_pmap {1}"
    by (rule target_cong) simp_all
  then show ?thesis
    by (intro pm_inv_same [OF small_pmap_inv]) (simp_all add: LIST_INIT_seq)
qed

theorem page_insert_out_of_memory_witness:
  "page_insert 1 7 2 UTEXT 0 (small_pmap\<lparr>page_free_list := LIST_INIT (page_free_list small_pmap)\<rparr>) =
    Some (- E_NO_MEM, tlb_invalidate 7 UTEXT
      (small_pmap\<lparr>page_free_list := LIST_INIT (page_free_list small_pmap)\<rparr>))"
  by (rule page_insert_out_of_memory [OF small_pmap_full]) simp_all

text \<open>C22. Unmapping: \<^verbatim>\<open>page_remove\<close> at a user address never panics; afterwards \<open>va\<close> is not
  mapped and nothing else of any address space has changed, and the page that was mapped
  there is put on the free list exactly when this was its last reference.\<close>

theorem page_remove_spec:
  assumes "pm_inv s R H xs" "d \<in> R" "va < UTOP"
  shows "\<exists>s'. page_remove d asid va s = Some s' \<and>
    pm_inv s' R H (case aspace s d (PDX va, PTX va) of
        Some e \<Rightarrow> (if pp_ref s (PPN e) = 1 then PPN e # xs else xs) | None \<Rightarrow> xs) \<and>
    aspace s' d = (aspace s d)((PDX va, PTX va) := None) \<and>
    (\<forall>d'\<in>R - {d}. aspace s' d' = aspace s d')"
proof (cases "aspace s d (PDX va, PTX va)")
  case None
  then show ?thesis
    using page_remove_unmapped [OF assms(1,2) PDX_user [OF assms(3)] None] assms(1)
    by (simp add: fun_upd_idem)
next
  case (Some e)
  from page_remove_mapped [OF assms(1,2) PDX_user [OF assms(3)] Some] obtain s' where
    "page_remove d asid va s = Some s'"
    "pm_inv s' R H (if pp_ref s (PPN e) = 1 then PPN e # xs else xs)"
    "aspace s' d = (aspace s d)((PDX va, PTX va) := None)"
    "\<And>d'. d' \<in> R \<Longrightarrow> d' \<noteq> d \<Longrightarrow> aspace s' d' = aspace s d'"
    by metis
  then show ?thesis using Some by auto
qed

theorem page_remove_spec_witness:
  "\<exists>s'. page_remove 1 7 UTEXT small_pmap = Some s' \<and>
    pm_inv s' {1} (\<lambda>_. 0) (case aspace small_pmap 1 (PDX UTEXT, PTX UTEXT) of
        Some e \<Rightarrow> (if pp_ref small_pmap (PPN e) = 1 then PPN e # [3, 4, 5] else [3, 4, 5])
      | None \<Rightarrow> [3, 4, 5]) \<and>
    aspace s' 1 = (aspace small_pmap 1)((PDX UTEXT, PTX UTEXT) := None) \<and>
    (\<forall>d'\<in>{1} - {1}. aspace s' d' = aspace small_pmap d')"
  by (rule page_remove_spec [OF small_pmap_inv]) simp_all

text \<open>Lookup: \<^verbatim>\<open>page_lookup\<close> at a user address never panics and finds the page of the
  address space, or nothing when \<open>va\<close> is not mapped.\<close>

theorem page_lookup_spec:
  assumes "pm_inv s R H xs" "d \<in> R" "va < UTOP"
  shows "page_lookup d va s = Some (map_option
    (\<lambda>e. (PPN e, (PPN (frame s d (PDX va)), PTX va))) (aspace s d (PDX va, PTX va)))"
  using page_lookup_aspace [OF assms(1,2) PDX_user [OF assms(3)]] .

theorem page_lookup_spec_witness: "page_lookup 1 UTEXT small_pmap = Some None"
  using page_lookup_spec [OF small_pmap_inv, of 1 UTEXT] by (simp add: aspace_def)

text \<open>Allocation takes the first free page, clears it, and touches no reference count and
  no address space; freeing it puts the allocator back.\<close>

theorem page_alloc_free_roundtrip:
  assumes "pm_inv s R H (p # xs)"
  shows "\<exists>s' s''. page_alloc s = Some (Inr p, s') \<and> pm_inv s' R H xs \<and>
    frame s' = (frame s)(p := (\<lambda>_. 0)) \<and> pp_ref s' = pp_ref s \<and>
    (\<forall>d\<in>R. aspace s' d = aspace s d) \<and>
    page_free p s' = Some s'' \<and> pm_inv s'' R H (p # xs)"
proof -
  obtain s' where s': "page_alloc s = Some (Inr p, s')" "pm_inv s' R H xs"
    "target s' R = target s R" "pp_ref s' = pp_ref s" "npage s' = npage s"
    "frame s' = (frame s)(p := (\<lambda>_. 0))" "\<And>d. d \<in> R \<Longrightarrow> aspace s' d = aspace s d"
    using page_alloc_Cons [OF assms] by metis
  have p: "pp_ref s' p = 0" "p \<notin> set xs"
    using pm_invD(4) [OF assms, of p] s' pm_inv_distinct [OF assms] by auto
  let ?s = "s'\<lparr>page_free_list := LIST_INSERT_HEAD p (page_free_list s')\<rparr>"
  have "target ?s R = target s' R"
    by (rule target_cong) simp_all
  then have "pm_inv ?s R H (p # xs)"
    using s' assms p LIST_INSERT_HEAD_seq [OF pm_invD(3) [OF s'(2)]] pm_invD(4) [OF assms]
    by (intro pm_inv_same [OF assms]) auto
  with s' page_free_ok [OF p(1)] show ?thesis by auto
qed

theorem page_alloc_free_roundtrip_witness:
  "\<exists>s' s''. page_alloc small_pmap = Some (Inr 3, s') \<and> pm_inv s' {1} (\<lambda>_. 0) [4, 5] \<and>
    frame s' = (frame small_pmap)(3 := (\<lambda>_. 0)) \<and> pp_ref s' = pp_ref small_pmap \<and>
    (\<forall>d\<in>{1}. aspace s' d = aspace small_pmap d) \<and>
    page_free 3 s' = Some s'' \<and> pm_inv s'' {1} (\<lambda>_. 0) [3, 4, 5]"
  by (rule page_alloc_free_roundtrip [OF small_pmap_inv])

text \<open>The permission argument of \<^verbatim>\<open>page_insert\<close> is not masked: bits 12 and above are
  stored in the frame field of the entry. The comment of the routine says that the low 12
  bits of the entry are set to the permission.\<close>

theorem page_insert_perm_frame:
  "PPN (mk_pte 2 0x5000) = 7"
  by (simp add: mk_pte_def PPN_def page2pa_def page2ppn_def pte_flag_defs)

end
