(* ===== verification/MOS_Elf.thy ===== *)
theory MOS_Elf
  imports MOS_Prelude
begin

text \<open>
  The ELF loader: \<^verbatim>\<open>lib/elfloader.c\<close> and \<^verbatim>\<open>include/elf.h\<close>.

  An image is its list of bytes; reading beyond it is \<open>None\<close>. \<open>elf_load_seg\<close> calls a
  mapper for every page of a segment. The mapper is a parameter, as in the code: its
  arguments are the address, the offset in the page, the permission, the source (\<open>None\<close>
  for the null pointer, otherwise the position in the image) and the length, and it takes
  and returns the caller's state together with its return code.
\<close>

section \<open>Headers (include/elf.h)\<close>

type_synonym image = "u8 list"

definition img_u8 :: "image \<Rightarrow> nat \<Rightarrow> u8 option" where
  "img_u8 b off = (if off < length b then Some (b ! off) else None)"

definition img_u16 :: "image \<Rightarrow> nat \<Rightarrow> u16 option" where
  "img_u16 b off = do {
     x \<leftarrow> img_u8 b off; y \<leftarrow> img_u8 b (off + 1);
     Some (ucast x OR push_bit 8 (ucast y))
   }"

definition img_u32 :: "image \<Rightarrow> nat \<Rightarrow> u32 option" where
  "img_u32 b off = do {
     x \<leftarrow> img_u16 b off; y \<leftarrow> img_u16 b (off + 2);
     Some (ucast x OR push_bit 16 (ucast y))
   }"

record elf32_ehdr =
  e_type :: u16
  e_entry :: u32
  e_phoff :: u32
  e_phentsize :: u16
  e_phnum :: u16

record elf32_phdr =
  p_type :: u32
  p_offset :: u32
  p_vaddr :: u32
  p_filesz :: u32
  p_memsz :: u32
  p_flags :: u32

abbreviation sizeof_Elf32_Ehdr :: nat where "sizeof_Elf32_Ehdr \<equiv> 52"
abbreviation PT_LOAD :: u32 where "PT_LOAD \<equiv> 1"
abbreviation PF_W :: u32 where "PF_W \<equiv> 2"

definition elf_ehdr :: "image \<Rightarrow> elf32_ehdr option" where
  "elf_ehdr b = do {
     t \<leftarrow> img_u16 b 16; e \<leftarrow> img_u32 b 24; po \<leftarrow> img_u32 b 28;
     ps \<leftarrow> img_u16 b 42; pn \<leftarrow> img_u16 b 44;
     Some \<lparr>e_type = t, e_entry = e, e_phoff = po, e_phentsize = ps, e_phnum = pn\<rparr>
   }"

definition elf_phdr :: "image \<Rightarrow> nat \<Rightarrow> elf32_phdr option" where
  "elf_phdr b off = do {
     t \<leftarrow> img_u32 b off; po \<leftarrow> img_u32 b (off + 4); va \<leftarrow> img_u32 b (off + 8);
     fs \<leftarrow> img_u32 b (off + 16); ms \<leftarrow> img_u32 b (off + 20); fl \<leftarrow> img_u32 b (off + 24);
     Some \<lparr>p_type = t, p_offset = po, p_vaddr = va, p_filesz = fs, p_memsz = ms, p_flags = fl\<rparr>
   }"

section \<open>elf_from\<close>

text \<open>\<open>Inr None\<close> is the null pointer; the size test comes before any read.\<close>

definition elf_from :: "image \<Rightarrow> nat \<Rightarrow> elf32_ehdr option option" where
  "elf_from b sz =
    (if sizeof_Elf32_Ehdr \<le> sz then do {
       m0 \<leftarrow> img_u8 b 0; m1 \<leftarrow> img_u8 b 1; m2 \<leftarrow> img_u8 b 2; m3 \<leftarrow> img_u8 b 3;
       h \<leftarrow> elf_ehdr b;
       Some (if m0 = 0x7f \<and> m1 = 0x45 \<and> m2 = 0x4c \<and> m3 = 0x46 \<and> e_type h = 2 then Some h else None)
     } else Some None)"

section \<open>elf_load_seg\<close>

text \<open>A mapper call: address, offset, permission, source and length.\<close>

type_synonym 's mapper =
  "u32 \<Rightarrow> u32 \<Rightarrow> u32 \<Rightarrow> u32 option \<Rightarrow> u32 \<Rightarrow> 's \<Rightarrow> (int \<times> 's) option"

text \<open>Step 1 loads the content of the file, page by page; \<open>i\<close> is the number of bytes done.\<close>

partial_function (option) load_bin ::
  "'s mapper \<Rightarrow> u32 \<Rightarrow> u32 \<Rightarrow> u32 \<Rightarrow> u32 \<Rightarrow> u32 \<Rightarrow> 's \<Rightarrow> (int \<times> u32 \<times> 's) option" where
  "load_bin map_page va perm bin bin_size i s =
    (if i < bin_size then do {
       (r, s) \<leftarrow> map_page (va + i) 0 perm (Some (bin + i)) (min (bin_size - i) PAGE_SIZE) s;
       if r \<noteq> 0 then Some (r, i, s) else load_bin map_page va perm bin bin_size (i + PAGE_SIZE) s
     } else Some (0, i, s))"

text \<open>Step 2 maps zeroed pages up to the size of the segment in memory.\<close>

partial_function (option) load_bss ::
  "'s mapper \<Rightarrow> u32 \<Rightarrow> u32 \<Rightarrow> u32 \<Rightarrow> u32 \<Rightarrow> 's \<Rightarrow> (int \<times> 's) option" where
  "load_bss map_page va perm sgsize i s =
    (if i < sgsize then do {
       (r, s) \<leftarrow> map_page (va + i) 0 perm None (min (sgsize - i) PAGE_SIZE) s;
       if r \<noteq> 0 then Some (r, s) else load_bss map_page va perm sgsize (i + PAGE_SIZE) s
     } else Some (0, s))"

definition elf_load_seg :: "elf32_phdr \<Rightarrow> u32 \<Rightarrow> 's mapper \<Rightarrow> 's \<Rightarrow> (int \<times> 's) option" where
  "elf_load_seg ph bin map_page s =
    (let va = p_vaddr ph;
         bin_size = p_filesz ph;
         sgsize = p_memsz ph;
         perm = (if p_flags ph AND PF_W \<noteq> 0 then PTE_V OR PTE_D else PTE_V);
         offset = va - ROUNDDOWN va PAGE_SIZE
     in do {
       (r, s) \<leftarrow> (if offset \<noteq> 0
         then map_page va offset perm (Some bin) (min bin_size (PAGE_SIZE - offset)) s
         else Some (0, s));
       if r \<noteq> 0 then Some (r, s)
       else do {
         (r, i, s) \<leftarrow> load_bin map_page va perm bin bin_size
           (if offset \<noteq> 0 then min bin_size (PAGE_SIZE - offset) else 0) s;
         if r \<noteq> 0 then Some (r, s)
         else load_bss map_page va perm sgsize i s
       }
     })"

declare load_bin.simps [code] load_bss.simps [code]

section \<open>The calls of elf_load_seg\<close>

text \<open>The loader is the sequence of its mapper calls, stopped at the first error.\<close>

type_synonym mapper_call = "u32 \<times> u32 \<times> u32 \<times> u32 option \<times> u32"

fun run_calls :: "'s mapper \<Rightarrow> mapper_call list \<Rightarrow> 's \<Rightarrow> (int \<times> 's) option" where
  "run_calls m [] s = Some (0, s)"
| "run_calls m ((va, ofs, perm, src, len) # cs) s = do {
     (r, s) \<leftarrow> m va ofs perm src len s;
     if r \<noteq> 0 then Some (r, s) else run_calls m cs s
   }"

lemma run_calls_append:
  "run_calls m (xs @ ys) s = do { (r, s) \<leftarrow> run_calls m xs s; if r \<noteq> 0 then Some (r, s) else run_calls m ys s }"
proof (induction xs arbitrary: s)
  case (Cons c xs)
  obtain va ofs perm src len where c: "c = (va, ofs, perm, src, len)" by (cases c)
  show ?case
  proof (cases "m va ofs perm src len s")
    case (Some rs)
    then show ?thesis
      by (cases rs; cases "fst rs = 0") (simp_all add: c Cons.IH)
  qed (simp add: c)
qed simp

definition pages_from :: "u32 \<Rightarrow> u32 \<Rightarrow> u32 list" where
  "pages_from i n = map (\<lambda>k. i + of_nat k * PAGE_SIZE) [0..<(unat n - unat i + 4095) div 4096]"

definition bin_calls :: "u32 \<Rightarrow> u32 \<Rightarrow> u32 \<Rightarrow> u32 \<Rightarrow> u32 \<Rightarrow> mapper_call list" where
  "bin_calls va perm bin fs i =
     map (\<lambda>j. (va + j, 0, perm, Some (bin + j), min (fs - j) PAGE_SIZE)) (pages_from i fs)"

definition bss_calls :: "u32 \<Rightarrow> u32 \<Rightarrow> u32 \<Rightarrow> u32 \<Rightarrow> mapper_call list" where
  "bss_calls va perm ms i =
     map (\<lambda>j. (va + j, 0, perm, None, min (ms - j) PAGE_SIZE)) (pages_from i ms)"

lemma pages_from_end [simp]: "\<not> i < n \<Longrightarrow> pages_from i n = []"
  by (simp add: pages_from_def word_less_nat_alt)

lemma unat_add_page: "unat (i + PAGE_SIZE) = unat i + 4096" if "i < n" "unat n \<le> 2 ^ 32 - 4096"
  for i n :: u32
  using that by (simp add: unat_word_ariths word_less_nat_alt)

lemma pages_count: "(n - i + 4095) div 4096 = Suc ((n - (i + 4096) + 4095) div 4096)" if "i < n" for i n :: nat
proof (cases "i + 4096 \<le> n")
  case True
  then have "n - i + 4095 = (n - (i + 4096) + 4095) + 4096" by simp
  then show ?thesis by (simp only: div_add_self2)
next
  case False
  then have "n - (i + 4096) = 0" by simp
  moreover have "(n - i + 4095) div 4096 = 1"
    using that False by (intro div_nat_eqI) simp_all
  ultimately show ?thesis by simp
qed

lemma pages_from_step: "pages_from i n = i # pages_from (i + PAGE_SIZE) n"
  if "i < n" "unat n \<le> 2 ^ 32 - 4096"
proof -
  have k: "(unat n - unat i + 4095) div 4096 = Suc ((unat n - unat (i + PAGE_SIZE) + 4095) div 4096)"
    unfolding unat_add_page [OF that] using that(1) by (intro pages_count) (simp add: word_less_nat_alt)
  have upt: "[0..<Suc m] = 0 # map Suc [0..<m]" for m
    by (simp add: upt_conv_Cons map_Suc_upt del: upt_Suc)
  have "i + of_nat (Suc m) * PAGE_SIZE = i + PAGE_SIZE + of_nat m * PAGE_SIZE" for m
    by (simp add: distrib_right)
  then show ?thesis
    unfolding pages_from_def k upt by (simp only: list.map map_map o_def) simp
qed

definition end_from :: "u32 \<Rightarrow> u32 \<Rightarrow> u32" where
  "end_from i n = i + of_nat (length (pages_from i n)) * PAGE_SIZE"

lemma end_from_end [simp]: "\<not> i < n \<Longrightarrow> end_from i n = i"
  by (simp add: end_from_def)

lemma end_from_step: "end_from i n = end_from (i + PAGE_SIZE) n"
  if "i < n" "unat n \<le> 2 ^ 32 - 4096"
  using pages_from_step [OF that] by (simp add: end_from_def algebra_simps)

lemma page_induct [consumes 1, case_names stop more]:
  fixes i n :: u32
  assumes n: "unat n \<le> 2 ^ 32 - 4096"
    and "\<And>i. \<not> i < n \<Longrightarrow> P i" "\<And>i. i < n \<Longrightarrow> P (i + PAGE_SIZE) \<Longrightarrow> P i"
  shows "P i"
proof (induction "unat n - unat i" arbitrary: i rule: less_induct)
  case less
  show ?case
  proof (cases "i < n")
    case True
    then have "unat n - unat (i + PAGE_SIZE) < unat n - unat i"
      by (simp add: unat_add_page [OF True n] word_less_nat_alt)
    then show ?thesis using less True assms(3) by blast
  qed (rule assms(2))
qed

lemma load_bin_calls:
  assumes "unat fs \<le> 2 ^ 32 - 4096"
  shows "do { (r, i, s) \<leftarrow> load_bin m va perm bin fs i s; if r \<noteq> 0 then Some (r, s) else K i s } =
    do { (r, s) \<leftarrow> run_calls m (bin_calls va perm bin fs i) s;
         if r \<noteq> 0 then Some (r, s) else K (end_from i fs) s }"
  using assms
proof (induction arbitrary: s rule: page_induct [where i = i])
  case (stop i)
  then show ?case by (simp add: load_bin.simps bin_calls_def)
next
  case (more i)
  note [simp] = pages_from_step [OF more(1) assms]
  note [simp] = end_from_step [OF more(1) assms]
  show ?case
  proof (cases "m (va + i) 0 perm (Some (bin + i)) (min (fs - i) PAGE_SIZE) s")
    case (Some rs)
    show ?thesis
    proof (cases "fst rs = 0")
      case True
      then show ?thesis
        using more Some by (cases rs) (simp add: load_bin.simps [of m va perm bin fs i] bin_calls_def cong: if_cong)
    qed (use more Some in \<open>auto simp: load_bin.simps [of m va perm bin fs i] bin_calls_def split: prod.splits\<close>)
  qed (use more in \<open>simp add: load_bin.simps [of m va perm bin fs i] bin_calls_def\<close>)
qed

lemma load_bss_calls:
  assumes "unat ms \<le> 2 ^ 32 - 4096"
  shows "load_bss m va perm ms i s = run_calls m (bss_calls va perm ms i) s"
  using assms
proof (induction arbitrary: s rule: page_induct [where i = i])
  case (stop i)
  then show ?case by (simp add: load_bss.simps bss_calls_def)
next
  case (more i)
  note [simp] = pages_from_step [OF more(1) assms]
  show ?case
  proof (cases "m (va + i) 0 perm None (min (ms - i) PAGE_SIZE) s")
    case (Some rs)
    then show ?thesis
      using more by (cases rs; cases "fst rs = 0")
        (simp_all add: load_bss.simps [of m va perm ms i] bss_calls_def)
  qed (use more in \<open>simp add: load_bss.simps [of m va perm ms i] bss_calls_def\<close>)
qed

definition seg_calls :: "elf32_phdr \<Rightarrow> u32 \<Rightarrow> mapper_call list" where
  "seg_calls ph bin =
    (let va = p_vaddr ph; fs = p_filesz ph; ms = p_memsz ph;
         perm = (if p_flags ph AND PF_W \<noteq> 0 then PTE_V OR PTE_D else PTE_V);
         ofs = va - ROUNDDOWN va PAGE_SIZE;
         i = (if ofs \<noteq> 0 then min fs (PAGE_SIZE - ofs) else 0)
     in (if ofs \<noteq> 0 then [(va, ofs, perm, Some bin, i)] else []) @
        bin_calls va perm bin fs i @
        bss_calls va perm ms (end_from i fs))"

lemma run_calls_first:
  "do { (r, s) \<leftarrow> (if c then m a b p src l s else Some (0, s));
        if r \<noteq> 0 then Some (r, s)
        else do { (r, s) \<leftarrow> run_calls m xs s; if r \<noteq> 0 then Some (r, s) else run_calls m ys s } } =
   run_calls m ((if c then [(a, b, p, src, l)] else []) @ xs @ ys) s"
  by (cases c) (simp_all only: run_calls_append [symmetric] if_True if_False append_Nil append_Cons
      run_calls.simps bind.bind_lunit case_prod_conv simp_thms)

lemma elf_load_seg_calls:
  assumes "unat (p_filesz ph) \<le> 2 ^ 32 - 4096" "unat (p_memsz ph) \<le> 2 ^ 32 - 4096"
  shows "elf_load_seg ph bin m s = run_calls m (seg_calls ph bin) s"
  unfolding elf_load_seg_def seg_calls_def Let_def load_bin_calls [OF assms(1)] load_bss_calls [OF assms(2)]
    run_calls_first [symmetric]
  by (rule Option.bind_cong) (auto cong: if_cong)

section \<open>What a segment looks like in memory\<close>

text \<open>
  The contract of a mapper: the page at \<open>va\<close> becomes a fresh page that holds the \<open>len\<close> bytes
  at \<open>src\<close> from \<open>ofs\<close> on, or only zeros when there is no source. Memory is a partial map
  from page numbers to the bytes of the page.
\<close>

type_synonym pagemap = "nat \<Rightarrow> (nat \<Rightarrow> u8) option"

definition page_content :: "image \<Rightarrow> u32 \<Rightarrow> u32 option \<Rightarrow> u32 \<Rightarrow> nat \<Rightarrow> u8" where
  "page_content b ofs src len k = (case src of None \<Rightarrow> 0
     | Some p \<Rightarrow> if unat ofs \<le> k \<and> k < unat ofs + unat len then b ! (unat p + (k - unat ofs)) else 0)"

definition spec_mapper :: "image \<Rightarrow> pagemap mapper" where
  "spec_mapper b va ofs perm src len M = Some (0, M(VPN va \<mapsto> page_content b ofs src len))"

lemma unat_plus_bound: "unat (x + y) = unat x + unat y" if "unat x + unat y < 2 ^ 32" for x y :: u32
  using that by (simp add: unat_word_ariths)

definition seg_page :: "image \<Rightarrow> nat \<Rightarrow> nat \<Rightarrow> nat \<Rightarrow> nat \<Rightarrow> nat \<Rightarrow> u8" where
  "seg_page b bin va fs q k =
     (if k < 4096 \<and> va \<le> q * 4096 + k \<and> q * 4096 + k < va + fs then b ! (bin + (q * 4096 + k - va)) else 0)"

lemma run_bin_calls:
  assumes "unat va + unat fs \<le> 2 ^ 31" "unat bin + unat fs \<le> 2 ^ 31"
    and "i < fs \<Longrightarrow> (unat va + unat i) mod 4096 = 0"
  shows "run_calls (spec_mapper b) (bin_calls va perm bin fs i) M =
    Some (0, \<lambda>q. if i < fs \<and> (unat va + unat i) div 4096 \<le> q \<and> q * 4096 < unat va + unat fs
                 then Some (seg_page b (unat bin) (unat va) (unat fs) q) else M q)"
proof -
  have fs: "unat fs \<le> 2 ^ 32 - 4096" using assms(1) by simp
  show ?thesis
    using fs assms(3)
  proof (induction arbitrary: M rule: page_induct [where i = i])
    case (stop i)
    then show ?case by (simp add: bin_calls_def)
  next
    case (more i)
    have il: "unat i < unat fs" using more(1) by (simp add: word_less_nat_alt)
    have u: "unat (va + i) = unat va + unat i" "unat (bin + i) = unat bin + unat i"
      using il assms by (simp_all add: unat_plus_bound)
    have u4: "unat (i + PAGE_SIZE) = unat i + 4096"
      using unat_add_page [OF more(1) fs] .
    define q where "q = (unat va + unat i) div 4096"
    have q: "unat va + unat i = q * 4096"
      using more(1,3) by (auto simp: q_def mod_eq_0_iff_dvd)
    have len: "unat (min (fs - i) PAGE_SIZE) = min (unat fs - unat i) 4096"
      using more(1) by (simp add: min_def word_le_nat_alt unat_sub word_less_nat_alt)
    have pg: "page_content b 0 (Some (bin + i)) (min (fs - i) PAGE_SIZE) =
        seg_page b (unat bin) (unat va) (unat fs) q"
    proof
      fix k
      have "q * 4096 + k - unat va = unat i + k" using q by simp
      then show "page_content b 0 (Some (bin + i)) (min (fs - i) PAGE_SIZE) k =
          seg_page b (unat bin) (unat va) (unat fs) q k"
        using q by (auto simp: page_content_def seg_page_def len u add.assoc)
    qed
    have al: "(unat va + unat (i + PAGE_SIZE)) mod 4096 = 0"
      using q by (simp add: u4 add.assoc [symmetric])
    have q': "(unat va + unat (i + PAGE_SIZE)) div 4096 = Suc q"
      using q by (simp add: u4 add.assoc [symmetric])
    have "run_calls (spec_mapper b) (bin_calls va perm bin fs i) M =
      run_calls (spec_mapper b) (bin_calls va perm bin fs (i + PAGE_SIZE))
        (M(q \<mapsto> seg_page b (unat bin) (unat va) (unat fs) q))"
      by (simp add: bin_calls_def pages_from_step [OF more(1) fs] spec_mapper_def pg VPN_div u q_def [symmetric])
    also have "\<dots> = Some (0, \<lambda>p. if i + PAGE_SIZE < fs \<and> Suc q \<le> p \<and> p * 4096 < unat va + unat fs
                 then Some (seg_page b (unat bin) (unat va) (unat fs) p)
                 else (M(q \<mapsto> seg_page b (unat bin) (unat va) (unat fs) q)) p)"
      using more(2) [OF al] by (simp add: q')
    also have "\<dots> = Some (0, \<lambda>p. if i < fs \<and> (unat va + unat i) div 4096 \<le> p \<and> p * 4096 < unat va + unat fs
                 then Some (seg_page b (unat bin) (unat va) (unat fs) p) else M p)"
      using more(1) il q u4 by (auto simp: fun_eq_iff q_def [symmetric] word_less_nat_alt)
    finally show ?case .
  qed
qed

lemma run_bss_calls:
  assumes "unat va + unat ms \<le> 2 ^ 31" "i < ms \<Longrightarrow> (unat va + unat i) mod 4096 = 0"
  shows "run_calls (spec_mapper b) (bss_calls va perm ms i) M =
    Some (0, \<lambda>q. if i < ms \<and> (unat va + unat i) div 4096 \<le> q \<and> q * 4096 < unat va + unat ms
                 then Some (\<lambda>_. 0) else M q)"
proof -
  have ms: "unat ms \<le> 2 ^ 32 - 4096" using assms(1) by simp
  show ?thesis
    using ms assms(2)
  proof (induction arbitrary: M rule: page_induct [where i = i])
    case (stop i)
    then show ?case by (simp add: bss_calls_def)
  next
    case (more i)
    have il: "unat i < unat ms" using more(1) by (simp add: word_less_nat_alt)
    have u: "unat (va + i) = unat va + unat i"
      using il assms by (simp add: unat_plus_bound)
    have u4: "unat (i + PAGE_SIZE) = unat i + 4096"
      using unat_add_page [OF more(1) ms] .
    define q where "q = (unat va + unat i) div 4096"
    have q: "unat va + unat i = q * 4096"
      using more(1,3) by (auto simp: q_def mod_eq_0_iff_dvd)
    have al: "(unat va + unat (i + PAGE_SIZE)) mod 4096 = 0"
      using q by (simp add: u4 add.assoc [symmetric])
    have q': "(unat va + unat (i + PAGE_SIZE)) div 4096 = Suc q"
      using q by (simp add: u4 add.assoc [symmetric])
    have pg: "page_content b 0 None len = (\<lambda>_. 0)" for len
      by (simp add: page_content_def fun_eq_iff)
    have "run_calls (spec_mapper b) (bss_calls va perm ms i) M =
      run_calls (spec_mapper b) (bss_calls va perm ms (i + PAGE_SIZE)) (M(q \<mapsto> (\<lambda>_. 0)))"
      by (simp add: bss_calls_def pages_from_step [OF more(1) ms] spec_mapper_def pg VPN_div u q_def [symmetric])
    also have "\<dots> = Some (0, \<lambda>p. if i + PAGE_SIZE < ms \<and> Suc q \<le> p \<and> p * 4096 < unat va + unat ms
                 then Some (\<lambda>_. 0) else (M(q \<mapsto> (\<lambda>_. 0))) p)"
      using more(2) [OF al] by (simp add: q')
    also have "\<dots> = Some (0, \<lambda>p. if i < ms \<and> (unat va + unat i) div 4096 \<le> p \<and> p * 4096 < unat va + unat ms
                 then Some (\<lambda>_. 0) else M p)"
      using more(1) il q u4 by (auto simp: fun_eq_iff q_def [symmetric] word_less_nat_alt)
    finally show ?case .
  qed
qed

text \<open>Where the file part ends: the first page boundary of the loop at or after its size.\<close>

lemma end_from_bounds:
  assumes "unat fs \<le> 2 ^ 32 - 4096" "i \<le> fs"
  shows "unat fs \<le> unat (end_from i fs) \<and> unat (end_from i fs) < unat fs + 4096 \<and>
    (\<exists>k. unat (end_from i fs) = unat i + k * 4096)"
  using assms
proof (induction rule: page_induct [where i = i])
  case (stop i)
  then show ?case by (auto intro: exI [of _ 0])
next
  case (more i)
  have u4: "unat (i + PAGE_SIZE) = unat i + 4096"
    using unat_add_page [OF more(1) assms(1)] .
  show ?case
  proof (cases "i + PAGE_SIZE \<le> fs")
    case True
    then obtain k where "unat (end_from i fs) = unat i + 4096 + k * 4096"
      using more u4 by (auto simp: end_from_step [OF more(1) assms(1)])
    then have "unat (end_from i fs) = unat i + Suc k * 4096" by simp
    then show ?thesis
      using more True by (auto simp: end_from_step [OF more(1) assms(1)] simp del: mult_Suc)
  next
    case False
    then have "\<not> i + PAGE_SIZE < fs" by simp
    then have "end_from i fs = i + PAGE_SIZE"
      by (simp add: end_from_step [OF more(1) assms(1)])
    with u4 False more(1) show ?thesis
      by (auto simp: word_le_nat_alt word_less_nat_alt intro: exI [of _ 1])
  qed
qed

lemma page_offset: "unat (va - ROUNDDOWN va PAGE_SIZE) = unat va mod 4096"
proof -
  have m: "NOT (PAGE_SIZE - 1) = (NOT (mask 12) :: u32)"
    by (simp add: mask_eq_exp_minus_1)
  have "ROUNDDOWN va PAGE_SIZE = push_bit 12 (drop_bit 12 va)"
    unfolding ROUNDDOWN_def m by (rule bit_word_eqI) (auto simp: bit_simps)
  then have "va - ROUNDDOWN va PAGE_SIZE = take_bit 12 va"
    using bits_ident [of 12 va] by (metis add_diff_cancel_left')
  then show ?thesis
    by (simp add: take_bit_eq_mod unat_mod)
qed

lemma page_of_offset:
  fixes v k :: nat
  assumes "v mod 4096 + k < 4096"
  shows "(v + k) div 4096 = v div 4096 \<and> (v + k) mod 4096 = v mod 4096 + k"
proof -
  have "v + k = v div 4096 * 4096 + (v mod 4096 + k)" by simp
  then show ?thesis using assms
    by (metis div_mult_self3 div_less add.right_neutral mod_mult_self3 mod_less zero_neq_numeral)
qed

lemma up_to_page: "q * 4096 + r = v \<Longrightarrow> r < 4096 \<Longrightarrow> v + (4096 - r) = (q + 1) * 4096" for q r v :: nat
  by auto

definition seg_ok :: "elf32_phdr \<Rightarrow> image \<Rightarrow> u32 \<Rightarrow> bool" where
  "seg_ok ph b bin \<longleftrightarrow> p_filesz ph \<le> p_memsz ph \<and> unat (p_vaddr ph) + unat (p_memsz ph) \<le> 2 ^ 31 \<and>
     unat bin + unat (p_filesz ph) \<le> 2 ^ 31 \<and>
     (unat (p_vaddr ph) mod 4096 = 0 \<or> 4096 - unat (p_vaddr ph) mod 4096 \<le> unat (p_filesz ph) \<or>
      p_filesz ph = p_memsz ph)"

definition perm_of :: "elf32_phdr \<Rightarrow> u32" where
  "perm_of ph = (if p_flags ph AND PF_W \<noteq> 0 then PTE_V OR PTE_D else PTE_V)"

text \<open>The first call, for a segment that does not start on a page boundary, and the rest.\<close>

lemma elf_load_seg_run:
  assumes "seg_ok ph b bin" and o: "ofs = p_vaddr ph - ROUNDDOWN (p_vaddr ph) PAGE_SIZE"
    and i: "i = (if ofs \<noteq> 0 then min (p_filesz ph) (PAGE_SIZE - ofs) else 0)"
  shows "elf_load_seg ph bin (spec_mapper b) M =
    do { (r, M) \<leftarrow> run_calls (spec_mapper b)
           (bin_calls (p_vaddr ph) (perm_of ph) bin (p_filesz ph) i)
           (if ofs \<noteq> 0 then M(VPN (p_vaddr ph) \<mapsto> page_content b ofs (Some bin) i) else M);
         run_calls (spec_mapper b)
           (bss_calls (p_vaddr ph) (perm_of ph) (p_memsz ph) (end_from i (p_filesz ph))) M }"
proof -
  have sz: "unat (p_filesz ph) \<le> 2 ^ 32 - 4096" "unat (p_memsz ph) \<le> 2 ^ 32 - 4096"
    using assms(1) by (auto simp: seg_ok_def)
  have sm: "\<exists>M'. run_calls (spec_mapper b) cs M = Some (0, M')" for cs M
    by (induction cs arbitrary: M) (auto simp: spec_mapper_def)
  have bind0: "do { (r, M) \<leftarrow> run_calls (spec_mapper b) cs M; if r \<noteq> 0 then Some (r, M) else K M } =
      do { (r, M) \<leftarrow> run_calls (spec_mapper b) cs M; K M }" for cs M and K :: "pagemap \<Rightarrow> (int \<times> pagemap) option"
    using sm [of cs M] by auto
  show ?thesis
    unfolding elf_load_seg_calls [OF sz] seg_calls_def Let_def o [symmetric] i [symmetric]
      perm_of_def [symmetric] run_calls_first [symmetric]
    by (cases "ofs = 0") (simp_all add: bind0 spec_mapper_def cong: if_cong)
qed

text \<open>From a page boundary on, the loops leave every page of the segment as it should be.\<close>

lemma run_tail:
  assumes bnd: "unat va + unat ms \<le> 2 ^ 31" "unat bin + unat fs \<le> 2 ^ 31" "fs \<le> ms" "i \<le> fs"
    and al: "(unat va + unat i) mod 4096 = 0"
  obtains M' where "do { (r, M) \<leftarrow> run_calls (spec_mapper b) (bin_calls va perm bin fs i) M;
         run_calls (spec_mapper b) (bss_calls va perm ms (end_from i fs)) M } = Some (0, M')"
    "\<And>q. (unat va + unat i) div 4096 \<le> q \<Longrightarrow> q * 4096 < unat va + unat ms \<Longrightarrow>
       M' q = Some (seg_page b (unat bin) (unat va) (unat fs) q)"
    "\<And>q. q < (unat va + unat i) div 4096 \<Longrightarrow> M' q = M q"
proof -
  let ?V = "unat va" and ?F = "unat fs" and ?E = "unat (end_from i fs)"
  have fs: "?F \<le> unat ms" "unat i \<le> ?F"
    using bnd by (simp_all add: word_le_nat_alt)
  have b1: "?V + ?F \<le> 2 ^ 31" "?F \<le> 2 ^ 32 - 4096"
    using bnd fs by simp_all
  obtain k where E: "?F \<le> ?E" "?E < ?F + 4096" "?E = unat i + k * 4096"
    using end_from_bounds [OF b1(2) bnd(4)] by auto
  define p where "p = (?V + unat i) div 4096"
  have p: "?V + unat i = p * 4096" "?V + ?E = (p + k) * 4096"
    using al E(3) by (auto simp: p_def mod_eq_0_iff_dvd algebra_simps)
  have alE: "(?V + ?E) mod 4096 = 0" and divE: "(?V + ?E) div 4096 = p + k"
    by (simp_all only: p mod_mult_self2_is_0) simp
  let ?M1 = "\<lambda>q. if i < fs \<and> p \<le> q \<and> q * 4096 < ?V + ?F
                 then Some (seg_page b (unat bin) ?V ?F q) else M q"
  let ?M2 = "\<lambda>q. if end_from i fs < ms \<and> p + k \<le> q \<and> q * 4096 < ?V + unat ms
                 then Some (\<lambda>_. 0) else ?M1 q"
  have z: "seg_page b (unat bin) ?V ?F q = (\<lambda>_. 0)" if "p + k \<le> q" for q
  proof
    fix j
    have "(p + k) * 4096 \<le> q * 4096"
      using that by (rule mult_le_mono1)
    with p(2) E(1) show "seg_page b (unat bin) ?V ?F q j = 0"
      by (simp add: seg_page_def)
  qed
  show thesis
  proof (rule that)
    show "do { (r, M) \<leftarrow> run_calls (spec_mapper b) (bin_calls va perm bin fs i) M;
         run_calls (spec_mapper b) (bss_calls va perm ms (end_from i fs)) M } = Some (0, ?M2)"
      using run_bin_calls [OF b1(1) bnd(2) al, of b perm M] run_bss_calls [OF bnd(1) alE, of b perm ?M1]
      by (simp add: p_def [symmetric] divE)
    show "?M2 q = M q" if "q < (?V + unat i) div 4096" for q
      using that by (simp add: p_def)
    fix q assume q: "(?V + unat i) div 4096 \<le> q" "q * 4096 < ?V + unat ms"
    then have pq: "p \<le> q" by (simp add: p_def)
    show "?M2 q = Some (seg_page b (unat bin) ?V ?F q)"
    proof (cases "p + k \<le> q")
      case True
      then have "(p + k) * 4096 \<le> q * 4096" by (rule mult_le_mono1)
      then have "end_from i fs < ms"
        using q(2) p(2) by (simp add: word_less_nat_alt)
      with True q z show ?thesis by simp
    next
      case False
      then have "(q + 1) * 4096 \<le> (p + k) * 4096" by (intro mult_le_mono1) simp
      then have "q * 4096 < ?V + ?F"
        using p(2) E(2) by simp
      moreover have "p * 4096 \<le> q * 4096" using pq by (rule mult_le_mono1)
      ultimately have "unat i < ?F" using p(1) by simp
      with False pq \<open>q * 4096 < ?V + ?F\<close> show ?thesis
        by (simp add: word_less_nat_alt)
    qed
  qed
qed

text \<open>C20. The loader: for a segment that starts on a page boundary, or whose file part
  reaches the end of its first page, or that has no zero-filled part, \<^verbatim>\<open>elf_load_seg\<close> with a
  mapper that keeps its contract succeeds, and afterwards every byte of the segment is
  mapped: the bytes of the file first, then zeros up to the size in memory.\<close>

theorem elf_load_seg_memory:
  assumes ok: "seg_ok ph b bin"
  shows "\<exists>M'. elf_load_seg ph bin (spec_mapper b) M = Some (0, M') \<and>
    (\<forall>k<unat (p_memsz ph). \<exists>pg. M' ((unat (p_vaddr ph) + k) div 4096) = Some pg \<and>
       pg ((unat (p_vaddr ph) + k) mod 4096) =
         (if k < unat (p_filesz ph) then b ! (unat bin + k) else 0))"
proof -
  let ?V = "unat (p_vaddr ph)" and ?F = "unat (p_filesz ph)" and ?S = "unat (p_memsz ph)"
  define ofs where "ofs = p_vaddr ph - ROUNDDOWN (p_vaddr ph) PAGE_SIZE"
  define i where "i = (if ofs \<noteq> 0 then min (p_filesz ph) (PAGE_SIZE - ofs) else 0)"
  have o: "unat ofs = ?V mod 4096"
    by (simp add: ofs_def page_offset)
  note ok' = ok [unfolded seg_ok_def]
  note run = elf_load_seg_run [OF ok ofs_def i_def]
  have sp: "seg_page b (unat bin) ?V ?F ((?V + k) div 4096) ((?V + k) mod 4096) =
      (if k < ?F then b ! (unat bin + k) else 0)" for k
    by (simp add: seg_page_def)
  have i_le: "i \<le> p_filesz ph" by (simp add: i_def)
  show ?thesis
  proof (cases "(?V + unat i) mod 4096 = 0")
    case al: True
    let ?M = "if ofs \<noteq> 0 then M(VPN (p_vaddr ph) \<mapsto> page_content b ofs (Some bin) i) else M"
    obtain M' where M': "elf_load_seg ph bin (spec_mapper b) M = Some (0, M')"
      "\<And>q. (?V + unat i) div 4096 \<le> q \<Longrightarrow> q * 4096 < ?V + ?S \<Longrightarrow>
         M' q = Some (seg_page b (unat bin) ?V ?F q)"
      "\<And>q. q < (?V + unat i) div 4096 \<Longrightarrow> M' q = ?M q"
      using run_tail [OF _ _ _ i_le al, of "p_memsz ph" bin b "perm_of ph" ?M] ok' run by auto
    have "\<exists>pg. M' ((?V + k) div 4096) = Some pg \<and>
        pg ((?V + k) mod 4096) = (if k < ?F then b ! (unat bin + k) else 0)" if k: "k < ?S" for k
    proof (cases "unat i \<le> k")
      case True
      then have "M' ((?V + k) div 4096) = Some (seg_page b (unat bin) ?V ?F ((?V + k) div 4096))"
        using k by (intro M'(2)) (simp_all add: div_le_mono)
      then show ?thesis using sp by simp
    next
      case False
      then have nz: "ofs \<noteq> 0" and ki: "k < unat i" by (auto simp: i_def)
      have iF: "unat i \<le> ?F" using i_le by (simp add: word_le_nat_alt)
      have o4: "unat ofs < 4096" using o by simp
      have io: "unat i \<le> 4096 - unat ofs"
        using nz o4 by (simp add: i_def min_def word_le_nat_alt unat_sub)
      have ko: "?V mod 4096 + k < 4096" using ki io o by simp
      have d: "(?V + k) div 4096 = ?V div 4096" and m: "(?V + k) mod 4096 = unat ofs + k"
        using page_of_offset [OF ko] o by simp_all
      have "?V + unat i = (?V + unat i) div 4096 * 4096" using al by auto
      then have "(?V + k) div 4096 < (?V + unat i) div 4096"
        using ki by (subst div_less_iff_less_mult) simp_all
      then have "M' (?V div 4096) = Some (page_content b ofs (Some bin) i)"
        using M'(3) nz d by (simp add: VPN_div)
      then show ?thesis
        using d m ki iF by (simp add: page_content_def)
    qed
    with M'(1) show ?thesis by blast
  next
    case False
    have o4: "unat ofs < 4096" using o by simp
    have nz: "ofs \<noteq> 0" using False o by (auto simp: i_def)
    have "\<not> 4096 - unat ofs \<le> ?F"
    proof
      assume "4096 - unat ofs \<le> ?F"
      then have "unat i = 4096 - unat ofs"
        using nz o4 by (simp add: i_def min_def word_le_nat_alt unat_sub)
      then have "?V + unat i = (?V div 4096 + 1) * 4096"
        using up_to_page [OF div_mult_mod_eq [of ?V 4096] _] o4 o by simp
      then have "(?V + unat i) mod 4096 = 0"
        by (simp only: mod_mult_self2_is_0)
      with False show False by simp
    qed
    then have fs: "p_filesz ph = p_memsz ph" and i: "i = p_filesz ph" and ko: "?F < 4096 - unat ofs"
      using ok' o nz o4 by (auto simp: i_def min_def word_le_nat_alt unat_sub unat_eq_0)
    let ?M = "M(VPN (p_vaddr ph) \<mapsto> page_content b ofs (Some bin) i)"
    have run': "elf_load_seg ph bin (spec_mapper b) M = Some (0, ?M)"
      using run nz by (simp add: i fs bin_calls_def bss_calls_def)
    have "(?V + k) div 4096 = ?V div 4096 \<and> (?V + k) mod 4096 = unat ofs + k" if "k < ?F" for k
      using page_of_offset [of ?V k] that ko o by simp
    with run' show ?thesis
      by (auto simp: VPN_div page_content_def i fs)
  qed
qed

text \<open>A data segment as the linker script of the user programs lays it out: it starts on a
  page boundary, with four bytes in the file and two in its zero part.\<close>

definition small_phdr :: elf32_phdr where
  "small_phdr = \<lparr>p_type = PT_LOAD, p_offset = 0, p_vaddr = UTEXT, p_filesz = 4, p_memsz = 6, p_flags = PF_W\<rparr>"

theorem elf_load_seg_memory_witness:
  "\<exists>M'. elf_load_seg small_phdr 0 (spec_mapper [1, 2, 3, 4]) Map.empty = Some (0, M') \<and>
    (\<forall>k<unat (p_memsz small_phdr). \<exists>pg. M' ((unat (p_vaddr small_phdr) + k) div 4096) = Some pg \<and>
       pg ((unat (p_vaddr small_phdr) + k) mod 4096) =
         (if k < unat (p_filesz small_phdr) then [1, 2, 3, 4] ! (unat (0::u32) + k) else 0))"
  by (rule elf_load_seg_memory) (simp add: seg_ok_def small_phdr_def)

text \<open>The missing case: a segment that starts inside a page and whose file part ends in
  that page. The loop for the zero part starts at the end of the file part, in the same page,
  and maps a fresh page over it: the bytes of the file are lost. Here the byte at the start
  of the segment should be 1 and is 0.\<close>

theorem elf_load_seg_unaligned_loses_data:
  "\<exists>M' pg. elf_load_seg (small_phdr\<lparr>p_vaddr := UTEXT + 16\<rparr>) 0 (spec_mapper [1, 2, 3, 4]) Map.empty =
      Some (0, M') \<and> M' 0x400 = Some pg \<and> pg 16 = 0"
proof -
  have r: "UTEXT + 16 - ROUNDDOWN (UTEXT + 16) PAGE_SIZE = 16"
    by (simp add: ROUNDDOWN_def)
  have l: "load_bin m va perm bin fs fs s = Some (0, fs, s)" for m va perm bin fs and s :: 'a
    by (simp add: load_bin.simps)
  show ?thesis
    by (simp add: elf_load_seg_def small_phdr_def r l load_bss.simps spec_mapper_def VPN_def
        page_content_def ROUNDDOWN_def)
qed

end
