(* ===== verification/MOS_Env.thy ===== *)
theory MOS_Env
  imports MOS_PmapInv MOS_Elf
begin

text \<open>
  Environments (processes) and the scheduler: \<^verbatim>\<open>kern/env.c\<close>, \<^verbatim>\<open>include/env.h\<close>,
  \<^verbatim>\<open>include/trap.h\<close>, \<^verbatim>\<open>kern/sched.c\<close>.

  A \<^verbatim>\<open>struct Env *\<close> is its index in \<^verbatim>\<open>envs\<close>; the intrusive links \<^verbatim>\<open>env_link\<close> and
  \<^verbatim>\<open>env_sched_link\<close> are the two queues of the kernel state. The context of a process is a
  trapframe; \<open>kstack_tf\<close> is the one the exception entry saves below \<^verbatim>\<open>KSTACKTOP\<close>, and
  \<open>cpu\<close> the one \<^verbatim>\<open>env_pop_tf\<close> returns to. A routine that may not return to its caller,
  because it switches to another process, has an \<open>outcome\<close>.
\<close>

section \<open>State (include/env.h, include/trap.h)\<close>

record trapframe =
  regs :: "nat \<Rightarrow> u32"
  cp0_status :: u32
  hi :: u32
  lo :: u32
  cp0_badvaddr :: u32
  cp0_cause :: u32
  cp0_epc :: u32

record env =
  env_tf :: trapframe
  env_id :: u32
  env_asid :: u32
  env_parent_id :: u32
  env_status :: u32
  env_pgdir :: nat
  env_pri :: u32
  env_ipc_value :: u32
  env_ipc_from :: u32
  env_ipc_recving :: u32
  env_ipc_dstva :: u32
  env_ipc_perm :: u32
  env_user_tlb_mod_entry :: u32
  env_runs :: u32

record job =
  job_id :: u32
  flag :: u32
  job_env_id :: u32
  command :: "u8 list"

text \<open>Accesses to devices, in the order they happen: bytes sent to the console and the reads
  and writes of memory-mapped registers (address, length in bytes, value).\<close>

datatype io_event = ConsOut u8 | DevWrite u32 nat u32 | DevRead u32 nat u32

record kstate =
  pm :: pmap
  envs :: "nat \<Rightarrow> env"
  curenv :: "nat option"
  env_free_list :: list_links
  env_sched_list :: tailq_links
  base_pgdir :: nat
  asid_bitmap :: "nat \<Rightarrow> u32"
  mkenvid_i :: u32
  count :: u32
  cur_pgdir :: nat
  kstack_tf :: trapframe
  cpu :: trapframe
  entryhi_asid :: u32
  job_num :: u32
  jobs :: "nat \<Rightarrow> job"
  io_trace :: "io_event list"

datatype 'a outcome = Ret 'a | Switch

type_synonym 'a kres = "('a outcome \<times> kstate) option"

abbreviation ENV_FREE :: u32 where "ENV_FREE \<equiv> 0"
abbreviation ENV_RUNNABLE :: u32 where "ENV_RUNNABLE \<equiv> 1"
abbreviation ENV_NOT_RUNNABLE :: u32 where "ENV_NOT_RUNNABLE \<equiv> 2"
abbreviation LOG2NENV :: nat where "LOG2NENV \<equiv> 10"
abbreviation NENV :: nat where "NENV \<equiv> 1024"

definition ENVX :: "u32 \<Rightarrow> nat" where
  "ENVX envid = unat (envid AND 1023)"

text \<open>\<^verbatim>\<open>e->field = v\<close>.\<close>

definition upd_env :: "nat \<Rightarrow> (env \<Rightarrow> env) \<Rightarrow> kstate \<Rightarrow> kstate" where
  "upd_env e f s = s\<lparr>envs := (envs s)(e := f (envs s e))\<rparr>"

text \<open>A call into the memory manager.\<close>

definition with_pm :: "(pmap \<Rightarrow> ('a \<times> pmap) option) \<Rightarrow> kstate \<Rightarrow> ('a \<times> kstate) option" where
  "with_pm f s = do { (r, m) \<leftarrow> f (pm s); Some (r, s\<lparr>pm := m\<rparr>) }"

definition do_pm :: "(pmap \<Rightarrow> pmap option) \<Rightarrow> kstate \<Rightarrow> kstate option" where
  "do_pm f s = do { m \<leftarrow> f (pm s); Some (s\<lparr>pm := m\<rparr>) }"

section \<open>ASIDs\<close>

definition asid_used :: "(nat \<Rightarrow> u32) \<Rightarrow> nat \<Rightarrow> bool" where
  "asid_used bm i \<longleftrightarrow> bm (i div 32) AND push_bit (i mod 32) 1 \<noteq> 0"

definition asid_alloc :: "kstate \<Rightarrow> nat res \<times> kstate" where
  "asid_alloc s =
    (case find (\<lambda>i. \<not> asid_used (asid_bitmap s) i) [0..<NASID] of
       Some i \<Rightarrow>
         (Inr i, s\<lparr>asid_bitmap := (asid_bitmap s)
            (i div 32 := asid_bitmap s (i div 32) OR push_bit (i mod 32) 1)\<rparr>)
     | None \<Rightarrow> (Inl (- E_NO_FREE_ENV), s))"

definition asid_free :: "u32 \<Rightarrow> kstate \<Rightarrow> kstate" where
  "asid_free i s =
    (let index = unat (drop_bit 5 i); inner = unat (i AND 31)
     in s\<lparr>asid_bitmap := (asid_bitmap s)
          (index := asid_bitmap s index AND NOT (push_bit inner 1))\<rparr>)"

section \<open>Mapping a segment, environment ids\<close>

definition map_segment :: "nat \<Rightarrow> u32 \<Rightarrow> u32 \<Rightarrow> u32 \<Rightarrow> u32 \<Rightarrow> u32 \<Rightarrow> pmap \<Rightarrow> pmap option" where
  "map_segment pgdir asid pa va sz perm s =
    (if pa mod PAGE_SIZE \<noteq> 0 \<or> va mod PAGE_SIZE \<noteq> 0 \<or> sz mod PAGE_SIZE \<noteq> 0 then None
     else foldM (\<lambda>k s. do {
            let i = of_nat k * PAGE_SIZE;
            pp \<leftarrow> pa2page s (pa + i);
            (r, s) \<leftarrow> page_insert pgdir asid pp (va + i) perm s;
            Some s
          }) [0..<unat sz div 4096] s)"

definition mkenvid :: "nat \<Rightarrow> kstate \<Rightarrow> u32 \<times> kstate" where
  "mkenvid e s =
    (let s = s\<lparr>mkenvid_i := mkenvid_i s + 1\<rparr>
     in (push_bit (1 + LOG2NENV) (mkenvid_i s) OR of_nat e, s))"

text \<open>\<open>Inr None\<close> is success with the null pointer, when \<^verbatim>\<open>curenv\<close> is null; reading through a
  null \<^verbatim>\<open>curenv\<close> is a kernel fault.\<close>

definition envid2env :: "u32 \<Rightarrow> bool \<Rightarrow> kstate \<Rightarrow> nat option res option" where
  "envid2env envid checkperm s =
    (if envid = 0 then Some (Inr (curenv s))
     else let e = ENVX envid; env = envs s e in
       if env_status env = ENV_FREE \<or> env_id env \<noteq> envid then Some (Inl (- E_BAD_ENV))
       else if checkperm then do {
         c \<leftarrow> curenv s;
         if env_id env \<noteq> env_id (envs s c) \<and> env_parent_id env \<noteq> env_id (envs s c)
         then Some (Inl (- E_BAD_ENV)) else Some (Inr (Some e))
       } else Some (Inr (Some e)))"

section \<open>Creation\<close>

definition sizeof_Page :: u32 where "sizeof_Page = 12"
definition sizeof_Env :: u32 where "sizeof_Env = 220"

definition env_init_step :: "nat \<Rightarrow> kstate \<Rightarrow> kstate" where
  "env_init_step i s = (upd_env i (\<lambda>e. e\<lparr>env_status := ENV_FREE\<rparr>) s)
     \<lparr>env_free_list := LIST_INSERT_HEAD i (env_free_list s)\<rparr>"

text \<open>\<open>envs_sym\<close> is the address the linker gives the array \<^verbatim>\<open>envs\<close>.\<close>

definition env_init :: "u32 \<Rightarrow> kstate \<Rightarrow> kstate option" where
  "env_init envs_sym s =
    (let s = s\<lparr>env_free_list := LIST_INIT (env_free_list s),
               env_sched_list := TAILQ_INIT (env_sched_list s)\<rparr>;
         s = fold env_init_step (rev [0..<NENV]) s
     in do {
       (r, s) \<leftarrow> with_pm page_alloc s;
       case r of
         Inl e \<Rightarrow> None
       | Inr p \<Rightarrow> do {
           let m = (pm s)\<lparr>pp_ref := (pp_ref (pm s))(p := pp_ref (pm s) p + 1)\<rparr>;
           d \<leftarrow> page2kva m p;
           let s = s\<lparr>pm := m, base_pgdir := d\<rparr>;
           pa_pages \<leftarrow> PADDR (pages m);
           m \<leftarrow> map_segment d 0 pa_pages UPAGES
                  (ROUND (of_nat (npage m) * sizeof_Page) PAGE_SIZE) PTE_G m;
           pa_envs \<leftarrow> PADDR envs_sym;
           m \<leftarrow> map_segment d 0 pa_envs UENVS
                  (ROUND (of_nat NENV * sizeof_Env) PAGE_SIZE) PTE_G m;
           Some (s\<lparr>pm := m\<rparr>)
         }
     })"

text \<open>The \<^verbatim>\<open>memcpy\<close> copies the directory entries of \<open>[UTOP, UVPT)\<close>.\<close>

definition env_setup_vm :: "nat \<Rightarrow> kstate \<Rightarrow> (int \<times> kstate) option" where
  "env_setup_vm e s = do {
     (r, s) \<leftarrow> with_pm page_alloc s;
     case r of
       Inl err \<Rightarrow> Some (err, s)
     | Inr p \<Rightarrow> do {
         let m = (pm s)\<lparr>pp_ref := (pp_ref (pm s))(p := pp_ref (pm s) p + 1)\<rparr>;
         d \<leftarrow> page2kva m p;
         let s = upd_env e (\<lambda>x. x\<lparr>env_pgdir := d\<rparr>) s;
         let m = m\<lparr>frame := (frame m)(d := (\<lambda>i. if PDX UTOP \<le> i \<and> i < PDX UVPT
                                 then frame m (base_pgdir s) i else frame m d i))\<rparr>;
         let m = store_pte (d, PDX UVPT) (page2pa d OR PTE_V) m;
         Some (0, s\<lparr>pm := m\<rparr>)
       }
   }"

abbreviation "STATUS_INIT \<equiv> (0x8000 OR 0x1 OR 0x2 OR 0x10 :: u32)"

definition env_alloc :: "u32 \<Rightarrow> kstate \<Rightarrow> (nat res \<times> kstate) option" where
  "env_alloc parent_id s =
    (if LIST_EMPTY (env_free_list s) then Some (Inl (- E_NO_FREE_ENV), s)
     else do {
       e \<leftarrow> LIST_FIRST (env_free_list s);
       (r, s) \<leftarrow> env_setup_vm e s;
       if r < 0 then Some (Inl r, s)
       else do {
         let s = upd_env e (\<lambda>x. x\<lparr>env_user_tlb_mod_entry := 0, env_runs := 0\<rparr>) s;
         let (envid, s) = mkenvid e s;
         let s = upd_env e (\<lambda>x. x\<lparr>env_id := envid\<rparr>) s;
         let (ra, s) = asid_alloc s;
         case ra of
           Inl err \<Rightarrow> Some (Inl err, s)
         | Inr a \<Rightarrow> do {
             let s = upd_env e (\<lambda>x. x\<lparr>env_asid := of_nat a, env_parent_id := parent_id,
                 env_tf := (env_tf x)\<lparr>cp0_status := STATUS_INIT,
                   regs := (regs (env_tf x))(29 := USTACKTOP - 4 - 4)\<rparr>\<rparr>) s;
             l \<leftarrow> LIST_REMOVE e (env_free_list s);
             Some (Inr e, s\<lparr>env_free_list := l\<rparr>)
           }
       }
     })"

section \<open>Loading a program\<close>

text \<open>Bytes of physical memory, little endian.\<close>

definition put_byte :: "u8 \<Rightarrow> nat \<Rightarrow> u32 \<Rightarrow> u32" where
  "put_byte b j w = (w AND NOT (push_bit (8 * j) 0xFF)) OR push_bit (8 * j) (ucast b)"

definition get_byte :: "nat \<Rightarrow> u32 \<Rightarrow> u8" where
  "get_byte j w = ucast (drop_bit (8 * j) w)"

definition phys_read8 :: "nat \<Rightarrow> pmap \<Rightarrow> u8" where
  "phys_read8 a m = get_byte (a mod 4) (frame m (a div 4096) (a mod 4096 div 4))"

definition phys_write8 :: "nat \<Rightarrow> u8 \<Rightarrow> pmap \<Rightarrow> pmap" where
  "phys_write8 a b m =
    (let p = a div 4096; i = a mod 4096 div 4
     in store_pte (p, i) (put_byte b (a mod 4) (frame m p i)) m)"

definition load_icode_mapper :: "nat \<Rightarrow> image \<Rightarrow> kstate mapper" where
  "load_icode_mapper e binary va offset perm src len s = do {
     (r, s) \<leftarrow> with_pm page_alloc s;
     case r of
       Inl err \<Rightarrow> Some (err, s)
     | Inr p \<Rightarrow> do {
         s \<leftarrow> (case src of
             None \<Rightarrow> Some s
           | Some q \<Rightarrow> do {
               kva \<leftarrow> page2kva (pm s) p;
               do_pm (foldM (\<lambda>i m. do {
                 b \<leftarrow> img_u8 binary (unat q + i);
                 Some (phys_write8 (kva * 4096 + unat offset + i) b m)
               }) [0..<unat len]) s
             });
         with_pm (page_insert (env_pgdir (envs s e)) (env_asid (envs s e)) p va perm) s
       }
   }"

text \<open>The loop over the program headers, at offset \<open>e_phoff\<close> and then every \<open>e_phentsize\<close>.\<close>

definition load_icode :: "nat \<Rightarrow> image \<Rightarrow> nat \<Rightarrow> kstate \<Rightarrow> kstate option" where
  "load_icode e binary sz s = do {
     r \<leftarrow> elf_from binary sz;
     case r of
       None \<Rightarrow> None
     | Some ehdr \<Rightarrow> do {
         s \<leftarrow> foldM (\<lambda>k s. do {
           ph \<leftarrow> elf_phdr binary (unat (e_phoff ehdr + of_nat k * ucast (e_phentsize ehdr)));
           if p_type ph = PT_LOAD then do {
             (r, s) \<leftarrow> elf_load_seg ph (p_offset ph) (load_icode_mapper e binary) s;
             if r \<noteq> 0 then None else Some s
           } else Some s
         }) [0..<unat (e_phnum ehdr)] s;
         Some (upd_env e (\<lambda>x. x\<lparr>env_tf := (env_tf x)\<lparr>cp0_epc := e_entry ehdr\<rparr>\<rparr>) s)
       }
   }"

text \<open>\<open>Inl\<close> is the null pointer.\<close>

definition env_create :: "image \<Rightarrow> nat \<Rightarrow> u32 \<Rightarrow> kstate \<Rightarrow> (nat option \<times> kstate) option" where
  "env_create binary sz priority s = do {
     (r, s) \<leftarrow> env_alloc 0 s;
     case r of
       Inl _ \<Rightarrow> Some (None, s)
     | Inr e \<Rightarrow> do {
         let s = upd_env e (\<lambda>x. x\<lparr>env_pri := priority, env_status := ENV_RUNNABLE\<rparr>) s;
         s \<leftarrow> load_icode e binary sz s;
         Some (Some e, s\<lparr>env_sched_list := TAILQ_INSERT_HEAD e (env_sched_list s)\<rparr>)
       }
   }"

section \<open>Destruction\<close>

definition env_free_pte :: "nat \<Rightarrow> u32 \<Rightarrow> nat \<Rightarrow> nat \<Rightarrow> nat \<Rightarrow> pmap \<Rightarrow> pmap option" where
  "env_free_pte pgdir asid pt pdeno pteno m =
    (if pte_valid (frame m pt pteno)
     then page_remove pgdir asid (push_bit 22 (of_nat pdeno) OR push_bit 12 (of_nat pteno)) m
     else Some m)"

definition env_free_pde :: "nat \<Rightarrow> u32 \<Rightarrow> nat \<Rightarrow> pmap \<Rightarrow> pmap option" where
  "env_free_pde pgdir asid pdeno m =
    (if \<not> pte_valid (frame m pgdir pdeno) then Some m
     else do {
       let pa = PTE_ADDR (frame m pgdir pdeno);
       pt \<leftarrow> KADDR m pa;
       m \<leftarrow> foldM (env_free_pte pgdir asid pt pdeno) [0..<PTX (NOT 0) + 1] m;
       let m = store_pte (pgdir, pdeno) 0 m;
       pp \<leftarrow> pa2page m pa;
       m \<leftarrow> page_decref pp m;
       Some (tlb_invalidate asid (UVPT + push_bit 12 (of_nat pdeno)) m)
     })"

definition env_free :: "nat \<Rightarrow> kstate \<Rightarrow> kstate option" where
  "env_free e s =
    (let pgdir = env_pgdir (envs s e); asid = env_asid (envs s e) in do {
       s \<leftarrow> do_pm (foldM (env_free_pde pgdir asid) [0..<PDX UTOP]) s;
       s \<leftarrow> do_pm (\<lambda>m. do { pp \<leftarrow> pa2page m (page2pa pgdir); page_decref pp m }) s;
       let s = asid_free asid s;
       let s = s\<lparr>pm := tlb_invalidate asid (UVPT + push_bit 12 (of_nat (PDX UVPT))) (pm s)\<rparr>;
       let s = upd_env e (\<lambda>x. x\<lparr>env_status := ENV_FREE\<rparr>) s;
       let s = s\<lparr>env_free_list := LIST_INSERT_HEAD e (env_free_list s)\<rparr>;
       q \<leftarrow> TAILQ_REMOVE e (env_sched_list s);
       Some (s\<lparr>env_sched_list := q\<rparr>)
     })"

section \<open>Running and scheduling\<close>

text \<open>\<^verbatim>\<open>env_pop_tf\<close> (\<^verbatim>\<open>kern/env_asm.S\<close>) loads the ASID and returns to the context.\<close>

definition env_pop_tf :: "trapframe \<Rightarrow> u32 \<Rightarrow> kstate \<Rightarrow> kstate" where
  "env_pop_tf tf asid s = s\<lparr>cpu := tf, entryhi_asid := asid\<rparr>"

definition env_run :: "nat \<Rightarrow> kstate \<Rightarrow> kstate option" where
  "env_run e s =
    (if env_status (envs s e) \<noteq> ENV_RUNNABLE then None
     else
       let s = (case curenv s of
             Some c \<Rightarrow> upd_env c (\<lambda>x. x\<lparr>env_tf := kstack_tf s\<rparr>) s
           | None \<Rightarrow> s);
           s = s\<lparr>curenv := Some e\<rparr>;
           s = upd_env e (\<lambda>x. x\<lparr>env_runs := env_runs x + 1\<rparr>) s;
           s = s\<lparr>cur_pgdir := env_pgdir (envs s e)\<rparr>
       in Some (env_pop_tf (env_tf (envs s e)) (env_asid (envs s e)) s))"

definition schedule :: "bool \<Rightarrow> kstate \<Rightarrow> kstate option" where
  "schedule yield s =
    (let pick = (yield \<or> count s \<le>s 0 \<or>
           (case curenv s of None \<Rightarrow> True | Some e \<Rightarrow> env_status (envs s e) \<noteq> ENV_RUNNABLE))
     in do {
       (e, s) \<leftarrow>
         (if pick then do {
            q \<leftarrow> (case curenv s of
                None \<Rightarrow> Some (env_sched_list s)
              | Some e \<Rightarrow> do {
                  q \<leftarrow> TAILQ_REMOVE e (env_sched_list s);
                  if env_status (envs s e) = ENV_RUNNABLE then TAILQ_INSERT_TAIL e q else Some q
                });
            if TAILQ_EMPTY q then None
            else do {
              e \<leftarrow> TAILQ_FIRST q;
              Some (e, s\<lparr>env_sched_list := q, count := env_pri (envs s e)\<rparr>)
            }
          } else do { e \<leftarrow> curenv s; Some (e, s) });
       env_run e (s\<lparr>count := count s - 1\<rparr>)
     })"

definition env_destroy :: "nat \<Rightarrow> kstate \<Rightarrow> unit kres" where
  "env_destroy e s = do {
     s \<leftarrow> env_free e s;
     if curenv s = Some e then do {
       s \<leftarrow> schedule True (s\<lparr>curenv := None\<rparr>);
       Some (Switch, s)
     } else Some (Ret (), s)
   }"

end
