(* ===== verification/MOS_EnvMem.thy ===== *)
theory MOS_EnvMem
  imports MOS_Env
begin

text \<open>
  The memory of an environment through its life: \<open>env_setup_vm\<close> makes a free page the
  directory of an empty address space, and the loops of \<open>env_free\<close> give every page, every
  table and the directory back, and nothing else. Both keep the invariant of the memory manager.
\<close>

section \<open>Taking a page as a directory\<close>

text \<open>The kernel takes a reference of its own to an unreferenced page.\<close>

lemma pm_inv_hold:
  assumes inv: "pm_inv s R H xs" and p: "p < npage s" "pp_ref s p = 0" "p \<notin> set xs"
  shows "pm_inv (s\<lparr>pp_ref := (pp_ref s)(p := 1)\<rparr>) R (H(p := 1)) xs"
proof -
  let ?s = "s\<lparr>pp_ref := (pp_ref s)(p := 1)\<rparr>"
  have tgt: "target ?s R = target s R"
    by (intro target_cong) simp_all
  then have rf: "refs ?s R = refs s R"
    by (simp add: refs_def fun_eq_iff)
  note ns = no_site [OF inv p(1,2)]
  have "card (refs s R p) = 0"
    using ns(1) by (simp add: refs_def)
  then have "\<forall>q<npage s. unat (pp_ref ?s q) = (H(p := 1)) q + card (refs ?s R q)"
    using pm_invD(6) [OF inv] by (simp add: rf)
  moreover have "p \<notin> R" using ns(1) [of "Root p"] by auto
  ultimately show ?thesis
    using inv p(3) ns(1) unfolding pm_inv_def tgt by (auto simp del: target.simps)
qed

lemma page2kva_ok: "p < npage s \<Longrightarrow> npage s \<le> 2 ^ 20 \<Longrightarrow> page2kva s p = Some p"
  by (simp add: page2kva_def KADDR_def)

lemma env_setup_vm_nomem:
  "pm_inv (pm s) R H [] \<Longrightarrow> env_setup_vm e s = Some (- E_NO_MEM, s)"
  by (simp add: env_setup_vm_def with_pm_def page_alloc_empty)

lemma PDX_UVPT: "PDX UVPT = 511"
  by (simp add: PDX_def)

lemma env_setup_vm_ok:
  assumes inv: "pm_inv (pm s) R H (p # xs)"
  obtains s' where "env_setup_vm e s = Some (0, s')"
    "s' = upd_env e (\<lambda>x. x\<lparr>env_pgdir := p\<rparr>) (s\<lparr>pm := pm s'\<rparr>)"
    "pm_inv (pm s') (insert p R) H xs" "pm_inv (pm s') R (H(p := 1)) xs" "p \<notin> R" "p < npage (pm s)"
    "aspace (pm s') p = Map.empty" "\<And>d. d \<in> R \<Longrightarrow> aspace (pm s') d = aspace (pm s) d"
    "npage (pm s') = npage (pm s)"
proof -
  obtain m where m: "page_alloc (pm s) = Some (Inr p, m)" "pm_inv m R H xs"
    "target m R = target (pm s) R" "pp_ref m = pp_ref (pm s)" "npage m = npage (pm s)"
    "frame m = (frame (pm s))(p := (\<lambda>_. 0))" "\<And>d. d \<in> R \<Longrightarrow> aspace m d = aspace (pm s) d"
    using page_alloc_Cons [OF inv] by metis
  have p: "p < npage m" "pp_ref m p = 0" "p \<notin> set xs" "npage m \<le> 2 ^ 20"
    using pm_invD(4) [OF inv, of p] m pm_inv_distinct [OF inv] pm_invD(1) [OF m(2)] by auto
  let ?m1 = "m\<lparr>pp_ref := (pp_ref m)(p := 1)\<rparr>"
  have inv1: "pm_inv ?m1 R (H(p := 1)) xs"
    by (rule pm_inv_hold [OF m(2) p(1-3)])
  have H: "H p = 0" and ns: "target m R x \<noteq> Some p" for x
    using no_site [OF m(2) p(1,2)] by auto
  have pR: "p \<notin> R" using ns [of "Root p"] by auto
  let ?f = "\<lambda>i. if PDX UTOP \<le> i \<and> i < PDX UVPT then frame m (base_pgdir s) i else frame m p i"
  define m2 where "m2 = store_pte (p, PDX UVPT) (page2pa p OR PTE_V) (?m1\<lparr>frame := (frame m)(p := ?f)\<rparr>)"
  have fr: "frame m2 = (frame ?m1)(p := ?f(PDX UVPT := page2pa p OR PTE_V))"
    by (simp add: m2_def)
  have tgt1: "target ?m1 R = target m R" and asp1: "aspace ?m1 d = aspace m d" for d
    by (intro target_cong aspace_cong; simp)+
  have ns1: "target ?m1 R x \<noteq> Some p" for x
    using ns tgt1 by simp
  note clear = target_clear [where s' = m2, OF ns1 fr]
  have inv2: "pm_inv m2 R (H(p := 1)) xs"
    using pm_invD(3) [OF inv1] clear(1) by (intro pm_inv_same [OF inv1]) (simp_all add: m2_def)
  have cl: "\<not> pte_valid (frame m2 p i)" if "i < UPDX" for i
    using that m(6) by (simp add: fr PDX_UTOP PDX_UVPT)
  have inv3: "pm_inv m2 (insert p R) H xs"
    using pm_inv_add_root [OF inv2 _ pR _ _ cl] p(1) H by (simp add: m2_def fun_upd_idem)
  have kva: "page2kva ?m1 p = Some p"
    using p by (intro page2kva_ok) simp_all
  show thesis
  proof (rule that)
    show "env_setup_vm e s = Some (0, upd_env e (\<lambda>x. x\<lparr>env_pgdir := p\<rparr>) s\<lparr>pm := m2\<rparr>)"
      using m(1) p(2) kva by (simp add: env_setup_vm_def with_pm_def m2_def upd_env_def Let_def cong: if_cong)
    show "upd_env e (\<lambda>x. x\<lparr>env_pgdir := p\<rparr>) s\<lparr>pm := m2\<rparr> =
        upd_env e (\<lambda>x. x\<lparr>env_pgdir := p\<rparr>)
          (s\<lparr>pm := pm (upd_env e (\<lambda>x. x\<lparr>env_pgdir := p\<rparr>) s\<lparr>pm := m2\<rparr>)\<rparr>)"
      by (simp add: upd_env_def)
    show "aspace (pm (upd_env e (\<lambda>x. x\<lparr>env_pgdir := p\<rparr>) s\<lparr>pm := m2\<rparr>)) p = Map.empty"
      using cl by (simp add: aspace_clear)
    show "aspace (pm (upd_env e (\<lambda>x. x\<lparr>env_pgdir := p\<rparr>) s\<lparr>pm := m2\<rparr>)) d = aspace (pm s) d" if "d \<in> R" for d
      using clear(2) [OF that] m(7) [OF that] asp1 by simp
  qed (use inv3 inv2 pR p(1) m(5) in \<open>simp_all add: m2_def\<close>)
qed

section \<open>Giving a page table back\<close>

lemma small_index: "bit k n \<Longrightarrow> k < 1024 \<Longrightarrow> n < 10" for k n :: nat
proof (rule ccontr)
  assume "bit k n" "k < 1024" "\<not> n < 10"
  then have "(2::nat) ^ 10 \<le> 2 ^ n" by (intro power_increasing) simp_all
  with \<open>k < 1024\<close> have "k < 2 ^ n" by simp
  then have "take_bit n k = k" by (simp add: take_bit_nat_eq_self)
  with \<open>bit k n\<close> show False by (metis bit_take_bit_iff less_irrefl)
qed

lemma user_va:
  assumes "i < UPDX" "j < 1024"
  shows "PDX (push_bit 22 (of_nat i) OR push_bit 12 (of_nat j)) = i"
    "PTX (push_bit 22 (of_nat i) OR push_bit 12 (of_nat j)) = j"
proof -
  have m: "(0x3FF :: u32) = mask 10"
    by (simp add: mask_eq_exp_minus_1)
  have of: "unat (of_nat i :: u32) = i" "unat (of_nat j :: u32) = j"
    using assms by (simp_all add: unat_of_nat take_bit_eq_mod)
  have ib: "n < 10" if "bit i n" for n
    using that assms(1) small_index [of i n] by simp
  have jb: "n < 10" if "bit j n" for n
    using that assms(2) small_index [of j n] by simp
  have "drop_bit 22 (push_bit 22 (of_nat i) OR push_bit 12 (of_nat j)) AND mask 10 = (of_nat i :: u32)"
    by (rule bit_word_eqI) (auto simp: bit_simps dest: ib jb)
  then show "PDX (push_bit 22 (of_nat i) OR push_bit 12 (of_nat j)) = i"
    unfolding PDX_def m using of by simp
  have "drop_bit 12 (push_bit 22 (of_nat i) OR push_bit 12 (of_nat j)) AND mask 10 = (of_nat j :: u32)"
    by (rule bit_word_eqI) (auto simp: bit_simps dest: ib jb)
  then show "PTX (push_bit 22 (of_nat i) OR push_bit 12 (of_nat j)) = j"
    unfolding PTX_def m using of by simp
qed

text \<open>What giving pages of the address space \<open>d\<close> back may do: reference counts fall, the pages
  whose count falls to zero, and no others, come onto the free list, only the directory and the
  tables of \<open>d\<close> are written, and the tables of the other address spaces stay in place.\<close>

definition released :: "nat set \<Rightarrow> nat \<Rightarrow> pmap \<Rightarrow> nat list \<Rightarrow> pmap \<Rightarrow> nat list \<Rightarrow> bool" where
  "released R d m xs m' ys \<longleftrightarrow>
     (\<forall>p. pp_ref m' p \<le> pp_ref m p) \<and>
     set ys = set xs \<union> {p. pp_ref m p \<noteq> 0 \<and> pp_ref m' p = 0} \<and>
     (\<forall>p. frame m' p \<noteq> frame m p \<longrightarrow> p = d \<or> (\<exists>i. target m R (PdeAt d i) = Some p)) \<and>
     (\<forall>d' i. d' \<noteq> d \<longrightarrow> target m' R (PdeAt d' i) = target m R (PdeAt d' i)) \<and>
     (\<forall>i. target m' R (PdeAt d i) \<in> {None, target m R (PdeAt d i)})"

lemma releasedD:
  assumes "released R d m xs m' ys"
  shows "pp_ref m' p \<le> pp_ref m p"
    and "set ys = set xs \<union> {p. pp_ref m p \<noteq> 0 \<and> pp_ref m' p = 0}"
    and "frame m' p \<noteq> frame m p \<Longrightarrow> p = d \<or> (\<exists>i. target m R (PdeAt d i) = Some p)"
    and "d' \<noteq> d \<Longrightarrow> target m' R (PdeAt d' i) = target m R (PdeAt d' i)"
    and "target m' R (PdeAt d i) \<in> {None, target m R (PdeAt d i)}"
  using assms unfolding released_def by blast+

lemma released_refl [simp]: "released R d m xs m xs"
  by (simp add: released_def)

lemma released_trans:
  assumes 1: "released R d m xs m1 ys" and 2: "released R d m1 ys m2 zs"
  shows "released R d m xs m2 zs"
  unfolding released_def
proof (intro conjI allI impI)
  show "pp_ref m2 p \<le> pp_ref m p" for p
    using releasedD(1) [OF 1, of p] releasedD(1) [OF 2, of p] by simp
  have mono: "pp_ref m1 p = 0 \<Longrightarrow> pp_ref m2 p = 0" "pp_ref m p = 0 \<Longrightarrow> pp_ref m1 p = 0" for p
    using releasedD(1) [OF 1, of p] releasedD(1) [OF 2, of p] by auto
  show "set zs = set xs \<union> {p. pp_ref m p \<noteq> 0 \<and> pp_ref m2 p = 0}"
    unfolding releasedD(2) [OF 1] releasedD(2) [OF 2] using mono by auto
  show "target m2 R (PdeAt d' i) = target m R (PdeAt d' i)" if "d' \<noteq> d" for d' i
    using releasedD(4) [OF 1 that] releasedD(4) [OF 2 that] by metis
  show "target m2 R (PdeAt d i) \<in> {None, target m R (PdeAt d i)}" for i
    using releasedD(5) [OF 1, of i] releasedD(5) [OF 2, of i] by (auto simp del: target.simps)
  show "p = d \<or> (\<exists>i. target m R (PdeAt d i) = Some p)" if "frame m2 p \<noteq> frame m p" for p
  proof (cases "frame m1 p = frame m p")
    case True
    with that obtain "p = d \<or> (\<exists>i. target m1 R (PdeAt d i) = Some p)"
      using releasedD(3) [OF 2, of p] by metis
    then show ?thesis using releasedD(5) [OF 1] by (metis insertE option.distinct(1) singletonD)
  next
    case False
    then show ?thesis using releasedD(3) [OF 1] by metis
  qed
qed

text \<open>One reference to a page is dropped, and the page is freed when it was the last one.\<close>

lemma released_one:
  assumes "pp_ref m' = (pp_ref m)(p := pp_ref m p - 1)" "pp_ref m p \<noteq> 0"
    and "ys = (if pp_ref m p = 1 then p # xs else xs)"
    and "\<And>q. frame m' q \<noteq> frame m q \<Longrightarrow> q = d \<or> (\<exists>i. target m R (PdeAt d i) = Some q)"
    and "\<And>d' i. d' \<noteq> d \<Longrightarrow> target m' R (PdeAt d' i) = target m R (PdeAt d' i)"
    and "\<And>i. target m' R (PdeAt d i) \<in> {None, target m R (PdeAt d i)}"
  shows "released R d m xs m' ys"
proof -
  have pred: "pp_ref m p - 1 \<le> pp_ref m p"
    using assms(2) by (simp add: word_le_nat_alt unat_minus_one)
  have one: "pp_ref m p - 1 = 0 \<longleftrightarrow> pp_ref m p = 1" by simp
  have le: "pp_ref m' q \<le> pp_ref m q" for q
    unfolding assms(1) fun_upd_apply using pred by simp
  have fl: "set ys = set xs \<union> {q. pp_ref m q \<noteq> 0 \<and> pp_ref m' q = 0}"
    unfolding assms(1,3) fun_upd_apply using assms(2) one by auto
  show ?thesis unfolding released_def using le fl assms(4-6) by blast
qed

lemma env_free_pte_ok:
  assumes inv: "pm_inv m R H xs" and d: "d \<in> R" and i: "i < UPDX" "j < 1024"
    and t: "target m R (PdeAt d i) = Some t"
  obtains m' ys where "env_free_pte d asid t i j m = Some m'" "pm_inv m' R H ys"
    "aspace m' d = (aspace m d)((i, j) := None)"
    "\<And>d'. d' \<in> R \<Longrightarrow> d' \<noteq> d \<Longrightarrow> aspace m' d' = aspace m d'"
    "\<And>d' i. target m' R (PdeAt d' i) = target m R (PdeAt d' i)" "npage m' = npage m"
    "released R d m xs m' ys"
proof (cases "pte_valid (frame m t j)")
  case False
  have "aspace m d (i, j) = None"
    using False t i d by (auto simp: aspace_def split: if_splits)
  with False inv show thesis
    by (intro that [of m]) (auto simp: env_free_pte_def fun_upd_idem)
next
  case True
  let ?va = "push_bit 22 (of_nat i) OR push_bit 12 (of_nat j) :: u32"
  have va: "PDX ?va = i" "PTX ?va = j"
    using user_va [OF i] by simp_all
  have "aspace m d (i, j) = Some (frame m t j)"
    using True t i d by (auto simp: aspace_def split: if_splits)
  then have e: "aspace m d (PDX ?va, PTX ?va) = Some (frame m t j)"
    by (simp add: va)
  have "PDX ?va < UPDX" using i va by simp
  then obtain m' where m': "page_remove d asid ?va m = Some m'"
    "pm_inv m' R H (if pp_ref m (PPN (frame m t j)) = 1 then PPN (frame m t j) # xs else xs)"
    "aspace m' d = (aspace m d)((PDX ?va, PTX ?va) := None)"
    "\<And>d'. d' \<in> R \<Longrightarrow> d' \<noteq> d \<Longrightarrow> aspace m' d' = aspace m d'"
    "npage m' = npage m" "\<And>d' i. target m' R (PdeAt d' i) = target m R (PdeAt d' i)"
    "pp_ref m' = (pp_ref m)(PPN (frame m t j) := pp_ref m (PPN (frame m t j)) - 1)"
    "\<And>q. q \<noteq> PPN (frame m d (PDX ?va)) \<Longrightarrow> frame m' q = frame m q"
    by (rule page_remove_mapped [OF inv d _ e, where asid = asid]) blast+
  have tgt: "target m R (PteAt d i j) = Some (PPN (frame m t j))"
    using aspace_Some_target(1) [OF d e] by (simp add: va)
  have "pp_ref m (PPN (frame m t j)) \<noteq> 0"
    using no_site(1) [OF inv pm_invD(5) [OF inv tgt]] tgt by blast
  then have rel: "released R d m xs m' (if pp_ref m (PPN (frame m t j)) = 1 then PPN (frame m t j) # xs else xs)"
  proof (rule released_one [OF m'(7) _ refl])
    show "q = d \<or> (\<exists>i. target m R (PdeAt d i) = Some q)" if "frame m' q \<noteq> frame m q" for q
    proof -
      have "q = PPN (frame m d i)" using m'(8) that unfolding va by blast
      then have "target m R (PdeAt d i) = Some q" using t by (auto split: if_splits)
      then show ?thesis by blast
    qed
  qed (simp_all add: m'(6) del: target.simps)
  show thesis
    by (rule that [OF _ m'(2) _ m'(4) m'(6) m'(5) rel]) (use True m'(1,3) in \<open>simp_all add: env_free_pte_def va\<close>)
qed

lemma env_free_ptes_ok:
  assumes inv: "pm_inv m R H xs" and d: "d \<in> R" and i: "i < UPDX" and n: "n \<le> 1024"
    and t: "target m R (PdeAt d i) = Some t"
  shows "\<exists>m'. foldM (env_free_pte d asid t i) [0..<n] m = Some m' \<and>
    (\<exists>ys. pm_inv m' R H ys \<and> released R d m xs m' ys) \<and>
    aspace m' d = (\<lambda>(i', j'). if i' = i \<and> j' < n then None else aspace m d (i', j')) \<and>
    (\<forall>d'\<in>R - {d}. aspace m' d' = aspace m d') \<and>
    (\<forall>d' i. target m' R (PdeAt d' i) = target m R (PdeAt d' i)) \<and> npage m' = npage m"
  using n
proof (induction n)
  case 0
  then show ?case using inv by auto
next
  case (Suc n)
  then obtain m' ys where m': "foldM (env_free_pte d asid t i) [0..<n] m = Some m'" "pm_inv m' R H ys"
    "aspace m' d = (\<lambda>(i', j'). if i' = i \<and> j' < n then None else aspace m d (i', j'))"
    "\<forall>d'\<in>R - {d}. aspace m' d' = aspace m d'"
    "\<forall>d' i. target m' R (PdeAt d' i) = target m R (PdeAt d' i)" "npage m' = npage m"
    "released R d m xs m' ys"
    by auto
  have t': "target m' R (PdeAt d i) = Some t" using m'(5) t by (simp del: target.simps)
  have n: "n < 1024" using Suc.prems by simp
  obtain m'' zs where m'': "env_free_pte d asid t i n m' = Some m''" "pm_inv m'' R H zs"
    "aspace m'' d = (aspace m' d)((i, n) := None)"
    "\<And>d'. d' \<in> R \<Longrightarrow> d' \<noteq> d \<Longrightarrow> aspace m'' d' = aspace m' d'"
    "\<And>d' i. target m'' R (PdeAt d' i) = target m' R (PdeAt d' i)" "npage m'' = npage m'"
    "released R d m' ys m'' zs"
    by (rule env_free_pte_ok [OF m'(2) d i n t', where asid = asid]) blast
  have "aspace m'' d = (\<lambda>(i', j'). if i' = i \<and> j' < Suc n then None else aspace m d (i', j'))"
    unfolding m''(3) m'(3) by (auto simp: fun_eq_iff)
  moreover have "\<exists>ys. pm_inv m'' R H ys \<and> released R d m xs m'' ys"
    using m''(2) released_trans [OF m'(7) m''(7)] by blast
  ultimately show ?case
    using m' m'' by (auto simp: foldM_append simp del: target.simps)
qed

lemma released_tlb [simp]: "released R d m xs (tlb_invalidate asid va m') ys = released R d m xs m' ys"
  by (simp add: released_def del: target.simps)

text \<open>An empty table: clearing its directory entry and dropping its reference frees it.\<close>

lemma page_decref_last:
  "pp_ref m p = 1 \<Longrightarrow> page_decref p m =
     Some (m\<lparr>pp_ref := (pp_ref m)(p := 0), page_free_list := LIST_INSERT_HEAD p (page_free_list m)\<rparr>)"
  by (simp add: page_decref_def page_free_def)

lemma clear_pde_ok:
  assumes inv: "pm_inv m R H xs" and t: "target m R (PdeAt d i) = Some t"
    and empty: "\<And>j. j < 1024 \<Longrightarrow> aspace m d (i, j) = None"
  obtains m' where "page_decref t (store_pte (d, i) 0 m) = Some m'" "pm_inv m' R H (t # xs)"
    "\<And>d'. d' \<in> R \<Longrightarrow> aspace m' d' = aspace m d'"
    "\<And>d' i'. target m' R (PdeAt d' i') = (if d' = d \<and> i' = i then None else target m R (PdeAt d' i'))"
    "npage m' = npage m" "released R d m xs m' (t # xs)"
proof -
  have di: "d \<in> R" "i < UPDX" "pte_valid (frame m d i)" "PPN (frame m d i) = t"
    using t by (auto split: if_splits)
  have t1: "pp_ref m t = 1" "t < npage m"
    using pm_invD(8) [OF inv t] pm_invD(5) [OF inv t] by auto
  have px: "t \<notin> set xs"
    using free_no_site [OF inv] t by blast
  have tR: "t \<notin> R" by (rule table_not_root [OF inv t])
  define m' where "m' = (store_pte (d, i) 0 m)\<lparr>pp_ref := (pp_ref m)(t := 0),
    page_free_list := LIST_INSERT_HEAD t (page_free_list m)\<rparr>"
  have fr: "frame m' = (frame m)(d := (frame m d)(i := 0))"
    by (simp add: m'_def)
  have tab: "PPN (frame m d' i') \<noteq> d" if "d' \<in> R" "i' < UPDX" "pte_valid (frame m d' i')" for d' i'
    using root_unique [OF inv di(1), of "PdeAt d' i'"] that by auto
  have none: "target m R (PteAt d i j) = None" for j
    using empty [of j] di by (cases "j < 1024") (auto simp: aspace_def split: if_splits)
  have tgt: "target m' R = (target m R)(PdeAt d i := None)"
  proof
    fix x show "target m' R x = ((target m R)(PdeAt d i := None)) x"
    proof (cases x)
      case (PteAt d' i' j')
      show ?thesis
      proof (cases "d' = d \<and> i' = i")
        case True
        with PteAt fr none [of j'] show ?thesis by simp
      next
        case False
        then have "frame m' d' i' = frame m d' i'" using fr by auto
        moreover have "frame m' (PPN (frame m d' i')) = frame m (PPN (frame m d' i'))"
          if "d' \<in> R" "i' < UPDX" "pte_valid (frame m d' i')"
          using tab [OF that] fr by simp
        ultimately show ?thesis using PteAt by auto
      qed
    qed (use fr in auto)
  qed
  have asp: "aspace m' d' = aspace m d'" if "d' \<in> R" for d'
  proof
    fix ij :: "nat \<times> nat"
    obtain i' j' where ij: "ij = (i', j')" by (cases ij)
    show "aspace m' d' ij = aspace m d' ij"
    proof (cases "d' = d \<and> i' = i")
      case True
      with ij fr empty [of j'] show ?thesis by (cases "j' < 1024") (auto simp: aspace_def)
    next
      case False
      then have "frame m' d' i' = frame m d' i'" using fr by auto
      moreover have "frame m' (PPN (frame m d' i')) = frame m (PPN (frame m d' i'))"
        if "i' < UPDX" "pte_valid (frame m d' i')"
        using tab [OF \<open>d' \<in> R\<close> that] fr by simp
      ultimately show ?thesis using ij by (auto simp: aspace_def)
    qed
  qed
  have pde: "target m' R (PdeAt d' i') = (if d' = d \<and> i' = i then None else target m R (PdeAt d' i'))" for d' i'
    unfolding tgt by (simp del: target.simps)
  have "pm_inv m' R H (t # xs)"
  proof (rule pm_inv_upd [OF inv tgt])
    show "is_LIST (page_free_list m') (t # xs)"
      using pm_invD(3) [OF inv] px by (simp add: m'_def LIST_INSERT_HEAD_seq)
    show "q < npage m \<and> pp_ref m' q = 0" if "q \<in> set (t # xs)" for q
      using that t1 pm_invD(4) [OF inv, of q] by (auto simp: m'_def)
    show "unat (pp_ref m' q) + (if target m R (PdeAt d i) = Some q then 1 else 0) =
        unat (pp_ref m q) + (if None = Some q then 1 else 0)" for q
      using t t1 by (auto simp: m'_def simp del: target.simps)
    show "pp_ref m' d' = 1" if "d' \<in> R" for d'
      using that tR pm_invD(7) [OF inv that] by (auto simp: m'_def)
    show "pp_ref m' q = 1" if "target m' R (PdeAt d' i') = Some q" for d' i' q
    proof -
      from that have q: "target m R (PdeAt d' i') = Some q" "\<not> (d' = d \<and> i' = i)"
        unfolding pde by (auto simp del: target.simps split: if_splits)
      then have "q \<noteq> t" using table_unique [OF inv t] by blast
      then show ?thesis using pm_invD(8) [OF inv q(1)] by (simp add: m'_def)
    qed
  qed (simp_all add: m'_def)
  moreover have "page_decref t (store_pte (d, i) 0 m) = Some m'"
    using page_decref_last [of "store_pte (d, i) 0 m" t] t1 by (simp add: m'_def)
  moreover have "released R d m xs m' (t # xs)"
    by (rule released_one [where p = t]) (use t1 fr pde in \<open>auto simp: m'_def simp del: target.simps\<close>)
  ultimately show thesis
    using asp pde by (intro that [of m']) (simp_all add: m'_def del: target.simps)
qed

lemma PTX_ones: "PTX (- 1) = 1023"
  by (simp add: PTX_def mask_eq_exp_minus_1)

lemma env_free_pde_ok:
  assumes inv: "pm_inv m R H xs" and d: "d \<in> R" and i: "i < UPDX"
  shows "\<exists>m'. env_free_pde d asid i m = Some m' \<and> (\<exists>ys. pm_inv m' R H ys \<and> released R d m xs m' ys) \<and>
    aspace m' d = (\<lambda>(i', j'). if i' = i then None else aspace m d (i', j')) \<and>
    (\<forall>d'\<in>R - {d}. aspace m' d' = aspace m d') \<and>
    (\<forall>i'<UPDX. pte_valid (frame m' d i') \<longleftrightarrow> i' \<noteq> i \<and> pte_valid (frame m d i')) \<and> npage m' = npage m"
proof (cases "pte_valid (frame m d i)")
  case False
  then have "aspace m d (i, j) = None" for j
    by (simp add: aspace_def)
  then have "aspace m d = (\<lambda>(i', j'). if i' = i then None else aspace m d (i', j'))"
    by (auto simp: fun_eq_iff)
  with False inv show ?thesis by (auto simp: env_free_pde_def)
next
  case True
  define t where "t = PPN (frame m d i)"
  have t: "target m R (PdeAt d i) = Some t"
    using True d i by (simp add: t_def)
  obtain m1 ys where m1: "foldM (env_free_pte d asid t i) [0..<1024] m = Some m1" "pm_inv m1 R H ys"
    "aspace m1 d = (\<lambda>(i', j'). if i' = i \<and> j' < 1024 then None else aspace m d (i', j'))"
    "\<forall>d'\<in>R - {d}. aspace m1 d' = aspace m d'"
    "\<And>d' i. target m1 R (PdeAt d' i) = target m R (PdeAt d' i)" "npage m1 = npage m"
    "released R d m xs m1 ys"
    using env_free_ptes_ok [OF inv d i _ t, of 1024 asid] by auto
  have t1: "target m1 R (PdeAt d i) = Some t" using m1(5) t by metis
  have e1: "aspace m1 d (i, j) = None" if "j < 1024" for j
    using m1(3) that by simp
  obtain m2 where m2: "page_decref t (store_pte (d, i) 0 m1) = Some m2" "pm_inv m2 R H (t # ys)"
    "\<And>d'. d' \<in> R \<Longrightarrow> aspace m2 d' = aspace m1 d'"
    "\<And>d' i'. target m2 R (PdeAt d' i') = (if d' = d \<and> i' = i then None else target m1 R (PdeAt d' i'))"
    "npage m2 = npage m1" "released R d m1 ys m2 (t # ys)"
    by (rule clear_pde_ok [OF m1(2) t1 e1]) blast+
  let ?m = "tlb_invalidate asid (UVPT + push_bit 12 (of_nat i)) m2"
  have tn: "t < npage m" using pm_invD(5) [OF inv t] .
  have "env_free_pde d asid i m = Some ?m"
    using True m1(1,6) m2(1) KADDR_table [OF inv t] tn
    by (simp add: env_free_pde_def PTX_ones pa2page_def t_def [symmetric] del: upt_Suc cong: if_cong)
  moreover have "aspace m d (i, j) = None" if "\<not> j < 1024" for j
    using that by (simp add: aspace_def)
  then have "aspace ?m d = (\<lambda>(i', j'). if i' = i then None else aspace m d (i', j'))"
    using m2(3) [OF d] m1(3) by (auto simp: fun_eq_iff)
  moreover have "pte_valid (frame ?m d i') \<longleftrightarrow> i' \<noteq> i \<and> pte_valid (frame m d i')" if "i' < UPDX" for i'
    using m2(4) [of d i'] m1(5) [of d i'] that d by (auto split: if_splits)
  moreover have "pm_inv ?m R H (t # ys) \<and> released R d m xs ?m (t # ys)"
    using m2(2) released_tlb released_trans [OF m1(7) m2(6)] by simp
  ultimately show ?thesis
    using m1(4,6) m2(3,5) by auto
qed

section \<open>Giving an address space back\<close>

lemma env_free_pdes_ok:
  assumes inv: "pm_inv m R H xs" and d: "d \<in> R" and n: "n \<le> UPDX"
  shows "\<exists>m'. foldM (env_free_pde d asid) [0..<n] m = Some m' \<and> (\<exists>ys. pm_inv m' R H ys \<and> released R d m xs m' ys) \<and>
    (\<forall>d'\<in>R - {d}. aspace m' d' = aspace m d') \<and>
    (\<forall>i<UPDX. pte_valid (frame m' d i) \<longleftrightarrow> n \<le> i \<and> pte_valid (frame m d i)) \<and> npage m' = npage m"
  using n
proof (induction n)
  case 0
  then show ?case using inv by auto
next
  case (Suc n)
  then obtain m' ys where m': "foldM (env_free_pde d asid) [0..<n] m = Some m'" "pm_inv m' R H ys"
    "\<forall>d'\<in>R - {d}. aspace m' d' = aspace m d'"
    "\<forall>i<UPDX. pte_valid (frame m' d i) \<longleftrightarrow> n \<le> i \<and> pte_valid (frame m d i)" "npage m' = npage m"
    "released R d m xs m' ys"
    by auto
  have n: "n < UPDX" using Suc.prems by simp
  obtain m'' zs where m'': "env_free_pde d asid n m' = Some m''" "pm_inv m'' R H zs"
    "\<forall>d'\<in>R - {d}. aspace m'' d' = aspace m' d'"
    "\<forall>i<UPDX. pte_valid (frame m'' d i) \<longleftrightarrow> i \<noteq> n \<and> pte_valid (frame m' d i)" "npage m'' = npage m'"
    "released R d m' ys m'' zs"
    using env_free_pde_ok [OF m'(2) d n, of asid] by auto
  have "pte_valid (frame m'' d i) \<longleftrightarrow> Suc n \<le> i \<and> pte_valid (frame m d i)" if "i < UPDX" for i
    using m'(4) m''(4) that by auto
  moreover have "\<exists>ys. pm_inv m'' R H ys \<and> released R d m xs m'' ys"
    using m''(2) released_trans [OF m'(6) m''(6)] by blast
  ultimately show ?case
    using m' m'' by (auto simp: foldM_append)
qed

lemma pm_inv_del_root:
  assumes inv: "pm_inv m R H xs" and d: "d \<in> R"
    and clear: "\<And>i. i < UPDX \<Longrightarrow> \<not> pte_valid (frame m d i)"
  obtains m' where "page_decref d m = Some m'" "pm_inv m' (R - {d}) H (d # xs)"
    "\<And>d'. aspace m' d' = aspace m d'" "npage m' = npage m"
    "pp_ref m' = (pp_ref m)(d := 0)" "frame m' = frame m"
proof -
  have d1: "pp_ref m d = 1" "d < npage m"
    using pm_invD(7) [OF inv d] pm_inv_root [OF inv d] by auto
  have dx: "d \<notin> set xs"
    using free_no_site [OF inv, of d "Root d"] d by auto
  define m' where "m' = m\<lparr>pp_ref := (pp_ref m)(d := 0),
    page_free_list := LIST_INSERT_HEAD d (page_free_list m)\<rparr>"
  have tgt: "target m' (R - {d}) = (target m R)(Root d := None)"
  proof
    fix x show "target m' (R - {d}) x = ((target m R)(Root d := None)) x"
      using clear by (cases x) (auto simp: m'_def)
  qed
  have fin: "finite R" "finite (refs m R p)" for p
    using pm_invD(2) [OF inv] finite_refs by blast+
  have rf: "refs m' (R - {d}) p = refs m R p - {Root d}" for p
    unfolding refs_def tgt by auto
  have r1: "refs m R d = {Root d}"
    using root_unique [OF inv d] d by (auto simp: refs_def)
  have Hd: "H d = 0"
    using pm_invD(6) [OF inv d1(2)] d1 r1 by simp
  have rp: "Root d \<notin> refs m R p" if "p \<noteq> d" for p
    using that d by (simp add: refs_def)
  have cnt: "unat (pp_ref m' p) = H p + card (refs m' (R - {d}) p)" if "p < npage m" for p
    unfolding rf using pm_invD(6) [OF inv that] r1 Hd rp by (cases "p = d") (simp_all add: m'_def)
  have tab: "pp_ref m' p = 1" if "target m' (R - {d}) (PdeAt d' i) = Some p" for d' i p
  proof -
    from that have t: "target m R (PdeAt d' i) = Some p"
      unfolding tgt by (simp del: target.simps)
    then have "p \<noteq> d" using root_unique [OF inv d] by blast
    with pm_invD(8) [OF inv t] show ?thesis by (simp add: m'_def)
  qed
  have bnd: "p < npage m" if "target m' (R - {d}) x = Some p" for x p
    using that pm_invD(5) [OF inv] unfolding tgt by (auto simp del: target.simps split: if_splits)
  have "is_LIST (page_free_list m') (d # xs)"
    using pm_invD(3) [OF inv] dx by (simp add: m'_def LIST_INSERT_HEAD_seq)
  moreover have "p < npage m \<and> pp_ref m' p = 0" if "p \<in> set (d # xs)" for p
    using that d1 pm_invD(4) [OF inv, of p] by (auto simp: m'_def)
  moreover have "pp_ref m' r = 1" if "r \<in> R - {d}" for r
    using that pm_invD(7) [OF inv, of r] by (simp add: m'_def)
  moreover have np: "npage m' = npage m"
    by (simp add: m'_def)
  ultimately have "pm_inv m' (R - {d}) H (d # xs)"
    using pm_invD(1) [OF inv] fin cnt tab bnd unfolding pm_inv_def np by (auto simp del: target.simps)
  moreover have "page_decref d m = Some m'"
    using page_decref_last [OF d1(1)] by (simp add: m'_def)
  moreover have "aspace m' d' = aspace m d'" for d'
    by (intro aspace_cong) (simp_all add: m'_def)
  ultimately show thesis
    using np by (intro that [of m']) (simp_all add: m'_def)
qed

text \<open>The address space a reference comes from, and the pages that only one address space
  refers to: its directory, its tables, and the pages mapped nowhere else.\<close>

fun site_dir :: "site \<Rightarrow> nat" where
  "site_dir (Root d) = d"
| "site_dir (PdeAt d i) = d"
| "site_dir (PteAt d i j) = d"

definition held_by :: "pmap \<Rightarrow> nat set \<Rightarrow> (nat \<Rightarrow> nat) \<Rightarrow> nat \<Rightarrow> nat set" where
  "held_by m R H d = {p. p < npage m \<and> H p = 0 \<and> refs m R p \<noteq> {} \<and> site_dir ` refs m R p \<subseteq> {d}}"

lemma unreferenced:
  assumes "pm_inv m R H xs" "p < npage m"
  shows "pp_ref m p = 0 \<longleftrightarrow> H p = 0 \<and> refs m R p = {}"
proof -
  have "unat (pp_ref m p) = H p + card (refs m R p)"
    using pm_invD(6) [OF assms] .
  moreover have "finite (refs m R p)"
    using finite_refs pm_invD(2) [OF assms(1)] .
  ultimately show ?thesis by (metis add_is_0 card_0_eq unat_eq_zero)
qed

text \<open>A page with one reference, which comes from \<open>d\<close>, is held by \<open>d\<close> alone.\<close>

lemma held_byI:
  assumes inv: "pm_inv m R H xs" and x: "target m R x = Some p" "site_dir x = d" "pp_ref m p = 1"
  shows "p \<in> held_by m R H d"
proof -
  have p: "p < npage m" using pm_invD(5) [OF inv x(1)] .
  have "y = x" if "y \<in> refs m R p" for y
    using one_site [OF inv x(3) _ x(1)] that by (simp add: refs_def)
  moreover have "x \<in> refs m R p" using x(1) by (simp add: refs_def)
  ultimately have rf: "refs m R p = {x}" by blast
  then have "H p = 0" using pm_invD(6) [OF inv p] x(3) by simp
  with p rf x(2) show ?thesis by (simp add: held_by_def)
qed

text \<open>Everything an address space held alone is on the free list afterwards, and nothing else
  has come onto it; memory is written in these pages only.\<close>

lemma released_all:
  assumes inv: "pm_inv m R H xs" and rel: "released R d m xs m1 ys" and d: "d \<in> R"
    and m2: "pm_inv m2 (R - {d}) H (d # ys)" "pp_ref m2 = (pp_ref m1)(d := 0)" "frame m2 = frame m1"
    and np: "npage m2 = npage m"
    and asp: "\<And>d'. d' \<in> R \<Longrightarrow> d' \<noteq> d \<Longrightarrow> aspace m2 d' = aspace m d'"
  shows "set (d # ys) = set xs \<union> held_by m R H d"
    and "p \<notin> held_by m R H d \<Longrightarrow> frame m2 p = frame m p"
proof -
  have tgt: "target m2 (R - {d}) y = (if site_dir y = d then None else target m R y)" for y
  proof (cases y)
    case (PdeAt d' i)
    have "target m2 (R - {d}) (PdeAt d' i) = target m1 R (PdeAt d' i)" if "d' \<noteq> d"
      using that m2(3) by simp
    with PdeAt releasedD(4) [OF rel, of d' i] show ?thesis by auto
  next
    case (PteAt d' i j)
    show ?thesis
    proof (cases "d' \<in> R \<and> d' \<noteq> d")
      case True
      then have "d' \<in> R - {d}" "d' \<in> R" by auto
      then show ?thesis
        unfolding PteAt using True asp [of d'] by (simp del: target.simps add: target_PteAt_aspace)
    qed (use PteAt in auto)
  qed auto
  have rf: "refs m2 (R - {d}) p = {} \<longleftrightarrow> site_dir ` refs m R p \<subseteq> {d}" for p
    unfolding refs_def tgt by (auto split: if_splits)
  have d1: "pp_ref m d = 1" using pm_invD(7) [OF inv d] .
  have "set (d # ys) = set xs \<union> {p. pp_ref m p \<noteq> 0 \<and> pp_ref m2 p = 0}"
    unfolding m2(2) using releasedD(2) [OF rel] d1 by auto
  moreover have lt: "p < npage m" if "p \<in> set (d # ys)" for p
    using pm_invD(4) [OF m2(1) that] np by simp
  moreover have "pp_ref m p \<noteq> 0 \<and> pp_ref m2 p = 0 \<longleftrightarrow> p \<in> held_by m R H d" if "p < npage m" for p
    unfolding held_by_def
    using unreferenced [OF inv that] unreferenced [OF m2(1), of p] that np rf [of p] by auto
  ultimately show "set (d # ys) = set xs \<union> held_by m R H d"
    unfolding held_by_def by (safe; blast)
  show "frame m2 p = frame m p" if "p \<notin> held_by m R H d"
  proof (rule ccontr)
    assume "frame m2 p \<noteq> frame m p"
    then consider "p = d" | i where "target m R (PdeAt d i) = Some p"
      using releasedD(3) [OF rel, of p] m2(3) by auto
    then have "p \<in> held_by m R H d"
    proof cases
      case 1
      then show ?thesis using held_byI [OF inv, of "Root d"] d d1 by simp
    next
      case 2
      then show ?thesis using held_byI [OF inv 2] pm_invD(8) [OF inv 2] by simp
    qed
    with that show False ..
  qed
qed

text \<open>The whole of \<open>env_free\<close> up to the queues.\<close>

lemma env_free_mem_ok:
  assumes inv: "pm_inv (pm s) R H xs" and d: "env_pgdir (envs s e) \<in> R"
  obtains m ys where "pm_inv m (R - {env_pgdir (envs s e)}) H ys" "npage m = npage (pm s)"
    "\<And>d'. d' \<in> R \<Longrightarrow> d' \<noteq> env_pgdir (envs s e) \<Longrightarrow> aspace m d' = aspace (pm s) d'"
    "set ys = set xs \<union> held_by (pm s) R H (env_pgdir (envs s e))"
    "\<And>p. p \<notin> held_by (pm s) R H (env_pgdir (envs s e)) \<Longrightarrow> frame m p = frame (pm s) p"
    "env_free e s = do {
       let s = (asid_free (env_asid (envs s e)) s)\<lparr>pm := m\<rparr>;
       let s = upd_env e (\<lambda>x. x\<lparr>env_status := ENV_FREE\<rparr>) s;
       let s = s\<lparr>env_free_list := LIST_INSERT_HEAD e (env_free_list s)\<rparr>;
       q \<leftarrow> TAILQ_REMOVE e (env_sched_list s);
       Some (s\<lparr>env_sched_list := q\<rparr>) }"
proof -
  let ?d = "env_pgdir (envs s e)" and ?a = "env_asid (envs s e)"
  obtain m1 ys where m1: "foldM (env_free_pde ?d ?a) [0..<UPDX] (pm s) = Some m1" "pm_inv m1 R H ys"
    "\<forall>d'\<in>R - {?d}. aspace m1 d' = aspace (pm s) d'" "\<forall>i<UPDX. \<not> pte_valid (frame m1 ?d i)"
    "npage m1 = npage (pm s)" "released R ?d (pm s) xs m1 ys"
    using env_free_pdes_ok [OF inv d, of UPDX ?a] by auto
  obtain m2 where m2: "page_decref ?d m1 = Some m2" "pm_inv m2 (R - {?d}) H (?d # ys)"
    "\<And>d'. aspace m2 d' = aspace m1 d'" "npage m2 = npage m1" "pp_ref m2 = (pp_ref m1)(?d := 0)"
    "frame m2 = frame m1"
    by (rule pm_inv_del_root [OF m1(2) d]) (use m1(4) in blast)+
  have asp: "aspace m2 d' = aspace (pm s) d'" if "d' \<in> R" "d' \<noteq> ?d" for d'
    using that m1(3) m2(3) by simp
  note all = released_all [OF inv m1(6) d m2(2,5,6) _ asp]
  have np: "?d < npage m1" "npage m1 \<le> 2 ^ 20"
    using pm_inv_root [OF m1(2) d] pm_invD(1) [OF m1(2)] by auto
  let ?m = "tlb_invalidate ?a (UVPT + push_bit 12 (of_nat (PDX UVPT))) m2"
  have "pa2page m1 (page2pa ?d) = Some ?d"
    using np by (simp add: pa2page_def)
  then have "env_free e s = do {
       let s = (asid_free ?a s)\<lparr>pm := ?m\<rparr>;
       let s = upd_env e (\<lambda>x. x\<lparr>env_status := ENV_FREE\<rparr>) s;
       let s = s\<lparr>env_free_list := LIST_INSERT_HEAD e (env_free_list s)\<rparr>;
       q \<leftarrow> TAILQ_REMOVE e (env_sched_list s);
       Some (s\<lparr>env_sched_list := q\<rparr>) }"
    using m1(1) m2(1) by (simp add: env_free_def do_pm_def PDX_UTOP asid_free_def Let_def)
  then show thesis
    by (rule that [of ?m "?d # ys", rotated 5]) (use m1 m2 asp all in auto)
qed

end
