(* ===== verification/MOS_Bitmap.thy ===== *)
theory MOS_Bitmap
  imports MOS_Prelude
begin

text \<open>
  Allocators of numbered resources that keep one bit per resource in an array of 32-bit
  words: the ASIDs of \<^verbatim>\<open>kern/env.c\<close> and the disk blocks of \<^verbatim>\<open>fs/fs.c\<close>. The contract is a
  locale; the clients' facts are proved from it once, and the components interpret it.
\<close>

section \<open>Single bits of a word array\<close>

lemma bit_or_push_bit_1: "n < 32 \<Longrightarrow> bit ((w::u32) OR push_bit n 1) k \<longleftrightarrow> k = n \<or> bit w k"
  by (auto simp: bit_simps)

lemma bit_clear_push_bit_1: "bit ((w::u32) AND NOT (push_bit n 1)) k \<longleftrightarrow> k \<noteq> n \<and> bit w k"
  by (auto simp: bit_simps dest: bit_imp_le_length)

lemma div_mod_32_eq: "i div 32 = j div 32 \<Longrightarrow> i mod 32 = j mod 32 \<Longrightarrow> i = (j::nat)"
  by (metis div_mult_mod_eq)

section \<open>The contract of an allocator\<close>

text \<open>\<open>inv\<close> is what the operations need of the state and keep, \<open>ids\<close> the resources there are.\<close>

locale bit_allocator =
  fixes inv :: "'s \<Rightarrow> bool"
    and used :: "'s \<Rightarrow> nat \<Rightarrow> bool"
    and ids :: "nat set"
    and grab :: "'s \<Rightarrow> nat option \<times> 's"
    and release :: "nat \<Rightarrow> 's \<Rightarrow> 's"
  assumes finite_ids: "finite ids"
    and grab_ok: "inv s \<Longrightarrow> i \<in> ids \<Longrightarrow> \<not> used s i \<Longrightarrow>
      \<exists>j s'. grab s = (Some j, s') \<and> inv s' \<and> j \<in> ids \<and> \<not> used s j \<and> (\<forall>k\<in>ids. used s' k \<longleftrightarrow> k = j \<or> used s k)"
    and grab_full: "inv s \<Longrightarrow> (\<And>i. i \<in> ids \<Longrightarrow> used s i) \<Longrightarrow> grab s = (None, s)"
    and release_inv: "inv s \<Longrightarrow> i \<in> ids \<Longrightarrow> inv (release i s)"
    and release_ok: "inv s \<Longrightarrow> i \<in> ids \<Longrightarrow> k \<in> ids \<Longrightarrow> used (release i s) k \<longleftrightarrow> k \<noteq> i \<and> used s k"
begin

definition busy :: "'s \<Rightarrow> nat set" where
  "busy s = {i \<in> ids. used s i}"

lemma finite_busy: "finite (busy s)"
  using finite_ids by (simp add: busy_def)

lemma grab_cases:
  assumes "inv s"
  obtains (full) "grab s = (None, s)" "busy s = ids"
  | (got) j s' where "grab s = (Some j, s')" "inv s'" "j \<in> ids" "j \<notin> busy s" "busy s' = insert j (busy s)"
proof (cases "\<exists>i\<in>ids. \<not> used s i")
  case True
  then obtain j s' where "grab s = (Some j, s')" "inv s'" "j \<in> ids" "\<not> used s j"
    "\<forall>k\<in>ids. used s' k \<longleftrightarrow> k = j \<or> used s k"
    using grab_ok [OF assms] by blast
  then show thesis
    by (intro got [of j s']) (auto simp: busy_def)
next
  case False
  then show thesis
    using grab_full [OF assms] by (auto simp: busy_def intro!: full)
qed

text \<open>What is taken is free before, and no two holders ever get the same resource.\<close>

lemma grab_fresh: "inv s \<Longrightarrow> grab s = (Some j, s') \<Longrightarrow> inv s' \<and> j \<in> ids \<and> j \<notin> busy s \<and> busy s' = insert j (busy s)"
  by (cases s rule: grab_cases) auto

lemma grab_none: "inv s \<Longrightarrow> grab s = (None, s') \<Longrightarrow> s' = s \<and> busy s = ids"
  by (cases s rule: grab_cases) auto

lemma grab_distinct:
  "inv s \<Longrightarrow> grab s = (Some i, s') \<Longrightarrow> inv s'' \<Longrightarrow> busy s' \<subseteq> busy s'' \<Longrightarrow> grab s'' = (Some j, s3) \<Longrightarrow> i \<noteq> j"
  using grab_fresh [of s i s'] grab_fresh [of s'' j s3] by blast

lemma busy_release: "inv s \<Longrightarrow> i \<in> ids \<Longrightarrow> busy (release i s) = busy s - {i}"
  using release_ok by (auto simp: busy_def)

lemma grab_release: "inv s \<Longrightarrow> grab s = (Some i, s') \<Longrightarrow> busy (release i s') = busy s"
  using grab_fresh [of s i s'] busy_release [of s' i] by auto

lemma grab_count: "inv s \<Longrightarrow> grab s = (Some i, s') \<Longrightarrow> card (busy s') = card (busy s) + 1"
  using grab_fresh [of s i s'] finite_busy by simp

lemma grab_full_count:
  assumes "inv s"
  shows "fst (grab s) = None \<longleftrightarrow> card (busy s) = card ids"
proof (cases rule: grab_cases [OF assms])
  case 1
  then show ?thesis by simp
next
  case (2 j s')
  then have "busy s \<subset> ids" by (auto simp: busy_def)
  then have "card (busy s) < card ids" using finite_ids by (intro psubset_card_mono)
  with 2 show ?thesis by simp
qed

text \<open>\<open>n\<close> calls in a row on a state with \<open>n\<close> free resources take \<open>n\<close> different ones.\<close>

primrec grab_n :: "nat \<Rightarrow> 's \<Rightarrow> nat list \<times> 's" where
  "grab_n 0 s = ([], s)"
| "grab_n (Suc n) s = (case grab s of (None, s') \<Rightarrow> ([], s')
     | (Some j, s') \<Rightarrow> (let (js, s'') = grab_n n s' in (j # js, s'')))"

lemma grab_n_distinct:
  "inv s \<Longrightarrow> grab_n n s = (js, s') \<Longrightarrow> distinct js \<and> set js \<inter> busy s = {} \<and> busy s' = busy s \<union> set js \<and> inv s'"
proof (induction n arbitrary: s js s')
  case (Suc n)
  show ?case
  proof (cases rule: grab_cases [OF Suc.prems(1)])
    case 1
    with Suc.prems show ?thesis by simp
  next
    case (2 j s1)
    obtain js1 s2 where r: "grab_n n s1 = (js1, s2)" by (cases "grab_n n s1")
    from Suc.IH [OF 2(2) r] 2 r Suc.prems(2) show ?thesis by auto
  qed
qed auto

end

end
