(* ===== verification/MOS_EnvInv.thy ===== *)
theory MOS_EnvInv
  imports MOS_EnvMem MOS_Bitmap
begin

text \<open>
  The invariant of the kernel's environments and its preservation by allocation,
  destruction, context switch and scheduling.
\<close>

section \<open>ASIDs\<close>

lemma asid_used_bit: "asid_used bm i \<longleftrightarrow> bit (bm (i div 32)) (i mod 32)"
  by (simp only: asid_used_def and_push_bit_1)

lemma asid_used_set:
  "asid_used (bm(i div 32 := bm (i div 32) OR push_bit (i mod 32) 1)) k \<longleftrightarrow> k = i \<or> asid_used bm k"
  by (auto simp: asid_used_bit bit_or_push_bit_1 simp del: push_bit_of_1 dest: div_mod_32_eq)

lemma asid_used_clear:
  "asid_used (bm(i div 32 := bm (i div 32) AND NOT (push_bit (i mod 32) 1))) k \<longleftrightarrow> k \<noteq> i \<and> asid_used bm k"
  by (auto simp: asid_used_bit bit_clear_push_bit_1 simp del: push_bit_of_1 dest: div_mod_32_eq)

lemma asid_free_of_nat:
  assumes "i < NASID"
  shows "asid_free (of_nat i) s = s\<lparr>asid_bitmap := (asid_bitmap s)
    (i div 32 := asid_bitmap s (i div 32) AND NOT (push_bit (i mod 32) 1))\<rparr>"
proof -
  have u: "unat (of_nat i :: u32) = i"
    using assms by (simp add: unat_of_nat take_bit_eq_mod)
  have "unat (drop_bit 5 (of_nat i :: u32)) = i div 32"
    by (simp only: unat_drop_bit_div u) simp
  moreover have "(of_nat i :: u32) AND 31 = take_bit 5 (of_nat i)"
    by (simp add: take_bit_eq_mask mask_eq_exp_minus_1)
  then have "unat ((of_nat i :: u32) AND 31) = i mod 32"
    by (simp add: take_bit_eq_mod unat_mod u)
  ultimately show ?thesis
    by (simp add: asid_free_def Let_def)
qed

definition asid_grab :: "kstate \<Rightarrow> nat option \<times> kstate" where
  "asid_grab s = (case asid_alloc s of (Inr i, s') \<Rightarrow> (Some i, s') | (Inl _, s') \<Rightarrow> (None, s'))"

lemma find_asid: "find (\<lambda>i. \<not> asid_used bm i) [0..<NASID] = Some i \<Longrightarrow> i < NASID \<and> \<not> asid_used bm i"
  by (auto simp: find_Some_iff simp del: upt_Suc)

lemma find_no_asid: "find (\<lambda>i. \<not> asid_used bm i) [0..<NASID] = None \<longleftrightarrow> (\<forall>i<NASID. asid_used bm i)"
  by (auto simp: find_None_iff simp del: upt_Suc)

interpretation asid: bit_allocator "\<lambda>_. True" "\<lambda>s. asid_used (asid_bitmap s)" "{..<NASID}" asid_grab "\<lambda>i. asid_free (of_nat i)"
proof (unfold_locales, unfold lessThan_iff)
  fix i and s :: kstate assume "i < NASID" "\<not> asid_used (asid_bitmap s) i"
  then obtain j where j: "find (\<lambda>i. \<not> asid_used (asid_bitmap s) i) [0..<NASID] = Some j"
    using find_no_asid [of "asid_bitmap s"] by (cases "find (\<lambda>i. \<not> asid_used (asid_bitmap s) i) [0..<NASID]") auto
  from find_asid [OF j] j show "\<exists>j s'. asid_grab s = (Some j, s') \<and> True \<and> j < NASID \<and> \<not> asid_used (asid_bitmap s) j \<and>
      (\<forall>k\<in>{..<NASID}. asid_used (asid_bitmap s') k \<longleftrightarrow> k = j \<or> asid_used (asid_bitmap s) k)"
    by (simp add: asid_grab_def asid_alloc_def asid_used_set del: upt_Suc push_bit_of_1)
next
  fix s :: kstate assume "\<And>i. i < NASID \<Longrightarrow> asid_used (asid_bitmap s) i"
  then have "find (\<lambda>i. \<not> asid_used (asid_bitmap s) i) [0..<NASID] = None"
    by (simp add: find_no_asid del: upt_Suc)
  then show "asid_grab s = (None, s)"
    by (simp add: asid_grab_def asid_alloc_def)
next
  fix i k and s :: kstate assume "i < NASID"
  then show "asid_used (asid_bitmap (asid_free (of_nat i) s)) k \<longleftrightarrow> k \<noteq> i \<and> asid_used (asid_bitmap s) k"
    by (simp add: asid_free_of_nat asid_used_clear del: push_bit_of_1)
qed simp_all

lemma asid_alloc_grab:
  "asid_alloc s = (Inr i, s') \<longleftrightarrow> asid_grab s = (Some i, s')"
  "asid_alloc s = (Inl e, s') \<longleftrightarrow> e = - E_NO_FREE_ENV \<and> asid_grab s = (None, s')"
  by (auto simp: asid_grab_def asid_alloc_def split: option.splits)

text \<open>Allocation touches nothing but the bitmap.\<close>

lemma asid_alloc_frame: "snd (asid_alloc s) = s\<lparr>asid_bitmap := asid_bitmap (snd (asid_alloc s))\<rparr>"
  by (simp add: asid_alloc_def split: option.split)

section \<open>The invariant\<close>

text \<open>What holds of the allocated environments \<open>A\<close>, whatever their status: each has its own
  page directory and its own ASID, the ASIDs in use are exactly theirs, their ids lead back to
  them, and the memory manager's invariant holds for their directories.\<close>

definition env_core :: "kstate \<Rightarrow> nat set \<Rightarrow> (nat \<Rightarrow> nat) \<Rightarrow> nat list \<Rightarrow> bool" where
  "env_core s A H xs \<longleftrightarrow>
     A \<subseteq> {..<NENV} \<and>
     inj_on (\<lambda>e. env_pgdir (envs s e)) A \<and>
     pm_inv (pm s) ((\<lambda>e. env_pgdir (envs s e)) ` A) H xs \<and>
     inj_on (\<lambda>e. env_asid (envs s e)) A \<and>
     (\<forall>e\<in>A. unat (env_asid (envs s e)) < NASID) \<and>
     (\<forall>i<NASID. asid_used (asid_bitmap s) i \<longleftrightarrow> (\<exists>e\<in>A. unat (env_asid (envs s e)) = i)) \<and>
     (\<forall>e\<in>A. ENVX (env_id (envs s e)) = e)"

definition alive :: "kstate \<Rightarrow> nat set" where
  "alive s = {e. e < NENV \<and> env_status (envs s e) \<noteq> ENV_FREE}"

text \<open>The whole: the free list holds exactly the free environments and the scheduling list
  exactly the runnable ones, as the comment at \<^verbatim>\<open>env_sched_list\<close> demands, and the current
  environment, if there is one, is alive and its directory is in use.\<close>

definition k_inv :: "kstate \<Rightarrow> nat list \<Rightarrow> nat list \<Rightarrow> (nat \<Rightarrow> nat) \<Rightarrow> nat list \<Rightarrow> bool" where
  "k_inv s fl sl H xs \<longleftrightarrow>
     env_core s (alive s) H xs \<and>
     is_LIST (env_free_list s) fl \<and> (\<forall>e. e \<in> set fl \<longleftrightarrow> e < NENV \<and> env_status (envs s e) = ENV_FREE) \<and>
     is_TAILQ (env_sched_list s) sl \<and>
     (\<forall>e. e \<in> set sl \<longleftrightarrow> e < NENV \<and> env_status (envs s e) = ENV_RUNNABLE) \<and>
     (\<forall>c. curenv s = Some c \<longrightarrow> c \<in> alive s \<and> cur_pgdir s = env_pgdir (envs s c)) \<and>
     (\<forall>e<NENV. env_status (envs s e) \<in> {ENV_FREE, ENV_RUNNABLE, ENV_NOT_RUNNABLE})"

lemma env_core_cong:
  assumes "pm s' = pm s" "asid_bitmap s' = asid_bitmap s"
    "\<And>e. e \<in> A \<Longrightarrow> env_pgdir (envs s' e) = env_pgdir (envs s e) \<and>
       env_asid (envs s' e) = env_asid (envs s e) \<and> env_id (envs s' e) = env_id (envs s e)"
  shows "env_core s' A H xs = env_core s A H xs"
proof -
  have "(\<lambda>e. env_pgdir (envs s' e)) ` A = (\<lambda>e. env_pgdir (envs s e)) ` A"
    using assms(3) by (intro image_cong) auto
  moreover have "inj_on (\<lambda>e. env_pgdir (envs s' e)) A = inj_on (\<lambda>e. env_pgdir (envs s e)) A"
    "inj_on (\<lambda>e. env_asid (envs s' e)) A = inj_on (\<lambda>e. env_asid (envs s e)) A"
    using assms(3) by (auto intro!: inj_on_cong)
  ultimately show ?thesis
    using assms unfolding env_core_def by auto
qed

lemma env_coreD:
  assumes "env_core s A H xs"
  shows "A \<subseteq> {..<NENV}" "inj_on (\<lambda>e. env_pgdir (envs s e)) A"
    "pm_inv (pm s) ((\<lambda>e. env_pgdir (envs s e)) ` A) H xs" "inj_on (\<lambda>e. env_asid (envs s e)) A"
    "e \<in> A \<Longrightarrow> unat (env_asid (envs s e)) < NASID"
    "i < NASID \<Longrightarrow> asid_used (asid_bitmap s) i \<longleftrightarrow> (\<exists>e\<in>A. unat (env_asid (envs s e)) = i)"
    "e \<in> A \<Longrightarrow> ENVX (env_id (envs s e)) = e"
  using assms by (auto simp: env_core_def)

lemma upd_env_simps [simp]:
  "envs (upd_env e f s) e = f (envs s e)" "e' \<noteq> e \<Longrightarrow> envs (upd_env e f s) e' = envs s e'"
  "pm (upd_env e f s) = pm s" "asid_bitmap (upd_env e f s) = asid_bitmap s"
  "curenv (upd_env e f s) = curenv s" "cur_pgdir (upd_env e f s) = cur_pgdir s"
  "env_free_list (upd_env e f s) = env_free_list s" "env_sched_list (upd_env e f s) = env_sched_list s"
  "count (upd_env e f s) = count s" "kstack_tf (upd_env e f s) = kstack_tf s"
  "mkenvid_i (upd_env e f s) = mkenvid_i s" "base_pgdir (upd_env e f s) = base_pgdir s"
  by (simp_all add: upd_env_def)

section \<open>Environment ids\<close>

text \<open>The low ten bits of an id are the index of its environment.\<close>

lemma ENVX_mkenvid:
  assumes "e < NENV"
  shows "ENVX (fst (mkenvid e s)) = e"
proof -
  let ?w = "push_bit 11 (mkenvid_i s + 1) OR of_nat e :: u32"
  have m: "(1023 :: u32) = mask 10"
    by (simp add: mask_eq_exp_minus_1)
  have eb: "n < 10" if "bit e n" for n
    using that assms small_index [of e n] by simp
  have "?w AND mask 10 = of_nat e"
    by (rule bit_word_eqI) (auto simp: bit_simps dest: eb)
  moreover have "unat (of_nat e :: u32) = e"
    using assms by (simp add: unat_of_nat take_bit_eq_mod)
  ultimately show ?thesis
    by (simp add: ENVX_def mkenvid_def m)
qed

lemma mkenvid_frame: "snd (mkenvid e s) = s\<lparr>mkenvid_i := mkenvid_i s + 1\<rparr>"
  by (simp add: mkenvid_def)

section \<open>Allocation\<close>

lemma asid_alloc_ok:
  assumes "i < NASID" "\<not> asid_used bm i"
  obtains a bm' where "\<And>s. asid_bitmap s = bm \<Longrightarrow> asid_alloc s = (Inr a, s\<lparr>asid_bitmap := bm'\<rparr>)"
    "a < NASID" "\<not> asid_used bm a" "\<And>k. asid_used bm' k \<longleftrightarrow> k = a \<or> asid_used bm k"
proof -
  obtain a where a: "find (\<lambda>i. \<not> asid_used bm i) [0..<NASID] = Some a"
    using assms find_no_asid [of bm] by (cases "find (\<lambda>i. \<not> asid_used bm i) [0..<NASID]") auto
  show thesis
    using find_asid [OF a] a
    by (intro that [of a "bm(a div 32 := bm (a div 32) OR push_bit (a mod 32) 1)"])
      (simp_all add: asid_alloc_def asid_used_set del: push_bit_of_1)
qed

lemma asid_alloc_full:
  "(\<And>i. i < NASID \<Longrightarrow> asid_used (asid_bitmap s) i) \<Longrightarrow> asid_alloc s = (Inl (- E_NO_FREE_ENV), s)"
  using find_no_asid [of "asid_bitmap s"] by (simp add: asid_alloc_def)

lemma env_alloc_ok:
  assumes core: "env_core s A H (p # xs)" and fl: "is_LIST (env_free_list s) (e # fl)"
    and e: "e \<notin> A" "e < NENV" and i: "i < NASID" "\<not> asid_used (asid_bitmap s) i"
  obtains s' where "env_alloc pid s = Some (Inr e, s')" "env_core s' (insert e A) H xs"
    "is_LIST (env_free_list s') fl" "env_sched_list s' = env_sched_list s" "curenv s' = curenv s"
    "cur_pgdir s' = cur_pgdir s" "count s' = count s" "kstack_tf s' = kstack_tf s"
    "\<And>e'. e' \<noteq> e \<Longrightarrow> envs s' e' = envs s e'"
    "env_status (envs s' e) = env_status (envs s e)" "env_parent_id (envs s' e) = pid"
    "env_id (envs s' e) = fst (mkenvid e s)" "env_runs (envs s' e) = 0"
    "env_ipc_recving (envs s' e) = env_ipc_recving (envs s e)"
    "aspace (pm s') (env_pgdir (envs s' e)) = Map.empty"
    "\<And>e'. e' \<in> A \<Longrightarrow> aspace (pm s') (env_pgdir (envs s e')) = aspace (pm s) (env_pgdir (envs s e'))"
proof -
  let ?R = "(\<lambda>e. env_pgdir (envs s e)) ` A"
  obtain s1 where s1: "env_setup_vm e s = Some (0, s1)"
    "s1 = upd_env e (\<lambda>x. x\<lparr>env_pgdir := p\<rparr>) (s\<lparr>pm := pm s1\<rparr>)"
    "pm_inv (pm s1) (insert p ?R) H xs" "p \<notin> ?R"
    "aspace (pm s1) p = Map.empty" "\<And>d. d \<in> ?R \<Longrightarrow> aspace (pm s1) d = aspace (pm s) d"
    using env_setup_vm_ok [OF env_coreD(3) [OF core], where e = e] by metis
  obtain a bm where a: "\<And>s'. asid_bitmap s' = asid_bitmap s \<Longrightarrow> asid_alloc s' = (Inr a, s'\<lparr>asid_bitmap := bm\<rparr>)"
    "a < NASID" "\<not> asid_used (asid_bitmap s) a" "\<And>k. asid_used bm k \<longleftrightarrow> k = a \<or> asid_used (asid_bitmap s) k"
    using asid_alloc_ok [OF i] by metis
  have first: "LIST_FIRST (env_free_list s) = Some e" "\<not> LIST_EMPTY (env_free_list s)"
    using LIST_FIRST_seq [OF fl] LIST_EMPTY_seq [OF fl] by simp_all
  from lst.pop [OF first(1) fl] obtain l where l: "LIST_REMOVE e (env_free_list s) = Some l" "is_LIST l fl"
    by auto
  define x where "x = (envs s e)\<lparr>env_pgdir := p, env_user_tlb_mod_entry := 0, env_runs := 0,
      env_id := fst (mkenvid e s), env_asid := of_nat a, env_parent_id := pid,
      env_tf := (env_tf (envs s e))\<lparr>cp0_status := STATUS_INIT,
        regs := (regs (env_tf (envs s e)))(29 := USTACKTOP - 4 - 4)\<rparr>\<rparr>"
  define s' where "s' = s\<lparr>pm := pm s1, envs := (envs s)(e := x), mkenvid_i := mkenvid_i s + 1,
      asid_bitmap := bm, env_free_list := l\<rparr>"
  have al: "env_alloc pid s = Some (Inr e, s')"
    unfolding env_alloc_def using first s1(1) l(1)
    by (simp, subst s1(2), simp add: a(1) mkenvid_def upd_env_def s'_def x_def)
  have ua: "unat (of_nat a :: u32) = a"
    using a(2) by (simp add: unat_of_nat take_bit_eq_mod)
  have img: "(\<lambda>e'. env_pgdir (envs s' e')) ` insert e A = insert p ?R"
    using e(1) by (auto simp: s'_def x_def image_iff)
  have old: "envs s' e' = envs s e'" if "e' \<in> A" for e'
    using that e(1) by (auto simp: s'_def)
  have new: "envs s' e = x" and xf: "env_asid x = of_nat a" "env_pgdir x = p" "env_id x = fst (mkenvid e s)"
    by (simp_all add: s'_def x_def)
  have core': "env_core s' (insert e A) H xs"
    unfolding env_core_def
  proof (intro conjI ballI allI impI)
    show "insert e A \<subseteq> {..<NENV}" using env_coreD(1) [OF core] e by auto
    have "inj_on (\<lambda>e'. env_pgdir (envs s' e')) A"
      using env_coreD(2) [OF core] old by (auto simp: inj_on_def)
    then show "inj_on (\<lambda>e'. env_pgdir (envs s' e')) (insert e A)"
      using s1(4) e(1) old by (auto simp: s'_def x_def)
    show "pm_inv (pm s') ((\<lambda>e'. env_pgdir (envs s' e')) ` insert e A) H xs"
      unfolding img using s1(3) by (simp add: s'_def)
    have "inj_on (\<lambda>e'. env_asid (envs s' e')) A"
      using env_coreD(4) [OF core] old by (auto simp: inj_on_def)
    moreover have "env_asid (envs s e') \<noteq> of_nat a" if "e' \<in> A" for e'
      using env_coreD(6) [OF core a(2)] a(3) that ua by metis
    then have "env_asid (envs s' e') \<noteq> of_nat a" if "e' \<in> A" for e'
      using old that by simp
    ultimately show "inj_on (\<lambda>e'. env_asid (envs s' e')) (insert e A)"
      using e(1) new by (auto simp: xf) blast
    show "unat (env_asid (envs s' e')) < NASID" if "e' \<in> insert e A" for e'
      using that env_coreD(5) [OF core] old ua a(2) by (auto simp: s'_def x_def)
    show "asid_used (asid_bitmap s') k \<longleftrightarrow> (\<exists>e'\<in>insert e A. unat (env_asid (envs s' e')) = k)" if "k < NASID" for k
      using env_coreD(6) [OF core that] a(4) old ua e(1) by (auto simp: s'_def x_def)
    show "ENVX (env_id (envs s' e')) = e'" if "e' \<in> insert e A" for e'
      using that env_coreD(7) [OF core] old ENVX_mkenvid [OF e(2)] by (auto simp: s'_def x_def)
  qed
  show thesis
    by (rule that [OF al core']) (use l(2) s1(5,6) e(1) in \<open>auto simp: s'_def x_def\<close>)
qed

text \<open>The failures of \<open>env_alloc\<close>. Without a free environment or a free page nothing changes.\<close>

lemma env_alloc_no_env:
  "is_LIST (env_free_list s) [] \<Longrightarrow> env_alloc pid s = Some (Inl (- E_NO_FREE_ENV), s)"
  using LIST_EMPTY_seq by (simp add: env_alloc_def)

lemma env_alloc_no_mem:
  assumes "env_core s A H []" "is_LIST (env_free_list s) (e # fl)"
  shows "env_alloc pid s = Some (Inl (- E_NO_MEM), s)"
  using LIST_FIRST_seq [OF assms(2)] LIST_EMPTY_seq [OF assms(2)]
    env_setup_vm_nomem [OF env_coreD(3) [OF assms(1)], of e]
  by (simp add: env_alloc_def)

text \<open>Without a free ASID the page taken for the directory is lost: it stays referenced, by
  nothing (the reference is the kernel's own, in \<open>H\<close>).\<close>

lemma env_alloc_no_asid:
  assumes core: "env_core s A H (p # xs)" and fl: "is_LIST (env_free_list s) (e # fl)"
    and e: "e \<notin> A" and full: "\<And>i. i < NASID \<Longrightarrow> asid_used (asid_bitmap s) i"
  obtains s' where "env_alloc pid s = Some (Inl (- E_NO_FREE_ENV), s')"
    "env_core s' A (H(p := 1)) xs" "env_free_list s' = env_free_list s"
    "env_sched_list s' = env_sched_list s" "curenv s' = curenv s" "cur_pgdir s' = cur_pgdir s"
    "\<And>e'. e' \<noteq> e \<Longrightarrow> envs s' e' = envs s e'" "env_status (envs s' e) = env_status (envs s e)"
proof -
  let ?R = "(\<lambda>e. env_pgdir (envs s e)) ` A"
  obtain s1 where s1: "env_setup_vm e s = Some (0, s1)"
    "s1 = upd_env e (\<lambda>x. x\<lparr>env_pgdir := p\<rparr>) (s\<lparr>pm := pm s1\<rparr>)" "pm_inv (pm s1) ?R (H(p := 1)) xs"
    using env_setup_vm_ok [OF env_coreD(3) [OF core], where e = e] by metis
  have first: "LIST_FIRST (env_free_list s) = Some e" "\<not> LIST_EMPTY (env_free_list s)"
    using LIST_FIRST_seq [OF fl] LIST_EMPTY_seq [OF fl] by simp_all
  define x where "x = (envs s e)\<lparr>env_pgdir := p, env_user_tlb_mod_entry := 0, env_runs := 0,
      env_id := fst (mkenvid e s)\<rparr>"
  define s' where "s' = s\<lparr>pm := pm s1, envs := (envs s)(e := x), mkenvid_i := mkenvid_i s + 1\<rparr>"
  have "env_alloc pid s = Some (Inl (- E_NO_FREE_ENV), s')"
    unfolding env_alloc_def using first s1(1) full
    by (simp, subst s1(2), simp add: asid_alloc_full mkenvid_def upd_env_def s'_def x_def)
  moreover have "env_core (s\<lparr>pm := pm s1\<rparr>) A (H(p := 1)) xs"
    using core s1(3) by (simp add: env_core_def)
  then have "env_core s' A (H(p := 1)) xs"
    using e by (subst env_core_cong [where s = "s\<lparr>pm := pm s1\<rparr>"]) (auto simp: s'_def)
  ultimately show thesis
    by (rule that) (simp_all add: s'_def x_def)
qed

section \<open>Destruction\<close>

lemma env_core_free:
  assumes core: "env_core s A H xs" and e: "e \<in> A"
    and m: "pm_inv (pm s') ((\<lambda>e. env_pgdir (envs s e)) ` A - {env_pgdir (envs s e)}) H ys"
    and bm: "asid_bitmap s' = asid_bitmap (asid_free (env_asid (envs s e)) s)"
    and old: "\<And>e'. e' \<noteq> e \<Longrightarrow> envs s' e' = envs s e'"
  shows "env_core s' (A - {e}) H ys"
  unfolding env_core_def
proof (intro conjI ballI allI impI)
  have old': "envs s' e' = envs s e'" if "e' \<in> A - {e}" for e'
    using that old by blast
  have img: "(\<lambda>e'. env_pgdir (envs s' e')) ` (A - {e}) =
      (\<lambda>e. env_pgdir (envs s e)) ` A - {env_pgdir (envs s e)}"
    using old' e env_coreD(2) [OF core] by (auto simp: inj_on_def image_iff)
  show "A - {e} \<subseteq> {..<NENV}" using env_coreD(1) [OF core] by auto
  show "inj_on (\<lambda>e'. env_pgdir (envs s' e')) (A - {e})"
    using env_coreD(2) [OF core] old' by (auto simp: inj_on_def)
  show "inj_on (\<lambda>e'. env_asid (envs s' e')) (A - {e})"
    using env_coreD(4) [OF core] old' by (auto simp: inj_on_def)
  show "pm_inv (pm s') ((\<lambda>e'. env_pgdir (envs s' e')) ` (A - {e})) H ys"
    unfolding img by (rule m)
  show "unat (env_asid (envs s' e')) < NASID" "ENVX (env_id (envs s' e')) = e'" if "e' \<in> A - {e}" for e'
    using that old' env_coreD(5,7) [OF core] by auto
  fix i assume i: "i < NASID"
  define a where "a = unat (env_asid (envs s e))"
  have a: "a < NASID" "env_asid (envs s e) = of_nat a"
    using env_coreD(5) [OF core e] by (simp_all add: a_def)
  have "asid_used (asid_bitmap s') i \<longleftrightarrow> i \<noteq> a \<and> asid_used (asid_bitmap s) i"
    using asid.release_ok [of a i s] a(1) i by (simp add: bm a(2))
  also have "\<dots> \<longleftrightarrow> (\<exists>e'\<in>A - {e}. unat (env_asid (envs s e')) = i)"
    using env_coreD(6) [OF core i] env_coreD(4) [OF core, unfolded inj_on_def word_unat_eq_iff] e
    by (auto simp: a_def)
  also have "\<dots> \<longleftrightarrow> (\<exists>e'\<in>A - {e}. unat (env_asid (envs s' e')) = i)"
    using old' by auto
  finally show "asid_used (asid_bitmap s') i \<longleftrightarrow> (\<exists>e'\<in>A - {e}. unat (env_asid (envs s' e')) = i)" .
qed

lemma k_invD:
  assumes "k_inv s fl sl H xs"
  shows "env_core s (alive s) H xs" "is_LIST (env_free_list s) fl"
    "e \<in> set fl \<longleftrightarrow> e < NENV \<and> env_status (envs s e) = ENV_FREE"
    "is_TAILQ (env_sched_list s) sl"
    "e \<in> set sl \<longleftrightarrow> e < NENV \<and> env_status (envs s e) = ENV_RUNNABLE"
    "curenv s = Some c \<Longrightarrow> c \<in> alive s" "curenv s = Some c \<Longrightarrow> cur_pgdir s = env_pgdir (envs s c)"
    "e < NENV \<Longrightarrow> env_status (envs s e) \<in> {ENV_FREE, ENV_RUNNABLE, ENV_NOT_RUNNABLE}"
  using assms by (simp_all add: k_inv_def)

text \<open>The page directories of the environments in use.\<close>

definition pgdirs :: "kstate \<Rightarrow> nat set" where
  "pgdirs s = (\<lambda>e. env_pgdir (envs s e)) ` alive s"

text \<open>Destroying a runnable environment: everything it held is free again, and nothing of any
  other environment has changed.\<close>

lemma env_free_ok:
  assumes inv: "k_inv s fl sl H xs" and e: "e \<in> set sl"
  obtains s' ys where "env_free e s = Some s'"
    "k_inv (s'\<lparr>curenv := if curenv s = Some e then None else curenv s\<rparr>) (e # fl) (remove1 e sl) H ys"
    "curenv s' = curenv s" "cur_pgdir s' = cur_pgdir s" "kstack_tf s' = kstack_tf s" "count s' = count s"
    "\<And>e'. e' \<noteq> e \<Longrightarrow> envs s' e' = envs s e'" "envs s' e = (envs s e)\<lparr>env_status := ENV_FREE\<rparr>"
    "\<And>e'. e' \<in> alive s \<Longrightarrow> e' \<noteq> e \<Longrightarrow> aspace (pm s') (env_pgdir (envs s e')) = aspace (pm s) (env_pgdir (envs s e'))"
    "set ys = set xs \<union> held_by (pm s) (pgdirs s) H (env_pgdir (envs s e))"
    "\<And>p. p \<notin> held_by (pm s) (pgdirs s) H (env_pgdir (envs s e)) \<Longrightarrow> frame (pm s') p = frame (pm s) p"
proof -
  note core = k_invD(1) [OF inv]
  let ?R = "pgdirs s" and ?d = "env_pgdir (envs s e)"
  have el: "e < NENV" "env_status (envs s e) = ENV_RUNNABLE" "e \<in> alive s"
    using e k_invD(5) [OF inv, of e] by (auto simp: alive_def)
  then have dR: "?d \<in> ?R" by (auto simp: pgdirs_def)
  have pmi: "pm_inv (pm s) ?R H xs" using env_coreD(3) [OF core] by (simp add: pgdirs_def)
  obtain m ys where m: "pm_inv m (?R - {?d}) H ys"
    "\<And>d'. d' \<in> ?R \<Longrightarrow> d' \<noteq> ?d \<Longrightarrow> aspace m d' = aspace (pm s) d'"
    "env_free e s = do {
       let s = (asid_free (env_asid (envs s e)) s)\<lparr>pm := m\<rparr>;
       let s = upd_env e (\<lambda>x. x\<lparr>env_status := ENV_FREE\<rparr>) s;
       let s = s\<lparr>env_free_list := LIST_INSERT_HEAD e (env_free_list s)\<rparr>;
       q \<leftarrow> TAILQ_REMOVE e (env_sched_list s);
       Some (s\<lparr>env_sched_list := q\<rparr>) }"
    "set ys = set xs \<union> held_by (pm s) ?R H ?d"
    "\<And>p. p \<notin> held_by (pm s) ?R H ?d \<Longrightarrow> frame m p = frame (pm s) p"
    by (rule env_free_mem_ok [OF pmi dR]) blast
  obtain q where q: "TAILQ_REMOVE e (env_sched_list s) = Some q" "is_TAILQ q (remove1 e sl)"
    using TAILQ_REMOVE_seq [OF k_invD(4) [OF inv] e] by blast
  define s' where "s' = s\<lparr>pm := m, envs := (envs s)(e := (envs s e)\<lparr>env_status := ENV_FREE\<rparr>),
    asid_bitmap := asid_bitmap (asid_free (env_asid (envs s e)) s),
    env_free_list := LIST_INSERT_HEAD e (env_free_list s), env_sched_list := q\<rparr>"
  have fr: "env_free e s = Some s'"
    using m(3) q(1) by (simp add: s'_def upd_env_def asid_free_def Let_def)
  have ef: "e \<notin> set fl" using k_invD(3) [OF inv, of e] el by simp
  have al: "alive s' = alive s - {e}"
    by (auto simp: alive_def s'_def)
  have core': "env_core s' (alive s - {e}) H ys"
    by (rule env_core_free [OF core el(3)]) (use m(1) in \<open>simp_all add: s'_def pgdirs_def\<close>)
  let ?s = "s'\<lparr>curenv := if curenv s = Some e then None else curenv s\<rparr>"
  have core2: "env_core ?s (alive ?s) H ys"
    using core' al by (simp add: alive_def env_core_cong [where s = s' and s' = ?s])
  have "k_inv ?s (e # fl) (remove1 e sl) H ys"
    unfolding k_inv_def
  proof (intro conjI allI impI)
    show "is_LIST (env_free_list ?s) (e # fl)"
      using LIST_INSERT_HEAD_seq [OF k_invD(2) [OF inv] ef] by (simp add: s'_def)
    show "e' \<in> set (e # fl) \<longleftrightarrow> e' < NENV \<and> env_status (envs ?s e') = ENV_FREE" for e'
      using k_invD(3) [OF inv, of e'] el by (auto simp: s'_def)
    show "is_TAILQ (env_sched_list ?s) (remove1 e sl)" by (simp add: s'_def q)
    show "e' \<in> set (remove1 e sl) \<longleftrightarrow> e' < NENV \<and> env_status (envs ?s e') = ENV_RUNNABLE" for e'
      using k_invD(5) [OF inv, of e'] is_TAILQ_distinct [OF k_invD(4) [OF inv]] by (auto simp: s'_def)
    show "env_status (envs ?s e') \<in> {ENV_FREE, ENV_RUNNABLE, ENV_NOT_RUNNABLE}" if "e' < NENV" for e'
      using k_invD(8) [OF inv that] by (simp add: s'_def)
    fix c assume c: "curenv ?s = Some c"
    then have c': "curenv s = Some c" "c \<noteq> e" by (auto split: if_splits)
    show "c \<in> alive ?s" using k_invD(6) [OF inv c'(1)] c'(2) al by (simp add: alive_def)
    show "cur_pgdir ?s = env_pgdir (envs ?s c)"
      using k_invD(7) [OF inv c'(1)] c'(2) by (simp add: s'_def)
  qed (rule core2)
  moreover have "aspace (pm s') (env_pgdir (envs s e')) = aspace (pm s) (env_pgdir (envs s e'))"
    if "e' \<in> alive s" "e' \<noteq> e" for e'
  proof -
    have "env_pgdir (envs s e') \<noteq> ?d"
      using env_coreD(2) [OF core] that el(3) by (auto simp: inj_on_def)
    with that m(2) show ?thesis by (auto simp: s'_def pgdirs_def)
  qed
  ultimately show thesis
    by (intro that [OF fr _ _ _ _ _ _ _ _ m(4)]) (simp_all add: s'_def m(5))
qed

section \<open>Context switch and scheduling\<close>

text \<open>The invariant reads only these parts of the state.\<close>

definition same_env :: "env \<Rightarrow> env \<Rightarrow> bool" where
  "same_env x y \<longleftrightarrow> env_pgdir x = env_pgdir y \<and> env_asid x = env_asid y \<and> env_id x = env_id y \<and>
     env_status x = env_status y"

lemma same_env_refl [simp]: "same_env x x"
  by (simp add: same_env_def)

lemma k_inv_cong:
  assumes inv: "k_inv s fl sl H xs"
    and pm: "pm s' = pm s" "asid_bitmap s' = asid_bitmap s" "env_free_list s' = env_free_list s"
    and e: "\<And>e. same_env (envs s' e) (envs s e)"
    and q: "is_TAILQ (env_sched_list s') sl'" "set sl' = set sl"
    and c: "\<And>c. curenv s' = Some c \<Longrightarrow> c \<in> alive s \<and> cur_pgdir s' = env_pgdir (envs s c)"
  shows "k_inv s' fl sl' H xs"
proof -
  have e': "env_pgdir (envs s' e) = env_pgdir (envs s e)" "env_asid (envs s' e) = env_asid (envs s e)"
    "env_id (envs s' e) = env_id (envs s e)" "env_status (envs s' e) = env_status (envs s e)" for e
    using e by (simp_all add: same_env_def)
  have al: "alive s' = alive s" by (simp add: alive_def e')
  have "env_core s' (alive s') H xs"
    using k_invD(1) [OF inv] unfolding al by (subst env_core_cong [OF pm(1,2)]) (simp_all add: e')
  with inv pm q c al show ?thesis
    by (auto simp: k_inv_def e')
qed

lemma env_run_ok:
  assumes inv: "k_inv s fl sl H xs" and e: "e \<in> set sl"
  obtains s' where "env_run e s = Some s'" "k_inv s' fl sl H xs" "curenv s' = Some e"
    "cpu s' = (if curenv s = Some e then kstack_tf s else env_tf (envs s e))"
    "entryhi_asid s' = env_asid (envs s e)" "count s' = count s" "kstack_tf s' = kstack_tf s"
    "pm s' = pm s" "env_sched_list s' = env_sched_list s"
    "\<And>c. curenv s = Some c \<Longrightarrow> env_tf (envs s' c) = kstack_tf s"
    "\<And>e'. same_env (envs s' e') (envs s e')" "\<And>e'. env_pri (envs s' e') = env_pri (envs s e')"
proof -
  have st: "e < NENV" "env_status (envs s e) = ENV_RUNNABLE" "e \<in> alive s"
    using e k_invD(5) [OF inv, of e] by (auto simp: alive_def)
  define s1 where "s1 = (case curenv s of
      Some c \<Rightarrow> upd_env c (\<lambda>x. x\<lparr>env_tf := kstack_tf s\<rparr>) s | None \<Rightarrow> s)"
  define s' where "s' = env_pop_tf (env_tf (envs s1 e)) (env_asid (envs s1 e))
     ((upd_env e (\<lambda>x. x\<lparr>env_runs := env_runs x + 1\<rparr>) (s1\<lparr>curenv := Some e\<rparr>))
        \<lparr>cur_pgdir := env_pgdir (envs s1 e)\<rparr>)"
  have run: "env_run e s = Some s'"
    using st by (simp add: env_run_def s'_def s1_def Let_def upd_env_def cong: option.case_cong)
  have s1: "envs s1 e' = (if curenv s = Some e' then (envs s e')\<lparr>env_tf := kstack_tf s\<rparr> else envs s e')"
    "pm s1 = pm s" "asid_bitmap s1 = asid_bitmap s" "env_free_list s1 = env_free_list s"
    "env_sched_list s1 = env_sched_list s" "count s1 = count s" "kstack_tf s1 = kstack_tf s" for e'
    by (auto simp: s1_def upd_env_def split: option.split)
  have en: "envs s' e' = (if e' = e then (envs s1 e)\<lparr>env_runs := env_runs (envs s1 e) + 1\<rparr> else envs s1 e')" for e'
    by (simp add: s'_def env_pop_tf_def upd_env_def)
  have same: "same_env (envs s' e') (envs s e')" for e'
    by (simp add: en s1(1) same_env_def)
  have "k_inv s' fl sl H xs"
  proof (rule k_inv_cong [OF inv _ _ _ same])
    show "is_TAILQ (env_sched_list s') sl"
      using k_invD(4) [OF inv] s1 by (simp add: s'_def env_pop_tf_def)
    fix c assume "curenv s' = Some c"
    then have "c = e" by (simp add: s'_def env_pop_tf_def upd_env_def)
    then show "c \<in> alive s \<and> cur_pgdir s' = env_pgdir (envs s c)"
      using st s1(1) by (simp add: s'_def env_pop_tf_def)
  qed (simp_all add: s'_def env_pop_tf_def s1)
  then show thesis
    by (rule that [OF run]) (use same in \<open>auto simp: s'_def env_pop_tf_def s1 upd_env_def\<close>)
qed

text \<open>The scheduler keeps the current environment while it has slices left, and otherwise
  rotates the queue and takes its head.\<close>

lemma schedule_keep:
  assumes inv: "k_inv s fl sl H xs" and c: "curenv s = Some c" "c \<in> set sl" and n: "\<not> count s \<le>s 0"
  shows "schedule False s = env_run c (s\<lparr>count := count s - 1\<rparr>)"
  using c n k_invD(5) [OF inv, of c] by (simp add: schedule_def)

lemma schedule_pick:
  assumes inv: "k_inv s fl sl H xs" and c: "\<And>c. curenv s = Some c \<Longrightarrow> c \<in> set sl"
    and pick: "yield \<or> count s \<le>s 0 \<or> curenv s = None"
    and sl': "sl' = (case curenv s of None \<Rightarrow> sl | Some c \<Rightarrow> remove1 c sl @ [c])"
  obtains q where "is_TAILQ q sl'" "set sl' = set sl" "schedule yield s = (case sl' of [] \<Rightarrow> None
     | e # _ \<Rightarrow> env_run e (s\<lparr>env_sched_list := q, count := env_pri (envs s e) - 1\<rparr>))"
proof -
  have tq: "is_TAILQ (env_sched_list s) sl" by (rule k_invD(4) [OF inv])
  obtain q where q: "(case curenv s of None \<Rightarrow> Some (env_sched_list s)
      | Some e \<Rightarrow> do { q \<leftarrow> TAILQ_REMOVE e (env_sched_list s);
                  if env_status (envs s e) = ENV_RUNNABLE then TAILQ_INSERT_TAIL e q else Some q }) = Some q"
    "is_TAILQ q sl'"
  proof (cases "curenv s")
    case None
    with tq sl' show thesis by (intro that) simp_all
  next
    case (Some e)
    then have e: "e \<in> set sl" "env_status (envs s e) = ENV_RUNNABLE"
      using c k_invD(5) [OF inv, of e] by auto
    then show thesis
      using tq.to_tail [OF tq e(1)] Some sl' by (auto intro!: that)
  qed
  have "set sl' = set sl"
  proof (cases "curenv s")
    case (Some e)
    with sl' c is_TAILQ_distinct [OF tq] show ?thesis by auto
  qed (simp add: sl')
  moreover have "schedule yield s = (case sl' of [] \<Rightarrow> None
     | e # _ \<Rightarrow> env_run e (s\<lparr>env_sched_list := q, count := env_pri (envs s e) - 1\<rparr>))"
  proof -
    have p: "(yield \<or> count s \<le>s 0 \<or>
           (case curenv s of None \<Rightarrow> True | Some e \<Rightarrow> env_status (envs s e) \<noteq> ENV_RUNNABLE))"
      using pick by auto
    show ?thesis
      unfolding schedule_def Let_def if_P [OF p] q(1)
      using TAILQ_EMPTY_seq [OF q(2)] TAILQ_FIRST_seq [OF q(2)]
      by (cases sl') simp_all
  qed
  ultimately show thesis using q(2) that by blast
qed

lemma schedule_ok:
  assumes inv: "k_inv s fl sl H xs" and c: "\<And>c. curenv s = Some c \<Longrightarrow> c \<in> set sl" and ne: "sl \<noteq> []"
    and pick: "yield \<or> count s \<le>s 0 \<or> curenv s = None"
    and sl': "sl' = (case curenv s of None \<Rightarrow> sl | Some c \<Rightarrow> remove1 c sl @ [c])"
  obtains s' where "schedule yield s = Some s'" "k_inv s' fl sl' H xs" "curenv s' = Some (hd sl')"
    "pm s' = pm s" "count s' = env_pri (envs s (hd sl')) - 1" "kstack_tf s' = kstack_tf s"
    "\<And>e. same_env (envs s' e) (envs s e)" "\<And>e. env_pri (envs s' e) = env_pri (envs s e)"
    "\<And>c. curenv s = Some c \<Longrightarrow> env_tf (envs s' c) = kstack_tf s"
proof -
  obtain q where q: "is_TAILQ q sl'" "set sl' = set sl" "schedule yield s = (case sl' of [] \<Rightarrow> None
     | e # _ \<Rightarrow> env_run e (s\<lparr>env_sched_list := q, count := env_pri (envs s e) - 1\<rparr>))"
    by (rule schedule_pick [OF inv c pick sl'])
  have ne': "sl' \<noteq> []" using q(2) ne by auto
  define s2 where "s2 = s\<lparr>env_sched_list := q, count := env_pri (envs s (hd sl')) - 1\<rparr>"
  have s2: "envs s2 = envs s" "pm s2 = pm s" "curenv s2 = curenv s" "kstack_tf s2 = kstack_tf s"
    "count s2 = env_pri (envs s (hd sl')) - 1"
    by (simp_all add: s2_def)
  have inv': "k_inv s2 fl sl' H xs"
    by (rule k_inv_cong [OF inv]) (use q k_invD(6,7) [OF inv] in \<open>auto simp: s2_def\<close>)
  have run: "schedule yield s = env_run (hd sl') s2"
    using q(3) ne' by (cases sl') (simp_all add: s2_def)
  show thesis
    by (rule env_run_ok [OF inv' hd_in_set [OF ne']], rule that) (simp_all add: run s2)
qed

section \<open>A small machine\<close>

text \<open>Concrete states for the instances of the theorems: page directories \<open>ds\<close> and free pages
  \<open>xs\<close> over cleared memory; two environments, the first one running.\<close>

definition list_of :: "nat list \<Rightarrow> list_links" where
  "list_of xs = foldr LIST_INSERT_HEAD xs
     (LIST_INIT \<lparr>lh_first = None, le_next = (\<lambda>_. None), le_prev = (\<lambda>_. NullSlot)\<rparr>)"

definition tailq_of :: "nat list \<Rightarrow> tailq_links" where
  "tailq_of xs = foldr TAILQ_INSERT_HEAD xs
     (TAILQ_INIT \<lparr>tqh_first = None, tqh_last = NullSlot, tqe_next = (\<lambda>_. None), tqe_prev = (\<lambda>_. NullSlot)\<rparr>)"

lemma is_LIST_list_of: "distinct xs \<Longrightarrow> is_LIST (list_of xs) xs"
  by (induction xs) (auto simp: list_of_def LIST_INIT_seq intro: LIST_INSERT_HEAD_seq)

lemma is_TAILQ_tailq_of: "distinct xs \<Longrightarrow> is_TAILQ (tailq_of xs) xs"
  by (induction xs) (auto simp: tailq_of_def TAILQ_INIT_seq intro: TAILQ_INSERT_HEAD_seq)

definition flat_pmap :: "nat \<Rightarrow> nat list \<Rightarrow> nat list \<Rightarrow> pmap" where
  "flat_pmap n ds xs = \<lparr>memsize = of_nat n * PAGE_SIZE, npage = n, freemem = ULIM, pages = ULIM,
     pp_ref = (\<lambda>p. if p \<in> set ds then 1 else 0), page_free_list = list_of xs,
     frame = (\<lambda>_ _. 0), tlb = []\<rparr>"

lemma flat_pmap_inv:
  assumes "n \<le> 2 ^ 20" "distinct xs" "set xs \<inter> set ds = {}" "set xs \<union> set ds \<subseteq> {..<n}"
  shows "pm_inv (flat_pmap n ds xs) (set ds) (\<lambda>_. 0) xs"
proof -
  let ?s = "flat_pmap n ds xs"
  have fr: "frame ?s = (\<lambda>_ _. 0)" and pr: "pp_ref ?s p = (if p \<in> set ds then 1 else 0)"
    and np: "npage ?s = n" and fl: "page_free_list ?s = list_of xs" for p
    by (simp_all add: flat_pmap_def)
  have tgt: "target ?s (set ds) x = Some p \<longleftrightarrow> x = Root p \<and> p \<in> set ds" for x p
    by (cases x) (auto simp: fr)
  have "refs ?s (set ds) p = (if p \<in> set ds then {Root p} else {})" for p
    by (auto simp: refs_def tgt)
  then show ?thesis
    using assms is_LIST_list_of [OF assms(2)]
    by (auto simp: pm_inv_def pr np fl tgt simp del: target.simps)
qed

definition blank_tf :: trapframe where
  "blank_tf = \<lparr>regs = (\<lambda>_. 0), cp0_status = 0, hi = 0, lo = 0, cp0_badvaddr = 0, cp0_cause = 0, cp0_epc = 0\<rparr>"

definition blank_env :: env where
  "blank_env = \<lparr>env_tf = blank_tf, env_id = 0, env_asid = 0, env_parent_id = 0, env_status = ENV_FREE,
     env_pgdir = 0, env_pri = 1, env_ipc_value = 0, env_ipc_from = 0, env_ipc_recving = 0,
     env_ipc_dstva = 0, env_ipc_perm = 0, env_user_tlb_mod_entry = 0, env_runs = 0\<rparr>"

definition small_env :: "u32 \<Rightarrow> nat \<Rightarrow> env" where
  "small_env st e =
    (if e = 0 then blank_env\<lparr>env_id := 0x800, env_asid := 0, env_status := ENV_RUNNABLE, env_pgdir := 1\<rparr>
     else if e = 1 then blank_env\<lparr>env_id := 0x1001, env_asid := 1, env_parent_id := 0x800,
       env_status := st, env_pgdir := 2,
       env_ipc_recving := (if st = ENV_NOT_RUNNABLE then 1 else 0), env_ipc_dstva := UTEXT\<rparr>
     else blank_env)"

definition free_envs :: "nat list" where
  "free_envs = [2..<NENV]"

lemma free_envs_simps [simp]: "distinct free_envs" "e \<in> set free_envs \<longleftrightarrow> 2 \<le> e \<and> e < NENV"
  by (simp_all add: free_envs_def del: upt_Suc upt_rec_numeral)

lemma free_envs_Cons: "free_envs = 2 # [3..<NENV]"
  unfolding free_envs_def by (subst upt_conv_Cons) (simp_all del: upt_Suc upt_rec_numeral)

definition small_kstate :: "u32 \<Rightarrow> kstate" where
  "small_kstate st = \<lparr>pm = flat_pmap 16 [1, 2] [3, 4, 5, 6, 7, 8],
     envs = small_env st, curenv = Some 0, env_free_list = list_of free_envs,
     env_sched_list = tailq_of (if st = ENV_RUNNABLE then [0, 1] else [0]),
     base_pgdir = 9, asid_bitmap = (\<lambda>_. 0)(0 := 3), mkenvid_i = 2, count = 1, cur_pgdir = 1,
     kstack_tf = blank_tf, cpu = blank_tf, entryhi_asid = 0, job_num = 0,
     jobs = (\<lambda>_. \<lparr>job_id = 0, flag = 0, job_env_id = 0, command = []\<rparr>), io_trace = []\<rparr>"

lemma small_kstate_simps [simp]:
  "pm (small_kstate st) = flat_pmap 16 [1, 2] [3, 4, 5, 6, 7, 8]"
  "envs (small_kstate st) = small_env st" "curenv (small_kstate st) = Some 0"
  "env_free_list (small_kstate st) = list_of free_envs"
  "env_sched_list (small_kstate st) = tailq_of (if st = ENV_RUNNABLE then [0, 1] else [0])"
  "asid_bitmap (small_kstate st) = (\<lambda>_. 0)(0 := 3)" "cur_pgdir (small_kstate st) = 1"
  "count (small_kstate st) = 1" "kstack_tf (small_kstate st) = blank_tf"
  by (simp_all add: small_kstate_def)

lemma small_env_simps [simp]:
  "env_pgdir (small_env st 0) = 1" "env_pgdir (small_env st (Suc 0)) = 2"
  "env_asid (small_env st 0) = 0" "env_asid (small_env st (Suc 0)) = 1"
  "env_id (small_env st 0) = 0x800" "env_id (small_env st (Suc 0)) = 0x1001"
  "env_parent_id (small_env st (Suc 0)) = 0x800"
  "env_status (small_env st 0) = ENV_RUNNABLE" "env_status (small_env st (Suc 0)) = st"
  "2 \<le> e \<Longrightarrow> env_status (small_env st e) = ENV_FREE"
  "env_ipc_recving (small_env st (Suc 0)) = (if st = ENV_NOT_RUNNABLE then 1 else 0)"
  "env_ipc_dstva (small_env st (Suc 0)) = UTEXT" "env_pri (small_env st e) = 1"
  by (simp_all add: small_env_def blank_env_def)

lemma env_cases: "e = 0 \<or> e = Suc 0 \<or> 2 \<le> e" for e :: nat
  by auto

lemma small_kstate_alive: "st \<noteq> ENV_FREE \<Longrightarrow> alive (small_kstate st) = {0, 1}"
proof (rule set_eqI)
  fix e assume "st \<noteq> ENV_FREE"
  then show "e \<in> alive (small_kstate st) \<longleftrightarrow> e \<in> {0, 1}"
    using env_cases [of e] by (elim disjE) (simp_all add: alive_def)
qed

lemma small_kstate_asids: "asid_used ((\<lambda>_. 0)(0 := 3)) i \<longleftrightarrow> i = 0 \<or> i = 1"
proof -
  have "(3::u32) = mask 2" by (simp add: mask_eq_exp_minus_1)
  then have b: "bit (3::u32) k \<longleftrightarrow> k < 2" for k
    by (simp only: bit_mask_iff) (auto simp: possible_bit_word)
  show ?thesis
  proof (cases "i < 32")
    case True
    then have d: "i div 32 = 0" "i mod 32 = i" by simp_all
    show ?thesis unfolding asid_used_bit d fun_upd_same b by auto
  next
    case False
    then have "i div 32 \<noteq> 0" by simp
    with False show ?thesis unfolding asid_used_bit by simp
  qed
qed

lemma small_kstate_inv:
  assumes "st = ENV_RUNNABLE \<or> st = ENV_NOT_RUNNABLE"
  shows "k_inv (small_kstate st) free_envs (if st = ENV_RUNNABLE then [0, 1] else [0]) (\<lambda>_. 0) [3, 4, 5, 6, 7, 8]"
proof -
  let ?s = "small_kstate st"
  have al: "alive ?s = {0, 1}"
    using assms small_kstate_alive by auto
  have "pm_inv (pm ?s) ((\<lambda>e. env_pgdir (envs ?s e)) ` alive ?s) (\<lambda>_. 0) [3, 4, 5, 6, 7, 8]"
    using flat_pmap_inv [of 16 "[3, 4, 5, 6, 7, 8]" "[1, 2]"] by (simp add: al)
  then have core: "env_core ?s (alive ?s) (\<lambda>_. 0) [3, 4, 5, 6, 7, 8]"
    unfolding env_core_def using small_kstate_asids by (auto simp: al ENVX_def)
  have "e \<in> set (if st = ENV_RUNNABLE then [0, 1] else [0]) \<longleftrightarrow> e < NENV \<and> env_status (envs ?s e) = ENV_RUNNABLE" for e
    using env_cases [of e] assms by auto
  moreover have "2 \<le> e \<and> e < NENV \<longleftrightarrow> e < NENV \<and> env_status (envs ?s e) = ENV_FREE" for e
    using env_cases [of e] assms by auto
  moreover have "env_status (envs ?s e) \<in> {ENV_FREE, ENV_RUNNABLE, ENV_NOT_RUNNABLE}" for e
    using env_cases [of e] assms by auto
  ultimately show ?thesis
    using core is_LIST_list_of [of free_envs] is_TAILQ_tailq_of [of "[0, 1]"] is_TAILQ_tailq_of [of "[0]"]
    unfolding k_inv_def by (auto simp: al)
qed

end
