(* ===== verification/MOS_Trap.thy ===== *)
theory MOS_Trap
  imports MOS_EnvInv
begin

text \<open>
  TLB refill on demand and the TLB Mod exception: \<^verbatim>\<open>kern/tlbex.c\<close>, \<^verbatim>\<open>kern/traps.c\<close>, and the
  accesses the kernel makes to user memory through the current address space.

  An access of the kernel to a user address is translated by the page table of
  \<^verbatim>\<open>cur_pgdir\<close>, and a page that is missing is allocated by the refill handler, as for an
  access of the user. \<open>None\<close> stands for what stops the handler: an unaligned address, an
  address the refill handler panics on, a store to a page without \<open>PTE_D\<close> (which would start
  the TLB Mod handler inside the kernel), and an address from \<open>UTOP\<close> on, where the arrays
  \<^verbatim>\<open>pages\<close> and \<^verbatim>\<open>envs\<close> are mapped, whose bytes are not represented.
\<close>

section \<open>Refill (kern/tlbex.c)\<close>

definition passive_alloc :: "u32 \<Rightarrow> nat \<Rightarrow> u32 \<Rightarrow> pmap \<Rightarrow> pmap option" where
  "passive_alloc va pgdir asid m =
    (if va < UTEMP then None
     else if USTACKTOP \<le> va \<and> va < USTACKTOP + PAGE_SIZE then None
     else if UENVS \<le> va \<and> va < UPAGES then None
     else if UPAGES \<le> va \<and> va < UVPT then None
     else if ULIM \<le> va then None
     else do {
       (r, m) \<leftarrow> page_alloc m;
       case r of
         Inl _ \<Rightarrow> None
       | Inr p \<Rightarrow> do {
           (r, m) \<leftarrow> page_insert pgdir asid p (PTE_ADDR va)
             (if UVPT \<le> va \<and> va < ULIM then 0 else PTE_D) m;
           if r \<noteq> 0 then None else Some m
         }
     })"

text \<open>The loop of \<^verbatim>\<open>_do_tlb_refill\<close>: look up, allocate, look up again.\<close>

partial_function (option) refill_loop :: "u32 \<Rightarrow> u32 \<Rightarrow> nat \<Rightarrow> pmap \<Rightarrow> (pte_ptr \<times> pmap) option" where
  "refill_loop va asid pgdir m = do {
     r \<leftarrow> page_lookup pgdir va m;
     case r of
       Some (_, ppte) \<Rightarrow> Some (ppte, m)
     | None \<Rightarrow> do { m \<leftarrow> passive_alloc va pgdir asid m; refill_loop va asid pgdir m }
   }"

declare refill_loop.simps [code]

definition do_tlb_refill :: "u32 \<Rightarrow> u32 \<Rightarrow> kstate \<Rightarrow> ((u32 \<times> u32) \<times> kstate) option" where
  "do_tlb_refill va asid s = do {
     let m = tlb_invalidate asid va (pm s);
     (ppte, m) \<leftarrow> refill_loop va asid (cur_pgdir s) m;
     let i = snd ppte div 2 * 2;
     Some ((drop_bit 6 (frame m (fst ppte) i), drop_bit 6 (frame m (fst ppte) (i + 1))), s\<lparr>pm := m\<rparr>)
   }"

section \<open>User memory\<close>

definition user_page :: "u32 \<Rightarrow> kstate \<Rightarrow> (u32 \<times> kstate) option" where
  "user_page va s =
    (if UTOP \<le> va then None
     else do {
       (ppte, m) \<leftarrow> refill_loop va (entryhi_asid s) (cur_pgdir s) (pm s);
       Some (pte_at m ppte, s\<lparr>pm := m\<rparr>)
     })"

definition user_load8 :: "u32 \<Rightarrow> kstate \<Rightarrow> (u8 \<times> kstate) option" where
  "user_load8 va s = do {
     (pte, s) \<leftarrow> user_page va s;
     Some (phys_read8 (PPN pte * 4096 + unat (va mod PAGE_SIZE)) (pm s), s)
   }"

definition user_store8 :: "u32 \<Rightarrow> u8 \<Rightarrow> kstate \<Rightarrow> kstate option" where
  "user_store8 va b s = do {
     (pte, s) \<leftarrow> user_page va s;
     if pte AND PTE_D = 0 then None
     else Some (s\<lparr>pm := phys_write8 (PPN pte * 4096 + unat (va mod PAGE_SIZE)) b (pm s)\<rparr>)
   }"

text \<open>Aligned accesses of 1, 2 or 4 bytes, little endian.\<close>

fun user_load :: "nat \<Rightarrow> u32 \<Rightarrow> kstate \<Rightarrow> (u32 \<times> kstate) option" where
  "user_load 0 va s = Some (0, s)"
| "user_load (Suc n) va s = do {
     (b, s) \<leftarrow> user_load8 va s;
     (w, s) \<leftarrow> user_load n (va + 1) s;
     Some (ucast b OR push_bit 8 w, s)
   }"

fun user_store :: "nat \<Rightarrow> u32 \<Rightarrow> u32 \<Rightarrow> kstate \<Rightarrow> kstate option" where
  "user_store 0 va w s = Some s"
| "user_store (Suc n) va w s = do {
     s \<leftarrow> user_store8 va (ucast w) s;
     user_store n (va + 1) (drop_bit 8 w) s
   }"

definition load_aligned :: "nat \<Rightarrow> u32 \<Rightarrow> kstate \<Rightarrow> (u32 \<times> kstate) option" where
  "load_aligned n va s = (if unat va mod n \<noteq> 0 then None else user_load n va s)"

definition store_aligned :: "nat \<Rightarrow> u32 \<Rightarrow> u32 \<Rightarrow> kstate \<Rightarrow> kstate option" where
  "store_aligned n va w s = (if unat va mod n \<noteq> 0 then None else user_store n va w s)"

text \<open>A trapframe is 38 words: the registers and then the special registers in the order of
  \<^verbatim>\<open>struct Trapframe\<close>.\<close>

definition tf_words :: "trapframe \<Rightarrow> u32 list" where
  "tf_words tf = map (regs tf) [0..<32] @
     [cp0_status tf, hi tf, lo tf, cp0_badvaddr tf, cp0_cause tf, cp0_epc tf]"

definition words_tf :: "u32 list \<Rightarrow> trapframe" where
  "words_tf ws = \<lparr>regs = (\<lambda>i. if i < 32 then ws ! i else 0), cp0_status = ws ! 32, hi = ws ! 33,
     lo = ws ! 34, cp0_badvaddr = ws ! 35, cp0_cause = ws ! 36, cp0_epc = ws ! 37\<rparr>"

abbreviation sizeof_Trapframe :: u32 where "sizeof_Trapframe \<equiv> 152"

fun load_words :: "nat \<Rightarrow> u32 \<Rightarrow> kstate \<Rightarrow> (u32 list \<times> kstate) option" where
  "load_words 0 va s = Some ([], s)"
| "load_words (Suc n) va s = do {
     (w, s) \<leftarrow> load_aligned 4 va s;
     (ws, s) \<leftarrow> load_words n (va + 4) s;
     Some (w # ws, s)
   }"

fun store_words :: "u32 list \<Rightarrow> u32 \<Rightarrow> kstate \<Rightarrow> kstate option" where
  "store_words [] va s = Some s"
| "store_words (w # ws) va s = do {
     s \<leftarrow> store_aligned 4 va w s;
     store_words ws (va + 4) s
   }"

definition load_tf :: "u32 \<Rightarrow> kstate \<Rightarrow> (trapframe \<times> kstate) option" where
  "load_tf va s = do { (ws, s) \<leftarrow> load_words 38 va s; Some (words_tf ws, s) }"

definition store_tf :: "u32 \<Rightarrow> trapframe \<Rightarrow> kstate \<Rightarrow> kstate option" where
  "store_tf va tf s = store_words (tf_words tf) va s"

section \<open>TLB Mod (kern/tlbex.c)\<close>

abbreviation set_reg :: "nat \<Rightarrow> u32 \<Rightarrow> trapframe \<Rightarrow> trapframe" where
  "set_reg i v tf \<equiv> tf\<lparr>regs := (regs tf)(i := v)\<rparr>"

definition do_tlb_mod :: "kstate \<Rightarrow> kstate option" where
  "do_tlb_mod s = do {
     let tmp_tf = kstack_tf s;
     let tf = kstack_tf s;
     let tf = (if regs tf 29 < USTACKTOP \<or> UXSTACKTOP \<le> regs tf 29 then set_reg 29 UXSTACKTOP tf else tf);
     let tf = set_reg 29 (regs tf 29 - sizeof_Trapframe) tf;
     s \<leftarrow> store_tf (regs tf 29) tmp_tf s;
     r \<leftarrow> page_lookup (cur_pgdir s) (cp0_badvaddr tf) (pm s);
     c \<leftarrow> curenv s;
     if env_user_tlb_mod_entry (envs s c) \<noteq> 0 then
       (let tf = set_reg 4 (regs tf 29) tf;
            tf = set_reg 29 (regs tf 29 - 4) tf;
            tf = tf\<lparr>cp0_epc := env_user_tlb_mod_entry (envs s c)\<rparr>
        in Some (s\<lparr>kstack_tf := tf\<rparr>))
     else None
   }"

section \<open>Exception codes (kern/traps.c)\<close>

datatype handler = Handle_int | Handle_mod | Handle_tlb | Handle_sys | Handle_reserved

definition exception_handlers :: "nat \<Rightarrow> handler" where
  "exception_handlers i =
    (if i = 0 then Handle_int else if i = 2 \<or> i = 3 then Handle_tlb
     else if i = 1 then Handle_mod else if i = 8 then Handle_sys else Handle_reserved)"

text \<open>\<^verbatim>\<open>do_reserved\<close> prints the context and panics.\<close>

definition do_reserved :: "kstate \<Rightarrow> kstate option" where
  "do_reserved s = None"

end
