(* ===== verification/MOS_Syscall.thy ===== *)
theory MOS_Syscall
  imports MOS_Trap
begin

text \<open>
  The system calls: \<^verbatim>\<open>kern/syscall_all.c\<close>, \<^verbatim>\<open>include/io.h\<close>, \<^verbatim>\<open>kern/machine.c\<close>.

  A handler takes the kernel state to an \<open>outcome\<close>: \<open>Ret r\<close> is the value \<^verbatim>\<open>do_syscall\<close> puts
  into \<^verbatim>\<open>$v0\<close>, \<open>Switch\<close> says that another context was resumed and the call never returns to
  its caller. The value a \<^verbatim>\<open>void\<close> handler leaves in \<^verbatim>\<open>$v0\<close> is the parameter \<open>junk\<close>. The devices
  are the parameter \<open>dev\<close>: the value of a register as a function of all accesses so far.
  The text of \<^verbatim>\<open>printk\<close> messages is not modelled.
\<close>

type_synonym device = "io_event list \<Rightarrow> u32 \<Rightarrow> nat \<Rightarrow> u32"

definition err :: "int \<Rightarrow> u32" where
  "err e = of_int (- e)"

definition ret :: "u32 \<Rightarrow> kstate \<Rightarrow> u32 kres" where
  "ret r s = Some (Ret r, s)"

text \<open>The macro \<^verbatim>\<open>try(envid2env(...))\<close>: the error code is returned, otherwise the handler goes
  on with the environment; it reads through the pointer, so a null one stops the kernel.\<close>

definition try_env :: "u32 \<Rightarrow> bool \<Rightarrow> kstate \<Rightarrow> (nat \<Rightarrow> u32 kres) \<Rightarrow> u32 kres" where
  "try_env envid checkperm s k = do {
     r \<leftarrow> envid2env envid checkperm s;
     case r of
       Inl e \<Rightarrow> ret (of_int e) s
     | Inr None \<Rightarrow> None
     | Inr (Some e) \<Rightarrow> k e
   }"

text \<open>Passing on the \<open>int\<close> a routine returns.\<close>

definition ret_int :: "(int \<times> kstate) option \<Rightarrow> u32 kres" where
  "ret_int x = do { (r, s) \<leftarrow> x; ret (of_int r) s }"

section \<open>Console (kern/machine.c)\<close>

definition printcharc :: "u8 \<Rightarrow> kstate \<Rightarrow> kstate" where
  "printcharc ch s = s\<lparr>io_trace := io_trace s @ (if ch = 10 then [ConsOut 13] else []) @ [ConsOut ch]\<rparr>"

definition ioread :: "device \<Rightarrow> u32 \<Rightarrow> nat \<Rightarrow> kstate \<Rightarrow> u32 \<times> kstate" where
  "ioread dev pa n s =
    (let v = take_bit (8 * n) (dev (io_trace s) pa n)
     in (v, s\<lparr>io_trace := io_trace s @ [DevRead pa n v]\<rparr>))"

definition iowrite :: "u32 \<Rightarrow> nat \<Rightarrow> u32 \<Rightarrow> kstate \<Rightarrow> kstate" where
  "iowrite pa n v s = s\<lparr>io_trace := io_trace s @ [DevWrite pa n v]\<rparr>"

definition scancharc :: "device \<Rightarrow> kstate \<Rightarrow> u32 \<times> kstate" where
  "scancharc dev s =
    (let (lsr, s) = ioread dev 0x180003fd 1 s
     in if lsr AND 1 \<noteq> 0 then ioread dev 0x180003f8 1 s else (0, s))"

definition sys_putchar :: "u32 \<Rightarrow> u32 \<Rightarrow> kstate \<Rightarrow> u32 kres" where
  "sys_putchar junk c s = ret junk (printcharc (ucast c) s)"

definition sys_print_cons :: "u32 \<Rightarrow> u32 \<Rightarrow> kstate \<Rightarrow> u32 kres" where
  "sys_print_cons p num s =
    (if UTOP < p + num \<or> UTOP \<le> p \<or> p + num < p then ret (err E_INVAL) s
     else do {
       s \<leftarrow> foldM (\<lambda>i s. do {
         (b, s) \<leftarrow> user_load8 (p + of_nat i) s;
         Some (printcharc b s)
       }) [0..<unat num] s;
       ret 0 s
     })"

definition sys_cgetc :: "device \<Rightarrow> kstate \<Rightarrow> u32 kres" where
  "sys_cgetc dev s = (let (ch, s) = scancharc dev s in ret ch s)"

section \<open>Processes\<close>

definition sys_getenvid :: "kstate \<Rightarrow> u32 kres" where
  "sys_getenvid s = do { c \<leftarrow> curenv s; ret (env_id (envs s c)) s }"

definition sys_yield :: "kstate \<Rightarrow> u32 kres" where
  "sys_yield s = do { s \<leftarrow> schedule True s; Some (Switch, s) }"

definition sys_env_destroy :: "u32 \<Rightarrow> kstate \<Rightarrow> u32 kres" where
  "sys_env_destroy envid s = try_env envid True s (\<lambda>e. do {
     (o1, s) \<leftarrow> env_destroy e s;
     case o1 of Ret _ \<Rightarrow> ret 0 s | Switch \<Rightarrow> Some (Switch, s)
   })"

definition sys_set_tlb_mod_entry :: "u32 \<Rightarrow> u32 \<Rightarrow> kstate \<Rightarrow> u32 kres" where
  "sys_set_tlb_mod_entry envid func s = try_env envid True s (\<lambda>e.
     ret 0 (upd_env e (\<lambda>x. x\<lparr>env_user_tlb_mod_entry := func\<rparr>) s))"

definition sys_exofork :: "kstate \<Rightarrow> u32 kres" where
  "sys_exofork s = do {
     c \<leftarrow> curenv s;
     (r, s) \<leftarrow> env_alloc (env_id (envs s c)) s;
     case r of
       Inl e \<Rightarrow> ret (of_int e) s
     | Inr e \<Rightarrow>
         (let s = upd_env e (\<lambda>x. x\<lparr>env_tf := set_reg 2 0 (kstack_tf s)\<rparr>) s;
              s = upd_env e (\<lambda>x. x\<lparr>env_status := ENV_NOT_RUNNABLE, env_pri := env_pri (envs s c)\<rparr>) s
          in ret (env_id (envs s e)) s)
   }"

definition sys_set_env_status :: "u32 \<Rightarrow> u32 \<Rightarrow> kstate \<Rightarrow> u32 kres" where
  "sys_set_env_status envid status s =
    (if status \<noteq> ENV_RUNNABLE \<and> status \<noteq> ENV_NOT_RUNNABLE then ret (err E_INVAL) s
     else try_env envid True s (\<lambda>e. do {
       q \<leftarrow> (if env_status (envs s e) \<noteq> status then
               if status = ENV_RUNNABLE then TAILQ_INSERT_TAIL e (env_sched_list s)
               else TAILQ_REMOVE e (env_sched_list s)
             else Some (env_sched_list s));
       ret 0 (upd_env e (\<lambda>x. x\<lparr>env_status := status\<rparr>) (s\<lparr>env_sched_list := q\<rparr>))
     }))"

definition sys_get_env_parent_id :: "u32 \<Rightarrow> kstate \<Rightarrow> u32 kres" where
  "sys_get_env_parent_id envid s = try_env envid False s (\<lambda>e. ret (env_parent_id (envs s e)) s)"

definition sys_panic :: "u32 \<Rightarrow> kstate \<Rightarrow> u32 kres" where
  "sys_panic msg s = None"

section \<open>Memory\<close>

definition is_illegal_va :: "u32 \<Rightarrow> bool" where
  "is_illegal_va va \<longleftrightarrow> va < UTEMP \<or> UTOP \<le> va"

definition is_illegal_va_range :: "u32 \<Rightarrow> u32 \<Rightarrow> bool" where
  "is_illegal_va_range va len \<longleftrightarrow>
     (if len = 0 then False else va + len < va \<or> va < UTEMP \<or> UTOP < va + len)"

definition sys_mem_alloc :: "u32 \<Rightarrow> u32 \<Rightarrow> u32 \<Rightarrow> kstate \<Rightarrow> u32 kres" where
  "sys_mem_alloc envid va perm s =
    (if is_illegal_va va then ret (err E_INVAL) s
     else try_env envid True s (\<lambda>e. do {
       (r, s) \<leftarrow> with_pm page_alloc s;
       case r of
         Inl x \<Rightarrow> ret (of_int x) s
       | Inr pp \<Rightarrow>
           ret_int (with_pm (page_insert (env_pgdir (envs s e)) (env_asid (envs s e)) pp va perm) s)
     }))"

definition sys_mem_map :: "u32 \<Rightarrow> u32 \<Rightarrow> u32 \<Rightarrow> u32 \<Rightarrow> u32 \<Rightarrow> kstate \<Rightarrow> u32 kres" where
  "sys_mem_map srcid srcva dstid dstva perm s =
    (if is_illegal_va srcva \<or> is_illegal_va dstva then ret (err E_INVAL) s
     else try_env srcid True s (\<lambda>src. try_env dstid True s (\<lambda>dst. do {
       r \<leftarrow> page_lookup (env_pgdir (envs s src)) srcva (pm s);
       case r of
         None \<Rightarrow> ret (err E_INVAL) s
       | Some (pp, _) \<Rightarrow>
           ret_int (with_pm (page_insert (env_pgdir (envs s dst)) (env_asid (envs s dst)) pp dstva perm) s)
     })))"

definition sys_mem_unmap :: "u32 \<Rightarrow> u32 \<Rightarrow> kstate \<Rightarrow> u32 kres" where
  "sys_mem_unmap envid va s =
    (if is_illegal_va va then ret (err E_INVAL) s
     else try_env envid True s (\<lambda>e. do {
       s \<leftarrow> do_pm (page_remove (env_pgdir (envs s e)) (env_asid (envs s e)) va) s;
       ret 0 s
     }))"

definition sys_set_trapframe :: "u32 \<Rightarrow> u32 \<Rightarrow> kstate \<Rightarrow> u32 kres" where
  "sys_set_trapframe envid p s =
    (if is_illegal_va_range p sizeof_Trapframe then ret (err E_INVAL) s
     else try_env envid True s (\<lambda>e. do {
       (tf, s) \<leftarrow> load_tf p s;
       if Some e = curenv s then ret (regs tf 2) (s\<lparr>kstack_tf := tf\<rparr>)
       else ret 0 (upd_env e (\<lambda>x. x\<lparr>env_tf := tf\<rparr>) s)
     }))"

section \<open>IPC\<close>

definition sys_ipc_recv :: "u32 \<Rightarrow> kstate \<Rightarrow> u32 kres" where
  "sys_ipc_recv dstva s =
    (if dstva \<noteq> 0 \<and> is_illegal_va dstva then ret (err E_INVAL) s
     else do {
       c \<leftarrow> curenv s;
       let s = upd_env c (\<lambda>x. x\<lparr>env_ipc_recving := 1, env_ipc_dstva := dstva,
                 env_status := ENV_NOT_RUNNABLE\<rparr>) s;
       q \<leftarrow> TAILQ_REMOVE c (env_sched_list s);
       let s = s\<lparr>env_sched_list := q\<rparr>;
       let s = s\<lparr>kstack_tf := set_reg 2 0 (kstack_tf s)\<rparr>;
       s \<leftarrow> schedule True s;
       Some (Switch, s)
     })"

definition sys_ipc_try_send :: "u32 \<Rightarrow> u32 \<Rightarrow> u32 \<Rightarrow> u32 \<Rightarrow> kstate \<Rightarrow> u32 kres" where
  "sys_ipc_try_send envid value srcva perm s =
    (if srcva \<noteq> 0 \<and> is_illegal_va srcva then ret (err E_INVAL) s
     else try_env envid False s (\<lambda>e.
       if env_ipc_recving (envs s e) = 0 then ret (err E_IPC_NOT_RECV) s
       else do {
         c \<leftarrow> curenv s;
         let s = upd_env e (\<lambda>x. x\<lparr>env_ipc_value := value, env_ipc_from := env_id (envs s c),
                   env_ipc_perm := PTE_V OR perm, env_ipc_recving := 0, env_status := ENV_RUNNABLE\<rparr>) s;
         q \<leftarrow> TAILQ_INSERT_TAIL e (env_sched_list s);
         let s = s\<lparr>env_sched_list := q\<rparr>;
         if srcva \<noteq> 0 then do {
           r \<leftarrow> page_lookup (env_pgdir (envs s c)) srcva (pm s);
           case r of
             None \<Rightarrow> ret (err E_INVAL) s
           | Some (p, _) \<Rightarrow> ret_int (with_pm (page_insert (env_pgdir (envs s e)) (env_asid (envs s e)) p
                              (env_ipc_dstva (envs s e)) perm) s)
         } else ret 0 s
       }))"

section \<open>Devices\<close>

definition dev_ok :: "u32 \<Rightarrow> u32 \<Rightarrow> bool" where
  "dev_ok pa len \<longleftrightarrow> 0x180003f8 \<le> pa \<and> pa + len \<le> 0x180003f8 + 0x20 \<or>
     0x180001f0 \<le> pa \<and> pa + len \<le> 0x180001f0 + 0x8"

text \<open>The access goes to \<^verbatim>\<open>pa | KSEG1\<close>. An unaligned address faults, and one from \<open>0xC0000000\<close> on
  is mapped by the TLB, where the refill handler panics.\<close>

definition io_fault :: "u32 \<Rightarrow> nat \<Rightarrow> bool" where
  "io_fault pa n \<longleftrightarrow> unat pa mod n \<noteq> 0 \<or> 0xC0000000 \<le> pa OR 0xA0000000"

definition sys_write_dev :: "u32 \<Rightarrow> u32 \<Rightarrow> u32 \<Rightarrow> kstate \<Rightarrow> u32 kres" where
  "sys_write_dev va pa len s =
    (if \<not> (len = 1 \<or> len = 2 \<or> len = 4) then ret (err E_INVAL) s
     else if is_illegal_va_range va len then ret (err E_INVAL) s
     else if \<not> dev_ok pa len then ret (err E_INVAL) s
     else do {
       (v, s) \<leftarrow> load_aligned (unat len) va s;
       if io_fault pa (unat len) then None else ret 0 (iowrite pa (unat len) v s)
     })"

definition sys_read_dev :: "device \<Rightarrow> u32 \<Rightarrow> u32 \<Rightarrow> u32 \<Rightarrow> kstate \<Rightarrow> u32 kres" where
  "sys_read_dev dev va pa len s =
    (if \<not> (len = 1 \<or> len = 2 \<or> len = 4) then ret (err E_INVAL) s
     else if is_illegal_va_range va len then ret (err E_INVAL) s
     else if \<not> dev_ok pa len then ret (err E_INVAL) s
     else if io_fault pa (unat len) then None
     else do {
       let (v, s) = ioread dev pa (unat len) s;
       s \<leftarrow> store_aligned (unat len) va v s;
       ret 0 s
     })"

section \<open>Jobs\<close>

text \<open>\<^verbatim>\<open>strcpy(job->command, cmd)\<close>: \<open>command\<close> has room for 1025 bytes; a longer string is
  written past the entry, which stops the model.\<close>

fun load_str :: "nat \<Rightarrow> u32 \<Rightarrow> kstate \<Rightarrow> (u8 list \<times> kstate) option" where
  "load_str 0 p s = None"
| "load_str (Suc n) p s = do {
     (b, s) \<leftarrow> user_load8 p s;
     if b = 0 then Some ([], s)
     else do { (bs, s) \<leftarrow> load_str n (p + 1) s; Some (b # bs, s) }
   }"

abbreviation NJOBS :: nat where "NJOBS \<equiv> 1025"

definition sys_add_job :: "u32 \<Rightarrow> u32 \<Rightarrow> u32 \<Rightarrow> kstate \<Rightarrow> u32 kres" where
  "sys_add_job junk envid cmd s =
    (let i = unat (job_num s) in
     if NJOBS \<le> i then None
     else do {
       (c, s) \<leftarrow> load_str 1025 cmd (s\<lparr>job_num := job_num s + 1\<rparr>);
       ret junk (s\<lparr>jobs := (jobs s)(i := \<lparr>job_id = job_num s, flag = 0, job_env_id = envid, command = c\<rparr>)\<rparr>)
     })"

definition sys_print_jobs :: "u32 \<Rightarrow> kstate \<Rightarrow> u32 kres" where
  "sys_print_jobs junk s = ret junk s"

text \<open>The error of \<^verbatim>\<open>envid2env\<close> is ignored and the pointer it did not set is used.\<close>

definition destroy_unchecked :: "u32 \<Rightarrow> u32 \<Rightarrow> bool \<Rightarrow> kstate \<Rightarrow> u32 kres" where
  "destroy_unchecked junk envid checkperm s = do {
     r \<leftarrow> envid2env envid checkperm s;
     case r of
       Inr (Some e) \<Rightarrow> do {
         (o1, s) \<leftarrow> env_destroy e s;
         case o1 of Ret _ \<Rightarrow> ret junk s | Switch \<Rightarrow> Some (Switch, s)
       }
     | _ \<Rightarrow> None
   }"

definition sys_try_done_job_status :: "u32 \<Rightarrow> u32 \<Rightarrow> kstate \<Rightarrow> u32 kres" where
  "sys_try_done_job_status junk envid s = do {
     c \<leftarrow> curenv s;
     let s = s\<lparr>jobs := (\<lambda>i. if i < unat (job_num s) \<and> env_id (envs s c) = job_env_id (jobs s i) \<and>
                 flag (jobs s i) = 0 then (jobs s i)\<lparr>flag := 1\<rparr> else jobs s i)\<rparr>;
     destroy_unchecked junk envid True s
   }"

definition sys_kill_job :: "u32 \<Rightarrow> u32 \<Rightarrow> kstate \<Rightarrow> u32 kres" where
  "sys_kill_job junk i s =
    (if job_num s < i then ret junk s
     else if i = 0 then None
     else let k = unat i - 1; job = jobs s k in
       if flag job = 1 then ret junk s
       else destroy_unchecked junk (job_env_id job) False (s\<lparr>jobs := (jobs s)(k := job\<lparr>flag := 1\<rparr>)\<rparr>))"

definition sys_get_envid_by_job :: "u32 \<Rightarrow> kstate \<Rightarrow> u32 kres" where
  "sys_get_envid_by_job i s =
    (if job_num s < i then ret (- 1) s
     else if i = 0 then None
     else let job = jobs s (unat i - 1) in
       if flag job = 1 then ret (- 2) s else ret (job_env_id job) s)"

section \<open>Dispatch\<close>

abbreviation MAX_SYSNO :: nat where "MAX_SYSNO \<equiv> 24"

definition syscall_table ::
  "device \<Rightarrow> u32 \<Rightarrow> nat \<Rightarrow> u32 \<Rightarrow> u32 \<Rightarrow> u32 \<Rightarrow> u32 \<Rightarrow> u32 \<Rightarrow> kstate \<Rightarrow> u32 kres" where
  "syscall_table dev junk n a1 a2 a3 a4 a5 =
    (if n = 0 then sys_putchar junk a1
     else if n = 1 then sys_print_cons a1 a2
     else if n = 2 then sys_getenvid
     else if n = 3 then sys_yield
     else if n = 4 then sys_env_destroy a1
     else if n = 5 then sys_set_tlb_mod_entry a1 a2
     else if n = 6 then sys_mem_alloc a1 a2 a3
     else if n = 7 then sys_mem_map a1 a2 a3 a4 a5
     else if n = 8 then sys_mem_unmap a1 a2
     else if n = 9 then sys_exofork
     else if n = 10 then sys_set_env_status a1 a2
     else if n = 11 then sys_set_trapframe a1 a2
     else if n = 12 then sys_panic a1
     else if n = 13 then sys_ipc_try_send a1 a2 a3 a4
     else if n = 14 then sys_ipc_recv a1
     else if n = 15 then sys_cgetc dev
     else if n = 16 then sys_write_dev a1 a2 a3
     else if n = 17 then sys_read_dev dev a1 a2 a3
     else if n = 18 then sys_get_env_parent_id a1
     else if n = 19 then sys_add_job junk a1 a2
     else if n = 20 then sys_print_jobs junk
     else if n = 21 then sys_try_done_job_status junk a1
     else if n = 22 then sys_kill_job junk a1
     else sys_get_envid_by_job a1)"

text \<open>\<^verbatim>\<open>tf\<close> is the frame on the kernel stack; after a \<open>Switch\<close> control is in another context and
  the last assignment of \<^verbatim>\<open>do_syscall\<close> is not reached.\<close>

definition do_syscall :: "device \<Rightarrow> u32 \<Rightarrow> kstate \<Rightarrow> unit kres" where
  "do_syscall dev junk s =
    (let sysno = regs (kstack_tf s) 4 in
     if sysno <s 0 \<or> of_nat MAX_SYSNO \<le>s sysno
     then Some (Ret (), s\<lparr>kstack_tf := set_reg 2 (err E_NO_SYS) (kstack_tf s)\<rparr>)
     else do {
       let s = s\<lparr>kstack_tf := (kstack_tf s)\<lparr>cp0_epc := cp0_epc (kstack_tf s) + 4\<rparr>\<rparr>;
       let tf = kstack_tf s;
       (arg4, s) \<leftarrow> load_aligned 4 (regs tf 29 + 16) s;
       (arg5, s) \<leftarrow> load_aligned 4 (regs tf 29 + 20) s;
       (o1, s) \<leftarrow> syscall_table dev junk (unat sysno) (regs tf 5) (regs tf 6) (regs tf 7) arg4 arg5 s;
       case o1 of
         Ret r \<Rightarrow> Some (Ret (), s\<lparr>kstack_tf := set_reg 2 r (kstack_tf s)\<rparr>)
       | Switch \<Rightarrow> Some (Switch, s)
     })"

end
