(* ===== verification/MOS_EnvProps.thy ===== *)
theory MOS_EnvProps
  imports MOS_EnvInv
begin

text \<open>
  The properties of environments and of the scheduler.
\<close>

section \<open>Creating and destroying environments\<close>

text \<open>C19. \<^verbatim>\<open>env_alloc\<close>, with a free environment, a free page and a free ASID: it returns the
  first free environment with an empty address space of its own, an ASID nobody else has and
  an id that leads back to it, and the invariant of the allocated environments holds with it
  added; no other environment and no other address space changes.\<close>

theorem env_alloc_spec:
  assumes "env_core s A H (p # xs)" "is_LIST (env_free_list s) (e # fl)" "e \<notin> A" "e < NENV"
    and "i < NASID" "\<not> asid_used (asid_bitmap s) i"
  shows "\<exists>s'. env_alloc pid s = Some (Inr e, s') \<and> env_core s' (insert e A) H xs \<and>
    is_LIST (env_free_list s') fl \<and> env_parent_id (envs s' e) = pid \<and>
    aspace (pm s') (env_pgdir (envs s' e)) = Map.empty \<and>
    (\<forall>e'. e' \<noteq> e \<longrightarrow> envs s' e' = envs s e') \<and>
    (\<forall>e'\<in>A. aspace (pm s') (env_pgdir (envs s e')) = aspace (pm s) (env_pgdir (envs s e')))"
  by (rule env_alloc_ok [OF assms, where pid = pid]) blast

lemma small_kstate_core:
  assumes "st = ENV_RUNNABLE \<or> st = ENV_NOT_RUNNABLE"
  shows "env_core (small_kstate st) {0, 1} (\<lambda>_. 0) [3, 4, 5, 6, 7, 8]"
  using k_invD(1) [OF small_kstate_inv [OF assms]] small_kstate_alive [of st] assms by auto

theorem env_alloc_spec_witness:
  "\<exists>s'. env_alloc 0x800 (small_kstate ENV_RUNNABLE) = Some (Inr 2, s') \<and>
    env_core s' (insert 2 {0, 1}) (\<lambda>_. 0) [4, 5, 6, 7, 8] \<and>
    is_LIST (env_free_list s') [3..<NENV] \<and> env_parent_id (envs s' 2) = 0x800 \<and>
    aspace (pm s') (env_pgdir (envs s' 2)) = Map.empty \<and>
    (\<forall>e'. e' \<noteq> 2 \<longrightarrow> envs s' e' = envs (small_kstate ENV_RUNNABLE) e') \<and>
    (\<forall>e'\<in>{0, 1}. aspace (pm s') (env_pgdir (envs (small_kstate ENV_RUNNABLE) e')) =
       aspace (pm (small_kstate ENV_RUNNABLE)) (env_pgdir (envs (small_kstate ENV_RUNNABLE) e')))"
proof (rule env_alloc_spec [OF small_kstate_core, where i = 2])
  show "is_LIST (env_free_list (small_kstate ENV_RUNNABLE)) (2 # [3..<NENV])"
    using is_LIST_list_of [of free_envs] by (simp only: small_kstate_simps free_envs_simps free_envs_Cons [symmetric])
  show "\<not> asid_used (asid_bitmap (small_kstate ENV_RUNNABLE)) 2"
    by (simp only: small_kstate_simps small_kstate_asids) simp
qed simp_all

text \<open>When every ASID is in use \<^verbatim>\<open>env_alloc\<close> returns \<open>- E_NO_FREE_ENV\<close>, but the page it took
  for the directory is not given back: it is off the free list, its reference count is 1 and
  no environment refers to it.\<close>

theorem env_alloc_leaks_page:
  assumes "env_core s A H (p # xs)" "is_LIST (env_free_list s) (e # fl)" "e \<notin> A"
    and "\<And>i. i < NASID \<Longrightarrow> asid_used (asid_bitmap s) i"
  shows "\<exists>s'. env_alloc pid s = Some (Inl (- E_NO_FREE_ENV), s') \<and> env_core s' A (H(p := 1)) xs \<and>
    env_free_list s' = env_free_list s"
  by (rule env_alloc_no_asid [OF assms(1-3), where pid = pid]) (auto intro: assms(4))

text \<open>A machine with an environment for every ASID.\<close>

definition busy_env :: "nat \<Rightarrow> env" where
  "busy_env e = (if e < NASID
     then blank_env\<lparr>env_id := of_nat e, env_asid := of_nat e, env_status := ENV_RUNNABLE, env_pgdir := e\<rparr>
     else blank_env)"

definition busy_kstate :: kstate where
  "busy_kstate = (small_kstate ENV_RUNNABLE)\<lparr>pm := flat_pmap 512 [0..<NASID] [NASID],
     envs := busy_env, env_free_list := list_of [NASID..<NENV], asid_bitmap := (\<lambda>_. - 1)\<rparr>"

lemma busy_kstate_simps [simp]:
  "pm busy_kstate = flat_pmap 512 [0..<NASID] [NASID]" "envs busy_kstate = busy_env"
  "env_free_list busy_kstate = list_of [NASID..<NENV]" "asid_bitmap busy_kstate = (\<lambda>_. - 1)"
  by (simp_all add: busy_kstate_def)

lemma busy_env_simps [simp]:
  "e < NASID \<Longrightarrow> env_pgdir (busy_env e) = e" "e < NASID \<Longrightarrow> env_asid (busy_env e) = of_nat e"
  "e < NASID \<Longrightarrow> env_id (busy_env e) = of_nat e"
  by (simp_all add: busy_env_def)

lemma busy_asid: "i < NASID \<Longrightarrow> asid_used (asid_bitmap busy_kstate) i"
  by (simp add: asid_used_bit)

lemma unat_small: "unat (of_nat e :: u32) = e" if "e < NASID"
  using that by (simp add: unat_of_nat take_bit_eq_mod)

lemma busy_core: "env_core busy_kstate {..<NASID} (\<lambda>_. 0) [NASID]"
  unfolding env_core_def
proof (intro conjI ballI allI impI)
  have img: "(\<lambda>e. env_pgdir (envs busy_kstate e)) ` {..<NASID} = {..<NASID}"
    by (auto simp: image_iff)
  have "pm_inv (flat_pmap 512 [0..<NASID] [NASID]) (set [0..<NASID]) (\<lambda>_. 0) [NASID]"
    by (rule flat_pmap_inv) (auto simp del: upt_rec_numeral upt_Suc)
  then show "pm_inv (pm busy_kstate) ((\<lambda>e. env_pgdir (envs busy_kstate e)) ` {..<NASID}) (\<lambda>_. 0) [NASID]"
    unfolding img by (simp add: lessThan_atLeast0 del: upt_rec_numeral upt_Suc)
  show "inj_on (\<lambda>e. env_asid (envs busy_kstate e)) {..<NASID}"
    by (rule inj_onI) (metis busy_env_simps(2) busy_kstate_simps(2) lessThan_iff unat_small)
  show "ENVX (env_id (envs busy_kstate e)) = e" if "e \<in> {..<NASID}" for e
    using that ENVX_mkenvid [of e "small_kstate 1\<lparr>mkenvid_i := - 1\<rparr>"] by (simp add: mkenvid_def)
qed (auto simp: inj_on_def busy_asid unat_small simp del: busy_kstate_simps(4))

theorem env_alloc_leaks_page_witness:
  "\<exists>s'. env_alloc 0 busy_kstate = Some (Inl (- E_NO_FREE_ENV), s') \<and>
    env_core s' {..<NASID} ((\<lambda>_. 0)(NASID := 1)) [] \<and> env_free_list s' = env_free_list busy_kstate"
proof (rule env_alloc_leaks_page [OF busy_core])
  have "[NASID..<NENV] = NASID # [257..<NENV]"
    by (subst upt_conv_Cons) (simp_all del: upt_rec_numeral upt_Suc)
  then show "is_LIST (env_free_list busy_kstate) (NASID # [257..<NENV])"
    using is_LIST_list_of [of "[NASID..<NENV]"] by (simp del: upt_rec_numeral upt_Suc)
qed (simp_all add: busy_asid del: busy_kstate_simps(4))

text \<open>C18. Destroying a runnable environment: \<^verbatim>\<open>env_free\<close> returns; the page free list has grown
  by exactly the pages the environment held alone (\<open>held_by\<close>: its directory, its page tables and
  the pages that nothing else maps or holds), so no page leaks and none that is still in use is
  freed; the environment and its ASID are free again (the invariant holds for the remaining
  environments), it is off the run queue and on the list of free environments. The records, the
  mappings and the memory of every other environment are unchanged: only pages that have just
  become free are written.\<close>

theorem env_free_spec:
  assumes "k_inv s fl sl H xs" "e \<in> set sl"
  shows "\<exists>s' ys. env_free e s = Some s' \<and>
    k_inv (s'\<lparr>curenv := if curenv s = Some e then None else curenv s\<rparr>) (e # fl) (remove1 e sl) H ys \<and>
    set ys = set xs \<union> held_by (pm s) (pgdirs s) H (env_pgdir (envs s e)) \<and>
    (\<forall>e'. e' \<noteq> e \<longrightarrow> envs s' e' = envs s e') \<and>
    (\<forall>e'\<in>alive s - {e}. aspace (pm s') (env_pgdir (envs s e')) = aspace (pm s) (env_pgdir (envs s e'))) \<and>
    (\<forall>p. p \<notin> held_by (pm s) (pgdirs s) H (env_pgdir (envs s e)) \<longrightarrow> frame (pm s') p = frame (pm s) p)"
  by (rule env_free_ok [OF assms]) blast

lemma small_inv: "k_inv (small_kstate 1) free_envs [0, 1] (\<lambda>_. 0) [3, 4, 5, 6, 7, 8]"
  using small_kstate_inv [of 1] by simp

text \<open>In the small machine environment 1 holds its directory, page 2, and nothing else.\<close>

lemma small_held: "held_by (pm (small_kstate 1)) (pgdirs (small_kstate 1)) (\<lambda>_. 0) 2 = {2}"
proof -
  have dirs: "pgdirs (small_kstate 1) = {1, 2}"
    by (auto simp: pgdirs_def small_kstate_alive)
  have "target (pm (small_kstate 1)) {1, 2} x = Some p \<longleftrightarrow> x = Root p \<and> p \<in> {1, 2}" for x p
    by (cases x) (auto simp: flat_pmap_def)
  then have "refs (pm (small_kstate 1)) {1, 2} p = (if p \<in> {1, 2} then {Root p} else {})" for p
    by (auto simp: refs_def)
  then show ?thesis unfolding held_by_def dirs by (auto simp: flat_pmap_def)
qed

theorem env_free_spec_witness:
  "\<exists>s' ys. env_free 1 (small_kstate 1) = Some s' \<and>
    k_inv (s'\<lparr>curenv := if curenv (small_kstate 1) = Some 1 then None else curenv (small_kstate 1)\<rparr>)
      (1 # free_envs) (remove1 1 [0, 1]) (\<lambda>_. 0) ys \<and>
    set ys = {2, 3, 4, 5, 6, 7, 8} \<and>
    (\<forall>e'. e' \<noteq> 1 \<longrightarrow> envs s' e' = envs (small_kstate 1) e') \<and>
    (\<forall>e'\<in>alive (small_kstate 1) - {1}. aspace (pm s') (env_pgdir (envs (small_kstate 1) e')) =
       aspace (pm (small_kstate 1)) (env_pgdir (envs (small_kstate 1) e'))) \<and>
    (\<forall>p. p \<noteq> 2 \<longrightarrow> frame (pm s') p = frame (pm (small_kstate 1)) p)"
proof -
  have d: "env_pgdir (envs (small_kstate 1) 1) = 2" by simp
  have un: "set [3, 4, 5, 6, 7, 8] \<union> {2} = {2, 3, 4, 5, 6, 7, 8 :: nat}" by auto
  show ?thesis
    using env_free_spec [OF small_inv, of 1]
    unfolding d small_held un by (simp only: list.set insert_iff empty_iff simp_thms)
qed

text \<open>Destroying an environment that was never made runnable, such as the child of
  \<^verbatim>\<open>sys_exofork\<close> before its parent starts it: \<^verbatim>\<open>env_free\<close> removes it from the run queue
  unconditionally, and its queue links are still null, so the kernel writes through a null
  pointer.\<close>

theorem env_free_not_runnable_faults: "env_free 1 (small_kstate ENV_NOT_RUNNABLE) = None"
proof -
  let ?s = "small_kstate ENV_NOT_RUNNABLE"
  have inv: "k_inv ?s free_envs [0] (\<lambda>_. 0) [3, 4, 5, 6, 7, 8]"
    using small_kstate_inv [of ENV_NOT_RUNNABLE] by simp
  have "1 \<in> alive ?s" by (simp add: small_kstate_alive)
  then have "env_pgdir (envs ?s 1) \<in> (\<lambda>e. env_pgdir (envs ?s e)) ` alive ?s" by blast
  from env_free_mem_ok [OF env_coreD(3) [OF k_invD(1) [OF inv]] this] obtain m where
    "env_free 1 ?s = do {
       let s = (asid_free (env_asid (envs ?s 1)) ?s)\<lparr>pm := m\<rparr>;
       let s = upd_env 1 (\<lambda>x. x\<lparr>env_status := ENV_FREE\<rparr>) s;
       let s = s\<lparr>env_free_list := LIST_INSERT_HEAD 1 (env_free_list s)\<rparr>;
       q \<leftarrow> TAILQ_REMOVE 1 (env_sched_list s);
       Some (s\<lparr>env_sched_list := q\<rparr>) }"
    by metis
  moreover have "env_sched_list (asid_free a s) = env_sched_list s" for a s
    by (simp add: asid_free_def Let_def)
  moreover have "TAILQ_REMOVE 1 (tailq_of [0]) = None"
    by (simp add: tailq_of_def TAILQ_REMOVE_def TAILQ_INSERT_HEAD_def TAILQ_INIT_def)
  ultimately show ?thesis by simp
qed

section \<open>Scheduling\<close>

text \<open>The current environment is the head of the run queue whenever user code runs: that is
  where the scheduler takes it from.\<close>

definition running_head :: "kstate \<Rightarrow> nat list \<Rightarrow> bool" where
  "running_head s sl \<longleftrightarrow> sl \<noteq> [] \<and> curenv s = Some (hd sl)"

lemma yield_rotates:
  assumes inv: "k_inv s fl sl H xs" and run: "running_head s sl"
    and pick: "yield \<or> count s \<le>s 0"
  obtains s' where "schedule yield s = Some s'" "k_inv s' fl (rotate1 sl) H xs"
    "running_head s' (rotate1 sl)" "pm s' = pm s" "count s' = env_pri (envs s (hd (rotate1 sl))) - 1"
    "\<And>e. same_env (envs s' e) (envs s e)" "\<And>e. env_pri (envs s' e) = env_pri (envs s e)"
proof -
  obtain c ys where sl: "sl = c # ys" "curenv s = Some c"
    using run by (cases sl) (auto simp: running_head_def)
  have rot: "rotate1 sl = (case curenv s of None \<Rightarrow> sl | Some c \<Rightarrow> remove1 c sl @ [c])"
    using sl by simp
  have ne: "sl \<noteq> []" "rotate1 sl \<noteq> []" and c: "\<And>d. curenv s = Some d \<Longrightarrow> d \<in> set sl"
    and pick': "yield \<or> count s \<le>s 0 \<or> curenv s = None"
    using sl pick by auto
  show thesis
    by (rule schedule_ok [OF inv c ne(1) pick' rot], assumption, erule that) (simp_all add: running_head_def ne)
qed

text \<open>C5. Round robin: from a state in which the environments \<open>sl\<close> are runnable and the first of
  them runs, \<open>k\<close> calls of \<^verbatim>\<open>schedule(1)\<close> never panic and the environment running then is
  number \<open>k\<close> of the queue, counted cyclically. So every runnable environment runs once in
  every \<open>length sl\<close> yields, and the invariant holds throughout.\<close>

theorem schedule_round_robin:
  assumes "k_inv s fl sl H xs" "running_head s sl"
  shows "\<exists>s'. foldM (\<lambda>_. schedule True) (replicate k ()) s = Some s' \<and>
    k_inv s' fl (rotate k sl) H xs \<and> curenv s' = Some (sl ! (k mod length sl))"
proof -
  have "\<exists>s'. foldM (\<lambda>_. schedule True) (replicate k ()) s = Some s' \<and>
    k_inv s' fl (rotate k sl) H xs \<and> running_head s' (rotate k sl)"
    using assms
  proof (induction k)
    case (Suc k)
    then obtain s1 where s1: "foldM (\<lambda>_. schedule True) (replicate k ()) s = Some s1"
      "k_inv s1 fl (rotate k sl) H xs" "running_head s1 (rotate k sl)"
      by blast
    obtain s2 where "schedule True s1 = Some s2" "k_inv s2 fl (rotate1 (rotate k sl)) H xs"
      "running_head s2 (rotate1 (rotate k sl))"
      by (rule yield_rotates [OF s1(2,3), of True]) simp_all
    moreover have "replicate (Suc k) () = replicate k () @ [()]"
      by (simp add: replicate_append_same)
    ultimately show ?case
      using s1 by (simp add: foldM_append del: replicate_Suc)
  qed simp
  moreover have "sl \<noteq> []" using assms(2) by (simp add: running_head_def)
  ultimately show ?thesis
    by (auto simp: running_head_def hd_rotate_conv_nth)
qed

lemma small_running: "running_head (small_kstate 1) [0, 1]"
  by (simp add: running_head_def)

theorem schedule_round_robin_witness:
  "\<exists>s'. foldM (\<lambda>_. schedule True) (replicate 3 ()) (small_kstate 1) = Some s' \<and>
    k_inv s' free_envs (rotate 3 [0, 1]) (\<lambda>_. 0) [3, 4, 5, 6, 7, 8] \<and>
    curenv s' = Some ([0, 1] ! (3 mod length [0, 1 :: nat]))"
  by (rule schedule_round_robin [OF small_inv small_running])

text \<open>Time slices: while the current environment is runnable and has slices left, a timer
  interrupt (\<^verbatim>\<open>schedule(0)\<close>) keeps it and uses up one slice; the queue does not move.\<close>

theorem schedule_timer_keeps:
  assumes "k_inv s fl sl H xs" "curenv s = Some c" "c \<in> set sl" "\<not> count s \<le>s 0"
  shows "\<exists>s'. schedule False s = Some s' \<and> k_inv s' fl sl H xs \<and> curenv s' = Some c \<and>
    count s' = count s - 1 \<and> cpu s' = kstack_tf s"
proof -
  have inv: "k_inv (s\<lparr>count := count s - 1\<rparr>) fl sl H xs"
    by (rule k_inv_cong [OF assms(1)])
      (use k_invD(4,6,7) [OF assms(1)] in auto)
  show ?thesis
    unfolding schedule_keep [OF assms]
    by (rule env_run_ok [OF inv assms(3)]) (use assms(2) in auto)
qed

theorem schedule_timer_keeps_witness:
  "\<exists>s'. schedule False (small_kstate 1) = Some s' \<and> k_inv s' free_envs [0, 1] (\<lambda>_. 0) [3, 4, 5, 6, 7, 8] \<and>
    curenv s' = Some 0 \<and> count s' = count (small_kstate 1) - 1 \<and> cpu s' = kstack_tf (small_kstate 1)"
  by (rule schedule_timer_keeps [OF small_inv]) (simp_all add: word_sle_eq)

text \<open>A context switch saves the interrupted context in the environment that was running,
  loads the context, the address space and the ASID of the chosen one, and changes no
  memory.\<close>

theorem env_run_switch:
  assumes "k_inv s fl sl H xs" "e \<in> set sl" "curenv s = Some c" "c \<noteq> e"
  shows "\<exists>s'. env_run e s = Some s' \<and> k_inv s' fl sl H xs \<and> curenv s' = Some e \<and> pm s' = pm s \<and>
    env_tf (envs s' c) = kstack_tf s \<and> cpu s' = env_tf (envs s e) \<and>
    entryhi_asid s' = env_asid (envs s e) \<and> cur_pgdir s' = env_pgdir (envs s e)"
proof (rule env_run_ok [OF assms(1,2)])
  fix s' assume s': "env_run e s = Some s'" "k_inv s' fl sl H xs" "curenv s' = Some e"
    "cpu s' = (if curenv s = Some e then kstack_tf s else env_tf (envs s e))"
    "entryhi_asid s' = env_asid (envs s e)" "pm s' = pm s"
    "\<And>c. curenv s = Some c \<Longrightarrow> env_tf (envs s' c) = kstack_tf s"
    "\<And>e'. same_env (envs s' e') (envs s e')"
  then show ?thesis
    using assms(3,4) k_invD(7) [OF s'(2,3)] by (auto simp: same_env_def)
qed

theorem env_run_switch_witness:
  "\<exists>s'. env_run 1 (small_kstate 1) = Some s' \<and> k_inv s' free_envs [0, 1] (\<lambda>_. 0) [3, 4, 5, 6, 7, 8] \<and>
    curenv s' = Some 1 \<and> pm s' = pm (small_kstate 1) \<and>
    env_tf (envs s' 0) = kstack_tf (small_kstate 1) \<and> cpu s' = env_tf (envs (small_kstate 1) 1) \<and>
    entryhi_asid s' = env_asid (envs (small_kstate 1) 1) \<and> cur_pgdir s' = env_pgdir (envs (small_kstate 1) 1)"
  by (rule env_run_switch [OF small_inv]) simp_all

end
