(* ===== verification/MOS_SyscallInv.thy ===== *)
theory MOS_SyscallInv
  imports MOS_Syscall MOS_EnvProps
begin

text \<open>
  The system calls keep the invariant of the kernel, and what each of them does to the
  environments and address spaces.
\<close>

section \<open>Finding the environment\<close>

lemma k_inv_pm:
  assumes "k_inv s fl sl H xs" "pm_inv m ((\<lambda>e. env_pgdir (envs s e)) ` alive s) H ys"
  shows "k_inv (s\<lparr>pm := m\<rparr>) fl sl H ys"
  using assms unfolding k_inv_def env_core_def alive_def by simp

lemma pgdir_alive: "e \<in> alive s \<Longrightarrow> env_pgdir (envs s e) \<in> (\<lambda>e. env_pgdir (envs s e)) ` alive s"
  by blast

lemma pgdir_inj:
  assumes "k_inv s fl sl H xs" "e \<in> alive s" "e' \<in> alive s"
  shows "env_pgdir (envs s e) = env_pgdir (envs s e') \<longleftrightarrow> e = e'"
  using env_coreD(2) [OF k_invD(1) [OF assms(1)]] assms(2,3) by (auto simp: inj_on_def)

text \<open>Permission: the environment itself or one of its children.\<close>

definition may_access :: "kstate \<Rightarrow> nat \<Rightarrow> nat \<Rightarrow> bool" where
  "may_access s c e \<longleftrightarrow> e = c \<or> env_parent_id (envs s e) = env_id (envs s c)"

lemma envid2env_cases:
  assumes inv: "k_inv s fl sl H xs" and c: "curenv s = Some c"
  obtains (bad) "envid2env envid chk s = Some (Inl (- E_BAD_ENV))"
  | (ok) e where "envid2env envid chk s = Some (Inr (Some e))" "e \<in> alive s"
      "envid = 0 \<and> e = c \<or> envid \<noteq> 0 \<and> env_id (envs s e) = envid" "chk \<Longrightarrow> may_access s c e"
proof (cases "envid = 0")
  case True
  then show thesis
    using k_invD(6) [OF inv c] c by (intro ok [of c]) (simp_all add: envid2env_def may_access_def)
next
  case False
  let ?e = "ENVX envid"
  have lt: "?e < NENV"
  proof -
    have "envid AND 1023 \<le> (1023::u32)" by (rule word_and_le1)
    then show ?thesis by (simp add: ENVX_def word_le_nat_alt)
  qed
  show thesis
  proof (cases "env_status (envs s ?e) = ENV_FREE \<or> env_id (envs s ?e) \<noteq> envid")
    case True
    with False show thesis by (intro bad) (simp add: envid2env_def)
  next
    case live: False
    then have al: "?e \<in> alive s" using lt by (simp add: alive_def)
    have same: "?e = c" if "env_id (envs s ?e) = env_id (envs s c)"
      using that env_coreD(7) [OF k_invD(1) [OF inv]] al k_invD(6) [OF inv c] by metis
    show thesis
    proof (cases "chk \<and> env_id (envs s ?e) \<noteq> env_id (envs s c) \<and> env_parent_id (envs s ?e) \<noteq> env_id (envs s c)")
      case True
      with False live c show thesis by (intro bad) (simp add: envid2env_def Let_def)
    next
      case ok': False
      show thesis
      proof (rule ok [of ?e])
        show "envid2env envid chk s = Some (Inr (Some ?e))"
          using False live c ok' by (auto simp: envid2env_def Let_def)
        show "chk \<Longrightarrow> may_access s c ?e"
          using ok' same by (auto simp: may_access_def)
      qed (use al live False in auto)
    qed
  qed
qed

text \<open>The \<open>try\<close> macro, for a handler whose continuation establishes \<open>P\<close>.\<close>

lemma try_envE:
  assumes inv: "k_inv s fl sl H xs" and c: "curenv s = Some c"
    and bad: "P (ret (err E_BAD_ENV) s)"
    and ok: "\<And>e. e \<in> alive s \<Longrightarrow> (chk \<Longrightarrow> may_access s c e) \<Longrightarrow>
       envid = 0 \<and> e = c \<or> envid \<noteq> 0 \<and> env_id (envs s e) = envid \<Longrightarrow> P (k e)"
  shows "P (try_env envid chk s k)"
  using inv c
proof (cases rule: envid2env_cases [where envid = envid and chk = chk])
  case bad
  then show ?thesis using assms(3) by (simp add: try_env_def err_def)
next
  case (ok e)
  then show ?thesis using assms(4) [of e] by (simp add: try_env_def)
qed

lemma legal_va: "\<not> is_illegal_va va \<Longrightarrow> PDX va < UPDX"
  by (simp add: is_illegal_va_def PDX_user not_le)

section \<open>Memory calls\<close>

text \<open>A page that an address space maps may be mapped again.\<close>

lemma mapped_mappable:
  assumes inv: "pm_inv m R H xs" and d: "d \<in> R" and e: "aspace m d (i, j) = Some e"
    and room: "unat (pp_ref m (PPN e)) < 65535"
  shows "mappable m R xs (PPN e)"
proof -
  note T = aspace_Some_target [OF d e]
  have "PPN e \<notin> set xs" using free_no_site [OF inv] T(1) by blast
  moreover have "PPN e \<notin> R" using root_unique [OF inv _ T(1)] by blast
  moreover have "target m R (PdeAt d' i') \<noteq> Some (PPN e)" for d' i'
    using table_unique [OF inv _ T(1)] by blast
  ultimately show ?thesis
    using room pm_invD(5) [OF inv T(1)] by (simp add: mappable_def del: target.simps)
qed

text \<open>A page just allocated may be mapped.\<close>

lemma fresh_mappable:
  assumes inv: "pm_inv m R H (p # xs)"
    and m': "pm_inv m' R H xs" "target m' R = target m R" "pp_ref m' = pp_ref m" "npage m' = npage m"
  shows "mappable m' R xs p"
proof -
  have p: "p < npage m'" "pp_ref m' p = 0" "p \<notin> set xs"
    using pm_invD(4) [OF inv, of p] m' pm_inv_distinct [OF inv] by auto
  have ns: "target m' R x \<noteq> Some p" for x
    using no_site(1) [OF m'(1) p(1,2)] .
  then have "p \<notin> R" using ns [of "Root p"] by auto
  with p ns show ?thesis by (simp add: mappable_def del: target.simps)
qed

text \<open>The view of an environment's address space, and that only the memory manager changed.\<close>

abbreviation va_map :: "kstate \<Rightarrow> nat \<Rightarrow> nat \<times> nat \<Rightarrow> u32 option" where
  "va_map s e \<equiv> aspace (pm s) (env_pgdir (envs s e))"

abbreviation va_key :: "u32 \<Rightarrow> nat \<times> nat" where
  "va_key va \<equiv> (PDX va, PTX va)"

text \<open>Mapping into a live environment: success with exactly the new mapping, or
  \<open>- E_NO_MEM\<close> with no mapping changed.\<close>

lemma page_insert_alive:
  assumes inv: "k_inv s fl sl H xs" and e: "e \<in> alive s" and va: "PDX va < UPDX" and perm: "perm < PAGE_SIZE"
    and pp: "mappable (pm s) ((\<lambda>e. env_pgdir (envs s e)) ` alive s) xs pp"
  obtains (mapped) m ys where
      "with_pm (page_insert (env_pgdir (envs s e)) a pp va perm) s = Some (0, s\<lparr>pm := m\<rparr>)"
      "k_inv (s\<lparr>pm := m\<rparr>) fl sl H ys"
      "aspace m (env_pgdir (envs s e)) = (va_map s e)(va_key va \<mapsto> mk_pte pp perm)"
      "\<And>e'. e' \<in> alive s \<Longrightarrow> e' \<noteq> e \<Longrightarrow> aspace m (env_pgdir (envs s e')) = va_map s e'"
  | (nomem) m where
      "with_pm (page_insert (env_pgdir (envs s e)) a pp va perm) s =
         Some (- E_NO_MEM, s\<lparr>pm := m\<rparr>)"
      "k_inv (s\<lparr>pm := m\<rparr>) fl sl H xs" "\<And>d. aspace m d = aspace (pm s) d" "xs = []"
proof -
  let ?R = "(\<lambda>e. env_pgdir (envs s e)) ` alive s" and ?d = "env_pgdir (envs s e)"
  note pi = env_coreD(3) [OF k_invD(1) [OF inv]] and d = pgdir_alive [OF e]
  show thesis
  proof (cases "pte_valid (frame (pm s) ?d (PDX va)) \<or> xs \<noteq> []")
    case True
    obtain m ys where m: "page_insert ?d a pp va perm (pm s) = Some (0, m)" "pm_inv m ?R H ys"
      "aspace m ?d = (aspace (pm s) ?d)((PDX va, PTX va) \<mapsto> mk_pte pp perm)"
      "\<And>d'. d' \<in> ?R \<Longrightarrow> d' \<noteq> ?d \<Longrightarrow> aspace m d' = aspace (pm s) d'"
      by (rule page_insert_ok [OF pi d va pp perm True, where asid = a]) (blast intro: that)
    show thesis
    proof (rule mapped)
      show "with_pm (page_insert ?d a pp va perm) s = Some (0, s\<lparr>pm := m\<rparr>)"
        using m(1) by (simp add: with_pm_def)
      show "k_inv (s\<lparr>pm := m\<rparr>) fl sl H ys"
        by (rule k_inv_pm [OF inv m(2)])
      show "aspace m (env_pgdir (envs s e')) = va_map s e'" if "e' \<in> alive s" "e' \<noteq> e" for e'
        using m(4) [OF pgdir_alive [OF that(1)]] pgdir_inj [OF inv that(1) e] that(2) by simp
    qed (rule m(3))
  next
    case False
    then have "pm_inv (pm s) ?R H []" using pi by simp
    then have "page_insert ?d a pp va perm (pm s) = Some (- E_NO_MEM, tlb_invalidate a va (pm s))"
      using page_insert_nomem [OF _ d va] False by simp
    then show thesis
      using pi False by (intro nomem [of "tlb_invalidate a va (pm s)"])
        (simp_all add: with_pm_def k_inv_pm [OF inv])
  qed
qed

text \<open>What a memory call may do: it returns, only the memory manager changes, the invariant
  holds, and either it reports an error and no mapping changed, or it returns 0 and
  \<open>Q\<close> says which mappings changed.\<close>

definition mem_call :: "kstate \<Rightarrow> nat list \<Rightarrow> nat list \<Rightarrow> (nat \<Rightarrow> nat) \<Rightarrow> u32 list \<Rightarrow> (kstate \<Rightarrow> bool) \<Rightarrow> u32 kres \<Rightarrow> bool" where
  "mem_call s fl sl H errs Q out \<longleftrightarrow> (\<exists>r s' ys. out = Some (Ret r, s') \<and> k_inv s' fl sl H ys \<and>
     s' = s\<lparr>pm := pm s'\<rparr> \<and>
     (r = 0 \<and> Q s' \<or> r \<in> set errs \<and> (\<forall>e\<in>alive s. va_map s' e = va_map s e)))"

lemma mem_call_error:
  "k_inv s fl sl H xs \<Longrightarrow> r \<in> set errs \<Longrightarrow> mem_call s fl sl H errs Q (ret r s)"
  by (auto simp: mem_call_def ret_def)

lemma sys_mem_unmap_ok:
  assumes inv: "k_inv s fl sl H xs" and c: "curenv s = Some c"
  shows "mem_call s fl sl H [err E_INVAL, err E_BAD_ENV] (\<lambda>s'. \<exists>e\<in>alive s. may_access s c e \<and>
     va_map s' e = (va_map s e)(va_key va := None) \<and> (\<forall>e'\<in>alive s - {e}. va_map s' e' = va_map s e'))
   (sys_mem_unmap envid va s)"
proof (cases "is_illegal_va va")
  case True
  then show ?thesis by (simp add: sys_mem_unmap_def mem_call_error [OF inv])
next
  case False
  note va = legal_va [OF False]
  show ?thesis
    unfolding sys_mem_unmap_def if_not_P [OF False]
  proof (rule try_envE [OF inv c])
    show "mem_call s fl sl H [err E_INVAL, err E_BAD_ENV] (\<lambda>s'. \<exists>e\<in>alive s. may_access s c e \<and>
     va_map s' e = (va_map s e)(va_key va := None) \<and> (\<forall>e'\<in>alive s - {e}. va_map s' e' = va_map s e'))
     (ret (err E_BAD_ENV) s)"
      by (simp add: mem_call_error [OF inv])
    fix e assume e: "e \<in> alive s" and "True \<Longrightarrow> may_access s c e"
    then have acc: "may_access s c e" by simp
    let ?R = "(\<lambda>e. env_pgdir (envs s e)) ` alive s" and ?d = "env_pgdir (envs s e)" and ?a = "env_asid (envs s e)"
    note pi = env_coreD(3) [OF k_invD(1) [OF inv]] and d = pgdir_alive [OF e]
    obtain m ys where m: "page_remove ?d ?a va (pm s) = Some m" "pm_inv m ?R H ys"
      "aspace m ?d = (aspace (pm s) ?d)((PDX va, PTX va) := None)"
      "\<forall>d'\<in>?R - {?d}. aspace m d' = aspace (pm s) d'"
    proof (cases "aspace (pm s) ?d (PDX va, PTX va)")
      case None
      then show thesis
        using page_remove_unmapped [OF pi d va None, of ?a] pi by (intro that) (auto simp: fun_upd_idem)
    next
      case (Some x)
      show thesis
        by (rule page_remove_mapped [OF pi d va Some, where asid = ?a], rule that) auto
    qed
    have "k_inv (s\<lparr>pm := m\<rparr>) fl sl H ys"
      by (rule k_inv_pm [OF inv m(2)])
    moreover have "aspace m (env_pgdir (envs s e')) = va_map s e'" if "e' \<in> alive s - {e}" for e'
      using m(4) that pgdir_inj [OF inv _ e] by blast
    ultimately show "mem_call s fl sl H [err E_INVAL, err E_BAD_ENV] (\<lambda>s'. \<exists>e\<in>alive s. may_access s c e \<and>
     va_map s' e = (va_map s e)(va_key va := None) \<and> (\<forall>e'\<in>alive s - {e}. va_map s' e' = va_map s e'))
     (do { s \<leftarrow> do_pm (page_remove ?d ?a va) s; ret 0 s })"
      using m(1,3) e acc by (auto simp: mem_call_def ret_def do_pm_def intro!: bexI [of _ e])
  qed
qed

text \<open>Allocation inside a call: \<open>- E_NO_MEM\<close> and nothing changed, or a cleared page that may be
  mapped.\<close>

lemma page_alloc_alive:
  assumes inv: "k_inv s fl sl H xs"
  obtains (nomem) "xs = []" "with_pm page_alloc s = Some (Inl (- E_NO_MEM), s)"
  | (got) p ys m where "xs = p # ys" "with_pm page_alloc s = Some (Inr p, s\<lparr>pm := m\<rparr>)"
      "k_inv (s\<lparr>pm := m\<rparr>) fl sl H ys"
      "mappable m ((\<lambda>e. env_pgdir (envs s e)) ` alive s) ys p"
      "\<And>e. e \<in> alive s \<Longrightarrow> aspace m (env_pgdir (envs s e)) = va_map s e"
      "frame m p = (\<lambda>_. 0)" "pp_ref m = pp_ref (pm s)"
proof (cases xs)
  case Nil
  then show thesis
    using env_coreD(3) [OF k_invD(1) [OF inv]] page_alloc_empty
    by (intro nomem) (simp_all add: with_pm_def)
next
  case (Cons p ys)
  let ?R = "(\<lambda>e. env_pgdir (envs s e)) ` alive s"
  have pi: "pm_inv (pm s) ?R H (p # ys)"
    using env_coreD(3) [OF k_invD(1) [OF inv]] Cons by simp
  obtain m where m: "page_alloc (pm s) = Some (Inr p, m)" "pm_inv m ?R H ys"
    "target m ?R = target (pm s) ?R" "pp_ref m = pp_ref (pm s)" "npage m = npage (pm s)"
    "frame m = (frame (pm s))(p := (\<lambda>_. 0))" "\<And>d. d \<in> ?R \<Longrightarrow> aspace m d = aspace (pm s) d"
    by (rule page_alloc_Cons [OF pi]) (blast intro: that)
  show thesis
  proof (rule got [OF Cons])
    show "with_pm page_alloc s = Some (Inr p, s\<lparr>pm := m\<rparr>)" using m(1) by (simp add: with_pm_def)
    show "k_inv (s\<lparr>pm := m\<rparr>) fl sl H ys" by (rule k_inv_pm [OF inv m(2)])
    show "mappable m ?R ys p" by (rule fresh_mappable [OF pi m(2-5)])
  qed (use m pgdir_alive in auto)
qed

definition mem_alloc_post :: "kstate \<Rightarrow> nat \<Rightarrow> u32 \<Rightarrow> u32 \<Rightarrow> nat list \<Rightarrow> kstate \<Rightarrow> bool" where
  "mem_alloc_post s c va perm xs s' \<longleftrightarrow> xs \<noteq> [] \<and> (\<exists>e\<in>alive s. may_access s c e \<and>
     va_map s' e = (va_map s e)(va_key va \<mapsto> mk_pte (hd xs) perm) \<and>
     (\<forall>e'\<in>alive s - {e}. va_map s' e' = va_map s e'))"

lemma sys_mem_alloc_ok:
  assumes inv: "k_inv s fl sl H xs" and c: "curenv s = Some c" and perm: "perm < PAGE_SIZE"
  shows "mem_call s fl sl H [err E_INVAL, err E_BAD_ENV, err E_NO_MEM] (mem_alloc_post s c va perm xs)
    (sys_mem_alloc envid va perm s)"
proof (cases "is_illegal_va va")
  case True
  then show ?thesis by (simp add: sys_mem_alloc_def mem_call_error [OF inv])
next
  case False
  note va = legal_va [OF False]
  let ?P = "mem_call s fl sl H [err E_INVAL, err E_BAD_ENV, err E_NO_MEM] (mem_alloc_post s c va perm xs)"
  show ?thesis
    unfolding sys_mem_alloc_def if_not_P [OF False]
  proof (rule try_envE [OF inv c])
    show "?P (ret (err E_BAD_ENV) s)" by (simp add: mem_call_error [OF inv])
    fix e assume e: "e \<in> alive s" and "True \<Longrightarrow> may_access s c e"
    then have acc: "may_access s c e" by simp
    from inv show "?P (do {
       (r, s) \<leftarrow> with_pm page_alloc s;
       case r of
         Inl x \<Rightarrow> ret (of_int x) s
       | Inr pp \<Rightarrow>
           ret_int (with_pm (page_insert (env_pgdir (envs s e)) (env_asid (envs s e)) pp va perm) s) })"
    proof (cases rule: page_alloc_alive)
      case nomem
      then show ?thesis using mem_call_error [OF inv] by (simp add: err_def)
    next
      case (got p ys m)
      let ?s = "s\<lparr>pm := m\<rparr>"
      have al: "alive ?s = alive s" by (simp add: alive_def)
      have e': "e \<in> alive ?s" and mp: "mappable (pm ?s) ((\<lambda>e. env_pgdir (envs ?s e)) ` alive ?s) ys p"
        using e got(4) al by simp_all
      show ?thesis
      proof (cases rule: page_insert_alive [OF got(3) e' va perm mp, where a = "env_asid (envs s e)", consumes 0, case_names mapped nomem])
        case (mapped m' zs)
        have "mem_alloc_post s c va perm xs (s\<lparr>pm := m'\<rparr>)"
          unfolding mem_alloc_post_def using mapped(3,4) got(1,5) e acc al
          by (intro conjI bexI [of _ e]) auto
        with mapped(1,2) got(2) show ?thesis
          by (auto simp: mem_call_def ret_def ret_int_def)
      next
        case (nomem m')
        with got(2,5) show ?thesis
          by (auto simp: mem_call_def ret_def ret_int_def err_def)
      qed
    qed
  qed
qed

definition mem_map_post :: "kstate \<Rightarrow> nat \<Rightarrow> u32 \<Rightarrow> u32 \<Rightarrow> u32 \<Rightarrow> kstate \<Rightarrow> bool" where
  "mem_map_post s c srcva dstva perm s' \<longleftrightarrow> (\<exists>src\<in>alive s. \<exists>dst\<in>alive s. \<exists>x.
     may_access s c src \<and> may_access s c dst \<and> va_map s src (va_key srcva) = Some x \<and>
     va_map s' dst = (va_map s dst)(va_key dstva \<mapsto> mk_pte (PPN x) perm) \<and>
     (\<forall>e'\<in>alive s - {dst}. va_map s' e' = va_map s e'))"

lemma sys_mem_map_ok:
  assumes inv: "k_inv s fl sl H xs" and c: "curenv s = Some c" and perm: "perm < PAGE_SIZE"
    and room: "\<And>p. p < npage (pm s) \<Longrightarrow> unat (pp_ref (pm s) p) < 65535"
  shows "mem_call s fl sl H [err E_INVAL, err E_BAD_ENV, err E_NO_MEM] (mem_map_post s c srcva dstva perm)
    (sys_mem_map srcid srcva dstid dstva perm s)"
proof (cases "is_illegal_va srcva \<or> is_illegal_va dstva")
  case True
  then show ?thesis by (simp add: sys_mem_map_def mem_call_error [OF inv])
next
  case False
  then have va: "PDX srcva < UPDX" "PDX dstva < UPDX" using legal_va by auto
  let ?P = "mem_call s fl sl H [err E_INVAL, err E_BAD_ENV, err E_NO_MEM] (mem_map_post s c srcva dstva perm)"
  let ?R = "(\<lambda>e. env_pgdir (envs s e)) ` alive s"
  note pi = env_coreD(3) [OF k_invD(1) [OF inv]]
  have bad: "?P (ret (err E_BAD_ENV) s)" by (simp add: mem_call_error [OF inv])
  show ?thesis
    unfolding sys_mem_map_def if_not_P [OF False]
  proof (rule try_envE [where P = ?P, OF inv c bad], rule try_envE [where P = ?P, OF inv c bad])
    fix src dst assume src: "src \<in> alive s" "True \<Longrightarrow> may_access s c src"
      and dst: "dst \<in> alive s" "True \<Longrightarrow> may_access s c dst"
    have lk: "page_lookup (env_pgdir (envs s src)) srcva (pm s) = Some (map_option
       (\<lambda>e. (PPN e, (PPN (frame (pm s) (env_pgdir (envs s src)) (PDX srcva)), PTX srcva))) (va_map s src (va_key srcva)))"
      by (rule page_lookup_aspace [OF pi pgdir_alive [OF src(1)] va(1)])
    show "?P (do {
       r \<leftarrow> page_lookup (env_pgdir (envs s src)) srcva (pm s);
       case r of
         None \<Rightarrow> ret (err E_INVAL) s
       | Some (pp, _) \<Rightarrow>
           ret_int (with_pm (page_insert (env_pgdir (envs s dst)) (env_asid (envs s dst)) pp dstva perm) s) })"
    proof (cases "va_map s src (va_key srcva)")
      case None
      then show ?thesis using lk by (simp add: mem_call_error [OF inv])
    next
      case (Some x)
      have "PPN x < npage (pm s)"
        using pm_invD(5) [OF pi aspace_Some_target(1) [OF pgdir_alive [OF src(1)] Some]] .
      then have mp: "mappable (pm s) ?R xs (PPN x)"
        by (intro mapped_mappable [OF pi pgdir_alive [OF src(1)] Some] room)
      show ?thesis
      proof (cases rule: page_insert_alive [OF inv dst(1) va(2) perm mp, where a = "env_asid (envs s dst)", consumes 0, case_names mapped nomem])
        case (mapped m ys)
        have "mem_map_post s c srcva dstva perm (s\<lparr>pm := m\<rparr>)"
          unfolding mem_map_post_def using mapped(3,4) Some src dst
          by (intro bexI [of _ src] bexI [of _ dst] exI [of _ x]) auto
        with mapped(1,2) lk Some show ?thesis
          by (auto simp: mem_call_def ret_def ret_int_def)
      next
        case (nomem m)
        with lk Some show ?thesis
          by (auto simp: mem_call_def ret_def ret_int_def err_def)
      qed
    qed
  qed
qed

section \<open>Process calls\<close>

lemma aliveI: "e < NENV \<Longrightarrow> env_status (envs s e) \<noteq> ENV_FREE \<Longrightarrow> e \<in> alive s"
  by (simp add: alive_def)

lemma sys_exofork_ok:
  assumes inv: "k_inv s (e # fl) sl H (p # xs)" and c: "curenv s = Some c"
    and i: "i < NASID" "\<not> asid_used (asid_bitmap s) i"
  obtains s' where "sys_exofork s = Some (Ret (env_id (envs s' e)), s')" "k_inv s' fl sl H xs"
    "env_status (envs s' e) = ENV_NOT_RUNNABLE" "env_parent_id (envs s' e) = env_id (envs s c)"
    "env_tf (envs s' e) = set_reg 2 0 (kstack_tf s)" "env_pri (envs s' e) = env_pri (envs s c)"
    "va_map s' e = Map.empty" "alive s' = insert e (alive s)" "curenv s' = curenv s"
    "\<And>e'. e' \<noteq> e \<Longrightarrow> envs s' e' = envs s e'" "\<And>e'. e' \<in> alive s \<Longrightarrow> va_map s' e' = va_map s e'"
    "env_ipc_recving (envs s' e) = env_ipc_recving (envs s e)"
proof -
  have ef: "e < NENV" "env_status (envs s e) = ENV_FREE" using k_invD(3) [OF inv, of e] by auto
  then have ea: "e \<notin> alive s" by (simp add: alive_def)
  have ce: "c \<noteq> e" using k_invD(6) [OF inv c] ea by blast
  obtain s1 where s1: "env_alloc (env_id (envs s c)) s = Some (Inr e, s1)" "env_core s1 (insert e (alive s)) H xs"
    "is_LIST (env_free_list s1) fl" "env_sched_list s1 = env_sched_list s" "curenv s1 = curenv s"
    "cur_pgdir s1 = cur_pgdir s" "count s1 = count s" "kstack_tf s1 = kstack_tf s"
    "\<And>e'. e' \<noteq> e \<Longrightarrow> envs s1 e' = envs s e'"
    "env_status (envs s1 e) = env_status (envs s e)" "env_parent_id (envs s1 e) = env_id (envs s c)"
    "env_ipc_recving (envs s1 e) = env_ipc_recving (envs s e)"
    "aspace (pm s1) (env_pgdir (envs s1 e)) = Map.empty"
    "\<And>e'. e' \<in> alive s \<Longrightarrow> aspace (pm s1) (env_pgdir (envs s e')) = aspace (pm s) (env_pgdir (envs s e'))"
    by (rule env_alloc_ok [OF k_invD(1) [OF inv] k_invD(2) [OF inv] ea ef(1) i, where pid = "env_id (envs s c)"])
      (blast intro: that)
  define x where "x = (envs s1 e)\<lparr>env_tf := set_reg 2 0 (kstack_tf s1), env_status := ENV_NOT_RUNNABLE,
      env_pri := env_pri (envs s c)\<rparr>"
  define s' where "s' = s1\<lparr>envs := (envs s1)(e := x)\<rparr>"
  have run: "sys_exofork s = Some (Ret (env_id (envs s' e)), s')"
    using c s1(1) ce s1(9) [OF ce]
    by (simp add: sys_exofork_def s'_def x_def upd_env_def ret_def Let_def)
  have es: "envs s' e = x" "\<And>e'. e' \<noteq> e \<Longrightarrow> envs s' e' = envs s e'"
    using s1(9) by (auto simp: s'_def)
  have al: "alive s' = insert e (alive s)"
  proof (rule set_eqI)
    fix e' show "e' \<in> alive s' \<longleftrightarrow> e' \<in> insert e (alive s)"
      using ef(1) es by (cases "e' = e") (simp_all add: alive_def x_def)
  qed
  have core: "env_core s' (alive s') H xs"
    unfolding al using s1(2) by (subst env_core_cong [where s = s1]) (auto simp: s'_def x_def)
  have "k_inv s' fl sl H xs"
    unfolding k_inv_def
  proof (intro conjI allI impI)
    have dist: "e \<notin> set fl" using is_LIST_distinct [OF k_invD(2) [OF inv]] by simp
    show "e' \<in> set fl \<longleftrightarrow> e' < NENV \<and> env_status (envs s' e') = ENV_FREE" for e'
      using k_invD(3) [OF inv, of e'] dist es by (cases "e' = e") (auto simp: x_def)
    show "e' \<in> set sl \<longleftrightarrow> e' < NENV \<and> env_status (envs s' e') = ENV_RUNNABLE" for e'
      using k_invD(5) [OF inv, of e'] ef es by (cases "e' = e") (auto simp: x_def)
    show "env_status (envs s' e') \<in> {ENV_FREE, ENV_RUNNABLE, ENV_NOT_RUNNABLE}" if "e' < NENV" for e'
      using k_invD(8) [OF inv that] es by (cases "e' = e") (auto simp: x_def)
    fix d assume "curenv s' = Some d"
    then have d: "curenv s = Some d" using s1(5) by (simp add: s'_def)
    have "d \<noteq> e" using k_invD(6) [OF inv d] ea by blast
    then show "d \<in> alive s'" "cur_pgdir s' = env_pgdir (envs s' d)"
      using k_invD(6,7) [OF inv d] al es s1(6) by (auto simp: s'_def)
  qed (use core s1 k_invD(4) [OF inv] in \<open>simp_all add: s'_def\<close>)
  moreover have "va_map s' e' = va_map s e'" if "e' \<in> alive s" for e'
    using that ea s1(14) es(2) by (auto simp: s'_def)
  moreover have "aspace (pm s') (env_pgdir x) = Map.empty"
    using s1(13) by (simp add: s'_def x_def)
  ultimately show thesis
    using s1 al es by (intro that [OF run]) (simp_all add: s'_def x_def)
qed

text \<open>Changing the status of one environment together with its place in the run queue.\<close>

lemma k_inv_status:
  assumes inv: "k_inv s fl sl H xs" and e: "e \<in> alive s"
    and st: "st = ENV_RUNNABLE \<or> st = ENV_NOT_RUNNABLE"
    and q: "is_TAILQ q sl'" "set sl' = (if st = ENV_RUNNABLE then insert e (set sl) else set sl - {e})"
    and f: "\<And>x. same_env (f x) (x\<lparr>env_status := st\<rparr>)"
  shows "k_inv (upd_env e f (s\<lparr>env_sched_list := q\<rparr>)) fl sl' H xs" (is "k_inv ?s _ _ _ _")
proof -
  have el: "e < NENV" "env_status (envs s e) \<noteq> ENV_FREE" using e by (auto simp: alive_def)
  have es: "same_env (envs ?s e) ((envs s e)\<lparr>env_status := st\<rparr>)" "\<And>e'. e' \<noteq> e \<Longrightarrow> envs ?s e' = envs s e'"
    using f by (auto simp: upd_env_def)
  have stat: "env_status (envs ?s e') = (if e' = e then st else env_status (envs s e'))" for e'
    using es by (auto simp: same_env_def)
  have al: "alive ?s = alive s"
    using el st by (auto simp: alive_def stat)
  have "env_core ?s (alive s) H xs"
    using k_invD(1) [OF inv]
  proof (subst env_core_cong [where s = s])
    fix e' assume "e' \<in> alive s"
    then show "env_pgdir (envs ?s e') = env_pgdir (envs s e') \<and> env_asid (envs ?s e') = env_asid (envs s e') \<and>
        env_id (envs ?s e') = env_id (envs s e')"
      using es by (cases "e' = e") (auto simp: same_env_def)
  qed simp_all
  then have core: "env_core ?s (alive ?s) H xs" unfolding al .
  show ?thesis
    unfolding k_inv_def
  proof (intro conjI allI impI)
    show "e' \<in> set fl \<longleftrightarrow> e' < NENV \<and> env_status (envs ?s e') = ENV_FREE" for e'
      using k_invD(3) [OF inv, of e'] el st unfolding stat by auto
    show "e' \<in> set sl' \<longleftrightarrow> e' < NENV \<and> env_status (envs ?s e') = ENV_RUNNABLE" for e'
      using k_invD(5) [OF inv, of e'] el st unfolding stat q(2) by auto
    show "env_status (envs ?s e') \<in> {ENV_FREE, ENV_RUNNABLE, ENV_NOT_RUNNABLE}" if "e' < NENV" for e'
      using k_invD(8) [OF inv that] st unfolding stat by auto
    fix c assume "curenv ?s = Some c"
    then have c: "curenv s = Some c" by simp
    show "c \<in> alive ?s" using k_invD(6) [OF inv c] al by simp
    show "cur_pgdir ?s = env_pgdir (envs ?s c)"
      using k_invD(7) [OF inv c] es by (cases "c = e") (auto simp: same_env_def)
  qed (use core q k_invD(2) [OF inv] in simp_all)
qed

lemma sys_set_env_status_ok:
  assumes inv: "k_inv s fl sl H xs" and e: "e \<in> alive s"
    and id: "envid2env envid True s = Some (Inr (Some e))"
    and st: "st = ENV_RUNNABLE \<or> st = ENV_NOT_RUNNABLE"
  obtains s' where "sys_set_env_status envid st s = Some (Ret 0, s')"
    "k_inv s' fl (if env_status (envs s e) = st then sl
       else if st = ENV_RUNNABLE then sl @ [e] else remove1 e sl) H xs"
    "env_status (envs s' e) = st" "\<And>e'. e' \<noteq> e \<Longrightarrow> envs s' e' = envs s e'" "pm s' = pm s" "curenv s' = curenv s"
proof -
  let ?sl = "if env_status (envs s e) = st then sl else if st = ENV_RUNNABLE then sl @ [e] else remove1 e sl"
  have el: "e < NENV" "env_status (envs s e) \<noteq> ENV_FREE" using e by (auto simp: alive_def)
  note tq = k_invD(4) [OF inv] and mem = k_invD(5) [OF inv, of e]
  have stat: "env_status (envs s e) = ENV_RUNNABLE \<or> env_status (envs s e) = ENV_NOT_RUNNABLE"
    using k_invD(8) [OF inv el(1)] el(2) by auto
  obtain q where q: "(if env_status (envs s e) \<noteq> st then
               if st = ENV_RUNNABLE then TAILQ_INSERT_TAIL e (env_sched_list s)
               else TAILQ_REMOVE e (env_sched_list s)
             else Some (env_sched_list s)) = Some q"
    "is_TAILQ q ?sl" "set ?sl = (if st = ENV_RUNNABLE then insert e (set sl) else set sl - {e})"
  proof (cases "env_status (envs s e) = st")
    case True
    then show thesis
      using tq mem st el by (intro that [of "env_sched_list s"]) auto
  next
    case False
    show thesis
    proof (cases "st = ENV_RUNNABLE")
      case True
      with False mem have "e \<notin> set sl" by auto
      with TAILQ_INSERT_TAIL_seq [OF tq] obtain q where "TAILQ_INSERT_TAIL e (env_sched_list s) = Some q"
        "is_TAILQ q (sl @ [e])" by blast
      with False True show thesis by (intro that [of q]) auto
    next
      case nr: False
      with False st stat mem el have "e \<in> set sl" by auto
      with TAILQ_REMOVE_seq [OF tq] obtain q where "TAILQ_REMOVE e (env_sched_list s) = Some q"
        "is_TAILQ q (remove1 e sl)" by blast
      with False nr is_TAILQ_distinct [OF tq] show thesis by (intro that [of q]) auto
    qed
  qed
  let ?s = "upd_env e (\<lambda>x. x\<lparr>env_status := st\<rparr>) (s\<lparr>env_sched_list := q\<rparr>)"
  have inv': "k_inv ?s fl ?sl H xs"
    by (rule k_inv_status [OF inv e st q(2,3)]) simp
  have run: "sys_set_env_status envid st s = Some (Ret 0, ?s)"
    using st id q(1) by (auto simp: sys_set_env_status_def try_env_def ret_def)
  show thesis
    by (rule that [OF run inv']) simp_all
qed

section \<open>IPC\<close>

text \<open>The receiver takes itself off the queue, and the scheduler removes it a second time.\<close>

lemma schedule_blocked:
  assumes inv: "k_inv s fl sl H xs" and c: "curenv s = Some c" and ne: "sl \<noteq> []"
    and rm: "TAILQ_REMOVE c (env_sched_list s) = Some (env_sched_list s)"
    and st: "env_status (envs s c) \<noteq> ENV_RUNNABLE"
  obtains s' where "schedule True s = Some s'" "k_inv s' fl sl H xs" "curenv s' = Some (hd sl)"
    "pm s' = pm s" "env_tf (envs s' c) = kstack_tf s"
    "\<And>e. same_env (envs s' e) (envs s e)"
    "\<And>e. env_ipc_recving (envs s' e) = env_ipc_recving (envs s e)"
    "\<And>e. env_ipc_dstva (envs s' e) = env_ipc_dstva (envs s e)"
proof -
  note tq = k_invD(4) [OF inv]
  define s1 where "s1 = s\<lparr>count := env_pri (envs s (hd sl)) - 1\<rparr>"
  have s1: "envs s1 = envs s" "pm s1 = pm s" "curenv s1 = curenv s" "kstack_tf s1 = kstack_tf s"
    by (simp_all add: s1_def)
  have inv1: "k_inv s1 fl sl H xs"
    by (rule k_inv_cong [OF inv]) (use tq k_invD(6,7) [OF inv] in \<open>auto simp: s1_def\<close>)
  have hd: "hd sl \<in> set sl" using ne by simp
  have run: "schedule True s = env_run (hd sl) s1"
    using c rm st TAILQ_EMPTY_seq [OF tq] TAILQ_FIRST_seq [OF tq] ne
    by (cases sl) (simp_all add: schedule_def s1_def)
  have st1: "env_status (envs s1 (hd sl)) = ENV_RUNNABLE"
    using k_invD(5) [OF inv1, of "hd sl"] hd by simp
  have ipc: "env_ipc_recving (envs s' e) = env_ipc_recving (envs s e) \<and>
      env_ipc_dstva (envs s' e) = env_ipc_dstva (envs s e)" if "env_run (hd sl) s1 = Some s'" for s' e
    using that st1 c s1 by (auto simp: env_run_def env_pop_tf_def upd_env_def Let_def)
  obtain s' where r: "env_run (hd sl) s1 = Some s'" "k_inv s' fl sl H xs" "curenv s' = Some (hd sl)"
    "pm s' = pm s" "env_tf (envs s' c) = kstack_tf s" "\<And>e. same_env (envs s' e) (envs s e)"
    by (rule env_run_ok [OF inv1 hd], erule that) (use s1 c in auto)
  show thesis
    by (rule that [OF trans [OF run r(1)] r(2-6)]) (use ipc [OF r(1)] in simp_all)
qed

lemma sys_ipc_recv_ok:
  assumes inv: "k_inv s fl sl H xs" and c: "curenv s = Some c" "c \<in> set sl"
    and others: "remove1 c sl \<noteq> []" and va: "dstva = 0 \<or> \<not> is_illegal_va dstva"
  obtains s' where "sys_ipc_recv dstva s = Some (Switch, s')" "k_inv s' fl (remove1 c sl) H xs"
    "curenv s' = Some (hd (remove1 c sl))" "pm s' = pm s"
    "env_status (envs s' c) = ENV_NOT_RUNNABLE" "env_ipc_recving (envs s' c) = 1"
    "env_ipc_dstva (envs s' c) = dstva" "env_tf (envs s' c) = set_reg 2 0 (kstack_tf s)"
    "\<And>e. env_id (envs s' e) = env_id (envs s e)"
proof -
  note tq = k_invD(4) [OF inv]
  obtain q where q: "TAILQ_REMOVE c (env_sched_list s) = Some q" "is_TAILQ q (remove1 c sl)"
    using TAILQ_REMOVE_seq [OF tq c(2)] by blast
  have q2: "TAILQ_REMOVE c q = Some q"
    by (rule TAILQ_REMOVE_twice [OF tq c(2) q(1)])
  let ?f = "\<lambda>x. x\<lparr>env_ipc_recving := 1, env_ipc_dstva := dstva, env_status := ENV_NOT_RUNNABLE\<rparr>"
  define s1 where "s1 = upd_env c ?f (s\<lparr>env_sched_list := q\<rparr>)"
  define s2 where "s2 = (upd_env c ?f s)\<lparr>env_sched_list := q, kstack_tf := set_reg 2 0 (kstack_tf s)\<rparr>"
  have s2': "s2 = s1\<lparr>kstack_tf := set_reg 2 0 (kstack_tf s)\<rparr>"
    by (simp add: s2_def s1_def upd_env_def)
  have inv1: "k_inv s1 fl (remove1 c sl) H xs"
    unfolding s1_def
    by (rule k_inv_status [OF inv k_invD(6) [OF inv c(1)] _ q(2), where st = ENV_NOT_RUNNABLE])
      (use is_TAILQ_distinct [OF tq] in \<open>auto simp: same_env_def\<close>)
  have inv2: "k_inv s2 fl (remove1 c sl) H xs"
    by (rule k_inv_cong [OF inv1]) (use k_invD(4,6,7) [OF inv1] in \<open>auto simp: s2'\<close>)
  have run: "sys_ipc_recv dstva s = do { s \<leftarrow> schedule True s2; Some (Switch, s) }"
    using va c(1) q(1) by (auto simp: sys_ipc_recv_def s2_def upd_env_def Let_def)
  have c2: "curenv s2 = Some c" "env_status (envs s2 c) \<noteq> ENV_RUNNABLE" "env_sched_list s2 = q"
    using c by (simp_all add: s2_def)
  have rm2: "TAILQ_REMOVE c (env_sched_list s2) = Some (env_sched_list s2)"
    using c2 q2 by simp
  have ids: "env_id (envs s2 e) = env_id (envs s e)" for e
    by (cases "e = c") (simp_all add: s2_def)
  have f2: "env_ipc_recving (envs s2 c) = 1" "env_ipc_dstva (envs s2 c) = dstva"
    "env_status (envs s2 c) = ENV_NOT_RUNNABLE" "kstack_tf s2 = set_reg 2 0 (kstack_tf s)" "pm s2 = pm s"
    by (simp_all add: s2_def)
  have run': "schedule True s2 = Some s' \<Longrightarrow> sys_ipc_recv dstva s = Some (Switch, s')" for s'
    using run by simp
  show thesis
    by (rule schedule_blocked [OF inv2 c2(1) others rm2 c2(2)], erule that [OF run'])
      (use f2 ids in \<open>auto simp: same_env_def\<close>)
qed

text \<open>A send to an environment that is blocked in \<open>sys_ipc_recv\<close>.\<close>

definition delivered :: "kstate \<Rightarrow> nat \<Rightarrow> nat \<Rightarrow> u32 \<Rightarrow> u32 \<Rightarrow> kstate \<Rightarrow> bool" where
  "delivered s c e v perm s' \<longleftrightarrow> env_ipc_value (envs s' e) = v \<and>
     env_ipc_from (envs s' e) = env_id (envs s c) \<and> env_ipc_perm (envs s' e) = PTE_V OR perm \<and>
     env_ipc_recving (envs s' e) = 0 \<and> env_status (envs s' e) = ENV_RUNNABLE"

lemma ipc_deliver:
  assumes inv: "k_inv s fl sl H xs" and e: "e \<in> alive s" "env_status (envs s e) = ENV_NOT_RUNNABLE"
    and s1: "s1 = upd_env e (\<lambda>x. x\<lparr>env_ipc_value := v, env_ipc_from := env_id (envs s c),
                   env_ipc_perm := PTE_V OR perm, env_ipc_recving := 0, env_status := ENV_RUNNABLE\<rparr>) s"
  obtains q where "TAILQ_INSERT_TAIL e (env_sched_list s1) = Some q"
    "k_inv (s1\<lparr>env_sched_list := q\<rparr>) fl (sl @ [e]) H xs" "alive (s1\<lparr>env_sched_list := q\<rparr>) = alive s"
    "delivered s c e v perm (s1\<lparr>env_sched_list := q\<rparr>)"
    "\<And>e'. env_pgdir (envs s1 e') = env_pgdir (envs s e')"
proof -
  have "e \<notin> set sl" using k_invD(5) [OF inv, of e] e(2) by simp
  with TAILQ_INSERT_TAIL_seq [OF k_invD(4) [OF inv]] obtain q where q:
    "TAILQ_INSERT_TAIL e (env_sched_list s) = Some q" "is_TAILQ q (sl @ [e])" by blast
  let ?f = "\<lambda>x. x\<lparr>env_ipc_value := v, env_ipc_from := env_id (envs s c),
                   env_ipc_perm := PTE_V OR perm, env_ipc_recving := 0, env_status := ENV_RUNNABLE\<rparr>"
  have eq: "s1\<lparr>env_sched_list := q\<rparr> = upd_env e ?f (s\<lparr>env_sched_list := q\<rparr>)"
    by (simp add: s1 upd_env_def)
  have inv1: "k_inv (s1\<lparr>env_sched_list := q\<rparr>) fl (sl @ [e]) H xs"
    unfolding eq by (rule k_inv_status [OF inv e(1) _ q(2), where st = ENV_RUNNABLE]) (auto simp: same_env_def)
  have "e' \<in> alive (s1\<lparr>env_sched_list := q\<rparr>) \<longleftrightarrow> e' \<in> alive s" for e'
    using e by (cases "e' = e") (auto simp: alive_def s1)
  then have al: "alive (s1\<lparr>env_sched_list := q\<rparr>) = alive s" by blast
  have pg: "env_pgdir (envs s1 e') = env_pgdir (envs s e')" for e'
    by (cases "e' = e") (simp_all add: s1)
  show thesis
    by (rule that [OF _ inv1 al _ pg]) (use q in \<open>simp_all add: s1 delivered_def\<close>)
qed


text \<open>The value is delivered and the receiver is runnable at the end of the queue; with a page
  of the sender, it is mapped at the address the receiver asked for.\<close>

lemma sys_ipc_try_send_ok:
  assumes inv: "k_inv s fl sl H xs" and c: "curenv s = Some c"
    and id: "envid2env envid False s = Some (Inr (Some e))" "e \<in> alive s"
    and blocked: "env_status (envs s e) = ENV_NOT_RUNNABLE" "env_ipc_recving (envs s e) \<noteq> 0"
  obtains s1 where "k_inv s1 fl (sl @ [e]) H xs" "alive s1 = alive s" "pm s1 = pm s" "curenv s1 = Some c"
    "\<And>e'. env_pgdir (envs s1 e') = env_pgdir (envs s e')" "delivered s c e v perm s1"
    "env_ipc_dstva (envs s1 e) = env_ipc_dstva (envs s e)" "\<And>e'. env_tf (envs s1 e') = env_tf (envs s e')"
    "srcva = 0 \<or> \<not> is_illegal_va srcva \<Longrightarrow> sys_ipc_try_send envid v srcva perm s =
       (if srcva \<noteq> 0 then do {
           r \<leftarrow> page_lookup (env_pgdir (envs s1 c)) srcva (pm s1);
           case r of
             None \<Rightarrow> ret (err E_INVAL) s1
           | Some (p, _) \<Rightarrow> ret_int (with_pm (page_insert (env_pgdir (envs s1 e)) (env_asid (envs s1 e)) p
                              (env_ipc_dstva (envs s1 e)) perm) s1)
         } else ret 0 s1)"
proof -
  define s0 where "s0 = upd_env e (\<lambda>x. x\<lparr>env_ipc_value := v, env_ipc_from := env_id (envs s c),
                   env_ipc_perm := PTE_V OR perm, env_ipc_recving := 0, env_status := ENV_RUNNABLE\<rparr>) s"
  obtain q where q: "TAILQ_INSERT_TAIL e (env_sched_list s0) = Some q"
    "k_inv (s0\<lparr>env_sched_list := q\<rparr>) fl (sl @ [e]) H xs" "alive (s0\<lparr>env_sched_list := q\<rparr>) = alive s"
    "delivered s c e v perm (s0\<lparr>env_sched_list := q\<rparr>)"
    "\<And>e'. env_pgdir (envs s0 e') = env_pgdir (envs s e')"
    by (rule ipc_deliver [OF inv id(2) blocked(1) s0_def]) (blast intro: that)
  define s1 where "s1 = s0\<lparr>env_sched_list := q\<rparr>"
  have run: "sys_ipc_try_send envid v srcva perm s =
       (if srcva \<noteq> 0 then do {
           r \<leftarrow> page_lookup (env_pgdir (envs s1 c)) srcva (pm s1);
           case r of
             None \<Rightarrow> ret (err E_INVAL) s1
           | Some (p, _) \<Rightarrow> ret_int (with_pm (page_insert (env_pgdir (envs s1 e)) (env_asid (envs s1 e)) p
                              (env_ipc_dstva (envs s1 e)) perm) s1)
         } else ret 0 s1)" if "srcva = 0 \<or> \<not> is_illegal_va srcva"
    using that id(1) blocked(2) c q(1)
    by (auto simp: sys_ipc_try_send_def try_env_def Let_def s0_def s1_def simp del: upd_env_simps)
  have tf: "env_tf (envs s1 e') = env_tf (envs s e')" for e'
    by (cases "e' = e") (simp_all add: s1_def s0_def)
  show thesis
    by (rule that [OF _ _ _ _ _ _ _ tf run]) (use q c in \<open>simp_all add: s1_def s0_def\<close>)
qed

lemma sys_ipc_try_send_page:
  assumes inv: "k_inv s fl sl H xs" and c: "curenv s = Some c"
    and id: "envid2env envid False s = Some (Inr (Some e))" "e \<in> alive s"
    and blocked: "env_status (envs s e) = ENV_NOT_RUNNABLE" "env_ipc_recving (envs s e) \<noteq> 0"
    and va: "srcva \<noteq> 0" "\<not> is_illegal_va srcva" "PDX (env_ipc_dstva (envs s e)) < UPDX"
    and x: "va_map s c (va_key srcva) = Some x" "unat (pp_ref (pm s) (PPN x)) < 65535" and perm: "perm < PAGE_SIZE"
  shows "\<exists>s' ys r. sys_ipc_try_send envid v srcva perm s = Some (Ret r, s') \<and>
    k_inv s' fl (sl @ [e]) H ys \<and> delivered s c e v perm s' \<and>
    (r = 0 \<and> va_map s' e = (va_map s e)(va_key (env_ipc_dstva (envs s e)) \<mapsto> mk_pte (PPN x) perm) \<and>
       (\<forall>e'\<in>alive s - {e}. va_map s' e' = va_map s e') \<or>
     r = err E_NO_MEM \<and> (\<forall>e'\<in>alive s. va_map s' e' = va_map s e'))"
proof -
  let ?R = "(\<lambda>e. env_pgdir (envs s e)) ` alive s"
  obtain s1 where s1: "k_inv s1 fl (sl @ [e]) H xs" "alive s1 = alive s" "pm s1 = pm s" "curenv s1 = Some c"
    "\<And>e'. env_pgdir (envs s1 e') = env_pgdir (envs s e')" "delivered s c e v perm s1"
    "env_ipc_dstva (envs s1 e) = env_ipc_dstva (envs s e)"
    "sys_ipc_try_send envid v srcva perm s =
       (if srcva \<noteq> 0 then do {
           r \<leftarrow> page_lookup (env_pgdir (envs s1 c)) srcva (pm s1);
           case r of
             None \<Rightarrow> ret (err E_INVAL) s1
           | Some (p, _) \<Rightarrow> ret_int (with_pm (page_insert (env_pgdir (envs s1 e)) (env_asid (envs s1 e)) p
                              (env_ipc_dstva (envs s1 e)) perm) s1)
         } else ret 0 s1)"
    by (rule sys_ipc_try_send_ok [OF inv c id blocked, where v = v and perm = perm and srcva = srcva],
        erule that) (use va in blast)+
  note pi = env_coreD(3) [OF k_invD(1) [OF inv]] and ca = k_invD(6) [OF inv c]
  have "page_lookup (env_pgdir (envs s1 c)) srcva (pm s1) =
     Some (Some (PPN x, (PPN (frame (pm s) (env_pgdir (envs s c)) (PDX srcva)), PTX srcva)))"
    using page_lookup_aspace [OF pi pgdir_alive [OF ca] legal_va [OF va(2)]] x(1) s1(3,5) by simp
  then have run: "sys_ipc_try_send envid v srcva perm s =
     ret_int (with_pm (page_insert (env_pgdir (envs s1 e)) (env_asid (envs s1 e)) (PPN x)
       (env_ipc_dstva (envs s e)) perm) s1)"
    using s1(7,8) va(1) by simp
  have mp: "mappable (pm s1) ((\<lambda>e. env_pgdir (envs s1 e)) ` alive s1) xs (PPN x)"
    using mapped_mappable [OF pi pgdir_alive [OF ca] x] s1(2,3,5) by simp
  have del: "delivered s c e v perm (s1\<lparr>pm := m\<rparr>)" for m
    using s1(6) by (simp add: delivered_def)
  have e1: "e \<in> alive s1" using id(2) s1(2) by simp
  show ?thesis
  proof (cases rule: page_insert_alive [OF s1(1) e1 va(3) perm mp, where a = "env_asid (envs s1 e)", consumes 0, case_names mapped nomem])
    case (mapped m ys)
    then show ?thesis using run del s1(2,3,5) by (auto simp: ret_int_def ret_def)
  next
    case (nomem m)
    then show ?thesis using run del s1(2,3,5) by (auto simp: ret_int_def ret_def err_def)
  qed
qed

end
