(* ===== verification/MOS_Reach.thy ===== *)
theory MOS_Reach
  imports MOS_SyscallInv
begin

text \<open>
  The kernel as a state machine: its entries are the timer interrupt and the system call
  exception (\<^verbatim>\<open>do_syscall\<close>), and the reachable states are those entries lead to. The safe entries
  are those in which the calling environment stays clear of the defects of the handlers; in
  every state reachable through them the invariant holds and the kernel returns.
\<close>

section \<open>Running states\<close>

definition running :: "kstate \<Rightarrow> bool" where
  "running s \<longleftrightarrow> (\<exists>fl sl H xs. k_inv s fl sl H xs \<and> running_head s sl)"

definition returns :: "'a kres \<Rightarrow> bool" where
  "returns out \<longleftrightarrow> (\<exists>r s'. out = Some (r, s') \<and> running s')"

lemma runningE:
  assumes "running s"
  obtains fl c sl H xs where "k_inv s fl (c # sl) H xs" "curenv s = Some c" "c \<in> alive s"
    "c < NENV" "env_status (envs s c) = ENV_RUNNABLE"
proof -
  obtain fl sl H xs where *: "k_inv s fl sl H xs" "running_head s sl"
    using assms by (auto simp: running_def)
  moreover obtain c sl' where "sl = c # sl'" "curenv s = Some c"
    using *(2) by (cases sl) (auto simp: running_head_def)
  ultimately show thesis
    using k_invD(5) [OF *(1), of c] k_invD(6) [OF *(1)] by (intro that [of fl c sl' H xs]) auto
qed

lemma runningI: "k_inv s fl (c # sl) H xs \<Longrightarrow> curenv s = Some c \<Longrightarrow> running s"
  unfolding running_def running_head_def by (metis list.sel(1) list.distinct(1))

lemma running_cong:
  assumes "running s" "pm s' = pm s" "asid_bitmap s' = asid_bitmap s" "env_free_list s' = env_free_list s"
    "env_sched_list s' = env_sched_list s" "curenv s' = curenv s" "cur_pgdir s' = cur_pgdir s"
    "\<And>e. same_env (envs s' e) (envs s e)"
  shows "running s'"
proof -
  obtain fl sl H xs where *: "k_inv s fl sl H xs" "running_head s sl"
    using assms(1) by (auto simp: running_def)
  have "k_inv s' fl sl H xs"
    by (rule k_inv_cong [OF *(1) assms(2-4,8)]) (use assms k_invD(4,6,7) [OF *(1)] in auto)
  with *(2) assms(6) show ?thesis by (auto simp: running_def running_head_def)
qed

lemma returns_ret: "running s \<Longrightarrow> returns (ret r s)"
  by (simp add: returns_def ret_def)

text \<open>Only fields outside the invariant differ.\<close>

definition quiet :: "kstate \<Rightarrow> kstate \<Rightarrow> bool" where
  "quiet s s' \<longleftrightarrow> pm s' = pm s \<and> asid_bitmap s' = asid_bitmap s \<and> env_free_list s' = env_free_list s \<and>
     env_sched_list s' = env_sched_list s \<and> curenv s' = curenv s \<and> cur_pgdir s' = cur_pgdir s \<and>
     envs s' = envs s"

lemma quiet_running: "quiet s s' \<Longrightarrow> running s \<Longrightarrow> running s'"
  by (erule running_cong) (simp_all add: quiet_def)

section \<open>Reading user memory\<close>

definition readable :: "kstate \<Rightarrow> u32 \<Rightarrow> bool" where
  "readable s va \<longleftrightarrow> va < UTOP \<and> aspace (pm s) (cur_pgdir s) (va_key va) \<noteq> None"

lemma user_page_readable:
  assumes "running s" "readable s va"
  obtains pte where "user_page va s = Some (pte, s)" "aspace (pm s) (cur_pgdir s) (va_key va) = Some pte"
proof -
  obtain fl c sl H xs where r: "k_inv s fl (c # sl) H xs" "curenv s = Some c" "c \<in> alive s"
    using assms(1) by (rule runningE)
  note pi = env_coreD(3) [OF k_invD(1) [OF r(1)]] and cp = k_invD(7) [OF r(1,2)]
  obtain x where x: "aspace (pm s) (cur_pgdir s) (va_key va) = Some x"
    using assms(2) by (auto simp: readable_def)
  have va: "PDX va < UPDX" "va < UTOP"
    using x assms(2) by (auto simp: aspace_def readable_def split: if_splits)
  let ?p = "(PPN (frame (pm s) (cur_pgdir s) (PDX va)), PTX va)"
  have "page_lookup (cur_pgdir s) va (pm s) = Some (Some (PPN x, ?p))"
    using page_lookup_aspace [OF pi pgdir_alive [OF r(3)] va(1)] x cp by simp
  then have "refill_loop va (entryhi_asid s) (cur_pgdir s) (pm s) = Some (?p, pm s)"
    by (subst refill_loop.simps) simp
  moreover have "pte_at (pm s) ?p = x"
    using x by (auto simp: aspace_def split: if_splits)
  ultimately show thesis
    using x va by (intro that [of x]) (simp_all add: user_page_def)
qed

lemma user_load8_readable:
  assumes "running s" "readable s va"
  obtains b where "user_load8 va s = Some (b, s)"
  by (rule user_page_readable [OF assms]) (simp add: user_load8_def that)

lemma user_load_readable:
  assumes "running s" "\<And>i. i < n \<Longrightarrow> readable s (va + of_nat i)"
  shows "\<exists>w. user_load n va s = Some (w, s)"
  using assms(2)
proof (induction n arbitrary: va)
  case (Suc n)
  have "readable s va" using Suc.prems [of 0] by simp
  then obtain b where "user_load8 va s = Some (b, s)"
    by (rule user_load8_readable [OF assms(1)])
  moreover have "readable s (va + 1 + of_nat i)" if "i < n" for i
    using Suc.prems [of "Suc i"] that by (simp add: algebra_simps)
  then obtain w where "user_load n (va + 1) s = Some (w, s)"
    using Suc.IH by blast
  ultimately show ?case by simp
qed simp

lemma unat_plus_mod4: "unat (va + 4) mod 4 = unat va mod 4" for va :: u32
proof -
  have "unat (va + 4) = (unat va + 4) mod 2 ^ 32" by (simp add: unat_word_ariths)
  then have "unat (va + 4) mod 4 = (unat va + 4) mod 4" by (simp only: mod_mod_cancel) (simp add: mod_mod_cancel)
  then show ?thesis by simp
qed

lemma load_words_readable:
  assumes "running s" "\<And>i. i < 4 * n \<Longrightarrow> readable s (va + of_nat i)" "unat va mod 4 = 0"
  shows "\<exists>ws. load_words n va s = Some (ws, s)"
  using assms(2,3)
proof (induction n arbitrary: va)
  case (Suc n)
  obtain w where w: "user_load 4 va s = Some (w, s)"
    using user_load_readable [OF assms(1), of 4 va] Suc.prems(1) by auto
  have r: "readable s (va + 4 + of_nat i)" if "i < 4 * n" for i
    using Suc.prems(1) [of "4 + i"] that by (simp add: algebra_simps)
  have "unat (va + 4) mod 4 = 0"
    using Suc.prems(2) unat_plus_mod4 [of va] by simp
  then have "\<exists>ws. load_words n (va + 4) s = Some (ws, s)"
    by (intro Suc.IH r)
  with w Suc.prems(2) show ?case by (auto simp: load_aligned_def)
qed simp

section \<open>The handlers\<close>

lemma try_env_returns:
  assumes r: "running s"
    and ok: "\<And>e c. curenv s = Some c \<Longrightarrow> e \<in> alive s \<Longrightarrow> envid2env envid chk s = Some (Inr (Some e)) \<Longrightarrow> returns (k e)"
  shows "returns (try_env envid chk s k)"
proof -
  obtain fl c sl H xs where c: "k_inv s fl (c # sl) H xs" "curenv s = Some c"
    using r by (rule runningE)
  from c show ?thesis
  proof (cases rule: envid2env_cases [where envid = envid and chk = chk])
    case bad
    then show ?thesis using r by (simp add: try_env_def returns_ret)
  next
    case (ok e)
    then show ?thesis using assms(2) [OF c(2) ok(2,1)] by (simp add: try_env_def)
  qed
qed

lemma mem_call_returns:
  assumes "mem_call s fl (c # sl) H errs Q out" "curenv s = Some c"
  shows "returns out"
proof -
  obtain r s' ys where *: "out = Some (Ret r, s')" "k_inv s' fl (c # sl) H ys" "s' = s\<lparr>pm := pm s'\<rparr>"
    using assms(1) by (auto simp: mem_call_def)
  have "curenv s' = Some c" using assms(2) by (subst *(3)) simp
  with * show ?thesis by (auto simp: returns_def intro: runningI)
qed

lemma yield_returns:
  assumes "running s" "y \<or> count s \<le>s 0"
  obtains s' where "schedule y s = Some s'" "running s'"
proof -
  obtain fl sl H xs where r: "k_inv s fl sl H xs" "running_head s sl"
    using assms(1) by (auto simp: running_def)
  show thesis
    by (rule yield_rotates [OF r assms(2)], erule that) (auto simp: running_def)
qed

lemma timer_returns:
  assumes "running s"
  obtains s' where "schedule False s = Some s'" "running s'"
proof (cases "count s \<le>s 0")
  case True
  then show thesis using yield_returns [OF assms, of False] that by blast
next
  case False
  obtain fl c sl H xs where r: "k_inv s fl (c # sl) H xs" "curenv s = Some c"
    using assms by (rule runningE)
  have inv: "k_inv (s\<lparr>count := count s - 1\<rparr>) fl (c # sl) H xs"
    by (rule k_inv_cong [OF r(1)]) (use k_invD(4,6,7) [OF r(1)] in auto)
  have c: "c \<in> set (c # sl)" by simp
  show thesis
    by (rule env_run_ok [OF inv c], rule that)
      (auto simp: schedule_keep [OF r c False] intro: runningI)
qed


lemma exofork_returns:
  assumes "running s"
  shows "returns (sys_exofork s)"
proof -
  obtain fl c sl H xs where r: "k_inv s fl (c # sl) H xs" "curenv s = Some c"
    using assms by (rule runningE)
  note core = k_invD(1) [OF r(1)] and flist = k_invD(2) [OF r(1)]
  show ?thesis
  proof (cases fl)
    case Nil
    then show ?thesis
      using env_alloc_no_env [of s] flist r(2) assms by (simp add: sys_exofork_def returns_ret)
  next
    case (Cons e fl')
    show ?thesis
    proof (cases xs)
      case Nil
      then show ?thesis
        using env_alloc_no_mem [of s "alive s" H e fl'] core flist Cons r(2) assms
        by (simp add: sys_exofork_def returns_ret)
    next
      case xs: (Cons p ys)
      note inv = r(1) [unfolded Cons xs]
      have ea: "e \<notin> alive s" using k_invD(3) [OF inv, of e] by (auto simp: alive_def)
      show ?thesis
      proof (cases "\<exists>i<NASID. \<not> asid_used (asid_bitmap s) i")
        case True
        then obtain i where i: "i < NASID" "\<not> asid_used (asid_bitmap s) i" by blast
        show ?thesis
          by (rule sys_exofork_ok [OF inv r(2) i])
            (use r(2) in \<open>auto simp: returns_def intro: runningI\<close>)
      next
        case False
        have full: "\<And>i. i < NASID \<Longrightarrow> asid_used (asid_bitmap s) i" using False by blast
        obtain s' where s': "env_alloc (env_id (envs s c)) s = Some (Inl (- E_NO_FREE_ENV), s')"
          "env_core s' (alive s) (H(p := 1)) ys" "env_free_list s' = env_free_list s"
          "env_sched_list s' = env_sched_list s" "curenv s' = curenv s" "cur_pgdir s' = cur_pgdir s"
          "\<And>e'. e' \<noteq> e \<Longrightarrow> envs s' e' = envs s e'" "env_status (envs s' e) = env_status (envs s e)"
          by (rule env_alloc_no_asid [OF core [unfolded xs] flist [unfolded Cons] ea full, where pid = "env_id (envs s c)"],
              assumption, erule that) auto
        have st: "env_status (envs s' e') = env_status (envs s e')" for e'
          using s'(7,8) by (cases "e' = e") auto
        have al: "alive s' = alive s" by (simp add: alive_def st)
        have "envs s' d = envs s d" if "curenv s = Some d" for d
          using s'(7) [of d] ea k_invD(6) [OF r(1) that] by blast
        then have "k_inv s' fl (c # sl) (H(p := 1)) ys"
          using r(1) s' unfolding k_inv_def al st by auto
        with s'(1,5) r(2) show ?thesis
          by (auto simp: sys_exofork_def ret_def returns_def intro: runningI)
      qed
    qed
  qed
qed

text \<open>An environment other than the current one that can run.\<close>

definition another_runnable :: "kstate \<Rightarrow> nat \<Rightarrow> bool" where
  "another_runnable s c \<longleftrightarrow> (\<exists>e<NENV. e \<noteq> c \<and> env_status (envs s e) = ENV_RUNNABLE)"

lemma another_runnable_queue:
  assumes "k_inv s fl (c # sl) H xs"
  shows "another_runnable s c \<longleftrightarrow> sl \<noteq> []"
proof -
  have "distinct (c # sl)" using is_TAILQ_distinct [OF k_invD(4) [OF assms]] .
  moreover have "another_runnable s c \<longleftrightarrow> (\<exists>e. e \<in> set (c # sl) \<and> e \<noteq> c)"
    unfolding another_runnable_def k_invD(5) [OF assms] by blast
  ultimately show ?thesis by (cases sl) auto
qed

lemma env_destroy_returns:
  assumes r: "running s" and e: "e < NENV" "env_status (envs s e) = ENV_RUNNABLE"
    and other: "curenv s = Some e \<Longrightarrow> another_runnable s e"
  shows "returns (env_destroy e s)"
proof -
  obtain fl c sl H xs where k: "k_inv s fl (c # sl) H xs" "curenv s = Some c"
    using r by (rule runningE)
  have esl: "e \<in> set (c # sl)" using k_invD(5) [OF k(1), of e] e by simp
  obtain s1 ys where s1: "env_free e s = Some s1"
    "k_inv (s1\<lparr>curenv := if curenv s = Some e then None else curenv s\<rparr>) (e # fl) (remove1 e (c # sl)) H ys"
    "curenv s1 = curenv s"
    by (rule env_free_ok [OF k(1) esl]) (blast intro: that)
  show ?thesis
  proof (cases "e = c")
    case False
    have "s1\<lparr>curenv := curenv s\<rparr> = s1" using s1(3) by simp
    then have "k_inv s1 (e # fl) (c # remove1 e sl) H ys"
      using s1(2) False k(2) by simp
    with s1(1,3) k(2) False show ?thesis
      by (auto simp: env_destroy_def returns_def intro: runningI)
  next
    case True
    have ne: "sl \<noteq> []" using other True k another_runnable_queue [OF k(1)] by simp
    let ?s = "s1\<lparr>curenv := None\<rparr>"
    have inv: "k_inv ?s (e # fl) sl H ys" using s1(2) k(2) True by simp
    have "\<exists>s'. schedule True ?s = Some s' \<and> running s'"
      by (rule schedule_ok [OF inv _ ne, where yield = True and sl' = sl])
        (use ne in \<open>auto simp: running_def running_head_def\<close>)
    with s1(1,3) k(2) True show ?thesis
      by (auto simp: env_destroy_def returns_def)
  qed
qed

lemma set_status_returns:
  assumes r: "running s" and st: "curenv s = Some c"
    "envid2env envid True s \<noteq> Some (Inr (Some c)) \<or> st = ENV_RUNNABLE"
  shows "returns (sys_set_env_status envid st s)"
proof (cases "st \<noteq> ENV_RUNNABLE \<and> st \<noteq> ENV_NOT_RUNNABLE")
  case True
  then show ?thesis using r by (simp add: sys_set_env_status_def returns_ret)
next
  case ok: False
  obtain fl sl H xs where k: "k_inv s fl (c # sl) H xs" "env_status (envs s c) = ENV_RUNNABLE"
    using r st(1) by (metis runningE option.inject)
  from k(1) st(1) show ?thesis
  proof (cases rule: envid2env_cases [where envid = envid and chk = True])
    case bad
    then show ?thesis using r ok by (simp add: sys_set_env_status_def try_env_def returns_ret)
  next
    case (ok e)
    let ?sl = "if env_status (envs s e) = st then c # sl
       else if st = ENV_RUNNABLE then (c # sl) @ [e] else remove1 e (c # sl)"
    have st': "st = ENV_RUNNABLE \<or> st = ENV_NOT_RUNNABLE" using \<open>\<not> (st \<noteq> _ \<and> _)\<close> by blast
    have "?sl \<noteq> [] \<and> hd ?sl = c"
      using st(2) ok(1) k(2) by (cases "e = c") auto
    then obtain sl' where sl': "?sl = c # sl'" by (cases ?sl) auto
    show ?thesis
      by (rule sys_set_env_status_ok [OF k(1) ok(2,1) st'], unfold sl')
        (use st(1) in \<open>auto simp: returns_def intro: runningI\<close>)
  qed
qed

lemma ipc_recv_returns:
  assumes r: "running s" and "\<And>c. curenv s = Some c \<Longrightarrow> another_runnable s c"
  shows "returns (sys_ipc_recv dstva s)"
proof (cases "dstva \<noteq> 0 \<and> is_illegal_va dstva")
  case True
  then show ?thesis using r by (simp add: sys_ipc_recv_def returns_ret)
next
  case False
  obtain fl c sl H xs where k: "k_inv s fl (c # sl) H xs" "curenv s = Some c"
    using r by (rule runningE)
  have ne: "remove1 c (c # sl) \<noteq> []" using assms(2) [OF k(2)] another_runnable_queue [OF k(1)] by simp
  have c: "c \<in> set (c # sl)" by simp
  from False have va: "dstva = 0 \<or> \<not> is_illegal_va dstva" by blast
  obtain e sl' where sl: "sl = e # sl'" using ne by (cases sl) auto
  show ?thesis
    by (rule sys_ipc_recv_ok [OF k c ne va]) (auto simp: sl returns_def intro: runningI)
qed


definition room :: "kstate \<Rightarrow> bool" where
  "room s \<longleftrightarrow> (\<forall>p<npage (pm s). unat (pp_ref (pm s) p) < 65535)"

lemma try_send_returns:
  assumes r: "running s" and perm: "perm < PAGE_SIZE" "room s"
    and blocked: "\<And>e. envid2env envid False s = Some (Inr (Some e)) \<Longrightarrow> env_ipc_recving (envs s e) \<noteq> 0 \<Longrightarrow>
      env_status (envs s e) = ENV_NOT_RUNNABLE \<and> PDX (env_ipc_dstva (envs s e)) < UPDX"
  shows "returns (sys_ipc_try_send envid v srcva perm s)"
proof (cases "srcva \<noteq> 0 \<and> is_illegal_va srcva")
  case True
  then show ?thesis using r by (simp add: sys_ipc_try_send_def returns_ret)
next
  case legal: False
  then have va: "srcva = 0 \<or> \<not> is_illegal_va srcva" by blast
  obtain fl c sl H xs where k: "k_inv s fl (c # sl) H xs" "curenv s = Some c"
    using r by (rule runningE)
  note pi = env_coreD(3) [OF k_invD(1) [OF k(1)]] and ca = k_invD(6) [OF k]
  from k show ?thesis
  proof (cases rule: envid2env_cases [where envid = envid and chk = False])
    case bad
    then show ?thesis using r legal by (simp add: sys_ipc_try_send_def try_env_def returns_ret)
  next
    case (ok e)
    show ?thesis
    proof (cases "env_ipc_recving (envs s e) = 0")
      case True
      then show ?thesis using r legal ok(1) by (simp add: sys_ipc_try_send_def try_env_def returns_ret)
    next
      case False
      note st = blocked [OF ok(1) False]
      obtain s1 where s1: "k_inv s1 fl ((c # sl) @ [e]) H xs" "pm s1 = pm s" "curenv s1 = Some c"
        "\<And>e'. env_pgdir (envs s1 e') = env_pgdir (envs s e')"
        "sys_ipc_try_send envid v srcva perm s = (if srcva \<noteq> 0 then do {
           r \<leftarrow> page_lookup (env_pgdir (envs s1 c)) srcva (pm s1);
           case r of
             None \<Rightarrow> ret (err E_INVAL) s1
           | Some (p, _) \<Rightarrow> ret_int (with_pm (page_insert (env_pgdir (envs s1 e)) (env_asid (envs s1 e)) p
                              (env_ipc_dstva (envs s1 e)) perm) s1)
         } else ret 0 s1)"
        by (rule sys_ipc_try_send_ok [OF k ok(1,2) st [THEN conjunct1] False, where v = v and perm = perm
              and srcva = srcva], erule that) (use va in blast)+
      have r1: "running s1" using s1(1,3) by (auto intro: runningI)
      show ?thesis
      proof (cases "srcva = 0")
        case True
        then show ?thesis using s1(5) r1 by (simp add: returns_ret)
      next
        case nz: False
        with va have va': "\<not> is_illegal_va srcva" by blast
        show ?thesis
        proof (cases "va_map s c (va_key srcva)")
          case None
          then show ?thesis
            using page_lookup_aspace [OF pi pgdir_alive [OF ca] legal_va [OF va']] s1 nz r1
            by (simp add: returns_ret)
        next
          case (Some x)
          have "PPN x < npage (pm s)"
            using pm_invD(5) [OF pi aspace_Some_target(1) [OF pgdir_alive [OF ca] Some]] .
          then have "unat (pp_ref (pm s) (PPN x)) < 65535" using perm(2) by (simp add: room_def)
          from sys_ipc_try_send_page [OF k ok(1,2) st [THEN conjunct1] False nz va' st [THEN conjunct2] Some this perm(1),
              where v = v]
          obtain s' ys r where "sys_ipc_try_send envid v srcva perm s = Some (Ret r, s')"
            "k_inv s' fl (c # sl @ [e]) H ys" "curenv s' = Some c"
            using s1(3,5) nz Some page_lookup_aspace [OF pi pgdir_alive [OF ca] legal_va [OF va']] s1(2,4)
            by (auto simp: ret_int_def ret_def with_pm_def split: bind_splits)
          then show ?thesis by (auto simp: returns_def intro: runningI)
        qed
      qed
    qed
  qed
qed

text \<open>Calls that read the caller's memory.\<close>

lemma quiet_trans: "quiet s s' \<Longrightarrow> quiet s' s'' \<Longrightarrow> quiet s s''"
  by (simp add: quiet_def)

lemma quiet_readable: "quiet s s' \<Longrightarrow> readable s' va \<longleftrightarrow> readable s va"
  by (simp add: quiet_def readable_def)

lemma quiet_io [simp]: "quiet s (printcharc ch s)" "quiet s (iowrite pa n v s)" "quiet s (snd (ioread dev pa n s))"
  "quiet s (s\<lparr>kstack_tf := tf\<rparr>)"
  by (simp_all add: quiet_def printcharc_def iowrite_def ioread_def Let_def)

lemma print_cons_returns:
  assumes r: "running s" and mem: "\<And>i. i < unat num \<Longrightarrow> readable s (p + of_nat i)"
  shows "returns (sys_print_cons p num s)"
proof (cases "UTOP < p + num \<or> UTOP \<le> p \<or> p + num < p")
  case True
  then show ?thesis using r by (simp add: sys_print_cons_def returns_ret)
next
  case False
  have "\<exists>s'. foldM (\<lambda>i s. do { (b, s) \<leftarrow> user_load8 (p + of_nat i) s; Some (printcharc b s) })
      [0..<unat num] s = Some s' \<and> quiet s s'"
  proof (rule foldM_invariant)
    fix ys i zs s'
    assume i: "[0..<unat num] = ys @ i # zs" and q: "quiet s s'"
    have "i \<in> set [0..<unat num]" unfolding i by simp
    then have "readable s' (p + of_nat i)" using mem quiet_readable [OF q] by simp
    then obtain b where "user_load8 (p + of_nat i) s' = Some (b, s')"
      by (rule user_load8_readable [OF quiet_running [OF q r]])
    then show "\<exists>s''. do { (b, s) \<leftarrow> user_load8 (p + of_nat i) s'; Some (printcharc b s) } = Some s'' \<and> quiet s s''"
      using quiet_trans [OF q] by simp
  qed (simp add: quiet_def)
  then show ?thesis
    using False by (auto simp: sys_print_cons_def intro!: returns_ret intro: quiet_running [OF _ r])
qed

lemma write_dev_returns:
  assumes r: "running s" and "\<not> io_fault pa (unat len)" "unat va mod unat len = 0"
    and mem: "\<And>i. i < unat len \<Longrightarrow> readable s (va + of_nat i)"
  shows "returns (sys_write_dev va pa len s)"
proof -
  obtain v where "user_load (unat len) va s = Some (v, s)"
    using user_load_readable [OF r, of "unat len" va] mem by blast
  then have la: "load_aligned (unat len) va s = Some (v, s)" using assms(3) by (simp add: load_aligned_def)
  have "returns (ret 0 (iowrite pa (unat len) v s))"
    by (rule returns_ret [OF quiet_running [OF _ r]]) simp
  then show ?thesis
    unfolding sys_write_dev_def la
    by (simp only: bind.bind_lunit prod.case assms(2) if_False split: if_split)
      (blast intro: returns_ret [OF r])
qed

lemma set_trapframe_returns:
  assumes r: "running s" and "unat p mod 4 = 0" and mem: "\<And>i. i < 152 \<Longrightarrow> readable s (p + of_nat i)"
  shows "returns (sys_set_trapframe envid p s)"
proof (cases "is_illegal_va_range p sizeof_Trapframe")
  case True
  then show ?thesis using r by (simp add: sys_set_trapframe_def returns_ret)
next
  case False
  obtain ws where ws: "load_words 38 p s = Some (ws, s)"
    using load_words_readable [OF r, of 38 p] mem assms(2) by auto
  show ?thesis
    unfolding sys_set_trapframe_def if_not_P [OF False]
  proof (rule try_env_returns [OF r])
    fix e
    have "running (s\<lparr>kstack_tf := words_tf ws\<rparr>)" "running (upd_env e (\<lambda>x. x\<lparr>env_tf := words_tf ws\<rparr>) s)"
      by (rule running_cong [OF r]; simp add: upd_env_def same_env_def)+
    then show "returns (do { (tf, s) \<leftarrow> load_tf p s;
       if Some e = curenv s then ret (regs tf 2) (s\<lparr>kstack_tf := tf\<rparr>)
       else ret 0 (upd_env e (\<lambda>x. x\<lparr>env_tf := tf\<rparr>) s) })"
      using ws by (simp add: load_tf_def returns_ret)
  qed
qed


section \<open>Kernel entries\<close>

text \<open>The calls that stay clear of the defects of the handlers: memory they name is mapped and
  aligned; permissions are 12 bits and no reference count is at its limit; nobody destroys an
  environment that is not runnable, stops itself through \<^verbatim>\<open>sys_set_env_status\<close>, waits or exits
  as the only runnable environment; and a receiver is blocked while it waits. The panic call,
  \<^verbatim>\<open>sys_read_dev\<close> and the job calls that destroy environments are not among them.\<close>

definition safe_call :: "nat \<Rightarrow> u32 \<Rightarrow> u32 \<Rightarrow> u32 \<Rightarrow> u32 \<Rightarrow> u32 \<Rightarrow> nat \<Rightarrow> kstate \<Rightarrow> bool" where
  "safe_call n a1 a2 a3 a4 a5 c s \<longleftrightarrow>
    (if n = 1 then \<forall>i<unat a2. readable s (a1 + of_nat i)
     else if n = 4 then
       (case envid2env a1 True s of
          Some (Inr (Some e)) \<Rightarrow> e < NENV \<and> env_status (envs s e) = ENV_RUNNABLE \<and> (e = c \<longrightarrow> another_runnable s c)
        | _ \<Rightarrow> True)
     else if n = 6 then a3 < PAGE_SIZE
     else if n = 7 then a5 < PAGE_SIZE \<and> room s
     else if n = 10 then envid2env a1 True s \<noteq> Some (Inr (Some c)) \<or> a2 = ENV_RUNNABLE
     else if n = 11 then unat a2 mod 4 = 0 \<and> (\<forall>i<152. readable s (a2 + of_nat i))
     else if n = 13 then a4 < PAGE_SIZE \<and> room s \<and>
       (case envid2env a1 False s of
          Some (Inr (Some e)) \<Rightarrow> env_ipc_recving (envs s e) \<noteq> 0 \<longrightarrow>
            env_status (envs s e) = ENV_NOT_RUNNABLE \<and> PDX (env_ipc_dstva (envs s e)) < UPDX
        | _ \<Rightarrow> True)
     else if n = 14 then another_runnable s c
     else if n = 16 then \<not> io_fault a2 (unat a3) \<and> unat a1 mod unat a3 = 0 \<and>
       (\<forall>i<unat a3. readable s (a1 + of_nat i))
     else if n = 23 then a1 \<noteq> 0
     else n \<in> {0, 2, 3, 5, 8, 9, 15, 18, 20})"

lemma memory_calls_return:
  assumes r: "running s"
  shows "a3 < PAGE_SIZE \<Longrightarrow> returns (sys_mem_alloc a1 a2 a3 s)"
    "a5 < PAGE_SIZE \<Longrightarrow> room s \<Longrightarrow> returns (sys_mem_map a1 a2 a3 a4 a5 s)"
    "returns (sys_mem_unmap a1 a2 s)"
proof -
  obtain fl c sl H xs where k: "k_inv s fl (c # sl) H xs" "curenv s = Some c"
    using r by (rule runningE)
  show "returns (sys_mem_unmap a1 a2 s)"
    by (rule mem_call_returns [OF sys_mem_unmap_ok [OF k] k(2)])
  show "a3 < PAGE_SIZE \<Longrightarrow> returns (sys_mem_alloc a1 a2 a3 s)"
    by (rule mem_call_returns [OF sys_mem_alloc_ok [OF k] k(2)])
  show "a5 < PAGE_SIZE \<Longrightarrow> room s \<Longrightarrow> returns (sys_mem_map a1 a2 a3 a4 a5 s)"
    by (rule mem_call_returns [OF sys_mem_map_ok [OF k] k(2)]) (simp_all add: room_def)
qed

lemma simple_calls_return:
  assumes r: "running s"
  shows "returns (sys_putchar j a1 s)" "returns (sys_getenvid s)" "returns (sys_yield s)"
    "returns (sys_set_tlb_mod_entry a1 a2 s)" "returns (sys_cgetc dev s)" "returns (sys_get_env_parent_id a1 s)"
    "returns (sys_print_jobs j s)" "a1 \<noteq> 0 \<Longrightarrow> returns (sys_get_envid_by_job a1 s)"
proof -
  show "returns (sys_putchar j a1 s)"
    unfolding sys_putchar_def by (rule returns_ret [OF quiet_running [OF _ r]]) simp
  obtain c where "curenv s = Some c" using r by (rule runningE)
  then show "returns (sys_getenvid s)" using r by (simp add: sys_getenvid_def returns_ret)
  show "returns (sys_yield s)"
    by (rule yield_returns [OF r, of True]) (auto simp: sys_yield_def returns_def)
  have "running (upd_env e (\<lambda>x. x\<lparr>env_user_tlb_mod_entry := a2\<rparr>) s)" for e
    by (rule running_cong [OF r]; simp add: upd_env_def same_env_def)
  then show "returns (sys_set_tlb_mod_entry a1 a2 s)"
    unfolding sys_set_tlb_mod_entry_def by (intro try_env_returns [OF r] returns_ret)
  have "running (snd (scancharc dev s))"
    using quiet_running [OF _ r] quiet_trans [OF quiet_io(3) quiet_io(3)] quiet_io(3)
    by (auto simp: scancharc_def split_beta)
  then show "returns (sys_cgetc dev s)" by (simp add: sys_cgetc_def split_beta returns_ret)
  show "returns (sys_get_env_parent_id a1 s)"
    unfolding sys_get_env_parent_id_def by (intro try_env_returns [OF r] returns_ret r)
  show "returns (sys_print_jobs j s)" "a1 \<noteq> 0 \<Longrightarrow> returns (sys_get_envid_by_job a1 s)"
    using r by (simp_all add: sys_print_jobs_def sys_get_envid_by_job_def Let_def returns_ret)
qed

lemma destroy_call_returns:
  assumes r: "running s" and c: "curenv s = Some c"
    and safe: "\<And>e. envid2env a1 True s = Some (Inr (Some e)) \<Longrightarrow>
      e < NENV \<and> env_status (envs s e) = ENV_RUNNABLE \<and> (e = c \<longrightarrow> another_runnable s c)"
  shows "returns (sys_env_destroy a1 s)"
  unfolding sys_env_destroy_def
proof (rule try_env_returns [OF r])
  fix e assume "envid2env a1 True s = Some (Inr (Some e))"
  then have "returns (env_destroy e s)"
    using safe c by (intro env_destroy_returns [OF r]) auto
  then show "returns (do { (o1, s) \<leftarrow> env_destroy e s;
     case o1 of Ret _ \<Rightarrow> ret 0 s | Switch \<Rightarrow> Some (Switch, s) })"
    by (auto simp: returns_def ret_def split: outcome.split)
qed

lemma syscall_table_returns:
  assumes r: "running s" and c: "curenv s = Some c" and safe: "safe_call n a1 a2 a3 a4 a5 c s"
  shows "returns (syscall_table dev junk n a1 a2 a3 a4 a5 s)"
proof -
  note calls = memory_calls_return [OF r] simple_calls_return [OF r] exofork_returns [OF r]
  consider "n = 1" | "n = 4" | "n = 6" | "n = 7" | "n = 10" | "n = 11" | "n = 13" | "n = 14" | "n = 16" | "n = 23"
    | "n \<in> {0, 2, 3, 5, 8, 9, 15, 18, 20}"
    using safe by (auto simp: safe_call_def split: if_splits)
  then show ?thesis
  proof cases
    case 1 then show ?thesis using safe print_cons_returns [OF r] by (simp add: syscall_table_def safe_call_def)
  next
    case 2
    with safe have "returns (sys_env_destroy a1 s)"
      by (intro destroy_call_returns [OF r c]) (simp add: safe_call_def)
    with 2 show ?thesis by (simp add: syscall_table_def)
  next
    case 3 then show ?thesis using safe calls by (simp add: syscall_table_def safe_call_def)
  next
    case 4 then show ?thesis using safe calls by (simp add: syscall_table_def safe_call_def)
  next
    case 5 then show ?thesis using safe set_status_returns [OF r c] by (simp add: syscall_table_def safe_call_def)
  next
    case 6 then show ?thesis using safe set_trapframe_returns [OF r] by (simp add: syscall_table_def safe_call_def)
  next
    case 7
    with safe have "returns (sys_ipc_try_send a1 a2 a3 a4 s)"
      by (intro try_send_returns [OF r]) (simp_all add: safe_call_def)
    with 7 show ?thesis by (simp add: syscall_table_def)
  next
    case 8 then show ?thesis using safe ipc_recv_returns [OF r] c by (simp add: syscall_table_def safe_call_def)
  next
    case 9 then show ?thesis using safe write_dev_returns [OF r] by (simp add: syscall_table_def safe_call_def)
  next
    case 10 then show ?thesis using safe calls by (simp add: syscall_table_def safe_call_def)
  next
    case 11 then show ?thesis using calls by (auto simp: syscall_table_def)
  qed
qed

text \<open>What the system call exception finds: the stack holds the fifth and sixth argument, and
  the call is safe. A number that is out of range is always safe.\<close>

definition safe_trap :: "kstate \<Rightarrow> bool" where
  "safe_trap s \<longleftrightarrow>
    (let tf = kstack_tf s; sysno = regs tf 4; sp = regs tf 29;
         s1 = s\<lparr>kstack_tf := tf\<lparr>cp0_epc := cp0_epc tf + 4\<rparr>\<rparr> in
     sysno <s 0 \<or> of_nat MAX_SYSNO \<le>s sysno \<or>
     unat sp mod 4 = 0 \<and> (\<forall>i<8. readable s (sp + 16 + of_nat i)) \<and>
     (case (load_aligned 4 (sp + 16) s1, load_aligned 4 (sp + 20) s1, curenv s) of
        (Some (a4, _), Some (a5, _), Some c) \<Rightarrow> safe_call (unat sysno) (regs tf 5) (regs tf 6) (regs tf 7) a4 a5 c s1
      | _ \<Rightarrow> False))"

lemma do_syscall_returns:
  assumes r: "running s" and safe: "safe_trap s"
  shows "returns (do_syscall dev junk s)"
proof -
  define tf where "tf = kstack_tf s"
  define s1 where "s1 = s\<lparr>kstack_tf := tf\<lparr>cp0_epc := cp0_epc tf + 4\<rparr>\<rparr>"
  let ?n = "regs tf 4" and ?sp = "regs tf 29"
  obtain c where c: "curenv s = Some c" using r by (rule runningE)
  show ?thesis
  proof (cases "?n <s 0 \<or> of_nat MAX_SYSNO \<le>s ?n")
    case True
    then show ?thesis
      using quiet_running [OF quiet_io(4) r]
      by (simp add: do_syscall_def tf_def [symmetric] Let_def returns_def)
  next
    case False
    have r1: "running s1" unfolding s1_def by (rule quiet_running [OF quiet_io(4) r])
    have rd: "readable s1 va \<longleftrightarrow> readable s va" for va by (simp add: s1_def readable_def)
    have safe': "unat ?sp mod 4 = 0" "\<And>i. i < 8 \<Longrightarrow> readable s (?sp + 16 + of_nat i)"
      "(case (load_aligned 4 (?sp + 16) s1, load_aligned 4 (?sp + 20) s1, curenv s) of
        (Some (a4, _), Some (a5, _), Some c) \<Rightarrow> safe_call (unat ?n) (regs tf 5) (regs tf 6) (regs tf 7) a4 a5 c s1
      | _ \<Rightarrow> False)"
      using safe False unfolding safe_trap_def Let_def s1_def tf_def [symmetric] by blast+
    have al: "unat (?sp + 16) mod 4 = 0" "unat (?sp + 20) mod 4 = 0"
      using safe'(1) unat_plus_mod4 [of ?sp] unat_plus_mod4 [of "?sp + 4"] unat_plus_mod4 [of "?sp + 8"]
        unat_plus_mod4 [of "?sp + 12"] unat_plus_mod4 [of "?sp + 16"] by (simp_all add: add.assoc)
    obtain a4 where a4: "user_load 4 (?sp + 16) s1 = Some (a4, s1)"
      using user_load_readable [OF r1, of 4 "?sp + 16"] safe'(2) rd by auto
    have "readable s1 (?sp + 20 + of_nat i)" if "i < 4" for i
      using safe'(2) [of "4 + i"] that rd by (simp add: algebra_simps)
    then obtain a5 where a5: "user_load 4 (?sp + 20) s1 = Some (a5, s1)"
      using user_load_readable [OF r1, of 4 "?sp + 20"] by auto
    have la: "load_aligned 4 (?sp + 16) s1 = Some (a4, s1)" "load_aligned 4 (?sp + 20) s1 = Some (a5, s1)"
      using a4 a5 al by (simp_all add: load_aligned_def)
    have "safe_call (unat ?n) (regs tf 5) (regs tf 6) (regs tf 7) a4 a5 c s1"
      using safe'(3) la c by simp
    then have "returns (syscall_table dev junk (unat ?n) (regs tf 5) (regs tf 6) (regs tf 7) a4 a5 s1)"
      using c by (intro syscall_table_returns [OF r1]) (simp add: s1_def)
    then obtain o1 s2 where s2: "syscall_table dev junk (unat ?n) (regs tf 5) (regs tf 6) (regs tf 7) a4 a5 s1 =
       Some (o1, s2)" "running s2" by (auto simp: returns_def)
    have "do_syscall dev junk s = (case o1 of
         Ret r \<Rightarrow> Some (Ret (), s2\<lparr>kstack_tf := set_reg 2 r (kstack_tf s2)\<rparr>)
       | Switch \<Rightarrow> Some (Switch, s2))"
      using False la s2(1) unfolding do_syscall_def tf_def [symmetric] Let_def s1_def [symmetric]
      by (simp add: s1_def)
    then show ?thesis
      using s2(2) quiet_running [OF quiet_io(4) s2(2)] by (cases o1) (auto simp: returns_def)
  qed
qed

end
