(* ===== verification/MOS_Entry.thy ===== *)
theory MOS_Entry
  imports MOS_Reach
begin

text \<open>
  User code between two kernel entries, and the states the system reaches. User code changes
  its registers and its memory; an access to a page that is not there enters the TLB refill
  handler, which allocates it.
\<close>

section \<open>Writing a mapped page\<close>

text \<open>A page that an address space maps is neither a page directory nor a page table, so
  writing it changes no mapping of anyone.\<close>

lemma leaf_write:
  assumes inv: "pm_inv m R H xs" and d: "d \<in> R" and x: "aspace m d (i, j) = Some x"
    and m': "m' = store_pte (PPN x, k) w m"
  shows "pm_inv m' R H xs" "\<And>d'. d' \<in> R \<Longrightarrow> aspace m' d' = aspace m d'"
proof -
  note T = aspace_Some_target [OF d x]
  have nr: "PPN x \<notin> R" using root_unique [OF inv _ T(1)] by blast
  have nt: "target m R (PdeAt d' i') \<noteq> Some (PPN x)" for d' i'
    using table_unique [OF inv _ T(1)] by blast
  have fr: "frame m' p = frame m p" if "p \<noteq> PPN x" for p using that by (simp add: m')
  have tab: "PPN (frame m d' i') \<noteq> PPN x" if "d' \<in> R" "i' < UPDX" "pte_valid (frame m d' i')" for d' i'
    using nt [of d' i'] that by simp
  have tg: "target m' R = target m R"
    by (rule target_cong) (use fr nr tab in metis)+
  then have "refs m' R = refs m R" by (simp add: refs_def fun_eq_iff)
  with tg inv show "pm_inv m' R H xs"
    unfolding pm_inv_def m' by simp
  show "aspace m' d' = aspace m d'" if "d' \<in> R" for d'
    by (rule aspace_cong) (use fr nr tab that in metis)+
qed

text \<open>Writing one byte of physical memory and reading it back.\<close>

lemma get_put_byte:
  assumes "j < 4" "k < 4"
  shows "get_byte j (put_byte b k w) = (if j = k then b else get_byte j w)"
proof (rule bit_word_eqI)
  fix n assume n: "n < LENGTH(8)"
  have m: "(0xFF :: u32) = mask 8" by (simp add: mask_eq_exp_minus_1)
  have in32: "8 * j + n < 32" using assms n by simp
  show "bit (get_byte j (put_byte b k w)) n = bit (if j = k then b else get_byte j w) n"
  proof (cases "j = k")
    case True
    then show ?thesis
      unfolding get_byte_def put_byte_def m using n in32 by (simp add: bit_simps)
  next
    case False
    then have "8 * k \<le> 8 * j + n \<Longrightarrow> \<not> 8 * j + n - 8 * k < 8" using n by simp
    then show ?thesis
      unfolding get_byte_def put_byte_def m using n in32 False
      by (auto simp: bit_simps dest: bit_imp_le_length)
  qed
qed

lemma phys_read_write:
  "phys_read8 a (phys_write8 a' b m) = (if a = a' then b else phys_read8 a m)"
proof (cases "a div 4096 = a' div 4096 \<and> a mod 4096 div 4 = a' mod 4096 div 4")
  case True
  have "a = a' \<longleftrightarrow> a mod 4 = a' mod 4"
  proof
    assume 4: "a mod 4 = a' mod 4"
    have s: "n = 4096 * (n div 4096) + 4 * (n mod 4096 div 4) + n mod 4" for n :: nat
    proof -
      have "n mod 4096 mod 4 = n mod 4" by (simp add: mod_mod_cancel)
      then show ?thesis
        using div_mult_mod_eq [of "n mod 4096" 4] div_mult_mod_eq [of n 4096] by linarith
    qed
    show "a = a'" using s [of a] s [of a'] True 4 by metis
  qed simp
  then show ?thesis
    using True by (simp add: phys_read8_def phys_write8_def Let_def get_put_byte)
next
  case False
  then show ?thesis by (auto simp: phys_read8_def phys_write8_def Let_def)
qed

lemma page_byte_eq:
  "u < 4096 \<Longrightarrow> u' < 4096 \<Longrightarrow> p * 4096 + u = p' * 4096 + u' \<longleftrightarrow> p = p' \<and> u = u'" for u u' p p' :: nat
proof
  assume u: "u < 4096" "u' < 4096" and "p * 4096 + u = p' * 4096 + u'"
  then have "(p * 4096 + u) div 4096 = (p' * 4096 + u') div 4096"
    "(p * 4096 + u) mod 4096 = (p' * 4096 + u') mod 4096" by simp_all
  with u show "p = p' \<and> u = u'" by simp
qed simp

lemma phys_read_frame:
  "u < 4096 \<Longrightarrow> frame m' p = frame m p \<Longrightarrow> phys_read8 (p * 4096 + u) m' = phys_read8 (p * 4096 + u) m"
  by (simp add: phys_read8_def)

lemma phys_read_zero: "u < 4096 \<Longrightarrow> frame m p = (\<lambda>_. 0) \<Longrightarrow> phys_read8 (p * 4096 + u) m = 0"
  by (simp add: phys_read8_def get_byte_def)

text \<open>A page that someone maps is neither free, nor a directory, nor a table.\<close>

lemma leaf_page:
  assumes inv: "pm_inv m R H xs" and d: "d \<in> R" and x: "aspace m d k = Some x"
  shows "PPN x \<notin> set xs" "PPN x \<notin> R" "target m R (PdeAt d' i') \<noteq> Some (PPN x)"
proof -
  obtain i j where k: "k = (i, j)" by (cases k)
  note T = aspace_Some_target(1) [OF d x [unfolded k]]
  show "PPN x \<notin> set xs" using free_no_site [OF inv] T by blast
  show "PPN x \<notin> R" using root_unique [OF inv _ T] by blast
  show "target m R (PdeAt d' i') \<noteq> Some (PPN x)" using table_unique [OF inv _ T] by blast
qed

section \<open>Demand paging\<close>

text \<open>The refill handler returns for every address it may serve, if the page is there or two
  pages are free (one for the page, one for its table); afterwards the address is mapped, and
  it is the only mapping that may have been added.\<close>

definition demand_va :: "u32 \<Rightarrow> bool" where
  "demand_va va \<longleftrightarrow> UTEMP \<le> va \<and> va < UTOP \<and> \<not> (USTACKTOP \<le> va \<and> va < USTACKTOP + PAGE_SIZE)"

lemma PTE_ADDR_key: "va_key (PTE_ADDR va) = va_key va"
  by (simp add: PDX_def PTX_def PTE_ADDR_def drop_bit_and and.assoc)

lemma with_pm_Some: "with_pm f s = Some (r, s\<lparr>pm := m\<rparr>) \<longleftrightarrow> f (pm s) = Some (r, m)"
  by (auto simp: with_pm_def split: bind_splits dest: arg_cong [of _ _ pm])

lemma refill_mapped:
  assumes inv: "pm_inv m R H xs" and d: "d \<in> R" and va: "va < UTOP" and x: "aspace m d (va_key va) = Some x"
  obtains ppte where "refill_loop va asid d m = Some (ppte, m)" "pte_at m ppte = x" "snd ppte = PTX va"
proof
  let ?p = "(PPN (frame m d (PDX va)), PTX va)"
  have "page_lookup d va m = Some (Some (PPN x, ?p))"
    using page_lookup_aspace [OF inv d PDX_user [OF va]] x by simp
  then show "refill_loop va asid d m = Some (?p, m)" by (subst refill_loop.simps) simp
  show "pte_at m ?p = x" using x by (auto simp: aspace_def split: if_splits)
qed simp

text \<open>The footprint of a refill: apart from the page it hands out, which it clears, the handler
  writes the page directory, the page table of the address, and free pages.\<close>

lemma page_insert_unmapped:
  assumes "pm_inv m R H xs" "d \<in> R" "PDX va < UPDX" "aspace m d (va_key va) = None"
  shows "page_insert d asid pp va perm m = page_insert_new d asid pp va perm m"
  using pgdir_walk_lookup [OF assms(1-3)] assms(2-4)
  by (auto simp: page_insert_def aspace_def split: if_splits)

lemma page_insert_new_frame:
  assumes inv: "pm_inv m R H xs" and d: "d \<in> R" and va: "PDX va < UPDX"
    and ins: "page_insert_new d asid pp va perm m = Some (r, m')"
    and q: "q \<notin> set xs" "q \<noteq> d" "target m R (PdeAt d (PDX va)) \<noteq> Some q"
  shows "frame m' q = frame m q"
proof -
  let ?m = "tlb_invalidate asid va m"
  have inv': "pm_inv ?m R H xs" using inv by simp
  show ?thesis
  proof (cases "pte_valid (frame m d (PDX va))")
    case True
    then have t: "target ?m R (PdeAt d (PDX va)) = Some (PPN (frame m d (PDX va)))" using d va by simp
    then have "PPN (frame m d (PDX va)) \<noteq> q" using q(3) by auto
    with ins pgdir_walk_create_old [OF inv' t] show ?thesis by (auto simp: page_insert_new_def)
  next
    case False
    show ?thesis
    proof (cases xs)
      case Nil
      with ins page_insert_new_nomem [of m R H] inv False show ?thesis by auto
    next
      case (Cons t ys)
      obtain m1 where m1: "pgdir_walk d va True ?m = Some (Inr (Some (t, PTX va)), m1)"
        using pgdir_walk_create_new [OF inv' [unfolded Cons] d va] False by auto
      obtain m0 where "page_alloc ?m = Some (Inr t, m0)" "frame m0 = (frame m)(t := (\<lambda>_. 0))"
        using page_alloc_Cons [OF inv' [unfolded Cons]] by (metis tlb_invalidate_simps(1))
      with m1 False have "frame m1 q = frame m q"
        using q Cons by (auto simp: pgdir_walk_def Let_def split: bind_splits)
      then show ?thesis using ins m1 q Cons by (auto simp: page_insert_new_def)
    qed
  qed
qed

lemma passive_alloc_frame:
  assumes inv: "pm_inv m R H xs" and d: "d \<in> R" and va: "va < UTOP"
    and none: "aspace m d (va_key va) = None" and pa: "passive_alloc va d asid m = Some m'"
  shows "q \<notin> set xs \<Longrightarrow> q \<noteq> d \<Longrightarrow> target m R (PdeAt d (PDX va)) \<noteq> Some q \<Longrightarrow> frame m' q = frame m q"
    and "frame m' (hd xs) = (\<lambda>_. 0)"
proof -
  obtain p m1 r perm where m1: "page_alloc m = Some (Inr p, m1)"
    "page_insert d asid p (PTE_ADDR va) perm m1 = Some (r, m')"
    using pa by (auto simp: passive_alloc_def split: if_splits bind_splits sum.splits)
  then obtain ys where xs: "xs = p # ys"
    using inv page_alloc_empty page_alloc_Cons by (cases xs) (fastforce, metis Pair_inject option.inject sum.inject(2))
  obtain fr: "pm_inv m1 R H ys" "target m1 R = target m R" "frame m1 = (frame m)(p := (\<lambda>_. 0))"
    "aspace m1 d = aspace m d"
    by (rule page_alloc_Cons [OF inv [unfolded xs]]) (use m1(1) d in auto)
  have pa': "PDX (PTE_ADDR va) = PDX va" and va': "PDX (PTE_ADDR va) < UPDX"
    and none': "aspace m1 d (va_key (PTE_ADDR va)) = None"
    using PTE_ADDR_key [of va] PDX_user [OF va] none fr(4) by simp_all
  note new = page_insert_unmapped [OF fr(1) d va' none'] page_insert_new_frame [OF fr(1) d va']
  have step: "frame m' q = frame m1 q" if "q \<notin> set ys" "q \<noteq> d" "target m R (PdeAt d (PDX va)) \<noteq> Some q" for q
    using new(2) that m1(2) pa' fr(2) unfolding new(1) by metis
  show "frame m' q = frame m q" if "q \<notin> set xs" "q \<noteq> d" "target m R (PdeAt d (PDX va)) \<noteq> Some q"
    using step [of q] that fr(3) xs by simp
  have "p \<notin> set ys" using pm_inv_distinct [OF inv] xs by simp
  moreover have "target m R x \<noteq> Some p" for x
    using free_no_site [OF inv, of p] xs by simp
  then have "p \<noteq> d" "target m R (PdeAt d (PDX va)) \<noteq> Some p"
    using d target.simps(1) [of m R d] by metis+
  ultimately show "frame m' (hd xs) = (\<lambda>_. 0)"
    using step [of p] fr(3) xs by simp
qed

text \<open>In general: if the handler returns, the state is as before or has one more mapping; and it
  returns when the page is there or two pages are free.\<close>

lemma refill_step:
  assumes inv: "k_inv s fl sl H xs" and e: "e \<in> alive s" and va: "va < UTOP"
    and unmapped: "va_map s e (va_key va) = None"
  shows "(\<exists>p ys m ppte. xs = p # ys \<and> passive_alloc va (env_pgdir (envs s e)) a (pm s) = Some m \<and>
      refill_loop va a (env_pgdir (envs s e)) (pm s) = Some (ppte, m) \<and> pte_at m ppte = mk_pte p PTE_D \<and> snd ppte = PTX va \<and>
      (\<exists>zs. k_inv (s\<lparr>pm := m\<rparr>) fl sl H zs) \<and>
      aspace m (env_pgdir (envs s e)) = (va_map s e)(va_key va \<mapsto> mk_pte p PTE_D) \<and>
      (\<forall>e'\<in>alive s - {e}. aspace m (env_pgdir (envs s e')) = va_map s e')) \<or>
    refill_loop va a (env_pgdir (envs s e)) (pm s) = None \<and> (demand_va va \<longrightarrow> length xs < 2)"
proof -
  let ?d = "env_pgdir (envs s e)" and ?R = "(\<lambda>e. env_pgdir (envs s e)) ` alive s"
  note pi = env_coreD(3) [OF k_invD(1) [OF inv]] and d = pgdir_alive [OF e]
  have "page_lookup ?d va (pm s) = Some None"
    using page_lookup_aspace [OF pi d PDX_user [OF va]] unmapped by simp
  then have loop: "refill_loop va a ?d (pm s) = do { m \<leftarrow> passive_alloc va ?d a (pm s); refill_loop va a ?d m }"
    by (subst refill_loop.simps) simp
  show ?thesis
  proof (cases "demand_va va")
    case False
    then have "passive_alloc va ?d a (pm s) = None"
      using va by (auto simp: demand_va_def passive_alloc_def)
    then show ?thesis using loop False by simp
  next
    case True
    then have guards: "\<not> va < UTEMP" "\<not> (USTACKTOP \<le> va \<and> va < USTACKTOP + PAGE_SIZE)"
      "\<not> (UENVS \<le> va \<and> va < UPAGES)" "\<not> (UPAGES \<le> va \<and> va < UVPT)" "\<not> ULIM \<le> va" "\<not> (UVPT \<le> va \<and> va < ULIM)"
      using va by (auto simp: demand_va_def word_less_nat_alt word_le_nat_alt)
    from inv show ?thesis
    proof (cases rule: page_alloc_alive)
      case nomem
      then have "passive_alloc va ?d a (pm s) = None"
        using guards by (auto simp: passive_alloc_def with_pm_def split: bind_splits)
      then show ?thesis using loop nomem(1) by simp
    next
      case (got p ys m)
      let ?s = "s\<lparr>pm := m\<rparr>"
      have pa: "page_alloc (pm s) = Some (Inr p, m)"
        using got(2) by (simp add: with_pm_Some)
      have al: "alive ?s = alive s" by (simp add: alive_def)
      have e': "e \<in> alive ?s" and mp: "mappable (pm ?s) ((\<lambda>e. env_pgdir (envs ?s e)) ` alive ?s) ys p"
        using e got(4) al by simp_all
      have va': "PDX (PTE_ADDR va) < UPDX" using PTE_ADDR_key [of va] PDX_user [OF va] by simp
      have perm: "PTE_D < PAGE_SIZE" by (simp add: PTE_D_def)
      show ?thesis
      proof (cases rule: page_insert_alive [OF got(3) e' va' perm mp, where a = a, consumes 0, case_names mapped nomem])
        case (mapped m' zs)
        have pal: "passive_alloc va ?d a (pm s) = Some m'"
          using mapped(1) pa guards with_pm_Some [of "page_insert ?d a p (PTE_ADDR va) PTE_D" ?s 0 m']
          by (auto simp: passive_alloc_def)
        have as: "aspace m' ?d = (va_map s e)(va_key va \<mapsto> mk_pte p PTE_D)"
          using mapped(3) got(5) [OF e] PTE_ADDR_key [of va] by simp
        have pi': "pm_inv m' ?R H zs"
          using env_coreD(3) [OF k_invD(1) [OF mapped(2)]] al by (simp add: alive_def)
        have "aspace m' ?d (va_key va) = Some (mk_pte p PTE_D)" using as by simp
        then obtain ppte where "refill_loop va a ?d m' = Some (ppte, m')" "pte_at m' ppte = mk_pte p PTE_D"
          "snd ppte = PTX va"
          by (rule refill_mapped [OF pi' d va])
        then show ?thesis
          using loop pal as got(1,5) mapped(2,4) al by (intro disjI1) auto
      next
        case (nomem m')
        have "passive_alloc va ?d a (pm s) = None"
          using nomem(1) pa guards with_pm_Some [of "page_insert ?d a p (PTE_ADDR va) PTE_D" ?s "- E_NO_MEM" m']
          by (auto simp: passive_alloc_def)
        moreover have "length xs < 2"
          using nomem(4) got(1) by simp
        ultimately show ?thesis using loop by simp
      qed
    qed
  qed
qed


section \<open>Accesses of user code\<close>

text \<open>An access that returns leaves the current page mapped by the entry it found, and all
  other mappings and all mapped pages of all environments as they were; a page that was not
  there comes from the free list and is clear.\<close>

lemma user_page_ok:
  assumes inv: "k_inv s fl sl H xs" and c: "curenv s = Some c" and page: "user_page va s = Some (pte, s1)"
  obtains ys where "k_inv s1 fl sl H ys" "s1 = s\<lparr>pm := pm s1\<rparr>" "va_map s1 c (va_key va) = Some pte"
    "\<And>k. k \<noteq> va_key va \<Longrightarrow> va_map s1 c k = va_map s c k" "va_map s c (va_key va) \<in> {None, Some pte}"
    "\<And>e. e \<in> alive s \<Longrightarrow> e \<noteq> c \<Longrightarrow> va_map s1 e = va_map s e"
    "\<And>e k x. e \<in> alive s \<Longrightarrow> va_map s e k = Some x \<Longrightarrow> frame (pm s1) (PPN x) = frame (pm s) (PPN x)"
    "va_map s c (va_key va) = None \<Longrightarrow> PPN pte \<in> set xs \<and> frame (pm s1) (PPN pte) = (\<lambda>_. 0)"
proof -
  note pi = env_coreD(3) [OF k_invD(1) [OF inv]] and ca = k_invD(6) [OF inv c] and cp = k_invD(7) [OF inv c]
  have va: "va < UTOP" using page by (auto simp: user_page_def split: if_splits)
  obtain ppte m where m: "refill_loop va (entryhi_asid s) (env_pgdir (envs s c)) (pm s) = Some (ppte, m)"
    "pte = pte_at m ppte" "s1 = s\<lparr>pm := m\<rparr>"
    using page va cp by (auto simp: user_page_def split: bind_splits)
  show thesis
  proof (cases "va_map s c (va_key va)")
    case (Some x)
    obtain q where "refill_loop va (entryhi_asid s) (env_pgdir (envs s c)) (pm s) = Some (q, pm s)" "pte_at (pm s) q = x"
      by (rule refill_mapped [OF pi pgdir_alive [OF ca] va Some])
    with m have "s1 = s" "pte = x" by auto
    then show thesis using inv Some by (intro that [of xs]) simp_all
  next
    case None
    from refill_step [OF inv ca va None, of "entryhi_asid s"] m obtain p ys zs where new:
      "pte = mk_pte p PTE_D" "k_inv s1 fl sl H zs"
      "aspace m (env_pgdir (envs s c)) = (va_map s c)(va_key va \<mapsto> mk_pte p PTE_D)"
      "\<forall>e'\<in>alive s - {c}. aspace m (env_pgdir (envs s e')) = va_map s e'"
      "xs = p # ys" "passive_alloc va (env_pgdir (envs s c)) (entryhi_asid s) (pm s) = Some m"
      by auto
    note fr = passive_alloc_frame [OF pi pgdir_alive [OF ca] va None new(6)]
    have keep: "frame m (PPN x) = frame (pm s) (PPN x)" if "e \<in> alive s" "va_map s e k = Some x" for e k x
      using leaf_page [OF pi pgdir_alive [OF that(1)] that(2)] pgdir_alive [OF ca]
      by (intro fr(1)) auto
    have "p < 2 ^ 20" using pm_invD(1) [OF pi] pm_invD(4) [OF pi, of p] new(5) by auto
    then have "PPN pte = p" using new(1) by (simp add: PTE_D_def)
    then show thesis using m(3) None new fr(2) keep by (intro that [of zs]) auto
  qed
qed

lemma user_store8_ok:
  assumes inv: "k_inv s fl sl H xs" and c: "curenv s = Some c" and st: "user_store8 va b s = Some s'"
  obtains ys pte where "k_inv s' fl sl H ys" "s' = s\<lparr>pm := pm s'\<rparr>" "va_map s' c (va_key va) = Some pte"
    "pte AND PTE_D \<noteq> 0"
    "\<And>k. k \<noteq> va_key va \<Longrightarrow> va_map s' c k = va_map s c k" "va_map s c (va_key va) \<in> {None, Some pte}"
    "\<And>e. e \<in> alive s \<Longrightarrow> e \<noteq> c \<Longrightarrow> va_map s' e = va_map s e"
    "\<And>e k x u. e \<in> alive s \<Longrightarrow> va_map s e k = Some x \<Longrightarrow> u < 4096 \<Longrightarrow>
      phys_read8 (PPN x * 4096 + u) (pm s') =
      (if PPN x = PPN pte \<and> u = unat (va mod PAGE_SIZE) then b else phys_read8 (PPN x * 4096 + u) (pm s))"
    "\<And>u. va_map s c (va_key va) = None \<Longrightarrow> u < 4096 \<Longrightarrow> PPN pte \<in> set xs \<and>
      phys_read8 (PPN pte * 4096 + u) (pm s') = (if u = unat (va mod PAGE_SIZE) then b else 0)"
proof -
  obtain pte s1 where p: "user_page va s = Some (pte, s1)" "pte AND PTE_D \<noteq> 0"
    "s' = s1\<lparr>pm := phys_write8 (PPN pte * 4096 + unat (va mod PAGE_SIZE)) b (pm s1)\<rparr>"
    using st by (auto simp: user_store8_def split: bind_splits if_splits)
  obtain ys where s1: "k_inv s1 fl sl H ys" "s1 = s\<lparr>pm := pm s1\<rparr>" "va_map s1 c (va_key va) = Some pte"
    "\<And>k. k \<noteq> va_key va \<Longrightarrow> va_map s1 c k = va_map s c k" "va_map s c (va_key va) \<in> {None, Some pte}"
    "\<And>e. e \<in> alive s \<Longrightarrow> e \<noteq> c \<Longrightarrow> va_map s1 e = va_map s e"
    "\<And>e k x. e \<in> alive s \<Longrightarrow> va_map s e k = Some x \<Longrightarrow> frame (pm s1) (PPN x) = frame (pm s) (PPN x)"
    "va_map s c (va_key va) = None \<Longrightarrow> PPN pte \<in> set xs \<and> frame (pm s1) (PPN pte) = (\<lambda>_. 0)"
    by (rule user_page_ok [OF inv c p(1)], rule that)
  have es: "envs s1 = envs s" "alive s1 = alive s" "curenv s1 = curenv s"
    by (subst s1(2), simp add: alive_def)+
  have off: "unat (va mod PAGE_SIZE) < 4096" by (simp add: unat_mod)
  then obtain k w where w: "pm s' = store_pte (PPN pte, k) w (pm s1)"
    by (simp add: p(3) phys_write8_def Let_def)
  have ca: "c \<in> alive s1" using k_invD(6) [OF inv c] es by simp
  note lw = leaf_write [OF env_coreD(3) [OF k_invD(1) [OF s1(1)]] pgdir_alive [OF ca] s1(3) w]
  have "k_inv (s1\<lparr>pm := pm s'\<rparr>) fl sl H ys" by (rule k_inv_pm [OF s1(1) lw(1)])
  moreover have "s1\<lparr>pm := pm s'\<rparr> = s'" by (simp add: p(3))
  moreover have "s' = s\<lparr>pm := pm s'\<rparr>" by (subst p(3), subst s1(2)) (simp add: p(3))
  moreover have "envs s' = envs s1" by (simp add: p(3))
  then have "va_map s' e = va_map s1 e" if "e \<in> alive s" for e
    using lw(2) [OF pgdir_alive, of e] that es by simp
  moreover have rd: "phys_read8 (q * 4096 + u) (pm s') =
      (if q = PPN pte \<and> u = unat (va mod PAGE_SIZE) then b else phys_read8 (q * 4096 + u) (pm s1))"
    if "u < 4096" for q u
    using that off by (simp add: p(3) phys_read_write page_byte_eq)
  have "phys_read8 (PPN x * 4096 + u) (pm s') =
      (if PPN x = PPN pte \<and> u = unat (va mod PAGE_SIZE) then b else phys_read8 (PPN x * 4096 + u) (pm s))"
    if "e \<in> alive s" "va_map s e k = Some x" "u < 4096" for e k x u
    using rd [OF that(3), of "PPN x"] phys_read_frame [OF that(3) s1(7) [OF that(1,2)]] by simp
  moreover have "PPN pte \<in> set xs \<and>
      phys_read8 (PPN pte * 4096 + u) (pm s') = (if u = unat (va mod PAGE_SIZE) then b else 0)"
    if "va_map s c (va_key va) = None" "u < 4096" for u
    using rd [OF that(2), of "PPN pte"] s1(8) [OF that(1)] phys_read_zero [OF that(2)] by simp
  ultimately show thesis
    using s1(3-6) p(2) k_invD(6) [OF inv c] by (intro that [of ys pte]) (simp_all only: simp_thms)
qed


section \<open>Reachable states\<close>

text \<open>From a given state: the user code changes its registers, stores a byte or reads one
  (possibly through the refill handler), a timer interrupt comes in, or a safe system call is
  made.\<close>

inductive reachable :: "kstate \<Rightarrow> kstate \<Rightarrow> bool" for s0 where
  boot: "reachable s0 s0"
| compute: "reachable s0 s \<Longrightarrow> reachable s0 (s\<lparr>kstack_tf := tf\<rparr>)"
| store: "reachable s0 s \<Longrightarrow> user_store8 va b s = Some s' \<Longrightarrow> reachable s0 s'"
| load: "reachable s0 s \<Longrightarrow> user_load8 va s = Some (b, s') \<Longrightarrow> reachable s0 s'"
| timer: "reachable s0 s \<Longrightarrow> schedule False s = Some s' \<Longrightarrow> reachable s0 s'"
| trap: "reachable s0 s \<Longrightarrow> safe_trap s \<Longrightarrow> do_syscall dev junk s = Some (r, s') \<Longrightarrow> reachable s0 s'"

lemma running_pm:
  assumes "k_inv s' fl (c # sl) H ys" "s' = s\<lparr>pm := pm s'\<rparr>" "curenv s = Some c"
  shows "running s'"
proof -
  have "curenv s' = Some c" by (subst assms(2)) (simp add: assms(3))
  with assms(1) show ?thesis by (rule runningI)
qed

lemma user_store8_running:
  assumes "running s" "user_store8 va b s = Some s'"
  shows "running s'"
proof -
  obtain fl c sl H xs where k: "k_inv s fl (c # sl) H xs" "curenv s = Some c"
    using assms(1) by (rule runningE)
  show ?thesis
    by (rule user_store8_ok [OF k assms(2)]) (rule running_pm [OF _ _ k(2)])
qed

lemma user_load8_running:
  assumes "running s" "user_load8 va s = Some (b, s')"
  shows "running s'"
proof -
  obtain fl c sl H xs where k: "k_inv s fl (c # sl) H xs" "curenv s = Some c"
    using assms(1) by (rule runningE)
  obtain pte where "user_page va s = Some (pte, s')"
    using assms(2) by (auto simp: user_load8_def split: bind_splits)
  then show ?thesis
    by (rule user_page_ok [OF k]) (rule running_pm [OF _ _ k(2)])
qed

lemma reachable_running: "reachable s0 s \<Longrightarrow> running s0 \<Longrightarrow> running s"
proof (induction rule: reachable.induct)
  case (compute s tf)
  then show ?case using quiet_running [OF quiet_io(4)] by blast
next
  case (timer s s')
  then show ?case by (metis timer_returns option.inject)
next
  case (trap s dev junk r s')
  then show ?case using do_syscall_returns [of s dev junk] by (auto simp: returns_def)
qed (auto intro: user_store8_running user_load8_running)

text \<open>C1. The kernel invariant over whole executions: in every state reachable from one in
  which it holds and the head of the run queue is running, through user computation, stores
  and loads with demand paging, timer interrupts and safe system calls, the invariant holds
  (page reference counts, free lists, page tables of distinct environments, ASIDs, run queue
  and statuses), and the kernel returns from every timer interrupt and every safe system call
  there instead of panicking.\<close>

theorem kernel_safety:
  assumes "running s0" "reachable s0 s"
  shows "running s \<and> (\<exists>s'. schedule False s = Some s') \<and>
    (safe_trap s \<longrightarrow> (\<exists>r s'. do_syscall dev junk s = Some (r, s')))"
proof -
  have r: "running s" using reachable_running [OF assms(2,1)] .
  moreover have "\<exists>s'. schedule False s = Some s'" by (metis timer_returns [OF r])
  moreover have "\<exists>r s'. do_syscall dev junk s = Some (r, s')" if "safe_trap s"
    using do_syscall_returns [OF r that, of dev junk] by (auto simp: returns_def)
  ultimately show ?thesis by blast
qed

lemma small_runs: "running (small_kstate 1)"
  using small_inv small_running by (auto simp: running_def)

lemma small_safe_trap: "safe_trap ((small_kstate 1)\<lparr>kstack_tf := blank_tf\<lparr>regs := (\<lambda>_. 99)\<rparr>\<rparr>)"
  by (simp add: safe_trap_def word_sle_eq)

theorem kernel_safety_witness:
  "running ((small_kstate 1)\<lparr>kstack_tf := blank_tf\<lparr>regs := (\<lambda>_. 99)\<rparr>\<rparr>) \<and>
   (\<exists>s'. schedule False ((small_kstate 1)\<lparr>kstack_tf := blank_tf\<lparr>regs := (\<lambda>_. 99)\<rparr>\<rparr>) = Some s') \<and>
   (\<exists>r s'. do_syscall (\<lambda>_ _ _. 0) 0 ((small_kstate 1)\<lparr>kstack_tf := blank_tf\<lparr>regs := (\<lambda>_. 99)\<rparr>\<rparr>) = Some (r, s'))"
  using kernel_safety [OF small_runs compute [OF boot]] small_safe_trap by blast

section \<open>Properties of the entries\<close>

text \<open>C3. Memory isolation: a store of user code that succeeds changes one byte. Of all the
  pages that any environment maps, only the byte of the page the current address space maps at
  \<open>va\<close> gets the new value, and every other byte keeps its own, in particular everything the
  other environments see through pages of their own. No mapping of any environment changes,
  except that a page missing at \<open>va\<close> has been given to the current one by the refill handler:
  such a page comes from the free list and reads as zero but for the stored byte, so that
  nothing of an earlier owner shows. Nothing else of the kernel's state changes, and its
  invariant holds. (That the entry has \<open>PTE_D\<close> is the processor's test; without it the store is
  not made but raises the TLB Mod exception.)\<close>

theorem user_store_isolation:
  assumes "k_inv s fl sl H xs" "curenv s = Some c" "user_store8 va b s = Some s'"
  shows "\<exists>pte ys. k_inv s' fl sl H ys \<and> s' = s\<lparr>pm := pm s'\<rparr> \<and> pte AND PTE_D \<noteq> 0 \<and>
    va_map s' c = (va_map s c)(va_key va \<mapsto> pte) \<and>
    (\<forall>e\<in>alive s - {c}. va_map s' e = va_map s e) \<and>
    (\<forall>e\<in>alive s. \<forall>k x. va_map s e k = Some x \<longrightarrow> (\<forall>u<4096.
       phys_read8 (PPN x * 4096 + u) (pm s') =
       (if PPN x = PPN pte \<and> u = unat (va mod PAGE_SIZE) then b
        else phys_read8 (PPN x * 4096 + u) (pm s)))) \<and>
    (case va_map s c (va_key va) of
       Some x \<Rightarrow> x = pte
     | None \<Rightarrow> PPN pte \<in> set xs \<and> (\<forall>u<4096.
         phys_read8 (PPN pte * 4096 + u) (pm s') = (if u = unat (va mod PAGE_SIZE) then b else 0)))"
proof (rule user_store8_ok [OF assms])
  fix ys pte
  assume k: "k_inv s' fl sl H ys" "s' = s\<lparr>pm := pm s'\<rparr>" and pte: "pte AND PTE_D \<noteq> 0"
    and here: "va_map s' c (va_key va) = Some pte" "\<And>k. k \<noteq> va_key va \<Longrightarrow> va_map s' c k = va_map s c k"
    and old: "va_map s c (va_key va) \<in> {None, Some pte}"
    and others: "\<And>e. e \<in> alive s \<Longrightarrow> e \<noteq> c \<Longrightarrow> va_map s' e = va_map s e"
    and bytes: "\<And>e k x u. e \<in> alive s \<Longrightarrow> va_map s e k = Some x \<Longrightarrow> u < 4096 \<Longrightarrow>
      phys_read8 (PPN x * 4096 + u) (pm s') =
      (if PPN x = PPN pte \<and> u = unat (va mod PAGE_SIZE) then b else phys_read8 (PPN x * 4096 + u) (pm s))"
    and fresh: "\<And>u. va_map s c (va_key va) = None \<Longrightarrow> u < 4096 \<Longrightarrow> PPN pte \<in> set xs \<and>
      phys_read8 (PPN pte * 4096 + u) (pm s') = (if u = unat (va mod PAGE_SIZE) then b else 0)"
  have "va_map s' c = (va_map s c)(va_key va \<mapsto> pte)" using here by (auto simp: fun_eq_iff)
  moreover have "case va_map s c (va_key va) of Some x \<Rightarrow> x = pte
     | None \<Rightarrow> PPN pte \<in> set xs \<and> (\<forall>u<4096.
         phys_read8 (PPN pte * 4096 + u) (pm s') = (if u = unat (va mod PAGE_SIZE) then b else 0))"
    using old fresh fresh [of 0] by (cases "va_map s c (va_key va)") simp_all
  ultimately show ?thesis
    by (intro exI [of _ pte] exI [of _ ys] conjI ballI allI impI k pte)
      (assumption | rule others bytes | blast)+
qed

text \<open>The store that does happen: the page is there and writable, or it is allocated.\<close>

lemma bit_nonzero: "bit w n \<Longrightarrow> w \<noteq> 0" for w :: u32
  by auto

lemma mk_pte_dirty: "mk_pte p PTE_D AND PTE_D \<noteq> 0"
proof -
  have "bit PTE_D 8" unfolding PTE_D_def by (simp add: bit_push_bit_iff)
  then show ?thesis
    unfolding mk_pte_def by (intro bit_nonzero [where n = 8]) (simp only: bit_and_iff bit_or_iff simp_thms)
qed

lemma user_page_demand:
  assumes inv: "k_inv s fl sl H xs" and c: "curenv s = Some c" and va: "demand_va va"
    and none: "va_map s c (va_key va) = None" and free: "2 \<le> length xs"
  obtains p m where "user_page va s = Some (mk_pte p PTE_D, s\<lparr>pm := m\<rparr>)"
proof -
  have ut: "va < UTOP" using va by (simp add: demand_va_def)
  obtain p m ppte where r: "refill_loop va (entryhi_asid s) (env_pgdir (envs s c)) (pm s) = Some (ppte, m)"
    "pte_at m ppte = mk_pte p PTE_D"
    using refill_step [OF inv k_invD(6) [OF inv c] ut none, of "entryhi_asid s"] va free by auto
  show thesis
    by (rule that [of p m]) (use r ut k_invD(7) [OF inv c] in \<open>simp add: user_page_def\<close>)
qed

lemma user_access_demand:
  assumes "k_inv s fl sl H xs" "curenv s = Some c" "demand_va va" "va_map s c (va_key va) = None" "2 \<le> length xs"
  shows "\<exists>s'. user_store8 va b s = Some s'" "\<exists>v s'. user_load8 va s = Some (v, s')"
  by (rule user_page_demand [OF assms], use mk_pte_dirty in \<open>simp add: user_store8_def user_load8_def\<close>)+

text \<open>C21. Demand paging: for an address in the range user programs may touch, whose page is
  mapped or for which two pages are free, the refill handler returns and hands the hardware
  the entry of that address in the even or odd half of the pair; at most this one mapping is
  added, to the current environment, and the invariant holds.\<close>

theorem tlb_refill_spec:
  assumes "k_inv s fl sl H xs" "curenv s = Some c" "demand_va va"
    and "va_map s c (va_key va) = None \<Longrightarrow> 2 \<le> length xs"
  shows "\<exists>lo0 lo1 s' ys pte. do_tlb_refill va asid s = Some ((lo0, lo1), s') \<and> k_inv s' fl sl H ys \<and>
    (if even (PTX va) then lo0 else lo1) = drop_bit 6 pte \<and>
    va_map s' c = (va_map s c)(va_key va \<mapsto> pte) \<and>
    (va_map s c (va_key va) = None \<or> va_map s c (va_key va) = Some pte) \<and>
    (\<forall>e\<in>alive s - {c}. va_map s' e = va_map s e)"
proof -
  note inv = assms(1) and ca = k_invD(6) [OF assms(1,2)] and cp = k_invD(7) [OF assms(1,2)]
  have va: "va < UTOP" using assms(3) by (simp add: demand_va_def)
  define s1 where "s1 = s\<lparr>pm := tlb_invalidate asid va (pm s)\<rparr>"
  have s1: "alive s1 = alive s" "envs s1 = envs s" "pm s1 = tlb_invalidate asid va (pm s)"
    by (simp_all add: s1_def alive_def)
  have inv1: "k_inv s1 fl sl H xs"
    unfolding s1_def by (rule k_inv_pm [OF inv]) (use env_coreD(3) [OF k_invD(1) [OF inv]] in simp)
  have ca1: "c \<in> alive s1" using ca s1 by simp
  have run: "do_tlb_refill va asid s = Some ((if even (PTX va) then pte_half else other,
       if even (PTX va) then other else pte_half), s1\<lparr>pm := m\<rparr>)"
    if "refill_loop va asid (env_pgdir (envs s c)) (pm s1) = Some (ppte, m)" "snd ppte = PTX va"
      "pte_half = drop_bit 6 (pte_at m ppte)"
      "other = drop_bit 6 (frame m (fst ppte) (if even (PTX va) then PTX va + 1 else PTX va - 1))"
    for ppte m pte_half other
  proof (cases "even (PTX va)")
    case True
    then show ?thesis using that cp s1 by (simp add: do_tlb_refill_def s1_def Let_def even_two_times_div_two)
  next
    case False
    then have "PTX va div 2 * 2 = PTX va - 1" "PTX va - 1 + 1 = PTX va" by presburger+
    with False show ?thesis using that cp s1 by (simp add: do_tlb_refill_def s1_def Let_def)
  qed
  show ?thesis
  proof (cases "va_map s c (va_key va)")
    case (Some x)
    then have x: "va_map s1 c (va_key va) = Some x" using s1 by simp
    obtain q where "refill_loop va asid (env_pgdir (envs s1 c)) (pm s1) = Some (q, pm s1)" "pte_at (pm s1) q = x"
      "snd q = PTX va"
      by (rule refill_mapped [OF env_coreD(3) [OF k_invD(1) [OF inv1]] pgdir_alive [OF ca1] va x])
    moreover have "k_inv (s1\<lparr>pm := tlb_invalidate asid va (pm s)\<rparr>) fl sl H xs" using inv1 by (simp add: s1_def)
    ultimately show ?thesis using run [of q "pm s1"] s1 Some by (auto simp: fun_upd_idem)
  next
    case None
    then have "va_map s1 c (va_key va) = None" "2 \<le> length xs" using s1 assms(4) by simp_all
    with refill_step [OF inv1 ca1 va, of asid] assms(3) obtain p m ppte zs where
      "refill_loop va asid (env_pgdir (envs s c)) (pm s1) = Some (ppte, m)" "snd ppte = PTX va"
      "pte_at m ppte = mk_pte p PTE_D" "k_inv (s1\<lparr>pm := m\<rparr>) fl sl H zs"
      "aspace m (env_pgdir (envs s c)) = (va_map s1 c)(va_key va \<mapsto> mk_pte p PTE_D)"
      "\<forall>e'\<in>alive s - {c}. aspace m (env_pgdir (envs s e')) = va_map s1 e'"
      using s1 by auto
    with run [of ppte m] s1 None show ?thesis by (auto simp: fun_eq_iff)
  qed
qed

text \<open>An address of the small machine.\<close>

lemma small_demand: "demand_va UTEXT" "va_map (small_kstate 1) 0 (va_key UTEXT) = None"
  by (simp_all add: demand_va_def aspace_def flat_pmap_def pte_valid_def)

theorem tlb_refill_spec_witness:
  "\<exists>lo0 lo1 s' ys pte. do_tlb_refill UTEXT 0 (small_kstate 1) = Some ((lo0, lo1), s') \<and>
    k_inv s' free_envs [0, 1] (\<lambda>_. 0) ys \<and>
    (if even (PTX UTEXT) then lo0 else lo1) = drop_bit 6 pte \<and>
    va_map s' 0 = (va_map (small_kstate 1) 0)(va_key UTEXT \<mapsto> pte) \<and>
    (va_map (small_kstate 1) 0 (va_key UTEXT) = None \<or> va_map (small_kstate 1) 0 (va_key UTEXT) = Some pte) \<and>
    (\<forall>e\<in>alive (small_kstate 1) - {0}. va_map s' e = va_map (small_kstate 1) e)"
  by (rule tlb_refill_spec [OF small_inv _ small_demand(1)]) simp_all

theorem user_store_isolation_witness:
  "\<exists>s' pte ys. user_store8 UTEXT 7 (small_kstate 1) = Some s' \<and> k_inv s' free_envs [0, 1] (\<lambda>_. 0) ys \<and>
    pte AND PTE_D \<noteq> 0 \<and> va_map s' 0 = (va_map (small_kstate 1) 0)(va_key UTEXT \<mapsto> pte) \<and>
    (\<forall>e\<in>alive (small_kstate 1) - {0}. va_map s' e = va_map (small_kstate 1) e) \<and>
    PPN pte \<in> {3, 4, 5, 6, 7, 8} \<and>
    (\<forall>u<4096. phys_read8 (PPN pte * 4096 + u) (pm s') = (if u = unat (UTEXT mod PAGE_SIZE) then 7 else 0))"
proof -
  have c: "curenv (small_kstate 1) = Some 0" by simp
  obtain s' where s': "user_store8 UTEXT 7 (small_kstate 1) = Some s'"
    using user_access_demand(1) [OF small_inv c small_demand, of 7] by auto
  from user_store_isolation [OF small_inv c s'] s' show ?thesis
    unfolding small_demand(2) option.case list.set by blast
qed

end
