(* ===== verification/MOS_SyscallProps.thy ===== *)
theory MOS_SyscallProps
  imports MOS_Entry
begin

text \<open>
  The properties of the system calls.
\<close>

section \<open>Memory calls\<close>

text \<open>C4. \<^verbatim>\<open>sys_mem_map\<close>: for a 12 bit permission and reference counts below their limit the call
  returns with the invariant intact. Either it reports an error and no mapping of anyone
  changed, or it returns 0 and exactly one mapping changed: the page the source environment
  has at \<open>srcva\<close> is mapped at \<open>dstva\<close> of the destination, and both environments are the caller
  or children of the caller.\<close>

theorem sys_mem_map_spec:
  assumes "k_inv s fl sl H xs" "curenv s = Some c" "perm < PAGE_SIZE"
    and "\<And>p. p < npage (pm s) \<Longrightarrow> unat (pp_ref (pm s) p) < 65535"
  shows "\<exists>r s' ys. sys_mem_map srcid srcva dstid dstva perm s = Some (Ret r, s') \<and> k_inv s' fl sl H ys \<and>
    s' = s\<lparr>pm := pm s'\<rparr> \<and>
    (r = 0 \<and> mem_map_post s c srcva dstva perm s' \<or>
     r \<in> {err E_INVAL, err E_BAD_ENV, err E_NO_MEM} \<and> (\<forall>e\<in>alive s. va_map s' e = va_map s e))"
  using sys_mem_map_ok [OF assms, of srcva dstva srcid dstid] by (simp add: mem_call_def)

lemma small_refs: "p < npage (pm (small_kstate 1)) \<Longrightarrow> unat (pp_ref (pm (small_kstate 1)) p) < 65535"
  by (simp add: flat_pmap_def)

theorem sys_mem_map_spec_witness:
  "\<exists>r s' ys. sys_mem_map 0 UTEXT 0x1001 UTEXT 0 (small_kstate 1) = Some (Ret r, s') \<and>
    k_inv s' free_envs [0, 1] (\<lambda>_. 0) ys \<and> s' = (small_kstate 1)\<lparr>pm := pm s'\<rparr> \<and>
    (r = 0 \<and> mem_map_post (small_kstate 1) 0 UTEXT UTEXT 0 s' \<or>
     r \<in> {err E_INVAL, err E_BAD_ENV, err E_NO_MEM} \<and>
     (\<forall>e\<in>alive (small_kstate 1). va_map s' e = va_map (small_kstate 1) e))"
  by (rule sys_mem_map_spec [OF small_inv _ _ small_refs]) simp_all

text \<open>\<^verbatim>\<open>sys_mem_alloc\<close>: on success exactly one mapping changed, to a page from the free list, in
  the caller or one of its children; on an error no mapping changed.\<close>

theorem sys_mem_alloc_spec:
  assumes "k_inv s fl sl H xs" "curenv s = Some c" "perm < PAGE_SIZE"
  shows "\<exists>r s' ys. sys_mem_alloc envid va perm s = Some (Ret r, s') \<and> k_inv s' fl sl H ys \<and>
    s' = s\<lparr>pm := pm s'\<rparr> \<and>
    (r = 0 \<and> mem_alloc_post s c va perm xs s' \<or>
     r \<in> {err E_INVAL, err E_BAD_ENV, err E_NO_MEM} \<and> (\<forall>e\<in>alive s. va_map s' e = va_map s e))"
  using sys_mem_alloc_ok [OF assms, of va envid] by (simp add: mem_call_def)

theorem sys_mem_alloc_spec_witness:
  "\<exists>r s' ys. sys_mem_alloc 0x1001 UTEXT PTE_D (small_kstate 1) = Some (Ret r, s') \<and>
    k_inv s' free_envs [0, 1] (\<lambda>_. 0) ys \<and> s' = (small_kstate 1)\<lparr>pm := pm s'\<rparr> \<and>
    (r = 0 \<and> mem_alloc_post (small_kstate 1) 0 UTEXT PTE_D [3, 4, 5, 6, 7, 8] s' \<or>
     r \<in> {err E_INVAL, err E_BAD_ENV, err E_NO_MEM} \<and>
     (\<forall>e\<in>alive (small_kstate 1). va_map s' e = va_map (small_kstate 1) e))"
  by (rule sys_mem_alloc_spec [OF small_inv]) (simp_all add: PTE_D_def)

section \<open>Processes\<close>

text \<open>\<^verbatim>\<open>sys_exofork\<close>: with a free environment, page and ASID, the child is the first free
  environment; the caller gets its id, the child will see 0, has an empty address space, the
  caller's registers and priority, is not runnable, and is a child of the caller; nothing of
  any other environment changes.\<close>

theorem sys_exofork_spec:
  assumes "k_inv s (e # fl) sl H (p # xs)" "curenv s = Some c" "i < NASID" "\<not> asid_used (asid_bitmap s) i"
  shows "\<exists>s'. sys_exofork s = Some (Ret (env_id (envs s' e)), s') \<and> k_inv s' fl sl H xs \<and>
    env_tf (envs s' e) = set_reg 2 0 (kstack_tf s) \<and> env_status (envs s' e) = ENV_NOT_RUNNABLE \<and>
    env_parent_id (envs s' e) = env_id (envs s c) \<and> env_pri (envs s' e) = env_pri (envs s c) \<and>
    va_map s' e = Map.empty \<and> alive s' = insert e (alive s) \<and>
    (\<forall>e'. e' \<noteq> e \<longrightarrow> envs s' e' = envs s e') \<and> (\<forall>e'\<in>alive s. va_map s' e' = va_map s e')"
  by (rule sys_exofork_ok [OF assms]) blast

lemma small_inv': "k_inv (small_kstate 1) (2 # [3..<NENV]) [0, 1] (\<lambda>_. 0) (3 # [4, 5, 6, 7, 8])"
  using small_inv by (simp only: free_envs_Cons)

lemma small_asid_free: "\<not> asid_used (asid_bitmap (small_kstate 1)) 2"
  by (simp only: small_kstate_simps small_kstate_asids) simp

theorem sys_exofork_spec_witness:
  "\<exists>s'. sys_exofork (small_kstate 1) = Some (Ret (env_id (envs s' 2)), s') \<and>
    k_inv s' [3..<NENV] [0, 1] (\<lambda>_. 0) [4, 5, 6, 7, 8] \<and>
    env_tf (envs s' 2) = set_reg 2 0 (kstack_tf (small_kstate 1)) \<and> env_status (envs s' 2) = ENV_NOT_RUNNABLE \<and>
    env_parent_id (envs s' 2) = env_id (envs (small_kstate 1) 0) \<and>
    env_pri (envs s' 2) = env_pri (envs (small_kstate 1) 0) \<and>
    va_map s' 2 = Map.empty \<and> alive s' = insert 2 (alive (small_kstate 1)) \<and>
    (\<forall>e'. e' \<noteq> 2 \<longrightarrow> envs s' e' = envs (small_kstate 1) e') \<and>
    (\<forall>e'\<in>alive (small_kstate 1). va_map s' e' = va_map (small_kstate 1) e')"
  by (rule sys_exofork_spec [OF small_inv' _ _ small_asid_free]) simp_all

section \<open>IPC\<close>

text \<open>C6. The rendezvous of two environments: \<open>c\<close> runs and receives, which blocks it and switches
  to \<open>d\<close>; when \<open>d\<close> sends it a value, the send succeeds and \<open>c\<close> is runnable again at the end of
  the queue, holds the value and the sender's id, and will see the result 0 of its receive.\<close>

theorem ipc_rendezvous:
  assumes inv: "k_inv s fl (c # d # sl) H xs" and c: "curenv s = Some c" "env_id (envs s c) \<noteq> 0"
    and va: "dstva = 0 \<or> \<not> is_illegal_va dstva"
  shows "\<exists>s1 s2. sys_ipc_recv dstva s = Some (Switch, s1) \<and> curenv s1 = Some d \<and>
    sys_ipc_try_send (env_id (envs s c)) v 0 perm s1 = Some (Ret 0, s2) \<and>
    k_inv s2 fl (d # sl @ [c]) H xs \<and> pm s2 = pm s \<and> env_ipc_value (envs s2 c) = v \<and>
    env_ipc_from (envs s2 c) = env_id (envs s d) \<and> env_ipc_recving (envs s2 c) = 0 \<and>
    env_status (envs s2 c) = ENV_RUNNABLE \<and> regs (env_tf (envs s2 c)) 2 = 0"
proof -
  have dist: "c \<noteq> d" using is_TAILQ_distinct [OF k_invD(4) [OF inv]] by simp
  obtain s1 where s1: "sys_ipc_recv dstva s = Some (Switch, s1)" "k_inv s1 fl (d # sl) H xs"
    "curenv s1 = Some d" "pm s1 = pm s" "env_status (envs s1 c) = ENV_NOT_RUNNABLE"
    "env_ipc_recving (envs s1 c) = 1" "env_tf (envs s1 c) = set_reg 2 0 (kstack_tf s)"
    "\<And>e. env_id (envs s1 e) = env_id (envs s e)"
    by (rule sys_ipc_recv_ok [OF inv c(1) _ _ va]) (simp_all add: that)
  have al: "c \<in> alive s1"
    using s1(5) k_invD(6) [OF inv c(1)] by (simp add: alive_def)
  have ex: "ENVX (env_id (envs s c)) = c"
    using env_coreD(7) [OF k_invD(1) [OF inv] k_invD(6) [OF inv c(1)]] .
  have id: "envid2env (env_id (envs s c)) False s1 = Some (Inr (Some c))"
    using c(2) ex s1(5,8) by (simp add: envid2env_def Let_def)
  have rc: "env_ipc_recving (envs s1 c) \<noteq> 0" using s1(6) by simp
  obtain s2 where s2: "k_inv s2 fl ((d # sl) @ [c]) H xs" "pm s2 = pm s1" "delivered s1 d c v perm s2"
    "env_tf (envs s2 c) = env_tf (envs s1 c)" "sys_ipc_try_send (env_id (envs s c)) v 0 perm s1 = ret 0 s2"
    by (rule sys_ipc_try_send_ok [OF s1(2,3) id al s1(5) rc, where v = v and perm = perm and srcva = 0],
        erule that) simp_all
  show ?thesis
    using s1 s2 by (intro exI [of _ s1] exI [of _ s2]) (simp add: delivered_def ret_def)
qed

theorem ipc_rendezvous_witness:
  "\<exists>s1 s2. sys_ipc_recv 0 (small_kstate 1) = Some (Switch, s1) \<and> curenv s1 = Some 1 \<and>
    sys_ipc_try_send (env_id (envs (small_kstate 1) 0)) 42 0 0 s1 = Some (Ret 0, s2) \<and>
    k_inv s2 free_envs (1 # [] @ [0]) (\<lambda>_. 0) [3, 4, 5, 6, 7, 8] \<and> pm s2 = pm (small_kstate 1) \<and>
    env_ipc_value (envs s2 0) = 42 \<and>
    env_ipc_from (envs s2 0) = env_id (envs (small_kstate 1) 1) \<and> env_ipc_recving (envs s2 0) = 0 \<and>
    env_status (envs s2 0) = ENV_RUNNABLE \<and> regs (env_tf (envs s2 0)) 2 = 0"
  by (rule ipc_rendezvous [OF small_inv]) simp_all


section \<open>Dispatch and devices\<close>

text \<open>A system call with a number outside the table: the result register holds
  \<open>- E_NO_SYS\<close>, but the program counter still points at the \<^verbatim>\<open>syscall\<close> instruction, and the state
  the handler leaves is a fixed point of the handler: the process makes the same call for ever
  and never sees the error.\<close>

theorem do_syscall_bad_number_repeats:
  assumes "regs (kstack_tf s) 4 <s 0 \<or> of_nat MAX_SYSNO \<le>s regs (kstack_tf s) 4"
  shows "\<exists>s'. do_syscall dev junk s = Some (Ret (), s') \<and> regs (kstack_tf s') 2 = err E_NO_SYS \<and>
    cp0_epc (kstack_tf s') = cp0_epc (kstack_tf s) \<and> do_syscall dev junk s' = Some (Ret (), s')"
proof -
  define s' where "s' = s\<lparr>kstack_tf := set_reg 2 (err E_NO_SYS) (kstack_tf s)\<rparr>"
  have "do_syscall dev junk s = Some (Ret (), s')"
    using assms by (simp add: do_syscall_def s'_def Let_def)
  moreover have "do_syscall dev junk s' = Some (Ret (), s')"
    using assms by (simp add: do_syscall_def s'_def Let_def)
  ultimately show ?thesis by (simp add: s'_def)
qed

theorem do_syscall_bad_number_repeats_witness:
  "\<exists>s'. do_syscall (\<lambda>_ _ _. 0) 0 ((small_kstate 1)\<lparr>kstack_tf := blank_tf\<lparr>regs := (\<lambda>_. 99)\<rparr>\<rparr>) = Some (Ret (), s') \<and>
    regs (kstack_tf s') 2 = err E_NO_SYS \<and>
    cp0_epc (kstack_tf s') = cp0_epc (kstack_tf ((small_kstate 1)\<lparr>kstack_tf := blank_tf\<lparr>regs := (\<lambda>_. 99)\<rparr>\<rparr>)) \<and>
    do_syscall (\<lambda>_ _ _. 0) 0 s' = Some (Ret (), s')"
  by (rule do_syscall_bad_number_repeats) (simp add: word_sle_eq)

text \<open>C29. Device writes are confined: when \<^verbatim>\<open>sys_write_dev\<close> returns, either it reports
  \<open>- E_INVAL\<close> and nothing happened, or it made exactly one access, of 1, 2 or 4 bytes, to an
  address that lies with all its bytes in the registers of the console or of the IDE disk.\<close>

theorem sys_write_dev_confined:
  assumes "sys_write_dev va pa len s = Some (r, s')"
  shows "r = Ret (err E_INVAL) \<and> s' = s \<or>
    r = Ret 0 \<and> unat len \<in> {1, 2, 4} \<and> (\<exists>v s1. load_aligned (unat len) va s = Some (v, s1) \<and>
      s' = s1\<lparr>io_trace := io_trace s1 @ [DevWrite pa (unat len) v]\<rparr>) \<and>
    (0x180003f8 \<le> unat pa \<and> unat pa + unat len \<le> 0x18000418 \<or>
     0x180001f0 \<le> unat pa \<and> unat pa + unat len \<le> 0x180001f8)"
proof (cases "(len = 1 \<or> len = 2 \<or> len = 4) \<and> \<not> is_illegal_va_range va len \<and> dev_ok pa len")
  case False
  then show ?thesis using assms by (auto simp: sys_write_dev_def ret_def split: if_splits)
next
  case True
  then have len: "unat len \<in> {1, 2, 4}" by auto
  obtain v s1 where l: "load_aligned (unat len) va s = Some (v, s1)" "\<not> io_fault pa (unat len)"
    "r = Ret 0" "s' = s1\<lparr>io_trace := io_trace s1 @ [DevWrite pa (unat len) v]\<rparr>"
    using assms True unfolding sys_write_dev_def
    by (simp only: not_not if_False simp_thms split: bind_splits prod.splits if_splits)
      (auto simp: ret_def iowrite_def)
  have "pa \<le> pa OR 0xA0000000" by (rule le_word_or2)
  with l(2) have "unat pa < 0xC0000000" by (simp add: io_fault_def word_le_nat_alt not_le)
  then have "unat (pa + len) = unat pa + unat len"
    using len by (auto simp: unat_word_ariths)
  then have "0x180003f8 \<le> unat pa \<and> unat pa + unat len \<le> 0x18000418 \<or>
     0x180001f0 \<le> unat pa \<and> unat pa + unat len \<le> 0x180001f8"
    using True by (simp add: dev_ok_def word_le_nat_alt)
  with len l show ?thesis by blast
qed

lemma small_write_dev:
  "\<exists>s'. sys_write_dev UTEXT 0x180003f8 1 (small_kstate 1) = Some (Ret 0, s')"
proof -
  have c: "curenv (small_kstate 1) = Some 0" by simp
  obtain v s1 where "user_load8 UTEXT (small_kstate 1) = Some (v, s1)"
    using user_access_demand(2) [OF small_inv c small_demand] by auto
  then have "\<exists>w. load_aligned 1 UTEXT (small_kstate 1) = Some (w, s1)"
    by (simp add: load_aligned_def)
  moreover have "dev_ok 0x180003f8 1" "\<not> is_illegal_va_range UTEXT 1" "\<not> io_fault 0x180003f8 1"
    by (simp_all add: dev_ok_def is_illegal_va_range_def io_fault_def)
  ultimately show ?thesis by (auto simp: sys_write_dev_def ret_def)
qed

theorem sys_write_dev_confined_witness:
  "\<exists>s'. sys_write_dev UTEXT 0x180003f8 1 (small_kstate 1) = Some (Ret 0, s') \<and>
    (\<exists>v s1. load_aligned (unat 1) UTEXT (small_kstate 1) = Some (v, s1) \<and>
      s' = s1\<lparr>io_trace := io_trace s1 @ [DevWrite 0x180003f8 (unat 1) v]\<rparr>)"
proof -
  obtain s' where s': "sys_write_dev UTEXT 0x180003f8 1 (small_kstate 1) = Some (Ret 0, s')"
    using small_write_dev by blast
  from sys_write_dev_confined [OF s'] have "\<exists>v s1. load_aligned (unat 1) UTEXT (small_kstate 1) = Some (v, s1) \<and>
      s' = s1\<lparr>io_trace := io_trace s1 @ [DevWrite 0x180003f8 (unat 1) v]\<rparr>"
    by (auto simp: err_def)
  with s' show ?thesis by blast
qed

text \<open>The range check wraps around: for an address within four bytes of the end of the
  address space, \<^verbatim>\<open>pa + len\<close> is small, the check passes, and the kernel accesses an address no
  device has and panics, where \<^verbatim>\<open>sys_write_dev\<close> should return \<open>- E_INVAL\<close>.\<close>

theorem sys_write_dev_wraps: "sys_write_dev UTEXT 0xFFFFFFFC 4 s = None"
proof -
  have "dev_ok 0xFFFFFFFC 4" "\<not> is_illegal_va_range UTEXT 4" "io_fault 0xFFFFFFFC 4"
    by (simp_all add: dev_ok_def is_illegal_va_range_def io_fault_def)
  then show ?thesis
    by (simp add: sys_write_dev_def split: bind_splits)
qed

end
