(* ===== verification/MOS_Print.thy ===== *)
theory MOS_Print
  imports MOS_Prelude
begin

text \<open>
  Formatted output: \<^verbatim>\<open>lib/print.c\<close>.

  The result of a formatting routine is the sequence of buffers it passes to the callback
  \<^verbatim>\<open>out\<close>, in order. A format string is the list of its bytes up to the terminator, the
  variable arguments are a list of words and strings (\<^verbatim>\<open>int\<close> and \<^verbatim>\<open>long\<close> have 32 bits on
  MIPS, so \<^verbatim>\<open>long_flag\<close> makes no difference). \<open>None\<close> stands for what C leaves undefined: a
  missing argument, an argument of the wrong kind, a width beyond the range of \<^verbatim>\<open>int\<close>.
\<close>

datatype varg = WordArg u32 | StrArg "u8 list"

definition take_word :: "varg list \<Rightarrow> (u32 \<times> varg list) option" where
  "take_word ap = (case ap of WordArg w # ap \<Rightarrow> Some (w, ap) | _ \<Rightarrow> None)"

definition take_str :: "varg list \<Rightarrow> (u8 list \<times> varg list) option" where
  "take_str ap = (case ap of StrArg bs # ap \<Rightarrow> Some (bs, ap) | _ \<Rightarrow> None)"

section \<open>Characters and strings\<close>

definition print_char :: "u8 \<Rightarrow> nat \<Rightarrow> bool \<Rightarrow> u8 list list" where
  "print_char c len ladjust =
    (let len = (if len < 1 then 1 else len) in
     if ladjust then [c] # map (\<lambda>i. [0x20]) [1..<len]
     else map (\<lambda>i. [0x20]) [0..<len - 1] @ [[c]])"

definition print_str :: "u8 list \<Rightarrow> nat \<Rightarrow> bool \<Rightarrow> u8 list list" where
  "print_str s len1 ladjust =
    (let len = length s; len1 = (if len1 < len then len else len1) in
     if ladjust then s # map (\<lambda>i. [0x20]) [len..<len1]
     else map (\<lambda>i. [0x20]) [0..<len1 - len] @ [s])"

section \<open>Numbers\<close>

definition digit_char :: "bool \<Rightarrow> nat \<Rightarrow> u8" where
  "digit_char upcase tmp =
    (if tmp \<le> 9 then 0x30 + of_nat tmp
     else if upcase then 0x41 + of_nat tmp - 10 else 0x61 + of_nat tmp - 10)"

text \<open>The \<^verbatim>\<open>do\<close> loop, which writes the least digit first.\<close>

partial_function (option) digits_loop :: "nat \<Rightarrow> nat \<Rightarrow> bool \<Rightarrow> u8 list \<Rightarrow> u8 list option" where
  "digits_loop u b upcase buf =
    (let buf = buf @ [digit_char upcase (u mod b)]; u = u div b in
     if u \<noteq> 0 then digits_loop u b upcase buf else Some buf)"

text \<open>The reversal of \<open>buf[begin..end]\<close>.\<close>

function reverse_loop :: "nat \<Rightarrow> nat \<Rightarrow> u8 list \<Rightarrow> u8 list" where
  "reverse_loop i j buf =
    (if i < j then reverse_loop (i + 1) (j - 1) (buf[i := buf ! j, j := buf ! i]) else buf)"
  by pat_completeness auto
termination by (relation "measure (\<lambda>(i, j, _). j - i)") auto

declare reverse_loop.simps [simp del]
declare digits_loop.simps [code]

definition print_num :: "nat \<Rightarrow> nat \<Rightarrow> bool \<Rightarrow> nat \<Rightarrow> bool \<Rightarrow> u8 \<Rightarrow> bool \<Rightarrow> u8 list list option" where
  "print_num u b neg_flag len ladjust padc upcase = do {
     buf \<leftarrow> digits_loop u b upcase [];
     let buf = (if neg_flag then buf @ [0x2D] else buf);
     let actualLength = length buf;
     let len = (if len < actualLength then actualLength else len);
     let buf = buf @ replicate (len - actualLength) 0;
     let padc = (if ladjust then 0x20 else padc);
     let buf = (if neg_flag \<and> \<not> ladjust \<and> padc = 0x30
       then (fold (\<lambda>i buf. buf[i := padc]) [actualLength - 1..<len - 1] buf)[len - 1 := 0x2D]
       else fold (\<lambda>i buf. buf[i := padc]) [actualLength..<len] buf);
     let end1 = (if ladjust then actualLength - 1 else len - 1);
     Some [reverse_loop 0 end1 buf]
   }"

section \<open>The format string\<close>

text \<open>The digits of the width; beyond the range of \<^verbatim>\<open>int\<close> the source overflows.\<close>

fun get_width :: "nat \<Rightarrow> u8 list \<Rightarrow> (nat \<times> u8 list) option" where
  "get_width w [] = Some (w, [])"
| "get_width w (c # f) =
    (if 0x30 \<le> c \<and> c \<le> 0x39 then
       let w = w * 10 + unat (c - 0x30) in if 2 ^ 31 \<le> w then None else get_width w f
     else Some (w, c # f))"

definition get_flag :: "u8 \<Rightarrow> u8 list \<Rightarrow> bool \<times> u8 list" where
  "get_flag x f = (case f of c # f' \<Rightarrow> if c = x then (True, f') else (False, f) | [] \<Rightarrow> (False, f))"

text \<open>Flags, width and \<^verbatim>\<open>l\<close> after the per cent sign.\<close>

definition get_spec :: "u8 list \<Rightarrow> (bool \<times> u8 \<times> nat \<times> u8 list) option" where
  "get_spec f = do {
     let (ladjust, f) = get_flag 0x2D f;
     let (zero, f) = get_flag 0x30 f;
     (width, f) \<leftarrow> get_width 0 f;
     let (long_flag, f) = get_flag 0x6C f;
     Some (ladjust, if zero then 0x30 else 0x20, width, f)
   }"

definition convert :: "u8 \<Rightarrow> bool \<Rightarrow> u8 \<Rightarrow> nat \<Rightarrow> varg list \<Rightarrow> (u8 list list \<times> varg list) option" where
  "convert c ladjust padc width ap =
    (let number = (\<lambda>b up. do {
       (num, ap) \<leftarrow> take_word ap;
       out \<leftarrow> print_num (unat num) b False width ladjust padc up;
       Some (out, ap) })
     in
     if c = 0x62 then number 2 False
     else if c = 0x64 \<or> c = 0x44 then do {
       (num, ap) \<leftarrow> take_word ap;
       out \<leftarrow> (if num <s 0 then print_num (unat (- num)) 10 True width ladjust padc False
               else print_num (unat num) 10 False width ladjust padc False);
       Some (out, ap)
     }
     else if c = 0x6F \<or> c = 0x4F then number 8 False
     else if c = 0x75 \<or> c = 0x55 then number 10 False
     else if c = 0x78 then number 16 False
     else if c = 0x58 then number 16 True
     else if c = 0x63 then do {
       (num, ap) \<leftarrow> take_word ap;
       Some (print_char (ucast num) width ladjust, ap)
     }
     else if c = 0x73 then do {
       (s, ap) \<leftarrow> take_str ap;
       Some (print_str s width ladjust, ap)
     }
     else Some ([[c]], ap))"

lemma get_flag_length: "length (snd (get_flag x f)) \<le> length f"
  by (auto simp: get_flag_def split: list.split)

lemma get_width_length: "get_width w f = Some (w', f') \<Longrightarrow> length f' \<le> length f"
  by (induction w f rule: get_width.induct) (force simp: Let_def split: if_splits)+

lemma get_spec_length: "get_spec f = Some (l, p, w, f') \<Longrightarrow> length f' \<le> length f"
  using get_flag_length [of "0x2D" f] get_flag_length [of "0x30" "snd (get_flag 0x2D f)"] get_flag_length [of "0x6C"]
  by (auto simp: get_spec_def split_beta split: bind_splits dest!: get_width_length) (meson le_trans)+

text \<open>One turn of the loop: the literal text, then a conversion. At the end of the string after
  a per cent sign the loop goes round once more and stops.\<close>

function vprintfmt :: "u8 list \<Rightarrow> varg list \<Rightarrow> u8 list list option" where
  "vprintfmt fmt ap =
    (let lit = takeWhile (\<lambda>c. c \<noteq> 0x25) fmt in
     case dropWhile (\<lambda>c. c \<noteq> 0x25) fmt of
       [] \<Rightarrow> Some [lit]
     | _ # f \<Rightarrow>
         (case get_spec f of
            None \<Rightarrow> None
          | Some (ladjust, padc, width, []) \<Rightarrow> do {
              out \<leftarrow> vprintfmt [] ap;
              Some (lit # out)
            }
          | Some (ladjust, padc, width, c # f) \<Rightarrow> do {
              (out, ap) \<leftarrow> convert c ladjust padc width ap;
              out' \<leftarrow> vprintfmt f ap;
              Some (lit # out @ out')
            }))"
  by pat_completeness auto
termination
proof (relation "measure (\<lambda>(fmt, _). length fmt)", goal_cases)
  case (2 fmt ap lit x f y a b c d e z)
  have "length (dropWhile (\<lambda>c. c \<noteq> 0x25) fmt) \<le> length fmt" by (simp add: length_dropWhile_le)
  with 2 show ?case by (cases fmt) auto
next
  case (3 fmt ap lit x f)
  have "length (dropWhile (\<lambda>c. c \<noteq> 0x25) fmt) \<le> length fmt" by (simp add: length_dropWhile_le)
  with 3 show ?case by (auto dest!: get_spec_length)
qed simp

declare vprintfmt.simps [simp del]


section \<open>The layout of a printed number\<close>

text \<open>The reference: the positional digits, most significant first.\<close>

function digits_of :: "nat \<Rightarrow> nat \<Rightarrow> nat list" where
  "digits_of b u = (if u < b \<or> b < 2 then [u] else digits_of b (u div b) @ [u mod b])"
  by pat_completeness auto
termination by (relation "measure snd") auto

declare digits_of.simps [simp del]

definition digits_value :: "nat \<Rightarrow> nat list \<Rightarrow> nat" where
  "digits_value b ds = foldl (\<lambda>v d. v * b + d) 0 ds"

lemma digits_value_snoc: "digits_value b (ds @ [d]) = digits_value b ds * b + d"
  by (simp add: digits_value_def)

lemma digits_of_value: "digits_value b (digits_of b u) = u"
proof (induction b u rule: digits_of.induct)
  case (1 b u)
  show ?case
  proof (cases "u < b \<or> b < 2")
    case True
    then show ?thesis by (subst digits_of.simps) (simp add: digits_value_def)
  next
    case False
    with 1 show ?thesis by (subst digits_of.simps) (simp add: digits_value_snoc)
  qed
qed

lemma digits_of_less: "2 \<le> b \<Longrightarrow> d \<in> set (digits_of b u) \<Longrightarrow> d < b"
proof (induction b u rule: digits_of.induct)
  case (1 b u)
  then show ?case by (subst (asm) digits_of.simps) (auto split: if_splits)
qed

lemma digits_of_nonempty [simp]: "digits_of b u \<noteq> []"
  by (subst digits_of.simps) simp

lemma digits_of_head: "2 \<le> b \<Longrightarrow> 0 < u \<Longrightarrow> hd (digits_of b u) \<noteq> 0"
proof (induction b u rule: digits_of.induct)
  case (1 b u)
  show ?case
  proof (cases "u < b")
    case True
    then show ?thesis using 1 by (subst digits_of.simps) simp
  next
    case False
    then have "0 < u div b" using 1 by (simp add: div_greater_zero_iff)
    with False 1 show ?thesis by (subst digits_of.simps) simp
  qed
qed

lemma digits_loop_ok:
  "2 \<le> b \<Longrightarrow> digits_loop u b up buf = Some (buf @ map (digit_char up) (rev (digits_of b u)))"
proof (induction b u arbitrary: buf rule: digits_of.induct)
  case (1 b u)
  show ?case
  proof (cases "u < b")
    case True
    then show ?thesis by (subst digits_loop.simps, subst digits_of.simps) (simp add: Let_def)
  next
    case False
    then have "u div b \<noteq> 0" using 1(2) by (simp add: div_greater_zero_iff)
    then show ?thesis
      using 1 False by (subst digits_loop.simps, subst digits_of.simps) (simp add: Let_def)
  qed
qed

lemma reverse_loop_nth:
  "j < length buf \<Longrightarrow> length (reverse_loop i j buf) = length buf \<and>
   (\<forall>k<length buf. reverse_loop i j buf ! k = (if i \<le> k \<and> k \<le> j then buf ! (i + j - k) else buf ! k))"
proof (induction i j buf rule: reverse_loop.induct)
  case (1 i j buf)
  show ?case
  proof (cases "i < j")
    case False
    have "i = k" "i + j - k = k" if "i \<le> k" "k \<le> j" for k using that False by simp_all
    then show ?thesis using False by (subst (1 2) reverse_loop.simps) auto
  next
    case True
    let ?b = "buf[i := buf ! j, j := buf ! i]"
    have IH: "length (reverse_loop (i + 1) (j - 1) ?b) = length ?b"
      "\<And>k. k < length ?b \<Longrightarrow> reverse_loop (i + 1) (j - 1) ?b ! k =
         (if i + 1 \<le> k \<and> k \<le> j - 1 then ?b ! (i + 1 + (j - 1) - k) else ?b ! k)"
      using 1 True by auto
    have "reverse_loop i j buf ! k = (if i \<le> k \<and> k \<le> j then buf ! (i + j - k) else buf ! k)" if "k < length buf" for k
    proof -
      consider "k = i" | "k = j" | "i < k \<and> k < j" | "k < i \<or> j < k" by linarith
      then show ?thesis
        using True 1(2) that IH(2) [of k] by cases (auto simp: reverse_loop.simps [of i j buf] nth_list_update)
    qed
    with IH(1) True show ?thesis by (simp add: reverse_loop.simps [of i j buf])
  qed
qed

lemma reverse_loop_ok: "0 < n \<Longrightarrow> n \<le> length buf \<Longrightarrow> reverse_loop 0 (n - 1) buf = rev (take n buf) @ drop n buf"
  using reverse_loop_nth [of "n - 1" buf 0]
  by (auto intro!: nth_equalityI simp: nth_append rev_nth)

lemma fold_update:
  assumes "b \<le> length buf" "a \<le> b"
  shows "fold (\<lambda>i buf. buf[i := x]) [a..<b] buf = take a buf @ replicate (b - a) x @ drop b buf"
  using assms
proof (induction b)
  case (Suc b)
  show ?case
  proof (cases "a = Suc b")
    case False
    with Suc have "fold (\<lambda>i buf. buf[i := x]) [a..<b] buf = take a buf @ replicate (b - a) x @ drop b buf" "a \<le> b" by simp_all
    moreover have "drop b buf = buf ! b # drop (Suc b) buf" using Suc.prems by (simp add: Cons_nth_drop_Suc)
    moreover have "replicate (Suc b - a) x = replicate (b - a) x @ [x]"
      using \<open>a \<le> b\<close> by (simp add: Suc_diff_le replicate_append_same)
    ultimately show ?thesis using Suc.prems by (simp add: list_update_append min_def)
  qed simp
qed simp

text \<open>The field \<^verbatim>\<open>print_num\<close> prints, for a base of at least 2: one buffer of the larger of the
  requested and the needed length; the sign and the digits, most significant first, with blanks
  after them when left adjusted, blanks before them, or zeros between sign and digits when
  zero padded. The in-place reversal of the partly filled buffer produces exactly that.\<close>

theorem print_num_layout:
  assumes "2 \<le> b"
  shows "print_num u b neg len ladjust padc up =
    (let ds = map (digit_char up) (digits_of b u); sg = (if neg then [0x2D] else []);
         pad = len - length (sg @ ds)
     in Some [if ladjust then sg @ ds @ replicate pad 0x20
              else if padc = 0x30 then sg @ replicate pad 0x30 @ ds
              else replicate pad padc @ sg @ ds])"
proof -
  define ds where "ds = map (digit_char up) (digits_of b u)"
  define sg where "sg = (if neg then [0x2D] else [] :: u8 list)"
  define n where "n = length (sg @ ds)"
  define k where "k = len - n"
  have ne: "ds \<noteq> []" by (simp add: ds_def)
  have dl: "digits_loop u b up [] = Some (rev ds)"
    using digits_loop_ok [OF assms, of u up "[]"] by (simp add: ds_def rev_map)
  have act: "(if neg then rev ds @ [0x2D] else rev ds) = rev (sg @ ds)" by (simp add: sg_def)
  have len: "(if len < n then n else len) = n + k" "n + k - n = k" by (auto simp: k_def)
  have nl: "length (rev (sg @ ds)) = n" by (simp add: n_def)
  have n0: "0 < n" using ne by (simp add: n_def)
  have run: "print_num u b neg len ladjust padc up =
     Some [reverse_loop 0 (if ladjust then n - 1 else n + k - 1)
       (if neg \<and> \<not> ladjust \<and> (if ladjust then 0x20 else padc) = 0x30
        then (fold (\<lambda>i buf. buf[i := if ladjust then 0x20 else padc]) [n - 1..<n + k - 1] (rev (sg @ ds) @ replicate k 0))[n + k - 1 := 0x2D]
        else fold (\<lambda>i buf. buf[i := if ladjust then 0x20 else padc]) [n..<n + k] (rev (sg @ ds) @ replicate k 0))]"
    unfolding print_num_def dl bind.bind_lunit Let_def act nl len ..
  have fill: "fold (\<lambda>i buf. buf[i := x]) [n..<n + k] (rev (sg @ ds) @ replicate k 0) = rev (sg @ ds) @ replicate k x" for x :: u8
    using fold_update [of "n + k" "rev (sg @ ds) @ replicate k 0" n x] nl by simp
  show ?thesis
  proof (cases "neg \<and> \<not> ladjust \<and> padc = 0x30")
    case True
    then have sg1: "sg = [0x2D]" and nd: "n = Suc (length ds)" by (simp_all add: sg_def n_def)
    have "fold (\<lambda>i buf. buf[i := 0x30]) [n - 1..<n + k - 1] (rev (sg @ ds) @ replicate k 0) =
        rev ds @ replicate k 0x30 @ drop (n + k - 1) (rev (sg @ ds) @ replicate k 0)"
      using fold_update [of "n + k - 1" "rev (sg @ ds) @ replicate k 0" "n - 1" "0x30"] nd sg1 by simp
    moreover have "length (drop (n + k - 1) (rev (sg @ ds) @ replicate k 0)) = 1" using nd sg1 by simp
    then obtain y where "drop (n + k - 1) (rev (sg @ ds) @ replicate k 0) = [y]"
      by (metis One_nat_def length_0_conv length_Suc_conv)
    ultimately have "(fold (\<lambda>i buf. buf[i := 0x30]) [n - 1..<n + k - 1] (rev (sg @ ds) @ replicate k 0))[n + k - 1 := 0x2D] =
        rev ds @ replicate k 0x30 @ [0x2D]"
      using nd by (simp add: list_update_append)
    then show ?thesis
      unfolding run using True reverse_loop_ok [of "n + k" "rev ds @ replicate k 0x30 @ [0x2D]"] nd
      by (simp add: Let_def sg1 ds_def [symmetric] k_def n_def)
  next
    case False
    then have c: "\<not> (neg \<and> \<not> ladjust \<and> (if ladjust then 0x20 else padc) = 0x30)" by auto
    have sg0: "sg = []" if "\<not> ladjust" "padc = 0x30" using False that by (simp add: sg_def)
    show ?thesis
    proof (cases ladjust)
      case True
      then show ?thesis
        unfolding run fill if_not_P [OF c] using reverse_loop_ok [of n "rev (sg @ ds) @ replicate k 0x20"] nl n0
        by (simp add: Let_def sg_def [symmetric] ds_def [symmetric] k_def n_def)
    next
      case nl': False
      then show ?thesis
        unfolding run fill if_not_P [OF c] using reverse_loop_ok [of "n + k" "rev (sg @ ds) @ replicate k padc"] nl n0 sg0
        by (simp add: Let_def sg_def [symmetric] ds_def [symmetric] k_def n_def)
    qed
  qed
qed


theorem print_num_layout_witness:
  "print_num 42 10 True 6 False 0x30 False =
    (let ds = map (digit_char False) (digits_of 10 42); sg = (if True then [0x2D] else []);
         pad = 6 - length (sg @ ds)
     in Some [if False then sg @ ds @ replicate pad 0x20
              else if (0x30::u8) = 0x30 then sg @ replicate pad 0x30 @ ds
              else replicate pad 0x30 @ sg @ ds])"
  by (rule print_num_layout) simp

section \<open>Reading back\<close>

definition read_digits :: "u8 list \<Rightarrow> int" where
  "read_digits cs = foldl (\<lambda>v c. v * 10 + int (unat (c - 0x30))) 0 cs"

definition read_int :: "u8 list \<Rightarrow> int" where
  "read_int cs = (case cs of c # ds \<Rightarrow> if c = 0x2D then - read_digits ds else read_digits cs | [] \<Rightarrow> 0)"

lemma read_digits_snoc: "read_digits (cs @ [c]) = read_digits cs * 10 + int (unat (c - 0x30))"
  by (simp add: read_digits_def)

lemma digit_char_value: "d \<le> 9 \<Longrightarrow> unat (digit_char up d - 0x30) = d"
  by (simp add: digit_char_def unat_of_nat take_bit_eq_mod)

lemma read_digits_of: "read_digits (map (digit_char up) (digits_of 10 u)) = int u"
proof -
  have "read_digits (map (digit_char up) ds) = int (digits_value 10 ds)" if "\<forall>d\<in>set ds. d \<le> 9" for ds
    using that
  proof (induction ds rule: rev_induct)
    case (snoc d ds)
    then show ?case by (simp add: read_digits_snoc digits_value_snoc digit_char_value)
  qed (simp add: read_digits_def digits_value_def)
  moreover have "\<forall>d\<in>set (digits_of 10 u). d \<le> 9" using digits_of_less [of 10 _ u] by fastforce
  ultimately show ?thesis by (simp add: digits_of_value)
qed

lemma digit_char_not_minus: "d \<le> 9 \<Longrightarrow> digit_char up d \<noteq> 0x2D"
proof
  assume d: "d \<le> 9" and "digit_char up d = 0x2D"
  then have "unat (digit_char up d - 0x30) = unat (0x2D - 0x30 :: u8)" by simp
  with d digit_char_value [OF d, of up] show False by simp
qed

text \<open>C38. Round trip of \<^verbatim>\<open>%d\<close>: for every 32 bit argument, the least negative one included, the
  text printed reads back as the signed value of the argument.\<close>

theorem vprintfmt_d_roundtrip:
  "\<exists>cs. vprintfmt [0x25, 0x64] [WordArg w] = Some [[], cs, []] \<and> read_int cs = sint w"
proof -
  have spec: "get_spec [0x64] = Some (False, 0x20, 0, [0x64])"
    by (simp add: get_spec_def get_flag_def)
  let ?ds = "\<lambda>u. map (digit_char False) (digits_of 10 u)"
  have pos: "print_num u 10 False 0 False 0x20 False = Some [?ds u]"
    and neg: "print_num u 10 True 0 False 0x20 False = Some [0x2D # ?ds u]" for u
    by (simp_all add: print_num_layout Let_def)
  have rd: "read_int (?ds u) = int u" for u
  proof (cases "?ds u")
    case (Cons c cs)
    then obtain d where "d \<in> set (digits_of 10 u)" "c = digit_char False d"
      by (metis list.set_intros(1) list.set_map imageE)
    then have "c \<noteq> 0x2D" using digits_of_less [of 10 d u] digit_char_not_minus [of d] by fastforce
    with Cons read_digits_of [of False u] show ?thesis by (simp add: read_int_def)
  qed simp
  have nil: "vprintfmt [] ap = Some [[]]" for ap
    by (subst vprintfmt.simps) simp
  have conv: "convert 0x64 False 0x20 0 [WordArg w] =
     Some (if w <s 0 then [0x2D # ?ds (unat (- w))] else [?ds (unat w)], [])"
    by (simp add: convert_def take_word_def pos neg)
  have run: "vprintfmt [0x25, 0x64] [WordArg w] =
     Some [[], if w <s 0 then 0x2D # ?ds (unat (- w)) else ?ds (unat w), []]"
    by (subst vprintfmt.simps) (simp add: spec conv nil)
  have uint_mod: "uint w = sint w mod 2 ^ 32" by (simp add: uint_sint take_bit_eq_mod)
  have "read_int (if w <s 0 then 0x2D # ?ds (unat (- w)) else ?ds (unat w)) = sint w"
  proof (cases "w <s 0")
    case True
    then have "sint w < 0" by (simp add: word_sless_alt)
    then have "int (unat (- w)) = - sint w"
      using sint_ge [of w] uint_mod by (simp add: uint_word_ariths mod_minus_eq)
    with True show ?thesis by (simp add: read_int_def read_digits_of)
  next
    case False
    then have "0 \<le> sint w" by (simp add: word_sless_alt)
    then have "int (unat w) = sint w"
      using sint_lt [of w] uint_mod by simp
    with False show ?thesis by (simp add: rd)
  qed
  with run show ?thesis by blast
qed

end
