(* ===== verification/MOS_Debug.thy ===== *)
theory MOS_Debug
  imports MOS_Print MOS_Env
begin

text \<open>
  The users of the formatter: \<^verbatim>\<open>kern/printk.c\<close>, \<^verbatim>\<open>user/lib/debugf.c\<close>, \<^verbatim>\<open>user/lib/fprintf.c\<close>.

  The callbacks act on a state of any type: \<open>pc\<close> is \<^verbatim>\<open>printcharc\<close>, \<open>pr\<close> is
  \<^verbatim>\<open>syscall_print_cons\<close> with its result, \<open>wr\<close> is \<^verbatim>\<open>write\<close> with its result. \<^verbatim>\<open>debugf\<close> collects the
  output in a buffer of 1024 bytes that is flushed when it is full; \<open>None\<close> is \<^verbatim>\<open>user_panic\<close> or
  what \<open>vprintfmt\<close> leaves undefined.
\<close>

section \<open>printk\<close>

definition outputk :: "(u8 \<Rightarrow> 's \<Rightarrow> 's) \<Rightarrow> u8 list \<Rightarrow> 's \<Rightarrow> 's" where
  "outputk pc buf s = fold pc buf s"

definition printk :: "(u8 \<Rightarrow> 's \<Rightarrow> 's) \<Rightarrow> u8 list \<Rightarrow> varg list \<Rightarrow> 's \<Rightarrow> 's option" where
  "printk pc fmt ap s = do { bufs \<leftarrow> vprintfmt fmt ap; Some (fold (outputk pc) bufs s) }"

text \<open>The bytes of the format strings of \<^verbatim>\<open>print_tf\<close>.\<close>

definition bytes_of :: "string \<Rightarrow> u8 list" where
  "bytes_of cs = map of_char cs"

definition print_tf :: "(u8 \<Rightarrow> 's \<Rightarrow> 's) \<Rightarrow> trapframe \<Rightarrow> 's \<Rightarrow> 's option" where
  "print_tf pc tf s = do {
     s \<leftarrow> foldM (\<lambda>i. printk pc (bytes_of ''$%2d = %08x'' @ [0x0A]) [WordArg (of_nat i), WordArg (regs tf i)]) [0..<32] s;
     s \<leftarrow> printk pc (bytes_of ''HI  = %08x'' @ [0x0A]) [WordArg (hi tf)] s;
     s \<leftarrow> printk pc (bytes_of ''LO  = %08x'' @ [0x0A, 0x0A]) [WordArg (lo tf)] s;
     s \<leftarrow> printk pc (bytes_of ''CP0.SR    = %08x'' @ [0x0A]) [WordArg (cp0_status tf)] s;
     s \<leftarrow> printk pc (bytes_of ''CP0.BadV  = %08x'' @ [0x0A]) [WordArg (cp0_badvaddr tf)] s;
     s \<leftarrow> printk pc (bytes_of ''CP0.Cause = %08x'' @ [0x0A]) [WordArg (cp0_cause tf)] s;
     printk pc (bytes_of ''CP0.EPC   = %08x'' @ [0x0A]) [WordArg (cp0_epc tf)] s
   }"

section \<open>debugf\<close>

abbreviation BUF_LEN :: nat where "BUF_LEN \<equiv> 1024"

record debug_ctx =
  dbuf :: "u8 list"
  dpos :: nat

text \<open>\<^verbatim>\<open>memcpy(ctx->buf + ctx->pos, s, n)\<close>.\<close>

definition buf_copy :: "u8 list \<Rightarrow> debug_ctx \<Rightarrow> debug_ctx" where
  "buf_copy bs c = c\<lparr>dbuf := take (dpos c) (dbuf c) @ bs @ drop (dpos c + length bs) (dbuf c)\<rparr>"

definition debug_flush :: "(u8 list \<Rightarrow> 's \<Rightarrow> int \<times> 's) \<Rightarrow> debug_ctx \<Rightarrow> 's \<Rightarrow> (debug_ctx \<times> 's) option" where
  "debug_flush pr c s =
    (if dpos c = 0 then Some (c, s)
     else let (r, s) = pr (take (dpos c) (dbuf c)) s in
       if r \<noteq> 0 then None else Some (c\<lparr>dpos := 0\<rparr>, s))"

lemma debug_flush_pos: "debug_flush pr c s = Some (c', s') \<Longrightarrow> dpos c' = 0"
  by (auto simp: debug_flush_def split: if_splits prod.splits)

function debug_output :: "(u8 list \<Rightarrow> 's \<Rightarrow> int \<times> 's) \<Rightarrow> u8 list \<Rightarrow> debug_ctx \<Rightarrow> 's \<Rightarrow> (debug_ctx \<times> 's) option" where
  "debug_output pr bs c s =
    (if BUF_LEN < dpos c + length bs then
       let n = BUF_LEN - dpos c in
       case debug_flush pr ((buf_copy (take n bs) c)\<lparr>dpos := BUF_LEN\<rparr>) s of
         None \<Rightarrow> None
       | Some (c, s) \<Rightarrow> debug_output pr (drop n bs) c s
     else Some ((buf_copy bs c)\<lparr>dpos := dpos c + length bs\<rparr>, s))"
  by pat_completeness auto
termination
  by (relation "measures [\<lambda>(_, bs, _, _). length bs, \<lambda>(_, _, c, _). dpos c]")
    (auto dest: debug_flush_pos)

declare debug_output.simps [simp del]

definition vdebugf :: "(u8 list \<Rightarrow> 's \<Rightarrow> int \<times> 's) \<Rightarrow> u8 list \<Rightarrow> varg list \<Rightarrow> 's \<Rightarrow> 's option" where
  "vdebugf pr fmt ap s = do {
     bufs \<leftarrow> vprintfmt fmt ap;
     (c, s) \<leftarrow> foldM (\<lambda>b (c, s). debug_output pr b c s) bufs (\<lparr>dbuf = replicate BUF_LEN 0, dpos = 0\<rparr>, s);
     (_, s) \<leftarrow> debug_flush pr c s;
     Some s
   }"

definition debugf :: "(u8 list \<Rightarrow> 's \<Rightarrow> int \<times> 's) \<Rightarrow> u8 list \<Rightarrow> varg list \<Rightarrow> 's \<Rightarrow> 's option" where
  "debugf pr fmt ap s = vdebugf pr fmt ap s"

section \<open>fprintf\<close>

record print_ctx =
  pfd :: int
  pret :: int

definition print_output :: "(int \<Rightarrow> u8 list \<Rightarrow> 's \<Rightarrow> int \<times> 's) \<Rightarrow> u8 list \<Rightarrow> print_ctx \<times> 's \<Rightarrow> print_ctx \<times> 's" where
  "print_output wr bs cs = (case cs of (c, s) \<Rightarrow>
     if pret c < 0 then (c, s)
     else let (r, s) = wr (pfd c) bs s in
       if r < 0 then (c\<lparr>pret := r\<rparr>, s) else (c\<lparr>pret := pret c + r\<rparr>, s))"

definition vfprintf :: "(int \<Rightarrow> u8 list \<Rightarrow> 's \<Rightarrow> int \<times> 's) \<Rightarrow> int \<Rightarrow> u8 list \<Rightarrow> varg list \<Rightarrow> 's \<Rightarrow> (int \<times> 's) option" where
  "vfprintf wr fd fmt ap s = do {
     bufs \<leftarrow> vprintfmt fmt ap;
     let (c, s) = fold (print_output wr) bufs (\<lparr>pfd = fd, pret = 0\<rparr>, s);
     Some (pret c, s)
   }"

definition fprintf :: "(int \<Rightarrow> u8 list \<Rightarrow> 's \<Rightarrow> int \<times> 's) \<Rightarrow> int \<Rightarrow> u8 list \<Rightarrow> varg list \<Rightarrow> 's \<Rightarrow> (int \<times> 's) option" where
  "fprintf wr fd fmt ap s = vfprintf wr fd fmt ap s"

definition printf :: "(int \<Rightarrow> u8 list \<Rightarrow> 's \<Rightarrow> int \<times> 's) \<Rightarrow> u8 list \<Rightarrow> varg list \<Rightarrow> 's \<Rightarrow> (int \<times> 's) option" where
  "printf wr fmt ap s = vfprintf wr 1 fmt ap s"

section \<open>What is printed\<close>

text \<open>The console as the list of the buffers printed, in order.\<close>

definition collect :: "u8 list \<Rightarrow> u8 list list \<Rightarrow> int \<times> u8 list list" where
  "collect b cs = (0, cs @ [b])"

definition ctx_ok :: "debug_ctx \<Rightarrow> bool" where
  "ctx_ok c \<longleftrightarrow> length (dbuf c) = BUF_LEN \<and> dpos c \<le> BUF_LEN"

text \<open>Everything that was output so far: printed, or still in the buffer.\<close>

definition pending :: "debug_ctx \<Rightarrow> u8 list list \<Rightarrow> u8 list" where
  "pending c cs = concat cs @ take (dpos c) (dbuf c)"

abbreviation chunks_ok :: "u8 list list \<Rightarrow> bool" where
  "chunks_ok cs \<equiv> list_all (\<lambda>b. b \<noteq> [] \<and> length b \<le> BUF_LEN) cs"

lemma debug_flush_collect:
  assumes "ctx_ok c" "chunks_ok cs"
  shows "\<exists>c' cs'. debug_flush collect c cs = Some (c', cs') \<and> ctx_ok c' \<and> chunks_ok cs' \<and> dpos c' = 0 \<and>
    concat cs' = pending c cs"
  using assms by (auto simp: debug_flush_def collect_def ctx_ok_def pending_def)

lemma debug_output_collect:
  assumes "ctx_ok c" "chunks_ok cs"
  shows "\<exists>c' cs'. debug_output collect bs c cs = Some (c', cs') \<and> ctx_ok c' \<and> chunks_ok cs' \<and>
    pending c' cs' = pending c cs @ bs"
  using assms
proof (induction "collect" bs c cs rule: debug_output.induct)
  case (1 bs c cs)
  show ?case
  proof (cases "BUF_LEN < dpos c + length bs")
    case False
    then show ?thesis using 1(2,3)
      by (subst debug_output.simps) (auto simp: ctx_ok_def pending_def buf_copy_def)
  next
    case True
    define n where "n = BUF_LEN - dpos c"
    define c1 where "c1 = (buf_copy (take n bs) c)\<lparr>dpos := BUF_LEN\<rparr>"
    have n: "n \<le> length bs" "dpos c + n = BUF_LEN" using True 1(2) by (auto simp: n_def ctx_ok_def)
    have c1: "ctx_ok c1" "pending c1 cs = pending c cs @ take n bs"
      using 1(2) n by (auto simp: c1_def ctx_ok_def buf_copy_def pending_def min_def n_def [symmetric])
    from debug_flush_collect [OF c1(1) 1(3)] obtain c2 cs2 where
      f: "debug_flush collect c1 cs = Some (c2, cs2)" "ctx_ok c2" "chunks_ok cs2" "dpos c2 = 0" "concat cs2 = pending c1 cs"
      by blast
    from 1(1) [OF True n_def f(1) [unfolded c1_def] refl f(2,3)]
    obtain c' cs' where "debug_output collect (drop n bs) c2 cs2 = Some (c', cs')" "ctx_ok c'" "chunks_ok cs'"
      "pending c' cs' = pending c2 cs2 @ drop n bs" by blast
    moreover have "pending c2 cs2 @ drop n bs = pending c cs @ bs"
      using f(4,5) c1(2) by (simp add: pending_def)
    ultimately show ?thesis using True f(1)
      by (subst debug_output.simps) (simp add: Let_def n_def c1_def)
  qed
qed

lemma debug_fold_collect:
  "ctx_ok c \<Longrightarrow> chunks_ok cs \<Longrightarrow>
    \<exists>c' cs'. foldM (\<lambda>b (c, s). debug_output collect b c s) bufs (c, cs) = Some (c', cs') \<and> ctx_ok c' \<and> chunks_ok cs' \<and>
      pending c' cs' = pending c cs @ concat bufs"
proof (induction bufs arbitrary: c cs)
  case (Cons b bufs)
  obtain c1 cs1 where 1: "debug_output collect b c cs = Some (c1, cs1)" "ctx_ok c1" "chunks_ok cs1" "pending c1 cs1 = pending c cs @ b"
    using debug_output_collect [OF Cons.prems] by blast
  show ?case using Cons.IH [OF 1(2,3)] 1(1,4) by auto
qed auto

text \<open>\<^verbatim>\<open>debugf\<close> prints what the formatter produces: the system calls it makes print, in order and
  without loss, exactly the characters \<^verbatim>\<open>vprintfmt\<close> passes to the callback, in chunks that are
  never empty and never longer than the buffer.\<close>

theorem debugf_prints:
  assumes "vprintfmt fmt ap = Some bufs"
  shows "\<exists>cs. debugf collect fmt ap [] = Some cs \<and> concat cs = concat bufs \<and> chunks_ok cs"
proof -
  let ?c = "\<lparr>dbuf = replicate BUF_LEN 0, dpos = 0\<rparr>"
  have c: "ctx_ok ?c" "chunks_ok []" by (simp_all add: ctx_ok_def)
  from debug_fold_collect [OF c, of bufs] obtain c' cs' where
    1: "foldM (\<lambda>b (c, s). debug_output collect b c s) bufs (?c, []) = Some (c', cs')" "ctx_ok c'" "chunks_ok cs'"
      "pending c' cs' = concat bufs"
    by (auto simp: pending_def)
  from debug_flush_collect [OF 1(2,3)] 1(1,4) assms show ?thesis
    by (auto simp: debugf_def vdebugf_def)
qed

theorem debugf_prints_witness:
  "\<exists>cs. debugf collect [0x68, 0x69] [] [] = Some cs \<and> concat cs = [0x68, 0x69]"
proof -
  have "vprintfmt [0x68, 0x69] [] = Some [[0x68, 0x69]]" by (subst vprintfmt.simps) simp
  from debugf_prints [OF this] show ?thesis by auto
qed

end
