(* ===== verification/MOS_String.thy ===== *)
theory MOS_String
  imports MOS_Prelude
begin

text \<open>
  The string library \<^verbatim>\<open>lib/string.c\<close>.

  Memory is a function from 32 bit addresses to bytes, pointers are addresses, and pointer
  arithmetic wraps around. Words are little endian. Each loop of the source is one function;
  a loop that may run for ever (a missing terminator, a copy that wraps around the address
  space) is a \<open>partial_function\<close> with value \<open>None\<close> there. \<^verbatim>\<open>char\<close> is signed, as on MIPS.
\<close>

type_synonym bytemem = "u32 \<Rightarrow> u8"

definition ld32 :: "bytemem \<Rightarrow> u32 \<Rightarrow> u32" where
  "ld32 m a = ucast (m a) OR push_bit 8 (ucast (m (a + 1))) OR push_bit 16 (ucast (m (a + 2)))
     OR push_bit 24 (ucast (m (a + 3)))"

definition st32 :: "u32 \<Rightarrow> u32 \<Rightarrow> bytemem \<Rightarrow> bytemem" where
  "st32 a w m = m(a := ucast w, a + 1 := ucast (drop_bit 8 w), a + 2 := ucast (drop_bit 16 w),
     a + 3 := ucast (drop_bit 24 w))"

section \<open>Copying and filling\<close>

partial_function (option) copy_tail :: "u32 \<Rightarrow> u32 \<Rightarrow> u32 \<Rightarrow> bytemem \<Rightarrow> bytemem option" where
  "copy_tail dst src mx m =
    (if dst < mx then copy_tail (dst + 1) (src + 1) mx (m(dst := m src)) else Some m)"

partial_function (option) copy_head :: "u32 \<Rightarrow> u32 \<Rightarrow> u32 \<Rightarrow> bytemem \<Rightarrow> (u32 \<times> u32 \<times> bytemem) option" where
  "copy_head dst src mx m =
    (if dst AND 3 \<noteq> 0 \<and> dst < mx then copy_head (dst + 1) (src + 1) mx (m(dst := m src))
     else Some (dst, src, m))"

partial_function (option) copy_words :: "u32 \<Rightarrow> u32 \<Rightarrow> u32 \<Rightarrow> bytemem \<Rightarrow> (u32 \<times> u32 \<times> bytemem) option" where
  "copy_words dst src mx m =
    (if dst + 4 \<le> mx then copy_words (dst + 4) (src + 4) mx (st32 dst (ld32 m src) m)
     else Some (dst, src, m))"

definition memcpy :: "u32 \<Rightarrow> u32 \<Rightarrow> u32 \<Rightarrow> bytemem \<Rightarrow> (u32 \<times> bytemem) option" where
  "memcpy dst src n m =
    (let dstaddr = dst; mx = dst + n in
     if src AND 3 \<noteq> dst AND 3 then do {
       m \<leftarrow> copy_tail dst src mx m;
       Some (dstaddr, m)
     } else do {
       (dst, src, m) \<leftarrow> copy_head dst src mx m;
       (dst, src, m) \<leftarrow> copy_words dst src mx m;
       m \<leftarrow> copy_tail dst src mx m;
       Some (dstaddr, m)
     })"

partial_function (option) fill_head :: "u32 \<Rightarrow> u8 \<Rightarrow> u32 \<Rightarrow> bytemem \<Rightarrow> (u32 \<times> bytemem) option" where
  "fill_head dst b mx m =
    (if dst AND 3 \<noteq> 0 \<and> dst < mx then fill_head (dst + 1) b mx (m(dst := b)) else Some (dst, m))"

partial_function (option) fill_words :: "u32 \<Rightarrow> u32 \<Rightarrow> u32 \<Rightarrow> bytemem \<Rightarrow> (u32 \<times> bytemem) option" where
  "fill_words dst w mx m =
    (if dst + 4 \<le> mx then fill_words (dst + 4) w mx (st32 dst w m) else Some (dst, m))"

partial_function (option) fill_tail :: "u32 \<Rightarrow> u8 \<Rightarrow> u32 \<Rightarrow> bytemem \<Rightarrow> bytemem option" where
  "fill_tail dst b mx m = (if dst < mx then fill_tail (dst + 1) b mx (m(dst := b)) else Some m)"

definition memset :: "u32 \<Rightarrow> u32 \<Rightarrow> u32 \<Rightarrow> bytemem \<Rightarrow> (u32 \<times> bytemem) option" where
  "memset dst c n m = do {
     let dstaddr = dst;
     let mx = dst + n;
     let byte = (ucast (c AND 0xff) :: u8);
     let word = ((ucast byte OR push_bit 8 (ucast byte)) OR push_bit 16 (ucast byte)) OR push_bit 24 (ucast byte);
     (dst, m) \<leftarrow> fill_head dst byte mx m;
     (dst, m) \<leftarrow> fill_words dst word mx m;
     m \<leftarrow> fill_tail dst byte mx m;
     Some (dstaddr, m)
   }"

section \<open>Strings\<close>

partial_function (option) strlen_loop :: "u32 \<Rightarrow> u32 \<Rightarrow> bytemem \<Rightarrow> u32 option" where
  "strlen_loop s n m = (if m s \<noteq> 0 then strlen_loop (s + 1) (n + 1) m else Some n)"

definition strlen :: "u32 \<Rightarrow> bytemem \<Rightarrow> u32 option" where
  "strlen s m = strlen_loop s 0 m"

partial_function (option) strcpy_loop :: "u32 \<Rightarrow> u32 \<Rightarrow> bytemem \<Rightarrow> bytemem option" where
  "strcpy_loop dst src m =
    (let m' = m(dst := m src) in if m' dst \<noteq> 0 then strcpy_loop (dst + 1) (src + 1) m' else Some m')"

definition strcpy :: "u32 \<Rightarrow> u32 \<Rightarrow> bytemem \<Rightarrow> (u32 \<times> bytemem) option" where
  "strcpy dst src m = do { m \<leftarrow> strcpy_loop dst src m; Some (dst, m) }"

text \<open>A null pointer is returned as 0.\<close>

partial_function (option) strchr :: "u32 \<Rightarrow> u32 \<Rightarrow> bytemem \<Rightarrow> u32 option" where
  "strchr s c m =
    (if m s \<noteq> 0 then if scast (m s) = c then Some s else strchr (s + 1) c m else Some 0)"

partial_function (option) strcmp :: "u32 \<Rightarrow> u32 \<Rightarrow> bytemem \<Rightarrow> int option" where
  "strcmp p q m =
    (if m p \<noteq> 0 \<and> m p = m q then strcmp (p + 1) (q + 1) m
     else if (scast (m p) :: u32) < scast (m q) then Some (- 1)
     else if (scast (m p) :: u32) > scast (m q) then Some 1
     else Some 0)"

declare copy_tail.simps [code] copy_head.simps [code] copy_words.simps [code] fill_head.simps [code]
  fill_words.simps [code] fill_tail.simps [code] strlen_loop.simps [code] strcpy_loop.simps [code]
  strchr.simps [code] strcmp.simps [code]

section \<open>Words and bytes\<close>

lemma ld32_byte:
  "ucast (ld32 m a) = m a" "ucast (drop_bit 8 (ld32 m a)) = m (a + 1)"
  "ucast (drop_bit 16 (ld32 m a)) = m (a + 2)" "ucast (drop_bit 24 (ld32 m a)) = m (a + 3)"
  by (rule bit_word_eqI; auto simp: ld32_def bit_simps dest: bit_imp_le_length)+

lemma st32_ld32: "st32 d (ld32 m s) m = m(d := m s, d + 1 := m (s + 1), d + 2 := m (s + 2), d + 3 := m (s + 3))"
  unfolding st32_def ld32_byte ..

lemma word_bytes:
  fixes b :: u8
  defines "w \<equiv> ((ucast b OR push_bit 8 (ucast b)) OR push_bit 16 (ucast b)) OR push_bit 24 (ucast b) :: u32"
  shows "st32 d w m = m(d := b, d + 1 := b, d + 2 := b, d + 3 := b)"
proof -
  have "w = ld32 (\<lambda>_. b) 0" by (simp add: w_def ld32_def or.assoc)
  then show ?thesis using ld32_byte [of "\<lambda>_. b" 0] by (simp add: st32_def)
qed


section \<open>The reference copy and fill\<close>

definition copied :: "u32 \<Rightarrow> u32 \<Rightarrow> nat \<Rightarrow> bytemem \<Rightarrow> bytemem" where
  "copied dst src k m = (\<lambda>a. if unat (a - dst) < k then m (src + (a - dst)) else m a)"

definition filled :: "u32 \<Rightarrow> u8 \<Rightarrow> nat \<Rightarrow> bytemem \<Rightarrow> bytemem" where
  "filled dst b k m = (\<lambda>a. if unat (a - dst) < k then b else m a)"

text \<open>The source bytes lie outside the destination.\<close>

definition disjoint_from :: "u32 \<Rightarrow> u32 \<Rightarrow> nat \<Rightarrow> bool" where
  "disjoint_from src dst n \<longleftrightarrow> (\<forall>i<n. n \<le> unat (src + of_nat i - dst))"

lemma copied_0 [simp]: "copied dst src 0 m = m" and filled_0 [simp]: "filled dst b 0 m = m"
  by (simp_all add: copied_def filled_def)

lemma unat_of_nat32: "k < 2 ^ 32 \<Longrightarrow> unat (of_nat k :: u32) = k"
  by (simp add: unat_of_nat take_bit_eq_mod)

lemma diff_of_nat_iff: "k < 2 ^ 32 \<Longrightarrow> unat (a - dst) = k \<longleftrightarrow> a = dst + of_nat k" for a dst :: u32
  using word_unat_eq_iff [of "a - dst" "of_nat k"] by (simp add: unat_of_nat32 diff_eq_eq add.commute)

lemma copied_step:
  assumes "disjoint_from src dst n" "k < n" "n < 2 ^ 32"
  shows "(copied dst src k m)(dst + of_nat k := copied dst src k m (src + of_nat k)) = copied dst src (Suc k) m"
proof
  fix a
  have "\<not> unat (src + of_nat k - dst) < k" using assms by (auto simp: disjoint_from_def dest!: spec [of _ k])
  then show "((copied dst src k m)(dst + of_nat k := copied dst src k m (src + of_nat k))) a = copied dst src (Suc k) m a"
    using assms(2,3) diff_of_nat_iff [of k a dst]
    by (cases "a = dst + of_nat k") (auto simp: copied_def less_Suc_eq unat_of_nat32)
qed

lemma filled_step:
  "k < 2 ^ 32 \<Longrightarrow> (filled dst b k m)(dst + of_nat k := b) = filled dst b (Suc k) m"
  using diff_of_nat_iff [of k _ dst] by (auto simp: filled_def less_Suc_eq fun_eq_iff)

text \<open>Offsets from the start of a region that does not wrap around.\<close>

lemma offset_less:
  fixes dst :: u32
  assumes "unat dst + n < 2 ^ 32" "i \<le> n" "j \<le> n"
  shows "dst + of_nat i < dst + of_nat j \<longleftrightarrow> i < j" "dst + of_nat i \<le> dst + of_nat j \<longleftrightarrow> i \<le> j"
proof -
  have "unat (dst + of_nat k) = unat dst + k" if "k \<le> n" for k
    using that assms(1) by (simp add: unat_word_ariths unat_of_nat32)
  then show "dst + of_nat i < dst + of_nat j \<longleftrightarrow> i < j" "dst + of_nat i \<le> dst + of_nat j \<longleftrightarrow> i \<le> j"
    using assms(2,3) by (simp_all add: word_less_nat_alt word_le_nat_alt)
qed

section \<open>The loops\<close>

lemma copy_tail_ok:
  assumes sep: "disjoint_from src dst n" and n: "unat dst + n < 2 ^ 32" and i: "i \<le> n"
  shows "copy_tail (dst + of_nat i) (src + of_nat i) (dst + of_nat n) (copied dst src i m) = Some (copied dst src n m)"
  using i
proof (induction "n - i" arbitrary: i)
  case 0
  then show ?case by (subst copy_tail.simps) simp
next
  case (Suc k)
  then have lt: "i < n" by simp
  have "copy_tail (dst + of_nat (Suc i)) (src + of_nat (Suc i)) (dst + of_nat n) (copied dst src (Suc i) m) =
      Some (copied dst src n m)"
    using Suc lt by (intro Suc.hyps) auto
  moreover have "dst + of_nat i < dst + of_nat n" using offset_less [OF n, of i n] lt by simp
  ultimately show ?case
    using copied_step [OF sep lt, of m] n
    by (subst copy_tail.simps) (simp add: add.assoc add.commute [of 1])
qed

lemma copy_head_ok:
  assumes sep: "disjoint_from src dst n" and n: "unat dst + n < 2 ^ 32"
  obtains i where "i \<le> n" "copy_head dst src (dst + of_nat n) m =
    Some (dst + of_nat i, src + of_nat i, copied dst src i m)"
proof -
  have "\<exists>j\<le>n. copy_head (dst + of_nat i) (src + of_nat i) (dst + of_nat n) (copied dst src i m) =
      Some (dst + of_nat j, src + of_nat j, copied dst src j m)" if "i \<le> n" for i
    using that
  proof (induction "n - i" arbitrary: i)
    case 0
    then show ?case by (subst copy_head.simps) auto
  next
    case (Suc k)
    then have lt: "i < n" by simp
    show ?case
    proof (cases "(dst + of_nat i) AND 3 = 0")
      case True
      then show ?thesis using lt by (intro exI [of _ i]) (subst copy_head.simps, simp)
    next
      case False
      have "\<exists>j\<le>n. copy_head (dst + of_nat (Suc i)) (src + of_nat (Suc i)) (dst + of_nat n) (copied dst src (Suc i) m) =
          Some (dst + of_nat j, src + of_nat j, copied dst src j m)"
        using Suc lt by (intro Suc.hyps) auto
      moreover have "dst + of_nat i < dst + of_nat n" using offset_less [OF n, of i n] lt by simp
      ultimately show ?thesis
        using copied_step [OF sep lt, of m] n False
        by (subst copy_head.simps) (simp add: add.assoc add.commute [of 1])
    qed
  qed
  from this [of 0] show thesis using that by auto
qed

lemma copied_word:
  assumes sep: "disjoint_from src dst n" and k: "k + 4 \<le> n" and n: "n < 2 ^ 32"
  shows "st32 (dst + of_nat k) (ld32 (copied dst src k m) (src + of_nat k)) (copied dst src k m) = copied dst src (k + 4) m"
proof -
  have src: "copied dst src j m (src + of_nat i) = m (src + of_nat i)" if "i < n" "j \<le> n" for i j
    using sep that by (auto simp: disjoint_from_def copied_def dest!: spec [of _ i])
  have step: "copied dst src (Suc j) m = (copied dst src j m)(dst + of_nat j := m (src + of_nat j))" if "j < n" for j
    using copied_step [OF sep that n, of m] src [of j j] that by simp
  have idx: "src + of_nat (k + j) = src + of_nat k + of_nat j" "dst + of_nat (k + j) = dst + of_nat k + of_nat j" for j
    by simp_all
  have "copied dst src (k + 4) m = copied dst src (Suc (Suc (Suc (Suc k)))) m" by (simp add: numeral_eq_Suc)
  also have "\<dots> = (copied dst src k m)(dst + of_nat k := m (src + of_nat k), dst + of_nat k + 1 := m (src + of_nat k + 1),
      dst + of_nat k + 2 := m (src + of_nat k + 2), dst + of_nat k + 3 := m (src + of_nat k + 3))"
    using k by (simp add: step algebra_simps)
  also have "\<dots> = st32 (dst + of_nat k) (ld32 (copied dst src k m) (src + of_nat k)) (copied dst src k m)"
    unfolding st32_ld32 using src [of k k] src [of "k + 1" k] src [of "k + 2" k] src [of "k + 3" k] k
    by (simp add: ac_simps)
  finally show ?thesis by simp
qed

lemma copy_words_ok:
  assumes sep: "disjoint_from src dst n" and n: "unat dst + n + 4 < 2 ^ 32" and i: "i \<le> n"
  obtains j where "j \<le> n" "copy_words (dst + of_nat i) (src + of_nat i) (dst + of_nat n) (copied dst src i m) =
      Some (dst + of_nat j, src + of_nat j, copied dst src j m)"
proof -
  have n': "unat dst + (n + 4) < 2 ^ 32" using n by simp
  have "\<exists>j\<le>n. copy_words (dst + of_nat i) (src + of_nat i) (dst + of_nat n) (copied dst src i m) =
      Some (dst + of_nat j, src + of_nat j, copied dst src j m)"
    using i
  proof (induction "n - i" arbitrary: i rule: less_induct)
    case less
    have cond: "dst + of_nat i + 4 \<le> dst + of_nat n \<longleftrightarrow> i + 4 \<le> n"
      using offset_less(2) [OF n', of "i + 4" n] less.prems by (simp add: add.assoc)
    show ?case
    proof (cases "i + 4 \<le> n")
      case False
      then show ?thesis using cond less.prems by (subst copy_words.simps) auto
    next
      case True
      have "\<exists>j\<le>n. copy_words (dst + of_nat (i + 4)) (src + of_nat (i + 4)) (dst + of_nat n) (copied dst src (i + 4) m) =
          Some (dst + of_nat j, src + of_nat j, copied dst src j m)"
        using True by (intro less.hyps) auto
      then show ?thesis
        using cond True copied_word [OF sep True, of m] n
        by (subst copy_words.simps) (simp add: add.assoc)
    qed
  qed
  with that show thesis by blast
qed


section \<open>Properties\<close>

text \<open>\<^verbatim>\<open>memcpy\<close> with its alignment cases and word loop is the byte-wise copy: for a source
  disjoint from the destination and a destination that ends at least five bytes below the end
  of the address space, it returns the destination and the memory in which exactly the \<open>n\<close>
  bytes of the destination are those of the source.\<close>

lemma memcpy_copies:
  assumes "disjoint_from src dst (unat n)" "unat dst + unat n + 4 < 2 ^ 32"
  shows "memcpy dst src n m = Some (dst, copied dst src (unat n) m)"
proof -
  note sep = assms(1)
  have n: "unat dst + unat n < 2 ^ 32" and mx: "dst + n = dst + of_nat (unat n)" using assms(2) by simp_all
  show ?thesis
  proof (cases "src AND 3 = dst AND 3")
    case False
    then show ?thesis
      using copy_tail_ok [OF sep n, of 0 m] unfolding memcpy_def mx by simp
  next
    case True
    obtain i where i: "i \<le> unat n" "copy_head dst src (dst + of_nat (unat n)) m =
        Some (dst + of_nat i, src + of_nat i, copied dst src i m)"
      by (rule copy_head_ok [OF sep n])
    obtain j where j: "j \<le> unat n" "copy_words (dst + of_nat i) (src + of_nat i) (dst + of_nat (unat n)) (copied dst src i m) =
        Some (dst + of_nat j, src + of_nat j, copied dst src j m)"
      by (rule copy_words_ok [OF sep assms(2) i(1)])
    show ?thesis
      unfolding memcpy_def Let_def mx i(2) using True j(2) copy_tail_ok [OF sep n j(1), of m]
      by simp
  qed
qed

lemma fill_tail_ok:
  assumes n: "unat dst + n < 2 ^ 32" and i: "i \<le> n"
  shows "fill_tail (dst + of_nat i) b (dst + of_nat n) (filled dst b i m) = Some (filled dst b n m)"
  using i
proof (induction "n - i" arbitrary: i)
  case 0
  then show ?case by (subst fill_tail.simps) simp
next
  case (Suc k)
  then have lt: "i < n" by simp
  have "fill_tail (dst + of_nat (Suc i)) b (dst + of_nat n) (filled dst b (Suc i) m) = Some (filled dst b n m)"
    using Suc lt by (intro Suc.hyps) auto
  moreover have "dst + of_nat i < dst + of_nat n" using offset_less [OF n, of i n] lt by simp
  ultimately show ?case
    using filled_step [of i dst b m] lt n
    by (subst fill_tail.simps) (simp add: add.assoc add.commute [of 1])
qed

lemma fill_head_ok:
  assumes n: "unat dst + n < 2 ^ 32"
  obtains i where "i \<le> n" "fill_head dst b (dst + of_nat n) m = Some (dst + of_nat i, filled dst b i m)"
proof -
  have "\<exists>j\<le>n. fill_head (dst + of_nat i) b (dst + of_nat n) (filled dst b i m) = Some (dst + of_nat j, filled dst b j m)"
    if "i \<le> n" for i
    using that
  proof (induction "n - i" arbitrary: i)
    case 0
    then show ?case by (subst fill_head.simps) auto
  next
    case (Suc k)
    then have lt: "i < n" by simp
    show ?case
    proof (cases "(dst + of_nat i) AND 3 = 0")
      case True
      then show ?thesis using lt by (intro exI [of _ i]) (subst fill_head.simps, simp)
    next
      case False
      have "\<exists>j\<le>n. fill_head (dst + of_nat (Suc i)) b (dst + of_nat n) (filled dst b (Suc i) m) =
          Some (dst + of_nat j, filled dst b j m)"
        using Suc lt by (intro Suc.hyps) auto
      moreover have "dst + of_nat i < dst + of_nat n" using offset_less [OF n, of i n] lt by simp
      ultimately show ?thesis
        using filled_step [of i dst b m] lt n False
        by (subst fill_head.simps) (simp add: add.assoc add.commute [of 1])
    qed
  qed
  from this [of 0] show thesis using that by auto
qed

lemma filled_word:
  fixes b :: u8
  defines "w \<equiv> ((ucast b OR push_bit 8 (ucast b)) OR push_bit 16 (ucast b)) OR push_bit 24 (ucast b) :: u32"
  assumes "k + 4 < 2 ^ 32"
  shows "st32 (dst + of_nat k) w (filled dst b k m) = filled dst b (k + 4) m"
proof -
  have "filled dst b (k + 4) m = filled dst b (Suc (Suc (Suc (Suc k)))) m" by (simp add: numeral_eq_Suc)
  also have "\<dots> = (filled dst b k m)(dst + of_nat k := b, dst + of_nat k + 1 := b, dst + of_nat k + 2 := b, dst + of_nat k + 3 := b)"
    using assms(2) by (simp add: filled_step [symmetric] algebra_simps)
  finally show ?thesis unfolding w_def word_bytes by simp
qed

lemma fill_words_ok:
  fixes b :: u8
  defines "w \<equiv> ((ucast b OR push_bit 8 (ucast b)) OR push_bit 16 (ucast b)) OR push_bit 24 (ucast b) :: u32"
  assumes n: "unat dst + n + 4 < 2 ^ 32" and i: "i \<le> n"
  obtains j where "j \<le> n"
    "fill_words (dst + of_nat i) w (dst + of_nat n) (filled dst b i m) = Some (dst + of_nat j, filled dst b j m)"
proof -
  have n': "unat dst + (n + 4) < 2 ^ 32" using n by simp
  have "\<exists>j\<le>n. fill_words (dst + of_nat i) w (dst + of_nat n) (filled dst b i m) = Some (dst + of_nat j, filled dst b j m)"
    using i
  proof (induction "n - i" arbitrary: i rule: less_induct)
    case less
    have cond: "dst + of_nat i + 4 \<le> dst + of_nat n \<longleftrightarrow> i + 4 \<le> n"
      using offset_less(2) [OF n', of "i + 4" n] less.prems by (simp add: add.assoc)
    show ?case
    proof (cases "i + 4 \<le> n")
      case False
      then show ?thesis using cond less.prems by (subst fill_words.simps) auto
    next
      case True
      have "\<exists>j\<le>n. fill_words (dst + of_nat (i + 4)) w (dst + of_nat n) (filled dst b (i + 4) m) =
          Some (dst + of_nat j, filled dst b j m)"
        using True by (intro less.hyps) auto
      then show ?thesis
        using cond True filled_word [of i dst b m, folded w_def] n
        by (subst fill_words.simps) (simp add: add.assoc)
    qed
  qed
  with that show thesis by blast
qed

text \<open>\<^verbatim>\<open>memset\<close> returns and sets exactly the \<open>n\<close> bytes from \<open>dst\<close> to the low byte of \<open>c\<close>.\<close>

theorem memset_fills:
  assumes "unat dst + unat n + 4 < 2 ^ 32"
  shows "memset dst c n m = Some (dst, filled dst (ucast (c AND 0xff)) (unat n) m)"
proof -
  let ?b = "ucast (c AND 0xff) :: u8"
  let ?w = "((ucast ?b OR push_bit 8 (ucast ?b)) OR push_bit 16 (ucast ?b)) OR push_bit 24 (ucast ?b) :: u32"
  have n: "unat dst + unat n < 2 ^ 32" and mx: "dst + n = dst + of_nat (unat n)" using assms by simp_all
  obtain i where i: "i \<le> unat n" "fill_head dst ?b (dst + of_nat (unat n)) m = Some (dst + of_nat i, filled dst ?b i m)"
    by (rule fill_head_ok [OF n])
  obtain j where j: "j \<le> unat n"
    "fill_words (dst + of_nat i) ?w (dst + of_nat (unat n)) (filled dst ?b i m) = Some (dst + of_nat j, filled dst ?b j m)"
    by (rule fill_words_ok [OF assms i(1)])
  show ?thesis
    unfolding memset_def Let_def mx i(2) bind.bind_lunit prod.case j(2) fill_tail_ok [OF n j(1)] by simp
qed

theorem memset_fills_witness:
  "memset 0x1003 0x1FF 9 (\<lambda>_. 0) = Some (0x1003, filled 0x1003 (ucast (0x1FF AND 0xff :: u32)) (unat (9::u32)) (\<lambda>_. 0))"
  by (rule memset_fills) simp


section \<open>Terminated strings\<close>

text \<open>The string \<open>bs\<close> stands at \<open>s\<close>: its bytes are not zero and a zero follows.\<close>

fun cstr :: "bytemem \<Rightarrow> u32 \<Rightarrow> u8 list \<Rightarrow> bool" where
  "cstr m s [] \<longleftrightarrow> m s = 0"
| "cstr m s (b # bs) \<longleftrightarrow> m s = b \<and> b \<noteq> 0 \<and> cstr m (s + 1) bs"

lemma cstr_unique: "cstr m s xs \<Longrightarrow> cstr m s ys \<Longrightarrow> xs = ys"
proof (induction xs arbitrary: s ys)
  case Nil
  then show ?case by (cases ys) auto
next
  case (Cons x xs)
  then show ?case by (cases ys) auto
qed

lemma strlen_loop_ok: "cstr m s bs \<Longrightarrow> strlen_loop s n m = Some (n + of_nat (length bs))"
  by (induction bs arbitrary: s n; subst strlen_loop.simps) (auto simp: algebra_simps)

lemma strlen_ok: "cstr m s bs \<Longrightarrow> strlen s m = Some (of_nat (length bs))"
  by (simp add: strlen_def strlen_loop_ok)

primrec index_of :: "u32 \<Rightarrow> u8 list \<Rightarrow> nat option" where
  "index_of c [] = None"
| "index_of c (b # bs) = (if scast b = c then Some 0 else map_option Suc (index_of c bs))"

lemma strchr_ok:
  "cstr m s bs \<Longrightarrow> strchr s c m = Some (case index_of c bs of None \<Rightarrow> 0 | Some i \<Rightarrow> s + of_nat i)"
proof (induction bs arbitrary: s)
  case Nil
  then show ?case by (subst strchr.simps) simp
next
  case (Cons b bs)
  then show ?case by (subst strchr.simps) (auto simp: algebra_simps split: option.split)
qed

text \<open>\<^verbatim>\<open>strcpy\<close> copies the string with its terminator.\<close>

lemma cstr_nth:
  assumes "cstr m s bs" "i < length bs"
  shows "m (s + of_nat i) = bs ! i" "bs ! i \<noteq> 0"
  using assms by (induction bs arbitrary: s i; fastforce simp: less_Suc_eq_0_disj algebra_simps)+

lemma cstr_end: "cstr m s bs \<Longrightarrow> m (s + of_nat (length bs)) = 0"
  by (induction bs arbitrary: s) (auto simp flip: add.assoc)

lemma strcpy_ok:
  assumes str: "cstr m src bs" and sep: "disjoint_from src dst (Suc (length bs))" and n: "length bs + 1 < 2 ^ 32"
  shows "strcpy dst src m = Some (dst, copied dst src (Suc (length bs)) m)"
proof -
  have src: "copied dst src i m (src + of_nat i) = m (src + of_nat i)" if "i \<le> length bs" for i
    using sep that by (auto simp: disjoint_from_def copied_def dest!: spec [of _ i])
  have wr: "copied dst src (Suc i) m (dst + of_nat i) = m (src + of_nat i)" if "i \<le> length bs" for i
    using that n by (simp add: copied_def unat_of_nat32)
  have "strcpy_loop (dst + of_nat i) (src + of_nat i) (copied dst src i m) = Some (copied dst src (Suc (length bs)) m)"
    if "i \<le> length bs" for i
    using that
  proof (induction "length bs - i" arbitrary: i)
    case 0
    then have i: "i = length bs" by simp
    show ?case
      unfolding i using copied_step [OF sep, of "length bs" m] n src [of "length bs"] wr [of "length bs"] cstr_end [OF str]
      by (subst strcpy_loop.simps) (simp add: Let_def)
  next
    case (Suc k)
    then have lt: "i < length bs" by simp
    have "strcpy_loop (dst + of_nat (Suc i)) (src + of_nat (Suc i)) (copied dst src (Suc i) m) =
        Some (copied dst src (Suc (length bs)) m)"
      using Suc lt by (intro Suc.hyps) auto
    then show ?case
      using copied_step [OF sep, of i m] n lt src [of i] wr [of i] cstr_nth [OF str lt]
      by (subst strcpy_loop.simps) (simp add: Let_def add.assoc add.commute [of 1])
  qed
  from this [of 0] show ?thesis by (simp add: strcpy_def)
qed

text \<open>Sign extension keeps the unsigned order of bytes.\<close>

lemma scast_less: "(scast a :: u32) < scast b \<longleftrightarrow> a < b" for a b :: u8
proof -
  have rng: "0 \<le> uint x" "uint x < 256" for x :: u8 using unsigned_less [of x] by simp_all
  have "uint (scast x :: u32) = (if uint x < 128 then uint x else uint x + 0xFFFFFF00)" for x :: u8
  proof -
    have "bit (uint x) 7 \<longleftrightarrow> \<not> uint x < 128"
      using rng [of x] by (cases "uint x < 128") (simp_all add: bit_iff_odd div_pos_geq)
    moreover have "take_bit 8 (uint x) = uint x" using rng [of x] by (simp add: take_bit_int_eq_self_iff)
    ultimately have "sint x = (if uint x < 128 then uint x else uint x - 256)"
      by (simp add: sint_uint signed_take_bit_eq_take_bit_minus)
    moreover have "(uint x - 256) mod 4294967296 = uint x + 4294967040" if "\<not> uint x < 128"
      using that rng [of x] mod_add_self2 [of "uint x - 256" 4294967296] by (simp del: mod_add_self2)
    ultimately show ?thesis
      using rng [of x] by (simp add: scast_eq uint_word_of_int)
  qed
  with rng [of a] rng [of b] show ?thesis by (simp add: word_less_def)
qed

lemma scast_pos: "0 < (scast y :: u32) \<longleftrightarrow> y \<noteq> 0" for y :: u8
  using scast_less [of 0 y] by (simp add: word_neq_0_conv)

text \<open>\<^verbatim>\<open>strcmp\<close> on two terminated strings returns, with 0 exactly for equal strings, -1 when
  the first comes before the second in the lexicographic order of unsigned bytes, and 1
  otherwise; sign extension of \<^verbatim>\<open>char\<close> does not disturb the order.\<close>

theorem strcmp_lexicographic:
  assumes "cstr m p xs" "cstr m q ys"
  shows "strcmp p q m = Some (if xs = ys then 0 else if (xs, ys) \<in> lexord {(a, b). a < b} then - 1 else 1)"
  using assms
proof (induction xs arbitrary: p q ys)
  case Nil
  show ?case
  proof (cases ys)
    case Nil
    then show ?thesis using Nil.prems by (subst strcmp.simps) simp
  next
    case (Cons y ys')
    then show ?thesis using Nil.prems by (subst strcmp.simps) (simp add: scast_pos)
  qed
next
  case (Cons x xs)
  show ?case
  proof (cases ys)
    case Nil
    then show ?thesis using Cons.prems by (subst strcmp.simps) (simp add: scast_pos)
  next
    case ys: (Cons y ys')
    show ?thesis
    proof (cases "x = y")
      case True
      then show ?thesis using Cons.prems Cons.IH [of "p + 1" "q + 1" ys'] ys
        by (subst strcmp.simps) (simp add: lexord_cons_cons)
    next
      case False
      then show ?thesis using Cons.prems ys
        by (subst strcmp.simps) (auto simp: scast_less lexord_cons_cons)
    qed
  qed
qed

theorem strcmp_lexicographic_witness:
  "strcmp 0x100 0x200 ((\<lambda>_. 0)(0x100 := 97, 0x101 := 98, 0x200 := 97, 0x201 := 200)) =
    Some (if [97, 98] = [97, 200 :: u8] then 0
      else if ([97, 98], [97, 200 :: u8]) \<in> lexord {(a, b). a < b} then - 1 else 1)"
  by (rule strcmp_lexicographic) simp_all

section \<open>The bytes of words in memory\<close>

definition word_byte :: "u32 \<Rightarrow> nat \<Rightarrow> u8" where
  "word_byte w j = ucast (drop_bit (8 * j) w)"

lemma st32_at: "st32 a w m x = (let j = unat (x - a) in if j < 4 then word_byte w j else m x)"
proof -
  have e: "x = a + y \<longleftrightarrow> unat (x - a) = unat y" for y :: u32
    by (metis add_diff_cancel_left' diff_add_cancel add.commute word_unat_eq_iff)
  have "unat (x - a) < 4 \<longleftrightarrow> unat (x - a) \<in> {0, 1, 2, 3}" by auto
  then show ?thesis
    using e [of 0] e [of 1] e [of 2] e [of 3] unfolding st32_def word_byte_def Let_def
    by (auto simp: fun_upd_def)
qed

lemma unat_diff_of_nat:
  fixes x a :: u32
  assumes "k < 2 ^ 32"
  shows "unat (x - (a + of_nat k)) = (if k \<le> unat (x - a) then unat (x - a) - k else unat (x - a) + 2 ^ 32 - k)"
proof -
  have k: "unat (of_nat k :: u32) = k" using assms by (simp add: unat_of_nat)
  have d: "x - (a + of_nat k) = (x - a) - of_nat k" by simp
  show ?thesis
    unfolding d unat_sub_if' k by simp
qed

lemma word_byte_ld32: "j < 4 \<Longrightarrow> word_byte (ld32 m a) j = m (a + of_nat j)"
proof -
  assume "j < 4"
  then consider "j = 0" | "j = 1" | "j = 2" | "j = 3" by linarith
  then show ?thesis by cases (simp_all add: word_byte_def ld32_byte)
qed

lemma word_byte_eqI:
  assumes "\<And>j. j < 4 \<Longrightarrow> word_byte v j = word_byte w j"
  shows "v = w"
proof (rule bit_word_eqI)
  fix n assume n: "n < LENGTH(32)"
  have "bit v n \<longleftrightarrow> bit (word_byte v (n div 8)) (n mod 8)" for v :: u32
    by (simp add: word_byte_def bit_ucast_iff bit_drop_bit_eq)
  moreover have "n div 8 < 4" using n by simp
  ultimately show "bit v n = bit w n" using assms by simp
qed

lemma ld32_st32: "ld32 (st32 a w m) a = w"
  by (rule word_byte_eqI) (auto simp: word_byte_ld32 st32_at unat_of_nat Let_def)

lemma ld32_st32_other:
  assumes "4 \<le> unat (b - a)" "4 \<le> unat (a - b)"
  shows "ld32 (st32 a w m) b = ld32 m b"
proof (rule word_byte_eqI)
  fix j :: nat assume j: "j < 4"
  have "unat (a - b) + unat (b - a) = 2 ^ 32"
    using assms unat_sub_if' [of a b] unat_sub_if' [of b a] by (auto split: if_splits)
  then have "unat (b - a + of_nat j) = unat (b - a) + j"
    using assms j by (subst unat_add_lem [THEN iffD1]) (simp_all add: unat_of_nat)
  then have "\<not> unat (b + of_nat j - a) < 4" using assms(1) by (simp add: algebra_simps)
  with j show "word_byte (ld32 (st32 a w m) b) j = word_byte (ld32 m b) j"
    by (simp add: word_byte_ld32 st32_at)
qed

lemma ld32_cong: "(\<And>j. j < 4 \<Longrightarrow> m (a + of_nat j) = m' (a + of_nat j)) \<Longrightarrow> ld32 m a = ld32 m' a"
  by (rule word_byte_eqI) (simp add: word_byte_ld32)

end
