(* ===== verification/MOS_Ide.thy ===== *)
theory MOS_Ide
  imports MOS_Syscall MOS_String
begin

text \<open>
  The disk driver \<^verbatim>\<open>fs/ide.c\<close>, over the device system calls.

  The controller is not part of the sources: it is a parameter, the functions \<open>wr\<close> and \<open>rd\<close> that
  write and read a register of a device state of any type. What the driver relies on is that
  the controller behaves like the PIO machine \<open>ide_state\<close> below (latched address registers, a
  read or a write of one sector through the data register), except that it may report busy for
  a while; that is the locale \<open>ide_device\<close>.

  The buffers are in the memory of the process; \<^verbatim>\<open>panic_on\<close> of a system call that is refused is
  \<open>None\<close>. A busy controller that never gets ready makes the driver loop, which is \<open>None\<close> too.
\<close>

abbreviation MALTA_IDE_BASE :: u32 where "MALTA_IDE_BASE \<equiv> 0x180001f0"
abbreviation IDE_DATA :: u32 where "IDE_DATA \<equiv> 0x180001f0"
abbreviation IDE_NSECT :: u32 where "IDE_NSECT \<equiv> 0x180001f2"
abbreviation IDE_LBAL :: u32 where "IDE_LBAL \<equiv> 0x180001f3"
abbreviation IDE_LBAM :: u32 where "IDE_LBAM \<equiv> 0x180001f4"
abbreviation IDE_LBAH :: u32 where "IDE_LBAH \<equiv> 0x180001f5"
abbreviation IDE_DEVICE :: u32 where "IDE_DEVICE \<equiv> 0x180001f6"
abbreviation IDE_STATUS :: u32 where "IDE_STATUS \<equiv> 0x180001f7"
abbreviation IDE_BUSY :: u32 where "IDE_BUSY \<equiv> 0x80"
abbreviation PIO_READ :: u32 where "PIO_READ \<equiv> 0x20"
abbreviation PIO_WRITE :: u32 where "PIO_WRITE \<equiv> 0x30"
abbreviation SECT_WORDS :: nat where "SECT_WORDS \<equiv> 128"

type_synonym 'd reg_write = "u32 \<Rightarrow> nat \<Rightarrow> u32 \<Rightarrow> 'd \<Rightarrow> 'd"
type_synonym 'd reg_read = "u32 \<Rightarrow> nat \<Rightarrow> 'd \<Rightarrow> u32 \<times> 'd"

text \<open>The system calls, for the registers of the disk.\<close>

definition syscall_write_dev :: "'d reg_write \<Rightarrow> u32 \<Rightarrow> u32 \<Rightarrow> u32 \<Rightarrow> 'd \<Rightarrow> 'd option" where
  "syscall_write_dev wr v pa len d = (if dev_ok pa len then Some (wr pa (unat len) v d) else None)"

definition syscall_read_dev :: "'d reg_read \<Rightarrow> u32 \<Rightarrow> u32 \<Rightarrow> 'd \<Rightarrow> (u32 \<times> 'd) option" where
  "syscall_read_dev rd pa len d = (if dev_ok pa len then Some (rd pa (unat len) d) else None)"

partial_function (option) wait_ide_ready :: "'d reg_read \<Rightarrow> 'd \<Rightarrow> (u32 \<times> 'd) option" where
  "wait_ide_ready rd d = do {
     (flag, d) \<leftarrow> syscall_read_dev rd IDE_STATUS 1 d;
     if flag AND IDE_BUSY = 0 then Some (flag, d) else wait_ide_ready rd d
   }"

text \<open>Steps 1 to 7 of the loop body: select the sector, give the command, wait.\<close>

definition ide_command :: "'d reg_write \<Rightarrow> 'd reg_read \<Rightarrow> u32 \<Rightarrow> u32 \<Rightarrow> u32 \<Rightarrow> 'd \<Rightarrow> 'd option" where
  "ide_command wr rd cmd diskno secno d = do {
     (_, d) \<leftarrow> wait_ide_ready rd d;
     d \<leftarrow> syscall_write_dev wr 1 IDE_NSECT 1 d;
     d \<leftarrow> syscall_write_dev wr (secno AND 0xff) IDE_LBAL 1 d;
     d \<leftarrow> syscall_write_dev wr (drop_bit 8 secno AND 0xff) IDE_LBAM 1 d;
     d \<leftarrow> syscall_write_dev wr (drop_bit 16 secno AND 0xff) IDE_LBAH 1 d;
     d \<leftarrow> syscall_write_dev wr ((drop_bit 24 secno AND 0x0f OR 0xE0 OR push_bit 4 diskno) AND 0xff) IDE_DEVICE 1 d;
     d \<leftarrow> syscall_write_dev wr cmd IDE_STATUS 1 d;
     (_, d) \<leftarrow> wait_ide_ready rd d;
     Some d
   }"

partial_function (option) ide_read_loop ::
  "'d reg_write \<Rightarrow> 'd reg_read \<Rightarrow> u32 \<Rightarrow> u32 \<Rightarrow> u32 \<Rightarrow> u32 \<Rightarrow> u32 \<Rightarrow> bytemem \<Rightarrow> 'd \<Rightarrow> (bytemem \<times> 'd) option" where
  "ide_read_loop wr rd diskno secno mx dst offset m d =
    (if secno < mx then do {
       d \<leftarrow> ide_command wr rd PIO_READ diskno secno d;
       (m, d) \<leftarrow> foldM (\<lambda>i (m, d). do {
         (v, d) \<leftarrow> syscall_read_dev rd IDE_DATA 4 d;
         Some (st32 (dst + offset + of_nat i * 4) v m, d)
       }) [0..<SECT_WORDS] (m, d);
       (_, d) \<leftarrow> syscall_read_dev rd IDE_STATUS 1 d;
       ide_read_loop wr rd diskno (secno + 1) mx dst (offset + 512) m d
     } else Some (m, d))"

definition ide_read ::
  "'d reg_write \<Rightarrow> 'd reg_read \<Rightarrow> u32 \<Rightarrow> u32 \<Rightarrow> u32 \<Rightarrow> u32 \<Rightarrow> bytemem \<Rightarrow> 'd \<Rightarrow> (bytemem \<times> 'd) option" where
  "ide_read wr rd diskno secno dst nsecs m d =
    (if 2 \<le> diskno then None else ide_read_loop wr rd diskno secno (nsecs + secno) dst 0 m d)"

partial_function (option) ide_write_loop ::
  "'d reg_write \<Rightarrow> 'd reg_read \<Rightarrow> u32 \<Rightarrow> u32 \<Rightarrow> u32 \<Rightarrow> u32 \<Rightarrow> u32 \<Rightarrow> bytemem \<Rightarrow> 'd \<Rightarrow> 'd option" where
  "ide_write_loop wr rd diskno secno mx src offset m d =
    (if secno < mx then do {
       d \<leftarrow> ide_command wr rd PIO_WRITE diskno secno d;
       d \<leftarrow> foldM (\<lambda>i d. syscall_write_dev wr (ld32 m (src + offset + of_nat i * 4)) IDE_DATA 4 d) [0..<SECT_WORDS] d;
       (_, d) \<leftarrow> syscall_read_dev rd IDE_STATUS 1 d;
       ide_write_loop wr rd diskno (secno + 1) mx src (offset + 512) m d
     } else Some d)"

definition ide_write ::
  "'d reg_write \<Rightarrow> 'd reg_read \<Rightarrow> u32 \<Rightarrow> u32 \<Rightarrow> u32 \<Rightarrow> u32 \<Rightarrow> bytemem \<Rightarrow> 'd \<Rightarrow> 'd option" where
  "ide_write wr rd diskno secno src nsecs m d =
    (if 2 \<le> diskno then None else ide_write_loop wr rd diskno secno (nsecs + secno) src 0 m d)"

declare wait_ide_ready.simps [code] ide_read_loop.simps [code] ide_write_loop.simps [code]

section \<open>The PIO machine\<close>

text \<open>The transfer in progress: the disk, the sector and the next word.\<close>

datatype transfer = Idle | PioIn u32 u32 nat | PioOut u32 u32 nat

record ide_state =
  lbal :: u32
  lbam :: u32
  lbah :: u32
  drive :: u32
  phase :: transfer
  sectors :: "u32 \<Rightarrow> u32 \<Rightarrow> nat \<Rightarrow> u32"

definition selected :: "ide_state \<Rightarrow> u32 \<times> u32" where
  "selected h = (drop_bit 4 (drive h) AND 1,
     lbal h OR push_bit 8 (lbam h) OR push_bit 16 (lbah h) OR push_bit 24 (drive h AND 0x0f))"

definition pio_wr :: "u32 \<Rightarrow> u32 \<Rightarrow> ide_state \<Rightarrow> ide_state" where
  "pio_wr r v h =
    (if r = IDE_LBAL then h\<lparr>lbal := v\<rparr>
     else if r = IDE_LBAM then h\<lparr>lbam := v\<rparr>
     else if r = IDE_LBAH then h\<lparr>lbah := v\<rparr>
     else if r = IDE_DEVICE then h\<lparr>drive := v\<rparr>
     else if r = IDE_STATUS then
       (let (dk, sec) = selected h in
        if v = PIO_READ then h\<lparr>phase := PioIn dk sec 0\<rparr>
        else if v = PIO_WRITE then h\<lparr>phase := PioOut dk sec 0\<rparr> else h)
     else if r = IDE_DATA then
       (case phase h of
          PioOut dk sec i \<Rightarrow> h\<lparr>sectors := (sectors h)(dk := (sectors h dk)(sec := (sectors h dk sec)(i := v))),
            phase := (if i + 1 < SECT_WORDS then PioOut dk sec (i + 1) else Idle)\<rparr>
        | _ \<Rightarrow> h)
     else h)"

definition pio_rd :: "u32 \<Rightarrow> ide_state \<Rightarrow> u32 \<times> ide_state" where
  "pio_rd r h =
    (if r = IDE_DATA then
       (case phase h of
          PioIn dk sec i \<Rightarrow> (sectors h dk sec i,
            h\<lparr>phase := (if i + 1 < SECT_WORDS then PioIn dk sec (i + 1) else Idle)\<rparr>)
        | _ \<Rightarrow> (0, h))
     else (0, h))"

section \<open>The sector number in the registers\<close>

lemma bit_ff: "bit (0xff :: u32) k \<longleftrightarrow> k < 8"
proof -
  have *: "(0xff :: u32) = mask 8" by (simp add: mask_eq_exp_minus_1)
  show ?thesis unfolding * bit_mask_iff possible_bit_word by auto
qed

lemma bit_0f: "bit (0x0f :: u32) k \<longleftrightarrow> k < 4"
proof -
  have *: "(0x0f :: u32) = mask 4" by (simp add: mask_eq_exp_minus_1)
  show ?thesis unfolding * bit_mask_iff possible_bit_word by auto
qed

lemma bit_lba_mode:
  assumes "k < 5"
  shows "\<not> bit (0xE0 :: u32) k"
proof -
  have *: "(0xE0 :: u32) = push_bit 5 7" by simp
  show ?thesis using assms unfolding * bit_push_bit_iff by simp
qed

lemma lba_split:
  fixes secno diskno :: u32
  assumes "secno < 2 ^ 28"
  shows "(secno AND 0xff) OR push_bit 8 (drop_bit 8 secno AND 0xff) OR push_bit 16 (drop_bit 16 secno AND 0xff)
    OR push_bit 24 (((drop_bit 24 secno AND 0x0f OR 0xE0 OR push_bit 4 diskno) AND 0xff) AND 0x0f) = secno"
    (is "?l = _")
proof (rule bit_word_eqI)
  fix n assume n: "n < LENGTH(32)"
  have hi: "\<not> bit secno n" if "28 \<le> n"
  proof -
    have "drop_bit 28 secno = 0" using assms by (intro drop_bit_eq_0_less) simp_all
    then have "\<not> bit (drop_bit 28 secno) (n - 28)" by simp
    then show ?thesis using that by (simp add: bit_drop_bit_eq)
  qed
  consider "n < 8" | "8 \<le> n" "n < 16" | "16 \<le> n" "n < 24" | "24 \<le> n" "n < 28" | "28 \<le> n" by linarith
  then show "bit ?l n = bit secno n"
    unfolding bit_or_iff bit_and_iff bit_push_bit_iff bit_drop_bit_eq bit_ff bit_0f
    using n hi bit_lba_mode [of "n - 24"] by cases (auto simp: possible_bit_word comp_def)
qed

lemma drive_disk:
  fixes secno diskno :: u32
  assumes "diskno < 2"
  shows "drop_bit 4 ((drop_bit 24 secno AND 0x0f OR 0xE0 OR push_bit 4 diskno) AND 0xff) AND 1 = diskno"
    (is "?l = _")
proof (rule bit_word_eqI)
  fix n assume n: "n < LENGTH(32)"
  have "unat diskno < 2" using assms by (simp add: word_less_nat_alt)
  then have "unat diskno = unat (0 :: u32) \<or> unat diskno = unat (1 :: u32)" by auto
  then have "diskno = 0 \<or> diskno = 1" by (simp only: word_unat_eq_iff [symmetric])
  then have d: "bit diskno k \<Longrightarrow> k = 0" for k by (auto simp: bit_1_iff)
  show "bit ?l n = bit diskno n"
    unfolding bit_or_iff bit_and_iff bit_push_bit_iff bit_drop_bit_eq bit_1_iff bit_ff bit_0f
    using d [of n] bit_lba_mode [of 4] by (cases "n = 0") (auto simp: possible_bit_word bit_drop_bit_eq bit_ff bit_0f bit_or_iff bit_and_iff bit_push_bit_iff)
qed

section \<open>The bytes of a sector\<close>

definition disk_view :: "ide_state \<Rightarrow> u32 \<Rightarrow> u32 \<Rightarrow> nat \<Rightarrow> u8" where
  "disk_view h dk sec off = word_byte (sectors h dk sec (off div 4)) (off mod 4)"

lemma st32_fold:
  "4 * n \<le> 2 ^ 32 \<Longrightarrow> fold (\<lambda>i. st32 (a + of_nat i * 4) (f i)) [0..<n] m x =
    (let k = unat (x - a) in if k < 4 * n then word_byte (f (k div 4)) (k mod 4) else m x)"
proof (induction n)
  case (Suc n)
  let ?k = "unat (x - a)"
  have "a + of_nat n * 4 = a + of_nat (4 * n)" by (simp add: mult.commute)
  then have j: "unat (x - (a + of_nat n * 4)) = (if 4 * n \<le> ?k then ?k - 4 * n else ?k + 2 ^ 32 - 4 * n)"
    using Suc.prems unat_diff_of_nat [of "4 * n" x a] by (simp add: mult.commute)
  show ?case
  proof (cases "4 * n \<le> ?k \<and> ?k < 4 * n + 4")
    case True
    then have "?k div 4 = n" by auto
    moreover from this have "?k mod 4 = ?k - 4 * n" by (simp add: modulo_nat_def)
    moreover note True
    ultimately have "?k div 4 = n" "?k mod 4 = ?k - 4 * n" "?k - 4 * n < 4" by auto
    with True j show ?thesis by (simp add: st32_at Let_def)
  next
    case False
    then have "\<not> unat (x - (a + of_nat n * 4)) < 4" using j Suc.prems by auto
    then have "st32 (a + of_nat n * 4) (f n) (fold (\<lambda>i. st32 (a + of_nat i * 4) (f i)) [0..<n] m) x =
        fold (\<lambda>i. st32 (a + of_nat i * 4) (f i)) [0..<n] m x"
      by (simp add: st32_at Let_def)
    with Suc False show ?thesis by (auto simp: Let_def)
  qed
qed simp

lemma next_sector:
  fixes secno :: u32
  assumes "unat secno + Suc n \<le> 2 ^ 28"
  shows "secno < secno + of_nat (Suc n)" "secno < 2 ^ 28" "unat (secno + 1) = unat secno + 1"
proof -
  have "unat (of_nat (Suc n) :: u32) = Suc n"
    using assms by (simp add: unat_of_nat del: of_nat_Suc)
  then have "unat (secno + of_nat (Suc n)) = unat secno + Suc n"
    using assms by (subst unat_add_lem [THEN iffD1]) (simp_all del: of_nat_Suc)
  then show "secno < secno + of_nat (Suc n)" by (simp add: word_less_nat_alt del: of_nat_Suc)
  show "secno < 2 ^ 28" using assms by (simp add: word_less_nat_alt)
  show "unat (secno + 1) = unat secno + 1"
    using assms by (subst unat_add_lem [THEN iffD1]) simp_all
qed

text \<open>Two consecutive pieces of a buffer.\<close>

lemma split_window:
  fixes x b :: u32
  assumes "512 * Suc n \<le> 2 ^ 32"
  shows "(let k = unat (x - (b + 512)) in if k < 512 * n then F (secno + 1 + of_nat (k div 512)) (k mod 512)
      else let k = unat (x - b) in if k < 512 then F secno k else y) =
    (let k = unat (x - b) in if k < 512 * Suc n then F (secno + of_nat (k div 512)) (k mod 512) else y)"
proof -
  let ?k = "unat (x - b)"
  have k': "unat (x - (b + 512)) = (if 512 \<le> ?k then ?k - 512 else ?k + 2 ^ 32 - 512)"
    using unat_diff_of_nat [of 512 x b] by simp
  show ?thesis
  proof (cases "512 \<le> ?k")
    case True
    then have "?k div 512 = Suc ((?k - 512) div 512)" "?k mod 512 = (?k - 512) mod 512"
      by (simp_all add: le_div_geq le_mod_geq)
    with True k' show ?thesis by (auto simp: Let_def add.assoc)
  next
    case False
    with k' assms show ?thesis by (auto simp: Let_def)
  qed
qed

text \<open>A controller that behaves like the machine, apart from being busy for a finite number
  (\<open>delay\<close>) of status reads.\<close>

locale ide_device =
  fixes wr :: "'d reg_write" and rd :: "'d reg_read" and view :: "'d \<Rightarrow> ide_state" and delay :: "'d \<Rightarrow> nat"
  assumes wr_abs: "view (wr pa n v d) = pio_wr pa v (view d)"
    and rd_abs: "view (snd (rd pa n d)) = snd (pio_rd pa (view d))"
    and rd_data: "fst (rd IDE_DATA 4 d) = fst (pio_rd IDE_DATA (view d))"
    and busy: "fst (rd IDE_STATUS 1 d) AND IDE_BUSY \<noteq> 0 \<Longrightarrow> delay (snd (rd IDE_STATUS 1 d)) < delay d"
begin

lemma regs_ok: "dev_ok IDE_NSECT 1" "dev_ok IDE_LBAL 1" "dev_ok IDE_LBAM 1" "dev_ok IDE_LBAH 1"
  "dev_ok IDE_DEVICE 1" "dev_ok IDE_STATUS 1" "dev_ok IDE_DATA 4"
  by (simp_all add: dev_ok_def)

lemma status_abs: "view (snd (rd IDE_STATUS n d)) = view d"
  by (simp add: rd_abs pio_rd_def)

lemma wait_ok: "\<exists>flag d'. wait_ide_ready rd d = Some (flag, d') \<and> view d' = view d"
proof (induction "delay d" arbitrary: d rule: less_induct)
  case less
  obtain flag d1 where r: "rd IDE_STATUS 1 d = (flag, d1)" by (cases "rd IDE_STATUS 1 d")
  have a: "view d1 = view d" using status_abs [of 1 d] r by simp
  show ?case
  proof (cases "flag AND IDE_BUSY = 0")
    case True
    then show ?thesis using r a by (subst wait_ide_ready.simps) (simp add: syscall_read_dev_def regs_ok)
  next
    case False
    then have "delay d1 < delay d" using busy [of d] r by simp
    from less [OF this] False r a show ?thesis
      by (subst wait_ide_ready.simps) (simp add: syscall_read_dev_def regs_ok)
  qed
qed

lemma command_ok:
  assumes "diskno < 2" "secno < 2 ^ 28" "cmd = PIO_READ \<or> cmd = PIO_WRITE"
  obtains d' where "ide_command wr rd cmd diskno secno d = Some d'"
    "phase (view d') = (if cmd = PIO_READ then PioIn diskno secno 0 else PioOut diskno secno 0)"
    "sectors (view d') = sectors (view d)"
proof -
  obtain f d0 where d0: "wait_ide_ready rd d = Some (f, d0)" "view d0 = view d" using wait_ok by blast
  define d1 where "d1 = wr IDE_STATUS 1 cmd (wr IDE_DEVICE 1 ((drop_bit 24 secno AND 0x0f OR 0xE0 OR push_bit 4 diskno) AND 0xff)
     (wr IDE_LBAH 1 (drop_bit 16 secno AND 0xff) (wr IDE_LBAM 1 (drop_bit 8 secno AND 0xff)
       (wr IDE_LBAL 1 (secno AND 0xff) (wr IDE_NSECT 1 1 d0)))))"
  obtain f' d2 where d2: "wait_ide_ready rd d1 = Some (f', d2)" "view d2 = view d1" using wait_ok by blast
  have run: "ide_command wr rd cmd diskno secno d = Some d2"
    using d0(1) d2(1) by (simp add: ide_command_def syscall_write_dev_def regs_ok d1_def)
  let ?dr = "(drop_bit 24 secno AND 0x0f OR 0xE0 OR push_bit 4 diskno) AND 0xff"
  let ?h = "(view d)\<lparr>lbal := secno AND 0xff, lbam := drop_bit 8 secno AND 0xff, lbah := drop_bit 16 secno AND 0xff, drive := ?dr\<rparr>"
  have sel: "selected ?h = (diskno, secno)"
    using lba_split [OF assms(2), of diskno] drive_disk [OF assms(1), of secno]
    by (simp add: selected_def or.assoc)
  have "view d1 = pio_wr IDE_STATUS cmd ?h"
    by (simp add: d1_def wr_abs d0(2) pio_wr_def)
  then have "view d1 = ?h\<lparr>phase := (if cmd = PIO_READ then PioIn diskno secno 0 else PioOut diskno secno 0)\<rparr>"
    using assms(3) sel by (auto simp: pio_wr_def)
  with run d2(2) show thesis
    by (intro that [of d2]) simp_all
qed

lemma read_sector_ok:
  assumes "phase (view d) = PioIn dk sec 0" "n \<le> SECT_WORDS"
  shows "\<exists>d'. foldM (\<lambda>i (m, d). do {
         (v, d) \<leftarrow> syscall_read_dev rd IDE_DATA 4 d;
         Some (st32 (a + of_nat i * 4) v m, d) }) [0..<n] (m, d) =
       Some (fold (\<lambda>i. st32 (a + of_nat i * 4) (sectors (view d) dk sec i)) [0..<n] m, d') \<and>
     sectors (view d') = sectors (view d) \<and> (n < SECT_WORDS \<longrightarrow> phase (view d') = PioIn dk sec n)"
  using assms(2)
proof (induction n)
  case 0
  then show ?case using assms(1) by auto
next
  case (Suc n)
  then obtain d1 where d1: "foldM (\<lambda>i (m, d). do {
         (v, d) \<leftarrow> syscall_read_dev rd IDE_DATA 4 d;
         Some (st32 (a + of_nat i * 4) v m, d) }) [0..<n] (m, d) =
       Some (fold (\<lambda>i. st32 (a + of_nat i * 4) (sectors (view d) dk sec i)) [0..<n] m, d1)"
     "sectors (view d1) = sectors (view d)" "phase (view d1) = PioIn dk sec n" by auto
  obtain v d2 where r: "rd IDE_DATA 4 d1 = (v, d2)" by (cases "rd IDE_DATA 4 d1")
  have v: "v = sectors (view d) dk sec n" using rd_data [of d1] r d1(2,3) by (simp add: pio_rd_def)
  have a2: "sectors (view d2) = sectors (view d)" "Suc n < SECT_WORDS \<longrightarrow> phase (view d2) = PioIn dk sec (Suc n)"
    using rd_abs [of IDE_DATA 4 d1] r d1(2,3) by (simp_all add: pio_rd_def)
  have "[0..<Suc n] = [0..<n] @ [n]" by simp
  with d1(1) r v a2 show ?case
    by (intro exI [of _ d2]) (simp add: foldM_append syscall_read_dev_def regs_ok del: upt_Suc)
qed

lemma write_sector_ok:
  assumes "phase (view d) = PioOut dk sec 0" "n \<le> SECT_WORDS"
  shows "\<exists>d'. foldM (\<lambda>i d. syscall_write_dev wr (ld32 m (a + of_nat i * 4)) IDE_DATA 4 d) [0..<n] d = Some d' \<and>
     sectors (view d') = (sectors (view d))(dk := (sectors (view d) dk)(sec := (\<lambda>i. if i < n then ld32 m (a + of_nat i * 4)
       else sectors (view d) dk sec i))) \<and>
     (n < SECT_WORDS \<longrightarrow> phase (view d') = PioOut dk sec n)"
  using assms(2)
proof (induction n)
  case 0
  then show ?case using assms(1) by (auto simp: fun_upd_idem)
next
  case (Suc n)
  then have le: "n \<le> SECT_WORDS" "n < SECT_WORDS" by simp_all
  from Suc.IH [OF le(1)] le(2) obtain d1 where d1: "foldM (\<lambda>i d. syscall_write_dev wr (ld32 m (a + of_nat i * 4)) IDE_DATA 4 d) [0..<n] d = Some d1"
     "sectors (view d1) = (sectors (view d))(dk := (sectors (view d) dk)(sec := (\<lambda>i. if i < n then ld32 m (a + of_nat i * 4)
       else sectors (view d) dk sec i)))" "phase (view d1) = PioOut dk sec n" by blast
  let ?d2 = "wr IDE_DATA 4 (ld32 m (a + of_nat n * 4)) d1"
  have "view ?d2 = pio_wr IDE_DATA (ld32 m (a + of_nat n * 4)) (view d1)" by (rule wr_abs)
  then have a2: "sectors (view ?d2) = (sectors (view d))(dk := (sectors (view d) dk)(sec :=
       (\<lambda>i. if i < Suc n then ld32 m (a + of_nat i * 4) else sectors (view d) dk sec i)))"
     "Suc n < SECT_WORDS \<longrightarrow> phase (view ?d2) = PioOut dk sec (Suc n)"
    using d1(2,3) by (auto simp: pio_wr_def fun_eq_iff less_Suc_eq)
  have "[0..<Suc n] = [0..<n] @ [n]" by simp
  with d1(1) a2 show ?case
    by (intro exI [of _ ?d2]) (simp add: foldM_append syscall_write_dev_def regs_ok del: upt_Suc fun_upd_apply)
qed

lemma read_loop_ok:
  assumes "dk < 2"
  shows "unat secno + n \<le> 2 ^ 28 \<Longrightarrow> 512 * n \<le> 2 ^ 32 \<Longrightarrow>
    \<exists>d'. ide_read_loop wr rd dk secno (secno + of_nat n) dst off m d =
      Some (\<lambda>x. let k = unat (x - (dst + off)) in
        if k < 512 * n then disk_view (view d) dk (secno + of_nat (k div 512)) (k mod 512) else m x, d') \<and>
      sectors (view d') = sectors (view d)"
proof (induction n arbitrary: secno off m d)
  case 0
  show ?case by (subst ide_read_loop.simps) simp
next
  case (Suc n)
  let ?b = "dst + off"
  note less = next_sector [OF Suc.prems(1)]
  obtain d1 where d1: "ide_command wr rd PIO_READ dk secno d = Some d1" "phase (view d1) = PioIn dk secno 0"
    "sectors (view d1) = sectors (view d)"
    using command_ok [OF assms less(2), of PIO_READ d] by auto
  define m1 where "m1 = fold (\<lambda>i. st32 (?b + of_nat i * 4) (sectors (view d1) dk secno i)) [0..<SECT_WORDS] m"
  obtain d2 where d2: "foldM (\<lambda>i (m, d). do {
         (v, d) \<leftarrow> syscall_read_dev rd IDE_DATA 4 d;
         Some (st32 (?b + of_nat i * 4) v m, d) }) [0..<SECT_WORDS] (m, d1) = Some (m1, d2)"
     "sectors (view d2) = sectors (view d1)"
    using read_sector_ok [OF d1(2), of SECT_WORDS ?b m] unfolding m1_def by blast
  obtain v d3 where r: "rd IDE_STATUS 1 d2 = (v, d3)" by (cases "rd IDE_STATUS 1 d2")
  have s3: "sectors (view d3) = sectors (view d)" using status_abs [of 1 d2] r d2(2) d1(3) by simp
  have step: "ide_read_loop wr rd dk secno (secno + of_nat (Suc n)) dst off m d =
      ide_read_loop wr rd dk (secno + 1) (secno + 1 + of_nat n) dst (off + 512) m1 d3"
    using less(1) d1(1) d2(1) r
    by (subst ide_read_loop.simps) (simp add: syscall_read_dev_def regs_ok add.assoc)
  have m1: "m1 x = (let k = unat (x - ?b) in if k < 512 then disk_view (view d) dk secno k else m x)" for x
    unfolding m1_def by (subst st32_fold) (simp_all add: Let_def disk_view_def d1(3))
  have view: "disk_view (view d3) = disk_view (view d)" using s3 by (simp add: disk_view_def fun_eq_iff)
  show ?case
    using Suc.IH [of "secno + 1" "off + 512" m1 d3] Suc.prems less(3) s3
    unfolding step m1 view add.assoc [of dst off 512, symmetric] split_window [OF Suc.prems(2)] by simp
qed

lemma write_sector_view:
  assumes "sectors h' = (sectors h)(dk := (sectors h dk)(sec := (\<lambda>i. if i < SECT_WORDS then ld32 m (a + of_nat i * 4)
       else sectors h dk sec i)))"
  shows "disk_view h' = (disk_view h)(dk := (\<lambda>sec' o'. if sec' = sec \<and> o' < 512 then m (a + of_nat o') else disk_view h dk sec' o'))"
proof (intro ext)
  fix dk' sec' o'
  have a: "a + of_nat (o' div 4) * 4 + of_nat (o' mod 4) = a + of_nat o'"
  proof -
    have "of_nat o' = (of_nat (o' div 4 * 4 + o' mod 4) :: u32)" by simp
    then show ?thesis unfolding of_nat_add of_nat_mult by (simp add: add.assoc)
  qed
  have "o' div 4 < SECT_WORDS \<longleftrightarrow> o' < 512" by auto
  with a show "disk_view h' dk' sec' o' = ((disk_view h)(dk := (\<lambda>sec' o'. if sec' = sec \<and> o' < 512 then m (a + of_nat o') else disk_view h dk sec' o'))) dk' sec' o'"
    by (simp add: disk_view_def assms word_byte_ld32 add.assoc)
qed

lemma write_loop_ok:
  assumes "dk < 2"
  shows "unat secno + n \<le> 2 ^ 28 \<Longrightarrow> \<exists>d'. ide_write_loop wr rd dk secno (secno + of_nat n) src off m d = Some d' \<and>
    disk_view (view d') = (disk_view (view d))(dk := (\<lambda>sec o'. let k = unat (sec - secno) in
       if k < n \<and> o' < 512 then m (src + off + of_nat (512 * k + o')) else disk_view (view d) dk sec o'))"
proof (induction n arbitrary: secno off d)
  case 0
  show ?case by (subst ide_write_loop.simps) (simp add: Let_def)
next
  case (Suc n)
  let ?b = "src + off"
  note less = next_sector [OF Suc.prems]
  obtain d1 where d1: "ide_command wr rd PIO_WRITE dk secno d = Some d1" "phase (view d1) = PioOut dk secno 0"
    "sectors (view d1) = sectors (view d)"
    using command_ok [OF assms less(2), of PIO_WRITE d] by auto
  obtain d2 where d2: "foldM (\<lambda>i d. syscall_write_dev wr (ld32 m (?b + of_nat i * 4)) IDE_DATA 4 d) [0..<SECT_WORDS] d1 = Some d2"
     "sectors (view d2) = (sectors (view d1))(dk := (sectors (view d1) dk)(secno := (\<lambda>i. if i < SECT_WORDS then ld32 m (?b + of_nat i * 4)
       else sectors (view d1) dk secno i)))"
    using write_sector_ok [OF d1(2), of SECT_WORDS m ?b] by blast
  obtain v d3 where r: "rd IDE_STATUS 1 d2 = (v, d3)" by (cases "rd IDE_STATUS 1 d2")
  have a3: "view d3 = view d2" using status_abs [of 1 d2] r by simp
  have view: "disk_view (view d3) = (disk_view (view d))(dk := (\<lambda>sec o'. if sec = secno \<and> o' < 512 then m (?b + of_nat o') else disk_view (view d) dk sec o'))"
    unfolding a3 by (rule write_sector_view) (simp only: d2(2) d1(3))
  have step: "ide_write_loop wr rd dk secno (secno + of_nat (Suc n)) src off m d =
      ide_write_loop wr rd dk (secno + 1) (secno + 1 + of_nat n) src (off + 512) m d3"
    using less(1) d1(1) d2(1) r
    by (subst ide_write_loop.simps) (simp add: syscall_read_dev_def regs_ok add.assoc)
  have n: "unat (secno + 1) + n \<le> 2 ^ 28" using Suc.prems less(3) by simp
  have both: "(let k = unat (sec - (secno + 1)) in
       if k < n \<and> o' < 512 then m (?b + 512 + of_nat (512 * k + o'))
       else if sec = secno \<and> o' < 512 then m (?b + of_nat o') else y) =
     (let k = unat (sec - secno) in if k < Suc n \<and> o' < 512 then m (?b + of_nat (512 * k + o')) else y)" for sec o' y
  proof (cases "sec = secno")
    case True
    have "unat (secno - (secno + 1)) = 2 ^ 32 - 1" using unat_diff_of_nat [of 1 secno secno] by simp
    with True n show ?thesis by (simp add: Let_def)
  next
    case False
    then have "0 < unat (sec - secno)" by (simp add: unat_gt_0)
    moreover have "unat (sec - (secno + 1)) = unat (sec - secno) - 1"
      using unat_diff_of_nat [of 1 sec secno] calculation by simp
    ultimately obtain j where "unat (sec - (secno + 1)) = j" "unat (sec - secno) = Suc j"
      by (metis Suc_pred' add.commute plus_1_eq_Suc)
    with False show ?thesis by (simp add: Let_def add.assoc)
  qed
  show ?case
    using Suc.IH [OF n, of "off + 512" d3]
    unfolding step view add.assoc [of src off 512, symmetric] fun_upd_same fun_upd_upd both .
qed

end

section \<open>A controller\<close>

text \<open>The PIO machine behind a counter: each command keeps the controller busy for three reads of
  the status register.\<close>

definition slow_wr :: "(nat \<times> ide_state) reg_write" where
  "slow_wr pa n v d = ((if pa = IDE_STATUS then 3 else fst d), pio_wr pa v (snd d))"

definition slow_rd :: "(nat \<times> ide_state) reg_read" where
  "slow_rd pa n d =
    (if pa = IDE_STATUS then (if fst d = 0 then (0, d) else (IDE_BUSY, (fst d - 1, snd d)))
     else (let (v, h) = pio_rd pa (snd d) in (v, (fst d, h))))"

interpretation slow: ide_device slow_wr slow_rd snd fst
  by unfold_locales (auto simp: slow_wr_def slow_rd_def pio_rd_def split: transfer.splits if_splits)

end
