(* ===== verification/MOS_Fs.thy ===== *)
theory MOS_Fs
  imports MOS_String
begin

text \<open>
  The file system server's block cache and files: \<^verbatim>\<open>fs/fs.c\<close>, \<^verbatim>\<open>user/include/fs.h\<close>,
  \<^verbatim>\<open>fs/serv.h\<close>.

  The state is what the server process sees: its memory (bytes at 32 bit addresses), which pages
  are mapped with which permission, the disk by sectors, and the globals \<^verbatim>\<open>super\<close> and
  \<^verbatim>\<open>bitmap\<close>. Block \<open>n\<close>, when cached, is the page at \<open>DISKMAP + n * BLOCK_SIZE\<close>; a \<^verbatim>\<open>struct File *\<close>
  is an address, and its fields are read and written in memory at their offsets, so that the
  aliasing of file nodes and cached blocks is the one of the source. Whether the kernel has a
  page left for the \<open>n\<close>-th allocation is \<open>oom n\<close>.

  \<open>None\<close> is \<^verbatim>\<open>user_panic\<close>, a failed assertion, or an access to a page that is not mapped (the
  kernel would allocate one on demand). The outer result of an operation that returns an error
  code is a sum, as everywhere; \<^verbatim>\<open>debugf\<close> messages are not represented.
\<close>

section \<open>State\<close>

record fss =
  mem :: bytemem
  pages :: "u32 \<Rightarrow> u32 option"
  disk :: "u32 \<Rightarrow> nat \<Rightarrow> u8"
  super :: u32
  bitmap :: u32
  oom :: "nat \<Rightarrow> bool"
  tick :: nat

type_synonym 'a fres = "('a res \<times> fss) option"

abbreviation BLOCK_SIZE :: u32 where "BLOCK_SIZE \<equiv> 4096"
abbreviation BLOCK_SIZE_BIT :: u32 where "BLOCK_SIZE_BIT \<equiv> 32768"
abbreviation MAXNAMELEN :: nat where "MAXNAMELEN \<equiv> 128"
abbreviation NDIRECT :: u32 where "NDIRECT \<equiv> 10"
abbreviation NINDIRECT :: u32 where "NINDIRECT \<equiv> 1024"
abbreviation FTYPE_DIR :: u32 where "FTYPE_DIR \<equiv> 1"
abbreviation FS_MAGIC :: u32 where "FS_MAGIC \<equiv> 0x68286097"
abbreviation DISKMAP :: u32 where "DISKMAP \<equiv> 0x10000000"
abbreviation DISKMAX :: u32 where "DISKMAX \<equiv> 0x40000000"
abbreviation SECT2BLK :: u32 where "SECT2BLK \<equiv> 8"
abbreviation PTE_DIRTY :: u32 where "PTE_DIRTY \<equiv> 4"

text \<open>The offsets of the fields of \<^verbatim>\<open>struct File\<close> and \<^verbatim>\<open>struct Super\<close>.\<close>

abbreviation f_size_of :: "u32 \<Rightarrow> u32" where "f_size_of f \<equiv> f + 128"
abbreviation f_type_of :: "u32 \<Rightarrow> u32" where "f_type_of f \<equiv> f + 132"
abbreviation f_direct_of :: "u32 \<Rightarrow> u32 \<Rightarrow> u32" where "f_direct_of f i \<equiv> f + 136 + 4 * i"
abbreviation f_indirect_of :: "u32 \<Rightarrow> u32" where "f_indirect_of f \<equiv> f + 176"
abbreviation f_dir_of :: "u32 \<Rightarrow> u32" where "f_dir_of f \<equiv> f + 180"
abbreviation FILE_STRUCT_SIZE :: u32 where "FILE_STRUCT_SIZE \<equiv> 256"
abbreviation FILE2BLK :: nat where "FILE2BLK \<equiv> 16"

text \<open>The idiom \<^verbatim>\<open>if ((r = f(...)) < 0) return r\<close>.\<close>

definition and_then :: "('a res \<times> 's) option \<Rightarrow> ('a \<Rightarrow> 's \<Rightarrow> ('b res \<times> 's) option) \<Rightarrow> ('b res \<times> 's) option" where
  "and_then m k = do { (r, s) \<leftarrow> m; case r of Inl e \<Rightarrow> Some (Inl e, s) | Inr x \<Rightarrow> k x s }"

section \<open>Memory of the server\<close>

definition page_of :: "u32 \<Rightarrow> u32" where
  "page_of va = va AND NOT 0xFFF"

definition va_is_mapped :: "u32 \<Rightarrow> fss \<Rightarrow> bool" where
  "va_is_mapped va s \<longleftrightarrow> pages s (page_of va) \<noteq> None"

definition rd8 :: "u32 \<Rightarrow> fss \<Rightarrow> u8 option" where
  "rd8 va s = (if va_is_mapped va s then Some (mem s va) else None)"

definition rd32 :: "u32 \<Rightarrow> fss \<Rightarrow> u32 option" where
  "rd32 va s = (if va_is_mapped va s then Some (ld32 (mem s) va) else None)"

definition wr8 :: "u32 \<Rightarrow> u8 \<Rightarrow> fss \<Rightarrow> fss option" where
  "wr8 va b s = (if va_is_mapped va s then Some (s\<lparr>mem := (mem s)(va := b)\<rparr>) else None)"

definition wr32 :: "u32 \<Rightarrow> u32 \<Rightarrow> fss \<Rightarrow> fss option" where
  "wr32 va w s = (if va_is_mapped va s then Some (s\<lparr>mem := st32 va w (mem s)\<rparr>) else None)"

text \<open>The system calls on the server's own memory: a new page is cleared.\<close>

definition mem_alloc :: "u32 \<Rightarrow> u32 \<Rightarrow> fss \<Rightarrow> unit res \<times> fss" where
  "mem_alloc va perm s =
    (if oom s (tick s) then (Inl (- E_NO_MEM), s\<lparr>tick := tick s + 1\<rparr>)
     else (Inr (), s\<lparr>tick := tick s + 1, pages := (pages s)(page_of va \<mapsto> perm),
        mem := (\<lambda>a. if page_of a = page_of va then 0 else mem s a)\<rparr>))"

definition mem_unmap :: "u32 \<Rightarrow> fss \<Rightarrow> fss" where
  "mem_unmap va s = s\<lparr>pages := (pages s)(page_of va := None)\<rparr>"

text \<open>What the disk driver does to memory and disk.\<close>

definition ide_read_sects :: "u32 \<Rightarrow> u32 \<Rightarrow> nat \<Rightarrow> fss \<Rightarrow> fss" where
  "ide_read_sects secno va n s = s\<lparr>mem := (\<lambda>a. let d = unat (a - va) in
     if d < 512 * n then disk s (secno + of_nat (d div 512)) (d mod 512) else mem s a)\<rparr>"

definition ide_write_sects :: "u32 \<Rightarrow> u32 \<Rightarrow> nat \<Rightarrow> fss \<Rightarrow> fss" where
  "ide_write_sects secno va n s = s\<lparr>disk := (\<lambda>sec off. let d = unat (sec - secno) in
     if d < n \<and> off < 512 then mem s (va + of_nat (512 * d + off)) else disk s sec off)\<rparr>"

section \<open>The block cache\<close>

definition disk_addr :: "u32 \<Rightarrow> u32" where
  "disk_addr blockno = DISKMAP + blockno * BLOCK_SIZE"

definition block_is_mapped :: "u32 \<Rightarrow> fss \<Rightarrow> bool" where
  "block_is_mapped blockno s \<longleftrightarrow> va_is_mapped (disk_addr blockno) s"

definition va_is_dirty :: "u32 \<Rightarrow> fss \<Rightarrow> bool" where
  "va_is_dirty va s \<longleftrightarrow> (case pages s (page_of va) of Some perm \<Rightarrow> perm AND PTE_DIRTY \<noteq> 0 | None \<Rightarrow> False)"

definition block_is_dirty :: "u32 \<Rightarrow> fss \<Rightarrow> bool" where
  "block_is_dirty blockno s \<longleftrightarrow>
    (let va = disk_addr blockno in va_is_mapped va s \<and> va_is_dirty va s)"

definition dirty_block :: "u32 \<Rightarrow> fss \<Rightarrow> unit res \<times> fss" where
  "dirty_block blockno s =
    (let va = disk_addr blockno in
     if \<not> va_is_mapped va s then (Inl (- E_NOT_FOUND), s)
     else if va_is_dirty va s then (Inr (), s)
     else (Inr (), s\<lparr>pages := (pages s)(page_of va \<mapsto> PTE_D OR PTE_DIRTY)\<rparr>))"

definition write_block :: "u32 \<Rightarrow> fss \<Rightarrow> fss option" where
  "write_block blockno s =
    (if \<not> block_is_mapped blockno s then None
     else Some (ide_write_sects (blockno * SECT2BLK) (disk_addr blockno) 8 s))"

definition block_is_free :: "u32 \<Rightarrow> fss \<Rightarrow> bool option" where
  "block_is_free blockno s =
    (if super s = 0 then Some False
     else do {
       n \<leftarrow> rd32 (super s + 4) s;
       if n \<le> blockno then Some False
       else do {
         w \<leftarrow> rd32 (bitmap s + 4 * (blockno div 32)) s;
         Some (w AND push_bit (unat (blockno mod 32)) 1 \<noteq> 0)
       }
     })"

text \<open>The result is the address of the block in memory and \<^verbatim>\<open>isnew\<close>.\<close>

definition read_block :: "u32 \<Rightarrow> fss \<Rightarrow> (u32 \<times> bool) fres" where
  "read_block blockno s = do {
     n \<leftarrow> (if super s = 0 then Some None else map_option Some (rd32 (super s + 4) s));
     if (case n of None \<Rightarrow> False | Some n \<Rightarrow> n \<le> blockno) then None
     else do {
       free \<leftarrow> (if bitmap s = 0 then Some False else block_is_free blockno s);
       if free then None
       else (let va = disk_addr blockno in
         if block_is_mapped blockno s then Some (Inr (va, False), s)
         else and_then (Some (mem_alloc va PTE_D s))
           (\<lambda>_ s. Some (Inr (va, True), ide_read_sects (blockno * SECT2BLK) va 8 s)))
     }
   }"

definition map_block :: "u32 \<Rightarrow> fss \<Rightarrow> unit res \<times> fss" where
  "map_block blockno s =
    (if block_is_mapped blockno s then (Inr (), s)
     else mem_alloc (disk_addr blockno) PTE_D s)"

definition unmap_block :: "u32 \<Rightarrow> fss \<Rightarrow> fss option" where
  "unmap_block blockno s =
    (if \<not> block_is_mapped blockno s then Some s
     else do {
       free \<leftarrow> block_is_free blockno s;
       s \<leftarrow> (if \<not> free \<and> block_is_dirty blockno s then write_block blockno s else Some s);
       Some (mem_unmap (disk_addr blockno) s)
     })"

section \<open>Allocating blocks\<close>

definition free_block :: "u32 \<Rightarrow> fss \<Rightarrow> fss option" where
  "free_block blockno s = do {
     n \<leftarrow> rd32 (super s + 4) s;
     if blockno = 0 \<or> n \<le> blockno then Some s
     else do {
       let va = bitmap s + 4 * (blockno div 32);
       w \<leftarrow> rd32 va s;
       wr32 va (w OR push_bit (unat (blockno mod 32)) 1) s
     }
   }"

text \<open>The scan of the bitmap, for at most \<open>k\<close> more blocks from \<open>blockno\<close> on.\<close>

primrec alloc_scan :: "nat \<Rightarrow> u32 \<Rightarrow> fss \<Rightarrow> u32 fres" where
  "alloc_scan 0 blockno s = Some (Inl (- E_NO_DISK), s)"
| "alloc_scan (Suc k) blockno s = do {
     let va = bitmap s + 4 * (blockno div 32);
     w \<leftarrow> rd32 va s;
     if w AND push_bit (unat (blockno mod 32)) 1 \<noteq> 0 then do {
       s \<leftarrow> wr32 va (w AND NOT (push_bit (unat (blockno mod 32)) 1)) s;
       s \<leftarrow> write_block (blockno div BLOCK_SIZE_BIT + 2) s;
       Some (Inr blockno, s)
     } else alloc_scan k (blockno + 1) s
   }"

definition alloc_block_num :: "fss \<Rightarrow> u32 fres" where
  "alloc_block_num s = do {
     n \<leftarrow> rd32 (super s + 4) s;
     alloc_scan (unat n - 3) 3 s
   }"

definition alloc_block :: "fss \<Rightarrow> u32 fres" where
  "alloc_block s = and_then (alloc_block_num s) (\<lambda>bno s.
     case map_block bno s of
       (Inl e, s) \<Rightarrow> do { s \<leftarrow> free_block bno s; Some (Inl e, s) }
     | (Inr _, s) \<Rightarrow> Some (Inr bno, s))"

section \<open>Starting\<close>

definition read_super :: "fss \<Rightarrow> fss option" where
  "read_super s = do {
     (r, s) \<leftarrow> read_block 1 s;
     case r of
       Inl _ \<Rightarrow> None
     | Inr (blk, _) \<Rightarrow> do {
         let s = s\<lparr>super := blk\<rparr>;
         magic \<leftarrow> rd32 (super s) s;
         n \<leftarrow> rd32 (super s + 4) s;
         if magic \<noteq> FS_MAGIC then None
         else if DISKMAX div BLOCK_SIZE < n then None
         else Some s
       }
   }"

definition read_bitmap :: "fss \<Rightarrow> fss option" where
  "read_bitmap s = do {
     n \<leftarrow> rd32 (super s + 4) s;
     let nbitmap = n div BLOCK_SIZE_BIT + 1;
     s \<leftarrow> foldM (\<lambda>i s. do { (_, s) \<leftarrow> read_block (of_nat i + 2) s; Some s }) [0..<unat nbitmap] s;
     let s = s\<lparr>bitmap := disk_addr 2\<rparr>;
     f0 \<leftarrow> block_is_free 0 s;
     f1 \<leftarrow> block_is_free 1 s;
     if f0 \<or> f1 then None
     else foldM (\<lambda>i s. do { f \<leftarrow> block_is_free (of_nat i + 2) s; if f then None else Some s }) [0..<unat nbitmap] s
   }"

text \<open>\<^verbatim>\<open>panic_on(read_block(...))\<close>.\<close>

definition must_read :: "u32 \<Rightarrow> fss \<Rightarrow> fss option" where
  "must_read blockno s = do { (r, s) \<leftarrow> read_block blockno s; case r of Inl _ \<Rightarrow> None | Inr _ \<Rightarrow> Some s }"

definition check_write_block :: "fss \<Rightarrow> fss option" where
  "check_write_block s = do {
     s \<leftarrow> must_read 0 (s\<lparr>super := 0\<rparr>);
     (_, m) \<leftarrow> memcpy (disk_addr 0) (disk_addr 1) BLOCK_SIZE (mem s);
     let m = fold (\<lambda>(i, b) m. m(disk_addr 1 + of_nat i := b)) (enumerate 0 [0x4F, 0x4F, 0x50, 0x53, 0x21, 0x0A, 0]) m;
     s \<leftarrow> write_block 1 (s\<lparr>mem := m\<rparr>);
     if \<not> block_is_mapped 1 s then None
     else do {
       s \<leftarrow> must_read 1 (mem_unmap (disk_addr 1) s);
       if \<not> cstr (mem s) (disk_addr 1) [0x4F, 0x4F, 0x50, 0x53, 0x21, 0x0A] then None
       else do {
         (_, m) \<leftarrow> memcpy (disk_addr 1) (disk_addr 0) BLOCK_SIZE (mem s);
         s \<leftarrow> write_block 1 (s\<lparr>mem := m\<rparr>);
         Some (s\<lparr>super := disk_addr 1\<rparr>)
       }
     }
   }"

definition fs_init :: "fss \<Rightarrow> fss option" where
  "fs_init s = do { s \<leftarrow> read_super s; s \<leftarrow> check_write_block s; read_bitmap s }"

section \<open>The blocks of a file\<close>

definition file_block_walk :: "u32 \<Rightarrow> u32 \<Rightarrow> bool \<Rightarrow> fss \<Rightarrow> u32 fres" where
  "file_block_walk f filebno alloc s =
    (if filebno < NDIRECT then Some (Inr (f_direct_of f filebno), s)
     else if filebno < NINDIRECT then do {
       ind \<leftarrow> rd32 (f_indirect_of f) s;
       and_then
         (if ind = 0 then
            if \<not> alloc then Some (Inl (- E_NOT_FOUND), s)
            else and_then (alloc_block s) (\<lambda>b s. do { s \<leftarrow> wr32 (f_indirect_of f) b s; Some (Inr (), s) })
          else Some (Inr (), s))
         (\<lambda>_ s. do {
            ind \<leftarrow> rd32 (f_indirect_of f) s;
            and_then (read_block ind s) (\<lambda>(blk, _) s. Some (Inr (blk + 4 * filebno), s))
          })
     }
     else Some (Inl (- E_INVAL), s))"

definition file_map_block :: "u32 \<Rightarrow> u32 \<Rightarrow> bool \<Rightarrow> fss \<Rightarrow> u32 fres" where
  "file_map_block f filebno alloc s = and_then (file_block_walk f filebno alloc s) (\<lambda>ptr s. do {
     b \<leftarrow> rd32 ptr s;
     and_then
       (if b = 0 then
          if \<not> alloc then Some (Inl (- E_NOT_FOUND), s)
          else and_then (alloc_block s) (\<lambda>b s. do { s \<leftarrow> wr32 ptr b s; Some (Inr (), s) })
        else Some (Inr (), s))
       (\<lambda>_ s. do { b \<leftarrow> rd32 ptr s; Some (Inr b, s) })
   })"

definition file_clear_block :: "u32 \<Rightarrow> u32 \<Rightarrow> fss \<Rightarrow> unit fres" where
  "file_clear_block f filebno s = and_then (file_block_walk f filebno False s) (\<lambda>ptr s. do {
     b \<leftarrow> rd32 ptr s;
     if b \<noteq> 0 then do {
       s \<leftarrow> free_block b s;
       s \<leftarrow> wr32 ptr 0 s;
       Some (Inr (), s)
     } else Some (Inr (), s)
   })"

definition file_get_block :: "u32 \<Rightarrow> u32 \<Rightarrow> fss \<Rightarrow> u32 fres" where
  "file_get_block f filebno s = and_then (file_map_block f filebno True s) (\<lambda>diskbno s.
     and_then (read_block diskbno s) (\<lambda>(blk, _) s. Some (Inr blk, s)))"

definition file_dirty :: "u32 \<Rightarrow> u32 \<Rightarrow> fss \<Rightarrow> unit fres" where
  "file_dirty f offset s = and_then (file_map_block f (offset div BLOCK_SIZE) False s)
     (\<lambda>diskbno s. Some (dirty_block diskbno s))"


section \<open>Directories\<close>

text \<open>The inner loop of \<^verbatim>\<open>dir_lookup\<close>: the first node of the block with the name.\<close>

definition find_file :: "bytemem \<Rightarrow> u32 \<Rightarrow> u8 list \<Rightarrow> u32 option" where
  "find_file m blk name = find (\<lambda>f. cstr m f name) (map (\<lambda>j. blk + FILE_STRUCT_SIZE * of_nat j) [0..<FILE2BLK])"

primrec lookup_scan :: "nat \<Rightarrow> u32 \<Rightarrow> u32 \<Rightarrow> u8 list \<Rightarrow> fss \<Rightarrow> u32 fres" where
  "lookup_scan 0 i dir name s = Some (Inl (- E_NOT_FOUND), s)"
| "lookup_scan (Suc k) i dir name s = and_then (file_get_block dir i s) (\<lambda>blk s.
     case find_file (mem s) blk name of
       Some f \<Rightarrow> do { s \<leftarrow> wr32 (f_dir_of f) dir s; Some (Inr f, s) }
     | None \<Rightarrow> lookup_scan k (i + 1) dir name s)"

definition dir_lookup :: "u32 \<Rightarrow> u8 list \<Rightarrow> fss \<Rightarrow> u32 fres" where
  "dir_lookup dir name s = do {
     sz \<leftarrow> rd32 (f_size_of dir) s;
     lookup_scan (unat (sz div BLOCK_SIZE)) 0 dir name s
   }"

primrec slot_scan :: "nat \<Rightarrow> u32 \<Rightarrow> u32 \<Rightarrow> fss \<Rightarrow> u32 option fres" where
  "slot_scan 0 i dir s = Some (Inr None, s)"
| "slot_scan (Suc k) i dir s = and_then (file_get_block dir i s) (\<lambda>blk s.
     case find (\<lambda>f. mem s f = 0) (map (\<lambda>j. blk + FILE_STRUCT_SIZE * of_nat j) [0..<FILE2BLK]) of
       Some f \<Rightarrow> Some (Inr (Some f), s)
     | None \<Rightarrow> slot_scan k (i + 1) dir s)"

definition dir_alloc_file :: "u32 \<Rightarrow> fss \<Rightarrow> u32 fres" where
  "dir_alloc_file dir s = do {
     sz \<leftarrow> rd32 (f_size_of dir) s;
     let nblock = sz div BLOCK_SIZE;
     and_then (slot_scan (unat nblock) 0 dir s) (\<lambda>r s.
       case r of
         Some f \<Rightarrow> Some (Inr f, s)
       | None \<Rightarrow> do {
           sz \<leftarrow> rd32 (f_size_of dir) s;
           s \<leftarrow> wr32 (f_size_of dir) (sz + BLOCK_SIZE) s;
           file_get_block dir nblock s
         })
   }"

section \<open>Paths\<close>

definition skip_slash :: "u8 list \<Rightarrow> u8 list" where
  "skip_slash p = dropWhile (\<lambda>c. c = 0x2F) p"

lemma next_component_shorter:
  assumes "path \<noteq> []"
  shows "length (skip_slash (dropWhile (\<lambda>c. c \<noteq> 0x2F) path)) < length path"
proof (cases path)
  case (Cons c cs)
  have le: "length (skip_slash p) \<le> length p" for p by (simp add: skip_slash_def length_dropWhile_le)
  show ?thesis
  proof (cases "c = 0x2F")
    case True
    then have "skip_slash (dropWhile (\<lambda>c. c \<noteq> 0x2F) path) = skip_slash cs"
      using Cons by (simp add: skip_slash_def)
    then show ?thesis using le [of cs] Cons by simp
  next
    case False
    then have "length (dropWhile (\<lambda>c. c \<noteq> 0x2F) path) \<le> length cs"
      using Cons by (simp add: length_dropWhile_le)
    with le [of "dropWhile (\<lambda>c. c \<noteq> 0x2F) path"] Cons show ?thesis by simp
  qed
qed (use assms in simp)

text \<open>The result code with what is stored through \<^verbatim>\<open>pdir\<close>, \<^verbatim>\<open>pfile\<close> and \<^verbatim>\<open>lastelem\<close>.\<close>

type_synonym walk_result = "int \<times> u32 \<times> u32 \<times> u8 list"

function walk_loop :: "u32 \<Rightarrow> u32 \<Rightarrow> u8 list \<Rightarrow> fss \<Rightarrow> (walk_result \<times> fss) option" where
  "walk_loop dir file path s =
    (if path = [] then Some ((0, dir, file, []), s)
     else
       let dir = file;
           name = takeWhile (\<lambda>c. c \<noteq> 0x2F) path;
           path = dropWhile (\<lambda>c. c \<noteq> 0x2F) path
       in
       if MAXNAMELEN \<le> length name then Some ((- E_BAD_PATH, 0, 0, []), s)
       else
         let path = skip_slash path in do {
           ty \<leftarrow> rd32 (f_type_of dir) s;
           if ty \<noteq> FTYPE_DIR then Some ((- E_NOT_FOUND, 0, 0, []), s)
           else
             case dir_lookup dir name s of
               None \<Rightarrow> None
             | Some (Inl e, s) \<Rightarrow>
                 if e = - E_NOT_FOUND \<and> path = [] then Some ((e, dir, 0, name), s)
                 else Some ((e, 0, 0, []), s)
             | Some (Inr file, s) \<Rightarrow> walk_loop dir file path s
         })"
  by pat_completeness auto
termination
proof (relation "measure (\<lambda>(_, _, path, _). length path)", goal_cases)
  case (2 dir fl path)
  have "length (skip_slash (dropWhile (\<lambda>c. c \<noteq> 0x2F) path)) < length path"
    using 2(1) by (rule next_component_shorter)
  with 2 show ?case by simp
qed simp

declare walk_loop.simps [simp del]

definition walk_path :: "u8 list \<Rightarrow> fss \<Rightarrow> (walk_result \<times> fss) option" where
  "walk_path path s = walk_loop 0 (super s + 8) (skip_slash path) s"

definition file_open :: "u8 list \<Rightarrow> fss \<Rightarrow> u32 fres" where
  "file_open path s = do {
     ((r, dir, file, _), s) \<leftarrow> walk_path path s;
     if r \<noteq> 0 then Some (Inl r, s) else Some (Inr file, s)
   }"

text \<open>\<^verbatim>\<open>strcpy(f->f_name, name)\<close>.\<close>

definition set_name :: "u32 \<Rightarrow> u8 list \<Rightarrow> fss \<Rightarrow> fss option" where
  "set_name f name s = foldM (\<lambda>(i, b) s. wr8 (f + of_nat i) b s) (enumerate 0 (name @ [0])) s"

definition file_create :: "u8 list \<Rightarrow> fss \<Rightarrow> u32 fres" where
  "file_create path s = do {
     ((r, dir, f, name), s) \<leftarrow> walk_path path s;
     if r = 0 then Some (Inl (- E_FILE_EXISTS), s)
     else if r \<noteq> - E_NOT_FOUND \<or> dir = 0 then Some (Inl r, s)
     else do {
       (r', s) \<leftarrow> dir_alloc_file dir s;
       case r' of
         Inl _ \<Rightarrow> Some (Inl r, s)
       | Inr f \<Rightarrow> do { s \<leftarrow> set_name f name s; Some (Inr f, s) }
     }
   }"

section \<open>Sizes, flushing, removing\<close>

text \<open>\<^verbatim>\<open>panic_on(file_clear_block(f, bno))\<close> for the blocks of a range.\<close>

definition clear_blocks :: "u32 \<Rightarrow> nat \<Rightarrow> nat \<Rightarrow> fss \<Rightarrow> fss option" where
  "clear_blocks f from to s = foldM (\<lambda>bno s. do {
     (r, s) \<leftarrow> file_clear_block f (of_nat bno) s;
     case r of Inl _ \<Rightarrow> None | Inr _ \<Rightarrow> Some s
   }) [from..<to] s"

definition file_truncate :: "u32 \<Rightarrow> u32 \<Rightarrow> fss \<Rightarrow> fss option" where
  "file_truncate f newsize s = do {
     sz \<leftarrow> rd32 (f_size_of f) s;
     let old_nblocks = ROUND sz BLOCK_SIZE div BLOCK_SIZE;
     let new_nblocks = (if newsize = 0 then 0 else ROUND newsize BLOCK_SIZE div BLOCK_SIZE);
     s \<leftarrow> clear_blocks f (unat new_nblocks) (unat old_nblocks) s;
     s \<leftarrow> (if new_nblocks \<le> NDIRECT then do {
              ind \<leftarrow> rd32 (f_indirect_of f) s;
              if ind \<noteq> 0 then do {
                s \<leftarrow> free_block ind s;
                wr32 (f_indirect_of f) 0 s
              } else Some s
            } else Some s);
     wr32 (f_size_of f) newsize s
   }"

definition file_flush :: "u32 \<Rightarrow> fss \<Rightarrow> fss option" where
  "file_flush f s = do {
     sz \<leftarrow> rd32 (f_size_of f) s;
     let nblocks = ROUND sz BLOCK_SIZE div BLOCK_SIZE;
     foldM (\<lambda>bno s. do {
       (r, s) \<leftarrow> file_map_block f (of_nat bno) False s;
       case r of
         Inl _ \<Rightarrow> Some s
       | Inr diskno \<Rightarrow> if block_is_dirty diskno s then write_block diskno s else Some s
     }) [0..<unat nblocks] s
   }"

text \<open>\<^verbatim>\<open>if (f->f_dir) file_flush(f->f_dir)\<close>.\<close>

definition flush_dir :: "u32 \<Rightarrow> fss \<Rightarrow> fss option" where
  "flush_dir f s = do {
     dir \<leftarrow> rd32 (f_dir_of f) s;
     if dir \<noteq> 0 then file_flush dir s else Some s
   }"

definition file_set_size :: "u32 \<Rightarrow> u32 \<Rightarrow> fss \<Rightarrow> unit fres" where
  "file_set_size f newsize s = do {
     sz \<leftarrow> rd32 (f_size_of f) s;
     s \<leftarrow> (if newsize < sz then file_truncate f newsize s else Some s);
     s \<leftarrow> wr32 (f_size_of f) newsize s;
     s \<leftarrow> flush_dir f s;
     Some (Inr (), s)
   }"

definition fs_sync :: "fss \<Rightarrow> fss option" where
  "fs_sync s = do {
     n \<leftarrow> rd32 (super s + 4) s;
     foldM (\<lambda>i s. if block_is_dirty (of_nat i) s then write_block (of_nat i) s else Some s) [0..<unat n] s
   }"

definition file_close :: "u32 \<Rightarrow> fss \<Rightarrow> fss option" where
  "file_close f s = do { s \<leftarrow> file_flush f s; flush_dir f s }"

definition file_remove :: "u8 list \<Rightarrow> fss \<Rightarrow> unit fres" where
  "file_remove path s = do {
     ((r, dir, f, _), s) \<leftarrow> walk_path path s;
     if r \<noteq> 0 then Some (Inl r, s)
     else do {
       s \<leftarrow> file_truncate f 0 s;
       s \<leftarrow> wr8 f 0 s;
       s \<leftarrow> file_flush f s;
       s \<leftarrow> flush_dir f s;
       Some (Inr (), s)
     }
   }"

end
