(* ===== verification/MOS_Blocks.thy ===== *)
theory MOS_Blocks
  imports MOS_Fs MOS_Bitmap
begin

text \<open>
  The block cache and the block allocator of \<^verbatim>\<open>fs/fs.c\<close>: the state after \<^verbatim>\<open>fs_init\<close>
  (\<open>fs_ready\<close>), the allocator as an instance of \<open>bit_allocator\<close>, and blocks written to the disk
  and read back.
\<close>

section \<open>Addresses of blocks\<close>

lemma and_not_mask_12: "(va::u32) AND NOT 0xFFF = push_bit 12 (drop_bit 12 va)"
proof -
  have m: "(0xFFF :: u32) = mask 12" by (simp add: mask_eq_exp_minus_1)
  show ?thesis unfolding m by (rule bit_word_eqI) (auto simp: bit_simps)
qed

lemma unat_page_of: "unat (page_of va) = unat va div 4096 * 4096"
proof -
  have "unat (drop_bit 12 va) = unat va div 4096" by (simp add: unat_drop_bit_div)
  moreover have "unat va div 4096 * 4096 < 2 ^ 32"
    using unsigned_less [of va, where ?'a = nat] by (simp add: div_times_less_eq_dividend le_less_trans)
  ultimately show ?thesis
    unfolding page_of_def and_not_mask_12 push_bit_eq_mult
    by (subst unat_mult_lem [THEN iffD1]) simp_all
qed

lemma page_of_eq_iff: "page_of a = page_of b \<longleftrightarrow> unat a div 4096 = unat b div 4096"
  by (simp add: word_unat_eq_iff unat_page_of)

lemma page_of_page_of [simp]: "page_of (page_of a) = page_of a"
  by (simp add: page_of_eq_iff unat_page_of)

lemma unat_disk_addr: "b < 0xF0000 \<Longrightarrow> unat (disk_addr (of_nat b)) = 0x10000000 + 4096 * b"
proof -
  assume b: "b < 0xF0000"
  then have u: "unat (of_nat b :: u32) = b" by (simp add: unat_of_nat)
  have "unat ((of_nat b :: u32) * 4096) = b * 4096"
    using b u by (subst unat_mult_lem [THEN iffD1]) simp_all
  with b show ?thesis
    unfolding disk_addr_def by (subst unat_add_lem [THEN iffD1]) simp_all
qed

lemma unat_in_block: "b < 0xF0000 \<Longrightarrow> k < 4096 \<Longrightarrow> unat (disk_addr (of_nat b) + of_nat k) = 0x10000000 + 4096 * b + k"
  using unat_disk_addr [of b]
  by (subst unat_add_lem [THEN iffD1]) (simp_all add: unat_of_nat)

lemma page_in_block: "b < 0xF0000 \<Longrightarrow> k < 4096 \<Longrightarrow> page_of (disk_addr (of_nat b) + of_nat k) = disk_addr (of_nat b)"
proof -
  assume *: "b < 0xF0000" "k < 4096"
  have "0x10000000 + 4096 * b + k = k + 4096 * (65536 + b)" by simp
  then have "(0x10000000 + 4096 * b + k) div 4096 = 65536 + b" using *(2) by simp
  with * show ?thesis by (simp add: word_unat_eq_iff unat_page_of unat_in_block unat_disk_addr)
qed

lemma page_disk_addr: "b < 0xF0000 \<Longrightarrow> page_of (disk_addr (of_nat b)) = disk_addr (of_nat b)"
  using page_in_block [of b 0] by simp

lemma disk_addr_inject: "b < 0xF0000 \<Longrightarrow> c < 0xF0000 \<Longrightarrow> disk_addr (of_nat b) = disk_addr (of_nat c) \<longleftrightarrow> b = c"
  by (simp add: word_unat_eq_iff unat_disk_addr)

lemma mapped_in_block: "b < 0xF0000 \<Longrightarrow> k < 4096 \<Longrightarrow>
    va_is_mapped (disk_addr (of_nat b) + of_nat k) s \<longleftrightarrow> block_is_mapped (of_nat b) s"
  by (simp add: block_is_mapped_def va_is_mapped_def page_in_block page_disk_addr)

section \<open>The bitmap\<close>

text \<open>The state after \<^verbatim>\<open>fs_init\<close> on a disk of \<open>n\<close> blocks: the super block and the bitmap are cached
  and the globals point to them.\<close>

definition fs_ready :: "nat \<Rightarrow> fss \<Rightarrow> bool" where
  "fs_ready n s \<longleftrightarrow> super s = disk_addr 1 \<and> bitmap s = disk_addr 2 \<and> n \<le> 0x40000 \<and>
     ld32 (mem s) (disk_addr 1 + 4) = of_nat n \<and> (\<forall>b\<in>{1..n div 32768 + 2}. block_is_mapped (of_nat b) s)"

definition bitmap_word :: "nat \<Rightarrow> u32" where
  "bitmap_word b = disk_addr 2 + 4 * (of_nat b div 32)"

definition blk_free :: "fss \<Rightarrow> nat \<Rightarrow> bool" where
  "blk_free s b \<longleftrightarrow> bit (ld32 (mem s) (bitmap_word b)) (b mod 32)"

lemma fs_ready_mapped: "fs_ready n s \<Longrightarrow> 1 \<le> b \<Longrightarrow> b \<le> n div 32768 + 2 \<Longrightarrow> block_is_mapped (of_nat b) s"
  unfolding fs_ready_def by (elim conjE bspec) simp

lemma unat_div_32: "b \<le> 0x40000 \<Longrightarrow> unat ((of_nat b :: u32) div 32) = b div 32"
  by (simp add: unat_div_distrib unat_of_nat)

lemma unat_mod_32: "b \<le> 0x40000 \<Longrightarrow> unat ((of_nat b :: u32) mod 32) = b mod 32"
  by (simp add: unat_mod_distrib unat_of_nat)

lemma unat_bitmap_word: "b \<le> 0x40000 \<Longrightarrow> unat (bitmap_word b) = 0x10002000 + 4 * (b div 32)"
proof -
  assume b: "b \<le> 0x40000"
  have "unat (4 * ((of_nat b :: u32) div 32)) = 4 * (b div 32)"
    using b unat_div_32 [OF b] by (subst unat_mult_lem [THEN iffD1]) simp_all
  with b show ?thesis
    unfolding bitmap_word_def using unat_disk_addr [of 2] by (subst unat_add_lem [THEN iffD1]) simp_all
qed

lemma bitmap_word_mapped:
  assumes "fs_ready n s" "b < n"
  shows "va_is_mapped (bitmap_word b) s"
proof -
  have n: "n \<le> 0x40000" using assms(1) by (simp add: fs_ready_def)
  have "b div 32768 = b div 32 div 1024" by (simp add: div_mult2_eq [symmetric])
  then have "(0x10002000 + 4 * (b div 32)) div 4096 = 65538 + b div 32768" by simp
  moreover have "b div 32768 \<le> 8" using n assms(2) by simp
  ultimately have "page_of (bitmap_word b) = page_of (disk_addr (of_nat (2 + b div 32768)))"
    unfolding page_of_eq_iff using n assms(2) unat_bitmap_word [of b] unat_disk_addr [of "2 + b div 32768"] by simp
  moreover have "block_is_mapped (of_nat (2 + b div 32768)) s"
    using assms div_le_mono [of b n 32768] by (intro fs_ready_mapped) simp_all
  ultimately show ?thesis by (simp add: block_is_mapped_def va_is_mapped_def)
qed

lemma bitmap_word_apart:
  assumes "b \<le> 0x40000" "c \<le> 0x40000" "b div 32 \<noteq> c div 32"
  shows "4 \<le> unat (bitmap_word b - bitmap_word c)"
  using assms by (auto simp: unat_sub_if' unat_bitmap_word)

lemma super_word_apart:
  assumes "b \<le> 0x40000"
  shows "4 \<le> unat (disk_addr 1 + 4 - bitmap_word b)" "4 \<le> unat (bitmap_word b - (disk_addr 1 + 4))"
  using assms unat_in_block [of 1 4] by (auto simp: unat_sub_if' unat_bitmap_word)

lemma rd32_super: "fs_ready n s \<Longrightarrow> rd32 (super s + 4) s = Some (of_nat n)"
proof -
  assume *: "fs_ready n s"
  then have "block_is_mapped (of_nat 1) s" by (rule fs_ready_mapped) simp_all
  with * show ?thesis using mapped_in_block [of 1 4 s] by (simp add: fs_ready_def rd32_def)
qed

lemma rd32_bitmap: "fs_ready n s \<Longrightarrow> b < n \<Longrightarrow> rd32 (bitmap s + 4 * (of_nat b div 32)) s = Some (ld32 (mem s) (bitmap_word b))"
  using bitmap_word_mapped by (simp add: rd32_def fs_ready_def bitmap_word_def)

text \<open>Storing a bitmap word keeps everything else.\<close>

definition put_word :: "nat \<Rightarrow> u32 \<Rightarrow> fss \<Rightarrow> fss" where
  "put_word b w s = s\<lparr>mem := st32 (bitmap_word b) w (mem s)\<rparr>"

lemma wr32_bitmap: "fs_ready n s \<Longrightarrow> b < n \<Longrightarrow> wr32 (bitmap s + 4 * (of_nat b div 32)) w s = Some (put_word b w s)"
  using bitmap_word_mapped by (simp add: wr32_def fs_ready_def bitmap_word_def put_word_def)

lemma put_word_ready: "fs_ready n s \<Longrightarrow> b < n \<Longrightarrow> fs_ready n (put_word b w s)"
  using super_word_apart [of b]
  by (auto simp: fs_ready_def put_word_def ld32_st32_other block_is_mapped_def va_is_mapped_def)

lemma blk_free_put_word:
  assumes "b \<le> 0x40000" "k \<le> 0x40000"
  shows "blk_free (put_word b w s) k \<longleftrightarrow> (if k div 32 = b div 32 then bit w (k mod 32) else blk_free s k)"
proof (cases "k div 32 = b div 32")
  case True
  then have "bitmap_word k = bitmap_word b"
    using assms by (simp add: word_unat_eq_iff unat_bitmap_word)
  with True show ?thesis by (simp add: blk_free_def put_word_def ld32_st32)
next
  case False
  with assms bitmap_word_apart [of k b] bitmap_word_apart [of b k] show ?thesis
    by (simp add: blk_free_def put_word_def ld32_st32_other)
qed

lemma bitmap_word_same:
  "b \<le> 0x40000 \<Longrightarrow> k \<le> 0x40000 \<Longrightarrow> k div 32 = b div 32 \<Longrightarrow> bit (ld32 (mem s) (bitmap_word b)) (k mod 32) \<longleftrightarrow> blk_free s k"
proof -
  assume "b \<le> 0x40000" "k \<le> 0x40000" "k div 32 = b div 32"
  then have "bitmap_word k = bitmap_word b" by (simp add: word_unat_eq_iff unat_bitmap_word)
  then show ?thesis by (simp add: blk_free_def)
qed

lemma ide_write_sects_simps [simp]:
  "mem (ide_write_sects sec va n s) = mem s" "pages (ide_write_sects sec va n s) = pages s"
  "super (ide_write_sects sec va n s) = super s" "bitmap (ide_write_sects sec va n s) = bitmap s"
  by (simp_all add: ide_write_sects_def)

lemma fs_ready_write_sects [simp]: "fs_ready n (ide_write_sects sec va k s) \<longleftrightarrow> fs_ready n s"
  by (simp add: fs_ready_def block_is_mapped_def va_is_mapped_def)

lemma blk_free_write_sects [simp]: "blk_free (ide_write_sects sec va k s) = blk_free s"
  by (simp add: blk_free_def fun_eq_iff)

section \<open>The allocator\<close>

definition take_block :: "nat \<Rightarrow> fss \<Rightarrow> fss" where
  "take_block b s = (let s = put_word b (ld32 (mem s) (bitmap_word b) AND NOT (push_bit (b mod 32) 1)) s in
     ide_write_sects (of_nat (8 * (b div 32768 + 2))) (disk_addr (of_nat (b div 32768 + 2))) 8 s)"

lemma take_block_ready: "fs_ready n s \<Longrightarrow> b < n \<Longrightarrow> fs_ready n (take_block b s)"
  by (simp add: take_block_def put_word_ready)

lemma blk_free_take_block: "b \<le> 0x40000 \<Longrightarrow> k \<le> 0x40000 \<Longrightarrow> blk_free (take_block b s) k \<longleftrightarrow> k \<noteq> b \<and> blk_free s k"
proof -
  assume *: "b \<le> 0x40000" "k \<le> 0x40000"
  show ?thesis
    using * div_mod_32_eq [of k b] bitmap_word_same [of b k s]
    by (auto simp: take_block_def blk_free_put_word bit_clear_push_bit_1 Let_def simp del: push_bit_of_1)
qed

lemma write_bitmap_block:
  assumes "fs_ready n s" "b < n"
  shows "write_block (of_nat b div BLOCK_SIZE_BIT + 2) s =
    Some (ide_write_sects (of_nat (8 * (b div 32768 + 2))) (disk_addr (of_nat (b div 32768 + 2))) 8 s)"
proof -
  have n: "n \<le> 0x40000" using assms(1) by (simp add: fs_ready_def)
  have "(of_nat b div BLOCK_SIZE_BIT :: u32) = of_nat (b div 32768)"
    using n assms(2) by (simp add: word_unat_eq_iff unat_div_distrib unat_of_nat)
  moreover have "block_is_mapped (of_nat (b div 32768 + 2)) s"
    using assms div_le_mono [of b n 32768] by (intro fs_ready_mapped) simp_all
  ultimately show ?thesis
    by (simp add: write_block_def mult.commute add.commute)
qed

lemma alloc_scan_eq:
  assumes "fs_ready n s" "b + k = n"
  shows "alloc_scan k (of_nat b) s = Some (case find (blk_free s) [b..<n] of
      None \<Rightarrow> (Inl (- E_NO_DISK), s) | Some j \<Rightarrow> (Inr (of_nat j), take_block j s))"
  using assms(2)
proof (induction k arbitrary: b)
  case (Suc k)
  then have b: "b < n" by simp
  have n: "n \<le> 0x40000" using assms(1) by (simp add: fs_ready_def)
  then have m: "unat ((of_nat b :: u32) mod 32) = b mod 32" using b by (intro unat_mod_32) simp
  let ?w = "ld32 (mem s) (bitmap_word b) AND NOT (push_bit (b mod 32) 1)"
  have w: "write_block (of_nat b div BLOCK_SIZE_BIT + 2) (put_word b ?w s) = Some (take_block b s)"
    using write_bitmap_block [OF put_word_ready [OF assms(1) b] b] by (simp add: take_block_def Let_def)
  have "alloc_scan (Suc k) (of_nat b) s =
      (if blk_free s b then Some (Inr (of_nat b), take_block b s) else alloc_scan k (of_nat (Suc b)) s)"
    unfolding alloc_scan.simps Let_def rd32_bitmap [OF assms(1) b] wr32_bitmap [OF assms(1) b] m
      Option.bind.bind_lunit w and_push_bit_1 by (simp add: blk_free_def add.commute)
  with Suc.IH [of "Suc b"] Suc.prems show ?case
    by (simp add: upt_conv_Cons del: of_nat_Suc)
qed simp

lemma alloc_block_num_eq:
  assumes "fs_ready n s"
  shows "alloc_block_num s = Some (case find (blk_free s) [3..<n] of
      None \<Rightarrow> (Inl (- E_NO_DISK), s) | Some b \<Rightarrow> (Inr (of_nat b), take_block b s))"
proof -
  have n: "unat (of_nat n :: u32) = n" using assms by (simp add: fs_ready_def unat_of_nat)
  show ?thesis
  proof (cases "3 \<le> n")
    case True
    then show ?thesis
      using alloc_scan_eq [OF assms, of 3 "n - 3"] by (simp add: alloc_block_num_def rd32_super [OF assms] n)
  qed (simp add: alloc_block_num_def rd32_super [OF assms] n)
qed

definition give_block :: "nat \<Rightarrow> fss \<Rightarrow> fss" where
  "give_block b s = put_word b (ld32 (mem s) (bitmap_word b) OR push_bit (b mod 32) 1) s"

lemma free_block_eq:
  assumes "fs_ready n s" "0 < b" "b < n"
  shows "free_block (of_nat b) s = Some (give_block b s)"
proof -
  have n: "n \<le> 0x40000" using assms(1) by (simp add: fs_ready_def)
  then have u: "unat (of_nat b :: u32) = b" "unat (of_nat n :: u32) = n" using assms(3) by (simp_all add: unat_of_nat)
  then have "of_nat b \<noteq> (0 :: u32)" "\<not> of_nat n \<le> (of_nat b :: u32)"
    using assms(2,3) by (auto simp: word_le_nat_alt word_unat_eq_iff)
  moreover have "unat ((of_nat b :: u32) mod 32) = b mod 32" using n assms(3) by (intro unat_mod_32) simp
  ultimately show ?thesis
    by (simp add: free_block_def rd32_super [OF assms(1)] rd32_bitmap [OF assms(1,3)] wr32_bitmap [OF assms(1,3)]
        give_block_def)
qed

lemma blk_free_give_block: "b \<le> 0x40000 \<Longrightarrow> k \<le> 0x40000 \<Longrightarrow> blk_free (give_block b s) k \<longleftrightarrow> k = b \<or> blk_free s k"
proof -
  assume *: "b \<le> 0x40000" "k \<le> 0x40000"
  show ?thesis
    using * div_mod_32_eq [of k b] bitmap_word_same [of b k s]
    by (auto simp: give_block_def blk_free_put_word bit_or_push_bit_1 simp del: push_bit_of_1)
qed

text \<open>The allocator of blocks is an instance of the contract.\<close>

definition block_grab :: "fss \<Rightarrow> nat option \<times> fss" where
  "block_grab s = (case alloc_block_num s of
     Some (Inr b, s') \<Rightarrow> (Some (unat b), s') | Some (Inl _, s') \<Rightarrow> (None, s') | None \<Rightarrow> (None, s))"

definition block_release :: "nat \<Rightarrow> fss \<Rightarrow> fss" where
  "block_release b s = (case free_block (of_nat b) s of Some s' \<Rightarrow> s' | None \<Rightarrow> s)"

interpretation blk: bit_allocator "fs_ready n" "\<lambda>s b. \<not> blk_free s b" "{3..<n}" block_grab block_release for n
proof unfold_locales
  fix s i assume r: "fs_ready n s" and i: "i \<in> {3..<n}" "\<not> \<not> blk_free s i"
  have n: "n \<le> 0x40000" using r by (simp add: fs_ready_def)
  from i obtain j where f: "find (blk_free s) [3..<n] = Some j"
    by (cases "find (blk_free s) [3..<n]") (auto simp: find_None_iff)
  then have j: "3 \<le> j" "j < n" "blk_free s j" by (auto simp: find_Some_iff)
  then have "unat (of_nat j :: u32) = j" using n by (simp add: unat_of_nat)
  with f j r n show "\<exists>j s'. block_grab s = (Some j, s') \<and> fs_ready n s' \<and> j \<in> {3..<n} \<and> \<not> \<not> blk_free s j \<and>
      (\<forall>k\<in>{3..<n}. (\<not> blk_free s' k) = (k = j \<or> \<not> blk_free s k))"
    by (auto simp: block_grab_def alloc_block_num_eq [OF r] take_block_ready blk_free_take_block)
next
  fix s assume r: "fs_ready n s" and "\<And>i. i \<in> {3..<n} \<Longrightarrow> \<not> blk_free s i"
  then have "find (blk_free s) [3..<n] = None" by (simp add: find_None_iff)
  then show "block_grab s = (None, s)"
    by (simp add: block_grab_def alloc_block_num_eq [OF r])
next
  fix s i assume r: "fs_ready n s" and i: "i \<in> {3..<n}"
  then show "fs_ready n (block_release i s)"
    by (simp add: block_release_def free_block_eq [OF r] give_block_def put_word_ready)
next
  fix s i k assume r: "fs_ready n s" and i: "i \<in> {3..<n}" "k \<in> {3..<n}"
  then show "(\<not> blk_free (block_release i s) k) = (k \<noteq> i \<and> \<not> blk_free s k)"
    by (simp add: block_release_def free_block_eq [OF r] blk_free_give_block fs_ready_def)
qed simp

section \<open>Cache and disk\<close>

text \<open>The cached page of a block agrees with its sectors.\<close>

definition synced :: "nat \<Rightarrow> fss \<Rightarrow> bool" where
  "synced b s \<longleftrightarrow> (\<forall>off<4096. disk s (of_nat (8 * b) + of_nat (off div 512)) (off mod 512) = mem s (disk_addr (of_nat b) + of_nat off))"

lemma disk_write_sects:
  assumes "off < 4096"
  shows "disk (ide_write_sects sec va 8 s) (sec + of_nat (off div 512)) (off mod 512) = mem s (va + of_nat off)"
proof -
  have "unat (of_nat (off div 512) :: u32) = off div 512" using assms by (simp add: unat_of_nat)
  moreover have "off div 512 < 8" using assms by (simp add: less_mult_imp_div_less)
  ultimately show ?thesis by (simp add: ide_write_sects_def Let_def)
qed

lemma synced_write_sects: "synced b (ide_write_sects (of_nat (8 * b)) (disk_addr (of_nat b)) 8 s)"
  by (simp add: synced_def disk_write_sects del: of_nat_mult)

lemma in_block_iff: "b < 0xF0000 \<Longrightarrow> page_of a = disk_addr (of_nat b) \<longleftrightarrow> unat (a - disk_addr (of_nat b)) < 4096"
proof -
  assume b: "b < 0xF0000"
  have "page_of a = disk_addr (of_nat b) \<longleftrightarrow> unat a div 4096 = 65536 + b"
    using b by (auto simp: word_unat_eq_iff unat_page_of unat_disk_addr)
  moreover have "unat (a - disk_addr (of_nat b)) < 4096 \<longleftrightarrow> unat a div 4096 = 65536 + b"
    using b unsigned_less [of a, where ?'a = nat] by (auto simp: unat_sub_if' unat_disk_addr)
  ultimately show ?thesis by simp
qed

lemma read_back:
  assumes "b < 0xF0000" "synced b s" "\<And>a. page_of a \<noteq> disk_addr (of_nat b) \<Longrightarrow> m a = mem s a"
  shows "mem (ide_read_sects (of_nat (8 * b)) (disk_addr (of_nat b)) 8 (s\<lparr>mem := m\<rparr>)) = mem s"
proof
  fix a
  let ?d = "unat (a - disk_addr (of_nat b))"
  show "mem (ide_read_sects (of_nat (8 * b)) (disk_addr (of_nat b)) 8 (s\<lparr>mem := m\<rparr>)) a = mem s a"
  proof (cases "?d < 4096")
    case True
    then show ?thesis using assms(2) by (simp add: synced_def ide_read_sects_def Let_def)
  next
    case False
    then show ?thesis using assms(1,3) by (simp add: in_block_iff ide_read_sects_def Let_def)
  qed
qed

lemma read_sects_cong:
  "disk s = disk t \<Longrightarrow> mem s = mem t \<Longrightarrow> mem (ide_read_sects sec va k s) = mem (ide_read_sects sec va k t)"
  by (simp add: ide_read_sects_def Let_def fun_eq_iff)

lemma block_is_free_eq:
  assumes "fs_ready n s" "b < n"
  shows "block_is_free (of_nat b) s = Some (blk_free s b)"
proof -
  have n: "n \<le> 0x40000" "super s \<noteq> 0"
    using assms(1) unat_disk_addr [of 1] by (auto simp: fs_ready_def word_unat_eq_iff)
  then have "\<not> of_nat n \<le> (of_nat b :: u32)" "unat ((of_nat b :: u32) mod 32) = b mod 32"
    using assms(2) by (simp_all add: word_le_nat_alt unat_of_nat unat_mod_32)
  with n assms show ?thesis
    by (simp add: block_is_free_def rd32_super rd32_bitmap and_push_bit_1 blk_free_def del: push_bit_of_1)
qed

lemma read_block_eq:
  assumes "fs_ready n s" "b < n" "\<not> blk_free s b"
  shows "read_block (of_nat b) s = (if block_is_mapped (of_nat b) s then Some (Inr (disk_addr (of_nat b), False), s)
     else and_then (Some (mem_alloc (disk_addr (of_nat b)) PTE_D s))
           (\<lambda>_ s. Some (Inr (disk_addr (of_nat b), True), ide_read_sects (of_nat b * SECT2BLK) (disk_addr (of_nat b)) 8 s)))"
proof -
  have n: "n \<le> 0x40000" "super s \<noteq> 0" "bitmap s \<noteq> 0"
    using assms(1) unat_disk_addr [of 1] unat_disk_addr [of 2] by (auto simp: fs_ready_def word_unat_eq_iff)
  then have "\<not> of_nat n \<le> (of_nat b :: u32)"
    using assms(2) by (simp add: word_le_nat_alt unat_of_nat)
  with n assms show ?thesis
    by (simp add: read_block_def rd32_super block_is_free_eq Let_def)
qed

section \<open>Properties\<close>

text \<open>A small disk for the witnesses: eight blocks, block 3 in use and dirty, blocks 4 to 7 free,
  everything cached.\<close>

definition demo_fs :: fss where
  "demo_fs = \<lparr>mem = (\<lambda>_. 0)(0x10001004 := 8, 0x10002000 := 0xF0, 0x10004001 := 7),
     pages = (\<lambda>va. Some (if va = 0x10003000 then PTE_D OR PTE_DIRTY else PTE_D)),
     disk = (\<lambda>_ _. 0), super = 0x10001000, bitmap = 0x10002000, oom = (\<lambda>_. False), tick = 0\<rparr>"

lemma demo_fs_ready: "fs_ready 8 demo_fs"
  by (simp add: fs_ready_def demo_fs_def disk_addr_def ld32_def block_is_mapped_def va_is_mapped_def)

lemma demo_fs_free: "blk_free demo_fs b \<longleftrightarrow> b \<in> {4..<8}" if "b < 8"
proof -
  have "bitmap_word b = 0x10002000" using that by (simp add: word_unat_eq_iff unat_bitmap_word)
  moreover have "ld32 (mem demo_fs) 0x10002000 = 0xF0" by (simp add: demo_fs_def ld32_def)
  moreover have "b \<in> {0,1,2,3,4,5,6,7}" using that by auto
  ultimately show ?thesis by (auto simp: blk_free_def)
qed

text \<open>C24. \<^verbatim>\<open>alloc_block_num\<close> on a mounted disk returns the first free block after the reserved ones,
  clears its bit and no other, leaves the cache mapping alone and writes the changed bitmap
  block to the disk; when no block is free it returns \<open>- E_NO_DISK\<close> and changes nothing.\<close>

theorem alloc_block_num_spec:
  assumes "fs_ready n s"
  shows "(\<exists>b s'. b \<in> {3..<n} \<and> blk_free s b \<and> (\<forall>c\<in>{3..<b}. \<not> blk_free s c) \<and>
      alloc_block_num s = Some (Inr (of_nat b), s') \<and> fs_ready n s' \<and>
      (\<forall>k<n. blk_free s' k \<longleftrightarrow> k \<noteq> b \<and> blk_free s k) \<and> pages s' = pages s \<and> synced (b div 32768 + 2) s')
    \<or> ((\<forall>b\<in>{3..<n}. \<not> blk_free s b) \<and> alloc_block_num s = Some (Inl (- E_NO_DISK), s))"
proof (cases "find (blk_free s) [3..<n]")
  case None
  moreover have "\<forall>b\<in>{3..<n}. \<not> blk_free s b" using None by (simp add: find_None_iff)
  ultimately show ?thesis by (simp add: alloc_block_num_eq [OF assms])
next
  case (Some b)
  have n: "n \<le> 0x40000" using assms by (simp add: fs_ready_def)
  have b: "b \<in> {3..<n}" "blk_free s b" "\<forall>c\<in>{3..<b}. \<not> blk_free s c"
  proof -
    obtain i where i: "i < n - 3" "blk_free s (3 + i)" "b = 3 + i" "\<forall>j<i. \<not> blk_free s (3 + j)"
      using Some by (auto simp: find_Some_iff)
    then show "b \<in> {3..<n}" "blk_free s b" by auto
    show "\<forall>c\<in>{3..<b}. \<not> blk_free s c"
    proof
      fix c assume "c \<in> {3..<b}"
      then have "c - 3 < i" "3 + (c - 3) = c" using i(3) by auto
      with i(4) show "\<not> blk_free s c" by metis
    qed
  qed
  have "synced (b div 32768 + 2) (take_block b s)" "pages (take_block b s) = pages s"
    unfolding take_block_def Let_def by (rule synced_write_sects) (simp add: put_word_def)
  with b n Some show ?thesis
    by (intro disjI1 exI [of _ b] exI [of _ "take_block b s"])
      (auto simp: alloc_block_num_eq [OF assms] take_block_ready [OF assms] blk_free_take_block)
qed

theorem alloc_block_num_spec_witness:
  "fs_ready 8 demo_fs \<and> (\<exists>b s'. b \<in> {3..<8} \<and> alloc_block_num demo_fs = Some (Inr (of_nat b), s') \<and>
     (\<forall>k<8. blk_free s' k \<longleftrightarrow> k \<noteq> b \<and> blk_free demo_fs k))"
  using alloc_block_num_spec [OF demo_fs_ready] demo_fs_ready demo_fs_free [of 4] by fastforce

text \<open>No block is handed out twice: after \<^verbatim>\<open>alloc_block_num\<close> returned \<open>b\<close>, a later call returns
  another block as long as \<open>b\<close> and the blocks in use then have not been freed; and freeing \<open>b\<close>
  right away restores the set of free blocks.\<close>

theorem alloc_block_num_unique:
  assumes "fs_ready n s" "alloc_block_num s = Some (Inr b, s1)"
  shows "(\<forall>s2 c s3. fs_ready n s2 \<and> (\<forall>k\<in>{3..<n}. blk_free s2 k \<longrightarrow> blk_free s1 k) \<and>
        alloc_block_num s2 = Some (Inr c, s3) \<longrightarrow> c \<noteq> b)
    \<and> (\<exists>s2. free_block b s1 = Some s2 \<and> fs_ready n s2 \<and> (\<forall>k\<in>{3..<n}. blk_free s2 k \<longleftrightarrow> blk_free s k))"
proof (intro conjI allI impI)
  have g: "block_grab s = (Some (unat b), s1)" using assms(2) by (simp add: block_grab_def)
  note f = blk.grab_fresh [OF assms(1) g]
  fix s2 c s3 assume *: "fs_ready n s2 \<and> (\<forall>k\<in>{3..<n}. blk_free s2 k \<longrightarrow> blk_free s1 k) \<and> alloc_block_num s2 = Some (Inr c, s3)"
  then have g': "block_grab s2 = (Some (unat c), s3)" by (simp add: block_grab_def)
  have "blk.busy n s1 \<subseteq> blk.busy n s2" using * by (auto simp: blk.busy_def)
  from blk.grab_distinct [OF assms(1) g _ this g'] * show "c \<noteq> b" by auto
next
  have g: "block_grab s = (Some (unat b), s1)" using assms(2) by (simp add: block_grab_def)
  note f = blk.grab_fresh [OF assms(1) g]
  have r: "free_block b s1 = Some (give_block (unat b) s1)"
    using free_block_eq [of n s1 "unat b"] f by simp
  then have e: "block_release (unat b) s1 = give_block (unat b) s1" by (simp add: block_release_def)
  have "fs_ready n (give_block (unat b) s1)" using blk.release_inv [of n s1 "unat b"] f e by simp
  moreover have "blk.busy n (give_block (unat b) s1) = blk.busy n s" using blk.grab_release [OF assms(1) g] e by simp
  then have "\<forall>k\<in>{3..<n}. blk_free (give_block (unat b) s1) k \<longleftrightarrow> blk_free s k" unfolding blk.busy_def by blast
  ultimately show "\<exists>s2. free_block b s1 = Some s2 \<and> fs_ready n s2 \<and> (\<forall>k\<in>{3..<n}. blk_free s2 k \<longleftrightarrow> blk_free s k)"
    using r by blast
qed

theorem alloc_block_num_unique_witness:
  "\<exists>b s1 s2. alloc_block_num demo_fs = Some (Inr b, s1) \<and> free_block b s1 = Some s2 \<and> fs_ready 8 s2 \<and> blk_free s2 4"
proof -
  have f: "find (blk_free demo_fs) [3..<8] = Some 4"
    by (simp add: upt_rec [of 3] upt_rec [of 4] demo_fs_free)
  let ?s1 = "take_block 4 demo_fs"
  have a: "alloc_block_num demo_fs = Some (Inr (of_nat 4), ?s1)"
    unfolding alloc_block_num_eq [OF demo_fs_ready] f by simp
  from alloc_block_num_unique [OF demo_fs_ready a] obtain s2 where
    "free_block (of_nat 4) ?s1 = Some s2" "fs_ready 8 s2" "\<forall>k\<in>{3..<8}. blk_free s2 k \<longleftrightarrow> blk_free demo_fs k" by blast
  with a demo_fs_free [of 4] show ?thesis by force
qed

text \<open>C25. A dirty block that is dropped from the cache and read again has the contents it had:
  \<^verbatim>\<open>unmap_block\<close> writes it back and \<^verbatim>\<open>read_block\<close> gets it from the disk, and no other byte of the
  server's memory changes.\<close>

theorem block_roundtrip:
  assumes "fs_ready n s" "n div 32768 + 2 < b" "b < n" "\<not> blk_free s b"
    and "block_is_dirty (of_nat b) s" "\<not> oom s (tick s)"
  shows "\<exists>s1 s2. unmap_block (of_nat b) s = Some s1 \<and> \<not> block_is_mapped (of_nat b) s1 \<and>
    read_block (of_nat b) s1 = Some (Inr (disk_addr (of_nat b), True), s2) \<and> mem s2 = mem s \<and>
    block_is_mapped (of_nat b) s2 \<and> fs_ready n s2"
proof -
  let ?va = "disk_addr (of_nat b)"
  have n: "n \<le> 0x40000" using assms(1) by (simp add: fs_ready_def)
  then have b: "b < 0xF0000" using assms(3) by simp
  have m: "block_is_mapped (of_nat b) s" using assms(5) by (simp add: block_is_dirty_def block_is_mapped_def Let_def)
  define w where "w = ide_write_sects (of_nat (8 * b)) ?va 8 s"
  define s1 where "s1 = mem_unmap ?va w"
  have u: "unmap_block (of_nat b) s = Some s1"
    using m assms(5) by (simp add: unmap_block_def block_is_free_eq [OF assms(1,3)] assms(4) write_block_def s1_def w_def mult.commute)
  have un: "\<not> block_is_mapped (of_nat b) s1"
    by (simp add: s1_def block_is_mapped_def va_is_mapped_def mem_unmap_def page_disk_addr [OF b])
  have r1: "fs_ready n s1" "\<not> blk_free s1 b"
  proof -
    have "block_is_mapped (of_nat c) s1" if "c \<in> {1..n div 32768 + 2}" for c
    proof -
      have "c < 0xF0000" "c \<noteq> b" using that n assms(2) by auto
      then show ?thesis
        using that fs_ready_mapped [OF assms(1), of c] b
        by (simp add: s1_def w_def block_is_mapped_def va_is_mapped_def mem_unmap_def page_disk_addr disk_addr_inject)
    qed
    then show "fs_ready n s1" using assms(1) by (simp add: fs_ready_def s1_def w_def mem_unmap_def)
    show "\<not> blk_free s1 b" using assms(4) by (simp add: blk_free_def s1_def w_def mem_unmap_def)
  qed
  define s2 where "s2 = ide_read_sects (of_nat (8 * b)) ?va 8 (snd (mem_alloc ?va PTE_D s1))"
  have o1: "\<not> oom s1 (tick s1)" using assms(6) by (simp add: s1_def w_def mem_unmap_def ide_write_sects_def)
  have rd: "read_block (of_nat b) s1 = Some (Inr (?va, True), s2)"
    unfolding read_block_eq [OF r1(1) assms(3) r1(2)] using un o1
    by (simp add: and_then_def mem_alloc_def s2_def mult.commute)
  have "synced b w" unfolding w_def by (rule synced_write_sects)
  have p2: "pages s2 = (pages s)(?va \<mapsto> PTE_D)"
    using assms(6) by (simp add: s2_def ide_read_sects_def mem_alloc_def s1_def mem_unmap_def w_def ide_write_sects_def page_disk_addr [OF b])
  have "mem s2 = mem w"
  proof -
    have "disk s1 = disk w" "mem s1 = mem w" by (simp_all add: s1_def mem_unmap_def)
    then have "mem s2 = mem (ide_read_sects (of_nat (8 * b)) ?va 8 (w\<lparr>mem := (\<lambda>a. if page_of a = ?va then 0 else mem w a)\<rparr>))"
      unfolding s2_def using o1 by (intro read_sects_cong) (simp_all add: mem_alloc_def page_disk_addr [OF b] fun_eq_iff)
    also have "\<dots> = mem w" by (rule read_back [OF b \<open>synced b w\<close>]) simp
    finally show ?thesis .
  qed
  then have m2: "mem s2 = mem s" by (simp add: w_def)
  moreover have "fs_ready n s2"
    using r1(1) m2 p2 by (auto simp: fs_ready_def s1_def w_def mem_unmap_def s2_def ide_read_sects_def mem_alloc_def
        block_is_mapped_def va_is_mapped_def page_disk_addr [OF b] assms(6))
  moreover have "block_is_mapped (of_nat b) s2" by (simp add: block_is_mapped_def va_is_mapped_def page_disk_addr [OF b] p2)
  ultimately show ?thesis using u un rd by blast
qed

theorem block_roundtrip_witness:
  "fs_ready 8 demo_fs \<and> (\<exists>s1 s2. unmap_block 3 demo_fs = Some s1 \<and> \<not> block_is_mapped 3 s1 \<and>
    read_block 3 s1 = Some (Inr (disk_addr 3, True), s2) \<and> mem s2 = mem demo_fs)"
proof -
  have "block_is_dirty (of_nat 3) demo_fs"
    by (simp add: block_is_dirty_def demo_fs_def disk_addr_def va_is_mapped_def va_is_dirty_def page_of_def PTE_D_def)
  moreover have "\<not> oom demo_fs (tick demo_fs)" by (simp add: demo_fs_def)
  ultimately show ?thesis
    using block_roundtrip [OF demo_fs_ready, of 3] demo_fs_free [of 3] demo_fs_ready by auto
qed

text \<open>The contents of a newly allocated block: \<^verbatim>\<open>alloc_block\<close> gives a zeroed page only when the
  block was not in the cache; a block that was freed while cached keeps the bytes of the file it
  belonged to, which then serve as the new file's data, directory entries or block pointers.\<close>

theorem alloc_block_contents:
  assumes "fs_ready n s" "find (blk_free s) [3..<n] = Some b" "n div 32768 + 2 < b" "\<not> oom s (tick s)"
  shows "\<exists>s'. alloc_block s = Some (Inr (of_nat b), s') \<and> block_is_mapped (of_nat b) s' \<and>
    (\<forall>k<4096. mem s' (disk_addr (of_nat b) + of_nat k) =
       (if block_is_mapped (of_nat b) s then mem s (disk_addr (of_nat b) + of_nat k) else 0))"
proof -
  let ?va = "disk_addr (of_nat b)" and ?t = "take_block b s"
  have n: "n \<le> 0x40000" using assms(1) by (simp add: fs_ready_def)
  have bn: "b < n" using assms(2) by (auto simp: find_Some_iff)
  then have b: "b < 0xF0000" using n by simp
  have p: "pages ?t = pages s" "oom ?t = oom s" "tick ?t = tick s"
    by (simp_all add: take_block_def put_word_def Let_def ide_write_sects_def)
  then have m: "block_is_mapped (of_nat b) ?t \<longleftrightarrow> block_is_mapped (of_nat b) s"
    by (simp add: block_is_mapped_def va_is_mapped_def)
  have same: "mem ?t (?va + of_nat k) = mem s (?va + of_nat k)" if "k < 4096" for k
  proof -
    have "unat (bitmap_word b) + 4 \<le> unat (?va + of_nat k)"
      using bn n that b assms(3) by (simp add: unat_bitmap_word unat_in_block)
    then have "4 \<le> unat (?va + of_nat k - bitmap_word b)" by (simp add: unat_sub_if')
    then show ?thesis by (simp add: take_block_def put_word_def Let_def st32_at)
  qed
  have a: "alloc_block s = (case map_block (of_nat b) ?t of
      (Inl e, s) \<Rightarrow> do { s \<leftarrow> free_block (of_nat b) s; Some (Inl e, s) } | (Inr _, s) \<Rightarrow> Some (Inr (of_nat b), s))"
    by (simp add: alloc_block_def alloc_block_num_eq [OF assms(1)] assms(2) and_then_def)
  show ?thesis
  proof (cases "block_is_mapped (of_nat b) s")
    case True
    then show ?thesis by (auto simp: a map_block_def m same)
  next
    case False
    let ?s = "snd (mem_alloc ?va PTE_D ?t)"
    have "alloc_block s = Some (Inr (of_nat b), ?s)"
      using False assms(4) by (simp add: a map_block_def m mem_alloc_def p)
    moreover have "block_is_mapped (of_nat b) ?s"
      using assms(4) by (simp add: mem_alloc_def p block_is_mapped_def va_is_mapped_def)
    moreover have "mem ?s (?va + of_nat k) = 0" if "k < 4096" for k
      using assms(4) by (simp add: mem_alloc_def p page_in_block [OF b that] page_disk_addr [OF b])
    ultimately show ?thesis using False by auto
  qed
qed

theorem alloc_block_contents_witness:
  "\<exists>s'. alloc_block demo_fs = Some (Inr 4, s') \<and> mem s' 0x10004001 = 7"
proof -
  have f: "find (blk_free demo_fs) [3..<8] = Some 4"
    by (simp add: upt_rec [of 3] upt_rec [of 4] demo_fs_free)
  have m: "block_is_mapped (of_nat 4) demo_fs" by (simp add: demo_fs_def block_is_mapped_def va_is_mapped_def)
  have "\<not> oom demo_fs (tick demo_fs)" by (simp add: demo_fs_def)
  with alloc_block_contents [OF demo_fs_ready f] obtain s' where s': "alloc_block demo_fs = Some (Inr (of_nat 4), s')"
    "\<forall>k<4096. mem s' (disk_addr (of_nat 4) + of_nat k) = mem demo_fs (disk_addr (of_nat 4) + of_nat k)"
    using m by auto
  from s'(2) [rule_format, of 1] have "mem s' 0x10004001 = mem demo_fs 0x10004001" by (simp add: disk_addr_def)
  with s'(1) show ?thesis by (simp add: demo_fs_def)
qed

end
