(* ===== verification/MOS_FsDisk.thy ===== *)
theory MOS_FsDisk
  imports MOS_Ide MOS_Blocks
begin

text \<open>
  The disk driver of \<^verbatim>\<open>fs/ide.c\<close> implements the sector transfers that the block cache of
  \<^verbatim>\<open>fs/fs.c\<close> is modelled with, for every controller that meets the contract \<open>ide_device\<close>.
\<close>

text \<open>C23. The driver refines the abstract transfers: whatever the controller, as long as it behaves
  like the PIO machine and does not stay busy for ever, \<^verbatim>\<open>ide_read\<close> and \<^verbatim>\<open>ide_write\<close> of \<open>n\<close> sectors
  return, and their effect on memory and on the sectors of disk 0 is that of \<open>ide_read_sects\<close> and
  \<open>ide_write_sects\<close>.\<close>

theorem ide_driver_refines:
  assumes "ide_device wr rd view delay"
    and "disk s = disk_view (view d) 0" "unat secno + n \<le> 2 ^ 28" "512 * n \<le> 2 ^ 32"
  shows "(\<exists>d'. ide_read wr rd 0 secno va (of_nat n) (mem s) d = Some (mem (ide_read_sects secno va n s), d') \<and>
      disk_view (view d') 0 = disk s)
    \<and> (\<exists>d'. ide_write wr rd 0 secno va (of_nat n) (mem s) d = Some d' \<and>
      disk_view (view d') 0 = disk (ide_write_sects secno va n s))"
proof (intro conjI)
  have z: "(0 :: u32) < 2" by simp
  obtain d' where d': "ide_read_loop wr rd 0 secno (secno + of_nat n) va 0 (mem s) d =
      Some (\<lambda>x. let k = unat (x - (va + 0)) in
        if k < 512 * n then disk_view (view d) 0 (secno + of_nat (k div 512)) (k mod 512) else mem s x, d')"
      "sectors (view d') = sectors (view d)"
    using ide_device.read_loop_ok [OF assms(1) z assms(3,4), of va 0 "mem s" d] by blast
  then have "ide_read wr rd 0 secno va (of_nat n) (mem s) d = Some (mem (ide_read_sects secno va n s), d')"
    by (simp add: ide_read_def ide_read_sects_def assms(2) add.commute Let_def fun_eq_iff)
  moreover have "disk_view (view d') 0 = disk s" using d'(2) by (simp add: disk_view_def assms(2) fun_eq_iff)
  ultimately show "\<exists>d'. ide_read wr rd 0 secno va (of_nat n) (mem s) d = Some (mem (ide_read_sects secno va n s), d') \<and>
      disk_view (view d') 0 = disk s" by blast
next
  have z: "(0 :: u32) < 2" by simp
  obtain d' where "ide_write_loop wr rd 0 secno (secno + of_nat n) va 0 (mem s) d = Some d'"
    "disk_view (view d') = (disk_view (view d))(0 := (\<lambda>sec o'. let k = unat (sec - secno) in
       if k < n \<and> o' < 512 then mem s (va + 0 + of_nat (512 * k + o')) else disk_view (view d) 0 sec o'))"
    using ide_device.write_loop_ok [OF assms(1) z assms(3), of va 0 "mem s" d] by blast
  then show "\<exists>d'. ide_write wr rd 0 secno va (of_nat n) (mem s) d = Some d' \<and>
      disk_view (view d') 0 = disk (ide_write_sects secno va n s)"
    by (simp add: ide_write_def ide_write_sects_def assms(2) add.commute [of "of_nat n"] Let_def fun_eq_iff)
qed

text \<open>The witness: the controller that is busy for three status reads after each command, with a
  sector number in every word of the disk.\<close>

definition demo_ide :: "nat \<times> ide_state" where
  "demo_ide = (2, \<lparr>lbal = 0, lbam = 0, lbah = 0, drive = 0, phase = Idle, sectors = (\<lambda>_ sec _. sec)\<rparr>)"

theorem ide_driver_refines_witness:
  "\<exists>d' d''. let s = demo_fs\<lparr>disk := disk_view (snd demo_ide) 0\<rparr> in
     ide_read slow_wr slow_rd 0 8 0x10001000 8 (mem s) demo_ide = Some (mem (ide_read_sects 8 0x10001000 8 s), d') \<and>
     ide_write slow_wr slow_rd 0 8 0x10001000 8 (mem s) demo_ide = Some d'' \<and>
     disk_view (snd d'') 0 = disk (ide_write_sects 8 0x10001000 8 s)"
  using ide_driver_refines [OF slow.ide_device_axioms, of "demo_fs\<lparr>disk := disk_view (snd demo_ide) 0\<rparr>" demo_ide 8 8 "0x10001000"]
  by auto

end
