(* ===== verification/MOS_Paths.thy ===== *)
theory MOS_Paths
  imports MOS_Blocks
begin

text \<open>
  Paths of \<^verbatim>\<open>fs/fs.c\<close>: the pointer loop of \<^verbatim>\<open>walk_path\<close> against the list of path components, and
  file nodes with holes.
\<close>

section \<open>Components of a path\<close>

text \<open>The pieces between the slashes, empty ones dropped.\<close>

fun split_path :: "u8 list \<Rightarrow> u8 list list" where
  "split_path [] = [[]]"
| "split_path (c # cs) = (if c = 0x2F then [] # split_path cs else (c # hd (split_path cs)) # tl (split_path cs))"

definition components :: "u8 list \<Rightarrow> u8 list list" where
  "components p = filter (\<lambda>n. n \<noteq> []) (split_path p)"

text \<open>The walk over a list of names.\<close>

primrec walk_names :: "u8 list list \<Rightarrow> u32 \<Rightarrow> u32 \<Rightarrow> fss \<Rightarrow> (walk_result \<times> fss) option" where
  "walk_names [] dir file s = Some ((0, dir, file, []), s)"
| "walk_names (name # rest) dir file s =
    (if MAXNAMELEN \<le> length name then Some ((- E_BAD_PATH, 0, 0, []), s)
     else do {
       ty \<leftarrow> rd32 (f_type_of file) s;
       if ty \<noteq> FTYPE_DIR then Some ((- E_NOT_FOUND, 0, 0, []), s)
       else
         case dir_lookup file name s of
           None \<Rightarrow> None
         | Some (Inl e, s) \<Rightarrow>
             if e = - E_NOT_FOUND \<and> rest = [] then Some ((e, file, 0, name), s) else Some ((e, 0, 0, []), s)
         | Some (Inr f, s) \<Rightarrow> walk_names rest file f s
     })"

lemma split_path_nonempty [simp]: "split_path p \<noteq> []"
  by (cases p) auto

lemma split_path_eq:
  "split_path p = takeWhile (\<lambda>c. c \<noteq> 0x2F) p # (case dropWhile (\<lambda>c. c \<noteq> 0x2F) p of [] \<Rightarrow> [] | _ # q \<Rightarrow> split_path q)"
  by (induction p) auto

lemma components_slash [simp]: "components (0x2F # p) = components p"
  by (simp add: components_def)

lemma components_skip_slash: "components (skip_slash p) = components p"
  by (induction p) (auto simp: skip_slash_def)

lemma components_first:
  assumes "p \<noteq> []" "hd p \<noteq> 0x2F"
  shows "components p = takeWhile (\<lambda>c. c \<noteq> 0x2F) p # components (dropWhile (\<lambda>c. c \<noteq> 0x2F) p)"
proof -
  have ne: "takeWhile (\<lambda>c. c \<noteq> 0x2F) p \<noteq> []" using assms by (cases p) auto
  show ?thesis
  proof (cases "dropWhile (\<lambda>c. c \<noteq> 0x2F) p")
    case Nil
    have "split_path p = [takeWhile (\<lambda>c. c \<noteq> 0x2F) p]" unfolding split_path_eq [of p] Nil by simp
    moreover have "components (dropWhile (\<lambda>c. c \<noteq> 0x2F) p) = []" unfolding Nil by (simp add: components_def)
    ultimately show ?thesis using ne by (simp add: components_def)
  next
    case (Cons c q)
    then have "c = 0x2F" using hd_dropWhile [of "\<lambda>c. c \<noteq> 0x2F" p] by auto
    have "split_path p = takeWhile (\<lambda>c. c \<noteq> 0x2F) p # split_path q" unfolding split_path_eq [of p] Cons by simp
    with ne show ?thesis unfolding Cons \<open>c = 0x2F\<close> by (simp add: components_def)
  qed
qed

lemma skip_slash_hd: "skip_slash p \<noteq> [] \<Longrightarrow> hd (skip_slash p) \<noteq> 0x2F"
  unfolding skip_slash_def using hd_dropWhile by blast

lemma skip_slash_Nil: "skip_slash p = [] \<longleftrightarrow> components p = []"
proof (cases "skip_slash p = []")
  case True
  then show ?thesis using components_skip_slash [of p] by (simp add: components_def)
next
  case False
  then show ?thesis
    using components_first [OF False skip_slash_hd [OF False]] components_skip_slash [of p] by simp
qed

lemma walk_loop_names:
  "p = [] \<or> hd p \<noteq> 0x2F \<Longrightarrow> walk_loop dir fl p s = walk_names (components p) dir fl s"
proof (induction dir fl p s rule: walk_loop.induct)
  case (1 dir fl path s)
  show ?case
  proof (cases "path = []")
    case True
    then show ?thesis by (subst walk_loop.simps) (simp add: components_def)
  next
    case False
    define name where "name = takeWhile (\<lambda>c. c \<noteq> 0x2F) path"
    define rest where "rest = skip_slash (dropWhile (\<lambda>c. c \<noteq> 0x2F) path)"
    have c: "components path = name # components rest"
      using components_first [OF False] 1(2) False by (simp add: name_def rest_def components_skip_slash)
    have e: "rest = [] \<longleftrightarrow> components rest = []"
      using skip_slash_Nil [of "dropWhile (\<lambda>c. c \<noteq> 0x2F) path"] by (simp add: rest_def components_skip_slash)
    have IH: "walk_loop fl f rest s' = walk_names (components rest) fl f s'"
      if "length name < MAXNAMELEN" "rd32 (f_type_of fl) s = Some FTYPE_DIR" "dir_lookup fl name s = Some (Inr f, s')" for f s'
      using 1(1) [OF False refl name_def refl _ rest_def that(2) _ that(3)] that(1)
        skip_slash_hd [of "dropWhile (\<lambda>c. c \<noteq> 0x2F) path"] by (auto simp: rest_def name_def)
    show ?thesis
      using False IH
      by (subst walk_loop.simps) (auto simp: Let_def name_def [symmetric] rest_def [symmetric] c e
        split: bind_splits option.splits sum.splits)
  qed
qed

text \<open>C26. \<^verbatim>\<open>walk_path\<close>, which moves a pointer along the string, is the walk over the components of
  the path: leading, repeated and trailing slashes make no difference, each name is looked up in
  the file the previous ones lead to, and the result, the directory, the last element and the
  effect on the server are those of the walk, errors included.\<close>

theorem walk_path_components: "walk_path path s = walk_names (components path) 0 (super s + 8) s"
  unfolding walk_path_def
  using walk_loop_names [of "skip_slash path" 0 "super s + 8" s] skip_slash_hd [of path]
  by (auto simp: components_skip_slash)

section \<open>Files with holes\<close>

lemma unat_ROUND_blocks:
  assumes "sz \<le> 2 ^ 22"
  shows "unat (ROUND sz BLOCK_SIZE div BLOCK_SIZE) = (unat sz + 4095) div 4096"
proof -
  have u: "unat sz \<le> 2 ^ 22" using assms by (simp add: word_le_nat_alt)
  have "ROUND sz BLOCK_SIZE = page_of (sz + 4095)" by (simp add: ROUND_def page_of_def add.commute)
  moreover have "unat (sz + 4095) = unat sz + 4095" using u by (subst unat_add_lem [THEN iffD1]) simp_all
  ultimately show ?thesis by (simp add: unat_div_distrib unat_page_of)
qed

text \<open>An empty file node at \<open>f\<close> of the directory \<open>dir\<close>: no blocks and no block of links, and \<^verbatim>\<open>f_dir\<close> as
  \<^verbatim>\<open>dir_lookup\<close> sets it.\<close>

definition blank_node :: "u32 \<Rightarrow> u32 \<Rightarrow> fss \<Rightarrow> bool" where
  "blank_node f dir s \<longleftrightarrow> (\<forall>i<10. ld32 (mem s) (f_direct_of f (of_nat i)) = 0) \<and> ld32 (mem s) (f_indirect_of f) = 0 \<and>
     ld32 (mem s) (f_dir_of f) = dir \<and> (\<forall>k<256. va_is_mapped (f + of_nat k) s)"

text \<open>A directory node at \<open>d\<close>, cached, of at most ten blocks, that is without a block of links.\<close>

definition small_dir :: "u32 \<Rightarrow> fss \<Rightarrow> bool" where
  "small_dir d s \<longleftrightarrow> d \<noteq> 0 \<and> ld32 (mem s) (f_size_of d) \<le> 40960 \<and> (\<forall>k<256. va_is_mapped (d + of_nat k) s)"

text \<open>Two nodes that do not overlap.\<close>

definition nodes_apart :: "u32 \<Rightarrow> u32 \<Rightarrow> bool" where
  "nodes_apart f d \<longleftrightarrow> 256 \<le> unat (f - d) \<and> 256 \<le> unat (d - f)"

lemma disk_update_simps [simp]:
  "blank_node f dir (s\<lparr>disk := dk\<rparr>) = blank_node f dir s" "small_dir d (s\<lparr>disk := dk\<rparr>) = small_dir d s"
  by (simp_all add: blank_node_def small_dir_def va_is_mapped_def)

text \<open>Flushing such a directory writes back what is dirty and returns; only the disk changes.\<close>

lemma flush_small_dir:
  assumes d: "small_dir d s"
  obtains dk where "file_flush d s = Some (s\<lparr>disk := dk\<rparr>)"
proof -
  let ?body = "\<lambda>bno s. do {
     (r, s) \<leftarrow> file_map_block d (of_nat bno) False s;
     case r of Inl _ \<Rightarrow> Some s
     | Inr diskno \<Rightarrow> if block_is_dirty diskno s then write_block diskno s else Some s }"
  have m: "va_is_mapped (d + of_nat k) s" if "k < 256" for k using d that by (simp add: small_dir_def)
  have step: "\<exists>dk'. ?body bno (s\<lparr>disk := dk\<rparr>) = Some (s\<lparr>disk := dk'\<rparr>)" if "bno < 10" for bno dk
  proof -
    let ?s = "s\<lparr>disk := dk\<rparr>" and ?b = "ld32 (mem s) (f_direct_of d (of_nat bno))"
    have "va_is_mapped (f_direct_of d (of_nat bno)) s" using m [of "136 + 4 * bno"] that by (simp add: add.assoc)
    then have "rd32 (f_direct_of d (of_nat bno)) ?s = Some ?b" by (simp add: rd32_def va_is_mapped_def)
    moreover have "(of_nat bno :: u32) < 10" using that by (simp add: word_less_nat_alt unat_of_nat)
    ultimately have "file_map_block d (of_nat bno) False ?s =
        Some (if ?b = 0 then Inl (- E_NOT_FOUND) else Inr ?b, ?s)"
      by (simp add: file_map_block_def file_block_walk_def and_then_def)
    moreover have "\<exists>dk'. write_block ?b ?s = Some (s\<lparr>disk := dk'\<rparr>)" if "block_is_dirty ?b ?s"
      using that by (auto simp: block_is_dirty_def Let_def write_block_def block_is_mapped_def ide_write_sects_def)
    ultimately show ?thesis by auto
  qed
  have loop: "\<exists>dk'. foldM ?body ns (s\<lparr>disk := dk\<rparr>) = Some (s\<lparr>disk := dk'\<rparr>)" if "set ns \<subseteq> {..<10}" for ns dk
    using that
  proof (induction ns arbitrary: dk)
    case (Cons n ns)
    obtain dk1 where "?body n (s\<lparr>disk := dk\<rparr>) = Some (s\<lparr>disk := dk1\<rparr>)" using step [of n dk] Cons.prems by auto
    with Cons.IH [of dk1] Cons.prems show ?case by simp
  qed auto
  have sz: "ld32 (mem s) (f_size_of d) \<le> 40960" "rd32 (f_size_of d) s = Some (ld32 (mem s) (f_size_of d))"
    using d m [of 128] by (simp_all add: small_dir_def rd32_def)
  then have "unat (ld32 (mem s) (f_size_of d)) \<le> 40960" by (simp add: word_le_nat_alt)
  moreover have "ld32 (mem s) (f_size_of d) \<le> 2 ^ 22" using sz(1) by (rule order_trans) simp
  ultimately have "unat (ROUND (ld32 (mem s) (f_size_of d)) BLOCK_SIZE div BLOCK_SIZE) \<le> 10"
    by (simp add: unat_ROUND_blocks)
  then have "set [0..<unat (ROUND (ld32 (mem s) (f_size_of d)) BLOCK_SIZE div BLOCK_SIZE)] \<subseteq> {..<10}" by auto
  from loop [OF this, of "disk s"] obtain dk where "file_flush d s = Some (s\<lparr>disk := dk\<rparr>)"
    by (auto simp: file_flush_def sz(2) Let_def)
  then show thesis by (rule that)
qed

lemma blank_node_rd32:
  assumes "blank_node f dir s"
  shows "i < 10 \<Longrightarrow> rd32 (f_direct_of f (of_nat i)) s = Some 0" "rd32 (f_indirect_of f) s = Some 0"
    "rd32 (f_dir_of f) s = Some dir" "rd32 (f_size_of f) s = Some (ld32 (mem s) (f_size_of f))" "va_is_mapped (f_size_of f) s"
proof -
  have m: "va_is_mapped (f + of_nat k) s" if "k < 256" for k using assms that by (simp add: blank_node_def)
  show "rd32 (f_indirect_of f) s = Some 0" "rd32 (f_dir_of f) s = Some dir" "rd32 (f_size_of f) s = Some (ld32 (mem s) (f_size_of f))"
    "va_is_mapped (f_size_of f) s"
    using assms m [of 176] m [of 180] m [of 128] by (simp_all add: rd32_def blank_node_def)
  show "rd32 (f_direct_of f (of_nat i)) s = Some 0" if "i < 10"
    using assms m [of "136 + 4 * i"] that by (simp add: rd32_def blank_node_def add.assoc)
qed

lemma blank_node_set_size:
  assumes "blank_node f dir s"
  shows "\<exists>s'. wr32 (f_size_of f) sz s = Some s' \<and> blank_node f dir s' \<and> ld32 (mem s') (f_size_of f) = sz \<and>
    (\<forall>d. nodes_apart f d \<longrightarrow> small_dir d s \<longrightarrow> small_dir d s')"
proof -
  let ?s = "s\<lparr>mem := st32 (f_size_of f) sz (mem s)\<rparr>"
  have apart: "ld32 (mem ?s) (f + of_nat k) = ld32 (mem s) (f + of_nat k)" if "132 \<le> k" "k < 256" for k
  proof -
    have "unat (of_nat k :: u32) = k" using that by (simp add: unat_of_nat)
    moreover have "f + of_nat k - f_size_of f = of_nat k - 128" "f_size_of f - (f + of_nat k) = 128 - of_nat k" by simp_all
    ultimately have "4 \<le> unat (f + of_nat k - f_size_of f)" "4 \<le> unat (f_size_of f - (f + of_nat k))"
      using that by (simp_all add: unat_sub_if')
    then show ?thesis using that by (simp add: ld32_st32_other)
  qed
  have "blank_node f dir ?s"
    using assms apart [of 176] apart [of 180] apart [of "136 + 4 * i" for i]
    unfolding blank_node_def by (simp add: va_is_mapped_def add.assoc)
  moreover have "small_dir d ?s" if "nodes_apart f d" "small_dir d s" for d
  proof -
    have "ld32 (mem ?s) (f_size_of d) = ld32 (mem s) (f_size_of d)"
      using that(1) ld32_st32_other [of "f_size_of d" "f_size_of f"] by (simp add: nodes_apart_def)
    then show ?thesis using that(2) by (simp add: small_dir_def va_is_mapped_def)
  qed
  ultimately show ?thesis using blank_node_rd32(5) [OF assms] by (simp add: wr32_def ld32_st32)
qed

lemma clear_blank: "blank_node f dir s \<Longrightarrow> i < 10 \<Longrightarrow> file_clear_block f (of_nat i) s = Some (Inr (), s)"
  using blank_node_rd32(1) [of f dir s i]
  by (simp add: file_clear_block_def file_block_walk_def and_then_def word_less_nat_alt unat_of_nat)

lemma clear_blocks_blank: "blank_node f dir s \<Longrightarrow> n \<le> 10 \<Longrightarrow> clear_blocks f 0 n s = Some s"
  by (induction n) (simp_all add: clear_blocks_def foldM_append clear_blank)

lemma truncate_sparse:
  assumes "blank_node f dir s" "40960 < ld32 (mem s) (f_size_of f)" "ld32 (mem s) (f_size_of f) \<le> 2 ^ 22"
  shows "file_truncate f 0 s = None"
proof -
  let ?n = "(unat (ld32 (mem s) (f_size_of f)) + 4095) div 4096"
  have "40960 < unat (ld32 (mem s) (f_size_of f))" using assms(2) by (simp add: word_less_nat_alt)
  then have "11 \<le> ?n" by simp
  then have split: "[0..<?n] = [0..<10] @ 10 # [11..<?n]"
    using upt_add_eq_append [of 0 10 "?n - 10"] upt_conv_Cons [of 10 ?n] by simp
  have ten: "file_clear_block f (of_nat 10) s = Some (Inl (- E_NOT_FOUND), s)"
    using blank_node_rd32(2) [OF assms(1)]
    by (simp add: file_clear_block_def file_block_walk_def and_then_def)
  have "clear_blocks f 0 ?n s = None"
    using clear_blocks_blank [OF assms(1), of 10] ten unfolding clear_blocks_def split foldM_append by simp
  then show ?thesis
    by (simp add: file_truncate_def blank_node_rd32(4) [OF assms(1)] unat_ROUND_blocks [OF assms(3)])
qed

text \<open>C40. A client can stop the file server: let \<open>f\<close> be an empty file as \<^verbatim>\<open>file_open\<close> returns it, with
  \<^verbatim>\<open>f_dir\<close> the directory it is in, of at most ten blocks (160 entries). Growing it past the direct blocks with
  \<^verbatim>\<open>file_set_size\<close>, which also flushes the directory, succeeds without allocating anything, and the next
  \<^verbatim>\<open>file_truncate\<close> to 0 (on \<^verbatim>\<open>remove\<close> or \<^verbatim>\<open>O_TRUNC\<close>) panics, because \<^verbatim>\<open>file_clear_block\<close> reports the missing
  block of links as an error.\<close>

theorem sparse_file_panics:
  assumes "blank_node f dir s" "small_dir dir s" "nodes_apart f dir" "ld32 (mem s) (f_size_of f) = 0"
    and "40960 < sz" "sz \<le> 2 ^ 22"
  shows "\<exists>s'. file_set_size f sz s = Some (Inr (), s') \<and> file_truncate f 0 s' = None"
proof -
  obtain s1 where s1: "wr32 (f_size_of f) sz s = Some s1" "blank_node f dir s1" "ld32 (mem s1) (f_size_of f) = sz" "small_dir dir s1"
    using blank_node_set_size [OF assms(1)] assms(2,3) by blast
  obtain dk where fl: "file_flush dir s1 = Some (s1\<lparr>disk := dk\<rparr>)" by (rule flush_small_dir [OF s1(4)])
  have "dir \<noteq> 0" using assms(2) by (simp add: small_dir_def)
  then have "file_set_size f sz s = Some (Inr (), s1\<lparr>disk := dk\<rparr>)"
    by (simp add: file_set_size_def blank_node_rd32(4) [OF assms(1)] assms(4) s1(1) flush_dir_def blank_node_rd32(3) [OF s1(2)] fl)
  moreover have "file_truncate f 0 (s1\<lparr>disk := dk\<rparr>) = None"
    by (rule truncate_sparse) (use s1 assms(5,6) in simp_all)
  ultimately show ?thesis by blast
qed

text \<open>A disk whose root directory has one block, block 3, with one empty file, \<^verbatim>\<open>a\<close>. A client that opens it, sets its
  size and truncates it stops the server.\<close>

definition empty_file_fs :: fss where
  "empty_file_fs = demo_fs\<lparr>mem := (\<lambda>_. 0)(0x10001004 := 8, 0x10002000 := 0xF0, 0x10001089 := 0x10, 0x1000108C := 1,
     0x10001090 := 3, 0x10003000 := 0x61)\<rparr>"

abbreviation opened_file_fs :: fss where
  "opened_file_fs \<equiv> empty_file_fs\<lparr>mem := st32 0x100030B4 0x10001008 (mem empty_file_fs)\<rparr>"

lemma find_file_first: "cstr m blk name \<Longrightarrow> find_file m blk name = Some blk"
  by (simp add: find_file_def upt_conv_Cons [of 0])

lemma open_empty_file: "file_open [0x61] empty_file_fs = Some (Inr 0x10003000, opened_file_fs)"
  by (simp add: file_open_def walk_path_def walk_loop.simps skip_slash_def empty_file_fs_def demo_fs_def rd32_def
      va_is_mapped_def ld32_def dir_lookup_def file_get_block_def file_map_block_def file_block_walk_def and_then_def
      read_block_def block_is_free_def block_is_mapped_def disk_addr_def find_file_first wr32_def Let_def)

lemma opened_file_blank:
  "blank_node 0x10003000 0x10001008 opened_file_fs" "small_dir 0x10001008 opened_file_fs"
  "nodes_apart 0x10003000 0x10001008" "ld32 (mem opened_file_fs) (f_size_of 0x10003000) = 0"
proof -
  have z: "mem opened_file_fs (0x10003000 + of_nat k) = 0" if "0 < k" "k < 180" for k
  proof -
    have u: "unat (0x10003000 + of_nat k :: u32) = 0x10003000 + k"
      using that by (subst unat_add_lem [THEN iffD1]) (simp_all add: unat_of_nat)
    have "0x10003000 + of_nat k \<noteq> (a :: u32)" if "unat a \<le> 0x10003000 \<or> 0x100030B4 \<le> unat a" for a
      using that \<open>0 < k\<close> \<open>k < 180\<close> u by auto
    moreover have "(of_nat k :: u32) \<noteq> 0" using that by (simp add: word_unat_eq_iff unat_of_nat)
    ultimately show ?thesis by (simp add: empty_file_fs_def st32_def)
  qed
  have l: "ld32 (mem opened_file_fs) (0x10003000 + of_nat k) = 0" if "0 < k" "k \<le> 176" for k
    using that z [of k] z [of "k + 1"] z [of "k + 2"] z [of "k + 3"] by (simp add: ld32_def add.assoc)
  have "ld32 (mem opened_file_fs) (f_dir_of 0x10003000) = 0x10001008" by (simp add: ld32_st32)
  then show "blank_node 0x10003000 0x10001008 opened_file_fs"
    using l [of 176] l [of "136 + 4 * i" for i]
    by (simp add: blank_node_def va_is_mapped_def add.assoc) (simp add: empty_file_fs_def demo_fs_def)
  show "small_dir 0x10001008 opened_file_fs"
    by (simp add: small_dir_def empty_file_fs_def demo_fs_def va_is_mapped_def ld32_def st32_def)
  show "nodes_apart 0x10003000 0x10001008" by (simp add: nodes_apart_def)
  show "ld32 (mem opened_file_fs) (f_size_of 0x10003000) = 0"
    by (simp add: empty_file_fs_def demo_fs_def ld32_def st32_def)
qed

theorem sparse_file_panics_witness:
  "\<exists>f s s'. file_open [0x61] empty_file_fs = Some (Inr f, s) \<and>
    file_set_size f 50000 s = Some (Inr (), s') \<and> file_truncate f 0 s' = None"
  using open_empty_file sparse_file_panics [OF opened_file_blank, of 50000] by auto

end
