(* ===== verification/MOS_Serv.thy ===== *)
theory MOS_Serv
  imports MOS_Blocks
begin

text \<open>
  The file system server's requests: \<^verbatim>\<open>fs/serv.c\<close>, \<^verbatim>\<open>user/include/fsreq.h\<close>,
  \<^verbatim>\<open>user/lib/pageref.c\<close>.

  \<open>pref\<close> is the reference count the kernel shows for the physical page the server has mapped at
  an address: 1 when only the server has it, more while clients share it. A message sent with
  \<^verbatim>\<open>ipc_send\<close> is appended to \<open>sent\<close> as receiver, value, page address (0 for none) and permission;
  sending a page adds the receiver's reference. Only the counts of the descriptor pages are read, so
  those of cached blocks are not kept up when a block enters or leaves the cache. The request a client makes is a \<open>request\<close>, the
  contents of the argument page.
\<close>

record open_file =
  o_file :: u32
  o_fileid :: u32
  o_mode :: u32
  o_ff :: u32

type_synonym message = "u32 \<times> u32 \<times> u32 \<times> u32"

record srv =
  fs :: fss
  opentab :: "nat \<Rightarrow> open_file"
  pref :: "u32 \<Rightarrow> nat"
  sent :: "message list"

datatype request =
    Fsreq_open "u8 list" u32
  | Fsreq_map u32 u32
  | Fsreq_set_size u32 u32
  | Fsreq_close u32
  | Fsreq_dirty u32 u32
  | Fsreq_remove "u8 list"
  | Fsreq_sync

abbreviation MAXOPEN :: nat where "MAXOPEN \<equiv> 1024"
abbreviation FILEVA :: u32 where "FILEVA \<equiv> 0x60000000"
abbreviation O_CREAT :: u32 where "O_CREAT \<equiv> 0x100"
abbreviation O_TRUNC :: u32 where "O_TRUNC \<equiv> 0x200"
abbreviation O_APPEND :: u32 where "O_APPEND \<equiv> 4"
abbreviation O_MKDIR :: u32 where "O_MKDIR \<equiv> 0x800"

definition serve_init :: "srv \<Rightarrow> srv" where
  "serve_init s = s\<lparr>opentab := (\<lambda>i. if i < MAXOPEN
     then (opentab s i)\<lparr>o_fileid := of_nat i, o_ff := FILEVA + of_nat i * BLOCK_SIZE\<rparr> else opentab s i)\<rparr>"

text \<open>The count of a page that is not mapped is 0.\<close>

definition pageref :: "u32 \<Rightarrow> srv \<Rightarrow> nat" where
  "pageref va s = (if va_is_mapped va (fs s) then pref s (page_of va) else 0)"

definition ipc_send :: "u32 \<Rightarrow> u32 \<Rightarrow> u32 \<Rightarrow> u32 \<Rightarrow> srv \<Rightarrow> srv" where
  "ipc_send whom val srcva perm s = s\<lparr>sent := sent s @ [(whom, val, srcva, perm)],
     pref := (if srcva = 0 then pref s else (pref s)(page_of srcva := pref s (page_of srcva) + 1))\<rparr>"

definition send_err :: "u32 \<Rightarrow> int \<Rightarrow> srv \<Rightarrow> srv option" where
  "send_err envid r s = Some (ipc_send envid (of_int r) 0 0 s)"

section \<open>Open files\<close>

definition clear_page :: "u32 \<Rightarrow> fss \<Rightarrow> fss" where
  "clear_page va s = s\<lparr>mem := (\<lambda>a. if page_of a = va then 0 else mem s a)\<rparr>"

text \<open>Case 0 falls through to case 1.\<close>

primrec open_scan :: "nat \<Rightarrow> nat \<Rightarrow> srv \<Rightarrow> (nat res \<times> srv) option" where
  "open_scan 0 i s = Some (Inl (- E_MAX_OPEN), s)"
| "open_scan (Suc k) i s =
    (let ff = o_ff (opentab s i); r = pageref ff s in
     if r = 0 then
       (case mem_alloc ff (PTE_D OR PTE_LIBRARY) (fs s) of
          (Inl e, f) \<Rightarrow> Some (Inl e, s\<lparr>fs := f\<rparr>)
        | (Inr _, f) \<Rightarrow> Some (Inr i, s\<lparr>fs := clear_page ff f, pref := (pref s)(page_of ff := 1)\<rparr>))
     else if r = 1 then Some (Inr i, s\<lparr>fs := clear_page ff (fs s)\<rparr>)
     else open_scan k (i + 1) s)"

definition open_alloc :: "srv \<Rightarrow> (nat res \<times> srv) option" where
  "open_alloc s = open_scan MAXOPEN 0 s"

definition open_lookup :: "u32 \<Rightarrow> u32 \<Rightarrow> srv \<Rightarrow> nat res" where
  "open_lookup envid fileid s =
    (if of_nat MAXOPEN \<le> fileid then Inl (- E_INVAL)
     else let o1 = opentab s (unat fileid) in
       if pageref (o_ff o1) s \<le> 1 then Inl (- E_INVAL) else Inr (unat fileid))"

section \<open>Requests\<close>

text \<open>Running an operation of \<^verbatim>\<open>fs.c\<close> on the server's state.\<close>

definition with_fs :: "(fss \<Rightarrow> ('a \<times> fss) option) \<Rightarrow> srv \<Rightarrow> ('a \<times> srv) option" where
  "with_fs f s = do { (r, f) \<leftarrow> f (fs s); Some (r, s\<lparr>fs := f\<rparr>) }"

definition do_fs :: "(fss \<Rightarrow> fss option) \<Rightarrow> srv \<Rightarrow> srv option" where
  "do_fs f s = do { f \<leftarrow> f (fs s); Some (s\<lparr>fs := f\<rparr>) }"

text \<open>The creation step of \<^verbatim>\<open>serve_open\<close> for one of the two mode bits: \<open>Some e\<close> is an error other
  than \<open>- E_FILE_EXISTS\<close>.\<close>

definition create_if :: "bool \<Rightarrow> u8 list \<Rightarrow> srv \<Rightarrow> (int option \<times> srv) option" where
  "create_if b path s =
    (if b then do {
       (r, s) \<leftarrow> with_fs (file_create path) s;
       Some (case r of Inl e \<Rightarrow> if e \<noteq> - E_FILE_EXISTS then Some e else None | Inr _ \<Rightarrow> None, s)
     } else Some (None, s))"

text \<open>\<^verbatim>\<open>ff->f_file = *f\<close>, a copy of 256 bytes to offset 16 of the descriptor page.\<close>

definition copy_file :: "u32 \<Rightarrow> u32 \<Rightarrow> fss \<Rightarrow> fss option" where
  "copy_file ff f s = foldM (\<lambda>i s. do { b \<leftarrow> rd8 (f + of_nat i) s; wr8 (ff + 16 + of_nat i) b s }) [0..<256] s"

definition fill_filefd :: "u32 \<Rightarrow> u32 \<Rightarrow> u32 \<Rightarrow> u32 \<Rightarrow> fss \<Rightarrow> fss option" where
  "fill_filefd ff f fileid mode s = do {
     s \<leftarrow> copy_file ff f s;
     s \<leftarrow> wr32 (ff + 12) fileid s;
     s \<leftarrow> wr32 (ff + 8) mode s;
     s \<leftarrow> wr32 ff 0x66 s;
     if mode AND O_APPEND \<noteq> 0 then do {
       sz \<leftarrow> rd32 (f_size_of (ff + 16)) s;
       wr32 (ff + 4) sz s
     } else Some s
   }"

definition serve_open :: "u32 \<Rightarrow> u8 list \<Rightarrow> u32 \<Rightarrow> srv \<Rightarrow> srv option" where
  "serve_open envid path omode s = do {
     (r, s) \<leftarrow> open_alloc s;
     case r of
       Inl e \<Rightarrow> send_err envid e s
     | Inr i \<Rightarrow> do {
         (r, s) \<leftarrow> create_if (omode AND O_MKDIR \<noteq> 0) path s;
         case r of Some e \<Rightarrow> send_err envid e s
         | None \<Rightarrow> do {
             (r, s) \<leftarrow> create_if (omode AND O_CREAT \<noteq> 0) path s;
             case r of Some e \<Rightarrow> send_err envid e s
             | None \<Rightarrow> do {
                 (r, s) \<leftarrow> with_fs (file_open path) s;
                 case r of Inl e \<Rightarrow> send_err envid e s
                 | Inr f \<Rightarrow> do {
                     s \<leftarrow> (if omode AND O_MKDIR \<noteq> 0 then do_fs (wr32 (f_type_of f) FTYPE_DIR) s else Some s);
                     let s = s\<lparr>opentab := (opentab s)(i := (opentab s i)\<lparr>o_file := f\<rparr>)\<rparr>;
                     s \<leftarrow> (if omode AND O_TRUNC \<noteq> 0 then do {
                             (r, s) \<leftarrow> with_fs (file_set_size f 0) s;
                             case r of Inl e \<Rightarrow> send_err envid e s | Inr _ \<Rightarrow> Some s
                           } else Some s);
                     let s = s\<lparr>opentab := (opentab s)(i := (opentab s i)\<lparr>o_mode := omode\<rparr>)\<rparr>;
                     s \<leftarrow> do_fs (fill_filefd (o_ff (opentab s i)) f (o_fileid (opentab s i)) omode) s;
                     Some (ipc_send envid 0 (o_ff (opentab s i)) (PTE_D OR PTE_LIBRARY) s)
                   }
               }
           }
       }
   }"

text \<open>The requests on an open file: look it up, run the operation, send the error or the answer.\<close>

definition on_open :: "u32 \<Rightarrow> u32 \<Rightarrow> srv \<Rightarrow> (u32 \<Rightarrow> srv \<Rightarrow> srv option) \<Rightarrow> srv option" where
  "on_open envid fileid s k =
    (case open_lookup envid fileid s of
       Inl e \<Rightarrow> send_err envid e s
     | Inr i \<Rightarrow> k (o_file (opentab s i)) s)"

definition serve_map :: "u32 \<Rightarrow> u32 \<Rightarrow> u32 \<Rightarrow> srv \<Rightarrow> srv option" where
  "serve_map envid fileid offset s = on_open envid fileid s (\<lambda>f s. do {
     (r, s) \<leftarrow> with_fs (file_get_block f (offset div BLOCK_SIZE)) s;
     case r of
       Inl e \<Rightarrow> send_err envid e s
     | Inr blk \<Rightarrow> Some (ipc_send envid 0 blk (PTE_D OR PTE_LIBRARY) s)
   })"

definition serve_set_size :: "u32 \<Rightarrow> u32 \<Rightarrow> u32 \<Rightarrow> srv \<Rightarrow> srv option" where
  "serve_set_size envid fileid sz s = on_open envid fileid s (\<lambda>f s. do {
     (r, s) \<leftarrow> with_fs (file_set_size f sz) s;
     case r of Inl e \<Rightarrow> send_err envid e s | Inr _ \<Rightarrow> Some (ipc_send envid 0 0 0 s)
   })"

definition serve_close :: "u32 \<Rightarrow> u32 \<Rightarrow> srv \<Rightarrow> srv option" where
  "serve_close envid fileid s = on_open envid fileid s (\<lambda>f s. do {
     s \<leftarrow> do_fs (file_close f) s;
     Some (ipc_send envid 0 0 0 s)
   })"

definition serve_remove :: "u32 \<Rightarrow> u8 list \<Rightarrow> srv \<Rightarrow> srv option" where
  "serve_remove envid path s = do {
     (r, s) \<leftarrow> with_fs (file_remove path) s;
     case r of Inl e \<Rightarrow> send_err envid e s | Inr _ \<Rightarrow> Some (ipc_send envid 0 0 0 s)
   }"

definition serve_dirty :: "u32 \<Rightarrow> u32 \<Rightarrow> u32 \<Rightarrow> srv \<Rightarrow> srv option" where
  "serve_dirty envid fileid offset s = on_open envid fileid s (\<lambda>f s. do {
     (r, s) \<leftarrow> with_fs (file_dirty f offset) s;
     case r of Inl e \<Rightarrow> send_err envid e s | Inr _ \<Rightarrow> Some (ipc_send envid 0 0 0 s)
   })"

definition serve_sync :: "u32 \<Rightarrow> srv \<Rightarrow> srv option" where
  "serve_sync envid s = do {
     s \<leftarrow> do_fs fs_sync s;
     Some (ipc_send envid 0 0 0 s)
   }"

definition serve_table :: "request \<Rightarrow> u32 \<Rightarrow> srv \<Rightarrow> srv option" where
  "serve_table req whom =
    (case req of
       Fsreq_open path omode \<Rightarrow> serve_open whom path omode
     | Fsreq_map fileid offset \<Rightarrow> serve_map whom fileid offset
     | Fsreq_set_size fileid sz \<Rightarrow> serve_set_size whom fileid sz
     | Fsreq_close fileid \<Rightarrow> serve_close whom fileid
     | Fsreq_dirty fileid offset \<Rightarrow> serve_dirty whom fileid offset
     | Fsreq_remove path \<Rightarrow> serve_remove whom path
     | Fsreq_sync \<Rightarrow> serve_sync whom)"

text \<open>One turn of the loop of \<^verbatim>\<open>serve\<close>, for a message received from \<open>whom\<close> with permission \<open>perm\<close>;
  \<open>None\<close> as the request stands for a number outside the table. The argument page is unmapped
  afterwards, which touches nothing of the state.\<close>

definition serve_step :: "u32 \<Rightarrow> u32 \<Rightarrow> request option \<Rightarrow> srv \<Rightarrow> srv option" where
  "serve_step whom perm req s =
    (if perm AND PTE_V = 0 then Some s
     else case req of None \<Rightarrow> Some s | Some req \<Rightarrow> serve_table req whom s)"

definition serve_main :: "srv \<Rightarrow> srv option" where
  "serve_main s = do {
     let s = serve_init s;
     f \<leftarrow> fs_init (fs s);
     Some (s\<lparr>fs := f\<rparr>)
   }"

section \<open>The open file table\<close>

lemma with_fs_keeps: "with_fs f s = Some (r, s') \<Longrightarrow> opentab s' = opentab s \<and> sent s' = sent s \<and> pref s' = pref s"
  by (auto simp: with_fs_def bind_Some_simps)

lemma do_fs_keeps: "do_fs f s = Some s' \<Longrightarrow> opentab s' = opentab s \<and> sent s' = sent s \<and> pref s' = pref s"
  by (auto simp: do_fs_def bind_Some_simps)

lemma create_if_keeps: "create_if b path s = Some (r, s') \<Longrightarrow> opentab s' = opentab s \<and> sent s' = sent s \<and> pref s' = pref s"
  by (auto simp: create_if_def bind_Some_simps split: if_splits dest!: with_fs_keeps)

lemma file_set_size_ok: "file_set_size f n s = Some (r, s') \<Longrightarrow> r = Inr ()"
  by (auto simp: file_set_size_def bind_Some_simps split: if_splits)

text \<open>The first slot whose page no client shares.\<close>

lemma open_scan_cases:
  assumes "open_scan k i s = Some (r, s')"
  shows "opentab s' = opentab s \<and> sent s' = sent s \<and>
    (case r of Inr j \<Rightarrow> i \<le> j \<and> j < i + k \<and> pageref (o_ff (opentab s j)) s \<le> 1 \<and>
        (\<forall>l\<in>{i..<j}. 2 \<le> pageref (o_ff (opentab s l)) s)
     | Inl e \<Rightarrow> e = - E_MAX_OPEN \<and> s' = s \<and> (\<forall>l\<in>{i..<i + k}. 2 \<le> pageref (o_ff (opentab s l)) s) \<or> e = - E_NO_MEM)"
  using assms
proof (induction k arbitrary: i)
  case 0
  then show ?case by auto
next
  case (Suc k)
  let ?r = "pageref (o_ff (opentab s i)) s"
  consider "?r = 0" | "?r = 1" | "2 \<le> ?r" by linarith
  then show ?case
  proof cases
    case 1
    then show ?thesis using Suc.prems
      by (auto simp: Let_def mem_alloc_def split: if_splits)
  next
    case 2
    then show ?thesis using Suc.prems by (auto simp: Let_def)
  next
    case 3
    then have *: "open_scan k (i + 1) s = Some (r, s')" using Suc.prems by (simp add: Let_def)
    have up: "\<forall>l\<in>{i..<j}. 2 \<le> pageref (o_ff (opentab s l)) s" if "\<forall>l\<in>{i + 1..<j}. 2 \<le> pageref (o_ff (opentab s l)) s" for j
      using that 3 by (metis Suc_eq_plus1 atLeastLessThan_iff le_eq_less_or_eq Suc_leI)
    show ?thesis
      using Suc.IH [OF *] up [of "i + Suc k"] up by (auto split: sum.splits)
  qed
qed

text \<open>The table \<^verbatim>\<open>serve_init\<close> sets up: entry \<open>i\<close> has file id \<open>i\<close> and its own descriptor page.\<close>

definition table_ok :: "srv \<Rightarrow> bool" where
  "table_ok s \<longleftrightarrow> (\<forall>i<MAXOPEN. o_fileid (opentab s i) = of_nat i \<and> o_ff (opentab s i) = FILEVA + of_nat i * BLOCK_SIZE)"

text \<open>What a request leaves: the table, and one message more.\<close>

definition replied :: "u32 \<Rightarrow> srv \<Rightarrow> srv \<Rightarrow> bool" where
  "replied whom s s' \<longleftrightarrow> (\<exists>v va perm. sent s' = sent s @ [(whom, v, va, perm)]) \<and>
     (\<forall>i. o_fileid (opentab s' i) = o_fileid (opentab s i) \<and> o_ff (opentab s' i) = o_ff (opentab s i))"

lemma replied_send [simp]: "replied whom s (ipc_send whom v va perm s)"
  by (simp add: replied_def ipc_send_def)

lemma replied_after: "opentab s1 = opentab s \<Longrightarrow> sent s1 = sent s \<Longrightarrow> replied whom s1 s' \<Longrightarrow> replied whom s s'"
  by (simp add: replied_def)

lemma replied_err: "send_err whom e s = Some s' \<Longrightarrow> replied whom s s'"
  by (auto simp: send_err_def)

lemma on_open_replied:
  assumes "on_open whom fileid s k = Some s'" "\<And>f s'. k f s = Some s' \<Longrightarrow> replied whom s s'"
  shows "replied whom s s'"
  using assms by (auto simp: on_open_def replied_err split: sum.splits)

lemma with_fs_replied:
  assumes "do { (r, s) \<leftarrow> with_fs g s; case r of Inl e \<Rightarrow> send_err whom e s | Inr x \<Rightarrow> Some (ipc_send whom 0 (va x) perm s) } = Some s'"
  shows "replied whom s s'"
proof -
  obtain r s1 where 1: "with_fs g s = Some (r, s1)" using assms by (auto simp: bind_Some_simps)
  have "replied whom s1 s'" using assms 1 by (cases r) (auto intro: replied_err)
  then show ?thesis using with_fs_keeps [OF 1] by (auto intro: replied_after)
qed

lemma serve_map_replied: "serve_map whom fileid offset s = Some s' \<Longrightarrow> replied whom s s'"
  unfolding serve_map_def by (erule on_open_replied, erule with_fs_replied [where va = "\<lambda>x. x"])

lemma serve_set_size_replied: "serve_set_size whom fileid sz s = Some s' \<Longrightarrow> replied whom s s'"
  unfolding serve_set_size_def by (erule on_open_replied, erule with_fs_replied [where va = "\<lambda>_. 0"])

lemma serve_dirty_replied: "serve_dirty whom fileid offset s = Some s' \<Longrightarrow> replied whom s s'"
  unfolding serve_dirty_def by (erule on_open_replied, erule with_fs_replied [where va = "\<lambda>_. 0"])

lemma serve_remove_replied: "serve_remove whom path s = Some s' \<Longrightarrow> replied whom s s'"
  unfolding serve_remove_def by (erule with_fs_replied [where va = "\<lambda>_. 0"])

lemma do_fs_replied: "do { s \<leftarrow> do_fs g s; Some (ipc_send whom 0 0 0 s) } = Some s' \<Longrightarrow> replied whom s s'"
  by (auto simp: bind_Some_simps dest!: do_fs_keeps intro: replied_after replied_send)

lemma serve_close_replied: "serve_close whom fileid s = Some s' \<Longrightarrow> replied whom s s'"
  unfolding serve_close_def by (erule on_open_replied, erule do_fs_replied)

lemma serve_sync_replied: "serve_sync whom s = Some s' \<Longrightarrow> replied whom s s'"
  unfolding serve_sync_def by (erule do_fs_replied)

text \<open>The last part of \<^verbatim>\<open>serve_open\<close>, from the opened file on.\<close>

lemma open_found_replied:
  assumes "do {
       s \<leftarrow> (if omode AND O_MKDIR \<noteq> 0 then do_fs (wr32 (f_type_of f) FTYPE_DIR) s else Some s);
       let s = s\<lparr>opentab := (opentab s)(i := (opentab s i)\<lparr>o_file := f\<rparr>)\<rparr>;
       s \<leftarrow> (if omode AND O_TRUNC \<noteq> 0 then do {
               (r, s) \<leftarrow> with_fs (file_set_size f 0) s;
               case r of Inl e \<Rightarrow> send_err envid e s | Inr _ \<Rightarrow> Some s
             } else Some s);
       let s = s\<lparr>opentab := (opentab s)(i := (opentab s i)\<lparr>o_mode := omode\<rparr>)\<rparr>;
       s \<leftarrow> do_fs (fill_filefd (o_ff (opentab s i)) f (o_fileid (opentab s i)) omode) s;
       Some (ipc_send envid 0 (o_ff (opentab s i)) (PTE_D OR PTE_LIBRARY) s)
     } = Some s'"
  shows "replied envid s s'"
proof -
  obtain s1 s2 s3 where
    1: "(if omode AND O_MKDIR \<noteq> 0 then do_fs (wr32 (f_type_of f) FTYPE_DIR) s else Some s) = Some s1" and
    2: "(if omode AND O_TRUNC \<noteq> 0 then do {
               (r, s) \<leftarrow> with_fs (file_set_size f 0) (s1\<lparr>opentab := (opentab s1)(i := (opentab s1 i)\<lparr>o_file := f\<rparr>)\<rparr>);
               case r of Inl e \<Rightarrow> send_err envid e s | Inr _ \<Rightarrow> Some s
             } else Some (s1\<lparr>opentab := (opentab s1)(i := (opentab s1 i)\<lparr>o_file := f\<rparr>)\<rparr>)) = Some s2" and
    3: "do_fs (fill_filefd (o_ff (opentab s2 i)) f (o_fileid (opentab s2 i)) omode)
         (s2\<lparr>opentab := (opentab s2)(i := (opentab s2 i)\<lparr>o_mode := omode\<rparr>)\<rparr>) = Some s3" and
    4: "s' = ipc_send envid 0 (o_ff (opentab s3 i)) (PTE_D OR PTE_LIBRARY) s3"
    using assms by (auto simp: bind_Some_simps Let_def)
  have k1: "opentab s1 = opentab s" "sent s1 = sent s" using 1 by (auto split: if_splits dest: do_fs_keeps)
  have k2: "opentab s2 = (opentab s1)(i := (opentab s1 i)\<lparr>o_file := f\<rparr>)" "sent s2 = sent s1"
  proof (atomize (full), cases "omode AND O_TRUNC = 0")
    case False
    then obtain r t where t: "with_fs (file_set_size f 0) (s1\<lparr>opentab := (opentab s1)(i := (opentab s1 i)\<lparr>o_file := f\<rparr>)\<rparr>) = Some (r, t)"
      using 2 by (auto simp: bind_Some_simps)
    then have "r = Inr ()" by (auto simp: with_fs_def bind_Some_simps dest: file_set_size_ok)
    then have "s2 = t" using 2 t False by simp
    with with_fs_keeps [OF t] show "opentab s2 = (opentab s1)(i := (opentab s1 i)\<lparr>o_file := f\<rparr>) \<and> sent s2 = sent s1" by simp
  qed (use 2 in auto)
  have k3: "opentab s3 = (opentab s2)(i := (opentab s2 i)\<lparr>o_mode := omode\<rparr>)" "sent s3 = sent s2"
    using do_fs_keeps [OF 3] by simp_all
  show ?thesis by (simp add: replied_def 4 ipc_send_def k1 k2 k3)
qed

lemma serve_open_replied:
  assumes "serve_open whom path omode s = Some s'"
  shows "replied whom s s'"
proof -
  obtain r s1 where 1: "open_alloc s = Some (r, s1)" using assms by (auto simp: serve_open_def bind_Some_simps)
  have k1: "opentab s1 = opentab s" "sent s1 = sent s"
    using open_scan_cases [OF 1 [unfolded open_alloc_def]] by simp_all
  show ?thesis
  proof (cases r)
    case (Inl e)
    then have "send_err whom e s1 = Some s'" using assms 1 by (simp add: serve_open_def)
    then show ?thesis using k1 by (intro replied_after [of s1 s] replied_err)
  next
    case (Inr i)
    note assms' = assms [unfolded serve_open_def 1 Inr bind.bind_lunit prod.case sum.case]
    obtain r2 s2 where 2: "create_if (omode AND O_MKDIR \<noteq> 0) path s1 = Some (r2, s2)"
      using assms' by (auto simp: bind_Some_simps)
    note k2 = create_if_keeps [OF 2]
    show ?thesis
    proof (cases r2)
      case (Some e)
      then have "send_err whom e s2 = Some s'" using assms' 2 by simp
      then show ?thesis using k1 k2 by (intro replied_after [of s2 s] replied_err) simp_all
    next
      case None
      note assms'' = assms' [unfolded 2 None bind.bind_lunit prod.case option.case]
      obtain r3 s3 where 3: "create_if (omode AND O_CREAT \<noteq> 0) path s2 = Some (r3, s3)"
        using assms'' by (auto simp: bind_Some_simps)
      note k3 = create_if_keeps [OF 3]
      show ?thesis
      proof (cases r3)
        case (Some e)
        then have "send_err whom e s3 = Some s'" using assms'' 3 by simp
        then show ?thesis using k1 k2 k3 by (intro replied_after [of s3 s] replied_err) simp_all
      next
        case None
        note a3 = assms'' [unfolded 3 None bind.bind_lunit prod.case option.case]
        obtain r4 s4 where 4: "with_fs (file_open path) s3 = Some (r4, s4)"
          using a3 by (auto simp: bind_Some_simps)
        note k4 = with_fs_keeps [OF 4]
        note a4 = a3 [unfolded 4 bind.bind_lunit prod.case]
        have "replied whom s4 s'"
        proof (cases r4)
          case (Inl e)
          then show ?thesis using a4 by (auto intro: replied_err)
        next
          case (Inr f)
          show ?thesis using a4 [unfolded Inr sum.case] by (rule open_found_replied)
        qed
        then show ?thesis using k1 k2 k3 k4 by (intro replied_after [of s4 s]) simp_all
      qed
    qed
  qed
qed

lemma serve_table_replied: "serve_table req whom s = Some s' \<Longrightarrow> replied whom s s'"
  by (cases req) (auto simp: serve_table_def intro: serve_open_replied serve_map_replied serve_set_size_replied
      serve_close_replied serve_dirty_replied serve_remove_replied serve_sync_replied)

lemma table_ok_replied: "table_ok s \<Longrightarrow> replied whom s s' \<Longrightarrow> table_ok s'"
  by (simp add: table_ok_def replied_def)

lemma table_ok_init: "table_ok (serve_init s)"
  by (simp add: table_ok_def serve_init_def)

text \<open>A server without clients, for the witnesses.\<close>

definition demo_srv :: srv where
  "demo_srv = serve_init \<lparr>fs = \<lparr>mem = (\<lambda>_. 0), pages = (\<lambda>_. None), disk = (\<lambda>_ _. 0), super = 0, bitmap = 0,
      oom = (\<lambda>_. False), tick = 0\<rparr>,
     opentab = (\<lambda>_. \<lparr>o_file = 0, o_fileid = 0, o_mode = 0, o_ff = 0\<rparr>), pref = (\<lambda>_. 0), sent = []\<rparr>"

text \<open>C27. Every turn of the server's loop keeps the open file table (entry \<open>i\<close> has id \<open>i\<close> and its own
  descriptor page), and answers a request with exactly one message to the client that made it;
  a message without an argument page or with an unknown request number changes nothing.\<close>

theorem serve_step_replies:
  assumes "table_ok s" "serve_step whom perm req s = Some s'"
  shows "table_ok s' \<and> (if perm AND PTE_V = 0 \<or> req = None then s' = s
    else \<exists>v va p. sent s' = sent s @ [(whom, v, va, p)])"
proof (cases "perm AND PTE_V = 0 \<or> req = None")
  case True
  then have "s' = s" using assms(2) by (cases req) (auto simp: serve_step_def split: if_splits)
  then show ?thesis using True assms(1) by simp
next
  case False
  then obtain r where "serve_table r whom s = Some s'" using assms(2) by (auto simp: serve_step_def)
  then have "replied whom s s'" by (rule serve_table_replied)
  with False table_ok_replied [OF assms(1) this] show ?thesis by (auto simp: replied_def)
qed

theorem serve_step_replies_witness:
  "\<exists>s'. serve_step 0x1802 PTE_V (Some (Fsreq_close 2000)) demo_srv = Some s' \<and> table_ok s' \<and>
     (\<exists>v va p. sent s' = [(0x1802, v, va, p)])"
proof -
  let ?s = "ipc_send 0x1802 (of_int (- E_INVAL)) 0 0 demo_srv"
  have v: "PTE_V AND PTE_V \<noteq> 0" by (simp add: PTE_V_def)
  have s: "serve_step 0x1802 PTE_V (Some (Fsreq_close 2000)) demo_srv = Some ?s"
    using v by (simp add: serve_step_def serve_table_def serve_close_def on_open_def open_lookup_def send_err_def)
  have t: "table_ok demo_srv" unfolding demo_srv_def by (rule table_ok_init)
  have "sent demo_srv = []" by (simp add: demo_srv_def serve_init_def)
  with serve_step_replies [OF t s] s v show ?thesis by auto
qed

lemma open_scan_total: "\<exists>r s'. open_scan k i s = Some (r, s')"
  by (induction k arbitrary: i) (auto simp: Let_def mem_alloc_def)

lemma open_scan_mem:
  assumes "open_scan k i s = Some (Inr j, s')"
  shows "mem (fs s') a = (if page_of a = o_ff (opentab s j) then 0 else mem (fs s) a) \<or> page_of (o_ff (opentab s j)) \<noteq> o_ff (opentab s j)"
  using assms
  by (induction k arbitrary: i) (auto simp: Let_def mem_alloc_def clear_page_def split: if_splits)

lemma filefd_page: "table_ok s \<Longrightarrow> i < MAXOPEN \<Longrightarrow> page_of (o_ff (opentab s i)) = o_ff (opentab s i)"
proof -
  assume *: "table_ok s" "i < MAXOPEN"
  have "unat ((of_nat i :: u32) * 4096) = i * 4096"
    using *(2) by (subst unat_mult_lem [THEN iffD1]) (simp_all add: unat_of_nat)
  then have "unat (FILEVA + of_nat i * BLOCK_SIZE) = 4096 * (0x60000 + i)"
    using *(2) by (subst unat_add_lem [THEN iffD1]) simp_all
  then show ?thesis using * by (simp add: table_ok_def word_unat_eq_iff unat_page_of)
qed

text \<open>C28. \<^verbatim>\<open>open_alloc\<close> always returns, and hands out only a descriptor that no client shares: the
  first such slot, with its page zeroed and no other byte of memory changed; the error
  \<open>- E_MAX_OPEN\<close> means that all 1024 descriptors are shared with clients, and the only other error
  is \<open>- E_NO_MEM\<close>.\<close>

theorem open_alloc_exclusive:
  assumes "table_ok s"
  shows "\<exists>r s'. open_alloc s = Some (r, s') \<and> opentab s' = opentab s \<and>
    (case r of
       Inr i \<Rightarrow> i < MAXOPEN \<and> pageref (o_ff (opentab s i)) s \<le> 1 \<and> (\<forall>l\<in>{0..<i}. 2 \<le> pageref (o_ff (opentab s l)) s) \<and>
         (\<forall>a. mem (fs s') a = (if page_of a = FILEVA + of_nat i * BLOCK_SIZE then 0 else mem (fs s) a))
     | Inl e \<Rightarrow> (e = - E_MAX_OPEN \<and> s' = s \<and> (\<forall>l\<in>{0..<MAXOPEN}. 2 \<le> pageref (o_ff (opentab s l)) s)) \<or> e = - E_NO_MEM)"
proof -
  obtain r s' where 1: "open_scan MAXOPEN 0 s = Some (r, s')" using open_scan_total by blast
  note c = open_scan_cases [OF 1]
  show ?thesis
  proof (cases r)
    case (Inl e)
    with c 1 show ?thesis by (simp add: open_alloc_def)
  next
    case (Inr i)
    then have i: "i < MAXOPEN" "o_ff (opentab s i) = FILEVA + of_nat i * BLOCK_SIZE"
      using c assms by (auto simp: table_ok_def)
    have "mem (fs s') a = (if page_of a = o_ff (opentab s i) then 0 else mem (fs s) a)" for a
      using open_scan_mem [OF 1 [unfolded Inr], of a] filefd_page [OF assms i(1)] by simp
    with c 1 Inr i show ?thesis by (simp add: open_alloc_def)
  qed
qed

theorem open_alloc_exclusive_witness:
  "table_ok demo_srv \<and> (\<exists>r s'. open_alloc demo_srv = Some (r, s') \<and> opentab s' = opentab demo_srv)"
proof -
  have t: "table_ok demo_srv" unfolding demo_srv_def by (rule table_ok_init)
  from open_alloc_exclusive [OF t] t show ?thesis by blast
qed

end
