(* ===== verification/MOS_Pipe.thy ===== *)
theory MOS_Pipe
  imports MOS_Prelude "HOL-Library.Sublist"
begin

text \<open>
  Pipes: \<^verbatim>\<open>user/lib/pipe.c\<close>, for one reading and one writing process.

  The two processes share the page of \<^verbatim>\<open>struct Pipe\<close> and are preempted at any point, so
  \<^verbatim>\<open>pipe_read\<close> and \<^verbatim>\<open>pipe_write\<close> are state machines: a program counter names the statement to be
  executed next, and one step executes one statement, which reads or writes each shared variable
  of the other process at most once. The references of the descriptor pages and of the pipe's
  page are those the kernel counts; a process that closes its end drops the descriptor first and
  the pipe after it, as \<^verbatim>\<open>pipe_close\<close> does.

  \<open>sent\<close> and \<open>rbase\<close> are history: the bytes whose write is complete, and the bytes the calls of
  \<^verbatim>\<open>read\<close> before the current one returned.
\<close>

abbreviation PIPE_SIZE :: nat where "PIPE_SIZE \<equiv> 32"

record pipe_t =
  p_rpos :: u32
  p_wpos :: u32
  p_buf :: "nat \<Rightarrow> u8"

text \<open>The do loop of \<^verbatim>\<open>_pipe_is_closed\<close> over what it observes in each turn: \<^verbatim>\<open>env_runs\<close>, the two
  reference counts, \<^verbatim>\<open>env_runs\<close> again. It uses the first pair read without being descheduled.\<close>

fun pipe_is_closed_loop :: "(u32 \<times> nat \<times> nat \<times> u32) list \<Rightarrow> bool option" where
  "pipe_is_closed_loop [] = None"
| "pipe_is_closed_loop ((runs, fd_ref, pipe_ref, runs') # obs) =
    (if runs \<noteq> runs' then pipe_is_closed_loop obs else Some (fd_ref = pipe_ref))"

section \<open>The two routines as state machines\<close>

datatype rstate = R_for nat | R_while nat | R_closed nat | R_copy nat | R_inc nat | R_ret nat | R_closing | R_gone

datatype wstate = W_for nat | W_while nat | W_closed nat | W_store nat | W_inc nat | W_ret nat | W_closing | W_gone

record psys =
  pipe :: pipe_t
  rref :: nat
  wref :: nat
  pref :: nat
  rpc :: rstate
  rn :: nat
  rbuf :: "u8 list"
  wpc :: wstate
  wbuf :: "u8 list"
  sent :: "u8 list"
  rbase :: "u8 list"

text \<open>One statement of \<^verbatim>\<open>pipe_read\<close>.\<close>

definition pipe_read_step :: "psys \<Rightarrow> psys" where
  "pipe_read_step s =
    (let p = pipe s in
     case rpc s of
       R_for i \<Rightarrow> s\<lparr>rpc := (if i < rn s then R_while i else R_ret (rn s))\<rparr>
     | R_while i \<Rightarrow> s\<lparr>rpc := (if p_rpos p \<ge> p_wpos p then R_closed i else R_copy i)\<rparr>
     | R_closed i \<Rightarrow> s\<lparr>rpc := (if 0 < i \<or> rref s = pref s then R_ret i else R_while i)\<rparr>
     | R_copy i \<Rightarrow> s\<lparr>rbuf := rbuf s @ [p_buf p (unat (p_rpos p) mod PIPE_SIZE)], rpc := R_inc i\<rparr>
     | R_inc i \<Rightarrow> s\<lparr>pipe := p\<lparr>p_rpos := p_rpos p + 1\<rparr>, rpc := R_for (i + 1)\<rparr>
     | _ \<Rightarrow> s)"

text \<open>One statement of \<^verbatim>\<open>pipe_write\<close>.\<close>

definition pipe_write_step :: "psys \<Rightarrow> psys" where
  "pipe_write_step s =
    (let p = pipe s in
     case wpc s of
       W_for i \<Rightarrow> s\<lparr>wpc := (if i < length (wbuf s) then W_while i else W_ret (length (wbuf s)))\<rparr>
     | W_while i \<Rightarrow> s\<lparr>wpc := (if p_wpos p - p_rpos p \<ge> of_nat PIPE_SIZE then W_closed i else W_store i)\<rparr>
     | W_closed i \<Rightarrow> s\<lparr>wpc := (if wref s = pref s then W_ret i else W_while i)\<rparr>
     | W_store i \<Rightarrow> s\<lparr>pipe := p\<lparr>p_buf := (p_buf p)(unat (p_wpos p) mod PIPE_SIZE := wbuf s ! i)\<rparr>, wpc := W_inc i\<rparr>
     | W_inc i \<Rightarrow> s\<lparr>pipe := p\<lparr>p_wpos := p_wpos p + 1\<rparr>, wpc := W_for (i + 1), sent := sent s @ [wbuf s ! i]\<rparr>
     | _ \<Rightarrow> s)"

text \<open>\<^verbatim>\<open>pipe_close\<close> of each end: the descriptor page, then the pipe page.\<close>

definition pipe_close_read :: "psys \<Rightarrow> psys" where
  "pipe_close_read s = (case rpc s of
       R_ret _ \<Rightarrow> s\<lparr>rref := rref s - 1, rpc := R_closing\<rparr>
     | R_closing \<Rightarrow> s\<lparr>pref := pref s - 1, rpc := R_gone\<rparr>
     | _ \<Rightarrow> s)"

definition pipe_close_write :: "psys \<Rightarrow> psys" where
  "pipe_close_write s = (case wpc s of
       W_ret _ \<Rightarrow> s\<lparr>wref := wref s - 1, wpc := W_closing\<rparr>
     | W_closing \<Rightarrow> s\<lparr>pref := pref s - 1, wpc := W_gone\<rparr>
     | _ \<Rightarrow> s)"

text \<open>A new call of \<^verbatim>\<open>read\<close> or \<^verbatim>\<open>write\<close> by a process whose last call has returned.\<close>

definition start_read :: "nat \<Rightarrow> psys \<Rightarrow> psys" where
  "start_read n s = (case rpc s of
       R_ret _ \<Rightarrow> s\<lparr>rpc := R_for 0, rn := n, rbase := rbase s @ rbuf s, rbuf := []\<rparr>
     | _ \<Rightarrow> s)"

definition start_write :: "u8 list \<Rightarrow> psys \<Rightarrow> psys" where
  "start_write bs s = (case wpc s of W_ret _ \<Rightarrow> s\<lparr>wpc := W_for 0, wbuf := bs\<rparr> | _ \<Rightarrow> s)"

text \<open>After \<^verbatim>\<open>pipe\<close> and \<^verbatim>\<open>fork\<close>, each process having closed the end it does not use.\<close>

definition pipe_init :: psys where
  "pipe_init = \<lparr>pipe = \<lparr>p_rpos = 0, p_wpos = 0, p_buf = (\<lambda>_. 0)\<rparr>, rref = 1, wref = 1, pref = 2,
     rpc = R_ret 0, rn = 0, rbuf = [], wpc = W_ret 0, wbuf = [], sent = [], rbase = []\<rparr>"

inductive piped :: "psys \<Rightarrow> bool" where
  piped_init: "piped pipe_init"
| piped_read: "piped s \<Longrightarrow> piped (pipe_read_step s)"
| piped_write: "piped s \<Longrightarrow> piped (pipe_write_step s)"
| piped_close_read: "piped s \<Longrightarrow> piped (pipe_close_read s)"
| piped_close_write: "piped s \<Longrightarrow> piped (pipe_close_write s)"
| piped_start_read: "piped s \<Longrightarrow> piped (start_read n s)"
| piped_start_write: "piped s \<Longrightarrow> piped (start_write bs s)"

section \<open>The invariant\<close>

text \<open>The bytes the reader has taken out of the pipe; between copying a byte and advancing
  \<^verbatim>\<open>p_rpos\<close> the last byte of the buffer is not taken yet.\<close>

definition taken :: "psys \<Rightarrow> nat" where
  "taken s = length (rbase s) + length (rbuf s) - (case rpc s of R_inc _ \<Rightarrow> 1 | _ \<Rightarrow> 0)"

definition r_ok :: "psys \<Rightarrow> bool" where
  "r_ok s \<longleftrightarrow> (case rpc s of
       R_for i \<Rightarrow> i = length (rbuf s) \<and> i \<le> rn s
     | R_while i \<Rightarrow> i = length (rbuf s) \<and> i < rn s
     | R_closed i \<Rightarrow> i = length (rbuf s) \<and> i < rn s
     | R_copy i \<Rightarrow> i = length (rbuf s) \<and> i < rn s \<and> taken s < length (sent s)
     | R_inc i \<Rightarrow> i + 1 = length (rbuf s) \<and> i < rn s \<and> taken s < length (sent s)
     | R_ret i \<Rightarrow> i = length (rbuf s) \<and> i \<le> rn s
     | _ \<Rightarrow> True)"

definition w_ok :: "psys \<Rightarrow> bool" where
  "w_ok s \<longleftrightarrow> (case wpc s of
       W_while i \<Rightarrow> i < length (wbuf s)
     | W_closed i \<Rightarrow> i < length (wbuf s)
     | W_store i \<Rightarrow> i < length (wbuf s) \<and> length (sent s) < taken s + PIPE_SIZE
     | W_inc i \<Rightarrow> i < length (wbuf s) \<and> length (sent s) < taken s + PIPE_SIZE \<and>
         p_buf (pipe s) (length (sent s) mod PIPE_SIZE) = wbuf s ! i
     | _ \<Rightarrow> True)"

definition pipe_inv :: "psys \<Rightarrow> bool" where
  "pipe_inv s \<longleftrightarrow> p_wpos (pipe s) = of_nat (length (sent s)) \<and> p_rpos (pipe s) = of_nat (taken s) \<and>
     taken s \<le> length (sent s) \<and> length (sent s) \<le> taken s + PIPE_SIZE \<and>
     prefix (rbase s @ rbuf s) (sent s) \<and>
     (\<forall>k. taken s \<le> k \<and> k < length (sent s) \<longrightarrow> p_buf (pipe s) (k mod PIPE_SIZE) = sent s ! k) \<and>
     r_ok s \<and> w_ok s"

lemmas pipe_defs = pipe_inv_def r_ok_def w_ok_def taken_def

lemma taken_update:
  "taken (s\<lparr>pipe := p\<rparr>) = taken s" "taken (s\<lparr>wpc := w\<rparr>) = taken s" "r_ok (s\<lparr>pipe := p\<rparr>) = r_ok s" "r_ok (s\<lparr>wpc := w\<rparr>) = r_ok s"
  by (simp_all add: taken_def r_ok_def split: rstate.splits)

lemma guards:
  assumes "pipe_inv s" "length (sent s) < 2 ^ 32"
  shows "p_rpos (pipe s) \<ge> p_wpos (pipe s) \<longleftrightarrow> taken s = length (sent s)"
    and "p_wpos (pipe s) - p_rpos (pipe s) \<ge> of_nat PIPE_SIZE \<longleftrightarrow> taken s + PIPE_SIZE \<le> length (sent s)"
    and "unat (p_rpos (pipe s)) = taken s" "unat (p_wpos (pipe s)) = length (sent s)"
proof -
  have i: "p_wpos (pipe s) = of_nat (length (sent s))" "p_rpos (pipe s) = of_nat (taken s)" "taken s \<le> length (sent s)"
    using assms(1) by (simp_all add: pipe_inv_def)
  then show u: "unat (p_rpos (pipe s)) = taken s" "unat (p_wpos (pipe s)) = length (sent s)"
    using assms(2) by (simp_all add: unat_of_nat)
  show "p_rpos (pipe s) \<ge> p_wpos (pipe s) \<longleftrightarrow> taken s = length (sent s)"
    using i(3) u by (auto simp: word_le_nat_alt)
  show "p_wpos (pipe s) - p_rpos (pipe s) \<ge> of_nat PIPE_SIZE \<longleftrightarrow> taken s + PIPE_SIZE \<le> length (sent s)"
    using i(3) u by (auto simp: word_le_nat_alt unat_sub_if')
qed

lemma read_copy_inv:
  assumes "pipe_inv s" "length (sent s) < 2 ^ 32" "rpc s = R_copy i"
  shows "pipe_inv (pipe_read_step s)"
proof -
  let ?t = "length (rbase s) + length (rbuf s)"
  have t: "?t < length (sent s)" "prefix (rbase s @ rbuf s) (sent s)" "taken s = ?t"
    using assms(1,3) by (auto simp: pipe_defs)
  have "p_buf (pipe s) (?t mod PIPE_SIZE) = sent s ! ?t"
    using assms(1) t by (simp add: pipe_inv_def)
  moreover have "prefix (rbase s @ rbuf s @ [sent s ! ?t]) (sent s)"
    using t append_one_prefix [of "rbase s @ rbuf s" "sent s"] by simp
  ultimately show ?thesis
    using assms t guards(3) [OF assms(1,2)] by (simp add: pipe_read_step_def Let_def pipe_defs split: wstate.splits)
qed

lemma read_step_inv:
  assumes "pipe_inv s" "length (sent s) < 2 ^ 32"
  shows "pipe_inv (pipe_read_step s)"
proof (cases "rpc s")
  case (R_copy i)
  then show ?thesis by (rule read_copy_inv [OF assms])
next
  case (R_while i)
  then show ?thesis using assms guards(1) [OF assms]
    by (auto simp: pipe_read_step_def Let_def pipe_defs split: wstate.splits)
next
  case (R_inc i)
  then show ?thesis using assms(1)
    by (cases "length (rbuf s)") (auto simp: pipe_read_step_def Let_def pipe_defs split: wstate.splits)
qed (use assms in \<open>auto simp: pipe_read_step_def Let_def pipe_defs split: wstate.splits\<close>)

lemma write_store_inv:
  assumes "pipe_inv s" "length (sent s) < 2 ^ 32" "wpc s = W_store i"
  shows "pipe_inv (pipe_write_step s)"
proof -
  let ?n = "length (sent s)"
  have n: "?n < taken s + PIPE_SIZE" using assms(1,3) by (simp add: pipe_inv_def w_ok_def)
  have other: "k mod PIPE_SIZE \<noteq> ?n mod PIPE_SIZE" if "taken s \<le> k" "k < ?n" for k
  proof
    assume "k mod PIPE_SIZE = ?n mod PIPE_SIZE"
    then have "PIPE_SIZE dvd ?n - k" using that mod_eq_dvd_iff_nat [of k ?n PIPE_SIZE] by simp
    then show False using that n by (auto dest: dvd_imp_le)
  qed
  have e: "pipe_write_step s = s\<lparr>pipe := (pipe s)\<lparr>p_buf := (p_buf (pipe s))(?n mod PIPE_SIZE := wbuf s ! i)\<rparr>, wpc := W_inc i\<rparr>"
    using assms(3) guards(4) [OF assms(1,2)] by (simp add: pipe_write_step_def Let_def)
  show ?thesis using assms(1,3) n other unfolding pipe_inv_def w_ok_def by (auto simp: e taken_update)
qed

lemma write_step_inv:
  assumes "pipe_inv s" "length (sent (pipe_write_step s)) < 2 ^ 32"
  shows "pipe_inv (pipe_write_step s)"
proof -
  have len: "length (sent s) < 2 ^ 32"
    using assms(2) by (auto simp: pipe_write_step_def Let_def split: wstate.splits)
  show ?thesis
  proof (cases "wpc s")
    case (W_store i)
    then show ?thesis by (rule write_store_inv [OF assms(1) len])
  next
    case (W_while i)
    then show ?thesis using assms(1) guards(2) [OF assms(1) len]
      by (auto simp: pipe_write_step_def Let_def pipe_defs split: rstate.splits)
  next
    case (W_inc i)
    then show ?thesis using assms(1)
      by (auto simp: pipe_write_step_def Let_def pipe_defs nth_append less_Suc_eq split: rstate.splits)
  qed (use assms(1) in \<open>auto simp: pipe_write_step_def Let_def pipe_defs split: rstate.splits\<close>)
qed

lemma other_steps_inv:
  assumes "pipe_inv s"
  shows "pipe_inv (pipe_close_read s)" "pipe_inv (pipe_close_write s)" "pipe_inv (start_read n s)" "pipe_inv (start_write bs s)"
proof -
  show "pipe_inv (pipe_close_read s)" using assms by (cases "rpc s") (auto simp: pipe_close_read_def pipe_defs split: wstate.splits)
  show "pipe_inv (pipe_close_write s)" using assms by (cases "wpc s") (auto simp: pipe_close_write_def pipe_defs split: rstate.splits)
  show "pipe_inv (start_read n s)" using assms by (cases "rpc s") (auto simp: start_read_def pipe_defs split: wstate.splits)
  show "pipe_inv (start_write bs s)" using assms by (cases "wpc s") (auto simp: start_write_def pipe_defs split: rstate.splits)
qed

lemma other_steps_sent:
  "sent (pipe_close_read s) = sent s" "sent (pipe_close_write s) = sent s" "sent (start_read n s) = sent s" "sent (start_write bs s) = sent s"
  by (auto simp: pipe_close_read_def pipe_close_write_def start_read_def start_write_def split: rstate.splits wstate.splits)

lemma piped_inv: "piped s \<Longrightarrow> length (sent s) < 2 ^ 32 \<Longrightarrow> pipe_inv s"
proof (induction rule: piped.induct)
  case piped_init
  then show ?case by (simp add: pipe_init_def pipe_defs)
next
  case (piped_read s)
  have l: "length (sent s) < 2 ^ 32"
    using piped_read.prems by (simp add: pipe_read_step_def Let_def split: rstate.splits)
  show ?case by (rule read_step_inv [OF piped_read.IH [OF l] l])
next
  case (piped_write s)
  then have "pipe_inv s" by (simp add: pipe_write_step_def Let_def split: wstate.splits)
  with piped_write show ?case by (intro write_step_inv)
qed (simp_all add: other_steps_inv other_steps_sent)

text \<open>The counts of references, and what the end of the writer means to the reader.\<close>

definition refs_ok :: "psys \<Rightarrow> bool" where
  "refs_ok s \<longleftrightarrow> rref s = (case rpc s of R_closing \<Rightarrow> 0 | R_gone \<Rightarrow> 0 | _ \<Rightarrow> 1) \<and>
     wref s = (case wpc s of W_closing \<Rightarrow> 0 | W_gone \<Rightarrow> 0 | _ \<Rightarrow> 1) \<and>
     pref s = (if rpc s = R_gone then 0 else 1) + (if wpc s = W_gone then 0 else 1)"

lemma piped_refs: "piped s \<Longrightarrow> refs_ok s"
proof (induction rule: piped.induct)
  case piped_init
  then show ?case by (simp add: refs_ok_def pipe_init_def)
qed (auto simp: refs_ok_def pipe_read_step_def pipe_write_step_def pipe_close_read_def pipe_close_write_def
    start_read_def start_write_def Let_def split: rstate.splits wstate.splits)

lemma read_zero: "piped s \<Longrightarrow> length (sent s) < 2 ^ 32 \<Longrightarrow> rpc s = R_ret 0 \<Longrightarrow> 0 < rn s \<Longrightarrow> wpc s = W_gone"
proof (induction rule: piped.induct)
  case (piped_read s)
  have l: "length (sent s) < 2 ^ 32"
    using piped_read.prems by (simp add: pipe_read_step_def Let_def split: rstate.splits)
  show ?case
  proof (cases "rpc s")
    case (R_closed i)
    then have "rref s = pref s" using piped_read.prems by (auto simp: pipe_read_step_def Let_def split: if_splits)
    then show ?thesis using piped_refs [OF piped_read.hyps] R_closed
      by (auto simp: refs_ok_def pipe_read_step_def Let_def split: if_splits)
  qed (use piped_read l in \<open>auto simp: pipe_read_step_def Let_def split: if_splits\<close>)
next
  case (piped_write s)
  then show ?case by (auto simp: pipe_write_step_def Let_def split: wstate.splits)
next
  case (piped_start_read s n)
  then show ?case by (auto simp: start_read_def split: rstate.splits)
next
  case (piped_close_read s)
  then show ?case by (auto simp: pipe_close_read_def split: rstate.splits)
next
  case (piped_close_write s)
  then show ?case by (auto simp: pipe_close_write_def split: wstate.splits)
next
  case (piped_start_write s bs)
  then show ?case by (auto simp: start_write_def split: wstate.splits)
qed (simp add: pipe_init_def)

text \<open>C16. A pipe is a first-in first-out channel of capacity 32, however the reader and the writer are
  interleaved: up to the \<open>2 ^ 32\<close>-th byte, what the reader has received is a prefix of what was
  written, at most 32 bytes are on the way, a call of \<^verbatim>\<open>read\<close> returns the number of bytes it
  stored, which is at most what was asked for, and it returns 0 only when nothing was asked for
  or when the writer has closed its end.\<close>

theorem pipe_fifo:
  assumes "piped s" "length (sent s) < 2 ^ 32"
  shows "prefix (rbase s @ rbuf s) (sent s) \<and> length (sent s) \<le> taken s + PIPE_SIZE \<and>
    (\<forall>r. rpc s = R_ret r \<longrightarrow> r = length (rbuf s) \<and> r \<le> rn s \<and> (r = 0 \<and> 0 < rn s \<longrightarrow> wpc s = W_gone))"
  using piped_inv [OF assms] read_zero [OF assms] by (auto simp: pipe_inv_def r_ok_def)

text \<open>A run of both processes: the reader finds the pipe empty, then the writer writes one byte and
  closes its end, then the reader looks whether the pipe is closed.\<close>

definition race_run :: psys where
  "race_run = pipe_read_step (pipe_close_write (pipe_close_write
     (pipe_write_step (pipe_write_step (pipe_write_step (pipe_write_step (pipe_write_step (start_write [7]
       (pipe_read_step (pipe_read_step (start_read 1 pipe_init)))))))))))"

lemma piped_race: "piped race_run"
  unfolding race_run_def by (intro piped.intros)

lemma race_run_eq: "rpc race_run = R_ret 0" "rn race_run = 1" "rbase race_run = []" "rbuf race_run = []" "sent race_run = [7]"
  by (simp_all add: race_run_def pipe_init_def start_read_def start_write_def pipe_read_step_def
      pipe_write_step_def pipe_close_write_def Let_def)

theorem pipe_fifo_witness:
  "piped race_run \<and> prefix (rbase race_run @ rbuf race_run) (sent race_run) \<and> wpc race_run = W_gone"
  using pipe_fifo [OF piped_race] piped_race race_run_eq by auto

text \<open>C39. The end of the stream can be reported too early: there is a run in which \<^verbatim>\<open>pipe_read\<close> asks for
  a byte and returns 0, although a byte was written and is still in the pipe, because the test
  for an empty buffer and the test for a closed pipe are not made together.\<close>

theorem pipe_read_misses_data:
  "\<exists>s. piped s \<and> rpc s = R_ret 0 \<and> 0 < rn s \<and> rbase s @ rbuf s \<noteq> sent s \<and> wpc s = W_gone"
  using piped_race race_run_eq read_zero [OF piped_race] by (intro exI [of _ race_run]) auto

end
