(* ===== verification/MOS_Fork.thy ===== *)
theory MOS_Fork
  imports MOS_Bitmap
begin

text \<open>
  User-level fork with copy-on-write: \<^verbatim>\<open>user/lib/fork.c\<close>, and \<^verbatim>\<open>do_tlb_mod\<close> of \<^verbatim>\<open>kern/tlbex.c\<close>, which enters its
  handler.

  The state is what the system calls show of the machine: for each environment the frame and
  the flags of each of its pages, the contents of the frames, and of each environment whether it
  exists, whether it is runnable and its TLB Mod entry. Frames from \<open>nfree\<close> on are free. The
  calls act as the kernel's handlers do (\<^verbatim>\<open>kern/syscall_all.c\<close>): a mapping gets the flags that were
  asked for together with \<^verbatim>\<open>PTE_V\<close> and \<^verbatim>\<open>PTE_C_CACHEABLE\<close>, addresses outside the user area and
  unknown environments are refused, and whether the \<open>n\<close>-th allocation finds memory is \<open>nomem n\<close>.
  What \<^verbatim>\<open>sys_exofork\<close> returns to the parent is \<open>exo\<close>.
\<close>

section \<open>State and system calls\<close>

record vm =
  frame :: "nat \<Rightarrow> u32 \<Rightarrow> u8"
  space :: "u32 \<Rightarrow> nat \<Rightarrow> (nat \<times> u32) option"
  alive :: "u32 \<Rightarrow> bool"
  runnable :: "u32 \<Rightarrow> bool"
  mod_entry :: "u32 \<Rightarrow> u32"
  cur :: u32
  nfree :: nat
  nomem :: "nat \<Rightarrow> bool"
  ticks :: nat
  exo :: u32

definition env_of :: "u32 \<Rightarrow> vm \<Rightarrow> u32" where
  "env_of e s = (if e = 0 then cur s else e)"

definition set_page :: "u32 \<Rightarrow> nat \<Rightarrow> (nat \<times> u32) option \<Rightarrow> vm \<Rightarrow> vm" where
  "set_page e v x s = s\<lparr>space := (space s)(e := (space s e)(v := x))\<rparr>"

definition syscall_mem_alloc :: "u32 \<Rightarrow> u32 \<Rightarrow> u32 \<Rightarrow> vm \<Rightarrow> int \<times> vm" where
  "syscall_mem_alloc e va perm s =
    (let e = env_of e s in
     if \<not> va_ok va then (- E_INVAL, s)
     else if \<not> alive s e then (- E_BAD_ENV, s)
     else if nomem s (ticks s) then (- E_NO_MEM, s\<lparr>ticks := ticks s + 1\<rparr>)
     else (0, set_page e (VPN va) (Some (nfree s, mapped_flags perm))
       (s\<lparr>ticks := ticks s + 1, nfree := nfree s + 1, frame := (frame s)(nfree s := (\<lambda>_. 0))\<rparr>)))"

definition syscall_mem_map :: "u32 \<Rightarrow> u32 \<Rightarrow> u32 \<Rightarrow> u32 \<Rightarrow> u32 \<Rightarrow> vm \<Rightarrow> int \<times> vm" where
  "syscall_mem_map srcid srcva dstid dstva perm s =
    (let se = env_of srcid s; de = env_of dstid s in
     if \<not> va_ok srcva \<or> \<not> va_ok dstva then (- E_INVAL, s)
     else if \<not> alive s se \<or> \<not> alive s de then (- E_BAD_ENV, s)
     else case space s se (VPN srcva) of
       None \<Rightarrow> (- E_INVAL, s)
     | Some (f, _) \<Rightarrow>
         if space s de (VPN dstva) = None \<and> nomem s (ticks s) then (- E_NO_MEM, s\<lparr>ticks := ticks s + 1\<rparr>)
         else (0, set_page de (VPN dstva) (Some (f, mapped_flags perm)) (s\<lparr>ticks := ticks s + 1\<rparr>)))"

definition syscall_mem_unmap :: "u32 \<Rightarrow> u32 \<Rightarrow> vm \<Rightarrow> int \<times> vm" where
  "syscall_mem_unmap e va s =
    (let e = env_of e s in
     if \<not> va_ok va then (- E_INVAL, s)
     else if \<not> alive s e then (- E_BAD_ENV, s)
     else (0, set_page e (VPN va) None s))"

definition syscall_set_tlb_mod_entry :: "u32 \<Rightarrow> u32 \<Rightarrow> vm \<Rightarrow> int \<times> vm" where
  "syscall_set_tlb_mod_entry e f s =
    (let e = env_of e s in
     if \<not> alive s e then (- E_BAD_ENV, s) else (0, s\<lparr>mod_entry := (mod_entry s)(e := f)\<rparr>))"

definition syscall_set_env_runnable :: "u32 \<Rightarrow> vm \<Rightarrow> int \<times> vm" where
  "syscall_set_env_runnable e s =
    (let e = env_of e s in
     if \<not> alive s e then (- E_BAD_ENV, s) else (0, s\<lparr>runnable := (runnable s)(e := True)\<rparr>))"

text \<open>\<open>exo\<close> is the id of the new environment, which has an empty address space, or an error code.\<close>

definition syscall_exofork :: "vm \<Rightarrow> u32 \<times> vm" where
  "syscall_exofork s =
    (if exo s <s 0 then (exo s, s)
     else (exo s, s\<lparr>alive := (alive s)(exo s := True), space := (space s)(exo s := (\<lambda>_. None))\<rparr>))"

section \<open>fork.c\<close>

text \<open>The expression \<^verbatim>\<open>perm & !PTE_D\<close> uses the logical not, whose value is 0. The results of the
  system calls are ignored.\<close>

definition duppage :: "u32 \<Rightarrow> nat \<Rightarrow> vm \<Rightarrow> vm" where
  "duppage envid vpn s =
    (let addr = push_bit 12 (of_nat vpn);
         perm = (case space s (cur s) vpn of Some (_, fl) \<Rightarrow> fl AND 0xfff | None \<Rightarrow> 0)
     in
     if perm AND PTE_D \<noteq> 0 \<and> perm AND PTE_LIBRARY = 0 \<and> perm AND PTE_COW = 0 then
       let perm = (perm AND (if PTE_D = 0 then 1 else 0)) OR PTE_COW;
           (_, s) = syscall_mem_map 0 addr envid addr perm s;
           (_, s) = syscall_mem_map 0 addr 0 addr perm s
       in s
     else snd (syscall_mem_map 0 addr envid addr perm s))"

text \<open>The copy between two mapped pages.\<close>

definition copy_page :: "u32 \<Rightarrow> u32 \<Rightarrow> vm \<Rightarrow> vm option" where
  "copy_page dst src s =
    (case (space s (cur s) (VPN dst), space s (cur s) (VPN src)) of
       (Some (d, fl), Some (f, _)) \<Rightarrow>
         if fl AND PTE_D = 0 then None else Some (s\<lparr>frame := (frame s)(d := frame s f)\<rparr>)
     | _ \<Rightarrow> None)"

text \<open>The handler up to \<^verbatim>\<open>syscall_set_trapframe\<close>, which resumes the interrupted store.\<close>

definition cow_entry :: "u32 \<Rightarrow> vm \<Rightarrow> vm option" where
  "cow_entry va s =
    (let perm = (case space s (cur s) (VPN va) of Some (_, fl) \<Rightarrow> fl AND 0xfff | None \<Rightarrow> 0) in
     if perm AND PTE_COW = 0 then None
     else
       let perm = (perm AND NOT PTE_COW) OR PTE_D;
           (_, s) = syscall_mem_alloc 0 UCOW perm s
       in do {
         s \<leftarrow> copy_page UCOW (ROUNDDOWN va PAGE_SIZE) s;
         let (_, s) = syscall_mem_map 0 UCOW 0 va perm s;
         let (_, s) = syscall_mem_unmap 0 UCOW s;
         Some s
       })"

text \<open>The body of the loop of \<^verbatim>\<open>fork\<close>.\<close>

definition fork_page :: "u32 \<Rightarrow> nat \<Rightarrow> vm \<Rightarrow> vm" where
  "fork_page child i s = (if space s (cur s) i \<noteq> None then duppage child i s else s)"

text \<open>\<open>cow\<close> is the address of \<^verbatim>\<open>cow_entry\<close>. The result is what the parent gets.\<close>

definition fork :: "u32 \<Rightarrow> vm \<Rightarrow> u32 \<times> vm" where
  "fork cow s =
    (let s = (if mod_entry s (cur s) \<noteq> cow then snd (syscall_set_tlb_mod_entry 0 cow s) else s);
         (child, s) = syscall_exofork s;
         s = fold (fork_page child) [0..<VPN USTACKTOP] s;
         (_, s) = syscall_set_tlb_mod_entry child cow s;
         (_, s) = syscall_set_env_runnable child s
     in (child, s))"

section \<open>Stores and the TLB Mod exception (kern/tlbex.c)\<close>

text \<open>The page the refill handler gives for a missing one, below \<open>UTOP\<close>.\<close>

definition demand_page :: "u32 \<Rightarrow> vm \<Rightarrow> vm option" where
  "demand_page va s =
    (if va < UTEMP then None
     else if USTACKTOP \<le> va \<and> va < USTACKTOP + PAGE_SIZE then None
     else if UTOP \<le> va then None
     else if nomem s (ticks s) then None
     else Some (set_page (cur s) (VPN va) (Some (nfree s, mapped_flags PTE_D))
       (s\<lparr>ticks := ticks s + 1, nfree := nfree s + 1, frame := (frame s)(nfree s := (\<lambda>_. 0))\<rparr>)))"

text \<open>The store itself, to a page that may be written; and bytes stored one after the other to the
  stack of the current environment, where a missing page is allocated and a page that may not be
  written stops the system.\<close>

definition store_page :: "u32 \<Rightarrow> u8 \<Rightarrow> vm \<Rightarrow> vm option" where
  "store_page va b s = (case space s (cur s) (VPN va) of
     None \<Rightarrow> None
   | Some (f, fl) \<Rightarrow>
       if fl AND PTE_D = 0 then None
       else Some (s\<lparr>frame := (frame s)(f := (frame s f)(va AND 0xfff := b))\<rparr>))"

definition stack_store :: "u32 \<Rightarrow> u8 \<Rightarrow> vm \<Rightarrow> vm option" where
  "stack_store va b s = do {
     s \<leftarrow> (if space s (cur s) (VPN va) = None then demand_page va s else Some s);
     store_page va b s
   }"

primrec stack_stores :: "u8 list \<Rightarrow> u32 \<Rightarrow> vm \<Rightarrow> vm option" where
  "stack_stores [] va s = Some s"
| "stack_stores (b # bs) va s = do { s \<leftarrow> stack_store va b s; stack_stores bs (va + 1) s }"

text \<open>\<^verbatim>\<open>do_tlb_mod\<close>: \<open>sp\<close> is the stack pointer of the interrupted context and \<open>tf\<close> the bytes of its trap
  frame, which the kernel stores on the exception stack. The result is the address of the frame, the
  argument of the handler; without a handler the kernel panics.\<close>

abbreviation exc_top :: "u32 \<Rightarrow> u32" where
  "exc_top sp \<equiv> (if sp < USTACKTOP \<or> UXSTACKTOP \<le> sp then UXSTACKTOP else sp)"

definition vm_tlb_mod :: "u32 \<Rightarrow> u8 list \<Rightarrow> vm \<Rightarrow> (u32 \<times> vm) option" where
  "vm_tlb_mod sp tf s = do {
     let sp = exc_top sp;
     let sp = sp - 152;
     s \<leftarrow> stack_stores tf sp s;
     if mod_entry s (cur s) \<noteq> 0 then Some (sp, s) else None
   }"

text \<open>A store by the current environment: a missing page is allocated; to a page that may not be
  written the processor raises TLB Mod, the kernel saves the context and enters the handler, which
  uses the exception stack below the frame (\<open>scratch\<close>, what the compiled handler leaves there) and
  resumes the interrupted store. \<open>cow\<close> is the address of \<^verbatim>\<open>cow_entry\<close>; other handlers are not
  represented.\<close>

definition user_store :: "u32 \<Rightarrow> u32 \<Rightarrow> u8 list \<Rightarrow> u8 list \<Rightarrow> u32 \<Rightarrow> u8 \<Rightarrow> vm \<Rightarrow> vm option" where
  "user_store cow sp tf scratch va b s = do {
     s \<leftarrow> (case space s (cur s) (VPN va) of
            None \<Rightarrow> demand_page va s
          | Some (f, fl) \<Rightarrow>
              if fl AND PTE_D \<noteq> 0 then Some s
              else do {
                (a0, s) \<leftarrow> vm_tlb_mod sp tf s;
                if mod_entry s (cur s) \<noteq> cow then None
                else do {
                  s \<leftarrow> stack_stores scratch (a0 - of_nat (length scratch)) s;
                  cow_entry va s
                }
              });
     store_page va b s
   }"

section \<open>What an environment reads\<close>

definition view :: "u32 \<Rightarrow> u32 \<Rightarrow> vm \<Rightarrow> u8 option" where
  "view e va s = map_option (\<lambda>(f, _). frame s f (va AND 0xfff)) (space s e (VPN va))"

section \<open>Page numbers\<close>

lemma VPN_UCOW: "VPN UCOW = 0x3ff" "va_ok UCOW"
  by (simp_all add: VPN_def va_ok_def unat_drop_bit_div)

lemma VPN_USTACKTOP: "VPN USTACKTOP = 0x7f3fe"
  by (simp add: VPN_def unat_drop_bit_div)

lemma VPN_va_ok: "0x3fe \<le> VPN va \<Longrightarrow> VPN va < 0x7f400 \<Longrightarrow> va_ok va"
  using div_times_less_eq_dividend [of "unat va" 4096] dividend_less_div_times [of 4096 "unat va"]
  by (simp add: va_ok_def VPN_def unat_drop_bit_div word_le_nat_alt word_less_nat_alt)

lemma VPN_ROUNDDOWN: "VPN (ROUNDDOWN va PAGE_SIZE) = VPN va"
proof -
  have m: "(PAGE_SIZE - 1 :: u32) = mask 12" by (simp add: mask_eq_exp_minus_1)
  have "drop_bit 12 (va AND NOT (mask 12)) = drop_bit 12 va"
    by (rule bit_word_eqI) (auto simp: bit_simps dest: bit_imp_le_length)
  then show ?thesis unfolding VPN_def ROUNDDOWN_def m by simp
qed

section \<open>The invariant\<close>

text \<open>Mapped frames are in use, mappings are in the user area, the scratch page of the handler is
  not mapped, and a frame that may be written privately is mapped once.\<close>

definition vm_ok :: "vm \<Rightarrow> bool" where
  "vm_ok s \<longleftrightarrow> alive s (cur s) \<and> cur s \<noteq> 0 \<and>
    (\<forall>e v f fl. space s e v = Some (f, fl) \<longrightarrow> f < nfree s \<and> 0x3fe \<le> v \<and> v < 0x7f400 \<and> v \<noteq> 0x3ff \<and>
       (bit fl 8 \<and> \<not> bit fl 1 \<longrightarrow> \<not> bit fl 0)) \<and>
    (\<forall>e v f fl e' v' fl'. space s e v = Some (f, fl) \<and> bit fl 8 \<and> \<not> bit fl 1 \<and> space s e' v' = Some (f, fl') \<longrightarrow> e' = e \<and> v' = v)"

lemma vm_okD:
  assumes "vm_ok s"
  shows "alive s (cur s)" "cur s \<noteq> 0"
    and "space s e v = Some (f, fl) \<Longrightarrow> f < nfree s \<and> 0x3fe \<le> v \<and> v < 0x7f400 \<and> v \<noteq> 0x3ff \<and> (bit fl 8 \<and> \<not> bit fl 1 \<longrightarrow> \<not> bit fl 0)"
    and "space s e v = Some (f, fl) \<Longrightarrow> bit fl 8 \<Longrightarrow> \<not> bit fl 1 \<Longrightarrow> space s e' v' = Some (f, fl') \<Longrightarrow> e' = e \<and> v' = v"
  using assms unfolding vm_ok_def by blast+

section \<open>Duplicating the address space\<close>

text \<open>A page that is written privately becomes copy-on-write in both; the others are shared as they are.\<close>

definition share :: "u32 \<Rightarrow> bool" where
  "share fl \<longleftrightarrow> bit fl 8 \<and> \<not> bit fl 1 \<and> \<not> bit fl 0"

definition child_flags :: "u32 \<Rightarrow> u32" where
  "child_flags fl = (if share fl then mapped_flags PTE_COW else mapped_flags (fl AND 0xfff))"

definition parent_flags :: "u32 \<Rightarrow> u32" where
  "parent_flags fl = (if share fl then mapped_flags PTE_COW else fl)"

lemma child_flags_bits: "bit (child_flags fl) 8 \<longleftrightarrow> \<not> share fl \<and> bit fl 8" "bit (child_flags fl) 1 \<longleftrightarrow> \<not> share fl \<and> bit fl 1"
  "bit (child_flags fl) 0 \<longleftrightarrow> share fl \<or> bit fl 0"
  by (auto simp: child_flags_def cow_flags bit_mapped_flags bit_fff bit_COW simp del: One_nat_def)

lemma parent_flags_bits: "bit (parent_flags fl) 8 \<longleftrightarrow> \<not> share fl \<and> bit fl 8" "bit (parent_flags fl) 1 \<longleftrightarrow> \<not> share fl \<and> bit fl 1"
  "bit (parent_flags fl) 0 \<longleftrightarrow> share fl \<or> bit fl 0"
  by (auto simp: parent_flags_def cow_flags simp del: One_nat_def)

lemma mem_map_own:
  assumes "vm_ok s" "space s (cur s) v = Some (f, fl)" "\<forall>k. \<not> nomem s k" "alive s (env_of e s)"
  shows "syscall_mem_map 0 (push_bit 12 (of_nat v)) e (push_bit 12 (of_nat v)) perm s =
    (0, set_page (env_of e s) v (Some (f, mapped_flags perm)) (s\<lparr>ticks := ticks s + 1\<rparr>))"
proof -
  have v: "0x3fe \<le> v" "v < 0x7f400" using vm_okD(3) [OF assms(1,2)] by simp_all
  have "env_of 0 s = cur s" by (simp add: env_of_def)
  then show ?thesis
    using assms v vm_okD(1) [OF assms(1)] by (simp add: syscall_mem_map_def Let_def VPN_addr va_ok_addr)
qed

lemma duppage_eq:
  assumes "vm_ok s" "space s (cur s) v = Some (f, fl)" "\<forall>k. \<not> nomem s k" "alive s c" "c \<noteq> 0" "c \<noteq> cur s"
  shows "\<exists>t. duppage c v s = s\<lparr>ticks := t, space := (space s)
     (c := (space s c)(v \<mapsto> (f, child_flags fl)), cur s := (space s (cur s))(v \<mapsto> (f, parent_flags fl)))\<rparr>"
proof -
  have c: "env_of c s = c" "env_of 0 s = cur s" using assms(5) by (simp_all add: env_of_def)
  note m = mem_map_own [OF assms(1-3), of c]
  have D: "PTE_D \<noteq> 0" by (simp add: PTE_D_def)
  let ?s1 = "set_page c v (Some (f, mapped_flags PTE_COW)) (s\<lparr>ticks := ticks s + 1\<rparr>)"
  show ?thesis
  proof (cases "share fl")
    case True
    have v: "0x3fe \<le> v" "v < 0x7f400" using vm_okD(3) [OF assms(1,2)] by simp_all
    have "syscall_mem_map 0 (push_bit 12 (of_nat v)) 0 (push_bit 12 (of_nat v)) PTE_COW ?s1 =
        (0, set_page (cur s) v (Some (f, mapped_flags PTE_COW)) (?s1\<lparr>ticks := ticks s + 2\<rparr>))"
      using assms v vm_okD(1) [OF assms(1)]
      by (simp add: syscall_mem_map_def Let_def VPN_addr va_ok_addr set_page_def env_of_def)
    then have "duppage c v s = set_page (cur s) v (Some (f, mapped_flags PTE_COW)) (?s1\<lparr>ticks := ticks s + 2\<rparr>)"
      using True assms(2,4) m c D by (simp add: duppage_def Let_def pte_bits0 bit_fff share_def)
    then show ?thesis
      using True assms(6) by (intro exI [of _ "ticks s + 2"]) (simp add: set_page_def child_flags_def parent_flags_def fun_upd_twist)
  next
    case False
    have "duppage c v s = set_page c v (Some (f, mapped_flags (fl AND 0xfff))) (s\<lparr>ticks := ticks s + 1\<rparr>)"
      using False assms(2,4) m c by (auto simp: duppage_def Let_def pte_bits0 bit_fff share_def)
    then show ?thesis
      using False assms(2,6) by (intro exI [of _ "ticks s + 1"])
        (auto simp: set_page_def child_flags_def parent_flags_def fun_eq_iff)
  qed
qed

text \<open>The state of the loop of \<^verbatim>\<open>fork\<close> when the pages below \<open>n\<close> have been passed.\<close>

definition forked :: "nat \<Rightarrow> u32 \<Rightarrow> vm \<Rightarrow> vm \<Rightarrow> bool" where
  "forked n c s0 s \<longleftrightarrow> frame s = frame s0 \<and> alive s = alive s0 \<and> cur s = cur s0 \<and> nfree s = nfree s0 \<and> nomem s = nomem s0 \<and>
     (\<forall>v. space s c v = (if v < n then map_option (apsnd child_flags) (space s0 (cur s0) v) else None)) \<and>
     (\<forall>v. space s (cur s0) v = (if v < n then map_option (apsnd parent_flags) (space s0 (cur s0) v) else space s0 (cur s0) v)) \<and>
     (\<forall>e. e \<noteq> c \<and> e \<noteq> cur s0 \<longrightarrow> space s e = space s0 e)"

lemma forked_origin:
  assumes "forked n c s0 s" "c \<noteq> cur s0" "space s e v = Some (f, fl)"
  shows "\<exists>e0 fl0. space s0 e0 v = Some (f, fl0) \<and>
    (if e = c then e0 = cur s0 \<and> v < n \<and> fl = child_flags fl0
     else e0 = e \<and> fl = (if e = cur s0 \<and> v < n then parent_flags fl0 else fl0))"
proof -
  consider "e = c" | "e \<noteq> c" "e = cur s0" | "e \<noteq> c" "e \<noteq> cur s0" by blast
  then show ?thesis
  proof cases
    case 1
    then have "v < n" "map_option (apsnd child_flags) (space s0 (cur s0) v) = Some (f, fl)"
      using assms by (simp_all add: forked_def split: if_splits)
    with 1 show ?thesis by (auto simp: map_option_case split: option.splits)
  next
    case 2
    then have "(if v < n then map_option (apsnd parent_flags) (space s0 (cur s0) v) else space s0 (cur s0) v) = Some (f, fl)"
      using assms by (simp add: forked_def)
    with 2 show ?thesis by (auto split: if_splits)
  next
    case 3
    then have "space s0 e v = Some (f, fl)" using assms by (simp add: forked_def)
    with 3 show ?thesis by auto
  qed
qed

lemma forked_private:
  assumes "vm_ok s0" "forked n c s0 s" "c \<noteq> cur s0" "space s e v = Some (f, fl)" "bit fl 8" "\<not> bit fl 1"
  shows "e \<noteq> c \<and> space s0 e v = Some (f, fl) \<and> \<not> (e = cur s0 \<and> v < n)"
proof -
  obtain e0 fl0 where o: "space s0 e0 v = Some (f, fl0)"
    "if e = c then e0 = cur s0 \<and> v < n \<and> fl = child_flags fl0
     else e0 = e \<and> fl = (if e = cur s0 \<and> v < n then parent_flags fl0 else fl0)"
    using forked_origin [OF assms(2-4)] by blast
  have "\<not> (bit fl0 8 \<and> \<not> bit fl0 1 \<and> \<not> share fl0)"
    using vm_okD(3) [OF assms(1) o(1)] by (auto simp: share_def)
  moreover have "fl \<noteq> child_flags fl0" "fl \<noteq> parent_flags fl0"
    using assms(5,6) calculation by (auto simp: child_flags_bits parent_flags_bits simp del: One_nat_def)
  ultimately show ?thesis using o by (auto split: if_splits)
qed

lemma forked_vm_ok:
  assumes "vm_ok s0" "forked n c s0 s" "c \<noteq> cur s0"
  shows "vm_ok s"
  unfolding vm_ok_def
proof (intro conjI allI impI)
  show "alive s (cur s)" "cur s \<noteq> 0" using assms vm_okD(1,2) [OF assms(1)] by (simp_all add: forked_def)
next
  fix e v f fl assume m: "space s e v = Some (f, fl)"
  obtain e0 fl0 where o: "space s0 e0 v = Some (f, fl0)"
    using forked_origin [OF assms(2,3) m] by blast
  from vm_okD(3) [OF assms(1) o] show "f < nfree s" "0x3fe \<le> v" "v < 0x7f400" "v \<noteq> 0x3ff"
    using assms(2) by (auto simp: forked_def)
  assume p: "bit fl 8 \<and> \<not> bit fl 1"
  then have "space s0 e v = Some (f, fl)" using forked_private [OF assms m] by blast
  with p vm_okD(3) [OF assms(1)] show "\<not> bit fl 0" by blast
next
  fix e v f fl e' v' fl'
  assume *: "space s e v = Some (f, fl) \<and> bit fl 8 \<and> \<not> bit fl 1 \<and> space s e' v' = Some (f, fl')"
  then have p: "e \<noteq> c" "space s0 e v = Some (f, fl)" "\<not> (e = cur s0 \<and> v < n)"
    using forked_private [OF assms, of e v f fl] by blast+
  obtain e0 fl0 where o: "space s0 e0 v' = Some (f, fl0)" "if e' = c then e0 = cur s0 \<and> v' < n else e0 = e'"
    using forked_origin [OF assms(2,3), of e' v' f fl'] * by (metis (full_types))
  have "e0 = e \<and> v' = v" using vm_okD(4) [OF assms(1) p(2) _ _ o(1)] * by blast
  with o(2) p(3) show "e' = e" "v' = v" by (auto split: if_splits)
qed

lemma forked_step:
  assumes "vm_ok s0" "\<forall>k. \<not> nomem s0 k" "alive s0 c" "c \<noteq> 0" "c \<noteq> cur s0" "forked n c s0 s"
  shows "forked (Suc n) c s0 (fork_page c n s)"
proof -
  have cur: "cur s = cur s0" "nomem s = nomem s0" "alive s = alive s0" using assms(6) by (simp_all add: forked_def)
  show ?thesis
  proof (cases "space s (cur s) n")
    case None
    then show ?thesis using assms(6) unfolding forked_def by (auto simp: less_Suc_eq fork_page_def)
  next
    case (Some x)
    obtain f fl where x: "x = (f, fl)" by (cases x)
    have o: "space s0 (cur s0) n = Some (f, fl)" using Some x assms(6) by (simp add: forked_def)
    obtain t where "duppage c n s = s\<lparr>ticks := t, space := (space s)
        (c := (space s c)(n \<mapsto> (f, child_flags fl)), cur s := (space s (cur s))(n \<mapsto> (f, parent_flags fl)))\<rparr>"
      using duppage_eq [OF forked_vm_ok [OF assms(1,6,5)] Some [unfolded x], of c] assms cur by auto
    then show ?thesis using Some o assms(5,6) cur unfolding forked_def by (auto simp: less_Suc_eq fork_page_def)
  qed
qed

lemma forked_loop:
  assumes "vm_ok s0" "\<forall>k. \<not> nomem s0 k" "alive s0 c" "c \<noteq> 0" "c \<noteq> cur s0" "space s0 c = (\<lambda>_. None)"
  shows "forked n c s0 (fold (fork_page c) [0..<n] s0)"
proof (induction n)
  case 0
  then show ?case using assms(6) by (simp add: forked_def)
next
  case (Suc n)
  then show ?case using forked_step [OF assms(1-5) Suc] by simp
qed

lemma vm_ok_cong: "space s' = space s \<Longrightarrow> alive s' (cur s') \<Longrightarrow> cur s' = cur s \<Longrightarrow> nfree s' = nfree s \<Longrightarrow> vm_ok s \<Longrightarrow> vm_ok s'"
  by (simp add: vm_ok_def)

text \<open>C7. \<^verbatim>\<open>fork\<close> gives the child the parent's memory: when the kernel provides a new environment and
  memory, the parent gets its id, the child is runnable with the copy-on-write handler, it reads
  at every address below \<open>USTACKTOP\<close> what the parent reads there, no view of any other
  environment (the parent's included) changes, and every privately writable frame is mapped once.\<close>

theorem fork_copies:
  assumes "vm_ok s" "\<forall>k. \<not> nomem s k" "\<not> exo s <s 0" "exo s \<noteq> 0" "exo s \<noteq> cur s" "space s (exo s) = (\<lambda>_. None)"
  shows "\<exists>s'. fork cow s = (exo s, s') \<and> vm_ok s' \<and> runnable s' (exo s) \<and> mod_entry s' (exo s) = cow \<and> mod_entry s' (cur s) = cow \<and>
    (\<forall>va. view (exo s) va s' = (if VPN va < VPN USTACKTOP then view (cur s) va s else None)) \<and>
    (\<forall>e va. e \<noteq> exo s \<longrightarrow> view e va s' = view e va s)"
proof -
  let ?c = "exo s"
  let ?s0 = "s\<lparr>mod_entry := (mod_entry s)(cur s := cow), alive := (alive s)(?c := True)\<rparr>"
  have ok: "vm_ok ?s0" using assms(1,5) vm_okD(1) [OF assms(1)] by (intro vm_ok_cong [of ?s0 s]) simp_all
  define t where "t = fold (fork_page ?c) [0..<VPN USTACKTOP] ?s0"
  have f: "forked (VPN USTACKTOP) ?c ?s0 t"
    unfolding t_def by (rule forked_loop [OF ok]) (use assms in simp_all)
  define s' where "s' = t\<lparr>mod_entry := (mod_entry t)(?c := cow), runnable := (runnable t)(?c := True)\<rparr>"
  have a: "alive t ?c" "cur t = cur s" "frame t = frame s" using f by (simp_all add: forked_def)
  have dup: "mod_entry (duppage c i u) = mod_entry u" for c i u
    by (auto simp: duppage_def syscall_mem_map_def set_page_def Let_def split: option.splits prod.splits)
  have m: "mod_entry (fold (fork_page ?c) is u) = mod_entry u" for "is" u
    by (induction "is" arbitrary: u) (auto simp: dup fork_page_def)
  have idem: "(mod_entry s)(cur s := cow) = mod_entry s" if "mod_entry s (cur s) = cow" using that by auto
  have s0: "(let s = (if mod_entry s (cur s) \<noteq> cow then snd (syscall_set_tlb_mod_entry 0 cow s) else s) in syscall_exofork s) = (?c, ?s0)"
    using assms(3,6) vm_okD(1) [OF assms(1)] idem
    by (auto simp: Let_def syscall_set_tlb_mod_entry_def env_of_def syscall_exofork_def fun_upd_idem)
  have run: "fork cow s = (?c, s')"
    using s0 a(1) assms(4) unfolding fork_def Let_def
    by (simp add: t_def [symmetric] syscall_set_tlb_mod_entry_def syscall_set_env_runnable_def env_of_def s'_def Let_def)
  have "vm_ok s'"
    using forked_vm_ok [OF ok f] assms(5) a vm_okD(1) [OF forked_vm_ok [OF ok f]] by (intro vm_ok_cong [of s' t]) (simp_all add: s'_def)
  moreover have "view ?c va s' = (if VPN va < VPN USTACKTOP then view (cur s) va s else None)" for va
    using f assms(5) by (cases "space s (cur s) (VPN va)") (auto simp: view_def s'_def forked_def)
  moreover have "view e va s' = view e va s" if "e \<noteq> ?c" for e va
    using f assms(5) that by (cases "space s (cur s) (VPN va)"; cases "e = cur s") (auto simp: view_def s'_def forked_def)
  moreover have "mod_entry s' (cur s) = cow" using assms(5) by (simp add: s'_def t_def m)
  ultimately show ?thesis using run by (auto simp: s'_def)
qed

section \<open>Copy-on-write\<close>

definition cow_perm :: "u32 \<Rightarrow> u32" where
  "cow_perm fl = mapped_flags (((fl AND 0xfff) AND NOT PTE_COW) OR PTE_D)"

lemma cow_perm_bits: "bit (cow_perm fl) 8" "\<not> bit (cow_perm fl) 0" "bit (cow_perm fl) 1 \<longleftrightarrow> bit fl 1"
proof -
  have "bit ((x AND NOT PTE_COW) OR PTE_D) k \<longleftrightarrow> k = 8 \<or> bit x k \<and> k \<noteq> 0" for x k
    unfolding bit_or_iff bit_and_iff bit_not_iff bit_D bit_COW by (auto simp: possible_bit_word dest: bit_imp_le_length)
  then show "bit (cow_perm fl) 8" "\<not> bit (cow_perm fl) 0" "bit (cow_perm fl) 1 \<longleftrightarrow> bit fl 1"
    by (simp_all add: cow_perm_def bit_mapped_flags bit_fff del: One_nat_def)
qed

lemma cow_entry_eq:
  assumes "vm_ok s" "space s (cur s) (VPN va) = Some (f, fl)" "bit fl 0" "\<forall>k. \<not> nomem s k"
  shows "\<exists>t. cow_entry va s = Some (s\<lparr>ticks := t, nfree := nfree s + 1, frame := (frame s)(nfree s := frame s f),
     space := (space s)(cur s := (space s (cur s))(VPN va \<mapsto> (nfree s, cow_perm fl)))\<rparr>)"
proof -
  note d = vm_okD(3) [OF assms(1,2)]
  have ucow: "space s (cur s) 0x3ff = None"
    using vm_okD(3) [OF assms(1), of "cur s" "0x3ff"] by (cases "space s (cur s) 0x3ff") auto
  have va: "va_ok va" using d by (intro VPN_va_ok) simp_all
  have cur: "alive s (cur s)" "env_of 0 s = cur s" using vm_okD(1) [OF assms(1)] by (simp_all add: env_of_def)
  let ?p = "((fl AND 0xfff) AND NOT PTE_COW) OR PTE_D"
  let ?s1 = "set_page (cur s) 0x3ff (Some (nfree s, cow_perm fl))
     (s\<lparr>ticks := ticks s + 1, nfree := nfree s + 1, frame := (frame s)(nfree s := (\<lambda>_. 0))\<rparr>)"
  have a: "syscall_mem_alloc 0 UCOW ?p s = (0, ?s1)"
    using cur assms(4) by (simp add: syscall_mem_alloc_def Let_def VPN_UCOW cow_perm_def)
  let ?s2 = "?s1\<lparr>frame := (frame s)(nfree s := frame s f)\<rparr>"
  have c: "copy_page UCOW (ROUNDDOWN va PAGE_SIZE) ?s1 = Some ?s2"
    using assms(2) d cow_perm_bits(1) [of fl]
    by (simp add: copy_page_def VPN_UCOW VPN_ROUNDDOWN set_page_def pte_bits0)
  let ?s3 = "set_page (cur s) (VPN va) (Some (nfree s, cow_perm fl)) (?s2\<lparr>ticks := ticks s + 2\<rparr>)"
  have m: "syscall_mem_map 0 UCOW 0 va ?p ?s2 = (0, ?s3)"
    using assms(2) d va cur by (simp add: syscall_mem_map_def Let_def VPN_UCOW set_page_def env_of_def cow_perm_def)
  have u: "syscall_mem_unmap 0 UCOW ?s3 = (0, set_page (cur s) 0x3ff None ?s3)"
    using cur by (simp add: syscall_mem_unmap_def Let_def VPN_UCOW set_page_def env_of_def)
  have "cow_entry va s = Some (set_page (cur s) 0x3ff None ?s3)"
    using assms(2,3) a c m u by (simp add: cow_entry_def Let_def pte_bits0 bit_fff)
  moreover have "set_page (cur s) 0x3ff None ?s3 = s\<lparr>ticks := ticks s + 2, nfree := nfree s + 1, frame := (frame s)(nfree s := frame s f),
     space := (space s)(cur s := (space s (cur s))(VPN va \<mapsto> (nfree s, cow_perm fl)))\<rparr>"
    using ucow d by (auto simp: set_page_def fun_eq_iff)
  ultimately show ?thesis by auto
qed

lemma cow_vm_ok:
  assumes "vm_ok s" "space s (cur s) v = Some (f, fl)" "\<not> bit fl 1"
  shows "vm_ok (s\<lparr>ticks := t, nfree := nfree s + 1, frame := fr,
     space := (space s)(cur s := (space s (cur s))(v \<mapsto> (nfree s, cow_perm fl)))\<rparr>)" (is "vm_ok ?s")
  unfolding vm_ok_def
proof (intro conjI allI impI)
  show "alive ?s (cur ?s)" "cur ?s \<noteq> 0" using vm_okD(1,2) [OF assms(1)] by simp_all
next
  fix e w g gl assume "space ?s e w = Some (g, gl)"
  then have "space s e w = Some (g, gl) \<or> (w = v \<and> g = nfree s \<and> gl = cow_perm fl)" by (auto split: if_splits)
  then show "g < nfree ?s" "0x3fe \<le> w" "w < 0x7f400" "w \<noteq> 0x3ff" "bit gl 8 \<and> \<not> bit gl 1 \<Longrightarrow> \<not> bit gl 0"
    using vm_okD(3) [OF assms(1), of e w g gl] vm_okD(3) [OF assms(1,2)] cow_perm_bits [of fl] by auto
next
  fix e w g gl e' w' gl'
  assume *: "space ?s e w = Some (g, gl) \<and> bit gl 8 \<and> \<not> bit gl 1 \<and> space ?s e' w' = Some (g, gl')"
  have old: "g < nfree s" if "space s x y = Some (g, h)" for x y h using vm_okD(3) [OF assms(1) that] by blast
  show "e' = e" "w' = w"
    using * old vm_okD(4) [OF assms(1), of e w g gl e' w' gl'] by (auto split: if_splits)
qed

lemma private_write:
  assumes "vm_ok s" "space s (cur s) (VPN va) = Some (f, fl)" "bit fl 8" "\<not> bit fl 1"
  shows "view e va' (s\<lparr>frame := (frame s)(f := (frame s f)(va AND 0xfff := b))\<rparr>) =
    (if e = cur s \<and> va' = va then Some b else view e va' s)"
proof (cases "space s e (VPN va')")
  case (Some x)
  obtain g gl where x: "x = (g, gl)" by (cases x)
  have "e = cur s \<and> VPN va' = VPN va" if "g = f"
    using vm_okD(4) [OF assms(1-4)] Some x that by simp
  then show ?thesis using Some x assms(2) by (auto simp: view_def va_eq_iff [of va'])
next
  case None
  then show ?thesis using assms(2) by (auto simp: view_def)
qed

lemma store_page_ok:
  assumes "vm_ok s" "space s (cur s) (VPN va) = Some (f, fl)" "bit fl 8" "\<not> bit fl 1"
  obtains s' where "store_page va b s = Some s'" "vm_ok s'" "s' = s\<lparr>frame := frame s'\<rparr>"
    "\<And>e va'. view e va' s' = (if e = cur s \<and> va' = va then Some b else view e va' s)"
proof
  let ?s = "s\<lparr>frame := (frame s)(f := (frame s f)(va AND 0xfff := b))\<rparr>"
  show "store_page va b s = Some ?s" using assms(2,3) by (simp add: store_page_def pte_bits0)
  show "vm_ok ?s" using assms(1) by (simp add: vm_ok_def)
  show "view e va' ?s = (if e = cur s \<and> va' = va then Some b else view e va' s)" for e va'
    by (rule private_write [OF assms])
qed simp

text \<open>The handler: a private copy of the page, the views as before.\<close>

lemma cow_entry_ok:
  assumes "vm_ok s" "space s (cur s) (VPN va) = Some (f, fl)" "bit fl 0" "\<not> bit fl 1" "\<forall>k. \<not> nomem s k"
  obtains s' where "cow_entry va s = Some s'" "vm_ok s'" "cur s' = cur s" "mod_entry s' = mod_entry s"
    "space s' = (space s)(cur s := (space s (cur s))(VPN va \<mapsto> (nfree s, cow_perm fl)))"
    "\<And>e va'. view e va' s' = view e va' s"
proof -
  obtain t where t: "cow_entry va s = Some (s\<lparr>ticks := t, nfree := nfree s + 1, frame := (frame s)(nfree s := frame s f),
     space := (space s)(cur s := (space s (cur s))(VPN va \<mapsto> (nfree s, cow_perm fl)))\<rparr>)" (is "_ = Some ?t")
    using cow_entry_eq [OF assms(1-3,5)] by blast
  have "view e va' ?t = view e va' s" for e va'
  proof (cases "space s e (VPN va')")
    case (Some x)
    then obtain g gl where g: "x = (g, gl)" "g < nfree s"
      using vm_okD(3) [OF assms(1), of e "VPN va'" "fst x" "snd x"] by (cases x) simp
    then show ?thesis using Some assms(2) by (cases "e = cur s"; cases "VPN va' = VPN va") (simp_all add: view_def)
  qed (use assms(2) in \<open>auto simp: view_def\<close>)
  with t show thesis by (intro that [of ?t] cow_vm_ok [OF assms(1,2,4)]) simp_all
qed

section \<open>The exception stack\<close>

abbreviation XSTACK :: nat where "XSTACK \<equiv> 0x7f3ff"

text \<open>The page of the exception stack is missing, or the environment may write it and it is not shared.\<close>

definition xstack_ok :: "vm \<Rightarrow> bool" where
  "xstack_ok s \<longleftrightarrow> (case space s (cur s) XSTACK of None \<Rightarrow> True | Some (_, fl) \<Rightarrow> fl AND PTE_D \<noteq> 0 \<and> fl AND PTE_LIBRARY = 0)"

text \<open>Nothing has changed but the exception stack of the current environment.\<close>

definition only_xstack :: "vm \<Rightarrow> vm \<Rightarrow> bool" where
  "only_xstack s s' \<longleftrightarrow> cur s' = cur s \<and> mod_entry s' = mod_entry s \<and> nomem s' = nomem s \<and>
     (\<forall>e v. e \<noteq> cur s \<or> v \<noteq> XSTACK \<longrightarrow> space s' e v = space s e v) \<and>
     (\<forall>e va. e \<noteq> cur s \<or> VPN va \<noteq> XSTACK \<longrightarrow> view e va s' = view e va s)"

lemma only_xstack_refl [simp]: "only_xstack s s"
  by (simp add: only_xstack_def)

lemma only_xstack_trans: "only_xstack s s1 \<Longrightarrow> only_xstack s1 s2 \<Longrightarrow> only_xstack s s2"
  by (auto simp: only_xstack_def)

text \<open>What the page reads, a missing one as zero.\<close>

definition xbyte :: "vm \<Rightarrow> u32 \<Rightarrow> u8" where
  "xbyte s va = (case view (cur s) va s of None \<Rightarrow> 0 | Some x \<Rightarrow> x)"

lemma demand_vm_ok:
  assumes "vm_ok s" "0x3fe \<le> v" "v < 0x7f400" "v \<noteq> 0x3ff"
  shows "vm_ok (set_page (cur s) v (Some (nfree s, mapped_flags PTE_D))
     (s\<lparr>ticks := t, nfree := nfree s + 1, frame := fr\<rparr>))" (is "vm_ok ?s")
  unfolding vm_ok_def
proof (intro conjI allI impI)
  show "alive ?s (cur ?s)" "cur ?s \<noteq> 0" using vm_okD(1,2) [OF assms(1)] by (simp_all add: set_page_def)
next
  fix e w g gl assume "space ?s e w = Some (g, gl)"
  then have "space s e w = Some (g, gl) \<or> (w = v \<and> g = nfree s \<and> gl = mapped_flags PTE_D)"
    by (auto simp: set_page_def split: if_splits)
  then show "g < nfree ?s" "0x3fe \<le> w" "w < 0x7f400" "w \<noteq> 0x3ff" "bit gl 8 \<and> \<not> bit gl 1 \<Longrightarrow> \<not> bit gl 0"
    using vm_okD(3) [OF assms(1), of e w g gl] assms(2-4)
    by (auto simp: set_page_def bit_mapped_flags bit_D simp del: One_nat_def)
next
  fix e w g gl e' w' gl'
  assume *: "space ?s e w = Some (g, gl) \<and> bit gl 8 \<and> \<not> bit gl 1 \<and> space ?s e' w' = Some (g, gl')"
  have old: "g < nfree s" if "space s x y = Some (g, h)" for x y h using vm_okD(3) [OF assms(1) that] by blast
  show "e' = e" "w' = w"
    using * old vm_okD(4) [OF assms(1), of e w g gl e' w' gl'] by (auto simp: set_page_def split: if_splits)
qed

lemma XSTACK_va: "VPN va = XSTACK \<Longrightarrow> \<not> va < UTEMP \<and> \<not> (USTACKTOP \<le> va \<and> va < USTACKTOP + PAGE_SIZE) \<and> \<not> UTOP \<le> va"
  using div_times_less_eq_dividend [of "unat va" 4096] dividend_less_div_times [of 4096 "unat va"]
  by (simp add: VPN_def unat_drop_bit_div word_le_nat_alt word_less_nat_alt)

lemma xstack_demand:
  assumes ok: "vm_ok s" and mem: "\<forall>k. \<not> nomem s k" and none: "space s (cur s) XSTACK = None" and va: "VPN va = XSTACK"
  obtains s' where "demand_page va s = Some s'" "vm_ok s'" "only_xstack s s'"
    "space s' (cur s) XSTACK = Some (nfree s, mapped_flags PTE_D)"
    "\<And>c. VPN c = XSTACK \<Longrightarrow> view (cur s) c s' = Some 0"
proof -
  let ?s = "set_page (cur s) XSTACK (Some (nfree s, mapped_flags PTE_D))
    (s\<lparr>ticks := ticks s + 1, nfree := nfree s + 1, frame := (frame s)(nfree s := (\<lambda>_. 0))\<rparr>)"
  have "demand_page va s = Some ?s" using XSTACK_va [OF va] va mem by (simp add: demand_page_def)
  moreover have "vm_ok ?s" by (rule demand_vm_ok [OF ok]) simp_all
  moreover have "view e c ?s = view e c s" if "e \<noteq> cur s \<or> VPN c \<noteq> XSTACK" for e c
  proof (cases "space s e (VPN c)")
    case (Some x)
    then have "fst x < nfree s" using vm_okD(3) [OF ok, of e "VPN c" "fst x" "snd x"] by simp
    then have "frame ?s (fst x) = frame s (fst x)" "space ?s e (VPN c) = Some x"
      using Some that by (auto simp: set_page_def)
    then show ?thesis using Some by (simp add: view_def case_prod_beta)
  qed (use that in \<open>auto simp: view_def set_page_def\<close>)
  then have "only_xstack s ?s" by (auto simp: only_xstack_def set_page_def)
  ultimately show thesis by (rule that) (simp_all add: set_page_def view_def)
qed

lemma stack_store_ok:
  assumes ok: "vm_ok s" and mem: "\<forall>k. \<not> nomem s k" and x: "xstack_ok s" and va: "VPN va = XSTACK"
  obtains s' where "stack_store va b s = Some s'" "vm_ok s'" "xstack_ok s'" "only_xstack s s'"
    "\<And>c. VPN c = XSTACK \<Longrightarrow> view (cur s) c s' = Some (if c = va then b else xbyte s c)"
proof -
  obtain s1 f fl where s1: "(if space s (cur s) (VPN va) = None then demand_page va s else Some s) = Some s1"
    "vm_ok s1" "only_xstack s s1" "space s1 (cur s) XSTACK = Some (f, fl)" "bit fl 8" "\<not> bit fl 1"
    and v1: "\<And>c. VPN c = XSTACK \<Longrightarrow> view (cur s) c s1 = Some (xbyte s c)"
  proof (cases "space s (cur s) XSTACK")
    case None
    then have "xbyte s c = 0" if "VPN c = XSTACK" for c using that by (simp add: xbyte_def view_def)
    moreover have "bit (mapped_flags PTE_D) 8" "\<not> bit (mapped_flags PTE_D) 1"
      by (simp_all add: bit_mapped_flags bit_D del: One_nat_def)
    ultimately show thesis
      by (rule_tac xstack_demand [OF ok mem None va]) (rule that, use None va in auto)
  next
    case (Some y)
    obtain f fl where y: "y = (f, fl)" by (cases y)
    have "view (cur s) c s = Some (xbyte s c)" if "VPN c = XSTACK" for c
      using that Some by (simp add: xbyte_def view_def)
    then show thesis
      using Some y x va ok by (intro that [of s f fl]) (simp_all add: xstack_ok_def pte_bits0 del: One_nat_def)
  qed
  have cur: "cur s1 = cur s" using s1(3) by (simp add: only_xstack_def)
  have sp: "space s1 (cur s1) (VPN va) = Some (f, fl)" using s1(4) cur va by simp
  obtain s' where s': "store_page va b s1 = Some s'" "vm_ok s'" "s' = s1\<lparr>frame := frame s'\<rparr>"
    "\<And>e va'. view e va' s' = (if e = cur s1 \<and> va' = va then Some b else view e va' s1)"
    by (rule store_page_ok [OF s1(2) sp s1(5,6), where b = b], rule that)
  have same: "cur s' = cur s1" "space s' = space s1" "mod_entry s' = mod_entry s1" "nomem s' = nomem s1"
    by (subst s'(3), simp)+
  have "only_xstack s1 s'" using s'(4) va same cur by (auto simp: only_xstack_def)
  moreover have "xstack_ok s'" using s1(4-6) same cur by (simp add: xstack_ok_def pte_bits0 del: One_nat_def)
  moreover have "stack_store va b s = Some s'" unfolding stack_store_def s1(1) using s'(1) by simp
  ultimately show thesis
    using s' v1 cur by (intro that [of s']) (auto intro: only_xstack_trans [OF s1(3)])
qed

lemma VPN_of_nat: "n < 2 ^ 32 \<Longrightarrow> VPN (of_nat n) = n div 4096"
  by (simp add: VPN_def unat_drop_bit_div unat_of_nat take_bit_eq_mod)

lemma stack_stores_ok:
  assumes "vm_ok s" "\<forall>k. \<not> nomem s k" "xstack_ok s" "0x7f3ff000 \<le> n" "n + length L \<le> 0x7f400000"
  shows "\<exists>s'. stack_stores L (of_nat n) s = Some s' \<and> vm_ok s' \<and> xstack_ok s' \<and> only_xstack s s' \<and>
    (\<forall>c. VPN c = XSTACK \<longrightarrow> L \<noteq> [] \<longrightarrow> view (cur s) c s' = Some (xbyte s' c)) \<and>
    (\<forall>c. VPN c = XSTACK \<longrightarrow> xbyte s' c = (if n \<le> unat c \<and> unat c < n + length L then L ! (unat c - n) else xbyte s c))"
  using assms
proof (induction L arbitrary: n s)
  case (Cons b L)
  have va: "VPN (of_nat n) = XSTACK" using Cons.prems(4,5) by (simp add: VPN_of_nat)
  obtain s1 where s1: "stack_store (of_nat n) b s = Some s1" "vm_ok s1" "xstack_ok s1" "only_xstack s s1"
    "\<And>c. VPN c = XSTACK \<Longrightarrow> view (cur s) c s1 = Some (if c = of_nat n then b else xbyte s c)"
    by (rule stack_store_ok [OF Cons.prems(1-3) va, where b = b], rule that)
  have cur: "cur s1 = cur s" "\<forall>k. \<not> nomem s1 k" using s1(4) Cons.prems(2) by (simp_all add: only_xstack_def)
  have x1: "xbyte s1 c = (if unat c = n then b else xbyte s c)" if "VPN c = XSTACK" for c
    using s1(5) [OF that] Cons.prems(5) by (auto simp: xbyte_def cur(1) unat_of_nat take_bit_eq_mod)
  obtain s2 where s2: "stack_stores L (of_nat (Suc n)) s1 = Some s2" "vm_ok s2" "xstack_ok s2" "only_xstack s1 s2"
    "\<forall>c. VPN c = XSTACK \<longrightarrow> L \<noteq> [] \<longrightarrow> view (cur s1) c s2 = Some (xbyte s2 c)"
    "\<forall>c. VPN c = XSTACK \<longrightarrow> xbyte s2 c = (if Suc n \<le> unat c \<and> unat c < Suc n + length L then L ! (unat c - Suc n) else xbyte s1 c)"
    using Cons.IH [OF s1(2) cur(2) s1(3), of "Suc n"] Cons.prems(4,5) by auto
  have "stack_stores (b # L) (of_nat n) s = Some s2" using s1(1) s2(1) by (simp add: add.commute)
  moreover have "view (cur s) c s2 = Some (xbyte s2 c)" if "VPN c = XSTACK" for c
  proof (cases "L = []")
    case True
    then have e: "s2 = s1" using s2(1) by simp
    have "view (cur s) c s1 \<noteq> None" using s1(5) [OF that] by simp
    then show ?thesis unfolding e xbyte_def cur(1) by (auto split: option.splits)
  qed (use s2(5) that cur in simp)
  moreover have "xbyte s2 c = (if n \<le> unat c \<and> unat c < n + length (b # L) then (b # L) ! (unat c - n) else xbyte s c)"
    if "VPN c = XSTACK" for c
    using s2(6) x1 [OF that] that by (auto simp: nth_Cons' Suc_diff_Suc not_less_eq_eq)
  ultimately show ?case
    using s2(2,3) only_xstack_trans [OF s1(4) s2(4)] by blast
qed auto

text \<open>Kernel and handler on the exception stack: below its top the saved frame, below that what the
  handler leaves.\<close>

lemma tlb_mod_ok:
  assumes ok: "vm_ok s" "\<forall>k. \<not> nomem s k" "xstack_ok s" and entry: "mod_entry s (cur s) = cow" "cow \<noteq> 0"
    and tf: "length tf = 152" and room: "0x7f3ff000 + 152 + length scratch \<le> unat (exc_top sp)"
  obtains a0 s1 s2 where "vm_tlb_mod sp tf s = Some (a0, s1)" "mod_entry s1 (cur s1) = cow"
    "stack_stores scratch (a0 - of_nat (length scratch)) s1 = Some s2" "vm_ok s2" "xstack_ok s2" "only_xstack s s2"
    "\<And>c. VPN c = XSTACK \<Longrightarrow> view (cur s) c s2 = Some (let k = unat (exc_top sp) - 152 - length scratch in
       if k \<le> unat c \<and> unat c < unat (exc_top sp) then (scratch @ tf) ! (unat c - k) else xbyte s c)"
proof -
  define n where "n = unat (exc_top sp)"
  have n: "n \<le> 0x7f400000" "exc_top sp = of_nat n" by (auto simp: n_def word_less_nat_alt word_le_nat_alt)
  have room': "0x7f3ff000 + 152 + length scratch \<le> n" using room by (simp add: n_def)
  have a0: "exc_top sp - 152 = of_nat (n - 152)" using room' by (simp add: n(2))
  have a1: "exc_top sp - 152 - of_nat (length scratch) = of_nat (n - 152 - length scratch)" using room' by (simp add: a0)
  have pre: "0x7f3ff000 \<le> n - 152" "n - 152 + length tf \<le> 0x7f400000" "0x7f3ff000 \<le> n - 152 - length scratch"
    "n - 152 - length scratch + length scratch \<le> 0x7f400000"
    using room' n(1) tf by simp_all
  obtain s1 where s1: "stack_stores tf (of_nat (n - 152)) s = Some s1" "vm_ok s1" "xstack_ok s1" "only_xstack s s1"
    "\<forall>c. VPN c = XSTACK \<longrightarrow> tf \<noteq> [] \<longrightarrow> view (cur s) c s1 = Some (xbyte s1 c)"
    "\<forall>c. VPN c = XSTACK \<longrightarrow> xbyte s1 c =
       (if n - 152 \<le> unat c \<and> unat c < n - 152 + length tf then tf ! (unat c - (n - 152)) else xbyte s c)"
    using stack_stores_ok [OF ok pre(1,2)] by blast
  have cur: "cur s1 = cur s" "mod_entry s1 = mod_entry s" "\<forall>k. \<not> nomem s1 k"
    using s1(4) ok(2) by (simp_all add: only_xstack_def)
  obtain s2 where s2: "stack_stores scratch (of_nat (n - 152 - length scratch)) s1 = Some s2" "vm_ok s2" "xstack_ok s2" "only_xstack s1 s2"
    "\<forall>c. VPN c = XSTACK \<longrightarrow> scratch \<noteq> [] \<longrightarrow> view (cur s1) c s2 = Some (xbyte s2 c)"
    "\<forall>c. VPN c = XSTACK \<longrightarrow> xbyte s2 c =
       (if n - 152 - length scratch \<le> unat c \<and> unat c < n - 152 - length scratch + length scratch
        then scratch ! (unat c - (n - 152 - length scratch)) else xbyte s1 c)"
    using stack_stores_ok [OF s1(2) cur(3) s1(3) pre(3,4)] by blast
  have "view (cur s) c s2 = Some (xbyte s2 c)" if c: "VPN c = XSTACK" for c
    using s2(1,5) s1(5) c tf cur(1) by (cases "scratch = []") auto
  moreover have "xbyte s2 c = (let k = n - 152 - length scratch in
      if k \<le> unat c \<and> unat c < n then (scratch @ tf) ! (unat c - k) else xbyte s c)" if "VPN c = XSTACK" for c
    using s2(6) s1(6) that tf room' by (auto simp: Let_def nth_append)
  moreover have "vm_tlb_mod sp tf s = Some (exc_top sp - 152, s1)"
    using s1(1) entry cur unfolding vm_tlb_mod_def Let_def a0 by simp
  ultimately show thesis
    using s2 a1 only_xstack_trans [OF s1(4) s2(4)] entry cur by (intro that [of "exc_top sp - 152" s1 s2]) (simp_all only: n_def)
qed

text \<open>C15. Copy-on-write isolates the environments: a store to a private page, writable or shared
  copy-on-write, returns (with memory available, \<^verbatim>\<open>cow_entry\<close> registered and room on the exception
  stack). No other environment reads anything else than before. The environment that stores reads the
  new byte at \<open>va\<close> and what it read before everywhere else, except that after a TLB Mod exception its
  exception stack holds the trap frame the kernel saved and, below it, what the handler left there;
  the other bytes of that page are unchanged, or zero if the page was not there.\<close>

theorem cow_store_isolated:
  assumes "vm_ok s" "space s (cur s) (VPN va) = Some (f, fl)" "fl AND PTE_LIBRARY = 0"
    and "fl AND PTE_D \<noteq> 0 \<or> fl AND PTE_COW \<noteq> 0" "\<forall>k. \<not> nomem s k"
    and "mod_entry s (cur s) = cow" "cow \<noteq> 0" "xstack_ok s"
    and "length tf = 152" "0x7f3ff000 + 152 + length scratch \<le> unat (exc_top sp)"
  shows "\<exists>s'. user_store cow sp tf scratch va b s = Some s' \<and> vm_ok s' \<and> xstack_ok s' \<and>
    (\<forall>e va'. e \<noteq> cur s \<longrightarrow> view e va' s' = view e va' s) \<and>
    (\<forall>va'. view (cur s) va' s' =
      (if va' = va then Some b
       else if fl AND PTE_D \<noteq> 0 \<or> VPN va' \<noteq> XSTACK then view (cur s) va' s
       else Some (let k = unat (exc_top sp) - 152 - length scratch in
         if k \<le> unat va' \<and> unat va' < unat (exc_top sp) then (scratch @ tf) ! (unat va' - k) else xbyte s va')))"
proof (cases "bit fl 8")
  case True
  have l: "\<not> bit fl 1" using assms(3) by (simp add: pte_bits0)
  obtain s' where s': "store_page va b s = Some s'" "vm_ok s'" "s' = s\<lparr>frame := frame s'\<rparr>"
    "\<And>e va'. view e va' s' = (if e = cur s \<and> va' = va then Some b else view e va' s)"
    by (rule store_page_ok [OF assms(1,2) True l, where b = b], rule that)
  have "space s' = space s" "cur s' = cur s" by (subst s'(3), simp)+
  then have "xstack_ok s'" using assms(8) by (simp add: xstack_ok_def)
  moreover have "user_store cow sp tf scratch va b s = Some s'"
    using True assms(2) s'(1) by (simp add: user_store_def pte_bits0)
  ultimately show ?thesis using s'(2,4) True by (auto simp: pte_bits0)
next
  case False
  then have c: "bit fl 0" "\<not> bit fl 1" using assms(3,4) by (simp_all add: pte_bits0)
  have nx: "VPN va \<noteq> XSTACK" using assms(2,8) False by (auto simp: xstack_ok_def pte_bits0)
  obtain a0 s1 s2 where k: "vm_tlb_mod sp tf s = Some (a0, s1)" "mod_entry s1 (cur s1) = cow"
    "stack_stores scratch (a0 - of_nat (length scratch)) s1 = Some s2" "vm_ok s2" "xstack_ok s2" "only_xstack s s2"
    and x: "\<And>c. VPN c = XSTACK \<Longrightarrow> view (cur s) c s2 = Some (let k = unat (exc_top sp) - 152 - length scratch in
       if k \<le> unat c \<and> unat c < unat (exc_top sp) then (scratch @ tf) ! (unat c - k) else xbyte s c)"
    by (rule tlb_mod_ok [OF assms(1,5,8,6,7,9,10)], rule that)
  have s2: "cur s2 = cur s" "space s2 (cur s2) (VPN va) = Some (f, fl)" "\<forall>k. \<not> nomem s2 k"
    using k(6) nx assms(2,5) by (simp_all add: only_xstack_def)
  have v2: "view e va' s2 = view e va' s" if "e \<noteq> cur s \<or> VPN va' \<noteq> XSTACK" for e va'
    using k(6) that by (simp add: only_xstack_def)
  obtain s3 where s3: "cow_entry va s2 = Some s3" "vm_ok s3" "cur s3 = cur s2"
    "space s3 = (space s2)(cur s2 := (space s2 (cur s2))(VPN va \<mapsto> (nfree s2, cow_perm fl)))"
    "\<And>e va'. view e va' s3 = view e va' s2"
    by (rule cow_entry_ok [OF k(4) s2(2) c s2(3)], rule that)
  have sp3: "space s3 (cur s3) (VPN va) = Some (nfree s2, cow_perm fl)" using s3(3,4) by simp
  have priv: "\<not> bit (cow_perm fl) 1" using c(2) cow_perm_bits(3) [of fl] by simp
  obtain s' where s': "store_page va b s3 = Some s'" "vm_ok s'" "s' = s3\<lparr>frame := frame s'\<rparr>"
    "\<And>e va'. view e va' s' = (if e = cur s3 \<and> va' = va then Some b else view e va' s3)"
    by (rule store_page_ok [OF s3(2) sp3 cow_perm_bits(1) priv, where b = b], rule that)
  have "space s' = space s3" "cur s' = cur s3" by (subst s'(3), simp)+
  then have "xstack_ok s'" using k(5) nx s3(3,4) by (simp add: xstack_ok_def)
  moreover have "user_store cow sp tf scratch va b s = Some s'"
    using False assms(2) k(1-3) s3(1) s'(1) by (simp add: user_store_def pte_bits0)
  moreover have "view e va' s' = view e va' s" if "e \<noteq> cur s" for e va'
    using that s'(4) s3(3,5) s2(1) v2 by simp
  moreover have "view (cur s) va' s' = (if va' = va then Some b else view (cur s) va' s2)" for va'
    using s'(4) s3(3,5) s2(1) by simp
  ultimately show ?thesis
    using s'(2) v2 x False nx by (intro exI [of _ s']) (simp add: pte_bits0)
qed
text \<open>The witnesses: an environment with one private page at \<open>UTEXT\<close>, before and after a fork.\<close>

definition demo_vm :: vm where
  "demo_vm = \<lparr>frame = (\<lambda>_ _. 0), space = (\<lambda>_ _. None)(0x800 := [0x400 \<mapsto> (0, mapped_flags PTE_D)]), alive = (\<lambda>e. e = 0x800),
     runnable = (\<lambda>e. e = 0x800), mod_entry = (\<lambda>_. 0), cur = 0x800, nfree = 1, nomem = (\<lambda>_. False), ticks = 0, exo = 0x1001\<rparr>"

lemma demo_vm_ok: "vm_ok demo_vm"
  by (auto simp: vm_ok_def demo_vm_def bit_mapped_flags bit_D split: if_splits simp del: One_nat_def)

theorem fork_copies_witness:
  "\<exists>s'. fork 0x400100 demo_vm = (0x1001, s') \<and> vm_ok s' \<and> view 0x1001 0x400010 s' = Some 0"
proof -
  have v: "VPN 0x400010 = 0x400" "VPN USTACKTOP = 0x7f3fe" by (simp_all add: VPN_def unat_drop_bit_div)
  have w: "view 0x800 0x400010 demo_vm = Some 0" using v by (simp add: view_def demo_vm_def)
  have d: "\<forall>k. \<not> nomem demo_vm k" "exo demo_vm = 0x1001" "cur demo_vm = 0x800" "space demo_vm 0x1001 = (\<lambda>_. None)"
    by (simp_all add: demo_vm_def)
  have "\<not> (0x1001 :: u32) <s 0" by (simp add: word_sless_alt)
  with fork_copies [OF demo_vm_ok d(1), of "0x400100", unfolded d] d(4) obtain s' where
    "fork 0x400100 demo_vm = (0x1001, s')" "vm_ok s'" "view 0x1001 0x400010 s' = view 0x800 0x400010 demo_vm"
    using v by auto
  with w show ?thesis by auto
qed

text \<open>The parent after the fork: its page is copy-on-write, its exception stack not yet there.\<close>

definition demo_cow :: vm where
  "demo_cow = demo_vm\<lparr>space := (\<lambda>_ _. None)(0x800 := [0x400 \<mapsto> (0, mapped_flags PTE_COW)], 0x1001 := [0x400 \<mapsto> (0, mapped_flags PTE_COW)]),
     mod_entry := (\<lambda>_. 0x400100)\<rparr>"

lemma demo_cow_ok: "vm_ok demo_cow" "xstack_ok demo_cow" "\<forall>k. \<not> nomem demo_cow k" "cur demo_cow = 0x800"
  by (auto simp: vm_ok_def xstack_ok_def demo_cow_def demo_vm_def cow_flags split: if_splits simp del: One_nat_def)

theorem cow_store_isolated_witness:
  "\<exists>s'. user_store 0x400100 0x7f3fdf00 (replicate 152 5) (replicate 64 9) 0x400010 7 demo_cow = Some s' \<and> vm_ok s' \<and>
    view 0x800 0x400010 s' = Some 7 \<and> view 0x1001 0x400010 s' = Some 0 \<and> view 0x800 0x7f3fffff s' = Some 5 \<and>
    view 0x800 0x7f3ff000 s' = Some 0"
proof -
  have v: "VPN 0x400010 = 0x400" "VPN 0x7f3fffff = XSTACK" "VPN 0x7f3ff000 = XSTACK" by (simp_all add: VPN_def unat_drop_bit_div)
  have s: "space demo_cow (cur demo_cow) (VPN 0x400010) = Some (0, mapped_flags PTE_COW)" "mod_entry demo_cow (cur demo_cow) = 0x400100"
    "(0x400100 :: u32) \<noteq> 0" by (simp_all add: demo_cow_def demo_vm_def v)
  have fl: "mapped_flags PTE_COW AND PTE_LIBRARY = 0" "mapped_flags PTE_COW AND PTE_D = 0" "mapped_flags PTE_COW AND PTE_COW \<noteq> 0"
    by (simp_all add: pte_bits0 cow_flags del: One_nat_def)
  have child: "view 0x1001 0x400010 demo_cow = Some 0" by (simp add: view_def demo_cow_def demo_vm_def v)
  have zero: "xbyte demo_cow 0x7f3ff000 = 0" by (simp add: xbyte_def view_def demo_cow_def demo_vm_def v)
  have room: "length (replicate 152 (5 :: u8)) = 152" "0x7f3ff000 + 152 + length (replicate 64 (9 :: u8)) \<le> unat (exc_top 0x7f3fdf00)"
    by simp_all
  obtain s' where s': "user_store 0x400100 0x7f3fdf00 (replicate 152 5) (replicate 64 9) 0x400010 7 demo_cow = Some s'" "vm_ok s'"
    "\<And>e va'. e \<noteq> cur demo_cow \<Longrightarrow> view e va' s' = view e va' demo_cow"
    "\<And>va'. view (cur demo_cow) va' s' = (if va' = 0x400010 then Some 7
       else if mapped_flags PTE_COW AND PTE_D \<noteq> 0 \<or> VPN va' \<noteq> XSTACK then view (cur demo_cow) va' demo_cow
       else Some (let k = unat (exc_top 0x7f3fdf00) - 152 - length (replicate 64 (9 :: u8)) in
         if k \<le> unat va' \<and> unat va' < unat (exc_top 0x7f3fdf00) then (replicate 64 9 @ replicate 152 5) ! (unat va' - k) else xbyte demo_cow va'))"
    using cow_store_isolated [OF demo_cow_ok(1) s(1) fl(1) disjI2 [OF fl(3)] demo_cow_ok(3) s(2,3) demo_cow_ok(2) room, of 7] by blast
  have "view 0x800 0x400010 s' = Some 7" "view 0x800 0x7f3fffff s' = Some 5" "view 0x800 0x7f3ff000 s' = Some 0"
    using s'(4) [of "0x400010"] s'(4) [of "0x7f3fffff"] s'(4) [of "0x7f3ff000"] fl(2) v zero
    by (simp_all add: demo_cow_ok(4) Let_def nth_append)
  with s'(1,2) s'(3) [of "0x1001"] child show ?thesis by (simp add: demo_cow_ok(4))
qed

end
