(* ===== verification/MOS_Shell.thy ===== *)
theory MOS_Shell
  imports MOS_Prelude
begin

text \<open>
  The tokenizer of the shell: \<^verbatim>\<open>_gettoken\<close> and \<^verbatim>\<open>gettoken\<close> of \<^verbatim>\<open>user/sh.c\<close>.

  The command line is a list of bytes with its terminator, a pointer into it is an index, \<open>None\<close>
  is the null pointer. The buffer is changed as in the source: blanks and operators become zero
  bytes, which terminate the words before them. Leaving the buffer is \<open>None\<close>.
\<close>

definition is_white :: "u8 \<Rightarrow> bool" where
  "is_white c \<longleftrightarrow> c \<in> {0x20, 0x09, 0x0D, 0x0A}"

definition is_symbol :: "u8 \<Rightarrow> bool" where
  "is_symbol c \<longleftrightarrow> c \<in> {0x3C, 0x7C, 0x3E, 0x26, 0x3B, 0x28, 0x29}"

section \<open>The pointer loops\<close>

text \<open>\<^verbatim>\<open>while (strchr(WHITESPACE, *s)) *s++ = 0\<close>\<close>

function skip_white :: "u8 list \<Rightarrow> nat \<Rightarrow> (u8 list \<times> nat) option" where
  "skip_white b i = (if i < length b then if is_white (b ! i) then skip_white (b[i := 0]) (i + 1) else Some (b, i) else None)"
  by pat_completeness auto
termination by (relation "measure (\<lambda>(b, i). length b - i)") auto

text \<open>\<^verbatim>\<open>do { s++; } while (*s && *s != q)\<close>\<close>

function close_quote :: "u8 \<Rightarrow> u8 list \<Rightarrow> nat \<Rightarrow> nat option" where
  "close_quote q b i = (if i + 1 < length b then if b ! (i + 1) \<noteq> 0 \<and> b ! (i + 1) \<noteq> q then close_quote q b (i + 1) else Some (i + 1) else None)"
  by pat_completeness auto
termination by (relation "measure (\<lambda>(_, b, i). length b - i)") auto

text \<open>\<^verbatim>\<open>while (*s && !strchr(WHITESPACE SYMBOLS, *s)) s++\<close>\<close>

function word_end :: "u8 list \<Rightarrow> nat \<Rightarrow> nat option" where
  "word_end b i = (if i < length b then if b ! i \<noteq> 0 \<and> \<not> is_white (b ! i) \<and> \<not> is_symbol (b ! i) then word_end b (i + 1) else Some i else None)"
  by pat_completeness auto
termination by (relation "measure (\<lambda>(b, i). length b - i)") auto

declare skip_white.simps [simp del] close_quote.simps [simp del] word_end.simps [simp del]

section \<open>The tokenizer\<close>

text \<open>The token code with what is stored through \<^verbatim>\<open>p1\<close> and \<^verbatim>\<open>p2\<close>, and the buffer.\<close>

type_synonym lexed = "u8 \<times> nat option \<times> nat option \<times> u8 list"

definition double :: "u8 \<Rightarrow> u8 list \<Rightarrow> nat \<Rightarrow> bool" where
  "double c b i \<longleftrightarrow> b ! i = c \<and> i + 1 < length b \<and> b ! (i + 1) = c"

definition gettoken1 :: "u8 list \<Rightarrow> nat option \<Rightarrow> lexed option" where
  "gettoken1 b s =
    (case s of
       None \<Rightarrow> Some (0, None, None, b)
     | Some i \<Rightarrow> do {
         (b, i) \<leftarrow> skip_white b i;
         let quoted = (\<lambda>q. do { j \<leftarrow> close_quote q b i; Some (0x77, Some i, Some (j + 1), b[j := 0]) });
         if b ! i = 0 then Some (0, None, None, b)
         else if b ! i = 0x22 then quoted 0x22
         else if b ! i = 0x60 then quoted 0x60
         else if double 0x3E b i then Some (0x61, Some i, Some (i + 2), b[i := 0, i + 1 := 0])
         else if double 0x7C b i then Some (0x4F, Some i, Some (i + 2), b[i := 0, i + 1 := 0])
         else if double 0x26 b i then Some (0x41, Some i, Some (i + 2), b[i := 0, i + 1 := 0])
         else if is_symbol (b ! i) then Some (b ! i, Some i, Some (i + 1), b[i := 0])
         else do { j \<leftarrow> word_end b i; Some (0x77, Some i, Some j, b) }
       })"

text \<open>The static variables of \<^verbatim>\<open>gettoken\<close>: the next token.\<close>

record lexer =
  nc :: u8
  np1 :: "nat option"
  np2 :: "nat option"
  lbuf :: "u8 list"

definition gettoken_start :: "u8 list \<Rightarrow> nat \<Rightarrow> lexer option" where
  "gettoken_start b s = do { (c, p1, p2, b) \<leftarrow> gettoken1 b (Some s); Some \<lparr>nc = c, np1 = p1, np2 = p2, lbuf = b\<rparr> }"

definition gettoken :: "lexer \<Rightarrow> (u8 \<times> nat option \<times> lexer) option" where
  "gettoken l = do {
     (c, p1, p2, b) \<leftarrow> gettoken1 (lbuf l) (np2 l);
     Some (nc l, np1 l, \<lparr>nc = c, np1 = p1, np2 = p2, lbuf = b\<rparr>)
   }"

text \<open>All calls of \<^verbatim>\<open>gettoken\<close> up to the end of the line.\<close>

partial_function (option) tokens :: "lexer \<Rightarrow> ((u8 \<times> nat option) list \<times> u8 list) option" where
  "tokens l = do {
     (c, p1, l) \<leftarrow> gettoken l;
     if c = 0 then Some ([], lbuf l)
     else do { (ts, b) \<leftarrow> tokens l; Some ((c, p1) # ts, b) }
   }"

section \<open>The reference\<close>

datatype token = Word "u8 list" | Op u8

definition word_char :: "u8 \<Rightarrow> bool" where
  "word_char c \<longleftrightarrow> \<not> is_white c \<and> \<not> is_symbol c"

text \<open>A quoted word starts with its quote, which the shell removes later; without a closing quote
  there is no token.\<close>

function lex :: "u8 list \<Rightarrow> token list option" where
  "lex [] = Some []"
| "lex (c # cs) =
    (if is_white c then lex cs
     else if c = 0x22 \<or> c = 0x60 then
       (case dropWhile (\<lambda>d. d \<noteq> c) cs of
          [] \<Rightarrow> None
        | _ # rest \<Rightarrow> map_option (Cons (Word (c # takeWhile (\<lambda>d. d \<noteq> c) cs))) (lex rest))
     else if c \<in> {0x3E, 0x7C, 0x26} \<and> cs \<noteq> [] \<and> hd cs = c then
       map_option (Cons (Op (if c = 0x3E then 0x61 else if c = 0x7C then 0x4F else 0x41))) (lex (tl cs))
     else if is_symbol c then map_option (Cons (Op c)) (lex cs)
     else map_option (Cons (Word (c # takeWhile word_char cs))) (lex (dropWhile word_char cs)))"
  by pat_completeness auto
termination
proof (relation "measure length", goal_cases)
  case (3 c cs x rest)
  then show ?case using length_dropWhile_le [of "\<lambda>d. d \<noteq> c" cs] by simp
next
  case (4 c cs)
  then show ?case by (cases cs) auto
next
  case (6 c cs)
  then show ?case using length_dropWhile_le [of word_char cs] by simp
qed auto

section \<open>Equivalence\<close>

lemma char_zero [simp]: "\<not> is_white 0" "\<not> is_symbol 0" "is_symbol c \<Longrightarrow> \<not> is_white c" "\<not> is_symbol 0x22" "\<not> is_symbol 0x60"
  "is_symbol 0x3E" "is_symbol 0x7C" "is_symbol 0x26" "is_symbol c \<Longrightarrow> c \<noteq> 0x77"
  by (auto simp: is_white_def is_symbol_def)

lemma skip_white_here: "\<not> is_white c \<Longrightarrow> skip_white (pre @ c # zs) (length pre) = Some (pre @ c # zs, length pre)"
  by (subst skip_white.simps) simp

lemma skip_white_one: "is_white c \<Longrightarrow> skip_white (pre @ c # zs) (length pre) = skip_white ((pre @ [0]) @ zs) (length (pre @ [0]))"
  by (subst skip_white.simps) (simp add: list_update_append)

lemma close_quote_ok:
  "0 \<notin> set cs \<Longrightarrow> dropWhile (\<lambda>d. d \<noteq> q) cs = d # rest \<Longrightarrow> pre \<noteq> [] \<Longrightarrow>
    close_quote q (pre @ cs @ zs) (length pre - 1) = Some (length pre + length (takeWhile (\<lambda>d. d \<noteq> q) cs))"
proof (induction cs arbitrary: pre)
  case (Cons x cs)
  have l: "length pre - 1 + 1 = length pre" using Cons.prems(3) by (cases pre) auto
  show ?case
  proof (cases "x = q")
    case True
    then show ?thesis using Cons.prems l by (subst close_quote.simps) (simp del: One_nat_def)
  next
    case False
    have "close_quote q (pre @ (x # cs) @ zs) (length pre - 1) = close_quote q ((pre @ [x]) @ cs @ zs) (length (pre @ [x]) - 1)"
      using False Cons.prems l by (subst close_quote.simps) (simp del: One_nat_def)
    then show ?thesis using Cons.IH [of "pre @ [x]"] Cons.prems False by simp
  qed
qed simp

lemma word_end_ok:
  "0 \<notin> set cs \<Longrightarrow> word_end (pre @ cs @ 0 # zs) (length pre) = Some (length pre + length (takeWhile word_char cs))"
proof (induction cs arbitrary: pre)
  case Nil
  then show ?case by (subst word_end.simps) simp
next
  case (Cons x cs)
  then show ?case using Cons.IH [of "pre @ [x]"]
    by (subst word_end.simps) (auto simp: word_char_def [of x])
qed

definition tokens_from :: "u8 list \<Rightarrow> nat \<Rightarrow> ((u8 \<times> nat option) list \<times> u8 list) option" where
  "tokens_from b s = do { l \<leftarrow> gettoken_start b s; tokens l }"

lemma tokens_from_end: "gettoken1 b (Some i) = Some (0, None, None, b') \<Longrightarrow> tokens_from b i = Some ([], b')"
  by (simp add: tokens_from_def gettoken_start_def) (subst tokens.simps, simp add: gettoken_def gettoken1_def)

lemma tokens_from_next:
  "gettoken1 b (Some i) = Some (c, p1, Some j, b') \<Longrightarrow> c \<noteq> 0 \<Longrightarrow>
    tokens_from b i = do { (ts, b'') \<leftarrow> tokens_from b' j; Some ((c, p1) # ts, b'') }"
  by (simp add: tokens_from_def gettoken_start_def) (subst tokens.simps, simp add: gettoken_def split_beta)

text \<open>The token a pair stands for, in the buffer after the last call.\<close>

definition word_at :: "u8 list \<Rightarrow> nat \<Rightarrow> u8 list" where
  "word_at b i = takeWhile (\<lambda>c. c \<noteq> 0) (drop i b)"

definition token_of :: "u8 list \<Rightarrow> u8 \<times> nat option \<Rightarrow> token" where
  "token_of b t = (if fst t = 0x77 then Word (word_at b (the (snd t))) else Op (fst t))"

text \<open>What the calls from the position \<open>length pre\<close> on do to the buffer: nothing before it and
  nothing after the terminator, and a word that ends here is terminated.\<close>

definition lexes :: "u8 list \<Rightarrow> u8 list \<Rightarrow> u8 list \<Rightarrow> token list \<Rightarrow> bool" where
  "lexes pre suf post ts \<longleftrightarrow> (\<exists>toks mid. tokens_from (pre @ suf @ 0 # post) (length pre) = Some (toks, pre @ mid @ 0 # post) \<and>
     length mid = length suf \<and> map (token_of (pre @ mid @ 0 # post)) toks = ts \<and>
     (suf = [] \<or> \<not> word_char (hd suf) \<longrightarrow> (mid @ [0]) ! 0 = 0))"

lemma lexes_step:
  assumes "gettoken1 (pre @ suf @ 0 # post) (Some (length pre)) = Some (c, Some p, Some (length pre'), pre' @ rest @ 0 # post)"
    and "c \<noteq> 0" "lexes pre' rest post ts" "pre' = pre @ used" "length used + length rest = length suf"
    and "\<And>mid. rest = [] \<or> \<not> word_char (hd rest) \<longrightarrow> (mid @ [0]) ! 0 = 0 \<Longrightarrow> token_of (pre' @ mid @ 0 # post) (c, Some p) = t"
    and "suf \<noteq> []" "\<not> word_char (hd suf) \<Longrightarrow> used \<noteq> [] \<and> hd used = 0"
  shows "lexes pre suf post (t # ts)"
proof -
  obtain toks mid where t: "tokens_from (pre' @ rest @ 0 # post) (length pre') = Some (toks, pre' @ mid @ 0 # post)"
    "length mid = length rest" "map (token_of (pre' @ mid @ 0 # post)) toks = ts"
    "rest = [] \<or> \<not> word_char (hd rest) \<longrightarrow> (mid @ [0]) ! 0 = 0"
    using assms(3) unfolding lexes_def by blast
  have "tokens_from (pre @ suf @ 0 # post) (length pre) = Some ((c, Some p) # toks, pre' @ mid @ 0 # post)"
    using tokens_from_next [OF assms(1,2)] t(1) by simp
  moreover have "((used @ mid) @ [0]) ! 0 = 0" if "\<not> word_char (hd suf)"
    using assms(8) [OF that] by (cases used) auto
  ultimately show ?thesis
    unfolding lexes_def using t(2,3) assms(4,5,7) assms(6) [OF t(4)]
    by (intro exI [of _ "(c, Some p) # toks"] exI [of _ "used @ mid"]) auto
qed

lemma token_of_op: "c \<noteq> 0x77 \<Longrightarrow> token_of b (c, p) = Op c"
  by (simp add: token_of_def)

lemma takeWhile_nz: "0 \<notin> set w \<Longrightarrow> takeWhile (\<lambda>c. c \<noteq> (0::u8)) (w @ 0 # zs) = w"
  by (induction w) auto

lemma token_of_word: "0 \<notin> set w \<Longrightarrow> token_of (pre @ w @ 0 # zs) (0x77, Some (length pre)) = Word w"
  by (simp add: token_of_def word_at_def takeWhile_nz)

lemma mid_head: "(mid @ [0]) ! 0 = 0 \<Longrightarrow> \<exists>zs. mid @ 0 # post = 0 # zs"
  by (cases mid) auto

text \<open>One call of \<^verbatim>\<open>_gettoken\<close>, by the first byte that is no blank.\<close>

lemma double_here: "double k (pre @ c # zs) (length pre) \<longleftrightarrow> c = k \<and> zs \<noteq> [] \<and> hd zs = k"
  by (cases zs) (auto simp: double_def nth_append)

lemma gettoken1_white:
  "is_white c \<Longrightarrow> gettoken1 (pre @ c # zs) (Some (length pre)) = gettoken1 ((pre @ [0]) @ zs) (Some (length (pre @ [0])))"
  unfolding gettoken1_def by (simp only: option.case skip_white_one)

lemma gettoken1_end: "gettoken1 (pre @ 0 # zs) (Some (length pre)) = Some (0, None, None, pre @ 0 # zs)"
  by (simp add: gettoken1_def skip_white_here)

lemma gettoken1_quote:
  assumes "q = 0x22 \<or> q = 0x60" "close_quote q (pre @ q # zs) (length pre) = Some j"
  shows "gettoken1 (pre @ q # zs) (Some (length pre)) = Some (0x77, Some (length pre), Some (j + 1), (pre @ q # zs)[j := 0])"
proof -
  have "\<not> is_white q" using assms(1) by (auto simp: is_white_def)
  then show ?thesis using assms by (auto simp: gettoken1_def skip_white_here Let_def)
qed

lemma gettoken1_double:
  assumes "c \<in> {0x3E, 0x7C, 0x26}"
  shows "gettoken1 (pre @ c # c # zs) (Some (length pre)) =
    Some (if c = 0x3E then 0x61 else if c = 0x7C then 0x4F else 0x41, Some (length pre), Some (length (pre @ [0, 0])), (pre @ [0, 0]) @ zs)"
proof -
  have "\<not> is_white c" using assms by (auto simp: is_white_def)
  then show ?thesis using assms by (auto simp: gettoken1_def skip_white_here Let_def double_here list_update_append)
qed

lemma gettoken1_symbol:
  assumes "is_symbol c" "\<not> (c \<in> {0x3E, 0x7C, 0x26} \<and> zs \<noteq> [] \<and> hd zs = c)"
  shows "gettoken1 (pre @ c # zs) (Some (length pre)) = Some (c, Some (length pre), Some (length (pre @ [0])), (pre @ [0]) @ zs)"
proof -
  have "c \<noteq> 0" "c \<noteq> 0x22" "c \<noteq> 0x60" "\<not> is_white c" using assms(1) by auto
  moreover have "\<not> (c = k \<and> zs \<noteq> [] \<and> hd zs = k)" if "k \<in> {0x3E, 0x7C, 0x26}" for k
    using assms(2) that by blast
  ultimately show ?thesis
    using assms(1) by (simp add: gettoken1_def skip_white_here Let_def double_here list_update_append)
qed

lemma gettoken1_word:
  assumes "word_char c" "c \<noteq> 0" "c \<noteq> 0x22" "c \<noteq> 0x60" "word_end (pre @ c # zs) (length pre) = Some j"
  shows "gettoken1 (pre @ c # zs) (Some (length pre)) = Some (0x77, Some (length pre), Some j, pre @ c # zs)"
proof -
  have "\<not> is_white c" "\<not> is_symbol c" "c \<notin> {0x3E, 0x7C, 0x26}" using assms(1) by (auto simp: word_char_def is_symbol_def)
  then show ?thesis using assms by (simp add: gettoken1_def skip_white_here Let_def double_here)
qed

lemma quoted_lexes:
  assumes "q = 0x22 \<or> q = 0x60" "0 \<notin> set cs" "dropWhile (\<lambda>d. d \<noteq> q) cs = d # rest"
    and "\<And>pre. lexes pre rest post ts"
  shows "lexes pre (q # cs) post (Word (q # takeWhile (\<lambda>d. d \<noteq> q) cs) # ts)"
proof -
  define w where "w = takeWhile (\<lambda>d. d \<noteq> q) cs"
  have d: "d = q" using assms(3) hd_dropWhile [of "\<lambda>d. d \<noteq> q" cs] by simp
  have cs: "cs = w @ q # rest" using takeWhile_dropWhile_id [of "\<lambda>d. d \<noteq> q" cs] assms(3) d by (simp add: w_def)
  have wc: "word_char q" using assms(1) by (auto simp: is_white_def word_char_def is_symbol_def)
  have nz: "0 \<notin> set (q # w)" using assms(1,2) by (auto simp: cs)
  have "close_quote q (pre @ q # cs @ 0 # post) (length pre) = Some (length pre + 1 + length w)"
    using close_quote_ok [OF assms(2,3), of "pre @ [q]" "0 # post"] by (simp add: w_def)
  then have g: "gettoken1 (pre @ (q # cs) @ 0 # post) (Some (length pre)) =
      Some (0x77, Some (length pre), Some (length (pre @ q # w @ [0])), (pre @ q # w @ [0]) @ rest @ 0 # post)"
    using gettoken1_quote [OF assms(1), of pre "cs @ 0 # post"] by (simp add: cs list_update_append)
  show ?thesis
    unfolding w_def [symmetric]
  proof (rule lexes_step [OF g _ assms(4)])
    show "token_of ((pre @ q # w @ [0]) @ mid @ 0 # post) (0x77, Some (length pre)) = Word (q # w)" for mid
      using token_of_word [OF nz, of pre "mid @ 0 # post"] by simp
  qed (use wc in \<open>auto simp: cs\<close>)
qed

lemma word_lexes:
  assumes "word_char c" "c \<noteq> 0x22" "c \<noteq> 0x60" "0 \<notin> set (c # cs)" "\<And>pre. lexes pre (dropWhile word_char cs) post ts"
  shows "lexes pre (c # cs) post (Word (c # takeWhile word_char cs) # ts)"
proof -
  define w rest where "w = c # takeWhile word_char cs" and "rest = dropWhile word_char cs"
  have cs: "c # cs = w @ rest" by (simp add: w_def rest_def)
  have nz: "0 \<notin> set w" using assms(4) unfolding cs by simp
  have "word_end (pre @ (c # cs) @ 0 # post) (length pre) = Some (length (pre @ w))"
    using word_end_ok [OF assms(4), of pre post] assms(1) by (simp add: w_def)
  then have "gettoken1 (pre @ (c # cs) @ 0 # post) (Some (length pre)) =
      Some (0x77, Some (length pre), Some (length (pre @ w)), pre @ (c # cs) @ 0 # post)"
    using gettoken1_word [OF assms(1) _ assms(2,3), of pre "cs @ 0 # post"] assms(4) by simp
  then have g: "gettoken1 (pre @ (c # cs) @ 0 # post) (Some (length pre)) =
      Some (0x77, Some (length pre), Some (length (pre @ w)), (pre @ w) @ rest @ 0 # post)"
    by (simp add: w_def rest_def)
  show ?thesis
    unfolding w_def [symmetric]
  proof (rule lexes_step [OF g])
    show "lexes (pre @ w) rest post ts" using assms(5) by (simp add: rest_def)
  next
    fix mid :: "u8 list"
    assume "rest = [] \<or> \<not> word_char (hd rest) \<longrightarrow> (mid @ [0]) ! 0 = 0"
    then have "(mid @ [0]) ! 0 = 0" using hd_dropWhile [of word_char cs] by (auto simp: rest_def)
    then show "token_of ((pre @ w) @ mid @ 0 # post) (0x77, Some (length pre)) = Word w"
      using mid_head [of mid post] token_of_word [OF nz, of pre] by auto
  next
    show "length w + length rest = length (c # cs)" using arg_cong [OF cs, of length] by simp
  qed (use assms(1) in auto)
qed

lemma symbol_lexes:
  assumes "is_symbol c" "\<not> (c \<in> {0x3E, 0x7C, 0x26} \<and> cs \<noteq> [] \<and> hd cs = c)" "\<And>pre. lexes pre cs post ts"
  shows "lexes pre (c # cs) post (Op c # ts)"
proof -
  have c: "c \<noteq> 0" "c \<noteq> 0x77" "\<not> word_char c" using assms(1) by (auto simp: word_char_def)
  have "\<not> (c \<in> {0x3E, 0x7C, 0x26} \<and> cs @ 0 # post \<noteq> [] \<and> hd (cs @ 0 # post) = c)"
    using assms(2) c(1) by (cases cs) auto
  note g = gettoken1_symbol [OF assms(1) this, of pre]
  show ?thesis
    by (rule lexes_step [where pre' = "pre @ [0]" and used = "[0]", OF _ c(1) assms(3)]) (use g c in \<open>auto simp: token_of_op\<close>)
qed

lemma double_lexes:
  assumes "c \<in> {0x3E, 0x7C, 0x26}" "\<And>pre. lexes pre cs post ts"
  shows "lexes pre (c # c # cs) post (Op (if c = 0x3E then 0x61 else if c = 0x7C then 0x4F else 0x41) # ts)"
proof -
  note g = gettoken1_double [OF assms(1), of pre "cs @ 0 # post"]
  show ?thesis
    by (rule lexes_step [where pre' = "pre @ [0, 0]" and used = "[0, 0]", OF _ _ assms(2)]) (use g in \<open>auto simp: token_of_op split: if_splits\<close>)
qed

lemma white_lexes:
  assumes "is_white c" "\<And>pre. lexes pre cs post ts"
  shows "lexes pre (c # cs) post ts"
proof -
  have "tokens_from (pre @ (c # cs) @ 0 # post) (length pre) = tokens_from ((pre @ [0]) @ cs @ 0 # post) (length (pre @ [0]))"
    using gettoken1_white [OF assms(1), of pre "cs @ 0 # post"] by (simp add: tokens_from_def gettoken_start_def)
  moreover obtain toks mid where "tokens_from ((pre @ [0]) @ cs @ 0 # post) (length (pre @ [0])) = Some (toks, (pre @ [0]) @ mid @ 0 # post)"
    "length mid = length cs" "map (token_of ((pre @ [0]) @ mid @ 0 # post)) toks = ts"
    using assms(2) [of "pre @ [0]"] unfolding lexes_def by blast
  ultimately show ?thesis
    unfolding lexes_def by (intro exI [of _ toks] exI [of _ "0 # mid"]) simp
qed

lemma end_lexes: "lexes pre [] post []"
  unfolding lexes_def using tokens_from_end [OF gettoken1_end, of pre post] by auto

lemma lex_lexes: "lex suf = Some ts \<Longrightarrow> 0 \<notin> set suf \<Longrightarrow> lexes pre suf post ts"
proof (induction suf arbitrary: pre ts rule: lex.induct)
  case 1
  then show ?case by (simp add: end_lexes)
next
  case (2 c cs)
  have nz: "0 \<notin> set cs" using "2.prems"(2) by simp
  consider (white) "is_white c"
    | (quote) "\<not> is_white c" "c = 0x22 \<or> c = 0x60"
    | (dbl) "\<not> is_white c" "\<not> (c = 0x22 \<or> c = 0x60)" "c \<in> {0x3E, 0x7C, 0x26} \<and> cs \<noteq> [] \<and> hd cs = c"
    | (sym) "\<not> is_white c" "\<not> (c = 0x22 \<or> c = 0x60)" "\<not> (c \<in> {0x3E, 0x7C, 0x26} \<and> cs \<noteq> [] \<and> hd cs = c)" "is_symbol c"
    | (wrd) "\<not> is_white c" "\<not> (c = 0x22 \<or> c = 0x60)" "\<not> (c \<in> {0x3E, 0x7C, 0x26} \<and> cs \<noteq> [] \<and> hd cs = c)" "\<not> is_symbol c"
    by blast
  then show ?case
  proof cases
    case white
    then show ?thesis using "2.IH"(1) "2.prems" by (intro white_lexes) auto
  next
    case quote
    then obtain d rest ts' where r: "dropWhile (\<lambda>d. d \<noteq> c) cs = d # rest" "lex rest = Some ts'"
      "ts = Word (c # takeWhile (\<lambda>d. d \<noteq> c) cs) # ts'"
      using "2.prems"(1) by (auto split: list.splits)
    have "0 \<notin> set rest" using nz set_dropWhileD [of 0 "\<lambda>d. d \<noteq> c" cs] r(1) by auto
    then show ?thesis unfolding r(3)
      using "2.IH"(2) [OF quote r(1) r(2)] by (intro quoted_lexes [OF quote(2) nz r(1)]) blast
  next
    case dbl
    then obtain cs' where cs: "cs = c # cs'" by (cases cs) auto
    with dbl "2.prems"(1) obtain ts' where "lex cs' = Some ts'"
      "ts = Op (if c = 0x3E then 0x61 else if c = 0x7C then 0x4F else 0x41) # ts'" by auto
    then show ?thesis using dbl "2.IH"(3) [OF dbl] nz by (simp add: cs double_lexes del: lex.simps)
  next
    case sym
    with "2.prems"(1) obtain ts' where "lex cs = Some ts'" "ts = Op c # ts'" by auto
    then show ?thesis using "2.IH"(4) [OF sym] nz symbol_lexes [OF sym(4,3)] by simp
  next
    case wrd
    with "2.prems"(1) obtain ts' where t: "lex (dropWhile word_char cs) = Some ts'" "ts = Word (c # takeWhile word_char cs) # ts'" by auto
    have "0 \<notin> set (dropWhile word_char cs)" using nz by (auto dest: set_dropWhileD)
    then show ?thesis unfolding t(2)
      using "2.IH"(5) [OF wrd t(1)] wrd(1,2,4) "2.prems"(2) by (intro word_lexes) (auto simp: word_char_def)
  qed
qed

text \<open>C30. On every command line the reference accepts, the calls of \<^verbatim>\<open>gettoken\<close> up to the one that
  returns zero terminate, give exactly its tokens, and write only into the line: the words are
  zero-terminated strings of the changed buffer, the bytes after the terminator are untouched.
\<close>
theorem gettoken_lexes:
  assumes "lex line = Some ts" "0 \<notin> set line"
  shows "\<exists>toks line'. tokens_from (line @ 0 # post) 0 = Some (toks, line' @ 0 # post) \<and>
    length line' = length line \<and> map (token_of (line' @ 0 # post)) toks = ts"
  using lex_lexes [OF assms, of "[]" post] unfolding lexes_def by auto

text \<open>The line \<^verbatim>\<open>ls>>a\<close>.\<close>
theorem gettoken_lexes_witness:
  "\<exists>toks line'. tokens_from ([0x6C, 0x73, 0x3E, 0x3E, 0x61] @ 0 # []) 0 = Some (toks, line' @ 0 # []) \<and>
    length line' = length [0x6C, 0x73, 0x3E, 0x3E, 0x61::u8] \<and> map (token_of (line' @ 0 # [])) toks = [Word [0x6C, 0x73], Op 0x61, Word [0x61]]"
proof -
  have "lex [0x6C, 0x73, 0x3E, 0x3E, 0x61] = Some [Word [0x6C, 0x73], Op 0x61, Word [0x61]]"
    by (simp add: is_white_def is_symbol_def word_char_def)
  from gettoken_lexes [OF this, of "[]"] show ?thesis by simp
qed

end
