(* ===== verification/MOS_Fd.thy ===== *)
theory MOS_Fd
  imports MOS_Serv
begin

text \<open>
  File descriptors and the client side of the file system: \<^verbatim>\<open>user/lib/fd.c\<close>, \<^verbatim>\<open>user/lib/file.c\<close>,
  \<^verbatim>\<open>user/lib/fsipc.c\<close>, \<^verbatim>\<open>user/lib/console.c\<close>, \<^verbatim>\<open>user/include/fd.h\<close>.

  The state is one client process together with the file server of \<open>MOS_Serv\<close>. A page of the client
  is a page of its own or a page of the server that was sent to it, named by the server's address
  of it: the server never unmaps a descriptor page, nor a cached block once it has started, so the
  address names the same physical page for ever. Both sides see each other's stores. The reference counts of
  the server's pages follow the client's mappings. Whether the kernel has memory for the \<open>n\<close>-th call
  that may need some is \<open>nopage n\<close>.

  A C \<^verbatim>\<open>int\<close> result is a word, negative ones are error codes; where a function also stores through a
  pointer the result is a sum. \<open>None\<close> is a panic or an access the kernel would not make as it stands.
  \<^verbatim>\<open>memcpy\<close> is the copy by bytes in ascending order, which \<open>MOS_String\<close> shows it to be for areas that do not overlap.
  Messages of \<^verbatim>\<open>debugf\<close> are left out, except the echo of the console.
\<close>

section \<open>The client\<close>

datatype page = Own nat | Shared u32

record client =
  server :: srv
  me :: u32
  own :: "nat \<Rightarrow> bytemem"
  ptab :: "nat \<Rightarrow> (page \<times> u32) option"
  nown :: nat
  nopage :: "nat \<Rightarrow> bool"
  clock :: nat
  keys :: "nat \<Rightarrow> u32"
  pressed :: nat
  shown :: "u8 list"

abbreviation O_WRONLY :: u32 where "O_WRONLY \<equiv> 1"
abbreviation O_RDWR :: u32 where "O_RDWR \<equiv> 2"
abbreviation O_ACCMODE :: u32 where "O_ACCMODE \<equiv> 3"
abbreviation MAXFD :: u32 where "MAXFD \<equiv> 32"
abbreviation FILEBASE :: u32 where "FILEBASE \<equiv> 0x60000000"
abbreviation FDTABLE :: u32 where "FDTABLE \<equiv> 0x5FC00000"
abbreviation MAXFILESIZE :: u32 where "MAXFILESIZE \<equiv> 0x400000"
abbreviation MAXPATHLEN :: nat where "MAXPATHLEN \<equiv> 1024"

text \<open>Error codes as words.\<close>

definition ecode :: "int \<Rightarrow> u32" where
  "ecode e = of_int (- e)"

text \<open>The contents of a page, by offset.\<close>

definition page_mem :: "page \<Rightarrow> client \<Rightarrow> bytemem" where
  "page_mem p c = (case p of Own f \<Rightarrow> own c f | Shared a \<Rightarrow> (\<lambda>d. mem (fs (server c)) (a + d)))"

definition put_page :: "page \<Rightarrow> bytemem \<Rightarrow> client \<Rightarrow> client" where
  "put_page p g c =
    (case p of
       Own f \<Rightarrow> c\<lparr>own := (own c)(f := g)\<rparr>
     | Shared a \<Rightarrow> c\<lparr>server := (server c)\<lparr>fs := (fs (server c))\<lparr>mem := (\<lambda>x. if page_of x = a then g (x - a) else mem (fs (server c)) x)\<rparr>\<rparr>\<rparr>)"

definition load8 :: "u32 \<Rightarrow> client \<Rightarrow> u8 option" where
  "load8 va c = (case ptab c (VPN va) of None \<Rightarrow> None | Some (p, _) \<Rightarrow> Some (page_mem p c (va AND 0xFFF)))"

definition load32 :: "u32 \<Rightarrow> client \<Rightarrow> u32 option" where
  "load32 va c = (case ptab c (VPN va) of None \<Rightarrow> None | Some (p, _) \<Rightarrow> Some (ld32 (page_mem p c) (va AND 0xFFF)))"

definition store8 :: "u32 \<Rightarrow> u8 \<Rightarrow> client \<Rightarrow> client option" where
  "store8 va b c =
    (case ptab c (VPN va) of
       None \<Rightarrow> None
     | Some (p, fl) \<Rightarrow> if fl AND PTE_D = 0 then None else Some (put_page p ((page_mem p c)(va AND 0xFFF := b)) c))"

definition store32 :: "u32 \<Rightarrow> u32 \<Rightarrow> client \<Rightarrow> client option" where
  "store32 va w c =
    (case ptab c (VPN va) of
       None \<Rightarrow> None
     | Some (p, fl) \<Rightarrow> if fl AND PTE_D = 0 then None else Some (put_page p (st32 (va AND 0xFFF) w (page_mem p c)) c))"

definition copy_bytes :: "u32 \<Rightarrow> u32 \<Rightarrow> u32 \<Rightarrow> client \<Rightarrow> client option" where
  "copy_bytes dst src n = foldM (\<lambda>i c. do { b \<leftarrow> load8 (src + of_nat i) c; store8 (dst + of_nat i) b c }) [0..<unat n]"

section \<open>System calls on the own address space\<close>

text \<open>Taking or giving back a reference to a page of the server.\<close>

definition upd_ref :: "(nat \<Rightarrow> nat) \<Rightarrow> page \<Rightarrow> client \<Rightarrow> client" where
  "upd_ref f p c =
    (case p of Own _ \<Rightarrow> c | Shared a \<Rightarrow> c\<lparr>server := (server c)\<lparr>pref := (pref (server c))(a := f (pref (server c) a))\<rparr>\<rparr>)"

definition clear_pte :: "nat \<Rightarrow> client \<Rightarrow> client" where
  "clear_pte v c =
    (case ptab c v of
       None \<Rightarrow> c
     | Some (p, _) \<Rightarrow> upd_ref (\<lambda>n. n - 1) p (c\<lparr>ptab := (ptab c)(v := None)\<rparr>))"

definition set_pte :: "nat \<Rightarrow> page \<Rightarrow> u32 \<Rightarrow> client \<Rightarrow> client" where
  "set_pte v p perm c = (let c = clear_pte v c in c\<lparr>ptab := (ptab c)(v \<mapsto> (p, mapped_flags perm))\<rparr>)"

definition c_mem_alloc :: "u32 \<Rightarrow> u32 \<Rightarrow> client \<Rightarrow> u32 \<times> client" where
  "c_mem_alloc va perm c =
    (if \<not> va_ok va then (ecode E_INVAL, c)
     else if nopage c (clock c) then (ecode E_NO_MEM, c\<lparr>clock := clock c + 1\<rparr>)
     else (0, set_pte (VPN va) (Own (nown c)) perm (c\<lparr>clock := clock c + 1, nown := nown c + 1, own := (own c)(nown c := (\<lambda>_. 0))\<rparr>)))"

definition c_mem_map :: "u32 \<Rightarrow> u32 \<Rightarrow> u32 \<Rightarrow> client \<Rightarrow> u32 \<times> client" where
  "c_mem_map srcva dstva perm c =
    (if \<not> va_ok srcva \<or> \<not> va_ok dstva then (ecode E_INVAL, c)
     else case ptab c (VPN srcva) of
       None \<Rightarrow> (ecode E_INVAL, c)
     | Some (p, _) \<Rightarrow>
         if ptab c (VPN dstva) = None \<and> nopage c (clock c) then (ecode E_NO_MEM, c\<lparr>clock := clock c + 1\<rparr>)
         else (0, set_pte (VPN dstva) p perm (upd_ref Suc p (c\<lparr>clock := clock c + 1\<rparr>))))"

definition c_mem_unmap :: "u32 \<Rightarrow> client \<Rightarrow> u32 \<times> client" where
  "c_mem_unmap va c = (if \<not> va_ok va then (ecode E_INVAL, c) else (0, clear_pte (VPN va) c))"

text \<open>The macro \<^verbatim>\<open>panic_on\<close>.\<close>

definition panic_on :: "u32 \<times> client \<Rightarrow> client option" where
  "panic_on rc = (if fst rc \<noteq> 0 then None else Some (snd rc))"

text \<open>The loops \<^verbatim>\<open>for (; i < lim; i += PTMAP) if ((r = f(i)) < 0) return r;\<close>\<close>

partial_function (option) for_pages ::
  "(u32 \<Rightarrow> client \<Rightarrow> (u32 \<times> client) option) \<Rightarrow> u32 \<Rightarrow> u32 \<Rightarrow> client \<Rightarrow> (u32 \<times> client) option" where
  "for_pages f i lim c =
    (if i < lim then do {
       (r, c) \<leftarrow> f i c;
       if r <s 0 then Some (r, c) else for_pages f (i + PTMAP) lim c
     } else Some (0, c))"

section \<open>Descriptors\<close>

definition INDEX2FD :: "u32 \<Rightarrow> u32" where
  "INDEX2FD i = FDTABLE + i * PTMAP"

definition INDEX2DATA :: "u32 \<Rightarrow> u32" where
  "INDEX2DATA i = FILEBASE + i * PDMAP"

text \<open>The fields of \<^verbatim>\<open>struct Fd\<close> and \<^verbatim>\<open>struct Filefd\<close>; \<^verbatim>\<open>fd_dev_id\<close> is the first word.\<close>

abbreviation fd_offset_of :: "u32 \<Rightarrow> u32" where "fd_offset_of fd \<equiv> fd + 4"
abbreviation fd_omode_of :: "u32 \<Rightarrow> u32" where "fd_omode_of fd \<equiv> fd + 8"
abbreviation f_fileid_of :: "u32 \<Rightarrow> u32" where "f_fileid_of fd \<equiv> fd + 12"
abbreviation f_file_of :: "u32 \<Rightarrow> u32" where "f_file_of fd \<equiv> fd + 16"

record stat =
  st_name :: "u8 list"
  st_size :: u32
  st_isdir :: bool
  st_dev :: u32

text \<open>\<^verbatim>\<open>struct Dev\<close>. The device of pipes is a parameter of what follows: its operations wait for the other
  end, see \<open>MOS_Pipe\<close>.\<close>

record dev =
  dev_id :: u32
  dev_read :: "u32 \<Rightarrow> u32 \<Rightarrow> u32 \<Rightarrow> u32 \<Rightarrow> client \<Rightarrow> (u32 \<times> client) option"
  dev_write :: "u32 \<Rightarrow> u32 \<Rightarrow> u32 \<Rightarrow> u32 \<Rightarrow> client \<Rightarrow> (u32 \<times> client) option"
  dev_close :: "u32 \<Rightarrow> client \<Rightarrow> (u32 \<times> client) option"
  dev_stat :: "u32 \<Rightarrow> stat \<Rightarrow> client \<Rightarrow> (u32 \<times> stat \<times> client) option"

definition fd_alloc :: "client \<Rightarrow> u32 res" where
  "fd_alloc c =
    (case find (\<lambda>fdno. ptab c (VPN (INDEX2FD (of_nat fdno))) = None) [0..<unat (MAXFD - 1)] of
       Some fdno \<Rightarrow> Inr (INDEX2FD (of_nat fdno))
     | None \<Rightarrow> Inl (- E_MAX_OPEN))"

definition fd_close :: "u32 \<Rightarrow> client \<Rightarrow> client option" where
  "fd_close fd c = panic_on (c_mem_unmap fd c)"

text \<open>The comparison is signed.\<close>

definition fd_lookup :: "u32 \<Rightarrow> client \<Rightarrow> u32 res" where
  "fd_lookup fdnum c =
    (if MAXFD \<le>s fdnum then Inl (- E_INVAL)
     else let va = INDEX2FD fdnum in
       if ptab c (VPN va) \<noteq> None then Inr va else Inl (- E_INVAL))"

definition fd2num :: "u32 \<Rightarrow> u32" where
  "fd2num fd = (fd - FDTABLE) div PTMAP"

definition fd2data :: "u32 \<Rightarrow> u32" where
  "fd2data fd = INDEX2DATA (fd2num fd)"

definition num2fd :: "u32 \<Rightarrow> u32" where
  "num2fd fd = fd * PTMAP + FDTABLE"

section \<open>Requests to the server\<close>

text \<open>One exchange: the server receives the request with the permission \<^verbatim>\<open>PTE_D\<close>, and its first message
  after that is the reply; a page in it is mapped at \<^verbatim>\<open>dstva\<close>.\<close>

definition fsipc :: "request \<Rightarrow> u32 \<Rightarrow> client \<Rightarrow> (u32 \<times> u32 \<times> client) option" where
  "fsipc req dstva c = do {
     sv \<leftarrow> serve_step (me c) (PTE_V OR PTE_D) (Some req) (server c);
     if dstva \<noteq> 0 \<and> \<not> va_ok dstva then None
     else case drop (length (sent (server c))) (sent sv) of
       [] \<Rightarrow> None
     | (_, v, srcva, perm) # _ \<Rightarrow>
         let c = c\<lparr>server := sv\<rparr> in
         Some (v, PTE_V OR perm, if srcva = 0 then c else set_pte (VPN dstva) (Shared (page_of srcva)) perm c)
   }"

definition fsipc_open :: "u8 list \<Rightarrow> u32 \<Rightarrow> u32 \<Rightarrow> client \<Rightarrow> (u32 \<times> client) option" where
  "fsipc_open path omode fd c =
    (if MAXPATHLEN \<le> length path then Some (ecode E_BAD_PATH, c)
     else do { (r, _, c) \<leftarrow> fsipc (Fsreq_open path omode) fd c; Some (r, c) })"

definition fsipc_map :: "u32 \<Rightarrow> u32 \<Rightarrow> u32 \<Rightarrow> client \<Rightarrow> (u32 \<times> client) option" where
  "fsipc_map fileid offset dstva c = do {
     (r, perm, c) \<leftarrow> fsipc (Fsreq_map fileid offset) dstva c;
     if r <s 0 then Some (r, c)
     else if perm AND NOT (PTE_D OR PTE_LIBRARY) \<noteq> PTE_V then None
     else Some (0, c)
   }"

definition fsipc_set_size :: "u32 \<Rightarrow> u32 \<Rightarrow> client \<Rightarrow> (u32 \<times> client) option" where
  "fsipc_set_size fileid sz c = do { (r, _, c) \<leftarrow> fsipc (Fsreq_set_size fileid sz) 0 c; Some (r, c) }"

definition fsipc_close :: "u32 \<Rightarrow> client \<Rightarrow> (u32 \<times> client) option" where
  "fsipc_close fileid c = do { (r, _, c) \<leftarrow> fsipc (Fsreq_close fileid) 0 c; Some (r, c) }"

definition fsipc_dirty :: "u32 \<Rightarrow> u32 \<Rightarrow> client \<Rightarrow> (u32 \<times> client) option" where
  "fsipc_dirty fileid offset c = do { (r, _, c) \<leftarrow> fsipc (Fsreq_dirty fileid offset) 0 c; Some (r, c) }"

text \<open>A path of exactly \<^verbatim>\<open>MAXPATHLEN\<close> bytes passes the check; its terminator is then written behind the
  array \<^verbatim>\<open>req_path\<close>, into the rest of the page.\<close>

definition fsipc_remove :: "u8 list \<Rightarrow> client \<Rightarrow> (u32 \<times> client) option" where
  "fsipc_remove path c =
    (if length path = 0 \<or> MAXPATHLEN < length path then Some (ecode E_BAD_PATH, c)
     else do { (r, _, c) \<leftarrow> fsipc (Fsreq_remove path) 0 c; Some (r, c) })"

definition fsipc_sync :: "client \<Rightarrow> (u32 \<times> client) option" where
  "fsipc_sync c = do { (r, _, c) \<leftarrow> fsipc Fsreq_sync 0 c; Some (r, c) }"

section \<open>Files\<close>

text \<open>The macro \<^verbatim>\<open>try\<close> returns on every value but 0.\<close>

definition open_file_desc :: "u8 list \<Rightarrow> u32 \<Rightarrow> client \<Rightarrow> (u32 \<times> client) option" where
  "open_file_desc path mode c =
    (case fd_alloc c of
       Inl e \<Rightarrow> Some (of_int e, c)
     | Inr fd \<Rightarrow> do {
         (r, c) \<leftarrow> fsipc_open path mode fd c;
         if r \<noteq> 0 then Some (r, c)
         else do {
           let va = fd2data fd;
           sz \<leftarrow> load32 (f_size_of (f_file_of fd)) c;
           fileid \<leftarrow> load32 (f_fileid_of fd) c;
           (r, c) \<leftarrow> for_pages (\<lambda>i. fsipc_map fileid i (va + i)) 0 sz c;
           if r \<noteq> 0 then Some (r, c) else Some (fd2num fd, c)
         }
       })"

definition client_file_close :: "u32 \<Rightarrow> client \<Rightarrow> (u32 \<times> client) option" where
  "client_file_close fd c = do {
     fileid \<leftarrow> load32 (f_fileid_of fd) c;
     sz \<leftarrow> load32 (f_size_of (f_file_of fd)) c;
     let va = fd2data fd;
     (r, c) \<leftarrow> for_pages (\<lambda>i. fsipc_dirty fileid i) 0 sz c;
     if r <s 0 then Some (r, c)
     else do {
       (r, c) \<leftarrow> fsipc_close fileid c;
       if r <s 0 then Some (r, c)
       else if sz = 0 then Some (0, c)
       else for_pages (\<lambda>i c. Some (c_mem_unmap (va + i) c)) 0 sz c
     }
   }"

definition file_read :: "u32 \<Rightarrow> u32 \<Rightarrow> u32 \<Rightarrow> u32 \<Rightarrow> client \<Rightarrow> (u32 \<times> client) option" where
  "file_read fd buf n offset c = do {
     sz \<leftarrow> load32 (f_size_of (f_file_of fd)) c;
     if sz < offset then Some (0, c)
     else do {
       let n = (if sz < offset + n then sz - offset else n);
       c \<leftarrow> copy_bytes buf (fd2data fd + offset) n c;
       Some (n, c)
     }
   }"

text \<open>The result carries what is stored through \<^verbatim>\<open>blk\<close>.\<close>

definition read_map :: "u32 \<Rightarrow> u32 \<Rightarrow> client \<Rightarrow> u32 res option" where
  "read_map fdnum offset c =
    (case fd_lookup fdnum c of
       Inl e \<Rightarrow> Some (Inl e)
     | Inr fd \<Rightarrow> do {
         i \<leftarrow> load32 fd c;
         Some (if i \<noteq> 0x66 then Inl (- E_INVAL)
               else let va = fd2data fd + offset in
                 if MAXFILESIZE \<le> offset then Inl (- E_NO_DISK)
                 else if ptab c (VPN va) = None then Inl (- E_NO_DISK)
                 else Inr va)
       })"

definition ftruncate :: "u32 \<Rightarrow> u32 \<Rightarrow> client \<Rightarrow> (u32 \<times> client) option" where
  "ftruncate fdnum sz c =
    (if MAXFILESIZE < sz then Some (ecode E_NO_DISK, c)
     else case fd_lookup fdnum c of
       Inl e \<Rightarrow> Some (of_int e, c)
     | Inr fd \<Rightarrow> do {
         i \<leftarrow> load32 fd c;
         if i \<noteq> 0x66 then Some (ecode E_INVAL, c)
         else do {
           fileid \<leftarrow> load32 (f_fileid_of fd) c;
           oldsize \<leftarrow> load32 (f_size_of (f_file_of fd)) c;
           c \<leftarrow> store32 (f_size_of (f_file_of fd)) sz c;
           (r, c) \<leftarrow> fsipc_set_size fileid sz c;
           if r <s 0 then Some (r, c)
           else do {
             let va = fd2data fd;
             (r, c) \<leftarrow> for_pages (\<lambda>i. fsipc_map fileid i (va + i)) (ROUND oldsize PTMAP) (ROUND sz PTMAP) c;
             if r <s 0 then do {
               (r1, c) \<leftarrow> fsipc_set_size fileid oldsize c;
               Some (if r1 <s 0 then r1 else r, c)
             }
             else do {
               (r, c) \<leftarrow> for_pages (\<lambda>i c. Some (c_mem_unmap (va + i) c)) (ROUND sz PTMAP) (ROUND oldsize PTMAP) c;
               if r <s 0 then None else Some (0, c)
             }
           }
         }
       })"

definition file_write :: "u32 \<Rightarrow> u32 \<Rightarrow> u32 \<Rightarrow> u32 \<Rightarrow> client \<Rightarrow> (u32 \<times> client) option" where
  "file_write fd buf n offset c =
    (let tot = offset + n in
     if MAXFILESIZE < tot then Some (ecode E_NO_DISK, c)
     else do {
       sz \<leftarrow> load32 (f_size_of (f_file_of fd)) c;
       (r, c) \<leftarrow> (if sz < tot then ftruncate (fd2num fd) tot c else Some (0, c));
       if r <s 0 then Some (r, c)
       else do {
         c \<leftarrow> copy_bytes (fd2data fd + offset) buf n c;
         Some (n, c)
       }
     })"

text \<open>The bytes of a string in memory.\<close>

partial_function (option) load_string :: "u32 \<Rightarrow> client \<Rightarrow> u8 list option" where
  "load_string va c = do {
     b \<leftarrow> load8 va c;
     if b = 0 then Some [] else do { bs \<leftarrow> load_string (va + 1) c; Some (b # bs) }
   }"

definition file_stat :: "u32 \<Rightarrow> stat \<Rightarrow> client \<Rightarrow> (u32 \<times> stat \<times> client) option" where
  "file_stat fd st c = do {
     name \<leftarrow> load_string (f_file_of fd) c;
     sz \<leftarrow> load32 (f_size_of (f_file_of fd)) c;
     ty \<leftarrow> load32 (f_type_of (f_file_of fd)) c;
     Some (0, st\<lparr>st_name := name, st_size := sz, st_isdir := (ty = FTYPE_DIR)\<rparr>, c)
   }"

definition devfile :: dev where
  "devfile = \<lparr>dev_id = 0x66, dev_read = file_read, dev_write = file_write, dev_close = client_file_close, dev_stat = file_stat\<rparr>"

definition remove_path :: "u8 list \<Rightarrow> client \<Rightarrow> (u32 \<times> client) option" where
  "remove_path path = fsipc_remove path"

definition sync :: "client \<Rightarrow> (u32 \<times> client) option" where
  "sync = fsipc_sync"

section \<open>The console\<close>

text \<open>Polling the keyboard: each call of \<^verbatim>\<open>syscall_cgetc\<close> gives the next value, 0 for none.\<close>

partial_function (option) wait_key :: "client \<Rightarrow> (u32 \<times> client) option" where
  "wait_key c =
    (let k = keys c (pressed c); c = c\<lparr>pressed := pressed c + 1\<rparr> in
     if k = 0 then wait_key c else Some (k, c))"

definition cons_read :: "u32 \<Rightarrow> u32 \<Rightarrow> u32 \<Rightarrow> u32 \<Rightarrow> client \<Rightarrow> (u32 \<times> client) option" where
  "cons_read fd vbuf n offset c =
    (if n = 0 then Some (0, c)
     else do {
       (k, c) \<leftarrow> wait_key c;
       let c = c\<lparr>shown := shown c @ [if k \<noteq> 0x0D then ucast k else 0x0A]\<rparr>;
       if k <s 0 then Some (k, c)
       else if k = 4 then Some (0, c)
       else do { c \<leftarrow> store8 vbuf (ucast k) c; Some (1, c) }
     })"

definition c_print_cons :: "u32 \<Rightarrow> u32 \<Rightarrow> client \<Rightarrow> (u32 \<times> client) option" where
  "c_print_cons p num c =
    (if UTOP < p + num \<or> UTOP \<le> p \<or> p + num < p then Some (ecode E_INVAL, c)
     else do {
       c \<leftarrow> foldM (\<lambda>i c. do { b \<leftarrow> load8 (p + of_nat i) c; Some (c\<lparr>shown := shown c @ [b]\<rparr>) }) [0..<unat num] c;
       Some (0, c)
     })"

definition cons_write :: "u32 \<Rightarrow> u32 \<Rightarrow> u32 \<Rightarrow> u32 \<Rightarrow> client \<Rightarrow> (u32 \<times> client) option" where
  "cons_write fd buf n offset c = do {
     (r, c) \<leftarrow> c_print_cons buf n c;
     Some (if r <s 0 then r else n, c)
   }"

definition cons_close :: "u32 \<Rightarrow> client \<Rightarrow> (u32 \<times> client) option" where
  "cons_close fd c = Some (0, c)"

definition cons_stat :: "u32 \<Rightarrow> stat \<Rightarrow> client \<Rightarrow> (u32 \<times> stat \<times> client) option" where
  "cons_stat fd st c = Some (0, st\<lparr>st_name := [0x3C, 0x63, 0x6F, 0x6E, 0x73, 0x3E]\<rparr>, c)"

definition devcons :: dev where
  "devcons = \<lparr>dev_id = 0x63, dev_read = cons_read, dev_write = cons_write, dev_close = cons_close, dev_stat = cons_stat\<rparr>"

definition iscons :: "u32 \<Rightarrow> client \<Rightarrow> u32 option" where
  "iscons fdnum c =
    (case fd_lookup fdnum c of
       Inl e \<Rightarrow> Some (of_int e)
     | Inr fd \<Rightarrow> do { i \<leftarrow> load32 fd c; Some (if i = dev_id devcons then 1 else 0) })"

definition opencons :: "client \<Rightarrow> (u32 \<times> client) option" where
  "opencons c =
    (case fd_alloc c of
       Inl e \<Rightarrow> Some (of_int e, c)
     | Inr fd \<Rightarrow>
         let (r, c) = c_mem_alloc fd (PTE_D OR PTE_LIBRARY) c in
         if r <s 0 then Some (r, c)
         else do {
           c \<leftarrow> store32 fd (dev_id devcons) c;
           c \<leftarrow> store32 (fd_omode_of fd) O_RDWR c;
           Some (fd2num fd, c)
         })"

section \<open>Operations on any descriptor\<close>

definition devtab :: "dev \<Rightarrow> dev list" where
  "devtab devpipe = [devfile, devcons, devpipe]"

definition dev_lookup :: "dev \<Rightarrow> u32 \<Rightarrow> dev res" where
  "dev_lookup devpipe i =
    (case find (\<lambda>d. dev_id d = i) (devtab devpipe) of Some d \<Rightarrow> Inr d | None \<Rightarrow> Inl (- E_INVAL))"

text \<open>\<^verbatim>\<open>if ((r = fd_lookup(fdnum, &fd)) < 0 || (r = dev_lookup(fd->fd_dev_id, &dev)) < 0) return r;\<close>\<close>

definition on_fd :: "u32 \<Rightarrow> client \<Rightarrow> (u32 \<Rightarrow> (u32 \<times> client) option) \<Rightarrow> (u32 \<times> client) option" where
  "on_fd fdnum c k = (case fd_lookup fdnum c of Inl e \<Rightarrow> Some (of_int e, c) | Inr fd \<Rightarrow> k fd)"

definition on_dev :: "dev \<Rightarrow> u32 \<Rightarrow> client \<Rightarrow> (u32 \<Rightarrow> dev \<Rightarrow> (u32 \<times> client) option) \<Rightarrow> (u32 \<times> client) option" where
  "on_dev devpipe fdnum c k = on_fd fdnum c (\<lambda>fd. do {
     i \<leftarrow> load32 fd c;
     case dev_lookup devpipe i of Inl e \<Rightarrow> Some (of_int e, c) | Inr d \<Rightarrow> k fd d
   })"

definition close :: "dev \<Rightarrow> u32 \<Rightarrow> client \<Rightarrow> (u32 \<times> client) option" where
  "close devpipe fdnum c = on_dev devpipe fdnum c (\<lambda>fd d. do {
     (r, c) \<leftarrow> dev_close d fd c;
     c \<leftarrow> fd_close fd c;
     Some (r, c)
   })"

definition close_all :: "dev \<Rightarrow> client \<Rightarrow> client option" where
  "close_all devpipe = foldM (\<lambda>i c. do { (_, c) \<leftarrow> close devpipe (of_nat i) c; Some c }) [0..<unat MAXFD]"

text \<open>The body of the loop that shares the pages of the data window.\<close>

definition dup_page :: "u32 \<Rightarrow> u32 \<Rightarrow> u32 \<Rightarrow> client \<Rightarrow> (u32 \<times> client) option" where
  "dup_page ova nva i c =
    (case ptab c (VPN (ova + i)) of
       None \<Rightarrow> Some (0, c)
     | Some (_, fl) \<Rightarrow> Some (c_mem_map (ova + i) (nva + i) (fl AND (PTE_D OR PTE_LIBRARY)) c))"

definition dup_undo :: "u32 \<Rightarrow> u32 \<Rightarrow> u32 \<Rightarrow> client \<Rightarrow> (u32 \<times> client) option" where
  "dup_undo newfd nva r c = do {
     c \<leftarrow> panic_on (c_mem_unmap newfd c);
     (_, c) \<leftarrow> for_pages (\<lambda>i c. do { c \<leftarrow> panic_on (c_mem_unmap (nva + i) c); Some (0, c) }) 0 PDMAP c;
     Some (r, c)
   }"

definition dup :: "dev \<Rightarrow> u32 \<Rightarrow> u32 \<Rightarrow> client \<Rightarrow> (u32 \<times> client) option" where
  "dup devpipe oldfdnum newfdnum c = on_fd oldfdnum c (\<lambda>oldfd. do {
     (_, c) \<leftarrow> close devpipe newfdnum c;
     let newfd = INDEX2FD newfdnum;
     let ova = fd2data oldfd;
     let nva = fd2data newfd;
     (r, c) \<leftarrow> for_pages (dup_page ova nva) 0 PDMAP c;
     if r <s 0 then dup_undo newfd nva r c
     else
       let fl = (case ptab c (VPN oldfd) of Some (_, fl) \<Rightarrow> fl | None \<Rightarrow> 0);
           (r, c) = c_mem_map oldfd newfd (fl AND (PTE_D OR PTE_LIBRARY)) c
       in if r <s 0 then dup_undo newfd nva r c else Some (newfdnum, c)
   })"

text \<open>\<^verbatim>\<open>if (r > 0) fd->fd_offset += r;\<close>\<close>

definition advance :: "u32 \<Rightarrow> u32 \<Rightarrow> client \<Rightarrow> (u32 \<times> client) option" where
  "advance fd r c =
    (if 0 <s r then do {
       off \<leftarrow> load32 (fd_offset_of fd) c;
       c \<leftarrow> store32 (fd_offset_of fd) (off + r) c;
       Some (r, c)
     } else Some (r, c))"

definition read :: "dev \<Rightarrow> u32 \<Rightarrow> u32 \<Rightarrow> u32 \<Rightarrow> client \<Rightarrow> (u32 \<times> client) option" where
  "read devpipe fdnum buf n c = on_dev devpipe fdnum c (\<lambda>fd d. do {
     mode \<leftarrow> load32 (fd_omode_of fd) c;
     if mode AND O_ACCMODE = O_WRONLY then Some (ecode E_INVAL, c)
     else do {
       off \<leftarrow> load32 (fd_offset_of fd) c;
       (r, c) \<leftarrow> dev_read d fd buf n off c;
       advance fd r c
     }
   })"

partial_function (option) readn_loop :: "dev \<Rightarrow> u32 \<Rightarrow> u32 \<Rightarrow> u32 \<Rightarrow> u32 \<Rightarrow> client \<Rightarrow> (u32 \<times> client) option" where
  "readn_loop devpipe fdnum buf n tot c =
    (if tot < n then do {
       (m, c) \<leftarrow> read devpipe fdnum (buf + tot) (n - tot) c;
       if m <s 0 then Some (m, c)
       else if m = 0 then Some (tot, c)
       else readn_loop devpipe fdnum buf n (tot + m) c
     } else Some (tot, c))"

definition readn :: "dev \<Rightarrow> u32 \<Rightarrow> u32 \<Rightarrow> u32 \<Rightarrow> client \<Rightarrow> (u32 \<times> client) option" where
  "readn devpipe fdnum buf n c = readn_loop devpipe fdnum buf n 0 c"

definition write_fd :: "dev \<Rightarrow> u32 \<Rightarrow> u32 \<Rightarrow> u32 \<Rightarrow> client \<Rightarrow> (u32 \<times> client) option" where
  "write_fd devpipe fdnum buf n c = on_dev devpipe fdnum c (\<lambda>fd d. do {
     mode \<leftarrow> load32 (fd_omode_of fd) c;
     if mode AND O_ACCMODE = 0 then Some (ecode E_INVAL, c)
     else do {
       off \<leftarrow> load32 (fd_offset_of fd) c;
       (r, c) \<leftarrow> dev_write d fd buf n off c;
       advance fd r c
     }
   })"

definition seek :: "u32 \<Rightarrow> u32 \<Rightarrow> client \<Rightarrow> (u32 \<times> client) option" where
  "seek fdnum offset c = on_fd fdnum c (\<lambda>fd. do {
     c \<leftarrow> store32 (fd_offset_of fd) offset c;
     Some (0, c)
   })"

definition fstat :: "dev \<Rightarrow> u32 \<Rightarrow> stat \<Rightarrow> client \<Rightarrow> (u32 \<times> stat \<times> client) option" where
  "fstat devpipe fdnum st c =
    (case fd_lookup fdnum c of
       Inl e \<Rightarrow> Some (of_int e, st, c)
     | Inr fd \<Rightarrow> do {
         i \<leftarrow> load32 fd c;
         case dev_lookup devpipe i of
           Inl e \<Rightarrow> Some (of_int e, st, c)
         | Inr d \<Rightarrow> dev_stat d fd (st\<lparr>st_name := [], st_size := 0, st_isdir := False, st_dev := dev_id d\<rparr>) c
       })"

definition stat_path :: "dev \<Rightarrow> u8 list \<Rightarrow> stat \<Rightarrow> client \<Rightarrow> (u32 \<times> stat \<times> client) option" where
  "stat_path devpipe path st c = do {
     (fd, c) \<leftarrow> open_file_desc path 0 c;
     if fd <s 0 then Some (fd, st, c)
     else do {
       (r, st, c) \<leftarrow> fstat devpipe fd st c;
       (_, c) \<leftarrow> close devpipe fd c;
       Some (r, st, c)
     }
   }"

end
