(* ===== verification/MOS_FdMem.thy ===== *)
theory MOS_FdMem
  imports MOS_Fd
begin

text \<open>
  The memory of a client of the file server: cells, which several addresses of the client and the
  server may name, and what loads, stores and copies do to them.
\<close>

section \<open>Addresses in a page\<close>

lemma aligned_add:
  assumes "unat b mod 4096 = 0" "k < 4096"
  shows "VPN (b + of_nat k) = VPN b" "(b + of_nat k) AND 0xFFF = (of_nat k :: u32)" "unat (b + of_nat k) = unat b + k"
proof -
  have k: "unat (of_nat k :: u32) = k" unfolding unat_of_nat using assms(2) by simp
  obtain q where q: "unat b = 4096 * q" using assms(1) by (metis mod_0_imp_dvd dvd_def)
  then have "4096 * q < 2 ^ 32" using unsigned_less [of b, where ?'a = nat] by simp
  then show u: "unat (b + of_nat k) = unat b + k"
    using assms(2) k q by (subst unat_add_lem [THEN iffD1]) simp_all
  have "(unat b + k) mod 4096 = k" using assms(2) q by simp
  then show "(b + of_nat k) AND 0xFFF = (of_nat k :: u32)"
    by (simp add: word_unat_eq_iff unat_page_offset u k)
  show "VPN (b + of_nat k) = VPN b"
    unfolding VPN_div u q using assms(2) by simp
qed

lemmas aligned_field = aligned_add(1,2) [where k = "numeral n" for n, simplified]

lemma page_of_aligned: "unat a mod 4096 = 0 \<Longrightarrow> k < 4096 \<Longrightarrow> page_of (a + of_nat k) = a"
proof -
  assume *: "unat a mod 4096 = 0" "k < 4096"
  have "unat (a + of_nat k) div 4096 = unat a div 4096" using aligned_add(1) [OF *] by (simp add: VPN_div)
  moreover have "unat a div 4096 * 4096 = unat a" using *(1) div_mult_mod_eq [of "unat a" 4096] by simp
  ultimately show ?thesis by (simp add: word_unat_eq_iff unat_page_of)
qed

section \<open>Cells\<close>

definition page_ok :: "page \<Rightarrow> bool" where
  "page_ok p \<longleftrightarrow> (case p of Own _ \<Rightarrow> True | Shared a \<Rightarrow> unat a mod 4096 = 0)"

definition client_ok :: "client \<Rightarrow> bool" where
  "client_ok c \<longleftrightarrow> (\<forall>v p fl. ptab c v = Some (p, fl) \<longrightarrow> page_ok p)"

text \<open>The state without the contents of memory.\<close>

definition frame_of :: "client \<Rightarrow> client" where
  "frame_of c = c\<lparr>own := (\<lambda>_ _. 0), server := (server c)\<lparr>fs := (fs (server c))\<lparr>mem := (\<lambda>_. 0)\<rparr>\<rparr>\<rparr>"

lemma frame_of_put [simp]: "frame_of (put_page p g c) = frame_of c"
  by (simp add: frame_of_def put_page_def split: page.split)

lemma ptab_frame_of: "ptab (frame_of c) = ptab c"
  by (simp add: frame_of_def)

lemma ptab_frame: "frame_of c' = frame_of c \<Longrightarrow> ptab c' = ptab c"
  by (metis ptab_frame_of)

lemma ptab_put [simp]: "ptab (put_page p g c) = ptab c"
  by (simp add: put_page_def split: page.split)

lemma client_ok_frame: "frame_of c' = frame_of c \<Longrightarrow> client_ok c' = client_ok c"
  unfolding client_ok_def by (drule ptab_frame) simp

lemma page_mem_put:
  assumes "page_ok p" "page_ok q" "k < 4096"
  shows "page_mem q (put_page p g c) (of_nat k) = (if q = p then g (of_nat k) else page_mem q c (of_nat k))"
proof (cases p)
  case (Own f)
  then show ?thesis by (auto simp: page_mem_def put_page_def split: page.split)
next
  case (Shared a)
  show ?thesis
  proof (cases q)
    case (Shared b)
    then have "page_of (b + of_nat k) = b" using assms(2,3) by (simp add: page_ok_def page_of_aligned)
    then show ?thesis using Shared \<open>p = Shared a\<close> by (simp add: page_mem_def put_page_def)
  qed (auto simp: Shared page_mem_def put_page_def)
qed

definition cell :: "client \<Rightarrow> page \<times> nat \<Rightarrow> u8" where
  "cell c x = page_mem (fst x) c (of_nat (snd x))"

definition loc :: "u32 \<Rightarrow> client \<Rightarrow> (page \<times> nat) option" where
  "loc va c = map_option (\<lambda>(p, _). (p, unat va mod 4096)) (ptab c (VPN va))"

definition writable :: "u32 \<Rightarrow> client \<Rightarrow> bool" where
  "writable va c \<longleftrightarrow> (\<exists>p fl. ptab c (VPN va) = Some (p, fl) \<and> fl AND PTE_D \<noteq> 0)"

definition good :: "page \<times> nat \<Rightarrow> bool" where
  "good x \<longleftrightarrow> page_ok (fst x) \<and> snd x < 4096"

lemma loc_frame: "frame_of c' = frame_of c \<Longrightarrow> loc va c' = loc va c"
  unfolding loc_def by (drule ptab_frame) simp

lemma writable_frame: "frame_of c' = frame_of c \<Longrightarrow> writable va c' = writable va c"
  unfolding writable_def by (drule ptab_frame) simp

lemma loc_good: "client_ok c \<Longrightarrow> loc va c = Some x \<Longrightarrow> good x"
  unfolding client_ok_def loc_def good_def by fastforce

lemma offset_word: "(va AND 0xFFF :: u32) = of_nat (unat va mod 4096)"
  unfolding unat_page_offset [symmetric] by simp

lemma load8_loc: "load8 va c = map_option (cell c) (loc va c)"
  by (auto simp: load8_def loc_def cell_def offset_word split: option.split)

lemma of_nat_offset_inj: "i < 4096 \<Longrightarrow> j < 4096 \<Longrightarrow> (of_nat i :: u32) = of_nat j \<longleftrightarrow> i = j"
  by (auto simp: word_unat_eq_iff unat_of_nat)

lemma store8_spec:
  assumes "client_ok c" "writable va c"
  shows "\<exists>c'. store8 va b c = Some c' \<and> frame_of c' = frame_of c \<and>
    (\<forall>x. good x \<longrightarrow> cell c' x = (if loc va c = Some x then b else cell c x))"
proof -
  obtain p fl where p: "ptab c (VPN va) = Some (p, fl)" "fl AND PTE_D \<noteq> 0" using assms(2) by (auto simp: writable_def)
  have "page_ok p" using assms(1) p(1) by (auto simp: client_ok_def)
  then have "cell (put_page p ((page_mem p c)(va AND 0xFFF := b)) c) x = (if loc va c = Some x then b else cell c x)" if "good x" for x
    using that of_nat_offset_inj [of "snd x" "unat va mod 4096"] p(1)
    by (cases x) (auto simp: cell_def good_def page_mem_put loc_def offset_word)
  then show ?thesis using p by (simp add: store8_def)
qed

lemma copy_loop:
  assumes "client_ok c" "\<And>i. i < n \<Longrightarrow> writable (dst + of_nat i) c" "\<And>i. i < n \<Longrightarrow> loc (src + of_nat i) c \<noteq> None"
    and "\<And>i j. i < n \<Longrightarrow> j < n \<Longrightarrow> loc (dst + of_nat i) c \<noteq> loc (src + of_nat j) c"
    and "\<And>i j. i < n \<Longrightarrow> j < n \<Longrightarrow> loc (dst + of_nat i) c = loc (dst + of_nat j) c \<Longrightarrow> i = j"
  shows "\<exists>c'. foldM (\<lambda>i c. do { b \<leftarrow> load8 (src + of_nat i) c; store8 (dst + of_nat i) b c }) [0..<n] c = Some c' \<and> frame_of c' = frame_of c \<and>
    (\<forall>x. good x \<longrightarrow> (\<forall>i<n. loc (dst + of_nat i) c \<noteq> Some x) \<longrightarrow> cell c' x = cell c x) \<and>
    (\<forall>i<n. load8 (dst + of_nat i) c' = load8 (src + of_nat i) c)"
  using assms(2-5)
proof (induction n)
  case 0
  then show ?case by simp
next
  case (Suc n)
  obtain d where d: "foldM (\<lambda>i c. do { b \<leftarrow> load8 (src + of_nat i) c; store8 (dst + of_nat i) b c }) [0..<n] c = Some d"
    "frame_of d = frame_of c" "\<And>x. good x \<Longrightarrow> (\<forall>i<n. loc (dst + of_nat i) c \<noteq> Some x) \<Longrightarrow> cell d x = cell c x"
    "\<And>i. i < n \<Longrightarrow> load8 (dst + of_nat i) d = load8 (src + of_nat i) c"
    using Suc.IH [OF Suc.prems(1) [OF less_SucI] Suc.prems(2) [OF less_SucI] Suc.prems(3) [OF less_SucI less_SucI] Suc.prems(4) [OF less_SucI less_SucI]]
    by blast
  have lw: "client_ok d" "writable (dst + of_nat n) d" "\<And>va. loc va d = loc va c"
    using assms(1) Suc.prems(1) client_ok_frame [OF d(2)] writable_frame [OF d(2)] loc_frame [OF d(2)] by auto
  obtain y where y: "loc (src + of_nat n) c = Some y" "good y"
    using Suc.prems(2) [of n] loc_good [OF assms(1)] by auto
  have src: "load8 (src + of_nat n) d = load8 (src + of_nat n) c"
    using d(3) [OF y(2)] y(1) Suc.prems(3) [of _ n] by (simp add: load8_loc lw(3) less_SucI)
  obtain b where b: "load8 (src + of_nat n) c = Some b" using y by (simp add: load8_loc)
  obtain e where e: "store8 (dst + of_nat n) b d = Some e" "frame_of e = frame_of d"
    "\<And>x. good x \<Longrightarrow> cell e x = (if loc (dst + of_nat n) d = Some x then b else cell d x)"
    using store8_spec [OF lw(1,2)] by blast
  have le: "loc va e = loc va c" for va using loc_frame [OF e(2)] lw(3) by simp
  have "load8 (dst + of_nat i) e = load8 (src + of_nat i) c" if i: "i < Suc n" for i
  proof -
    obtain x where x: "loc (dst + of_nat i) c = Some x" "good x"
      using Suc.prems(1) [OF i] loc_good [OF assms(1)] by (auto simp: writable_def loc_def)
    show ?thesis
    proof (cases "i = n")
      case True
      then show ?thesis using x e(3) [OF x(2)] b by (simp add: load8_loc [of _ e] le lw(3))
    next
      case False
      then have "loc (dst + of_nat n) c \<noteq> Some x" using Suc.prems(4) [of n i] i x(1) by auto
      then show ?thesis using x e(3) [OF x(2)] d(4) [of i] False i by (simp add: load8_loc le lw(3))
    qed
  qed
  moreover have "cell e x = cell c x" if "good x" "\<forall>i<Suc n. loc (dst + of_nat i) c \<noteq> Some x" for x
    using that e(3) [of x] d(3) [of x] by (simp add: lw(3))
  ultimately show ?case using d(1,2) e(1,2) src b by (simp add: foldM_append)
qed

lemma copy_bytes_spec:
  assumes "unat w = n" "client_ok c"
    and "\<And>i. i < n \<Longrightarrow> writable (dst + of_nat i) c" "\<And>i. i < n \<Longrightarrow> loc (src + of_nat i) c \<noteq> None"
    and "\<And>i j. i < n \<Longrightarrow> j < n \<Longrightarrow> loc (dst + of_nat i) c \<noteq> loc (src + of_nat j) c"
    and "\<And>i j. i < n \<Longrightarrow> j < n \<Longrightarrow> loc (dst + of_nat i) c = loc (dst + of_nat j) c \<Longrightarrow> i = j"
  obtains c' where "copy_bytes dst src w c = Some c'" "frame_of c' = frame_of c"
    "\<And>x. good x \<Longrightarrow> (\<And>i. i < n \<Longrightarrow> loc (dst + of_nat i) c \<noteq> Some x) \<Longrightarrow> cell c' x = cell c x"
    "\<And>i. i < n \<Longrightarrow> load8 (dst + of_nat i) c' = load8 (src + of_nat i) c"
  using copy_loop [OF assms(2-6)] unfolding copy_bytes_def assms(1) by blast

section \<open>Words in a page\<close>

definition field :: "page \<Rightarrow> nat \<Rightarrow> client \<Rightarrow> u32" where
  "field p k c = ld32 (page_mem p c) (of_nat k)"

lemma field_cong: "(\<And>j. j < 4 \<Longrightarrow> cell c' (p, k + j) = cell c (p, k + j)) \<Longrightarrow> field p k c' = field p k c"
  unfolding field_def by (rule ld32_cong) (simp add: cell_def)

lemma load32_field:
  assumes "unat fd mod 4096 = 0" "ptab c (VPN fd) = Some (p, fl)" "k < 4096"
  shows "load32 (fd + of_nat k) c = Some (field p k c)"
  using assms(2) aligned_add(1,2) [OF assms(1,3)] by (simp add: load32_def field_def)

lemma store32_field:
  assumes "unat fd mod 4096 = 0" "ptab c (VPN fd) = Some (p, fl)" "fl AND PTE_D \<noteq> 0" "page_ok p" "k + 4 \<le> 4096"
  shows "\<exists>c'. store32 (fd + of_nat k) w c = Some c' \<and> frame_of c' = frame_of c \<and> field p k c' = w \<and>
    (\<forall>j. j + 4 \<le> 4096 \<longrightarrow> j + 4 \<le> k \<or> k + 4 \<le> j \<longrightarrow> field p j c' = field p j c) \<and>
    (\<forall>x. good x \<longrightarrow> fst x \<noteq> p \<longrightarrow> cell c' x = cell c x)"
proof -
  let ?c = "put_page p (st32 (of_nat k) w (page_mem p c)) c"
  have k: "k < 4096" using assms(5) by simp
  have c: "store32 (fd + of_nat k) w c = Some ?c"
    using assms(2,3) aligned_add(1,2) [OF assms(1) k] by (simp add: store32_def)
  have f: "field p j ?c = ld32 (st32 (of_nat k) w (page_mem p c)) (of_nat j)" if "j + 4 \<le> 4096" for j
    unfolding field_def
  proof (rule ld32_cong)
    fix i :: nat assume "i < 4"
    then show "page_mem p ?c (of_nat j + of_nat i) = st32 (of_nat k) w (page_mem p c) (of_nat j + of_nat i)"
      using page_mem_put [OF assms(4,4), of "j + i"] that by simp
  qed
  have far: "4 \<le> unat (of_nat j - of_nat k :: u32)" if "j + 4 \<le> 4096" "k + 4 \<le> 4096" "j + 4 \<le> k \<or> k + 4 \<le> j" for j k
    using that by (auto simp: unat_sub_if' unat_of_nat)
  have "field p j ?c = field p j c" if "j + 4 \<le> 4096" "j + 4 \<le> k \<or> k + 4 \<le> j" for j
  proof -
    have "4 \<le> unat (of_nat k - of_nat j :: u32)" by (rule far) (use that assms(5) in auto)
    then show ?thesis
      using f [OF that(1)] ld32_st32_other [OF far [OF that(1) assms(5) that(2)]] by (simp add: field_def)
  qed
  moreover have "cell ?c x = cell c x" if "good x" "fst x \<noteq> p" for x
    using that assms(4) by (simp add: cell_def page_mem_put good_def)
  ultimately show ?thesis using c f [OF assms(5)] by (simp add: ld32_st32)
qed

end
