(* ===== verification/MOS_FileDesc.thy ===== *)
theory MOS_FileDesc
  imports MOS_FdMem
begin

text \<open>
  Open files refine an abstract file, a list of bytes with a position: \<^verbatim>\<open>read\<close>, \<^verbatim>\<open>write\<close> and
  \<^verbatim>\<open>seek\<close> of \<^verbatim>\<open>user/lib/fd.c\<close> on the device of \<^verbatim>\<open>user/lib/file.c\<close>.
\<close>

section \<open>The abstract file\<close>

definition af_read :: "nat \<Rightarrow> u8 list \<Rightarrow> nat \<Rightarrow> u8 list" where
  "af_read n bs pos = take n (drop pos bs)"

definition af_write :: "u8 list \<Rightarrow> u8 list \<Rightarrow> nat \<Rightarrow> u8 list" where
  "af_write data bs pos = take pos bs @ data @ drop (pos + length data) bs"

text \<open>Descriptor \<open>i\<close> of the client is open on a regular file with contents \<open>bs\<close>, position \<open>pos\<close> and the given mode:
  every byte of the file is mapped once in its window, apart from the descriptor page.\<close>

definition file_desc :: "u32 \<Rightarrow> u32 \<Rightarrow> u8 list \<Rightarrow> nat \<Rightarrow> client \<Rightarrow> bool" where
  "file_desc i mode bs pos c \<longleftrightarrow> client_ok c \<and> i < MAXFD \<and> pos < 2 ^ 32 \<and> length bs \<le> 0x400000 \<and>
     (\<exists>p fl. ptab c (VPN (INDEX2FD i)) = Some (p, fl) \<and> fl AND PTE_D \<noteq> 0 \<and>
        field p 0 c = 0x66 \<and> field p 4 c = of_nat pos \<and> field p 8 c = mode \<and> field p 144 c = of_nat (length bs) \<and>
        (\<forall>k<length bs. load8 (INDEX2DATA i + of_nat k) c = Some (bs ! k) \<and> writable (INDEX2DATA i + of_nat k) c \<and>
           fst (the (loc (INDEX2DATA i + of_nat k) c)) \<noteq> p)) \<and>
     (\<forall>j<length bs. \<forall>k<length bs. loc (INDEX2DATA i + of_nat j) c = loc (INDEX2DATA i + of_nat k) c \<longrightarrow> j = k)"

text \<open>A buffer of the client that shares no cell with the descriptor or the first \<open>m\<close> bytes of the file.\<close>

definition apart :: "u32 \<Rightarrow> nat \<Rightarrow> u32 \<Rightarrow> nat \<Rightarrow> client \<Rightarrow> bool" where
  "apart i m buf n c \<longleftrightarrow> (\<forall>k<n. loc (buf + of_nat k) c \<noteq> None \<and>
     fst (the (loc (buf + of_nat k) c)) \<noteq> fst (the (loc (INDEX2FD i) c)) \<and>
     (\<forall>j<m. loc (buf + of_nat k) c \<noteq> loc (INDEX2DATA i + of_nat j) c))"

definition out_buffer :: "u32 \<Rightarrow> nat \<Rightarrow> client \<Rightarrow> bool" where
  "out_buffer buf n c \<longleftrightarrow> (\<forall>k<n. writable (buf + of_nat k) c) \<and>
     (\<forall>j<n. \<forall>k<n. loc (buf + of_nat j) c = loc (buf + of_nat k) c \<longrightarrow> j = k)"

section \<open>Numbers and addresses of descriptors\<close>

lemma unat_INDEX2FD: "i < MAXFD \<Longrightarrow> unat (INDEX2FD i) = 0x5FC00000 + 4096 * unat i"
proof -
  assume "i < MAXFD"
  then have i: "unat i < 32" by (simp add: word_less_nat_alt)
  then have "unat (i * PTMAP) = unat i * 4096" by (subst unat_mult_lem [THEN iffD1]) simp_all
  with i show ?thesis unfolding INDEX2FD_def by (subst unat_add_lem [THEN iffD1]) simp_all
qed

lemma INDEX2FD_aligned: "i < MAXFD \<Longrightarrow> unat (INDEX2FD i) mod 4096 = 0"
proof -
  assume "i < MAXFD"
  moreover have "0x5FC00000 + 4096 * unat i = 4096 * (0x5FC00 + unat i)" by simp
  ultimately show ?thesis by (simp only: unat_INDEX2FD mod_mult_self1_is_0)
qed

lemma fd2num_INDEX2FD: "i < MAXFD \<Longrightarrow> fd2num (INDEX2FD i) = i"
proof -
  assume "i < MAXFD"
  then have i: "unat i < 32" by (simp add: word_less_nat_alt)
  then have "unat (i * PTMAP) = unat i * 4096" by (subst unat_mult_lem [THEN iffD1]) simp_all
  then have "unat (i * PTMAP div PTMAP) = unat i" by (simp add: unat_div)
  then show ?thesis by (simp add: fd2num_def INDEX2FD_def word_unat_eq_iff)
qed

lemma fd2data_INDEX2FD: "i < MAXFD \<Longrightarrow> fd2data (INDEX2FD i) = INDEX2DATA i"
  by (simp add: fd2data_def fd2num_INDEX2FD)

lemma fd_lookup_open: "i < MAXFD \<Longrightarrow> ptab c (VPN (INDEX2FD i)) \<noteq> None \<Longrightarrow> fd_lookup i c = Inr (INDEX2FD i)"
proof -
  assume *: "i < MAXFD" "ptab c (VPN (INDEX2FD i)) \<noteq> None"
  have "\<not> MAXFD \<le>s i"
  proof -
    have "unat i < 2 ^ 31" using *(1) by (simp add: word_less_nat_alt)
    moreover have "uint i < 32" using *(1) by (simp add: word_less_def)
    ultimately show ?thesis by (simp add: word_sle_eq sint_small)
  qed
  with *(2) show ?thesis by (simp add: fd_lookup_def Let_def)
qed

section \<open>Properties of an open file\<close>

lemma file_descE:
  assumes "file_desc i mode bs pos c"
  obtains p fl where "client_ok c" "i < MAXFD" "pos < 2 ^ 32" "length bs \<le> 0x400000"
    "ptab c (VPN (INDEX2FD i)) = Some (p, fl)" "fl AND PTE_D \<noteq> 0" "page_ok p"
    "fd_lookup i c = Inr (INDEX2FD i)" "unat (INDEX2FD i) mod 4096 = 0" "loc (INDEX2FD i) c = Some (p, 0)"
    "field p 0 c = 0x66" "field p 4 c = of_nat pos" "field p 8 c = mode" "field p 144 c = of_nat (length bs)"
    "\<And>k. k < length bs \<Longrightarrow> load8 (INDEX2DATA i + of_nat k) c = Some (bs ! k)"
    "\<And>k. k < length bs \<Longrightarrow> writable (INDEX2DATA i + of_nat k) c"
    "\<And>k. k < length bs \<Longrightarrow> fst (the (loc (INDEX2DATA i + of_nat k) c)) \<noteq> p"
    "\<And>j k. j < length bs \<Longrightarrow> k < length bs \<Longrightarrow> loc (INDEX2DATA i + of_nat j) c = loc (INDEX2DATA i + of_nat k) c \<Longrightarrow> j = k"
proof -
  from assms obtain p fl where p: "ptab c (VPN (INDEX2FD i)) = Some (p, fl)" "fl AND PTE_D \<noteq> 0"
    "field p 0 c = 0x66" "field p 4 c = of_nat pos" "field p 8 c = mode" "field p 144 c = of_nat (length bs)"
    "\<forall>k<length bs. load8 (INDEX2DATA i + of_nat k) c = Some (bs ! k) \<and> writable (INDEX2DATA i + of_nat k) c \<and>
       fst (the (loc (INDEX2DATA i + of_nat k) c)) \<noteq> p"
    unfolding file_desc_def by blast
  have i: "client_ok c" "i < MAXFD" "pos < 2 ^ 32" "length bs \<le> 0x400000"
    "\<And>j k. j < length bs \<Longrightarrow> k < length bs \<Longrightarrow> loc (INDEX2DATA i + of_nat j) c = loc (INDEX2DATA i + of_nat k) c \<Longrightarrow> j = k"
    using assms unfolding file_desc_def by blast+
  have "page_ok p" using i(1) p(1) unfolding client_ok_def by blast
  moreover have "loc (INDEX2FD i) c = Some (p, 0)" using p(1) by (simp add: loc_def INDEX2FD_aligned [OF i(2)])
  moreover have "fd_lookup i c = Inr (INDEX2FD i)" using p(1) by (simp add: fd_lookup_open [OF i(2)])
  ultimately show thesis
    using that [OF i(1-4) p(1,2) _ _ INDEX2FD_aligned [OF i(2)] _ p(3-6)] p(7) i(5) by blast
qed

text \<open>A change of memory that leaves the fields of the descriptor keeps an open file, with the contents
  memory has then.\<close>

lemma file_descI:
  assumes "file_desc i mode bs pos c" "frame_of c' = frame_of c" "pos' < 2 ^ 32" "length bs' = length bs"
    and "loc (INDEX2FD i) c = Some (p, 0)" "field p 0 c' = field p 0 c" "field p 4 c' = of_nat pos'"
    and "field p 8 c' = field p 8 c" "field p 144 c' = field p 144 c"
    and "\<And>k. k < length bs \<Longrightarrow> load8 (INDEX2DATA i + of_nat k) c' = Some (bs' ! k)"
  shows "file_desc i mode bs' pos' c'"
proof -
  obtain q fl where q: "client_ok c" "i < MAXFD" "pos < 2 ^ 32" "length bs \<le> 0x400000"
    "ptab c (VPN (INDEX2FD i)) = Some (q, fl)" "fl AND PTE_D \<noteq> 0" "page_ok q"
    "fd_lookup i c = Inr (INDEX2FD i)" "unat (INDEX2FD i) mod 4096 = 0" "loc (INDEX2FD i) c = Some (q, 0)"
    "field q 0 c = 0x66" "field q 4 c = of_nat pos" "field q 8 c = mode" "field q 144 c = of_nat (length bs)"
    "\<And>k. k < length bs \<Longrightarrow> load8 (INDEX2DATA i + of_nat k) c = Some (bs ! k)"
    "\<And>k. k < length bs \<Longrightarrow> writable (INDEX2DATA i + of_nat k) c"
    "\<And>k. k < length bs \<Longrightarrow> fst (the (loc (INDEX2DATA i + of_nat k) c)) \<noteq> q"
    "\<And>j k. j < length bs \<Longrightarrow> k < length bs \<Longrightarrow> loc (INDEX2DATA i + of_nat j) c = loc (INDEX2DATA i + of_nat k) c \<Longrightarrow> j = k"
    using file_descE [OF assms(1)] by metis
  have pq: "p = q" using assms(5) q(10) by simp
  note fr = ptab_frame [OF assms(2)] client_ok_frame [OF assms(2)] loc_frame [OF assms(2)] writable_frame [OF assms(2)]
  show ?thesis
    unfolding file_desc_def fr assms(4) using q(1,2,4,5,6,11,13,14,16,17,18) assms(3,6-10) unfolding pq by auto
qed

lemma desc_loads:
  assumes "file_desc i mode bs pos c"
  shows "load32 (INDEX2FD i) c = Some 0x66" "load32 (INDEX2FD i + 4) c = Some (of_nat pos)"
    "load32 (INDEX2FD i + 8) c = Some mode" "load32 (INDEX2FD i + 16 + 128) c = Some (of_nat (length bs))"
proof -
  obtain p fl where p: "ptab c (VPN (INDEX2FD i)) = Some (p, fl)" "unat (INDEX2FD i) mod 4096 = 0"
    "field p 0 c = 0x66" "field p 4 c = of_nat pos" "field p 8 c = mode" "field p 144 c = of_nat (length bs)"
    using file_descE [OF assms] by metis
  note l = load32_field [OF p(2,1)]
  show "load32 (INDEX2FD i) c = Some 0x66" "load32 (INDEX2FD i + 4) c = Some (of_nat pos)"
    "load32 (INDEX2FD i + 8) c = Some mode" "load32 (INDEX2FD i + 16 + 128) c = Some (of_nat (length bs))"
    using l [of 0] l [of 4] l [of 8] l [of 144] p(3-6) by (simp_all add: add.assoc)
qed

lemma on_dev_file:
  assumes "file_desc i mode bs pos c"
  shows "on_dev devpipe i c k = k (INDEX2FD i) devfile"
proof -
  have "fd_lookup i c = Inr (INDEX2FD i)" using file_descE [OF assms] by metis
  then show ?thesis
    using desc_loads(1) [OF assms] by (simp add: on_dev_def on_fd_def dev_lookup_def devtab_def devfile_def)
qed

text \<open>Moving the position changes no other page.\<close>

lemma store_offset:
  assumes "file_desc i mode bs pos c" "pos' < 2 ^ 32"
  shows "\<exists>c'. store32 (INDEX2FD i + 4) (of_nat pos') c = Some c' \<and> file_desc i mode bs pos' c' \<and> frame_of c' = frame_of c \<and>
    (\<forall>va. loc va c \<noteq> None \<longrightarrow> fst (the (loc va c)) \<noteq> fst (the (loc (INDEX2FD i) c)) \<longrightarrow> load8 va c' = load8 va c) \<and>
    (\<forall>x. good x \<longrightarrow> fst x \<noteq> fst (the (loc (INDEX2FD i) c)) \<longrightarrow> cell c' x = cell c x)"
proof -
  obtain p fl where p: "client_ok c" "ptab c (VPN (INDEX2FD i)) = Some (p, fl)" "fl AND PTE_D \<noteq> 0" "page_ok p"
    "unat (INDEX2FD i) mod 4096 = 0" "loc (INDEX2FD i) c = Some (p, 0)"
    "\<And>k. k < length bs \<Longrightarrow> load8 (INDEX2DATA i + of_nat k) c = Some (bs ! k)"
    "\<And>k. k < length bs \<Longrightarrow> fst (the (loc (INDEX2DATA i + of_nat k) c)) \<noteq> p"
    using file_descE [OF assms(1)] by metis
  have le: "(4::nat) + 4 \<le> 4096" by simp
  obtain c' where c: "store32 (INDEX2FD i + of_nat 4) (of_nat pos') c = Some c'" "frame_of c' = frame_of c" "field p 4 c' = of_nat pos'"
    "\<And>j. j + 4 \<le> 4096 \<Longrightarrow> j + 4 \<le> 4 \<or> 4 + 4 \<le> j \<Longrightarrow> field p j c' = field p j c"
    "\<And>x. good x \<Longrightarrow> fst x \<noteq> p \<Longrightarrow> cell c' x = cell c x"
    using store32_field [OF p(5,2,3,4) le] by blast
  have other: "load8 va c' = load8 va c" if "loc va c \<noteq> None" "fst (the (loc va c)) \<noteq> p" for va
    using that loc_good [OF p(1), of va] c(5) by (auto simp: load8_loc loc_frame [OF c(2)])
  have "loc (INDEX2DATA i + of_nat k) c \<noteq> None" if "k < length bs" for k
    using p(7) [OF that] by (auto simp: load8_loc)
  then have "file_desc i mode bs pos' c'"
    using c(3,4) p(7,8) other by (intro file_descI [OF assms(1) c(2) assms(2) _ p(6)]) auto
  then show ?thesis using c(1,2,5) other p(6) by auto
qed

lemma advance_ok:
  assumes "file_desc i mode bs pos c" "pos + m < 2 ^ 32" "m \<le> 0x400000"
  shows "\<exists>c'. advance (INDEX2FD i) (of_nat m) c = Some (of_nat m, c') \<and> file_desc i mode bs (pos + m) c' \<and> frame_of c' = frame_of c \<and>
    (\<forall>va. loc va c \<noteq> None \<longrightarrow> fst (the (loc va c)) \<noteq> fst (the (loc (INDEX2FD i) c)) \<longrightarrow> load8 va c' = load8 va c) \<and>
    (\<forall>x. good x \<longrightarrow> fst x \<noteq> fst (the (loc (INDEX2FD i) c)) \<longrightarrow> cell c' x = cell c x)"
proof (cases "m = 0")
  case True
  then show ?thesis using assms(1) by (simp add: advance_def)
next
  case False
  have "(0::u32) <s of_nat m"
    using False assms(3) by (subst small_sless) (auto simp: unat_of_nat word_less_nat_alt)
  then show ?thesis
    using store_offset [OF assms(1,2)] desc_loads(2) [OF assms(1)] by (auto simp: advance_def)
qed

section \<open>Reading and writing\<close>

text \<open>A copy that leaves the descriptor page and the file alone, and one into the file.\<close>

lemma copy_out:
  assumes d: "file_desc i mode bs pos c" and "apart i (length bs) buf n c" "out_buffer buf n c" "m \<le> n" "pos + m \<le> length bs"
  shows "\<exists>c'. copy_bytes buf (INDEX2DATA i + of_nat pos) (of_nat m) c = Some c' \<and> file_desc i mode bs pos c' \<and>
    frame_of c' = frame_of c \<and> (\<forall>k<m. load8 (buf + of_nat k) c' = Some (bs ! (pos + k))) \<and>
    (\<forall>x. good x \<longrightarrow> (\<forall>k<n. loc (buf + of_nat k) c \<noteq> Some x) \<longrightarrow> cell c' x = cell c x)"
proof -
  obtain p where p: "client_ok c" "pos < 2 ^ 32" "length bs \<le> 0x400000" "loc (INDEX2FD i) c = Some (p, 0)" "page_ok p"
    "field p 4 c = of_nat pos"
    "\<And>k. k < length bs \<Longrightarrow> load8 (INDEX2DATA i + of_nat k) c = Some (bs ! k)"
    using file_descE [OF d] by metis
  have m: "unat (of_nat m :: u32) = m" using p(3) assms(5) by (simp add: unat_of_nat)
  have src: "INDEX2DATA i + of_nat pos + of_nat k = INDEX2DATA i + of_nat (pos + k)" for k :: nat by simp
  have dl: "loc (INDEX2DATA i + of_nat k) c \<noteq> None" if "k < length bs" for k using p(7) [OF that] by (auto simp: load8_loc)
  obtain c' where c: "copy_bytes buf (INDEX2DATA i + of_nat pos) (of_nat m) c = Some c'" "frame_of c' = frame_of c"
    "\<And>x. good x \<Longrightarrow> (\<And>k. k < m \<Longrightarrow> loc (buf + of_nat k) c \<noteq> Some x) \<Longrightarrow> cell c' x = cell c x"
    "\<And>k. k < m \<Longrightarrow> load8 (buf + of_nat k) c' = load8 (INDEX2DATA i + of_nat pos + of_nat k) c"
    by (rule copy_bytes_spec [OF m p(1), of buf "INDEX2DATA i + of_nat pos"])
      (use assms dl in \<open>auto simp: src apart_def out_buffer_def simp del: of_nat_add\<close>)
  have pg: "cell c' (p, k) = cell c (p, k)" if "k < 4096" for k
  proof (rule c(3))
    show "good (p, k)" using that p(5) by (simp add: good_def)
    show "loc (buf + of_nat j) c \<noteq> Some (p, k)" if "j < m" for j
      using p(4) assms(2,4) that unfolding apart_def by (metis less_le_trans fst_conv option.sel)
  qed
  have fld: "field p k c' = field p k c" if "k + 4 \<le> 4096" for k
    using that by (intro field_cong pg) simp
  have "load8 (INDEX2DATA i + of_nat k) c' = Some (bs ! k)" if k: "k < length bs" for k
  proof -
    obtain x where x: "loc (INDEX2DATA i + of_nat k) c = Some x" "good x" using dl [OF k] loc_good [OF p(1)] by blast
    have "loc (buf + of_nat j) c \<noteq> Some x" if "j < m" for j
      using assms(2,4) k x(1) that unfolding apart_def by (metis less_le_trans)
    then have "cell c' x = cell c x" using x(2) by (intro c(3))
    then show ?thesis using p(7) [OF k] x by (simp add: load8_loc loc_frame [OF c(2)])
  qed
  then have "file_desc i mode bs pos c'"
    using fld p(2,6) by (intro file_descI [OF d c(2) _ _ p(4)]) auto
  then show ?thesis using c p(7) assms(4,5) by (auto simp: src simp del: of_nat_add)
qed

lemma copy_in:
  assumes d: "file_desc i mode bs pos c" and "apart i (length bs) buf (length data) c" "pos + length data \<le> length bs"
    and b: "\<And>k. k < length data \<Longrightarrow> load8 (buf + of_nat k) c = Some (data ! k)"
  shows "\<exists>c'. copy_bytes (INDEX2DATA i + of_nat pos) buf (of_nat (length data)) c = Some c' \<and>
    file_desc i mode (af_write data bs pos) pos c' \<and> frame_of c' = frame_of c"
proof -
  let ?m = "length data"
  obtain p where p: "client_ok c" "pos < 2 ^ 32" "length bs \<le> 0x400000" "loc (INDEX2FD i) c = Some (p, 0)" "page_ok p"
    "field p 4 c = of_nat pos"
    "\<And>k. k < length bs \<Longrightarrow> load8 (INDEX2DATA i + of_nat k) c = Some (bs ! k)"
    "\<And>k. k < length bs \<Longrightarrow> writable (INDEX2DATA i + of_nat k) c"
    "\<And>k. k < length bs \<Longrightarrow> fst (the (loc (INDEX2DATA i + of_nat k) c)) \<noteq> p"
    "\<And>j k. j < length bs \<Longrightarrow> k < length bs \<Longrightarrow> loc (INDEX2DATA i + of_nat j) c = loc (INDEX2DATA i + of_nat k) c \<Longrightarrow> j = k"
    using file_descE [OF d] by metis
  have m: "unat (of_nat ?m :: u32) = ?m" using p(3) assms(3) by (simp add: unat_of_nat)
  have dst: "INDEX2DATA i + of_nat pos + of_nat k = INDEX2DATA i + of_nat (pos + k)" for k :: nat by simp
  have dl: "loc (INDEX2DATA i + of_nat k) c \<noteq> None" if "k < length bs" for k using p(7) [OF that] by (auto simp: load8_loc)
  have apt: "loc (INDEX2DATA i + of_nat (pos + j)) c \<noteq> loc (buf + of_nat k) c" if "j < ?m" "k < ?m" for j k
    using assms(2,3) that unfolding apart_def by (metis add_less_cancel_left less_le_trans)
  have inj: "j = k" if "j < ?m" "k < ?m" "loc (INDEX2DATA i + of_nat (pos + j)) c = loc (INDEX2DATA i + of_nat (pos + k)) c" for j k
    using p(10) [of "pos + j" "pos + k"] assms(3) that by simp
  obtain c' where c: "copy_bytes (INDEX2DATA i + of_nat pos) buf (of_nat ?m) c = Some c'" "frame_of c' = frame_of c"
    "\<And>x. good x \<Longrightarrow> (\<And>k. k < ?m \<Longrightarrow> loc (INDEX2DATA i + of_nat pos + of_nat k) c \<noteq> Some x) \<Longrightarrow> cell c' x = cell c x"
    "\<And>k. k < ?m \<Longrightarrow> load8 (INDEX2DATA i + of_nat pos + of_nat k) c' = load8 (buf + of_nat k) c"
    by (rule copy_bytes_spec [OF m p(1), of "INDEX2DATA i + of_nat pos" buf])
      (use assms(2,3) p(8) apt inj in \<open>auto simp: dst apart_def simp del: of_nat_add\<close>)
  note c = c [unfolded dst]
  have pg: "cell c' (p, k) = cell c (p, k)" if "k < 4096" for k
  proof (rule c(3))
    show "good (p, k)" using that p(5) by (simp add: good_def)
    show "loc (INDEX2DATA i + of_nat (pos + j)) c \<noteq> Some (p, k)" if "j < ?m" for j
      using p(9) [of "pos + j"] assms(3) that by force
  qed
  have fld: "field p k c' = field p k c" if "k + 4 \<le> 4096" for k
    using that by (intro field_cong pg) simp
  have "load8 (INDEX2DATA i + of_nat k) c' = Some (af_write data bs pos ! k)" if k: "k < length bs" for k
  proof (cases "pos \<le> k \<and> k < pos + ?m")
    case True
    then show ?thesis using c(4) [of "k - pos"] b [of "k - pos"] assms(3) by (auto simp: af_write_def nth_append)
  next
    case False
    obtain x where x: "loc (INDEX2DATA i + of_nat k) c = Some x" "good x" using dl [OF k] loc_good [OF p(1)] by blast
    have "loc (INDEX2DATA i + of_nat (pos + j)) c \<noteq> Some x" if "j < ?m" for j
      using p(10) [of "pos + j" k] k x(1) that False assms(3) by auto
    then have "cell c' x = cell c x" using x(2) by (intro c(3))
    moreover have "af_write data bs pos ! k = bs ! k" using False k assms(3) by (auto simp: af_write_def nth_append)
    ultimately show ?thesis using p(7) [OF k] x by (simp add: load8_loc loc_frame [OF c(2)])
  qed
  then have "file_desc i mode (af_write data bs pos) pos c'"
    using fld p(2,6) assms(3) by (intro file_descI [OF d c(2) _ _ p(4)]) (auto simp: af_write_def)
  then show ?thesis using c(1,2) by auto
qed

text \<open>The position moves by what was read, the buffer holds the bytes from the old position on, at most to the
  end of the file.\<close>

lemma read_refines:
  assumes "file_desc i mode bs pos c" "mode AND O_ACCMODE \<noteq> O_WRONLY" "pos + n < 2 ^ 32"
    and "apart i (length bs) buf n c" "out_buffer buf n c"
  shows "\<exists>c'. read devpipe i buf (of_nat n) c = Some (of_nat (length (af_read n bs pos)), c') \<and>
    file_desc i mode bs (pos + length (af_read n bs pos)) c' \<and>
    (\<forall>k<length (af_read n bs pos). load8 (buf + of_nat k) c' = Some (af_read n bs pos ! k)) \<and> frame_of c' = frame_of c \<and>
    (\<forall>x. good x \<longrightarrow> fst x \<noteq> fst (the (loc (INDEX2FD i) c)) \<longrightarrow> (\<forall>k<n. loc (buf + of_nat k) c \<noteq> Some x) \<longrightarrow> cell c' x = cell c x)"
proof -
  let ?m = "length (af_read n bs pos)" and ?fd = "INDEX2FD i"
  have i: "i < MAXFD" "length bs \<le> 0x400000" "pos < 2 ^ 32" "loc ?fd c \<noteq> None"
    using file_descE [OF assms(1)] by (metis option.distinct(1))+
  have lt: "(of_nat (length bs) :: u32) < of_nat pos \<longleftrightarrow> length bs < pos"
    "(of_nat (length bs) :: u32) < of_nat pos + of_nat n \<longleftrightarrow> length bs < pos + n"
    using i(2,3) assms(3) unfolding of_nat_add [symmetric] by (simp_all add: word_less_nat_alt unat_of_nat del: of_nat_add)
  have r: "\<exists>c'. file_read ?fd buf (of_nat n) (of_nat pos) c = Some (of_nat ?m, c') \<and> file_desc i mode bs pos c' \<and>
      frame_of c' = frame_of c \<and> (\<forall>k<?m. load8 (buf + of_nat k) c' = Some (af_read n bs pos ! k)) \<and>
      (\<forall>x. good x \<longrightarrow> (\<forall>k<n. loc (buf + of_nat k) c \<noteq> Some x) \<longrightarrow> cell c' x = cell c x)"
  proof (cases "length bs < pos")
    case True
    then show ?thesis using assms(1) desc_loads(4) [OF assms(1)] by (simp add: file_read_def lt af_read_def)
  next
    case False
    then have l: "?m = (if length bs < pos + n then length bs - pos else n)" by (auto simp: af_read_def min_def)
    have m: "(if (of_nat (length bs) :: u32) < of_nat pos + of_nat n then of_nat (length bs) - of_nat pos else of_nat n) = (of_nat ?m :: u32)"
      "pos + ?m \<le> length bs" "?m \<le> n"
      unfolding lt l using False by (auto simp: of_nat_diff)
    have nth: "bs ! (pos + k) = af_read n bs pos ! k" if "k < ?m" for k using that False by (auto simp: af_read_def)
    show ?thesis
      using copy_out [OF assms(1,4,5) m(3,2)] desc_loads(4) [OF assms(1)] False m(1) nth
      by (auto simp: file_read_def lt(1) Let_def fd2data_INDEX2FD [OF i(1)])
  qed
  then obtain c1 where c1: "file_read ?fd buf (of_nat n) (of_nat pos) c = Some (of_nat ?m, c1)" "file_desc i mode bs pos c1"
    "frame_of c1 = frame_of c" "\<And>k. k < ?m \<Longrightarrow> load8 (buf + of_nat k) c1 = Some (af_read n bs pos ! k)"
    "\<And>x. good x \<Longrightarrow> (\<forall>k<n. loc (buf + of_nat k) c \<noteq> Some x) \<Longrightarrow> cell c1 x = cell c x" by blast
  have le: "?m \<le> n" "?m \<le> 0x400000" using i(2) by (auto simp: af_read_def)
  obtain c2 where c2: "advance ?fd (of_nat ?m) c1 = Some (of_nat ?m, c2)" "file_desc i mode bs (pos + ?m) c2" "frame_of c2 = frame_of c1"
    "\<And>va. loc va c1 \<noteq> None \<Longrightarrow> fst (the (loc va c1)) \<noteq> fst (the (loc ?fd c1)) \<Longrightarrow> load8 va c2 = load8 va c1"
    "\<And>x. good x \<Longrightarrow> fst x \<noteq> fst (the (loc ?fd c1)) \<Longrightarrow> cell c2 x = cell c1 x"
    using advance_ok [OF c1(2) _ le(2)] assms(3) le(1) by auto
  have "load8 (buf + of_nat k) c2 = Some (af_read n bs pos ! k)" if "k < ?m" for k
    using c1(4) [OF that] c2(4) [of "buf + of_nat k"] assms(4) that le(1) by (auto simp: apart_def loc_frame [OF c1(3)])
  then show ?thesis
    using c1(1,3,5) c2(1-3,5) loc_frame [OF c1(3)] assms(2) desc_loads [OF assms(1)]
    by (auto simp: read_def on_dev_file [OF assms(1)] devfile_def)
qed

text \<open>A write within the file replaces the bytes from the position on and moves the position.\<close>

lemma write_refines:
  assumes "file_desc i mode bs pos c" "mode AND O_ACCMODE \<noteq> 0" "pos + length data \<le> length bs"
    and "apart i (length bs) buf (length data) c" "\<And>k. k < length data \<Longrightarrow> load8 (buf + of_nat k) c = Some (data ! k)"
  shows "\<exists>c'. write_fd devpipe i buf (of_nat (length data)) c = Some (of_nat (length data), c') \<and>
    file_desc i mode (af_write data bs pos) (pos + length data) c' \<and> frame_of c' = frame_of c"
proof -
  let ?m = "length data" and ?fd = "INDEX2FD i"
  have i: "i < MAXFD" "length bs \<le> 0x400000" using file_descE [OF assms(1)] by metis+
  have tot: "\<not> MAXFILESIZE < of_nat pos + (of_nat ?m :: u32)" "\<not> of_nat (length bs) < of_nat pos + (of_nat ?m :: u32)"
    using i(2) assms(3) unfolding of_nat_add [symmetric] by (simp_all add: word_less_nat_alt unat_of_nat del: of_nat_add)
  obtain c1 where c1: "copy_bytes (INDEX2DATA i + of_nat pos) buf (of_nat ?m) c = Some c1"
    "file_desc i mode (af_write data bs pos) pos c1" "frame_of c1 = frame_of c"
    using copy_in [OF assms(1,4,3,5)] by blast
  have w: "file_write ?fd buf (of_nat ?m) (of_nat pos) c = Some (of_nat ?m, c1)"
    using c1(1) tot desc_loads(4) [OF assms(1)] by (simp add: file_write_def Let_def fd2data_INDEX2FD [OF i(1)])
  obtain c2 where "advance ?fd (of_nat ?m) c1 = Some (of_nat ?m, c2)" "file_desc i mode (af_write data bs pos) (pos + ?m) c2" "frame_of c2 = frame_of c1"
    using advance_ok [OF c1(2), of ?m] assms(3) i(2) by auto
  then show ?thesis
    using w c1(3) assms(2) desc_loads [OF assms(1)] by (auto simp: write_fd_def on_dev_file [OF assms(1)] devfile_def)
qed

lemma apart_frame:
  assumes "frame_of c' = frame_of c"
  shows "apart i m buf n c' = apart i m buf n c" "out_buffer buf n c' = out_buffer buf n c"
  unfolding apart_def out_buffer_def loc_frame [OF assms] writable_frame [OF assms] by (rule refl)+

lemma seek_refines:
  assumes "file_desc i mode bs pos c" "pos' < 2 ^ 32"
  shows "\<exists>c'. seek i (of_nat pos') c = Some (0, c') \<and> file_desc i mode bs pos' c' \<and> frame_of c' = frame_of c"
proof -
  have "fd_lookup i c = Inr (INDEX2FD i)" using file_descE [OF assms(1)] by metis
  then show ?thesis using store_offset [OF assms] by (auto simp: seek_def on_fd_def)
qed

text \<open>C8. What is written to an open file within its size is read back after seeking to the old position, through
  any buffers that share no cell with the file; the file is then the abstract file with these bytes
  replaced.\<close>

theorem write_seek_read:
  assumes "file_desc i mode bs pos c" "mode AND O_ACCMODE = O_RDWR" "pos + length data \<le> length bs"
    and "apart i (length bs) src (length data) c" "\<And>k. k < length data \<Longrightarrow> load8 (src + of_nat k) c = Some (data ! k)"
    and "apart i (length bs) dst (length data) c" "out_buffer dst (length data) c"
  shows "\<exists>c1 c2 c3. write_fd devpipe i src (of_nat (length data)) c = Some (of_nat (length data), c1) \<and>
    seek i (of_nat pos) c1 = Some (0, c2) \<and> read devpipe i dst (of_nat (length data)) c2 = Some (of_nat (length data), c3) \<and>
    (\<forall>k<length data. load8 (dst + of_nat k) c3 = Some (data ! k)) \<and>
    file_desc i mode (af_write data bs pos) (pos + length data) c3"
proof -
  have len: "length bs \<le> 0x400000" using file_descE [OF assms(1)] by metis
  have bs: "length (af_write data bs pos) = length bs" using assms(3) by (simp add: af_write_def)
  obtain c1 where c1: "write_fd devpipe i src (of_nat (length data)) c = Some (of_nat (length data), c1)"
    "file_desc i mode (af_write data bs pos) (pos + length data) c1" "frame_of c1 = frame_of c"
    using write_refines [OF assms(1) _ assms(3,4,5)] assms(2) by auto
  obtain c2 where c2: "seek i (of_nat pos) c1 = Some (0, c2)" "file_desc i mode (af_write data bs pos) pos c2" "frame_of c2 = frame_of c1"
    using seek_refines [OF c1(2), of pos] assms(3) len by auto
  have rd: "af_read (length data) (af_write data bs pos) pos = data" using assms(3) by (simp add: af_read_def af_write_def)
  have f: "frame_of c2 = frame_of c" using c1(3) c2(3) by simp
  have "\<exists>c3. read devpipe i dst (of_nat (length data)) c2 = Some (of_nat (length data), c3) \<and>
      file_desc i mode (af_write data bs pos) (pos + length data) c3 \<and>
      (\<forall>k<length data. load8 (dst + of_nat k) c3 = Some (data ! k)) \<and> frame_of c3 = frame_of c2 \<and>
      (\<forall>x. good x \<longrightarrow> fst x \<noteq> fst (the (loc (INDEX2FD i) c2)) \<longrightarrow> (\<forall>k<length data. loc (dst + of_nat k) c2 \<noteq> Some x) \<longrightarrow> cell c3 x = cell c2 x)"
    by (rule read_refines [OF c2(2), of "length data" dst devpipe, unfolded rd bs])
      (use assms(2,3,6,7) len in \<open>simp_all add: apart_frame [OF f]\<close>)
  then show ?thesis using c1(1) c2(1) by blast
qed

text \<open>A client with a file of two bytes open as descriptor 0 and a page of buffers.\<close>

definition demo_client :: "srv \<Rightarrow> client" where
  "demo_client sv = \<lparr>server = sv, me = 0x1001,
     own = (\<lambda>_. (\<lambda>_. 0))(0 := st32 0 0x66 (st32 4 0 (st32 8 O_RDWR (st32 144 2 (\<lambda>_. 0)))), 1 := (\<lambda>_. 0)(0 := 5, 1 := 6), 2 := (\<lambda>_. 0)(0 := 7)),
     ptab = [0x5FC00 \<mapsto> (Own 0, PTE_D), 0x60000 \<mapsto> (Own 1, PTE_D), 0x500 \<mapsto> (Own 2, PTE_D)],
     nown = 3, nopage = (\<lambda>_. False), clock = 0, keys = (\<lambda>_. 0), pressed = 0, shown = []\<rparr>"

lemma demo_client_sel:
  "ptab (demo_client sv) = [0x5FC00 \<mapsto> (Own 0, PTE_D), 0x60000 \<mapsto> (Own 1, PTE_D), 0x500 \<mapsto> (Own 2, PTE_D)]"
  "own (demo_client sv) 0 = st32 0 0x66 (st32 4 0 (st32 8 O_RDWR (st32 144 2 (\<lambda>_. 0))))"
  "own (demo_client sv) 1 = (\<lambda>_. 0)(0 := 5, 1 := 6)" "own (demo_client sv) 2 = (\<lambda>_. 0)(0 := 7)"
  by (simp_all add: demo_client_def)

lemma demo_fields:
  "field (Own 0) 0 (demo_client sv) = 0x66" "field (Own 0) 4 (demo_client sv) = 0"
  "field (Own 0) 8 (demo_client sv) = O_RDWR" "field (Own 0) 144 (demo_client sv) = 2"
  by (simp_all add: field_def page_mem_def demo_client_sel ld32_st32 ld32_st32_other)

lemma demo_pages: "VPN (INDEX2FD 0) = 0x5FC00" "VPN (INDEX2DATA 0) = 0x60000" "VPN (INDEX2DATA 0 + 1) = 0x60000" "VPN 0x500000 = 0x500" "VPN 0x500010 = 0x500"
  by (simp_all add: VPN_div INDEX2FD_def INDEX2DATA_def)

lemma demo_file: "file_desc 0 O_RDWR [5, 6] 0 (demo_client sv)"
proof -
  have k: "k < length [5, 6 :: u8] \<longleftrightarrow> k = 0 \<or> k = 1" for k :: nat by auto
  have o: "unat (INDEX2DATA 0) mod 4096 = 0" "unat (INDEX2DATA 0 + 1) mod 4096 = 1" by (simp_all add: INDEX2DATA_def)
  have D: "PTE_D AND PTE_D \<noteq> 0" by (simp add: PTE_D_def)
  have w: "writable (INDEX2DATA 0) (demo_client sv)" "writable (INDEX2DATA 0 + 1) (demo_client sv)"
    "loc (INDEX2DATA 0) (demo_client sv) = Some (Own 1, 0)" "loc (INDEX2DATA 0 + 1) (demo_client sv) = Some (Own 1, 1)"
    using D o by (simp_all add: writable_def loc_def demo_pages demo_client_sel)
  have "load8 (INDEX2DATA 0) (demo_client sv) = Some 5" "load8 (INDEX2DATA 0 + 1) (demo_client sv) = Some 6"
    by (simp_all add: load8_loc w cell_def page_mem_def demo_client_sel del: One_nat_def)
  then show ?thesis
    unfolding file_desc_def k using demo_fields D w
    by (auto simp: demo_pages client_ok_def page_ok_def demo_client_sel split: if_splits)
qed

theorem write_seek_read_witness:
  "\<forall>sv. \<exists>c1 c2 c3. write_fd devcons 0 0x500000 1 (demo_client sv) = Some (1, c1) \<and> seek 0 0 c1 = Some (0, c2) \<and>
    read devcons 0 0x500010 1 c2 = Some (1, c3) \<and> load8 0x500010 c3 = Some 7"
proof
  fix sv :: srv
  have l: "loc 0x500000 (demo_client sv) = Some (Own 2, 0)" "loc 0x500010 (demo_client sv) = Some (Own 2, 16)"
    "loc (INDEX2FD 0) (demo_client sv) = Some (Own 0, 0)" "loc (INDEX2DATA 0) (demo_client sv) = Some (Own 1, 0)"
    "loc (INDEX2DATA 0 + 1) (demo_client sv) = Some (Own 1, 1)"
    by (simp_all add: loc_def VPN_div demo_client_sel INDEX2FD_def INDEX2DATA_def)
  have b: "load8 0x500000 (demo_client sv) = Some 7" by (simp add: load8_loc l cell_def page_mem_def demo_client_sel)
  have w: "writable 0x500010 (demo_client sv)" by (simp add: writable_def demo_pages demo_client_sel PTE_D_def)
  show "\<exists>c1 c2 c3. write_fd devcons 0 0x500000 1 (demo_client sv) = Some (1, c1) \<and> seek 0 0 c1 = Some (0, c2) \<and>
      read devcons 0 0x500010 1 c2 = Some (1, c3) \<and> load8 0x500010 c3 = Some 7"
    using write_seek_read [OF demo_file [of sv], where data = "[7]" and src = "0x500000" and dst = "0x500010" and devpipe = devcons] b w
    by (simp add: apart_def out_buffer_def l All_less_Suc) blast
qed

end
