(* ===== verification/MOS_Dup.thy ===== *)
theory MOS_Dup
  imports MOS_FileDesc
begin

text \<open>
  Duplicated descriptors share everything: \<^verbatim>\<open>dup\<close> of \<^verbatim>\<open>user/lib/fd.c\<close> maps the pages of the old
  descriptor at the new one, so that both are the same open file with one position.
\<close>

section \<open>Loops over pages\<close>

lemma for_pages_invariant:
  assumes "\<And>k. k \<le> N \<Longrightarrow> (of_nat (4096 * k) :: u32) < lim \<longleftrightarrow> k < N" "P m c" "m \<le> N"
    and "\<And>k c. m \<le> k \<Longrightarrow> k < N \<Longrightarrow> P k c \<Longrightarrow> \<exists>c'. f (of_nat (4096 * k)) c = Some (0, c') \<and> P (Suc k) c'"
  shows "\<exists>c'. for_pages f (of_nat (4096 * m)) lim c = Some (0, c') \<and> P N c'"
  using assms(2-4)
proof (induction "N - m" arbitrary: m c)
  case 0
  then show ?case using assms(1) [of m] by (subst for_pages.simps) simp
next
  case (Suc x)
  then obtain c' where c: "f (of_nat (4096 * m)) c = Some (0, c')" "P (Suc m) c'"
    by (metis diff_is_0_eq' le_refl nat_le_linear nat_less_le old.nat.distinct(2))
  have "m < N" using Suc.hyps(2) by simp
  then have "for_pages f (of_nat (4096 * m)) lim c = for_pages f (of_nat (4096 * Suc m)) lim c'"
    using assms(1) [of m] c(1) by (subst for_pages.simps) (simp add: add.commute)
  then show ?case using Suc.hyps(1) [of "Suc m" c'] Suc.hyps(2) Suc.prems(3) c(2) \<open>m < N\<close> by simp
qed

section \<open>The data windows\<close>

lemma unat_INDEX2DATA: "i < MAXFD \<Longrightarrow> x < 0x10000000 \<Longrightarrow> unat (INDEX2DATA i + of_nat x) = 0x60000000 + 0x400000 * unat i + x"
proof -
  assume *: "i < MAXFD" "x < 0x10000000"
  then have i: "unat i < 32" "unat (of_nat x :: u32) = x" by (simp_all add: word_less_nat_alt unat_of_nat)
  then have "unat (i * PDMAP) = unat i * 0x400000" by (subst unat_mult_lem [THEN iffD1]) simp_all
  with i have "unat (INDEX2DATA i) = 0x60000000 + 0x400000 * unat i"
    unfolding INDEX2DATA_def by (subst unat_add_lem [THEN iffD1]) simp_all
  with i * show ?thesis by (subst unat_add_lem [THEN iffD1]) simp_all
qed

definition dwin :: "u32 \<Rightarrow> nat" where
  "dwin i = 0x60000 + 1024 * unat i"

lemma VPN_data: "i < MAXFD \<Longrightarrow> x < 0x10000000 \<Longrightarrow> VPN (INDEX2DATA i + of_nat x) = dwin i + x div 4096"
proof -
  assume *: "i < MAXFD" "x < 0x10000000"
  have "0x60000000 + 0x400000 * unat i + x = x + 4096 * dwin i" by (simp add: dwin_def)
  then show ?thesis by (simp add: VPN_div unat_INDEX2DATA [OF *])
qed

lemma VPN_fd: "i < MAXFD \<Longrightarrow> VPN (INDEX2FD i) = 0x5FC00 + unat i"
proof -
  assume *: "i < MAXFD"
  have "0x5FC00000 + 4096 * unat i = 4096 * (0x5FC00 + unat i)" by simp
  then show ?thesis by (simp only: VPN_div unat_INDEX2FD [OF *] nonzero_mult_div_cancel_left)
qed

lemma va_ok_window: "i < MAXFD \<Longrightarrow> x < 0x400000 \<Longrightarrow> va_ok (INDEX2DATA i + of_nat x)"
  using unat_INDEX2DATA [of i x] by (simp add: va_ok_def word_le_nat_alt word_less_nat_alt)

lemma va_ok_fd: "i < MAXFD \<Longrightarrow> va_ok (INDEX2FD i)"
  using unat_INDEX2FD [of i] by (simp add: va_ok_def word_le_nat_alt word_less_nat_alt)

lemma data_offset: "i < MAXFD \<Longrightarrow> x < 0x10000000 \<Longrightarrow> unat (INDEX2DATA i + of_nat x) mod 4096 = x mod 4096"
proof -
  assume *: "i < MAXFD" "x < 0x10000000"
  have "0x60000000 + 0x400000 * unat i + x = x + 4096 * dwin i" by (simp add: dwin_def)
  then show ?thesis by (simp add: unat_INDEX2DATA [OF *])
qed

section \<open>Descriptors of the same file\<close>

definition same_file :: "u32 \<Rightarrow> u32 \<Rightarrow> nat \<Rightarrow> client \<Rightarrow> bool" where
  "same_file i j n c \<longleftrightarrow> i < MAXFD \<and> j < MAXFD \<and> loc (INDEX2FD i) c = loc (INDEX2FD j) c \<and>
     writable (INDEX2FD i) c \<and> writable (INDEX2FD j) c \<and>
     (\<forall>k<n. loc (INDEX2DATA i + of_nat k) c = loc (INDEX2DATA j + of_nat k) c \<and>
        writable (INDEX2DATA i + of_nat k) c \<and> writable (INDEX2DATA j + of_nat k) c)"

lemma same_file_sym: "same_file i j n c \<Longrightarrow> same_file j i n c"
  by (simp add: same_file_def)

lemma same_file_frame: "frame_of c' = frame_of c \<Longrightarrow> same_file i j n c' = same_file i j n c"
proof -
  assume f: "frame_of c' = frame_of c"
  show ?thesis unfolding same_file_def loc_frame [OF f] writable_frame [OF f] ..
qed

text \<open>An open file seen through other addresses of the same cells.\<close>

lemma file_desc_transfer:
  assumes "file_desc i mode bs pos c" "client_ok c'" "j < MAXFD" "\<And>p. page_mem p c' = page_mem p c"
    and "loc (INDEX2FD j) c' = loc (INDEX2FD i) c" "writable (INDEX2FD j) c'"
    and "\<And>k. k < length bs \<Longrightarrow> loc (INDEX2DATA j + of_nat k) c' = loc (INDEX2DATA i + of_nat k) c \<and> writable (INDEX2DATA j + of_nat k) c'"
  shows "file_desc j mode bs pos c'"
proof -
  obtain p where p: "pos < 2 ^ 32" "length bs \<le> 0x400000" "loc (INDEX2FD i) c = Some (p, 0)"
    "field p 0 c = 0x66" "field p 4 c = of_nat pos" "field p 8 c = mode" "field p 144 c = of_nat (length bs)"
    "\<And>k. k < length bs \<Longrightarrow> load8 (INDEX2DATA i + of_nat k) c = Some (bs ! k)"
    "\<And>k. k < length bs \<Longrightarrow> fst (the (loc (INDEX2DATA i + of_nat k) c)) \<noteq> p"
    "\<And>j k. j < length bs \<Longrightarrow> k < length bs \<Longrightarrow> loc (INDEX2DATA i + of_nat j) c = loc (INDEX2DATA i + of_nat k) c \<Longrightarrow> j = k"
    using file_descE [OF assms(1)] by metis
  have c: "cell c' = cell c" "field q k c' = field q k c" for q k
    by (simp_all add: fun_eq_iff cell_def field_def assms(4))
  obtain fl where "ptab c' (VPN (INDEX2FD j)) = Some (p, fl)" "fl AND PTE_D \<noteq> 0"
    using assms(5,6) p(3) by (auto simp: loc_def writable_def)
  then show ?thesis
    unfolding file_desc_def c using p assms(2,3,7) by (auto simp: load8_loc c)
qed

lemma same_file_desc: "same_file i j (length bs) c \<Longrightarrow> file_desc i mode bs pos c \<Longrightarrow> file_desc j mode bs pos c"
proof -
  assume s: "same_file i j (length bs) c" and d: "file_desc i mode bs pos c"
  have ok: "client_ok c" using d by (simp add: file_desc_def)
  show ?thesis by (rule file_desc_transfer [OF d ok]) (use s in \<open>auto simp: same_file_def\<close>)
qed

section \<open>dup\<close>

lemma clear_pte_simps [simp]:
  "own (clear_pte v c) = own c" "fs (server (clear_pte v c)) = fs (server c)" "nopage (clear_pte v c) = nopage c"
  "ptab (clear_pte v c) = (ptab c)(v := None)"
  by (auto simp: clear_pte_def upd_ref_def split: option.split page.split)

lemma set_pte_simps [simp]:
  "own (set_pte v p perm c) = own c" "fs (server (set_pte v p perm c)) = fs (server c)" "nopage (set_pte v p perm c) = nopage c"
  "ptab (set_pte v p perm c) = (ptab c)(v \<mapsto> (p, mapped_flags perm))"
  by (simp_all add: set_pte_def Let_def)

lemma upd_ref_simps [simp]:
  "own (upd_ref f p c) = own c" "fs (server (upd_ref f p c)) = fs (server c)" "nopage (upd_ref f p c) = nopage c"
  "ptab (upd_ref f p c) = ptab c"
  by (simp_all add: upd_ref_def split: page.split)

text \<open>The same memory and the same promise of free pages.\<close>

definition like :: "client \<Rightarrow> client \<Rightarrow> bool" where
  "like c d \<longleftrightarrow> own d = own c \<and> fs (server d) = fs (server c) \<and> nopage d = nopage c"

lemma c_mem_map_ok:
  assumes "like c d" "\<And>n. \<not> nopage c n" "va_ok src" "va_ok dst" "ptab d (VPN src) = Some (p, fl)"
  shows "\<exists>d'. c_mem_map src dst perm d = (0, d') \<and> like c d' \<and> ptab d' = (ptab d)(VPN dst \<mapsto> (p, mapped_flags perm))"
  using assms by (simp add: c_mem_map_def like_def)

definition dup_flags :: "u32 \<Rightarrow> u32" where
  "dup_flags fl = mapped_flags (fl AND (PTE_D OR PTE_LIBRARY))"

lemma dup_flags_D: "fl AND PTE_D \<noteq> 0 \<Longrightarrow> dup_flags fl AND PTE_D \<noteq> 0"
  by (simp add: dup_flags_def pte_bits bit_mapped_flags bit_and_iff bit_or_iff bit_D)

text \<open>The mappings after \<open>k\<close> pages of the window.\<close>

definition dup_tab :: "u32 \<Rightarrow> u32 \<Rightarrow> nat \<Rightarrow> client \<Rightarrow> nat \<Rightarrow> (page \<times> u32) option" where
  "dup_tab i j k c v =
    (if dwin j \<le> v \<and> v < dwin j + k then
       case ptab c (dwin i + (v - dwin j)) of Some (p, fl) \<Rightarrow> Some (p, dup_flags fl) | None \<Rightarrow> ptab c v
     else ptab c v)"

lemma dwin_apart: "i \<noteq> j \<Longrightarrow> dwin i + 1024 \<le> dwin j \<or> dwin j + 1024 \<le> dwin i"
proof -
  assume "i \<noteq> j"
  then have "unat i < unat j \<or> unat j < unat i" by (auto simp: word_unat_eq_iff)
  then show ?thesis by (auto simp: dwin_def)
qed

lemma dup_loop:
  assumes "i < MAXFD" "j < MAXFD" "i \<noteq> j" "\<And>n. \<not> nopage c n"
  shows "\<exists>d. for_pages (dup_page (INDEX2DATA i) (INDEX2DATA j)) 0 PDMAP c = Some (0, d) \<and> like c d \<and> ptab d = dup_tab i j 1024 c"
proof -
  have "\<exists>d. for_pages (dup_page (INDEX2DATA i) (INDEX2DATA j)) (of_nat (4096 * 0)) PDMAP c = Some (0, d) \<and>
      (like c d \<and> ptab d = dup_tab i j 1024 c)"
  proof (rule for_pages_invariant [where P = "\<lambda>k d. like c d \<and> ptab d = dup_tab i j k c"])
    show "(of_nat (4096 * k) :: u32) < PDMAP \<longleftrightarrow> k < 1024" if "k \<le> 1024" for k
      using that by (simp add: word_less_nat_alt unat_of_nat del: of_nat_mult)
    show "like c c \<and> ptab c = dup_tab i j 0 c" by (auto simp: like_def dup_tab_def intro!: ext)
  next
    fix k d assume k: "k < 1024" and d: "like c d \<and> ptab d = dup_tab i j k c"
    have v: "VPN (INDEX2DATA i + of_nat (4096 * k)) = dwin i + k" "VPN (INDEX2DATA j + of_nat (4096 * k)) = dwin j + k"
      using assms(1,2) k by (simp_all add: VPN_data del: of_nat_mult)
    have ok: "va_ok (INDEX2DATA i + of_nat (4096 * k))" "va_ok (INDEX2DATA j + of_nat (4096 * k))"
      using assms(1,2) k by (simp_all add: va_ok_window del: of_nat_mult)
    have pi: "ptab d (dwin i + k) = ptab c (dwin i + k)" using d k dwin_apart [OF assms(3)] by (auto simp: dup_tab_def)
    show "\<exists>d'. dup_page (INDEX2DATA i) (INDEX2DATA j) (of_nat (4096 * k)) d = Some (0, d') \<and> like c d' \<and> ptab d' = dup_tab i j (Suc k) c"
    proof (cases "ptab c (dwin i + k)")
      case None
      then have "dup_tab i j (Suc k) c = dup_tab i j k c" by (auto simp: dup_tab_def fun_eq_iff less_Suc_eq)
      then show ?thesis using d None pi by (simp add: dup_page_def v del: of_nat_mult)
    next
      case (Some x)
      obtain p fl where x: "x = (p, fl)" by (cases x)
      have "dup_tab i j (Suc k) c = (dup_tab i j k c)(dwin j + k \<mapsto> (p, dup_flags fl))"
        using Some x by (auto simp: dup_tab_def fun_eq_iff less_Suc_eq)
      moreover obtain d' where "c_mem_map (INDEX2DATA i + of_nat (4096 * k)) (INDEX2DATA j + of_nat (4096 * k)) (fl AND (PTE_D OR PTE_LIBRARY)) d = (0, d')"
        "like c d'" "ptab d' = (ptab d)(dwin j + k \<mapsto> (p, dup_flags fl))"
        using c_mem_map_ok [of c d, OF _ assms(4) ok] d Some x pi by (auto simp: v dup_flags_def simp del: of_nat_mult)
      ultimately show ?thesis using d Some x pi by (simp add: dup_page_def v del: of_nat_mult)
    qed
  qed simp
  then show ?thesis by simp
qed

text \<open>C14. Duplicating an open file to a free descriptor maps the same pages there, in its data window the ones of
  the old window, and changes neither memory nor any other mapping. From then on, whatever is done to memory
  (and reading, seeking and writing within the file do nothing else), each of the two is open on a
  file with some contents and position exactly when the other is: they share the contents and the position.
\<close>

theorem dup_shares:
  assumes "file_desc i mode bs pos c" "j < MAXFD" "i \<noteq> j" "ptab c (VPN (INDEX2FD j)) = None" "\<And>n. \<not> nopage c n"
  shows "\<exists>c'. dup devpipe i j c = Some (j, c') \<and> file_desc j mode bs pos c' \<and> (\<forall>p. page_mem p c' = page_mem p c) \<and>
    (\<forall>v. v \<noteq> VPN (INDEX2FD j) \<and> \<not> (dwin j \<le> v \<and> v < dwin j + 1024) \<longrightarrow> ptab c' v = ptab c v) \<and>
    (\<forall>d mode' bs' pos'. frame_of d = frame_of c' \<and> length bs' = length bs \<longrightarrow>
       file_desc i mode' bs' pos' d = file_desc j mode' bs' pos' d)"
proof -
  obtain p fl where p: "client_ok c" "i < MAXFD" "length bs \<le> 0x400000" "ptab c (VPN (INDEX2FD i)) = Some (p, fl)" "fl AND PTE_D \<noteq> 0"
    "fd_lookup i c = Inr (INDEX2FD i)" "\<And>k. k < length bs \<Longrightarrow> writable (INDEX2DATA i + of_nat k) c"
    using file_descE [OF assms(1)] by metis
  have cl: "close devpipe j c = Some (of_int (- E_INVAL), c)"
    using assms(4) by (simp add: close_def on_dev_def on_fd_def fd_lookup_def)
  obtain d where d: "for_pages (dup_page (INDEX2DATA i) (INDEX2DATA j)) 0 PDMAP c = Some (0, d)" "like c d" "ptab d = dup_tab i j 1024 c"
    using dup_loop [OF p(2) assms(2,3,5)] by blast
  have out: "dup_tab i j 1024 c (VPN (INDEX2FD l)) = ptab c (VPN (INDEX2FD l))" "\<not> dwin j \<le> VPN (INDEX2FD l)" if "l < MAXFD" for l
    using that by (simp_all add: dup_tab_def VPN_fd dwin_def word_less_nat_alt)
  obtain c' where c': "c_mem_map (INDEX2FD i) (INDEX2FD j) (fl AND (PTE_D OR PTE_LIBRARY)) d = (0, c')" "like c c'"
    "ptab c' = (dup_tab i j 1024 c)(VPN (INDEX2FD j) \<mapsto> (p, dup_flags fl))"
    using c_mem_map_ok [OF d(2) assms(5) va_ok_fd [OF p(2)] va_ok_fd [OF assms(2)]] p(4) out(1) [OF p(2)]
    by (auto simp: d(3) dup_flags_def)
  have "dup devpipe i j c = Some (j, c')"
    using d(1,3) c'(1) out(1) [OF p(2)] p(4)
    by (simp add: dup_def on_fd_def p(6) cl fd2data_INDEX2FD [OF p(2)] fd2data_INDEX2FD [OF assms(2)])
  moreover have mem: "page_mem q c' = page_mem q c" for q
    using c'(2) by (simp add: page_mem_def like_def split: page.split)
  moreover have ok: "client_ok c'"
    using p(1,4) unfolding client_ok_def c'(3) dup_tab_def by (auto split: if_splits option.splits)
  moreover have ij: "VPN (INDEX2FD i) \<noteq> VPN (INDEX2FD j)"
    using assms(3) by (simp add: VPN_fd p(2) assms(2) word_unat_eq_iff)
  have win: "\<exists>q fl. ptab c (dwin i + m) = Some (q, fl) \<and> fl AND PTE_D \<noteq> 0 \<and> ptab c' (dwin i + m) = Some (q, fl) \<and>
      ptab c' (dwin j + m) = Some (q, dup_flags fl)" if "m < 1024" "ptab c (dwin i + m) = Some x" "snd x AND PTE_D \<noteq> 0" for m x
    using that dwin_apart [OF assms(3)] VPN_fd [OF assms(2)] assms(2)
    by (cases x) (auto simp: c'(3) dup_tab_def dwin_def word_less_nat_alt)
  have "loc (INDEX2DATA i + of_nat k) c' = loc (INDEX2DATA j + of_nat k) c' \<and> loc (INDEX2DATA j + of_nat k) c' = loc (INDEX2DATA i + of_nat k) c \<and>
      writable (INDEX2DATA i + of_nat k) c' \<and> writable (INDEX2DATA j + of_nat k) c'" if k: "k < length bs" for k
  proof -
    have k4: "k div 4096 < 1024" "k < 0x10000000" using k p(3) by auto
    note V = VPN_data [OF p(2) k4(2)] VPN_data [OF assms(2) k4(2)]
    obtain q f where "ptab c (dwin i + k div 4096) = Some (q, f)" "f AND PTE_D \<noteq> 0"
      "ptab c' (dwin i + k div 4096) = Some (q, f)" "ptab c' (dwin j + k div 4096) = Some (q, dup_flags f)"
      using p(7) [OF k] win [OF k4(1)] by (auto simp: writable_def V)
    then show ?thesis
      using dup_flags_D by (simp add: loc_def writable_def V data_offset [OF p(2) k4(2)] data_offset [OF assms(2) k4(2)])
  qed
  note w = this
  have fd: "loc (INDEX2FD i) c' = loc (INDEX2FD j) c'" "loc (INDEX2FD j) c' = loc (INDEX2FD i) c" "writable (INDEX2FD i) c'" "writable (INDEX2FD j) c'"
    using p(4,5) dup_flags_D [OF p(5)] ij out(1) [OF p(2)] INDEX2FD_aligned [OF p(2)] INDEX2FD_aligned [OF assms(2)]
    by (auto simp: loc_def writable_def c'(3))
  have same: "same_file i j (length bs) c'" using w fd p(2) assms(2) by (simp add: same_file_def)
  moreover have "file_desc j mode bs pos c'"
    by (rule file_desc_transfer [OF assms(1) ok assms(2) mem]) (use fd w in auto)
  moreover have "ptab c' v = ptab c v" if "v \<noteq> VPN (INDEX2FD j)" "\<not> (dwin j \<le> v \<and> v < dwin j + 1024)" for v
    using that by (auto simp: c'(3) dup_tab_def)
  moreover have "file_desc i mode' bs' pos' d = file_desc j mode' bs' pos' d" if "frame_of d = frame_of c'" "length bs' = length bs" for d mode' bs' pos'
    using same that same_file_frame [OF that(1)] same_file_desc same_file_sym by metis
  ultimately show ?thesis by blast
qed

text \<open>Descriptor 0 of the client with a small file, duplicated to 1.\<close>

theorem dup_shares_witness:
  "\<forall>sv. \<exists>c'. dup devcons 0 1 (demo_client sv) = Some (1, c') \<and> file_desc 1 O_RDWR [5, 6] 0 c'"
proof
  fix sv :: srv
  have "ptab (demo_client sv) (VPN (INDEX2FD 1)) = None" "\<And>n. \<not> nopage (demo_client sv) n"
    by (simp_all add: demo_client_def VPN_fd)
  from dup_shares [OF demo_file _ _ this] show "\<exists>c'. dup devcons 0 1 (demo_client sv) = Some (1, c') \<and> file_desc 1 O_RDWR [5, 6] 0 c'"
    by fastforce
qed

end
