(* ===== verification/MOS_Spawn.thy ===== *)
theory MOS_Spawn
  imports MOS_Dup MOS_Elf
begin

text \<open>
  Creating a process from a file: \<^verbatim>\<open>user/lib/spawn.c\<close>.

  The state is the client process of \<open>MOS_Fd\<close> with the child it is creating: the child's mappings,
  whether it exists and is runnable, and the two registers that are set. The result of
  \<^verbatim>\<open>sys_exofork\<close> is \<open>exo\<close>; when it is an error code there is no child. The arguments are a list of strings, \<open>elfbuf\<close> is the address of the
  local array the headers are read into.
\<close>

section \<open>State and system calls\<close>

record spawner =
  cl :: client
  kid :: "nat \<Rightarrow> (page \<times> u32) option"
  kid_alive :: bool
  kid_runnable :: bool
  kid_pc :: u32
  kid_sp :: u32
  exo :: u32

definition on_cl :: "(client \<Rightarrow> (u32 \<times> client) option) \<Rightarrow> spawner \<Rightarrow> (u32 \<times> spawner) option" where
  "on_cl f s = do { (r, c) \<leftarrow> f (cl s); Some (r, s\<lparr>cl := c\<rparr>) }"

text \<open>Mapping a page into the child, giving back the reference of one that was there.\<close>

definition set_kid :: "nat \<Rightarrow> page \<Rightarrow> u32 \<Rightarrow> spawner \<Rightarrow> spawner" where
  "set_kid v p perm s = s\<lparr>kid := (kid s)(v \<mapsto> (p, mapped_flags perm)),
     cl := (case kid s v of Some (q, _) \<Rightarrow> upd_ref (\<lambda>n. n - 1) q (cl s) | None \<Rightarrow> cl s)\<rparr>"

definition s_exofork :: "spawner \<Rightarrow> u32 \<times> spawner" where
  "s_exofork s = (exo s, if exo s <s 0 then s else s\<lparr>kid := (\<lambda>_. None), kid_alive := True, kid_runnable := False\<rparr>)"

definition s_alloc_kid :: "u32 \<Rightarrow> u32 \<Rightarrow> spawner \<Rightarrow> u32 \<times> spawner" where
  "s_alloc_kid va perm s =
    (let c = cl s in
     if \<not> va_ok va then (ecode E_INVAL, s)
     else if \<not> kid_alive s then (ecode E_BAD_ENV, s)
     else if nopage c (clock c) then (ecode E_NO_MEM, s\<lparr>cl := c\<lparr>clock := clock c + 1\<rparr>\<rparr>)
     else (0, set_kid (VPN va) (Own (nown c)) perm
       (s\<lparr>cl := c\<lparr>clock := clock c + 1, nown := nown c + 1, own := (own c)(nown c := (\<lambda>_. 0))\<rparr>\<rparr>)))"

text \<open>From the parent to the child.\<close>

definition s_map_kid :: "u32 \<Rightarrow> u32 \<Rightarrow> u32 \<Rightarrow> spawner \<Rightarrow> u32 \<times> spawner" where
  "s_map_kid srcva dstva perm s =
    (let c = cl s in
     if \<not> va_ok srcva \<or> \<not> va_ok dstva then (ecode E_INVAL, s)
     else if \<not> kid_alive s then (ecode E_BAD_ENV, s)
     else case ptab c (VPN srcva) of
       None \<Rightarrow> (ecode E_INVAL, s)
     | Some (p, _) \<Rightarrow>
         if kid s (VPN dstva) = None \<and> nopage c (clock c) then (ecode E_NO_MEM, s\<lparr>cl := c\<lparr>clock := clock c + 1\<rparr>\<rparr>)
         else (0, set_kid (VPN dstva) p perm (s\<lparr>cl := upd_ref Suc p (c\<lparr>clock := clock c + 1\<rparr>)\<rparr>)))"

text \<open>From the child to the parent.\<close>

definition s_map_own :: "u32 \<Rightarrow> u32 \<Rightarrow> u32 \<Rightarrow> spawner \<Rightarrow> u32 \<times> spawner" where
  "s_map_own srcva dstva perm s =
    (let c = cl s in
     if \<not> va_ok srcva \<or> \<not> va_ok dstva then (ecode E_INVAL, s)
     else if \<not> kid_alive s then (ecode E_BAD_ENV, s)
     else case kid s (VPN srcva) of
       None \<Rightarrow> (ecode E_INVAL, s)
     | Some (p, _) \<Rightarrow>
         if ptab c (VPN dstva) = None \<and> nopage c (clock c) then (ecode E_NO_MEM, s\<lparr>cl := c\<lparr>clock := clock c + 1\<rparr>\<rparr>)
         else (0, s\<lparr>cl := set_pte (VPN dstva) p perm (upd_ref Suc p (c\<lparr>clock := clock c + 1\<rparr>))\<rparr>))"

definition s_unmap_kid :: "u32 \<Rightarrow> spawner \<Rightarrow> u32 \<times> spawner" where
  "s_unmap_kid va s =
    (if \<not> va_ok va then (ecode E_INVAL, s)
     else if \<not> kid_alive s then (ecode E_BAD_ENV, s)
     else (0, case kid s (VPN va) of
       None \<Rightarrow> s
     | Some (p, _) \<Rightarrow> s\<lparr>kid := (kid s)(VPN va := None), cl := upd_ref (\<lambda>n. n - 1) p (cl s)\<rparr>))"

definition s_unmap_own :: "u32 \<Rightarrow> spawner \<Rightarrow> u32 \<times> spawner" where
  "s_unmap_own va s = (let (r, c) = c_mem_unmap va (cl s) in (r, s\<lparr>cl := c\<rparr>))"

text \<open>The references of the child's pages are given back.\<close>

definition s_env_destroy :: "spawner \<Rightarrow> spawner" where
  "s_env_destroy s =
    (if kid_alive s then s\<lparr>kid_alive := False, kid_runnable := False, kid := (\<lambda>_. None),
       cl := fold (\<lambda>v c. case kid s v of Some (p, _) \<Rightarrow> upd_ref (\<lambda>n. n - 1) p c | None \<Rightarrow> c) [0..<VPN UTOP] (cl s)\<rparr>
     else s)"

section \<open>init_stack\<close>

text \<open>Copying one string with its terminator, and all of them.\<close>

definition put_string :: "u8 list \<Rightarrow> u32 \<times> client \<Rightarrow> (u32 \<times> client) option" where
  "put_string a = foldM (\<lambda>b (p, c). do { c \<leftarrow> store8 p b c; Some (p + 1, c) }) (a @ [0])"

definition put_strings :: "u8 list list \<Rightarrow> u32 \<Rightarrow> client \<Rightarrow> (u32 \<times> client) option" where
  "put_strings argv ctemp c = foldM put_string argv (ctemp, c)"

text \<open>The pointers to the strings, from \<^verbatim>\<open>args\<close> on; the result is \<^verbatim>\<open>ctemp\<close> after the last string.\<close>

fun put_args :: "u8 list list \<Rightarrow> u32 \<Rightarrow> u32 \<Rightarrow> client \<Rightarrow> (u32 \<times> client) option" where
  "put_args [] p ctemp c = Some (ctemp, c)"
| "put_args (a # as) p ctemp c = do {
     c \<leftarrow> store32 p ctemp c;
     put_args as (p + 4) (ctemp + of_nat (length a) + 1) c
   }"

definition args_size :: "u8 list list \<Rightarrow> nat" where
  "args_size argv = sum_list (map (\<lambda>a. length a + 1) argv)"

definition fill_stack :: "u8 list list \<Rightarrow> u32 \<Rightarrow> client \<Rightarrow> (u32 \<times> client) option" where
  "fill_stack argv strings c = do {
     let tot = (of_nat (args_size argv) :: u32);
     let argc = (of_nat (length argv) :: u32);
     let args = UTEMP + PAGE_SIZE - ROUND tot 4 - 4 * (argc + 1);
     (_, c) \<leftarrow> put_strings argv strings c;
     (ctemp, c) \<leftarrow> put_args argv args (USTACKTOP - UTEMP - PAGE_SIZE + strings) c;
     c \<leftarrow> store32 (args + 4 * argc) (ctemp - 1) c;
     c \<leftarrow> store32 (args - 4) (USTACKTOP - UTEMP - PAGE_SIZE + args) c;
     c \<leftarrow> store32 (args - 8) argc c;
     Some (USTACKTOP - UTEMP - PAGE_SIZE + (args - 8), c)
   }"

text \<open>The result is the error code, \<^verbatim>\<open>*init_sp\<close> and the state.\<close>

definition init_stack :: "u8 list list \<Rightarrow> spawner \<Rightarrow> (u32 \<times> u32 \<times> spawner) option" where
  "init_stack argv s =
    (let tot = (of_nat (args_size argv) :: u32); argc = (of_nat (length argv) :: u32) in
     if PAGE_SIZE < ROUND tot 4 + 4 * (argc + 3) then Some (ecode E_NO_MEM, 0, s)
     else let (r, c) = c_mem_alloc UTEMP PTE_D (cl s); s = s\<lparr>cl := c\<rparr> in
       if r <s 0 then Some (r, 0, s)
       else do {
         (sp, c) \<leftarrow> fill_stack argv (UTEMP + PAGE_SIZE - tot) (cl s);
         let s = s\<lparr>cl := c\<rparr>;
         let (r, s) = s_map_kid UTEMP (USTACKTOP - PAGE_SIZE) PTE_D s;
         if r <s 0 then Some (r, sp, snd (s_unmap_own UTEMP s))
         else let (r, s) = s_unmap_own UTEMP s in
           if r <s 0 then Some (r, sp, snd (s_unmap_own UTEMP s)) else Some (0, sp, s)
       })"

section \<open>Loading the program\<close>

definition spawn_mapper :: "spawner mapper" where
  "spawn_mapper va offset perm src len s =
    (let (r, s) = s_alloc_kid va perm s in
     if r \<noteq> 0 then Some (sint r, s)
     else case src of
       None \<Rightarrow> Some (0, s)
     | Some src \<Rightarrow>
         let (r, s) = s_map_own va UTEMP (perm OR PTE_D) s in
         if r \<noteq> 0 then Some (sint r, snd (s_unmap_kid va s))
         else do {
           c \<leftarrow> copy_bytes (UTEMP + offset) src len (cl s);
           let (r, s) = s_unmap_own UTEMP (s\<lparr>cl := c\<rparr>);
           Some (sint r, s)
         })"

text \<open>The name with \<^verbatim>\<open>.b\<close> is built in an array of 256 bytes without a check.\<close>

definition open_again_with_b :: "u8 list \<Rightarrow> client \<Rightarrow> (u32 \<times> client) option" where
  "open_again_with_b prog c = (if 256 < length prog + 3 then None else open_file_desc (prog @ [0x2E, 0x62]) 0 c)"

definition load_bytes :: "u32 \<Rightarrow> nat \<Rightarrow> client \<Rightarrow> u8 list option" where
  "load_bytes va n c = foldM (\<lambda>i bs. do { b \<leftarrow> load8 (va + of_nat i) c; Some (bs @ [b]) }) [0..<n] []"

text \<open>The loop over the program headers. The header \<^verbatim>\<open>ehdr\<close> lies in \<^verbatim>\<open>elfbuf\<close>, into which each program
  header is read, so its fields are read again in each round.\<close>

partial_function (option) load_phdrs ::
  "dev \<Rightarrow> u32 \<Rightarrow> u32 \<Rightarrow> nat \<Rightarrow> u32 \<Rightarrow> spawner \<Rightarrow> (u32 \<times> spawner) option" where
  "load_phdrs devpipe fd elfbuf idx ph_off s = do {
     b \<leftarrow> load_bytes elfbuf sizeof_Elf32_Ehdr (cl s);
     ehdr \<leftarrow> elf_ehdr b;
     if unat (e_phnum ehdr) \<le> idx then Some (0, s)
     else do {
       (r, s) \<leftarrow> on_cl (seek fd ph_off) s;
       if r <s 0 then Some (r, s)
       else do {
         (r, s) \<leftarrow> on_cl (readn devpipe fd elfbuf (ucast (e_phentsize ehdr))) s;
         if r <s 0 then Some (r, s)
         else do {
           b \<leftarrow> load_bytes elfbuf sizeof_Elf32_Ehdr (cl s);
           ph \<leftarrow> elf_phdr b 0;
           (r, s) \<leftarrow> (if p_type ph = PT_LOAD then do {
               m \<leftarrow> read_map fd (p_offset ph) (cl s);
               case m of
                 Inl e \<Rightarrow> Some (of_int e, s)
               | Inr bin \<Rightarrow> do { (r, s) \<leftarrow> elf_load_seg ph bin spawn_mapper s; Some (of_int r, s) }
             } else Some (0, s));
           if r <s 0 then Some (r, s)
           else do {
             ehdr \<leftarrow> elf_ehdr b;
             load_phdrs devpipe fd elfbuf (idx + 1) (ph_off + ucast (e_phentsize ehdr)) s
           }
         }
       }
     }
   }"

text \<open>Sharing the library pages, page by page; \<open>Some r\<close> is an error.\<close>

definition share_page :: "nat \<Rightarrow> u32 option \<times> spawner \<Rightarrow> u32 option \<times> spawner" where
  "share_page pn rs =
    (case rs of
       (Some r, s) \<Rightarrow> (Some r, s)
     | (None, s) \<Rightarrow>
         case ptab (cl s) pn of
           None \<Rightarrow> (None, s)
         | Some (_, fl) \<Rightarrow>
             let perm = fl AND 0xFFF in
             if perm AND PTE_V \<noteq> 0 \<and> perm AND PTE_LIBRARY \<noteq> 0 then
               let va = push_bit 12 (of_nat pn); (r, s) = s_map_kid va va perm s in
               (if r <s 0 then Some r else None, s)
             else (None, s))"

definition share_library :: "spawner \<Rightarrow> u32 option \<times> spawner" where
  "share_library s = fold share_page [0..<(PDX USTACKTOP + 1) * 1024] (None, s)"

section \<open>spawn\<close>

text \<open>The ends \<^verbatim>\<open>err\<close>, \<^verbatim>\<open>err1\<close> and \<^verbatim>\<open>err2\<close>.\<close>

definition spawn_err :: "dev \<Rightarrow> u32 \<Rightarrow> u32 \<Rightarrow> spawner \<Rightarrow> (u32 \<times> spawner) option" where
  "spawn_err devpipe fd r s = do { (_, s) \<leftarrow> on_cl (close devpipe fd) s; Some (r, s) }"

definition spawn_err1 :: "dev \<Rightarrow> u32 \<Rightarrow> u32 \<Rightarrow> spawner \<Rightarrow> (u32 \<times> spawner) option" where
  "spawn_err1 devpipe fd r s = spawn_err devpipe fd r (s_env_destroy s)"

definition spawn_err2 :: "u32 \<Rightarrow> spawner \<Rightarrow> (u32 \<times> spawner) option" where
  "spawn_err2 r s = Some (r, s_env_destroy s)"

text \<open>The rest of \<^verbatim>\<open>spawn\<close> once the program is loaded.\<close>

definition spawn_start :: "u32 \<Rightarrow> u32 \<Rightarrow> u32 \<Rightarrow> spawner \<Rightarrow> (u32 \<times> spawner) option" where
  "spawn_start child entrypoint sp s =
    (if \<not> kid_alive s then spawn_err2 (ecode E_BAD_ENV) s
     else
       let s = s\<lparr>kid_pc := entrypoint, kid_sp := sp\<rparr>;
           (e, s) = share_library s
       in case e of
            Some r \<Rightarrow> spawn_err2 r s
          | None \<Rightarrow> Some (child, s\<lparr>kid_runnable := True\<rparr>))"

text \<open>The test of the result of \<^verbatim>\<open>syscall_exofork\<close> compares an unsigned number with 0 and never fails.\<close>

definition spawn :: "dev \<Rightarrow> u32 \<Rightarrow> u8 list \<Rightarrow> u8 list list \<Rightarrow> spawner \<Rightarrow> (u32 \<times> spawner) option" where
  "spawn devpipe elfbuf prog argv s = do {
     (fd, s) \<leftarrow> on_cl (open_file_desc prog 0) s;
     (fd, s) \<leftarrow> (if fd <s 0 then on_cl (open_again_with_b prog) s else Some (fd, s));
     if fd <s 0 then Some (fd, s)
     else do {
       (r, s) \<leftarrow> on_cl (readn devpipe fd elfbuf (of_nat sizeof_Elf32_Ehdr)) s;
       if r \<noteq> of_nat sizeof_Elf32_Ehdr then spawn_err devpipe fd r s
       else do {
         b \<leftarrow> load_bytes elfbuf sizeof_Elf32_Ehdr (cl s);
         h \<leftarrow> elf_from b sizeof_Elf32_Ehdr;
         case h of
           None \<Rightarrow> spawn_err devpipe fd (ecode E_NOT_EXEC) s
         | Some ehdr \<Rightarrow>
             let (child, s) = s_exofork s in
             do {
               (r, sp, s) \<leftarrow> init_stack argv s;
               if r <s 0 then spawn_err1 devpipe fd r s
               else do {
                 (r, s) \<leftarrow> load_phdrs devpipe fd elfbuf 0 (e_phoff ehdr) s;
                 if r <s 0 then spawn_err1 devpipe fd r s
                 else do {
                   (_, s) \<leftarrow> on_cl (close devpipe fd) s;
                   spawn_start child (e_entry ehdr) sp s
                 }
               }
             }
       }
     }
   }"

definition spawnl :: "dev \<Rightarrow> u32 \<Rightarrow> u8 list \<Rightarrow> u8 list list \<Rightarrow> spawner \<Rightarrow> (u32 \<times> spawner) option" where
  "spawnl = spawn"

section \<open>Waiting for other processes\<close>

text \<open>\<^verbatim>\<open>wait\<close> reads the shared \<^verbatim>\<open>envs\<close> array between yields: \<open>obs t\<close> is what the entry of the process holds
  the \<open>t\<close>-th time, its id and status. \<^verbatim>\<open>ipc_send\<close> repeats the system call, whose \<open>t\<close>-th result is \<open>res t\<close>, until the
  receiver is ready; any other error is a panic. The results are the numbers of rounds.\<close>

partial_function (option) wait_env :: "(nat \<Rightarrow> u32 \<times> u32) \<Rightarrow> u32 \<Rightarrow> nat \<Rightarrow> nat option" where
  "wait_env obs envid t = (let (i, status) = obs t in if i = envid \<and> status \<noteq> 0 then wait_env obs envid (t + 1) else Some t)"

partial_function (option) ipc_send_loop :: "(nat \<Rightarrow> int) \<Rightarrow> nat \<Rightarrow> nat option" where
  "ipc_send_loop res t = (if res t = - E_IPC_NOT_RECV then ipc_send_loop res (t + 1) else if res t = 0 then Some t else None)"

text \<open>Both return at the first round that lets them go.\<close>

lemma wait_env_returns:
  assumes "t \<le> n" "fst (obs n) \<noteq> envid \<or> snd (obs n) = 0" "\<And>k. t \<le> k \<Longrightarrow> k < n \<Longrightarrow> fst (obs k) = envid \<and> snd (obs k) \<noteq> 0"
  shows "wait_env obs envid t = Some n"
  using assms
proof (induction "n - t" arbitrary: t)
  case 0
  then show ?case by (subst wait_env.simps) (auto simp: split_beta)
next
  case (Suc d)
  then have "t < n" by simp
  then have "wait_env obs envid t = wait_env obs envid (t + 1)"
    using Suc.prems(3) [of t] by (subst wait_env.simps) (auto simp: split_beta)
  then show ?case using Suc.hyps(1) [of "t + 1"] Suc.hyps(2) Suc.prems \<open>t < n\<close> by auto
qed

lemma ipc_send_returns:
  assumes "t \<le> n" "res n = 0" "\<And>k. t \<le> k \<Longrightarrow> k < n \<Longrightarrow> res k = - E_IPC_NOT_RECV"
  shows "ipc_send_loop res t = Some n"
  using assms
proof (induction "n - t" arbitrary: t)
  case 0
  then show ?case by (subst ipc_send_loop.simps) auto
next
  case (Suc d)
  then have "t < n" by simp
  then have "ipc_send_loop res t = ipc_send_loop res (t + 1)"
    using Suc.prems(3) [of t] by (subst ipc_send_loop.simps) auto
  then show ?case using Suc.hyps(1) [of "t + 1"] Suc.hyps(2) Suc.prems \<open>t < n\<close> by auto
qed

end
