(* ===== verification/MOS_SpawnStack.thy ===== *)
theory MOS_SpawnStack
  imports MOS_Spawn
begin

text \<open>
  The stack \<^verbatim>\<open>init_stack\<close> of \<^verbatim>\<open>user/lib/spawn.c\<close> builds for the child: the count of arguments, the
  array of pointers and the strings, at addresses that are valid in the child.
\<close>

section \<open>Writing bytes and words into a page\<close>

definition put_bytes :: "nat \<Rightarrow> u8 list \<Rightarrow> bytemem \<Rightarrow> bytemem" where
  "put_bytes k L g = (\<lambda>d. if k \<le> unat d \<and> unat d < k + length L then L ! (unat d - k) else g d)"

primrec put_words :: "nat \<Rightarrow> u32 list \<Rightarrow> bytemem \<Rightarrow> bytemem" where
  "put_words k [] g = g"
| "put_words k (w # ws) g = put_words (k + 4) ws (st32 (of_nat k) w g)"

lemma put_bytes_Nil [simp]: "put_bytes k [] g = g"
  by (rule ext) (auto simp: put_bytes_def)

lemma put_bytes_Cons: "k < 2 ^ 32 \<Longrightarrow> put_bytes k (b # L) g = put_bytes (k + 1) L (g(of_nat k := b))"
proof
  fix d :: u32
  assume k: "k < 2 ^ 32"
  have e: "d = of_nat k \<longleftrightarrow> unat d = k" using k by (auto simp: word_unat_eq_iff unat_of_nat)
  show "put_bytes k (b # L) g d = put_bytes (k + 1) L (g(of_nat k := b)) d"
    by (auto simp: put_bytes_def e nth_Cons')
qed

lemma put_bytes_append: "put_bytes (k + length X) Y (put_bytes k X g) = put_bytes k (X @ Y) g"
  by (auto simp: put_bytes_def nth_append fun_eq_iff)

lemma st32_outside: "k + 4 \<le> 4096 \<Longrightarrow> unat d < k \<or> k + 4 \<le> unat d \<Longrightarrow> st32 (of_nat k) w g d = g d"
proof -
  assume *: "k + 4 \<le> 4096" "unat d < k \<or> k + 4 \<le> unat d"
  have "4 \<le> unat (d - of_nat k)" using * by (auto simp: unat_sub_if' unat_of_nat)
  then show ?thesis by (simp add: st32_at)
qed

lemma put_words_outside: "k + 4 * length ws \<le> 4096 \<Longrightarrow> unat d < k \<or> k + 4 * length ws \<le> unat d \<Longrightarrow> put_words k ws g d = g d"
proof (induction ws arbitrary: k g)
  case (Cons w ws)
  then have "put_words (k + 4) ws (st32 (of_nat k) w g) d = st32 (of_nat k) w g d" by (intro Cons.IH) auto
  then show ?case using Cons.prems st32_outside [of k d w g] by auto
qed simp

lemma ld32_outside:
  assumes "j + 4 \<le> 4096" "\<And>d. j \<le> unat d \<Longrightarrow> unat d < j + 4 \<Longrightarrow> g d = h d"
  shows "ld32 g (of_nat j) = ld32 h (of_nat j)"
proof (rule ld32_cong)
  fix i :: nat assume "i < 4"
  then have "unat (of_nat j + of_nat i :: u32) = j + i" using assms(1) unfolding of_nat_add [symmetric] by (simp add: unat_of_nat del: of_nat_add)
  with \<open>i < 4\<close> show "g (of_nat j + of_nat i) = h (of_nat j + of_nat i)" by (intro assms(2)) auto
qed

lemma put_words_nth: "k + 4 * length ws \<le> 4096 \<Longrightarrow> i < length ws \<Longrightarrow> ld32 (put_words k ws g) (of_nat (k + 4 * i)) = ws ! i"
proof (induction ws arbitrary: k g i)
  case (Cons w ws)
  show ?case
  proof (cases i)
    case 0
    have "ld32 (put_words (k + 4) ws (st32 (of_nat k) w g)) (of_nat k) = ld32 (st32 (of_nat k) w g) (of_nat k)"
      using Cons.prems by (intro ld32_outside put_words_outside) auto
    then show ?thesis by (simp add: 0 ld32_st32)
  next
    case (Suc j)
    then show ?thesis using Cons.IH [of "k + 4" j] Cons.prems by (simp add: add.assoc)
  qed
qed simp

section \<open>The page under construction\<close>

definition set_own :: "nat \<Rightarrow> bytemem \<Rightarrow> client \<Rightarrow> client" where
  "set_own f g c = c\<lparr>own := (own c)(f := g)\<rparr>"

definition building :: "nat \<Rightarrow> client \<Rightarrow> bool" where
  "building f c \<longleftrightarrow> (\<exists>fl. ptab c (VPN UTEMP) = Some (Own f, fl) \<and> fl AND PTE_D \<noteq> 0)"

lemma set_own_simps [simp]:
  "own (set_own f g c) f = g" "building f (set_own f g c) = building f c" "set_own f h (set_own f g c) = set_own f h c"
  "set_own f (own c f) c = c"
  by (simp_all add: set_own_def building_def)

lemma store_building:
  assumes "building f c" "k < 4096"
  shows "store8 (UTEMP + of_nat k) b c = Some (set_own f ((own c f)(of_nat k := b)) c)"
    "store32 (UTEMP + of_nat k) w c = Some (set_own f (st32 (of_nat k) w (own c f)) c)"
proof -
  have "unat UTEMP mod 4096 = 0" by simp
  note a = aligned_add(1,2) [OF this assms(2)]
  show "store8 (UTEMP + of_nat k) b c = Some (set_own f ((own c f)(of_nat k := b)) c)"
    "store32 (UTEMP + of_nat k) w c = Some (set_own f (st32 (of_nat k) w (own c f)) c)"
    using assms(1) unfolding building_def store8_def store32_def a set_own_def by (auto simp: page_mem_def put_page_def)
qed

lemma put_bytes_loop:
  "building f c \<Longrightarrow> k + length L \<le> 4096 \<Longrightarrow>
    foldM (\<lambda>b (p, c). do { c \<leftarrow> store8 p b c; Some (p + 1, c) }) L (UTEMP + of_nat k, c) =
      Some (UTEMP + of_nat (k + length L), set_own f (put_bytes k L (own c f)) c)"
proof (induction L arbitrary: k c)
  case (Cons b L)
  have k: "UTEMP + of_nat k + 1 = UTEMP + of_nat (k + 1)" by simp
  show ?case
    using Cons.IH [of "set_own f ((own c f)(of_nat k := b)) c" "k + 1"] Cons.prems
    by (simp add: store_building(1) k put_bytes_Cons fun_upd_def del: of_nat_add of_nat_Suc)
qed simp

abbreviation str_bytes :: "u8 list list \<Rightarrow> u8 list" where
  "str_bytes argv \<equiv> concat (map (\<lambda>a. a @ [0]) argv)"

lemma length_str_bytes: "length (str_bytes argv) = args_size argv"
  by (induction argv) (simp_all add: args_size_def)

lemma put_strings_ok:
  "building f c \<Longrightarrow> k + args_size argv \<le> 4096 \<Longrightarrow>
    put_strings argv (UTEMP + of_nat k) c = Some (UTEMP + of_nat (k + args_size argv), set_own f (put_bytes k (str_bytes argv) (own c f)) c)"
proof (induction argv arbitrary: k c)
  case Nil
  then show ?case by (simp add: put_strings_def args_size_def)
next
  case (Cons a argv)
  have z: "args_size (a # argv) = length (a @ [0]) + args_size argv" by (simp add: args_size_def)
  have "put_string a (UTEMP + of_nat k, c) = Some (UTEMP + of_nat (k + length (a @ [0])), set_own f (put_bytes k (a @ [0]) (own c f)) c)"
    unfolding put_string_def using Cons.prems z by (intro put_bytes_loop) auto
  then show ?case
    using Cons.IH [of "set_own f (put_bytes k (a @ [0]) (own c f)) c" "k + length (a @ [0])"] Cons.prems z
    by (simp add: put_strings_def put_bytes_append add.assoc del: of_nat_add of_nat_Suc length_append)
qed

fun ptrs :: "u8 list list \<Rightarrow> u32 \<Rightarrow> u32 list" where
  "ptrs [] ct = []"
| "ptrs (a # as) ct = ct # ptrs as (ct + of_nat (length a) + 1)"

lemma length_ptrs [simp]: "length (ptrs argv ct) = length argv"
  by (induction argv arbitrary: ct) simp_all

lemma ptrs_nth: "i < length argv \<Longrightarrow> ptrs argv ct ! i = ct + of_nat (args_size (take i argv))"
  by (induction argv arbitrary: ct i) (auto simp: nth_Cons args_size_def add.assoc split: nat.split)

lemma put_args_ok:
  "building f c \<Longrightarrow> k + 4 * length argv \<le> 4096 \<Longrightarrow>
    put_args argv (UTEMP + of_nat k) ct c = Some (ct + of_nat (args_size argv), set_own f (put_words k (ptrs argv ct) (own c f)) c)"
proof (induction argv arbitrary: k c ct)
  case Nil
  then show ?case by (simp add: args_size_def)
next
  case (Cons a argv)
  have k: "UTEMP + of_nat k + 4 = UTEMP + of_nat (k + 4)" by simp
  show ?case
    using Cons.IH [of "set_own f (st32 (of_nat k) ct (own c f)) c" "k + 4" "ct + of_nat (length a) + 1"] Cons.prems
    by (simp add: store_building(2) k args_size_def add.assoc del: of_nat_add) (simp add: add.assoc)
qed

section \<open>The layout\<close>

definition kid_load8 :: "u32 \<Rightarrow> spawner \<Rightarrow> u8 option" where
  "kid_load8 va s = (case kid s (VPN va) of None \<Rightarrow> None | Some (p, _) \<Rightarrow> Some (page_mem p (cl s) (va AND 0xFFF)))"

definition kid_load32 :: "u32 \<Rightarrow> spawner \<Rightarrow> u32 option" where
  "kid_load32 va s = (case kid s (VPN va) of None \<Rightarrow> None | Some (p, _) \<Rightarrow> Some (ld32 (page_mem p (cl s)) (va AND 0xFFF)))"

definition kid_string :: "u32 \<Rightarrow> u8 list \<Rightarrow> spawner \<Rightarrow> bool" where
  "kid_string p a s \<longleftrightarrow> (\<forall>k<length a. kid_load8 (p + of_nat k) s = Some (a ! k)) \<and> kid_load8 (p + of_nat (length a)) s = Some 0"

text \<open>The page of the child, by offsets.\<close>

definition st_off :: "u8 list list \<Rightarrow> nat" where
  "st_off argv = 4096 - args_size argv"

definition ar_off :: "u8 list list \<Rightarrow> nat" where
  "ar_off argv = 4096 - (args_size argv + 3) div 4 * 4 - 4 * (length argv + 1)"

definition arg_page :: "u8 list list \<Rightarrow> bytemem" where
  "arg_page argv =
    (let n = length argv; st = st_off argv; ar = ar_off argv; base = USTACKTOP - PAGE_SIZE
     in st32 (of_nat (ar - 8)) (of_nat n) (st32 (of_nat (ar - 4)) (base + of_nat ar)
          (st32 (of_nat (ar + 4 * n)) (USTACKTOP - 1) (put_words ar (ptrs argv (base + of_nat st)) (put_bytes st (str_bytes argv) (\<lambda>_. 0))))))"

definition args_fit :: "u8 list list \<Rightarrow> bool" where
  "args_fit argv \<longleftrightarrow> (args_size argv + 3) div 4 * 4 + 4 * (length argv + 3) \<le> 4096"

lemma unat_ROUND_4: "t \<le> 4096 \<Longrightarrow> unat (ROUND (of_nat t) 4) = (t + 3) div 4 * 4"
proof -
  assume t: "t \<le> 4096"
  have m: "(4 - 1 :: u32) = mask 2" by (simp add: mask_eq_exp_minus_1)
  have e: "2 \<le> k \<Longrightarrow> Suc (Suc (k - 2)) = k" for k :: nat by simp
  have "x AND NOT (mask 2) = push_bit 2 (drop_bit 2 x)" for x :: u32 by (rule bit_word_eqI) (auto simp: bit_simps e)
  then have "(of_nat t + 4 - 1 :: u32) AND NOT (mask 2) = push_bit 2 (drop_bit 2 (of_nat (t + 3)))" by (simp add: algebra_simps)
  moreover have "unat (of_nat (t + 3) :: u32) = t + 3" using t by (simp add: unat_of_nat del: of_nat_add)
  then have "unat (drop_bit 2 (of_nat (t + 3) :: u32)) = (t + 3) div 4" by (simp add: unat_drop_bit_div)
  then have "unat (push_bit 2 (drop_bit 2 (of_nat (t + 3)) :: u32)) = (t + 3) div 4 * 4"
    unfolding push_bit_eq_mult using t by (subst unat_mult_lem [THEN iffD1]) simp_all
  ultimately show ?thesis unfolding ROUND_def m by simp
qed

text \<open>The offsets in the page.\<close>

lemma arg_offsets:
  assumes "args_fit argv"
  shows "8 \<le> ar_off argv" "ar_off argv + 4 * (length argv + 1) \<le> st_off argv" "st_off argv + args_size argv = 4096"
    "UTEMP + PAGE_SIZE - ROUND (of_nat (args_size argv)) 4 - 4 * (of_nat (length argv) + 1) = UTEMP + of_nat (ar_off argv)"
    "UTEMP + PAGE_SIZE - of_nat (args_size argv) = UTEMP + of_nat (st_off argv)"
    "\<not> PAGE_SIZE < ROUND (of_nat (args_size argv)) 4 + 4 * (of_nat (length argv) + 3)"
proof -
  let ?n = "length argv" and ?tot = "args_size argv"
  define R where "R = (?tot + 3) div 4 * 4"
  have le: "R + 4 * (?n + 3) \<le> 4096" using assms(1) by (simp add: args_fit_def R_def)
  have tR: "?tot \<le> R" unfolding R_def by linarith
  have a: "ar_off argv = 4096 - R - 4 * (?n + 1)" by (simp add: ar_off_def R_def)
  show "8 \<le> ar_off argv" "ar_off argv + 4 * (length argv + 1) \<le> st_off argv" "st_off argv + args_size argv = 4096"
    using le tR by (auto simp: a st_off_def)
  have "unat (ROUND (of_nat ?tot) 4) = R" using unat_ROUND_4 [of ?tot] le tR by (simp add: R_def)
  then have R: "ROUND (of_nat ?tot) 4 = of_nat R" using le by (simp add: word_unat_eq_iff unat_of_nat)
  show "UTEMP + PAGE_SIZE - of_nat ?tot = UTEMP + of_nat (st_off argv)" using le tR by (simp add: st_off_def of_nat_diff)
  show "UTEMP + PAGE_SIZE - ROUND (of_nat ?tot) 4 - 4 * (of_nat ?n + 1) = UTEMP + of_nat (ar_off argv)"
    unfolding R a using le by (simp add: of_nat_diff algebra_simps)
  have "of_nat R + 4 * (of_nat ?n + 3) = (of_nat (R + 4 * (?n + 3)) :: u32)" by simp
  moreover have "unat (of_nat (R + 4 * (?n + 3)) :: u32) \<le> 4096" using le by (simp add: unat_of_nat del: of_nat_add of_nat_mult)
  ultimately show "\<not> PAGE_SIZE < ROUND (of_nat ?tot) 4 + 4 * (of_nat ?n + 3)" unfolding R by (simp only: word_less_nat_alt) simp
qed

lemma fill_stack_ok:
  assumes "args_fit argv" "building f c" "own c f = (\<lambda>_. 0)"
  shows "fill_stack argv (UTEMP + of_nat (st_off argv)) c =
    Some (USTACKTOP - PAGE_SIZE + of_nat (ar_off argv - 8), set_own f (arg_page argv) c)"
proof -
  let ?n = "length argv" and ?tot = "args_size argv" and ?ar = "ar_off argv" and ?st = "st_off argv"
  note o = arg_offsets [OF assms(1)]
  have A2: "UTEMP + of_nat ?ar + 4 * of_nat ?n = UTEMP + of_nat (?ar + 4 * ?n)" "UTEMP + of_nat ?ar - 4 = UTEMP + of_nat (?ar - 4)"
    "UTEMP + of_nat ?ar - 8 = UTEMP + of_nat (?ar - 8)" using o(1) by (simp_all add: of_nat_diff)
  let ?base = "USTACKTOP - PAGE_SIZE :: u32"
  have B: "USTACKTOP - UTEMP - PAGE_SIZE + (UTEMP + of_nat k) = ?base + of_nat k" for k by simp
  have "?base + of_nat ?st + of_nat ?tot = ?base + of_nat (?st + ?tot)" by simp
  then have ct: "?base + of_nat ?st + of_nat ?tot - 1 = USTACKTOP - 1" unfolding o(3) by simp
  let ?g1 = "put_bytes ?st (str_bytes argv) (\<lambda>_. 0)"
  have 1: "put_strings argv (UTEMP + of_nat ?st) c = Some (UTEMP + of_nat (?st + ?tot), set_own f ?g1 c)"
    using put_strings_ok [OF assms(2), of ?st argv] o(3) assms(3) by simp
  let ?g2 = "put_words ?ar (ptrs argv (?base + of_nat ?st)) ?g1"
  have 2: "put_args argv (UTEMP + of_nat ?ar) (?base + of_nat ?st) (set_own f ?g1 c) = Some (?base + of_nat ?st + of_nat ?tot, set_own f ?g2 c)"
    using put_args_ok [of f "set_own f ?g1 c" ?ar argv "?base + of_nat ?st"] assms(2) o(2,3) by simp
  have "building f (set_own f g c)" for g using assms(2) by simp
  note w = store_building(2) [OF this]
  have 3: "?ar + 4 * ?n < 4096" "?ar - 4 < 4096" "?ar - 8 < 4096" using o(2,3) by auto
  show ?thesis
    unfolding fill_stack_def Let_def o(4) 1 B bind.bind_lunit prod.case 2 A2 w [OF 3(1)] ct w [OF 3(2)] w [OF 3(3)] set_own_simps arg_page_def ..
qed

text \<open>What the child reads in its stack page.\<close>

lemma kid_loads:
  assumes "kid s (VPN (USTACKTOP - PAGE_SIZE)) = Some (Own f, fl)" "k < 4096"
  shows "kid_load8 (USTACKTOP - PAGE_SIZE + of_nat k) s = Some (own (cl s) f (of_nat k))"
    "kid_load32 (USTACKTOP - PAGE_SIZE + of_nat k) s = Some (ld32 (own (cl s) f) (of_nat k))"
proof -
  have "unat (USTACKTOP - PAGE_SIZE) mod 4096 = 0" by simp
  note a = aligned_add(1,2) [OF this assms(2)]
  show "kid_load8 (USTACKTOP - PAGE_SIZE + of_nat k) s = Some (own (cl s) f (of_nat k))"
    "kid_load32 (USTACKTOP - PAGE_SIZE + of_nat k) s = Some (ld32 (own (cl s) f) (of_nat k))"
    unfolding kid_load8_def kid_load32_def a using assms(1) by (simp_all add: page_mem_def)
qed

lemma arg_page_words:
  assumes "args_fit argv"
  shows "ld32 (arg_page argv) (of_nat (ar_off argv - 8)) = of_nat (length argv)"
    "ld32 (arg_page argv) (of_nat (ar_off argv - 4)) = USTACKTOP - PAGE_SIZE + of_nat (ar_off argv)"
    "ld32 (arg_page argv) (of_nat (ar_off argv + 4 * length argv)) = USTACKTOP - 1"
    "i < length argv \<Longrightarrow> ld32 (arg_page argv) (of_nat (ar_off argv + 4 * i)) =
       USTACKTOP - PAGE_SIZE + of_nat (st_off argv + args_size (take i argv))"
    "st_off argv \<le> unat d \<Longrightarrow> unat d < 4096 \<Longrightarrow> arg_page argv d = str_bytes argv ! (unat d - st_off argv)"
proof -
  let ?n = "length argv" and ?ar = "ar_off argv" and ?base = "USTACKTOP - PAGE_SIZE :: u32"
  let ?g1 = "put_bytes (st_off argv) (str_bytes argv) (\<lambda>_. 0)"
  let ?g2 = "put_words ?ar (ptrs argv (?base + of_nat (st_off argv))) ?g1"
  let ?g3 = "st32 (of_nat (?ar + 4 * ?n)) (USTACKTOP - 1) ?g2"
  let ?g4 = "st32 (of_nat (?ar - 4)) (?base + of_nat ?ar) ?g3"
  note o = arg_offsets(1-3) [OF assms]
  have p: "arg_page argv = st32 (of_nat (?ar - 8)) (of_nat ?n) ?g4" by (simp add: arg_page_def Let_def)
  have 4: "arg_page argv d = ?g4 d" if "?ar - 4 \<le> unat d" for d unfolding p using that o by (intro st32_outside) auto
  have 3: "arg_page argv d = ?g3 d" if "?ar \<le> unat d" for d
    using 4 [of d] that o st32_outside [of "?ar - 4" d "?base + of_nat ?ar" ?g3] by auto
  show "ld32 (arg_page argv) (of_nat (?ar - 8)) = of_nat ?n" unfolding p by (rule ld32_st32)
  have "ld32 (arg_page argv) (of_nat (?ar - 4)) = ld32 ?g4 (of_nat (?ar - 4))" using o by (intro ld32_outside 4) auto
  then show "ld32 (arg_page argv) (of_nat (?ar - 4)) = ?base + of_nat ?ar" by (simp only: ld32_st32)
  have "ld32 (arg_page argv) (of_nat (?ar + 4 * ?n)) = ld32 ?g3 (of_nat (?ar + 4 * ?n))" using o by (intro ld32_outside 3) auto
  then show "ld32 (arg_page argv) (of_nat (?ar + 4 * ?n)) = USTACKTOP - 1" by (simp only: ld32_st32)
  have 2: "arg_page argv d = ?g2 d" if "?ar \<le> unat d" "unat d < ?ar + 4 * ?n \<or> ?ar + 4 * ?n + 4 \<le> unat d" for d
    using 3 [OF that(1)] that(2) o st32_outside [of "?ar + 4 * ?n" d "USTACKTOP - 1" ?g2] by auto
  show "ld32 (arg_page argv) (of_nat (?ar + 4 * i)) = ?base + of_nat (st_off argv + args_size (take i argv))" if i: "i < ?n"
  proof -
    have "ld32 (arg_page argv) (of_nat (?ar + 4 * i)) = ld32 ?g2 (of_nat (?ar + 4 * i))" using o i by (intro ld32_outside 2) auto
    also have "\<dots> = ptrs argv (?base + of_nat (st_off argv)) ! i" using o i by (intro put_words_nth) auto
    finally show ?thesis using i by (simp add: ptrs_nth)
  qed
  show "arg_page argv d = str_bytes argv ! (unat d - st_off argv)" if d: "st_off argv \<le> unat d" "unat d < 4096" for d
  proof -
    have "arg_page argv d = ?g2 d" using d o by (intro 2) auto
    also have "\<dots> = ?g1 d" using d o by (intro put_words_outside) auto
    also have "\<dots> = str_bytes argv ! (unat d - st_off argv)" using d o(3) by (auto simp: put_bytes_def length_str_bytes)
    finally show ?thesis .
  qed
qed

lemma str_bytes_nth: "i < length argv \<Longrightarrow> j \<le> length (argv ! i) \<Longrightarrow>
    str_bytes argv ! (args_size (take i argv) + j) = ((argv ! i) @ [0]) ! j \<and> args_size (take i argv) + j < args_size argv"
proof (induction argv arbitrary: i)
  case (Cons a argv)
  show ?case
  proof (cases i)
    case 0
    then show ?thesis using Cons.prems by (simp add: args_size_def nth_append)
  next
    case (Suc k)
    then show ?thesis using Cons.IH [of k] Cons.prems by (simp add: args_size_def nth_append)
  qed
qed simp

lemma s_map_kid_ok:
  assumes "va_ok src" "va_ok dst" "kid_alive s" "\<And>n. \<not> nopage (cl s) n" "ptab (cl s) (VPN src) = Some (p, fl)"
  shows "\<exists>s1. s_map_kid src dst perm s = (0, s1) \<and> kid s1 = (kid s)(VPN dst \<mapsto> (p, mapped_flags perm)) \<and> kid_alive s1 \<and>
    kid_pc s1 = kid_pc s \<and> kid_sp s1 = kid_sp s \<and> like (cl s) (cl s1) \<and> ptab (cl s1) = ptab (cl s)"
  using assms by (cases "kid s (VPN dst)") (auto simp: s_map_kid_def set_kid_def Let_def like_def)

text \<open>C9. For arguments that fit into a page, \<^verbatim>\<open>init_stack\<close> returns 0 and gives the child a stack page in which, from the
  stack pointer on, stand the number of arguments and the address of an array whose entries are the addresses, in the
  child, of the argument strings with their terminators. The entry after the last is not the null pointer the comment in the source promises, but the
  address of the last terminator. No other mapping of the child changes, and the page is unmapped in the parent.\<close>

theorem init_stack_layout:
  assumes "args_fit argv" "kid_alive s" "\<And>n. \<not> nopage (cl s) n"
  shows "\<exists>sp av s'. init_stack argv s = Some (0, sp, s') \<and>
    kid_load32 sp s' = Some (of_nat (length argv)) \<and> kid_load32 (sp + 4) s' = Some av \<and>
    (\<forall>i<length argv. \<exists>p. kid_load32 (av + 4 * of_nat i) s' = Some p \<and> kid_string p (argv ! i) s') \<and>
    kid_load32 (av + 4 * of_nat (length argv)) s' = Some (USTACKTOP - 1) \<and>
    (\<forall>v. v \<noteq> VPN (USTACKTOP - PAGE_SIZE) \<longrightarrow> kid s' v = kid s v) \<and>
    ptab (cl s') = (ptab (cl s))(VPN UTEMP := None) \<and> (\<forall>f. f \<noteq> nown (cl s) \<longrightarrow> own (cl s') f = own (cl s) f)"
proof -
  let ?base = "USTACKTOP - PAGE_SIZE :: u32" and ?f = "nown (cl s)" and ?ar = "ar_off argv" and ?st = "st_off argv"
  note o = arg_offsets [OF assms(1)]
  have ok: "va_ok UTEMP" "va_ok ?base" by (simp_all add: va_ok_def)
  obtain c where c: "c_mem_alloc UTEMP PTE_D (cl s) = (0, c)" "building ?f c" "own c = (own (cl s))(?f := (\<lambda>_. 0))"
    "ptab c = (ptab (cl s))(VPN UTEMP \<mapsto> (Own ?f, mapped_flags PTE_D))" "nopage c = nopage (cl s)"
    using ok(1) assms(3) by (simp add: c_mem_alloc_def building_def pte_bits bit_mapped_flags bit_D)
  let ?c = "set_own ?f (arg_page argv) c"
  have fill: "fill_stack argv (UTEMP + PAGE_SIZE - of_nat (args_size argv)) c = Some (?base + of_nat (?ar - 8), ?c)"
    unfolding o(5) using fill_stack_ok [OF assms(1) c(2)] c(3) by simp
  obtain s1 where s1: "s_map_kid UTEMP ?base PTE_D (s\<lparr>cl := ?c\<rparr>) = (0, s1)" "kid s1 = (kid s)(VPN ?base \<mapsto> (Own ?f, mapped_flags PTE_D))"
    "own (cl s1) = own ?c" "ptab (cl s1) = ptab ?c"
    using s_map_kid_ok [of UTEMP ?base "s\<lparr>cl := ?c\<rparr>" "Own ?f" "mapped_flags PTE_D" PTE_D] assms(2,3) ok c(4,5)
    by (auto simp: set_own_def like_def)
  obtain s2 where s2: "s_unmap_own UTEMP s1 = (0, s2)" "kid s2 = kid s1" "own (cl s2) = own ?c" "ptab (cl s2) = (ptab (cl s))(VPN UTEMP := None)"
    using ok(1) s1(3,4) c(4) by (simp add: s_unmap_own_def c_mem_unmap_def set_own_def)
  have run: "init_stack argv s = Some (0, ?base + of_nat (?ar - 8), s2)"
    using o(6) fill s1(1) s2(1) by (simp add: init_stack_def Let_def c(1))
  have f: "own (cl s2) ?f = arg_page argv" using s2(3) by simp
  have kb: "kid s2 (VPN ?base) = Some (Own ?f, mapped_flags PTE_D)" by (simp add: s2(2) s1(2))
  note ld = kid_loads [OF kb, unfolded f] and w = arg_page_words [OF assms(1)]
  have str: "kid_string (?base + of_nat (?st + args_size (take i argv))) (argv ! i) s2" if i: "i < length argv" for i
  proof -
    have "kid_load8 (?base + of_nat (?st + args_size (take i argv)) + of_nat j) s2 = Some (((argv ! i) @ [0]) ! j)" if "j \<le> length (argv ! i)" for j
    proof -
      note n = str_bytes_nth [OF i that]
      have lt: "?st + (args_size (take i argv) + j) < 4096" using n o(3) by simp
      then have "unat (of_nat (?st + (args_size (take i argv) + j)) :: u32) = ?st + (args_size (take i argv) + j)" by (simp add: unat_of_nat del: of_nat_add)
      then show ?thesis using ld(1) [OF lt] w(5) [of "of_nat (?st + (args_size (take i argv) + j))"] lt n by (simp add: add.assoc)
    qed
    from this [of "length (argv ! i)"] this show ?thesis by (auto simp: kid_string_def nth_append)
  qed
  have a: "?base + of_nat (?ar - 8) + 4 = ?base + of_nat (?ar - 4)" "?base + of_nat ?ar + 4 * of_nat i = ?base + of_nat (?ar + 4 * i)" for i
    using o(1) by (simp_all add: of_nat_diff)
  have "kid_load32 (?base + of_nat ?ar + 4 * of_nat i) s2 = Some (?base + of_nat (?st + args_size (take i argv)))" if "i < length argv" for i
    unfolding a using ld(2) [of "?ar + 4 * i"] w(4) [OF that] that o(2,3) by simp
  then have args: "\<forall>i<length argv. \<exists>p. kid_load32 (?base + of_nat ?ar + 4 * of_nat i) s2 = Some p \<and> kid_string p (argv ! i) s2"
    using str by blast
  have "kid_load32 (?base + of_nat (?ar - 8)) s2 = Some (of_nat (length argv))" "kid_load32 (?base + of_nat (?ar - 8) + 4) s2 = Some (?base + of_nat ?ar)"
    "kid_load32 (?base + of_nat ?ar + 4 * of_nat (length argv)) s2 = Some (USTACKTOP - 1)"
    unfolding a using ld(2) [of "?ar - 8"] ld(2) [of "?ar - 4"] ld(2) [of "?ar + 4 * length argv"] w(1-3) o(2,3) by simp_all
  moreover have "\<forall>v. v \<noteq> VPN ?base \<longrightarrow> kid s2 v = kid s v" by (simp add: s2(2) s1(2))
  moreover have "\<forall>g. g \<noteq> ?f \<longrightarrow> own (cl s2) g = own (cl s) g" using s2(3) c(3) by (simp add: set_own_def)
  ultimately show ?thesis using run args s2(4) by blast
qed

definition demo_spawner :: spawner where
  "demo_spawner = \<lparr>cl = (demo_client \<lparr>fs = demo_fs, opentab = (\<lambda>_. \<lparr>o_file = 0, o_fileid = 0, o_mode = 0, o_ff = 0\<rparr>), pref = (\<lambda>_. 0), sent = []\<rparr>)
       \<lparr>ptab := [0x5FC00 \<mapsto> (Own 0, mapped_flags (PTE_D OR PTE_LIBRARY))]\<rparr>,
     kid = (\<lambda>_. None), kid_alive = True, kid_runnable = False, kid_pc = 0, kid_sp = 0, exo = 0x801\<rparr>"

lemma demo_spawner_simps:
  "kid_alive demo_spawner" "\<not> nopage (cl demo_spawner) n" "kid demo_spawner = (\<lambda>_. None)"
  "ptab (cl demo_spawner) = [0x5FC00 \<mapsto> (Own 0, mapped_flags (PTE_D OR PTE_LIBRARY))]"
  by (simp_all add: demo_spawner_def demo_client_def)

theorem init_stack_layout_witness:
  "\<exists>sp av s'. init_stack [[0x6C, 0x73], [0x2F]] demo_spawner = Some (0, sp, s') \<and> kid_load32 sp s' = Some 2 \<and>
    kid_load32 (sp + 4) s' = Some av \<and> kid_load32 (av + 8) s' = Some (USTACKTOP - 1)"
proof -
  have "args_fit [[0x6C, 0x73], [0x2F]]" by (simp add: args_fit_def args_size_def)
  from init_stack_layout [OF this demo_spawner_simps(1,2)] show ?thesis by auto
qed

section \<open>Shared library pages\<close>

text \<open>The entry of the child for a page of the parent: library pages are shared with the parent's flags.\<close>

definition inherit :: "(page \<times> u32) option \<Rightarrow> (page \<times> u32) option \<Rightarrow> (page \<times> u32) option" where
  "inherit old k =
    (case old of
       Some (p, fl) \<Rightarrow> if bit fl 7 \<and> bit fl 1 then Some (p, mapped_flags (fl AND 0xFFF)) else k
     | None \<Rightarrow> k)"

lemma share_loop:
  assumes "kid_alive s" "\<And>n. \<not> nopage (cl s) n" "\<And>v p fl. ptab (cl s) v = Some (p, fl) \<Longrightarrow> 0x3FE \<le> v" "m \<le> 0x7F400"
  shows "\<exists>s'. fold share_page [0..<m] (None, s) = (None, s') \<and> kid_alive s' \<and> kid_pc s' = kid_pc s \<and> kid_sp s' = kid_sp s \<and> like (cl s) (cl s') \<and> ptab (cl s') = ptab (cl s) \<and>
    (\<forall>v. kid s' v = (if v < m then inherit (ptab (cl s) v) (kid s v) else kid s v))"
  using assms(4)
proof (induction m)
  case 0
  then show ?case using assms(1) by (simp add: like_def)
next
  case (Suc m)
  then obtain t where t: "fold share_page [0..<m] (None, s) = (None, t)" "kid_alive t" "like (cl s) (cl t)" "ptab (cl t) = ptab (cl s)"
    "\<And>v. kid t v = (if v < m then inherit (ptab (cl s) v) (kid s v) else kid s v)" "kid_pc t = kid_pc s" "kid_sp t = kid_sp s" by auto
  have fl: "(fl AND 0xFFF) AND PTE_V \<noteq> 0 \<longleftrightarrow> bit fl 7" "(fl AND 0xFFF) AND PTE_LIBRARY \<noteq> 0 \<longleftrightarrow> bit fl 1" for fl :: u32
    using pte_valid_bit [of "fl AND 0xFFF"] by (simp_all add: pte_valid_def pte_bits bit_fff)
  show ?case
  proof (cases "\<forall>p fl. ptab (cl s) m = Some (p, fl) \<longrightarrow> \<not> (bit fl 7 \<and> bit fl 1)")
    case True
    then have "share_page m (None, t) = (None, t)" "inherit (ptab (cl s) m) (kid s m) = kid s m"
      by (auto simp: share_page_def inherit_def t(4) fl Let_def simp del: One_nat_def split: option.split)
    moreover have "kid t v = (if v < Suc m then inherit (ptab (cl s) v) (kid s v) else kid s v)" for v
      using t(5) [of v] \<open>inherit (ptab (cl s) m) (kid s m) = kid s m\<close> by (auto simp: less_Suc_eq)
    ultimately show ?thesis using t(1-4,6,7) by simp
  next
    case False
    then obtain p fl where p: "ptab (cl s) m = Some (p, fl)" "bit fl 7" "bit fl 1" by blast
    let ?va = "push_bit 12 (of_nat m) :: u32"
    have va: "VPN ?va = m" "va_ok ?va" using Suc.prems assms(3) [OF p(1)] by (simp_all add: VPN_addr va_ok_addr)
    have "\<And>n. \<not> nopage (cl t) n" using t(3) assms(2) by (simp add: like_def)
    then obtain u where u: "s_map_kid ?va ?va (fl AND 0xFFF) t = (0, u)" "kid u = (kid t)(m \<mapsto> (p, mapped_flags (fl AND 0xFFF)))" "kid_alive u"
      "like (cl t) (cl u)" "ptab (cl u) = ptab (cl t)" "kid_pc u = kid_pc t" "kid_sp u = kid_sp t"
      using s_map_kid_ok [OF va(2,2) t(2), of p fl "fl AND 0xFFF"] p(1) t(4) va(1) by auto
    have "share_page m (None, t) = (None, u)"
      using p u(1) by (simp add: share_page_def t(4) fl Let_def del: One_nat_def)
    moreover have "kid u v = (if v < Suc m then inherit (ptab (cl s) v) (kid s v) else kid s v)" for v
      using t(5) [of v] p by (auto simp: u(2) inherit_def less_Suc_eq simp del: One_nat_def)
    ultimately show ?thesis using t(1,3,4,6,7) u(3-7) by (simp add: like_def)
  qed
qed

text \<open>C10. A program that is started gets the pages of its parent that are marked \<^verbatim>\<open>PTE_LIBRARY\<close>, so its open files, at
  the same addresses with the same flags, and nothing else changes: neither its own other pages nor the
  parent's mappings and memory.\<close>

theorem spawn_shares_library:
  assumes "kid_alive s" "\<And>n. \<not> nopage (cl s) n" "\<And>v p fl. ptab (cl s) v = Some (p, fl) \<Longrightarrow> 0x3FE \<le> v"
  shows "\<exists>s'. spawn_start child pc sp s = Some (child, s') \<and> kid_runnable s' \<and> kid_pc s' = pc \<and> kid_sp s' = sp \<and>
    (\<forall>v<VPN UTOP. kid s' v = inherit (ptab (cl s) v) (kid s v)) \<and> (\<forall>v\<ge>VPN UTOP. kid s' v = kid s v) \<and>
    ptab (cl s') = ptab (cl s) \<and> (\<forall>p. page_mem p (cl s') = page_mem p (cl s))"
proof -
  let ?s = "s\<lparr>kid_pc := pc, kid_sp := sp\<rparr>"
  have n: "(PDX USTACKTOP + 1) * 1024 = 0x7F400" "VPN UTOP = 0x7F400" by (simp_all add: PDX_def VPN_div)
  obtain s' where s': "kid_pc s' = pc" "kid_sp s' = sp" "share_library ?s = (None, s')" "like (cl s) (cl s')" "ptab (cl s') = ptab (cl s)"
    "\<And>v. kid s' v = (if v < 0x7F400 then inherit (ptab (cl s) v) (kid s v) else kid s v)"
    using share_loop [of ?s "0x7F400"] assms unfolding share_library_def n by auto
  have "page_mem p (cl s') = page_mem p (cl s)" for p using s'(4) by (simp add: page_mem_def like_def split: page.split)
  then show ?thesis
    using s' assms(1) unfolding n(2) by (simp add: spawn_start_def)
qed

theorem spawn_shares_library_witness:
  "\<exists>s'. spawn_start 0x801 0x400000 0x7F3FDFF0 demo_spawner = Some (0x801, s') \<and>
    kid s' 0x5FC00 = inherit (Some (Own 0, mapped_flags (PTE_D OR PTE_LIBRARY))) None \<and> kid s' 0x500 = None"
proof -
  have v: "0x5FC00 < VPN UTOP" "0x500 < VPN UTOP" by (simp_all add: VPN_div)
  have low: "0x3FE \<le> w" if "ptab (cl demo_spawner) w = Some (p, fl)" for w p fl
    using that by (simp add: demo_spawner_simps split: if_splits)
  obtain s' where s: "spawn_start 0x801 0x400000 0x7F3FDFF0 demo_spawner = Some (0x801, s')"
    "\<forall>w<VPN UTOP. kid s' w = inherit (ptab (cl demo_spawner) w) (kid demo_spawner w)"
    using spawn_shares_library [OF demo_spawner_simps(1,2), of "0x801" "0x400000" "0x7F3FDFF0"] low by blast
  have "kid s' 0x5FC00 = inherit (ptab (cl demo_spawner) 0x5FC00) (kid demo_spawner 0x5FC00)"
    "kid s' 0x500 = inherit (ptab (cl demo_spawner) 0x500) (kid demo_spawner 0x500)" using s(2) v by blast+
  then show ?thesis using s(1) by (simp add: demo_spawner_simps inherit_def)
qed

end
