(* ===== verification/MOS_Mount.thy ===== *)
theory MOS_Mount
  imports MOS_Blocks
begin

text \<open>
  Starting the file system server (\<^verbatim>\<open>fs_init\<close> of \<^verbatim>\<open>fs/fs.c\<close>): what a disk must hold for the checks of
  \<^verbatim>\<open>read_super\<close>, \<^verbatim>\<open>check_write_block\<close> and \<^verbatim>\<open>read_bitmap\<close> to pass, and the state they leave.
\<close>

section \<open>Blocks on the disk\<close>

definition disk_block :: "(u32 \<Rightarrow> nat \<Rightarrow> u8) \<Rightarrow> nat \<Rightarrow> nat \<Rightarrow> u8" where
  "disk_block d b k = d (of_nat (8 * b) + of_nat (k div 512)) (k mod 512)"

text \<open>The whole disk, as if it were mapped at \<open>DISKMAP\<close>.\<close>

definition disk_mem :: "(u32 \<Rightarrow> nat \<Rightarrow> u8) \<Rightarrow> bytemem" where
  "disk_mem d = (\<lambda>a. disk_block d (unat (a - DISKMAP) div 4096) (unat (a - DISKMAP) mod 4096))"

text \<open>A disk of \<open>n\<close> blocks that the server accepts: the magic number, the size, and the reserved
  blocks and the bitmap blocks in use. The bit of the block after the last one of a bitmap that
  exactly fills its blocks is tested as well.\<close>

definition image_ok :: "nat \<Rightarrow> (u32 \<Rightarrow> nat \<Rightarrow> u8) \<Rightarrow> bool" where
  "image_ok n d \<longleftrightarrow> 3 \<le> n \<and> n \<le> 0x40000 \<and> ld32 (disk_mem d) (disk_addr 1) = FS_MAGIC \<and>
     ld32 (disk_mem d) (disk_addr 1 + 4) = of_nat n \<and>
     (\<forall>b \<le> n div 32768 + 2. \<not> bit (ld32 (disk_mem d) (bitmap_word b)) (b mod 32))"

lemma disk_mem_block: "b < 0xF0000 \<Longrightarrow> k < 4096 \<Longrightarrow> disk_mem d (disk_addr (of_nat b) + of_nat k) = disk_block d b k"
proof -
  assume *: "b < 0xF0000" "k < 4096"
  then have "unat (disk_addr (of_nat b) + of_nat k - DISKMAP) = k + b * 4096"
    using unat_in_block [OF *] by (simp add: unat_sub_if')
  with *(2) show ?thesis by (simp add: disk_mem_def)
qed

section \<open>Pages of memory as blocks\<close>

text \<open>The memory in which the page of block \<open>b\<close> holds the bytes \<open>f\<close>.\<close>

definition put_page :: "nat \<Rightarrow> (nat \<Rightarrow> u8) \<Rightarrow> bytemem \<Rightarrow> bytemem" where
  "put_page b f m = (\<lambda>a. if page_of a = disk_addr (of_nat b) then f (unat (a - disk_addr (of_nat b))) else m a)"

lemma put_page_at:
  "b < 0xF0000 \<Longrightarrow> c < 0xF0000 \<Longrightarrow> k < 4096 \<Longrightarrow>
    put_page b f m (disk_addr (of_nat c) + of_nat k) = (if b = c then f k else m (disk_addr (of_nat c) + of_nat k))"
  by (auto simp: put_page_def page_in_block disk_addr_inject unat_of_nat)

lemma put_page_twice [simp]: "put_page b f (put_page b g m) = put_page b f m"
  by (simp add: put_page_def fun_eq_iff)

lemma put_page_cong: "b < 0xF0000 \<Longrightarrow> (\<And>k. k < 4096 \<Longrightarrow> f k = g k) \<Longrightarrow> put_page b f m = put_page b g m"
  by (auto simp: put_page_def fun_eq_iff in_block_iff)

lemma put_page_same: "b < 0xF0000 \<Longrightarrow> put_page b (\<lambda>k. m (disk_addr (of_nat b) + of_nat k)) m = m"
  by (simp add: put_page_def fun_eq_iff)

lemma copied_page:
  "b < 0xF0000 \<Longrightarrow> copied (disk_addr (of_nat b)) src 4096 m = put_page b (\<lambda>k. m (src + of_nat k)) m"
  by (simp add: copied_def put_page_def fun_eq_iff in_block_iff)

lemma memcpy_page:
  assumes "b < 0xF0000 - 1" "c < 0xF0000" "b \<noteq> c"
  shows "memcpy (disk_addr (of_nat b)) (disk_addr (of_nat c)) BLOCK_SIZE m =
    Some (disk_addr (of_nat b), put_page b (\<lambda>k. m (disk_addr (of_nat c) + of_nat k)) m)"
proof -
  have "disjoint_from (disk_addr (of_nat c)) (disk_addr (of_nat b)) 4096"
    unfolding disjoint_from_def
  proof (intro allI impI)
    fix i :: nat assume i: "i < 4096"
    then have "page_of (disk_addr (of_nat c) + of_nat i) \<noteq> disk_addr (of_nat b)"
      using assms by (simp add: page_in_block disk_addr_inject)
    with assms(1) show "4096 \<le> unat (disk_addr (of_nat c) + of_nat i - disk_addr (of_nat b))"
      by (simp add: in_block_iff)
  qed
  with assms unat_disk_addr [of b] show ?thesis
    using memcpy_copies [of "disk_addr (of_nat c)" "disk_addr (of_nat b)" BLOCK_SIZE m] by (simp add: copied_page)
qed

section \<open>Reading and writing whole blocks\<close>

definition fetch :: "nat \<Rightarrow> fss \<Rightarrow> fss" where
  "fetch b s = ide_read_sects (of_nat b * SECT2BLK) (disk_addr (of_nat b)) 8 (snd (mem_alloc (disk_addr (of_nat b)) PTE_D s))"

lemma fetch_simps:
  assumes "b < 0xF0000" "\<And>i. \<not> oom s i"
  shows "mem (fetch b s) = put_page b (disk_block (disk s) b) (mem s)"
    "pages (fetch b s) = (pages s)(disk_addr (of_nat b) \<mapsto> PTE_D)" "disk (fetch b s) = disk s"
    "super (fetch b s) = super s" "bitmap (fetch b s) = bitmap s" "oom (fetch b s) = oom s"
  using assms by (auto simp: fetch_def mem_alloc_def ide_read_sects_def page_disk_addr in_block_iff put_page_def
      disk_block_def Let_def fun_eq_iff mult.commute)

lemma mapped_upd:
  "b < 0xF0000 \<Longrightarrow> c < 0xF0000 \<Longrightarrow> pages s = p(disk_addr (of_nat b) \<mapsto> q) \<Longrightarrow>
    block_is_mapped (of_nat c) s \<longleftrightarrow> c = b \<or> p (disk_addr (of_nat c)) \<noteq> None"
  by (auto simp: block_is_mapped_def va_is_mapped_def page_disk_addr disk_addr_inject)

lemma read_block_fetch:
  assumes "super s = 0" "bitmap s = 0" "b < 0xF0000" "\<not> block_is_mapped (of_nat b) s" "\<And>i. \<not> oom s i"
  shows "read_block (of_nat b) s = Some (Inr (disk_addr (of_nat b), True), fetch b s)"
  using assms by (simp add: read_block_def and_then_def mem_alloc_def fetch_def Let_def)

definition write_page :: "nat \<Rightarrow> (nat \<Rightarrow> u8) \<Rightarrow> (u32 \<Rightarrow> nat \<Rightarrow> u8) \<Rightarrow> u32 \<Rightarrow> nat \<Rightarrow> u8" where
  "write_page b f d = (\<lambda>sec off. let i = unat (sec - of_nat (8 * b)) in if i < 8 \<and> off < 512 then f (512 * i + off) else d sec off)"

lemma write_page_twice [simp]: "write_page b f (write_page b g d) = write_page b f d"
  by (auto simp: write_page_def fun_eq_iff Let_def)

lemma write_page_cong: "(\<And>k. k < 4096 \<Longrightarrow> f k = g k) \<Longrightarrow> write_page b f d = write_page b g d"
  by (auto simp: write_page_def fun_eq_iff Let_def)

lemma write_page_same: "write_page b (disk_block d b) d = d"
  by (auto simp: write_page_def disk_block_def fun_eq_iff Let_def)

lemma disk_block_write_page: "k < 4096 \<Longrightarrow> disk_block (write_page b f d) b k = f k"
proof -
  assume k: "k < 4096"
  then have "unat (of_nat (k div 512) :: u32) = k div 512" "k div 512 < 8" by (simp_all add: unat_of_nat less_mult_imp_div_less)
  then show ?thesis by (simp add: disk_block_def write_page_def Let_def)
qed

lemma write_block_page:
  "block_is_mapped (of_nat b) s \<Longrightarrow>
    write_block (of_nat b) s = Some (s\<lparr>disk := write_page b (\<lambda>k. mem s (disk_addr (of_nat b) + of_nat k)) (disk s)\<rparr>)"
  by (simp add: write_block_def ide_write_sects_def write_page_def Let_def mult.commute fun_eq_iff)

section \<open>Starting\<close>

text \<open>A word of a block that is cached as it is on the disk.\<close>

lemma ld32_block:
  assumes "b < 0xF0000" "k + 4 \<le> 4096" "\<And>i. i < 4096 \<Longrightarrow> m (disk_addr (of_nat b) + of_nat i) = disk_block d b i"
  shows "ld32 m (disk_addr (of_nat b) + of_nat k) = ld32 (disk_mem d) (disk_addr (of_nat b) + of_nat k)"
proof (rule ld32_cong)
  fix i :: nat assume "i < 4"
  then have "k + i < 4096" using assms(2) by simp
  then show "m (disk_addr (of_nat b) + of_nat k + of_nat i) = disk_mem d (disk_addr (of_nat b) + of_nat k + of_nat i)"
    using assms(3) [of "k + i"] disk_mem_block [OF assms(1), of "k + i" d] by (simp add: add.assoc)
qed

text \<open>What the steps have done so far: the first blocks up to \<open>j\<close> are cached, block 0 with a copy of the super
  block, the others as they are on the disk.\<close>

definition mounting :: "nat set \<Rightarrow> fss \<Rightarrow> fss \<Rightarrow> bool" where
  "mounting B s0 s \<longleftrightarrow> disk s = disk s0 \<and> oom s = oom s0 \<and>
     (\<forall>b<0xF0000. block_is_mapped (of_nat b) s \<longleftrightarrow> b \<in> B) \<and>
     (\<forall>b\<in>B. b \<noteq> 0 \<longrightarrow> (\<forall>k<4096. mem s (disk_addr (of_nat b) + of_nat k) = disk_block (disk s0) b k))"

lemma mounting_fetch:
  assumes "mounting B s0 s" "b < 0xF0000" "\<And>i. \<not> oom s0 i" "B \<subseteq> {..<0xF0000}"
  shows "mounting (insert b B) s0 (fetch b s)"
proof -
  have o: "\<And>i. \<not> oom s i" using assms by (simp add: mounting_def)
  note f = fetch_simps [OF assms(2) o]
  have "block_is_mapped (of_nat c) (fetch b s) \<longleftrightarrow> c \<in> insert b B" if "c < 0xF0000" for c
    using that assms(1) unfolding mapped_upd [OF assms(2) that f(2)]
    by (auto simp: mounting_def block_is_mapped_def va_is_mapped_def page_disk_addr)
  with assms f show ?thesis by (auto simp: mounting_def put_page_at subset_eq)
qed

lemma mounting_mapped: "mounting B s0 s \<Longrightarrow> b < 0xF0000 \<Longrightarrow> block_is_mapped (of_nat b) s \<longleftrightarrow> b \<in> B"
  by (simp add: mounting_def)

lemma mounting_ld32:
  "mounting B s0 s \<Longrightarrow> b \<in> B \<Longrightarrow> b \<noteq> 0 \<Longrightarrow> b < 0xF0000 \<Longrightarrow> k + 4 \<le> 4096 \<Longrightarrow>
    ld32 (mem s) (disk_addr (of_nat b) + of_nat k) = ld32 (disk_mem (disk s0)) (disk_addr (of_nat b) + of_nat k)"
  by (rule ld32_block) (simp_all add: mounting_def)

lemma mounting_rd32:
  "mounting B s0 s \<Longrightarrow> b \<in> B \<Longrightarrow> b \<noteq> 0 \<Longrightarrow> b < 0xF0000 \<Longrightarrow> k + 4 \<le> 4096 \<Longrightarrow>
    rd32 (disk_addr (of_nat b) + of_nat k) s = Some (ld32 (disk_mem (disk s0)) (disk_addr (of_nat b) + of_nat k))"
  using mounting_ld32 [of B s0 s b k] by (simp add: rd32_def mapped_in_block mounting_def)

lemma mounting_super [simp]: "mounting B s0 (s\<lparr>super := x\<rparr>) \<longleftrightarrow> mounting B s0 s"
    "mounting B s0 (s\<lparr>bitmap := x\<rparr>) \<longleftrightarrow> mounting B s0 s"
  by (simp_all add: mounting_def block_is_mapped_def va_is_mapped_def)

lemma read_super_ok:
  assumes "image_ok n (disk s)" "super s = 0" "bitmap s = 0" "\<And>i. \<not> oom s i" "mounting {} s s"
  shows "\<exists>s'. read_super s = Some s' \<and> mounting {1} s s' \<and> super s' = disk_addr 1 \<and> bitmap s' = 0"
proof -
  have nm: "\<not> block_is_mapped (of_nat 1) s" using mounting_mapped [OF assms(5), of 1] by simp
  note r = read_block_fetch [OF assms(2,3) _ nm assms(4)]
  have m: "mounting {1} s (fetch 1 s)" using mounting_fetch [OF assms(5) _ assms(4), of 1] by simp
  then have m': "mounting {1} s ((fetch 1 s)\<lparr>super := disk_addr 1\<rparr>)" by simp
  have n: "unat (of_nat n :: u32) = n" "n \<le> 0x40000" using assms(1) by (auto simp: image_ok_def unat_of_nat)
  have "read_super s = Some ((fetch 1 s)\<lparr>super := disk_addr 1\<rparr>)"
    using r mounting_rd32 [OF m', of 1 0] mounting_rd32 [OF m', of 1 4] assms(1) n
    by (simp add: read_super_def image_ok_def word_less_nat_alt)
  with m' fetch_simps(5) [OF _ assms(4), of 1] assms(3) show ?thesis by simp
qed

text \<open>The write test overwrites the start of the super block with a string.\<close>

abbreviation smash_str :: "u8 list" where "smash_str \<equiv> [0x4F, 0x4F, 0x50, 0x53, 0x21, 0x0A]"

definition smashed :: "bytemem \<Rightarrow> bytemem" where
  "smashed m = fold (\<lambda>(i, b) m. m(disk_addr 1 + of_nat i := b)) (enumerate 0 (smash_str @ [0])) m"

lemma smashed_string: "cstr (smashed m) (disk_addr 1) smash_str"
  by (simp add: smashed_def enumerate_eq_zip disk_addr_def upt_rec)

lemma smashed_other: "page_of a \<noteq> disk_addr 1 \<Longrightarrow> smashed m a = m a"
proof -
  assume a: "page_of a \<noteq> disk_addr 1"
  have "a \<noteq> disk_addr 1 + of_nat i" if "i < 7" for i
    using page_in_block [of 1 i] a that by auto
  then have "\<forall>i<7. a \<noteq> disk_addr 1 + of_nat i" by blast
  then show ?thesis by (simp add: smashed_def enumerate_eq_zip upt_rec All_less_Suc numeral_eq_Suc)
qed

lemma must_read_fetch:
  assumes "super s = 0" "bitmap s = 0" "b < 0xF0000" "\<not> block_is_mapped (of_nat b) s" "\<And>i. \<not> oom s i"
  shows "must_read (of_nat b) s = Some (fetch b s)"
  using read_block_fetch [OF assms] by (simp add: must_read_def)

text \<open>Writing block 1, dropping it and reading it again leaves its page as it was.\<close>

lemma rewrite_block:
  assumes "super s = 0" "bitmap s = 0" "block_is_mapped 1 s" "\<And>i. \<not> oom s i"
  shows "\<exists>t u. write_block 1 s = Some t \<and> block_is_mapped 1 t \<and> must_read 1 (mem_unmap (disk_addr 1) t) = Some u \<and>
    mem u = mem s \<and> pages u = (pages s)(disk_addr 1 \<mapsto> PTE_D) \<and> super u = 0 \<and> bitmap u = 0 \<and> oom u = oom s \<and>
    disk u = write_page 1 (\<lambda>k. mem s (disk_addr 1 + of_nat k)) (disk s)"
proof -
  define t where "t = s\<lparr>disk := write_page 1 (\<lambda>k. mem s (disk_addr 1 + of_nat k)) (disk s)\<rparr>"
  let ?v = "mem_unmap (disk_addr 1) t"
  have w: "write_block 1 s = Some t" using write_block_page [of 1 s] assms(3) by (simp add: t_def)
  have bt: "block_is_mapped 1 t" using assms(3) by (simp add: t_def block_is_mapped_def va_is_mapped_def)
  have v: "super ?v = 0" "bitmap ?v = 0" "\<not> block_is_mapped (of_nat 1) ?v" "\<And>i. \<not> oom ?v i"
    using assms by (simp_all add: t_def mem_unmap_def block_is_mapped_def va_is_mapped_def)
  note f = fetch_simps [of 1 ?v, OF _ v(4)]
  have r: "must_read 1 ?v = Some (fetch 1 ?v)" using must_read_fetch [OF v(1,2) _ v(3,4)] by simp
  have "put_page 1 (disk_block (disk t) 1) (mem s) = put_page 1 (\<lambda>k. mem s (disk_addr (of_nat 1) + of_nat k)) (mem s)"
    by (rule put_page_cong) (simp_all add: t_def disk_block_write_page)
  then have "mem (fetch 1 ?v) = mem s" using f(1) put_page_same [of 1 "mem s"] by (simp add: mem_unmap_def t_def)
  moreover have "pages (fetch 1 ?v) = (pages s)(disk_addr 1 \<mapsto> PTE_D)"
    using f(2) page_disk_addr [of 1] by (simp add: mem_unmap_def t_def)
  ultimately show ?thesis using w bt r f v by (intro exI [of _ t] exI [of _ "fetch 1 ?v"]) (simp add: mem_unmap_def t_def)
qed

lemma check_write_block_ok:
  assumes "mounting {1} s0 s" "bitmap s = 0" "\<And>i. \<not> oom s0 i"
  shows "\<exists>s'. check_write_block s = Some s' \<and> mounting {0, 1} s0 s' \<and> super s' = disk_addr 1 \<and> bitmap s' = 0"
proof -
  have o: "\<And>i. \<not> oom (s\<lparr>super := 0\<rparr>) i" using assms by (simp add: mounting_def)
  have nm: "\<not> block_is_mapped (of_nat 0) (s\<lparr>super := 0\<rparr>)"
    using mounting_mapped [OF assms(1), of 0] by (simp add: block_is_mapped_def va_is_mapped_def)
  define s1 where "s1 = fetch 0 (s\<lparr>super := 0\<rparr>)"
  note f = fetch_simps [of 0, OF _ o, folded s1_def]
  have r: "must_read 0 (s\<lparr>super := 0\<rparr>) = Some s1"
    using must_read_fetch [OF _ _ _ nm o] assms(2) by (simp add: s1_def)
  have m1: "mounting {0, 1} s0 s1"
    unfolding s1_def by (rule mounting_fetch) (use assms in simp_all)
  let ?sb = "disk_block (disk s0) 1"
  have "memcpy (disk_addr 0) (disk_addr 1) BLOCK_SIZE (mem s1) =
      Some (disk_addr 0, put_page 0 (\<lambda>k. mem s1 (disk_addr 1 + of_nat k)) (mem s1))"
    using memcpy_page [of 0 1 "mem s1"] by simp
  also have "put_page 0 (\<lambda>k. mem s1 (disk_addr 1 + of_nat k)) (mem s1) = put_page 0 ?sb (mem s1)"
    by (rule put_page_cong) (use m1 in \<open>simp_all add: mounting_def\<close>)
  finally have c1: "memcpy (disk_addr 0) (disk_addr 1) BLOCK_SIZE (mem s1) = Some (disk_addr 0, put_page 0 ?sb (mem s1))" .
  define m where "m = smashed (put_page 0 ?sb (mem s1))"
  let ?s2 = "s1\<lparr>mem := m\<rparr>"
  have "block_is_mapped 1 ?s2" using mounting_mapped [OF m1, of 1] by (simp add: block_is_mapped_def va_is_mapped_def)
  then obtain t u where tu: "write_block 1 ?s2 = Some t" "block_is_mapped 1 t" "must_read 1 (mem_unmap (disk_addr 1) t) = Some u"
    "mem u = m" "pages u = (pages s1)(disk_addr 1 \<mapsto> PTE_D)" "super u = 0" "bitmap u = 0" "oom u = oom s0"
    "disk u = write_page 1 (\<lambda>k. m (disk_addr 1 + of_nat k)) (disk s0)"
    using rewrite_block [of ?s2] f assms o by (auto simp: mounting_def)
  have restore: "memcpy (disk_addr 1) (disk_addr 0) BLOCK_SIZE m = Some (disk_addr 1, put_page 1 ?sb m)"
  proof -
    have "m (disk_addr (of_nat 0) + of_nat k) = ?sb k" if "k < 4096" for k
      using that page_in_block [of 0 k] disk_addr_inject [of 0 1] put_page_at [of 0 0 k] by (simp add: m_def smashed_other)
    then have "put_page 1 (\<lambda>k. m (disk_addr 0 + of_nat k)) m = put_page 1 ?sb m"
      by (intro put_page_cong) simp_all
    with memcpy_page [of 1 0 m] show ?thesis by simp
  qed
  define s4 where "s4 = u\<lparr>mem := put_page 1 ?sb m, disk := disk s0\<rparr>"
  have w4: "write_block 1 (u\<lparr>mem := put_page 1 ?sb m\<rparr>) = Some s4"
  proof -
    have "block_is_mapped (of_nat 1) (u\<lparr>mem := put_page 1 ?sb m\<rparr>)"
      using tu(5) page_disk_addr [of 1] by (simp add: block_is_mapped_def va_is_mapped_def)
    moreover have "write_page 1 (\<lambda>k. put_page 1 ?sb m (disk_addr (of_nat 1) + of_nat k)) (disk u) = write_page 1 ?sb (disk u)"
      by (rule write_page_cong) (use put_page_at [of 1 1] in simp)
    ultimately show ?thesis
      using write_block_page [of 1 "u\<lparr>mem := put_page 1 ?sb m\<rparr>"] by (simp add: s4_def tu(9) write_page_same)
  qed
  have "check_write_block s = Some (s4\<lparr>super := disk_addr 1\<rparr>)"
    using r c1 tu(1-3) restore w4 smashed_string [of "put_page 0 ?sb (mem s1)"]
    by (simp add: check_write_block_def tu(4) m_def smashed_def)
  moreover have "mounting {0, 1} s0 s4"
  proof -
    have "block_is_mapped (of_nat c) s4 \<longleftrightarrow> c \<in> {0, 1}" if "c < 0xF0000" for c
    proof -
      have "pages s4 = (pages s1)(disk_addr (of_nat 1) \<mapsto> PTE_D)" by (simp add: s4_def tu(5))
      from mapped_upd [OF _ that this] mounting_mapped [OF m1 that] that show ?thesis
        by (auto simp: block_is_mapped_def va_is_mapped_def page_disk_addr)
    qed
    moreover have "mem s4 (disk_addr 1 + of_nat k) = ?sb k" if "k < 4096" for k
      using put_page_at [of 1 1 k ?sb m] that by (simp add: s4_def)
    ultimately show ?thesis using tu(8) by (simp add: mounting_def s4_def)
  qed
  ultimately show ?thesis by (auto simp: s4_def tu(7))
qed

lemma read_block_early:
  assumes "super s = disk_addr 1" "bitmap s = 0" "rd32 (disk_addr 1 + 4) s = Some (of_nat n)" "b < n" "n \<le> 0x40000"
    and "\<not> block_is_mapped (of_nat b) s" "\<And>i. \<not> oom s i"
  shows "read_block (of_nat b) s = Some (Inr (disk_addr (of_nat b), True), fetch b s)"
proof -
  have "disk_addr 1 \<noteq> 0" using unat_disk_addr [of 1] by (auto simp: word_unat_eq_iff)
  moreover have "\<not> of_nat n \<le> (of_nat b :: u32)" using assms(4,5) by (simp add: word_le_nat_alt unat_of_nat)
  ultimately show ?thesis
    using assms by (simp add: read_block_def and_then_def mem_alloc_def fetch_def Let_def)
qed

lemma read_bitmap_blocks:
  assumes "image_ok n (disk s0)" "mounting {0, 1} s0 s" "super s = disk_addr 1" "bitmap s = 0" "\<And>i. \<not> oom s0 i"
  shows "\<exists>s'. foldM (\<lambda>i s. do { (_, s) \<leftarrow> read_block (of_nat i + 2) s; Some s }) [0..<n div 32768 + 1] s = Some s' \<and>
    mounting {..n div 32768 + 2} s0 s' \<and> super s' = disk_addr 1 \<and> bitmap s' = 0"
proof -
  have n: "3 \<le> n" "n \<le> 0x40000" using assms(1) by (simp_all add: image_ok_def)
  have "\<exists>s'. foldM (\<lambda>i s. do { (_, s) \<leftarrow> read_block (of_nat i + 2) s; Some s }) [0..<n div 32768 + 1] s = Some s' \<and>
      mounting {..<length [0..<n div 32768 + 1] + 2} s0 s' \<and> super s' = disk_addr 1 \<and> bitmap s' = 0"
  proof (rule foldM_invariant)
    have "{..<length ([]::nat list) + 2} = {0, 1}" by auto
    with assms(2-4) show "mounting {..<length ([]::nat list) + 2} s0 s \<and> super s = disk_addr 1 \<and> bitmap s = 0" by simp
  next
    fix ys x zs t
    assume xs: "[0..<n div 32768 + 1] = ys @ x # zs"
      and t: "mounting {..<length ys + 2} s0 t \<and> super t = disk_addr 1 \<and> bitmap t = 0"
    have len: "length ys \<le> n div 32768" using arg_cong [OF xs, of length] by simp
    have x: "x = length ys" using arg_cong [OF xs, of "\<lambda>l. l ! length ys"] len by (simp del: upt_Suc)
    have b: "x + 2 < n" using n len x by linarith
    have rd: "rd32 (disk_addr 1 + 4) t = Some (of_nat n)"
      using mounting_rd32 [of _ s0 t 1 4] t assms(1) by (auto simp: image_ok_def)
    have "\<not> block_is_mapped (of_nat (x + 2)) t" "\<And>i. \<not> oom t i"
      using t mounting_mapped [of _ s0 t "x + 2"] b n x assms(5) by (auto simp: mounting_def)
    note r = read_block_early [OF _ _ rd b n(2) this]
    have "insert (x + 2) {..<length ys + 2} = {..<length (ys @ [x]) + 2}" using x by auto
    with t b n x have "mounting {..<length (ys @ [x]) + 2} s0 (fetch (x + 2) t)"
      using mounting_fetch [of "{..<length ys + 2}" s0 t "x + 2", OF _ _ assms(5)] by (simp add: subset_eq)
    moreover have "super (fetch (x + 2) t) = disk_addr 1" "bitmap (fetch (x + 2) t) = 0"
      using fetch_simps [of "x + 2" t] t assms(5) b n by (simp_all add: mounting_def)
    ultimately show "\<exists>s'. do { (_, s) \<leftarrow> read_block (of_nat x + 2) t; Some s } = Some s' \<and>
        mounting {..<length (ys @ [x]) + 2} s0 s' \<and> super s' = disk_addr 1 \<and> bitmap s' = 0"
      using r t by (simp add: add.commute)
  qed
  moreover have "{..<length [0..<n div 32768 + 1] + 2} = {..n div 32768 + 2}" by auto
  ultimately show ?thesis by simp
qed

lemma mounting_ready:
  assumes "image_ok n (disk s0)" "mounting {..n div 32768 + 2} s0 s" "super s = disk_addr 1" "bitmap s = disk_addr 2"
  shows "fs_ready n s" and "b < n \<Longrightarrow> blk_free s b \<longleftrightarrow> bit (ld32 (disk_mem (disk s0)) (bitmap_word b)) (b mod 32)"
proof -
  have n: "3 \<le> n" "n \<le> 0x40000" using assms(1) by (simp_all add: image_ok_def)
  have "ld32 (mem s) (disk_addr 1 + 4) = of_nat n"
    using mounting_ld32 [OF assms(2), of 1 4] assms(1) by (simp add: image_ok_def)
  moreover have "block_is_mapped (of_nat c) s" if "c \<le> n div 32768 + 2" for c
    using that n mounting_mapped [OF assms(2), of c] by auto
  ultimately show "fs_ready n s" using assms(3,4) n by (simp add: fs_ready_def)
  assume b: "b < n"
  let ?c = "b div 32768 + 2" and ?k = "4 * (b div 32 mod 1024)"
  have c: "?c \<le> n div 32768 + 2" using b by (simp add: div_le_mono)
  have "b div 32768 = b div 32 div 1024" by (simp add: div_mult2_eq [symmetric])
  then have "4 * (b div 32) = 4096 * (b div 32768) + ?k" using div_mult_mod_eq [of "b div 32" 1024] by linarith
  moreover have k: "?k + 4 \<le> 4096" by (simp add: Suc_le_eq)
  moreover have "b div 32768 < 9" using b n by linarith
  ultimately have "bitmap_word b = disk_addr (of_nat ?c) + of_nat ?k"
    using b n unat_in_block [of ?c ?k] unat_bitmap_word [of b] by (simp add: word_unat_eq_iff)
  with mounting_ld32 [OF assms(2) _ _ _ k, of ?c] c n show "blk_free s b \<longleftrightarrow> bit (ld32 (disk_mem (disk s0)) (bitmap_word b)) (b mod 32)"
    by (simp add: blk_free_def)
qed

lemma read_bitmap_ok:
  assumes "image_ok n (disk s0)" "mounting {0, 1} s0 s" "super s = disk_addr 1" "bitmap s = 0" "\<And>i. \<not> oom s0 i"
  shows "\<exists>s'. read_bitmap s = Some s' \<and> mounting {..n div 32768 + 2} s0 s' \<and> super s' = disk_addr 1 \<and> bitmap s' = disk_addr 2"
proof -
  have n: "3 \<le> n" "n \<le> 0x40000" using assms(1) by (simp_all add: image_ok_def)
  obtain t where t: "foldM (\<lambda>i s. do { (_, s) \<leftarrow> read_block (of_nat i + 2) s; Some s }) [0..<n div 32768 + 1] s = Some t"
    "mounting {..n div 32768 + 2} s0 t" "super t = disk_addr 1"
    using read_bitmap_blocks [OF assms] by blast
  let ?t = "t\<lparr>bitmap := disk_addr 2\<rparr>"
  have m: "mounting {..n div 32768 + 2} s0 ?t" using t by simp
  note r = mounting_ready [OF assms(1) m]
  have used: "block_is_free (of_nat b) ?t = Some False" if "b \<le> n div 32768 + 2" for b
  proof -
    have b: "b < n" using that n by linarith
    then show ?thesis using block_is_free_eq [OF r(1) b] r(2) [of b] that assms(1) t(3) by (simp add: image_ok_def)
  qed
  have chk: "foldM (\<lambda>i s. do { f \<leftarrow> block_is_free (of_nat i + 2) s; if f then None else Some s }) [0..<n div 32768 + 1] ?t = Some ?t"
  proof -
    have "\<exists>s'. foldM (\<lambda>i s. do { f \<leftarrow> block_is_free (of_nat i + 2) s; if f then None else Some s }) [0..<n div 32768 + 1] ?t = Some s' \<and> s' = ?t"
    proof (rule foldM_invariant)
      fix ys x zs u assume xs: "[0..<n div 32768 + 1] = ys @ x # zs" and u: "u = ?t"
      have "x \<in> set [0..<n div 32768 + 1]" unfolding xs by simp
      then have "x \<le> n div 32768" by auto
      with u show "\<exists>s'. do { f \<leftarrow> block_is_free (of_nat x + 2) u; if f then None else Some u } = Some s' \<and> s' = ?t"
        using used [of "x + 2"] by (simp add: add.commute)
    qed simp
    then show ?thesis by simp
  qed
  have rd: "rd32 (disk_addr 1 + 4) s = Some (of_nat n)"
    using mounting_rd32 [OF assms(2), of 1 4] assms(1) by (simp add: image_ok_def)
  have nb: "unat ((of_nat n :: u32) div BLOCK_SIZE_BIT + 1) = n div 32768 + 1"
    using n by (subst unat_add_lem [THEN iffD1]) (simp_all add: unat_div_distrib unat_of_nat)
  have "read_bitmap s = Some ?t"
    unfolding read_bitmap_def assms(3) rd Option.bind.bind_lunit Let_def nb t(1)
    using used [of 0] used [of 1] chk by simp
  with m t show ?thesis by simp
qed

text \<open>Starting the server on a disk image with the right magic number, a size that fits, and its reserved
  and bitmap blocks marked as used: no check panics, the destructive test of the super block leaves the
  disk as it was, and the free blocks are those whose bit is set on the disk.\<close>

lemma fs_init_ready:
  assumes "image_ok n (disk s)" "super s = 0" "bitmap s = 0" "\<And>i. \<not> oom s i"
    and "\<And>b. b < 0xF0000 \<Longrightarrow> \<not> block_is_mapped (of_nat b) s"
  shows "\<exists>s'. fs_init s = Some s' \<and> fs_ready n s' \<and> disk s' = disk s \<and>
    (\<forall>b<n. blk_free s' b \<longleftrightarrow> bit (ld32 (disk_mem (disk s)) (bitmap_word b)) (b mod 32)) \<and>
    (\<forall>b<n. block_is_mapped (of_nat b) s' \<longleftrightarrow> b \<le> n div 32768 + 2)"
proof -
  have "mounting {} s s" using assms(5) by (simp add: mounting_def)
  then obtain s1 where 1: "read_super s = Some s1" "mounting {1} s s1" "bitmap s1 = 0"
    using read_super_ok [OF assms(1-4)] by blast
  then obtain s2 where 2: "check_write_block s1 = Some s2" "mounting {0, 1} s s2" "super s2 = disk_addr 1" "bitmap s2 = 0"
    using check_write_block_ok [OF _ _ assms(4)] by blast
  then obtain s3 where 3: "read_bitmap s2 = Some s3" "mounting {..n div 32768 + 2} s s3"
      "super s3 = disk_addr 1" "bitmap s3 = disk_addr 2"
    using read_bitmap_ok [OF assms(1) _ _ _ assms(4)] by blast
  have "n \<le> 0x40000" using assms(1) by (simp add: image_ok_def)
  with 3 have "\<forall>b<n. block_is_mapped (of_nat b) s3 \<longleftrightarrow> b \<le> n div 32768 + 2"
    using mounting_mapped [of _ s s3] by auto
  moreover have "fs_init s = Some s3" using 1 2 3 by (simp add: fs_init_def)
  moreover have "disk s3 = disk s" using 3(2) by (simp add: mounting_def)
  ultimately show ?thesis using mounting_ready [OF assms(1) 3(2-4)] by blast
qed

text \<open>The smallest disk: the boot block, the super block and one bitmap block with no block free.\<close>

definition demo_disk :: "u32 \<Rightarrow> nat \<Rightarrow> u8" where
  "demo_disk = (\<lambda>_ _. 0)(8 := (\<lambda>_. 0)(0 := 0x97, 1 := 0x60, 2 := 0x28, 3 := 0x68, 4 := 3))"

definition demo_boot :: fss where
  "demo_boot = demo_fs\<lparr>mem := (\<lambda>_. 0), pages := Map.empty, disk := demo_disk, super := 0, bitmap := 0\<rparr>"

end
