(* ===== verification/MOS_Fsformat.thy ===== *)
theory MOS_Fsformat
  imports MOS_Mount
begin

text \<open>
  The tool that builds the disk image: \<^verbatim>\<open>tools/fsformat.c\<close>.

  The state is the global data of the tool: the data and the type of each block of \<^verbatim>\<open>disk\<close>, the super block
  and the next block to use. A \<^verbatim>\<open>struct File *\<close> is the root node in the super block or a slot of a block.
  The host's files are the parameter of \<^verbatim>\<open>main\<close>: what \<^verbatim>\<open>stat\<close>, \<^verbatim>\<open>opendir\<close>, \<^verbatim>\<open>readdir\<close>, \<^verbatim>\<open>open\<close> and \<^verbatim>\<open>read\<close> give
  for each argument; \<^verbatim>\<open>read\<close> returns whole blocks up to the last one, as it does for regular files.

  \<open>None\<close> is a failed assertion or an access outside an array, \<open>Inl\<close> the code the tool exits with.
\<close>

section \<open>State\<close>

abbreviation NBLOCK :: nat where "NBLOCK \<equiv> 1024"
abbreviation BLOCK_FREE :: nat where "BLOCK_FREE \<equiv> 0"
abbreviation BLOCK_BOOT :: nat where "BLOCK_BOOT \<equiv> 1"
abbreviation BLOCK_BMAP :: nat where "BLOCK_BMAP \<equiv> 2"
abbreviation BLOCK_SUPER :: nat where "BLOCK_SUPER \<equiv> 3"
abbreviation BLOCK_DATA :: nat where "BLOCK_DATA \<equiv> 4"
abbreviation BLOCK_FILE :: nat where "BLOCK_FILE \<equiv> 5"
abbreviation BLOCK_INDEX :: nat where "BLOCK_INDEX \<equiv> 6"
abbreviation FTYPE_REG :: u32 where "FTYPE_REG \<equiv> 0"

record fmt =
  img :: "nat \<Rightarrow> bytemem"
  types :: "nat \<Rightarrow> nat"
  nbitblock :: nat
  nextbno :: nat
  sup :: bytemem

datatype fptr = RootFile | Node nat nat

text \<open>The fields of a node, by their offset.\<close>

definition file_ld32 :: "fptr \<Rightarrow> nat \<Rightarrow> fmt \<Rightarrow> u32" where
  "file_ld32 p k s = (case p of RootFile \<Rightarrow> ld32 (sup s) (of_nat (8 + k)) | Node b i \<Rightarrow> ld32 (img s b) (of_nat (256 * i + k)))"

definition file_st32 :: "fptr \<Rightarrow> nat \<Rightarrow> u32 \<Rightarrow> fmt \<Rightarrow> fmt" where
  "file_st32 p k w s = (case p of RootFile \<Rightarrow> s\<lparr>sup := st32 (of_nat (8 + k)) w (sup s)\<rparr>
     | Node b i \<Rightarrow> s\<lparr>img := (img s)(b := st32 (of_nat (256 * i + k)) w (img s b))\<rparr>)"

abbreviation F_SIZE :: nat where "F_SIZE \<equiv> 128"
abbreviation F_TYPE :: nat where "F_TYPE \<equiv> 132"
abbreviation F_DIRECT :: "nat \<Rightarrow> nat" where "F_DIRECT i \<equiv> 136 + 4 * i"
abbreviation F_INDIRECT :: nat where "F_INDIRECT \<equiv> 176"

text \<open>Bytes stored one after the other from an offset on.\<close>

definition store_bytes :: "nat \<Rightarrow> u8 list \<Rightarrow> bytemem \<Rightarrow> bytemem" where
  "store_bytes k bs m = fold (\<lambda>(i, b) m. m(of_nat (k + i) := b)) (enumerate 0 bs) m"

section \<open>Byte order\<close>

definition reverse :: "u32 \<Rightarrow> bytemem \<Rightarrow> bytemem" where
  "reverse p m = (let y = ld32 m p in
     m(p + 3 := ucast (y AND 0xFF), p + 2 := ucast (drop_bit 8 y AND 0xFF),
       p + 1 := ucast (drop_bit 16 y AND 0xFF), p := ucast (drop_bit 24 y AND 0xFF)))"

text \<open>The number fields of a node at \<open>f\<close>.\<close>

definition reverse_node :: "u32 \<Rightarrow> bytemem \<Rightarrow> bytemem" where
  "reverse_node f m = reverse (f_indirect_of f)
     (fold (\<lambda>i. reverse (f_direct_of f (of_nat i))) [0..<10] (reverse (f_type_of f) (reverse (f_size_of f) m)))"

primrec reverse_nodes :: "nat \<Rightarrow> u32 \<Rightarrow> bytemem \<Rightarrow> bytemem" where
  "reverse_nodes 0 f m = m"
| "reverse_nodes (Suc n) f m = (if m f = 0 then m else reverse_nodes n (f + FILE_STRUCT_SIZE) (reverse_node f m))"

definition reverse_block :: "nat \<Rightarrow> bytemem \<Rightarrow> bytemem" where
  "reverse_block ty m =
    (if ty = BLOCK_SUPER then reverse_node 8 (reverse 4 (reverse 0 m))
     else if ty = BLOCK_FILE then reverse_nodes FILE2BLK 0 m
     else if ty = BLOCK_INDEX \<or> ty = BLOCK_BMAP then fold (\<lambda>i. reverse (of_nat (4 * i))) [0..<1024] m
     else m)"

section \<open>Blocks\<close>

definition init_disk :: "fmt \<Rightarrow> fmt" where
  "init_disk s =
    (let s = s\<lparr>types := (types s)(0 := BLOCK_BOOT), nbitblock := (NBLOCK + 32768 - 1) div 32768\<rparr>;
         s = s\<lparr>nextbno := 2 + nbitblock s\<rparr>;
         s = fold (\<lambda>i s. s\<lparr>types := (types s)(2 + i := BLOCK_BMAP)\<rparr>) [0..<nbitblock s] s;
         s = fold (\<lambda>i s. s\<lparr>img := (img s)(2 + i := filled 0 0xFF 4096 (img s (2 + i)))\<rparr>) [0..<nbitblock s] s;
         s = (if NBLOCK \<noteq> nbitblock s * 32768 then
                let diff = NBLOCK mod 32768 div 8; b = 2 + (nbitblock s - 1) in
                s\<lparr>img := (img s)(b := filled (of_nat diff) 0 (4096 - diff) (img s b))\<rparr>
              else s)
     in s\<lparr>types := (types s)(1 := BLOCK_SUPER),
          sup := store_bytes 8 [0x2F, 0] (st32 (8 + 132) FTYPE_DIR (st32 4 (of_nat NBLOCK) (st32 0 FS_MAGIC (sup s))))\<rparr>)"

definition next_block :: "nat \<Rightarrow> fmt \<Rightarrow> (nat \<times> fmt) option" where
  "next_block ty s = (if nextbno s < NBLOCK then
     Some (nextbno s, s\<lparr>types := (types s)(nextbno s := ty), nextbno := nextbno s + 1\<rparr>) else None)"

definition clear_used :: "nat \<Rightarrow> fmt \<Rightarrow> fmt" where
  "clear_used i s = (let b = 2 + i div 32768; k = of_nat (4 * (i mod 32768 div 32)) in
     s\<lparr>img := (img s)(b := st32 k (ld32 (img s b) k AND NOT (push_bit (i mod 32) 1)) (img s b))\<rparr>)"

definition flush_bitmap :: "fmt \<Rightarrow> fmt" where
  "flush_bitmap s = fold clear_used [0..<nextbno s] s"

text \<open>The blocks as they are written to the file; \<open>rv\<close> is \<^verbatim>\<open>CONFIG_REVERSE_ENDIAN\<close>.\<close>

definition finish_fs :: "bool \<Rightarrow> fmt \<Rightarrow> nat \<Rightarrow> bytemem" where
  "finish_fs rv s =
    (let d = (img s)(1 := (\<lambda>a. if unat a < 264 then sup s a else img s 1 a))
     in (\<lambda>i. if rv then reverse_block (types s i) (d i) else d i))"

section \<open>Files\<close>

definition save_block_link :: "fptr \<Rightarrow> nat \<Rightarrow> nat \<Rightarrow> fmt \<Rightarrow> fmt option" where
  "save_block_link f nblk bno s =
    (if \<not> nblk < 1024 then None
     else if nblk < 10 then Some (file_st32 f (F_DIRECT nblk) (of_nat bno) s)
     else do {
       s \<leftarrow> (if file_ld32 f F_INDIRECT s = 0 then do {
               (b, s) \<leftarrow> next_block BLOCK_INDEX s;
               Some (file_st32 f F_INDIRECT (of_nat b) s)
             } else Some s);
       let ind = unat (file_ld32 f F_INDIRECT s);
       if ind < NBLOCK then Some (s\<lparr>img := (img s)(ind := st32 (of_nat (4 * nblk)) (of_nat bno) (img s ind))\<rparr>) else None
     })"

definition make_link_block :: "fptr \<Rightarrow> nat \<Rightarrow> fmt \<Rightarrow> (nat \<times> fmt) option" where
  "make_link_block dirf nblk s = do {
     (bno, s) \<leftarrow> next_block BLOCK_FILE s;
     s \<leftarrow> save_block_link dirf nblk bno s;
     Some (bno, file_st32 dirf F_SIZE (file_ld32 dirf F_SIZE s + BLOCK_SIZE) s)
   }"

text \<open>The number of the \<open>i\<close>-th block of a node.\<close>

definition block_link :: "fptr \<Rightarrow> nat \<Rightarrow> fmt \<Rightarrow> nat option" where
  "block_link f i s = (if i < 10 then Some (unat (file_ld32 f (F_DIRECT i) s))
     else let ind = unat (file_ld32 f F_INDIRECT s) in
       if ind < NBLOCK \<and> i < 1024 then Some (unat (ld32 (img s ind) (of_nat (4 * i)))) else None)"

text \<open>The search for an unused node in the blocks \<open>is\<close> of a directory.\<close>

primrec find_slot :: "nat list \<Rightarrow> fptr \<Rightarrow> fmt \<Rightarrow> fptr option option" where
  "find_slot [] dirf s = Some None"
| "find_slot (i # is) dirf s = do {
     bno \<leftarrow> block_link dirf i s;
     if \<not> bno < NBLOCK then None
     else case find (\<lambda>j. img s bno (of_nat (256 * j)) = 0) [0..<FILE2BLK] of
       Some j \<Rightarrow> Some (Some (Node bno j))
     | None \<Rightarrow> find_slot is dirf s
   }"

definition create_file :: "fptr \<Rightarrow> fmt \<Rightarrow> (fptr \<times> fmt) option" where
  "create_file dirf s = do {
     let nblk = unat (file_ld32 dirf F_SIZE s) div 4096;
     r \<leftarrow> find_slot [0..<nblk] dirf s;
     case r of
       Some f \<Rightarrow> Some (f, s)
     | None \<Rightarrow> do { (bno, s) \<leftarrow> make_link_block dirf nblk s; Some (Node bno 0, s) }
   }"

text \<open>Storing a string at the start of a node; past the end of the block it would leave the array.\<close>

definition store_name :: "fptr \<Rightarrow> u8 list \<Rightarrow> fmt \<Rightarrow> fmt option" where
  "store_name f bs s = (case f of RootFile \<Rightarrow> None
     | Node b i \<Rightarrow> if 256 * i + length bs \<le> 4096
         then Some (s\<lparr>img := (img s)(b := store_bytes (256 * i) bs (img s b))\<rparr>) else None)"

text \<open>The loop of \<^verbatim>\<open>write_file\<close>, on what is left to read.\<close>

function write_chunks :: "fptr \<Rightarrow> nat \<Rightarrow> u8 list \<Rightarrow> fmt \<Rightarrow> fmt option" where
  "write_chunks f iblk data s =
    (if data = [] then Some s
     else if \<not> nextbno s < NBLOCK then None
     else do {
       let s = s\<lparr>img := (img s)(nextbno s := store_bytes 0 (take 4096 data) (img s (nextbno s)))\<rparr>;
       (bno, s) \<leftarrow> next_block BLOCK_DATA s;
       s \<leftarrow> save_block_link f iblk bno s;
       write_chunks f (iblk + 1) (drop 4096 data) s
     })"
  by pat_completeness auto
termination by (relation "measure (\<lambda>(_, _, data, _). length data)") auto

declare write_chunks.simps [simp del]

text \<open>What follows the last slash.\<close>

definition after_slash :: "u8 list \<Rightarrow> u8 list" where
  "after_slash path = rev (takeWhile (\<lambda>c. c \<noteq> 0x2F) (rev path))"

text \<open>\<open>data\<close> is the content of the host's file, or \<open>None\<close> when it cannot be opened: then \<^verbatim>\<open>lseek\<close> gives \<open>-1\<close>.\<close>

definition write_file :: "fptr \<Rightarrow> u8 list \<Rightarrow> u8 list option \<Rightarrow> fmt \<Rightarrow> fmt option" where
  "write_file dirf path data s = do {
     (target, s) \<leftarrow> create_file dirf s;
     s \<leftarrow> store_name target (after_slash path @ [0]) s;
     let s = file_st32 target F_SIZE (case data of None \<Rightarrow> - 1 | Some d \<Rightarrow> of_nat (length d)) s;
     let s = file_st32 target F_TYPE FTYPE_REG s;
     write_chunks target 0 (case data of None \<Rightarrow> [] | Some d \<Rightarrow> d) s
   }"

section \<open>Directories\<close>

text \<open>The host's files: a directory with its entries in the order of \<^verbatim>\<open>readdir\<close>, one that cannot be opened,
  a regular file, and anything else, which is read like a file.\<close>

datatype host = Dir "(u8 list \<times> host) list" | Sealed | Reg "u8 list option" | Special "u8 list option"

definition basename :: "u8 list \<Rightarrow> u8 list" where
  "basename path = (if path = [] then [0x2E] else
     let p = rev (dropWhile (\<lambda>c. c = 0x2F) (rev path)) in if p = [] then [0x2F] else after_slash p)"

text \<open>\<^verbatim>\<open>strncpy\<close> with \<open>MAXNAMELEN - 1\<close> and the check of the last byte of the name.\<close>

definition name_field :: "u8 list \<Rightarrow> u8 list" where
  "name_field bs = take 127 bs @ replicate (127 - length bs) 0"

function (sequential) write_directory :: "fptr \<Rightarrow> u8 list \<Rightarrow> (u8 list \<times> host) list \<Rightarrow> fmt \<Rightarrow> (int + fmt) option"
  and write_entry :: "fptr \<Rightarrow> u8 list \<Rightarrow> host \<Rightarrow> fmt \<Rightarrow> (int + fmt) option"
  and write_entries :: "fptr \<Rightarrow> u8 list \<Rightarrow> (u8 list \<times> host) list \<Rightarrow> fmt \<Rightarrow> (int + fmt) option" where
  "write_directory dirf path es s = do {
     (pdir, s) \<leftarrow> create_file dirf s;
     s \<leftarrow> store_name pdir (name_field (basename path)) s;
     if (case pdir of RootFile \<Rightarrow> sup s (8 + 127) | Node b i \<Rightarrow> img s b (of_nat (256 * i + 127))) \<noteq> 0 then Some (Inl 1)
     else write_entries pdir path es (file_st32 pdir F_TYPE FTYPE_DIR s)
   }"
| "write_entry dirf path h s = (case h of
     Dir es \<Rightarrow> write_directory dirf path es s
   | Sealed \<Rightarrow> Some (Inr s)
   | Reg data \<Rightarrow> map_option Inr (write_file dirf path data s)
   | Special data \<Rightarrow> map_option Inr (write_file dirf path data s))"
| "write_entries pdir path [] s = Some (Inr s)"
| "write_entries pdir path ((name, h) # es) s =
    (if name = [0x2E] \<or> name = [0x2E, 0x2E] then write_entries pdir path es s
     else do {
       r \<leftarrow> write_entry pdir (path @ [0x2F] @ name) h s;
       case r of Inl e \<Rightarrow> Some (Inl e) | Inr s \<Rightarrow> write_entries pdir path es s
     })"
  by pat_completeness auto
termination
  by (relation "measure (\<lambda>x. case x of Inl (_, _, es, _) \<Rightarrow> 3 * size_list (size_prod (\<lambda>_. 0) size) es + 1
       | Inr (Inl (_, _, h, _)) \<Rightarrow> 3 * size h | Inr (Inr (_, _, es, _)) \<Rightarrow> 3 * size_list (size_prod (\<lambda>_. 0) size) es)")
    auto

section \<open>The tool\<close>

definition fmt_zero :: fmt where
  "fmt_zero = \<lparr>img = (\<lambda>_ _. 0), types = (\<lambda>_. 0), nbitblock = 0, nextbno = 0, sup = (\<lambda>_. 0)\<rparr>"

text \<open>The arguments after the name of the image, each with what \<^verbatim>\<open>stat\<close> finds there.\<close>

fun write_args :: "(u8 list \<times> host option) list \<Rightarrow> fmt \<Rightarrow> (int + fmt) option" where
  "write_args [] s = Some (Inr s)"
| "write_args ((name, h) # args) s = do {
     r \<leftarrow> (case h of
         None \<Rightarrow> None
       | Some (Special _) \<Rightarrow> Some (Inl 2)
       | Some h \<Rightarrow> write_entry RootFile name h s);
     case r of Inl e \<Rightarrow> Some (Inl e) | Inr s \<Rightarrow> write_args args s
   }"

definition fsformat_main :: "bool \<Rightarrow> (u8 list \<times> host option) list \<Rightarrow> (int + (nat \<Rightarrow> bytemem)) option" where
  "fsformat_main rv args = do {
     let s = init_disk fmt_zero;
     if args = [] then Some (Inl 1)
     else do {
       r \<leftarrow> write_args args s;
       case r of
         Inl e \<Rightarrow> Some (Inl e)
       | Inr s \<Rightarrow> Some (Inr (finish_fs rv (flush_bitmap s)))
     }
   }"

end
