(* ===== verification/MOS_FsImage.thy ===== *)
theory MOS_FsImage
  imports MOS_Fsformat
begin

text \<open>
  The invariant of the image that \<^verbatim>\<open>tools/fsformat.c\<close> builds: which blocks hold nodes, links and data, that
  no two nodes share a block, and what each operation leaves as it was.
\<close>

section \<open>Words and bytes of a block\<close>

lemma of_nat_diff_far:
  assumes "x < 8192" "y < 8192" "x + d \<le> y"
  shows "d \<le> unat (of_nat y - of_nat x :: u32)" "4096 \<le> unat (of_nat x - of_nat y :: u32) \<or> d = 0 \<and> x = y"
  using assms by (auto simp: unat_sub_if' unat_of_nat32)

lemma aligned_apart: "x < y \<Longrightarrow> x mod 4 = y mod 4 \<Longrightarrow> x + 4 \<le> (y::nat)"
  using dvd_imp_le [of 4 "y - x"] by (simp add: mod_eq_dvd_iff_nat [of x y 4] eq_commute [of "x mod 4"])

lemma ld32_st32_aligned:
  assumes "x < 8192" "y < 8192" "x mod 4 = y mod 4"
  shows "ld32 (st32 (of_nat x) w m) (of_nat y) = (if x = y then w else ld32 m (of_nat y))"
proof (cases x y rule: linorder_cases)
  case less
  then have "x + 4 \<le> y" using assms(3) by (rule aligned_apart)
  with assms less show ?thesis
    using of_nat_diff_far [of x y 4] by (simp add: ld32_st32_other)
next
  case greater
  then have "y + 4 \<le> x" using assms(3) [symmetric] by (rule aligned_apart)
  with assms greater show ?thesis
    using of_nat_diff_far [of y x 4] by (simp add: ld32_st32_other)
qed (simp add: ld32_st32)

lemma st32_byte:
  assumes "x < 8192" "y < 8192"
  shows "st32 (of_nat x) w m (of_nat y) = (if x \<le> y \<and> y < x + 4 then word_byte w (y - x) else m (of_nat y))"
proof (cases "x \<le> y")
  case True
  then have "unat (of_nat y - of_nat x :: u32) = y - x" using assms by (simp add: unat_sub_if' unat_of_nat32)
  with True show ?thesis by (auto simp: st32_at Let_def)
next
  case False
  then show ?thesis using assms of_nat_diff_far [of y x 1] by (auto simp: st32_at Let_def)
qed

lemma store_bytes_Nil [simp]: "store_bytes k [] m = m"
  by (simp add: store_bytes_def)

lemma store_bytes_snoc: "store_bytes k (bs @ [b]) m = (store_bytes k bs m)(of_nat (k + length bs) := b)"
  by (simp add: store_bytes_def enumerate_append_eq)

lemma store_bytes_at:
  assumes "k + length bs \<le> 8192" "y < 8192"
  shows "store_bytes k bs m (of_nat y) = (if k \<le> y \<and> y < k + length bs then bs ! (y - k) else m (of_nat y))"
  using assms(1)
proof (induction bs rule: rev_induct)
  case (snoc b bs)
  have "(of_nat y :: u32) = of_nat (k + length bs) \<longleftrightarrow> y = k + length bs"
    using snoc.prems assms(2) by (simp add: word_unat_eq_iff unat_of_nat32 del: of_nat_add)
  with snoc show ?case
    by (auto simp: store_bytes_snoc nth_append simp del: of_nat_add)
qed auto

section \<open>Nodes\<close>

definition file_byte :: "fptr \<Rightarrow> nat \<Rightarrow> fmt \<Rightarrow> u8" where
  "file_byte p k s = (case p of RootFile \<Rightarrow> sup s (of_nat (8 + k)) | Node b i \<Rightarrow> img s b (of_nat (256 * i + k)))"

definition isnode :: "fmt \<Rightarrow> fptr \<Rightarrow> bool" where
  "isnode s p \<longleftrightarrow> (case p of RootFile \<Rightarrow> True | Node b i \<Rightarrow> types s b = BLOCK_FILE \<and> i < 16)"

text \<open>Places where a node can be.\<close>

definition place :: "fptr \<Rightarrow> bool" where
  "place p \<longleftrightarrow> (case p of RootFile \<Rightarrow> True | Node b i \<Rightarrow> i < 16)"

lemma isnode_place: "isnode s p \<Longrightarrow> place p"
  by (auto simp: isnode_def place_def split: fptr.splits)

lemma file_ld32_byte: "j < 4 \<Longrightarrow> word_byte (file_ld32 p k s) j = file_byte p (k + j) s"
  by (auto simp: file_ld32_def file_byte_def word_byte_ld32 add.assoc split: fptr.splits)

lemma file_ld32_cong: "(\<And>j. j < 4 \<Longrightarrow> file_byte p (k + j) s = file_byte q (k + j) t) \<Longrightarrow> file_ld32 p k s = file_ld32 q k t"
  by (rule word_byte_eqI) (simp add: file_ld32_byte)

lemma file_st32_simps [simp]:
  "types (file_st32 p k w s) = types s" "nextbno (file_st32 p k w s) = nextbno s" "nbitblock (file_st32 p k w s) = nbitblock s"
  by (simp_all add: file_st32_def split: fptr.splits)

lemma file_byte_st32:
  assumes "place p" "place q" "k + 4 \<le> 256" "j < 256"
  shows "file_byte q j (file_st32 p k w s) = (if q = p \<and> k \<le> j \<and> j < k + 4 then word_byte w (j - k) else file_byte q j s)"
proof (cases p)
  case RootFile
  with assms st32_byte [of "8 + k" "8 + j" w "sup s"] show ?thesis
    by (auto simp: file_byte_def file_st32_def split: fptr.splits)
next
  case (Node b i)
  show ?thesis
  proof (cases "\<exists>i'. q = Node b i'")
    case True
    then obtain i' where q: "q = Node b i'" by blast
    have "i' = i" if "256 * i + k \<le> 256 * i' + j" "256 * i' + j < 256 * i + k + 4"
      using that assms(3,4) by (cases i i' rule: linorder_cases) linarith+
    then have c: "256 * i + k \<le> 256 * i' + j \<and> 256 * i' + j < 256 * i + k + 4 \<longleftrightarrow> i' = i \<and> k \<le> j \<and> j < k + 4" by auto
    have "file_byte q j (file_st32 p k w s) = st32 (of_nat (256 * i + k)) w (img s b) (of_nat (256 * i' + j))"
      by (simp add: file_byte_def file_st32_def Node q)
    also have "\<dots> = (if 256 * i + k \<le> 256 * i' + j \<and> 256 * i' + j < 256 * i + k + 4
        then word_byte w (256 * i' + j - (256 * i + k)) else img s b (of_nat (256 * i' + j)))"
      by (rule st32_byte) (use assms Node q in \<open>auto simp: place_def\<close>)
    also have "\<dots> = (if i' = i \<and> k \<le> j \<and> j < k + 4 then word_byte w (j - k) else img s b (of_nat (256 * i' + j)))"
      unfolding c by simp
    finally show ?thesis by (simp add: Node q file_byte_def)
  next
    case False
    then show ?thesis using Node by (cases q) (auto simp: file_byte_def file_st32_def)
  qed
qed

lemma file_ld32_st32:
  assumes "place p" "place q" "k + 4 \<le> 256" "j + 4 \<le> 256" "k mod 4 = j mod 4"
  shows "file_ld32 q j (file_st32 p k w s) = (if q = p \<and> j = k then w else file_ld32 q j s)"
proof (cases "q = p \<and> j = k")
  case True
  then show ?thesis using assms by (intro word_byte_eqI) (simp add: file_ld32_byte file_byte_st32)
next
  case False
  have "\<not> (k \<le> j + i \<and> j + i < k + 4)" if "i < 4" "j \<noteq> k" for i
    using that aligned_apart [of k j] aligned_apart [of j k] assms(5) by (cases k j rule: linorder_cases) auto
  then have "file_byte q (j + i) (file_st32 p k w s) = file_byte q (j + i) s" if "i < 4" for i
    using False that assms(4) by (subst file_byte_st32 [OF assms(1,2,3)]) auto
  then have "file_ld32 q j (file_st32 p k w s) = file_ld32 q j s" by (rule file_ld32_cong)
  with False show ?thesis by auto
qed

lemma img_st32: "img (file_st32 p k w s) c = (case p of RootFile \<Rightarrow> img s c
    | Node b i \<Rightarrow> if c = b then st32 (of_nat (256 * i + k)) w (img s b) else img s c)"
  by (simp add: file_st32_def split: fptr.splits)

lemma sup_st32: "j < 8 \<Longrightarrow> k + 4 \<le> 256 \<Longrightarrow> sup (file_st32 p k w s) (of_nat j) = sup s (of_nat j)"
  using st32_byte [of "8 + k" j w "sup s"] by (auto simp: file_st32_def split: fptr.splits)

section \<open>The invariant\<close>

abbreviation indirect :: "fmt \<Rightarrow> fptr \<Rightarrow> nat" where "indirect s p \<equiv> unat (file_ld32 p F_INDIRECT s)"

text \<open>A node is in use when its name is not empty; directories, their blocks and the slots in them.\<close>

definition live :: "fmt \<Rightarrow> fptr \<Rightarrow> bool" where
  "live s p \<longleftrightarrow> isnode s p \<and> file_byte p 0 s \<noteq> 0"

definition isdir :: "fmt \<Rightarrow> fptr \<Rightarrow> bool" where
  "isdir s p \<longleftrightarrow> live s p \<and> file_ld32 p F_TYPE s = FTYPE_DIR"

definition dblocks :: "fmt \<Rightarrow> fptr \<Rightarrow> nat list" where
  "dblocks s p = map (\<lambda>i. the (block_link p i s)) [0..<unat (file_ld32 p F_SIZE s) div 4096]"

definition slots :: "nat \<Rightarrow> fptr list" where
  "slots b = map (Node b) [0..<16]"

definition dslots :: "fmt \<Rightarrow> fptr \<Rightarrow> fptr list" where
  "dslots s p = concat (map slots (dblocks s p))"

definition node_inv :: "fmt \<Rightarrow> fptr \<Rightarrow> bool" where
  "node_inv s p \<longleftrightarrow> (live s p \<or> (\<forall>k<256. file_byte p k s = 0)) \<and>
     (indirect s p \<noteq> 0 \<longrightarrow> types s (indirect s p) = BLOCK_INDEX)"

definition dir_inv :: "fmt \<Rightarrow> fptr \<Rightarrow> bool" where
  "dir_inv s p \<longleftrightarrow> length (dblocks s p) + 3 \<le> nextbno s \<and>
     (\<forall>i<length (dblocks s p). block_link p i s = Some (dblocks s p ! i) \<and> types s (dblocks s p ! i) = BLOCK_FILE) \<and>
     distinct (dblocks s p) \<and>
     (\<exists>us fs. dslots s p = us @ fs \<and> (\<forall>x\<in>set us. live s x) \<and> (\<forall>x\<in>set fs. \<not> live s x))"

definition fmt_inv :: "fmt \<Rightarrow> bool" where
  "fmt_inv s \<longleftrightarrow> 3 \<le> nextbno s \<and> nextbno s \<le> 1024 \<and> types s 0 = BLOCK_BOOT \<and> types s 2 = BLOCK_BMAP \<and>
     (\<forall>b. types s b \<in> {BLOCK_DATA, BLOCK_FILE, BLOCK_INDEX} \<longrightarrow> 3 \<le> b) \<and>
     img s 0 = (\<lambda>_. 0) \<and> (\<forall>b\<ge>nextbno s. types s b = BLOCK_FREE \<and> img s b = (\<lambda>_. 0)) \<and> isdir s RootFile \<and>
     (\<forall>p. isnode s p \<longrightarrow> node_inv s p) \<and> (\<forall>p. isdir s p \<longrightarrow> dir_inv s p) \<and>
     (\<forall>p q. isnode s p \<longrightarrow> isnode s q \<longrightarrow> p \<noteq> q \<longrightarrow> indirect s p \<noteq> 0 \<longrightarrow> indirect s p \<noteq> indirect s q) \<and>
     (\<forall>p q. isdir s p \<longrightarrow> isdir s q \<longrightarrow> p \<noteq> q \<longrightarrow> set (dblocks s p) \<inter> set (dblocks s q) = {})"

text \<open>What an operation that changes the nodes \<open>P\<close> leaves alone.\<close>

definition frame :: "fptr set \<Rightarrow> fmt \<Rightarrow> fmt \<Rightarrow> bool" where
  "frame P s t \<longleftrightarrow> nextbno s \<le> nextbno t \<and> (\<forall>b. types s b \<noteq> BLOCK_FREE \<longrightarrow> types t b = types s b) \<and>
     (\<forall>k<8. sup t (of_nat k) = sup s (of_nat k)) \<and>
     (\<forall>b. types s b \<notin> {BLOCK_FREE, BLOCK_FILE, BLOCK_INDEX} \<longrightarrow> img t b = img s b) \<and>
     (\<forall>q. isnode s q \<longrightarrow> q \<notin> P \<longrightarrow> (\<forall>k<256. file_byte q k t = file_byte q k s) \<and> (\<forall>i. block_link q i t = block_link q i s))"

lemma frame_refl [simp]: "frame P s s"
  by (simp add: frame_def)

lemma frame_isnode: "frame P s t \<Longrightarrow> isnode s q \<Longrightarrow> isnode t q"
  by (auto simp: frame_def isnode_def split: fptr.splits)

lemma frame_mono: "frame P s t \<Longrightarrow> P \<subseteq> Q \<Longrightarrow> frame Q s t"
  by (auto simp: frame_def)

lemma frame_byte: "frame P s t \<Longrightarrow> isnode s q \<Longrightarrow> q \<notin> P \<Longrightarrow> k < 256 \<Longrightarrow> file_byte q k t = file_byte q k s"
  by (simp add: frame_def)

lemma frame_trans:
  assumes "frame P s t" "frame Q t u" "\<And>q. q \<in> Q \<Longrightarrow> q \<in> P \<or> \<not> isnode s q"
  shows "frame P s u"
proof -
  have "(\<forall>k<256. file_byte q k u = file_byte q k s) \<and> (\<forall>i. block_link q i u = block_link q i s)"
    if "isnode s q" "q \<notin> P" for q
  proof -
    have "isnode t q" "q \<notin> Q" using frame_isnode [OF assms(1)] assms(3) that by auto
    then show ?thesis using assms(1,2) that by (simp add: frame_def)
  qed
  with assms(1,2) show ?thesis by (auto simp: frame_def)
qed

lemma frame_ld32: "frame P s t \<Longrightarrow> isnode s q \<Longrightarrow> q \<notin> P \<Longrightarrow> k + 4 \<le> 256 \<Longrightarrow> file_ld32 q k t = file_ld32 q k s"
  by (rule file_ld32_cong) (simp add: frame_byte)

lemma frame_link: "frame P s t \<Longrightarrow> isnode s q \<Longrightarrow> q \<notin> P \<Longrightarrow> block_link q i t = block_link q i s"
  by (simp add: frame_def)

lemma frame_dblocks: "frame P s t \<Longrightarrow> isnode s q \<Longrightarrow> q \<notin> P \<Longrightarrow> dblocks t q = dblocks s q"
  by (simp add: dblocks_def frame_ld32 frame_link)

lemma frame_dslots: "frame P s t \<Longrightarrow> isnode s q \<Longrightarrow> q \<notin> P \<Longrightarrow> dslots t q = dslots s q"
  by (simp add: dslots_def frame_dblocks)

lemma set_slots: "x \<in> set (slots b) \<longleftrightarrow> (\<exists>j<16. x = Node b j)"
  by (auto simp: slots_def)

lemma set_dslots: "x \<in> set (dslots s p) \<longleftrightarrow> (\<exists>b\<in>set (dblocks s p). \<exists>j<16. x = Node b j)"
  by (simp add: dslots_def set_slots)

lemma dir_inv_block: "dir_inv s p \<Longrightarrow> b \<in> set (dblocks s p) \<Longrightarrow> types s b = BLOCK_FILE"
  by (auto simp: dir_inv_def in_set_conv_nth)

lemma dir_inv_slot: "dir_inv s p \<Longrightarrow> x \<in> set (dslots s p) \<Longrightarrow> isnode s x"
  by (auto simp: set_dslots isnode_def dest: dir_inv_block)

lemma live_isnode: "live s p \<Longrightarrow> isnode s p" and isdir_live: "isdir s p \<Longrightarrow> live s p"
    and isdir_isnode: "isdir s p \<Longrightarrow> isnode s p"
  by (simp_all add: live_def isdir_def)

text \<open>A directory whose blocks are the same keeps its shape when its slots keep their use.\<close>

lemma same_dir_inv:
  assumes "frame P s t" "dir_inv s q" "dblocks t q = dblocks s q" "\<And>x. x \<in> set (dslots s q) \<Longrightarrow> live t x \<longleftrightarrow> live s x"
    and "\<And>i. i < length (dblocks s q) \<Longrightarrow> block_link q i t = block_link q i s"
  shows "dir_inv t q"
proof -
  have d: "dslots t q = dslots s q" by (simp add: dslots_def assms(3))
  have "nextbno s \<le> nextbno t" "\<And>b. types s b = BLOCK_FILE \<Longrightarrow> types t b = BLOCK_FILE" using assms(1) by (simp_all add: frame_def)
  moreover obtain us fs where "dslots s q = us @ fs" "\<forall>x\<in>set us. live s x" "\<forall>x\<in>set fs. \<not> live s x"
    using assms(2) by (auto simp: dir_inv_def)
  then have "\<exists>us fs. dslots t q = us @ fs \<and> (\<forall>x\<in>set us. live t x) \<and> (\<forall>x\<in>set fs. \<not> live t x)"
    using assms(4) unfolding d by (intro exI [of _ us] exI [of _ fs]) auto
  ultimately show ?thesis
    using assms(2,5) unfolding dir_inv_def assms(3) by auto
qed

lemma frame_dir_inv:
  "frame P s t \<Longrightarrow> isnode s q \<Longrightarrow> q \<notin> P \<Longrightarrow> dir_inv s q \<Longrightarrow>
    (\<And>x. x \<in> set (dslots s q) \<Longrightarrow> live t x \<longleftrightarrow> live s x) \<Longrightarrow> dir_inv t q"
  by (rule same_dir_inv) (simp_all add: frame_dblocks frame_link)

section \<open>Steps that keep the invariant\<close>

lemma fmt_inv_node: "fmt_inv s \<Longrightarrow> isnode s p \<Longrightarrow> node_inv s p"
  and fmt_inv_dir: "fmt_inv s \<Longrightarrow> isdir s p \<Longrightarrow> dir_inv s p"
  and fmt_inv_root: "fmt_inv s \<Longrightarrow> isdir s RootFile"
  and fmt_inv_zero: "fmt_inv s \<Longrightarrow> nextbno s \<le> b \<Longrightarrow> types s b = BLOCK_FREE \<and> img s b = (\<lambda>_. 0)"
  and fmt_inv_sole: "fmt_inv s \<Longrightarrow> isnode s p \<Longrightarrow> isnode s q \<Longrightarrow> p \<noteq> q \<Longrightarrow> indirect s p \<noteq> 0 \<Longrightarrow> indirect s p \<noteq> indirect s q"
  and fmt_inv_apart: "fmt_inv s \<Longrightarrow> isdir s p \<Longrightarrow> isdir s q \<Longrightarrow> p \<noteq> q \<Longrightarrow> set (dblocks s p) \<inter> set (dblocks s q) = {}"
  unfolding fmt_inv_def by blast+

lemma fmt_inv_type: "fmt_inv s \<Longrightarrow> types s b \<noteq> BLOCK_FREE \<Longrightarrow> b < nextbno s \<and> b < 1024"
  using fmt_inv_zero [of s b] by (cases "nextbno s \<le> b") (auto simp: fmt_inv_def)

lemma fmt_inv_indirect:
  assumes "fmt_inv s" "isnode s p"
  shows "indirect s p < nextbno s" "indirect s p < 1024" "types s (indirect s p) \<in> {BLOCK_BOOT, BLOCK_INDEX}"
proof -
  have "types s (indirect s p) \<in> {BLOCK_BOOT, BLOCK_INDEX}"
    using fmt_inv_node [OF assms] assms(1) by (cases "indirect s p = 0") (auto simp: node_inv_def fmt_inv_def)
  then show "indirect s p < nextbno s" "indirect s p < 1024" "types s (indirect s p) \<in> {BLOCK_BOOT, BLOCK_INDEX}"
    using fmt_inv_type [OF assms(1), of "indirect s p"] by auto
qed

text \<open>A step that changes one node in use, and maybe its block of links.\<close>

lemma inv_update_type:
  assumes s: "fmt_inv s" and f: "frame {p} s t" and "nextbno t = nextbno s" "types t = types s"
    and z: "\<And>b. nextbno s \<le> b \<Longrightarrow> img t b = img s b" and p: "live s p" "file_byte p 0 t \<noteq> 0"
    and root: "p = RootFile \<Longrightarrow> isdir t p"
    and ind: "indirect t p \<noteq> 0 \<Longrightarrow> types s (indirect t p) = BLOCK_INDEX \<and> (\<forall>q. isnode s q \<longrightarrow> q \<noteq> p \<longrightarrow> indirect s q \<noteq> indirect t p)"
    and dir: "isdir t p \<Longrightarrow> dir_inv t p \<and> (\<forall>q. isdir s q \<longrightarrow> q \<noteq> p \<longrightarrow> set (dblocks t p) \<inter> set (dblocks s q) = {})"
  shows "fmt_inv t"
proof -
  have n: "isnode t q \<longleftrightarrow> isnode s q" for q using assms(4) by (simp add: isnode_def split: fptr.splits)
  have l: "live t q \<longleftrightarrow> live s q" for q
    using p frame_byte [OF f, of q 0] by (cases "q = p") (auto simp: live_def n)
  have d: "isdir t q \<longleftrightarrow> isdir s q" if "q \<noteq> p" for q
    using frame_ld32 [OF f, of q F_TYPE] that by (auto simp: isdir_def l dest: live_isnode)
  have i: "indirect t q = indirect s q" if "isnode s q" "q \<noteq> p" for q
    using frame_ld32 [OF f, of q F_INDIRECT] that by simp
  have b: "dblocks t q = dblocks s q" if "isnode s q" "q \<noteq> p" for q
    using frame_dblocks [OF f, of q] that by simp
  have "node_inv t q" if "isnode t q" for q
  proof (cases "q = p")
    case True
    with p ind that assms(4) show ?thesis by (auto simp: node_inv_def l)
  next
    case False
    with fmt_inv_node [OF s, of q] that show ?thesis
      using frame_byte [OF f, of q] i [of q] assms(4) by (auto simp: node_inv_def l n)
  qed
  moreover have "dir_inv t q" if "isdir t q" for q
  proof (cases "q = p")
    case False
    then have "isdir s q" using that d by simp
    with False show ?thesis
      by (intro frame_dir_inv [OF f]) (auto simp: l dest: isdir_isnode fmt_inv_dir [OF s])
  qed (use dir that in auto)
  moreover have "indirect t q \<noteq> indirect t r" if "isnode t q" "isnode t r" "q \<noteq> r" "indirect t q \<noteq> 0" for q r
    using that fmt_inv_sole [OF s, of q r] ind i [of q] i [of r] by (cases "q = p"; cases "r = p") (auto simp: n)
  moreover have "set (dblocks t q) \<inter> set (dblocks t r) = {}" if "isdir t q" "isdir t r" "q \<noteq> r" for q r
    using that fmt_inv_apart [OF s, of q r] dir b [OF isdir_isnode, of q] b [OF isdir_isnode, of r]
    by (cases "q = p"; cases "r = p") (auto simp: d)
  moreover have "img t 0 = (\<lambda>_. 0)" using s f by (simp add: fmt_inv_def frame_def)
  moreover have "isdir t RootFile" using root d [of RootFile] fmt_inv_root [OF s] by (cases "p = RootFile") auto
  ultimately show ?thesis
    using s assms(3,4) z by (simp add: fmt_inv_def)
qed

lemma inv_update:
  assumes s: "fmt_inv s" and f: "frame {p} s t" and "nextbno t = nextbno s" "types t = types s"
    and z: "\<And>b. nextbno s \<le> b \<Longrightarrow> img t b = img s b" and p: "live s p" "file_byte p 0 t \<noteq> 0"
    and ty: "file_ld32 p F_TYPE t = file_ld32 p F_TYPE s"
    and ind: "indirect t p \<noteq> 0 \<Longrightarrow> types s (indirect t p) = BLOCK_INDEX \<and> (\<forall>q. isnode s q \<longrightarrow> q \<noteq> p \<longrightarrow> indirect s q \<noteq> indirect t p)"
    and dir: "isdir s p \<Longrightarrow> dir_inv t p \<and> (\<forall>q. isdir s q \<longrightarrow> q \<noteq> p \<longrightarrow> set (dblocks t p) \<inter> set (dblocks s q) = {})"
  shows "fmt_inv t"
proof (rule inv_update_type [OF s f assms(3,4) z p])
  have d: "isdir t p \<longleftrightarrow> isdir s p"
    using p ty assms(4) by (auto simp: isdir_def live_def isnode_def split: fptr.splits)
  show "p = RootFile \<Longrightarrow> isdir t p" using d fmt_inv_root [OF s] by simp
  show "isdir t p \<Longrightarrow> dir_inv t p \<and> (\<forall>q. isdir s q \<longrightarrow> q \<noteq> p \<longrightarrow> set (dblocks t p) \<inter> set (dblocks s q) = {})" using d dir by simp
qed (use ind in auto)

text \<open>Taking the next block.\<close>

definition grab_block :: "nat \<Rightarrow> bytemem \<Rightarrow> fmt \<Rightarrow> fmt" where
  "grab_block ty m s = s\<lparr>img := (img s)(nextbno s := m), types := (types s)(nextbno s := ty), nextbno := nextbno s + 1\<rparr>"

lemma next_block_eq: "nextbno s < 1024 \<Longrightarrow> next_block ty s = Some (nextbno s, grab_block ty (img s (nextbno s)) s)"
  by (simp add: next_block_def grab_block_def)

lemma file_ld32_zero: "(\<And>j. j < 4 \<Longrightarrow> file_byte p (k + j) s = 0) \<Longrightarrow> file_ld32 p k s = 0"
  by (rule word_byte_eqI) (simp add: file_ld32_byte, simp add: word_byte_def)

lemma grab_block_ok:
  assumes s: "fmt_inv s" and "nextbno s < 1024" "ty \<in> {BLOCK_DATA, BLOCK_FILE, BLOCK_INDEX}" "ty = BLOCK_DATA \<or> m = (\<lambda>_. 0)"
  shows "fmt_inv (grab_block ty m s)" "frame {} s (grab_block ty m s)" "live (grab_block ty m s) q \<longleftrightarrow> live s q"
proof -
  let ?t = "grab_block ty m s" and ?b = "nextbno s"
  have free: "types s ?b = BLOCK_FREE" using fmt_inv_zero [OF s, of ?b] by simp
  have n: "isnode ?t q \<longleftrightarrow> isnode s q \<or> ty = BLOCK_FILE \<and> (\<exists>j<16. q = Node ?b j)" for q
    using free by (auto simp: isnode_def grab_block_def split: fptr.splits)
  have fb: "file_byte q k ?t = file_byte q k s" if "isnode s q" for q k
    using that free by (auto simp: isnode_def file_byte_def grab_block_def split: fptr.splits)
  then have ld: "file_ld32 q k ?t = file_ld32 q k s" if "isnode s q" for q k
    using that by (intro file_ld32_cong) simp
  have new: "file_byte q k ?t = 0" if "isnode ?t q" "\<not> isnode s q" for q k
    using that n assms(4) by (auto simp: file_byte_def grab_block_def)
  then have new_ind: "indirect ?t q = 0" if "isnode ?t q" "\<not> isnode s q" for q
    using that by (simp add: file_ld32_zero)
  have bl: "block_link q i ?t = block_link q i s" if "isnode s q" for q i
  proof -
    have "img ?t (indirect s q) = img s (indirect s q)"
      using fmt_inv_indirect(1) [OF s that] by (simp add: grab_block_def)
    then show ?thesis using that by (simp add: block_link_def ld Let_def)
  qed
  have sup: "sup ?t = sup s" "nextbno ?t = Suc ?b" by (simp_all add: grab_block_def)
  show f: "frame {} s ?t"
    using free fb bl sup unfolding frame_def by (auto simp: grab_block_def)
  have l: "live ?t q \<longleftrightarrow> live s q" for q
    using fb [of q 0] new [of q 0] n [of q] by (cases "isnode s q") (auto simp: live_def)
  then show "live ?t q \<longleftrightarrow> live s q" .
  have d: "isdir ?t q \<longleftrightarrow> isdir s q" for q
    using ld [of q F_TYPE] by (auto simp: isdir_def l dest: live_isnode)
  have types: "types ?t b = (if b = ?b then ty else types s b)" for b by (simp add: grab_block_def)
  have "node_inv ?t q" if "isnode ?t q" for q
    using that fmt_inv_node [OF s, of q] new [of q] new_ind [of q] fb ld free
    by (cases "isnode s q") (auto simp: node_inv_def l types)
  moreover have "dir_inv ?t q" if "isdir ?t q" for q
    using that by (intro frame_dir_inv [OF f]) (auto simp: l d dest: isdir_isnode fmt_inv_dir [OF s])
  moreover have "indirect ?t q \<noteq> indirect ?t r" if "isnode ?t q" "isnode ?t r" "q \<noteq> r" "indirect ?t q \<noteq> 0" for q r
    using that fmt_inv_sole [OF s, of q r] new_ind [of q] new_ind [of r] ld [of q] ld [of r]
    by (cases "isnode s q"; cases "isnode s r") auto
  moreover have "set (dblocks ?t q) \<inter> set (dblocks ?t r) = {}" if "isdir ?t q" "isdir ?t r" "q \<noteq> r" for q r
    using that fmt_inv_apart [OF s, of q r] frame_dblocks [OF f isdir_isnode, of q] frame_dblocks [OF f isdir_isnode, of r]
    by (simp add: d)
  moreover have "img ?t b = (if b = ?b then m else img s b)" for b by (simp add: grab_block_def)
  ultimately show "fmt_inv ?t"
    using s assms(2,3) sup(2) d types unfolding fmt_inv_def by auto
qed

text \<open>Storing a number field of a node.\<close>

lemma st32_frame:
  assumes "fmt_inv s" "isnode s p" "128 \<le> k" "k + 4 \<le> 256"
  shows "frame {p} s (file_st32 p k w s)"
proof -
  let ?t = "file_st32 p k w s"
  have im: "img ?t b = img s b" if "types s b \<noteq> BLOCK_FILE" for b
    using that assms(2) by (auto simp: img_st32 isnode_def split: fptr.splits)
  have fb: "file_byte q j ?t = file_byte q j s" if "isnode s q" "q \<noteq> p" "j < 256" for q j
    using that assms by (subst file_byte_st32) (auto dest: isnode_place)
  have "block_link q i ?t = block_link q i s" if "isnode s q" "q \<noteq> p" for q i
  proof -
    have "file_ld32 q j ?t = file_ld32 q j s" if "j + 4 \<le> 256" for j
      using that fb \<open>isnode s q\<close> \<open>q \<noteq> p\<close> by (intro file_ld32_cong) simp
    moreover have "img ?t (indirect s q) = img s (indirect s q)"
      using fmt_inv_indirect(3) [OF assms(1) that(1)] by (intro im) auto
    ultimately show ?thesis by (simp add: block_link_def Let_def)
  qed
  with im fb sup_st32 [OF _ assms(4)] show ?thesis by (auto simp: frame_def)
qed

section \<open>Links to blocks\<close>

text \<open>A step that changes only links past the blocks of a directory.\<close>

lemma inv_links:
  assumes s: "fmt_inv s" and f: "frame {p} s t" and e: "nextbno t = nextbno s" "types t = types s"
    and z: "\<And>b. nextbno s \<le> b \<Longrightarrow> img t b = img s b" and p: "live s p"
    and same: "\<And>k. k < 136 \<Longrightarrow> file_byte p k t = file_byte p k s"
    and ind: "indirect t p \<noteq> 0 \<Longrightarrow> types s (indirect t p) = BLOCK_INDEX \<and> (\<forall>q. isnode s q \<longrightarrow> q \<noteq> p \<longrightarrow> indirect s q \<noteq> indirect t p)"
    and dir: "\<And>i. isdir s p \<Longrightarrow> i < length (dblocks s p) \<Longrightarrow> block_link p i t = block_link p i s"
  shows "fmt_inv t" "live t q \<longleftrightarrow> live s q"
proof -
  have n: "isnode t q \<longleftrightarrow> isnode s q" for q using e by (simp add: isnode_def split: fptr.splits)
  have l: "live t q \<longleftrightarrow> live s q" for q
    using same [of 0] frame_byte [OF f, of q 0] by (cases "q = p") (auto simp: live_def n)
  then show "live t q \<longleftrightarrow> live s q" .
  have w: "file_ld32 p k t = file_ld32 p k s" if "k + 4 \<le> 136" for k
    using that same by (intro file_ld32_cong) simp
  have b: "dblocks t p = dblocks s p" if "isdir s p" using dir [OF that] w [of F_SIZE] by (simp add: dblocks_def)
  show "fmt_inv t"
  proof (rule inv_update [OF s f e z p])
    show "file_byte p 0 t \<noteq> 0" using same [of 0] p by (simp add: live_def)
    show "file_ld32 p F_TYPE t = file_ld32 p F_TYPE s" by (rule w) simp
    assume d: "isdir s p"
    have "dir_inv t p" by (rule same_dir_inv [OF f fmt_inv_dir [OF s d]]) (use b dir d l in auto)
    with fmt_inv_apart [OF s d] show "dir_inv t p \<and> (\<forall>q. isdir s q \<longrightarrow> q \<noteq> p \<longrightarrow> set (dblocks t p) \<inter> set (dblocks s q) = {})"
      unfolding b [OF d] by (metis Int_commute)
  qed (use ind in auto)
qed

lemma st_direct:
  fixes w :: u32
  assumes s: "fmt_inv s" and p: "live s p" and n: "n < 10" and d: "isdir s p \<Longrightarrow> length (dblocks s p) \<le> n"
  defines "t \<equiv> file_st32 p (F_DIRECT n) w s"
  shows "fmt_inv t" "frame {p} s t" "live t q \<longleftrightarrow> live s q"
    "block_link p i t = (if i = n then Some (unat w) else block_link p i s)"
    "k < 136 \<Longrightarrow> file_byte p k t = file_byte p k s" "indirect t p = indirect s p"
proof -
  have pl: "place p" using live_isnode [OF p] isnode_place by blast
  show f: "frame {p} s t" unfolding t_def using n by (intro st32_frame [OF s live_isnode [OF p]]) simp_all
  show fb: "file_byte p k t = file_byte p k s" if "k < 136" for k
    using that n unfolding t_def by (subst file_byte_st32 [OF pl pl]) auto
  have w: "file_ld32 p k t = (if k = F_DIRECT n then w else file_ld32 p k s)" if "k + 4 \<le> 256" "k mod 4 = 0" for k
    unfolding t_def using that n by (subst file_ld32_st32 [OF pl pl]) (auto simp: mod_add_left_eq [symmetric])
  show ind: "indirect t p = indirect s p" using w [of F_INDIRECT] n by simp
  have im: "img t b = img s b" if "types s b \<noteq> BLOCK_FILE" for b
    using that live_isnode [OF p] by (auto simp: t_def img_st32 isnode_def split: fptr.splits)
  have "img t (indirect s p) = img s (indirect s p)"
    using fmt_inv_indirect(3) [OF s live_isnode [OF p]] by (intro im) auto
  then have bl: "block_link p i t = (if i = n then Some (unat w) else block_link p i s)" for i
    using n w [of "F_DIRECT i"] ind by (auto simp: block_link_def Let_def mod_add_left_eq [symmetric])
  then show "block_link p i t = (if i = n then Some (unat w) else block_link p i s)" .
  have "indirect t p \<noteq> 0 \<Longrightarrow> types s (indirect t p) = BLOCK_INDEX \<and> (\<forall>q. isnode s q \<longrightarrow> q \<noteq> p \<longrightarrow> indirect s q \<noteq> indirect t p)"
    using fmt_inv_node [OF s live_isnode [OF p]] fmt_inv_sole [OF s live_isnode [OF p]] unfolding ind node_inv_def by metis
  moreover have "img t b = img s b" if "nextbno s \<le> b" for b using fmt_inv_zero [OF s that] by (intro im) simp
  moreover have "block_link p i t = block_link p i s" if "isdir s p" "i < length (dblocks s p)" for i
    using that d bl by auto
  moreover have "nextbno t = nextbno s" "types t = types s" by (simp_all add: t_def)
  ultimately show "fmt_inv t" "live t q \<longleftrightarrow> live s q"
    using inv_links [OF s f _ _ _ p fb] by blast+
qed

text \<open>Giving a node a block of links, and storing a link there.\<close>

lemma st_indirect:
  assumes s: "fmt_inv s" and p: "live s p" and "indirect s p = 0" "types s b = BLOCK_INDEX" "img s b = (\<lambda>_. 0)"
    and u: "\<And>q. isnode s q \<Longrightarrow> indirect s q \<noteq> b"
  defines "t \<equiv> file_st32 p F_INDIRECT (of_nat b) s"
  shows "fmt_inv t" "frame {p} s t" "live t q \<longleftrightarrow> live s q" "block_link p i t = block_link p i s"
    "k < 136 \<Longrightarrow> file_byte p k t = file_byte p k s" "indirect t p = b"
proof -
  have b: "b < 1024" using fmt_inv_type [OF s, of b] assms(4) by simp
  have pl: "place p" using live_isnode [OF p] isnode_place by blast
  show f: "frame {p} s t" unfolding t_def by (intro st32_frame [OF s live_isnode [OF p]]) simp_all
  show fb: "file_byte p k t = file_byte p k s" if "k < 136" for k
    using that unfolding t_def by (subst file_byte_st32 [OF pl pl]) auto
  have w: "file_ld32 p k t = (if k = F_INDIRECT then of_nat b else file_ld32 p k s)" if "k + 4 \<le> 256" "k mod 4 = 0" for k
    unfolding t_def using that by (subst file_ld32_st32 [OF pl pl]) auto
  show ind: "indirect t p = b" using w [of F_INDIRECT] b by (simp add: unat_of_nat32)
  have im: "img t c = img s c" if "types s c \<noteq> BLOCK_FILE" for c
    using that live_isnode [OF p] by (auto simp: t_def img_st32 isnode_def split: fptr.splits)
  have "img t b = (\<lambda>_. 0)" "img s 0 = (\<lambda>_. 0)" using im [of b] assms(4,5) s by (simp_all add: fmt_inv_def)
  then have bl: "block_link p i t = block_link p i s" for i
    using w [of "F_DIRECT i"] ind assms(3) b by (auto simp: block_link_def Let_def mod_add_left_eq [symmetric])
  then show "block_link p i t = block_link p i s" .
  have "img t c = img s c" if "nextbno s \<le> c" for c using fmt_inv_zero [OF s that] by (intro im) simp
  moreover have "nextbno t = nextbno s" "types t = types s" by (simp_all add: t_def)
  ultimately show "fmt_inv t" "live t q \<longleftrightarrow> live s q"
    using inv_links [OF s f _ _ _ p fb _ bl] ind u assms(4) by blast+
qed

lemma st_index:
  fixes w :: u32
  assumes s: "fmt_inv s" and p: "live s p" and ind: "indirect s p \<noteq> 0" and n: "10 \<le> n" "n < 1024"
    and d: "isdir s p \<Longrightarrow> length (dblocks s p) \<le> n"
  defines "t \<equiv> s\<lparr>img := (img s)(indirect s p := st32 (of_nat (4 * n)) w (img s (indirect s p)))\<rparr>"
  shows "fmt_inv t" "frame {p} s t" "live t q \<longleftrightarrow> live s q"
    "block_link p i t = (if i = n then Some (unat w) else block_link p i s)"
    "file_byte p k t = file_byte p k s" "indirect t p = indirect s p"
proof -
  let ?b = "indirect s p"
  note np = live_isnode [OF p]
  have ty: "types s ?b = BLOCK_INDEX" using fmt_inv_node [OF s np] ind by (simp add: node_inv_def)
  have fb: "file_byte q k t = file_byte q k s" if "isnode s q" for q k
    using that ty by (auto simp: t_def file_byte_def isnode_def split: fptr.splits)
  then show fp: "file_byte p k t = file_byte p k s" for k using np .
  have w: "file_ld32 q k t = file_ld32 q k s" if "isnode s q" for q k using that by (intro file_ld32_cong) (simp add: fb)
  then show ind': "indirect t p = indirect s p" using np by simp
  have im: "img t c = img s c" if "c \<noteq> ?b" for c using that by (simp add: t_def)
  have lt: "?b < 1024" using fmt_inv_indirect(2) [OF s np] .
  have "ld32 (img t ?b) (of_nat (4 * i)) = (if i = n then w else ld32 (img s ?b) (of_nat (4 * i)))" if "i < 1024" for i
    using that n ld32_st32_aligned [of "4 * n" "4 * i" w "img s ?b"] by (simp add: t_def)
  then have bl: "block_link p i t = (if i = n then Some (unat w) else block_link p i s)" for i
    using n lt by (auto simp: block_link_def Let_def w [OF np] simp del: of_nat_mult)
  then show "block_link p i t = (if i = n then Some (unat w) else block_link p i s)" .
  have "block_link q i t = block_link q i s" if "isnode s q" "q \<noteq> p" for q i
  proof -
    have "img t (indirect s q) = img s (indirect s q)"
      using fmt_inv_sole [OF s np that(1)] that(2) ind by (intro im) metis
    then show ?thesis by (simp add: block_link_def Let_def w [OF that(1)])
  qed
  with ty fb im show f: "frame {p} s t" by (auto simp: frame_def t_def)
  have "types s ?b = BLOCK_INDEX \<and> (\<forall>q. isnode s q \<longrightarrow> q \<noteq> p \<longrightarrow> indirect s q \<noteq> ?b)"
    using ty fmt_inv_sole [OF s np _ _ ind] by metis
  moreover have "img t c = img s c" if "nextbno s \<le> c" for c using fmt_inv_zero [OF s that] ty by (intro im) auto
  moreover have "block_link p i t = block_link p i s" if "isdir s p" "i < length (dblocks s p)" for i
    using that d bl by auto
  moreover have "nextbno t = nextbno s" "types t = types s" by (simp_all add: t_def)
  ultimately show "fmt_inv t" "live t q \<longleftrightarrow> live s q"
    using inv_links [OF s f _ _ _ p fp] unfolding ind' by blast+
qed

text \<open>The block that linking may need.\<close>

definition slack :: "fmt \<Rightarrow> fptr \<Rightarrow> nat" where
  "slack s p = (if indirect s p = 0 then 1 else 0)"

lemma ensure_indirect:
  assumes s: "fmt_inv s" and p: "live s p" and sp: "nextbno s + slack s p \<le> 1024"
  obtains t where "(if file_ld32 p F_INDIRECT s = 0 then do { (b, s) \<leftarrow> next_block BLOCK_INDEX s;
       Some (file_st32 p F_INDIRECT (of_nat b) s) } else Some s) = Some t"
    "fmt_inv t" "frame {p} s t" "\<And>q. live t q \<longleftrightarrow> live s q" "\<And>i. block_link p i t = block_link p i s"
    "\<And>k. k < 136 \<Longrightarrow> file_byte p k t = file_byte p k s" "indirect t p \<noteq> 0" "nextbno t \<le> nextbno s + slack s p"
proof (cases "indirect s p = 0")
  case False
  then have "file_ld32 p F_INDIRECT s \<noteq> 0" by auto
  with False show thesis using that [of s] s by simp
next
  case True
  let ?b = "nextbno s" and ?g = "grab_block BLOCK_INDEX (\<lambda>_. 0) s"
  have lt: "?b < 1024" using sp True by (simp add: slack_def)
  have nb: "next_block BLOCK_INDEX s = Some (?b, ?g)"
    using next_block_eq [OF lt] fmt_inv_zero [OF s, of ?b] by simp
  note g = grab_block_ok [OF s lt, of BLOCK_INDEX "\<lambda>_. 0", simplified]
  have n: "isnode ?g q \<longleftrightarrow> isnode s q" for q
    using fmt_inv_zero [OF s, of ?b] by (auto simp: isnode_def grab_block_def split: fptr.splits)
  have i: "indirect ?g q = indirect s q" if "isnode s q" for q
    using frame_ld32 [OF g(2) that, of F_INDIRECT] by simp
  note np = live_isnode [OF p]
  have p': "live ?g p" using p g(3) by simp
  have i0: "indirect ?g p = 0" using i [OF np] True by simp
  have new: "types ?g ?b = BLOCK_INDEX" "img ?g ?b = (\<lambda>_. 0)" by (simp_all add: grab_block_def)
  have u: "indirect ?g q \<noteq> ?b" if "isnode ?g q" for q
    using that i [of q] fmt_inv_indirect(1) [OF s, of q] n [of q] by auto
  note st = st_indirect [OF g(1) p' i0 new u]
  have "frame {p} s (file_st32 p F_INDIRECT (of_nat ?b) ?g)"
    by (rule frame_trans [OF frame_mono [OF g(2)] st(2)]) simp_all
  moreover have "3 \<le> ?b" using s by (simp add: fmt_inv_def)
  moreover have "nextbno ?g = Suc ?b" by (simp add: grab_block_def)
  moreover have "file_ld32 p F_INDIRECT s = 0" using True by (simp add: unsigned_eq_0_iff)
  ultimately show thesis
    using True nb st g(3) frame_link [OF g(2) np] frame_byte [OF g(2) np]
    by (intro that [of "file_st32 p F_INDIRECT (of_nat ?b) ?g"]) (auto simp: slack_def)
qed

lemma save_block_link_ok:
  assumes s: "fmt_inv s" and p: "live s p" and n: "n < 1024" and bno: "bno < 1024"
    and sp: "nextbno s + slack s p \<le> 1024" and d: "isdir s p \<Longrightarrow> length (dblocks s p) \<le> n"
  obtains t where "save_block_link p n bno s = Some t" "fmt_inv t" "frame {p} s t" "\<And>q. live t q \<longleftrightarrow> live s q"
    "\<And>i. block_link p i t = (if i = n then Some bno else block_link p i s)"
    "\<And>k. k < 136 \<Longrightarrow> file_byte p k t = file_byte p k s" "nextbno t + slack t p \<le> nextbno s + slack s p"
proof -
  have u: "unat (of_nat bno :: u32) = bno" using bno by (simp add: unat_of_nat32)
  show thesis
  proof (cases "n < 10")
    case True
    note st = st_direct [OF s p True d, where w = "of_nat bno"]
    from True show thesis
      by (intro that [of "file_st32 p (F_DIRECT n) (of_nat bno) s"])
        (use st n u in \<open>auto simp: save_block_link_def slack_def\<close>)
  next
    case False
    obtain s1 where 1: "(if file_ld32 p F_INDIRECT s = 0 then do { (b, s) \<leftarrow> next_block BLOCK_INDEX s;
         Some (file_st32 p F_INDIRECT (of_nat b) s) } else Some s) = Some s1"
      "fmt_inv s1" "frame {p} s s1" "\<And>q. live s1 q \<longleftrightarrow> live s q" "\<And>i. block_link p i s1 = block_link p i s"
      "\<And>k. k < 136 \<Longrightarrow> file_byte p k s1 = file_byte p k s" "indirect s1 p \<noteq> 0" "nextbno s1 \<le> nextbno s + slack s p"
      by (rule ensure_indirect [OF s p sp]) (rule that; blast)
    have w: "file_ld32 p k s1 = file_ld32 p k s" if "k + 4 \<le> 136" for k
      using that 1(6) by (intro file_ld32_cong) simp
    have d1: "isdir s1 p \<longleftrightarrow> isdir s p" "dblocks s1 p = dblocks s p"
      by (simp_all add: isdir_def dblocks_def 1(4,5) w)
    have p1: "live s1 p" using p 1(4) by simp
    have n10: "10 \<le> n" using False by simp
    have d': "isdir s1 p \<Longrightarrow> length (dblocks s1 p) \<le> n" using d d1 by simp
    note st = st_index [OF 1(2) p1 1(7) n10 n d', where w = "of_nat bno"]
    define t where "t = s1\<lparr>img := (img s1)(indirect s1 p := st32 (of_nat (4 * n)) (of_nat bno) (img s1 (indirect s1 p)))\<rparr>"
    have "indirect s1 p < 1024" by (rule fmt_inv_indirect(2) [OF 1(2) live_isnode [OF p1]])
    then have "save_block_link p n bno s = Some t"
      using False n 1(1) by (simp add: save_block_link_def t_def Let_def)
    moreover have "frame {p} s t" by (rule frame_trans [OF 1(3) st(2) [folded t_def]]) auto
    moreover have "nextbno t + slack t p \<le> nextbno s + slack s p"
      using 1(7,8) st(6) by (simp add: slack_def t_def)
    ultimately show thesis using that [of t] st [folded t_def] 1(4-6) u by simp
  qed
qed

section \<open>Size and type\<close>

lemma st_word:
  fixes w :: u32
  assumes s: "fmt_inv s" and p: "live s p" and fld: "fld \<in> {F_SIZE, F_TYPE}"
  defines "t \<equiv> file_st32 p fld w s"
  shows "frame {p} s t" "live t q \<longleftrightarrow> live s q" "block_link p i t = block_link p i s" "indirect t p = indirect s p"
    "k < 256 \<Longrightarrow> k < fld \<or> fld + 4 \<le> k \<Longrightarrow> file_byte p k t = file_byte p k s"
    "k + 4 \<le> 256 \<Longrightarrow> k mod 4 = 0 \<Longrightarrow> file_ld32 p k t = (if k = fld then w else file_ld32 p k s)"
    "nextbno s \<le> c \<Longrightarrow> img t c = img s c" "file_byte p 0 t \<noteq> 0"
    "indirect t p \<noteq> 0 \<Longrightarrow> types s (indirect t p) = BLOCK_INDEX \<and> (\<forall>q. isnode s q \<longrightarrow> q \<noteq> p \<longrightarrow> indirect s q \<noteq> indirect t p)"
proof -
  note np = live_isnode [OF p]
  have pl: "place p" using np isnode_place by blast
  show f: "frame {p} s t" unfolding t_def using fld by (intro st32_frame [OF s np]) auto
  show w: "file_ld32 p k t = (if k = fld then w else file_ld32 p k s)" if "k + 4 \<le> 256" "k mod 4 = 0" for k
    unfolding t_def using that fld by (subst file_ld32_st32 [OF pl pl]) auto
  show fb: "file_byte p k t = file_byte p k s" if "k < 256" "k < fld \<or> fld + 4 \<le> k" for k
    using that fld unfolding t_def by (subst file_byte_st32 [OF pl pl]) auto
  have im: "img t c = img s c" if "types s c \<noteq> BLOCK_FILE" for c
    using that np by (auto simp: t_def img_st32 isnode_def split: fptr.splits)
  have "img t (indirect s p) = img s (indirect s p)" using fmt_inv_indirect(3) [OF s np] by (intro im) auto
  then show "block_link p i t = block_link p i s"
    using w [of "F_DIRECT i"] w [of F_INDIRECT] fld by (auto simp: block_link_def Let_def mod_add_left_eq [symmetric])
  show ind: "indirect t p = indirect s p" using w [of F_INDIRECT] fld by auto
  have n: "isnode t q \<longleftrightarrow> isnode s q" for q by (simp add: isnode_def t_def split: fptr.splits)
  show "live t q \<longleftrightarrow> live s q"
    using fb [of 0] fld frame_byte [OF f, of q 0] by (cases "q = p") (auto simp: live_def n)
  show "img t c = img s c" if "nextbno s \<le> c" using fmt_inv_zero [OF s that] by (intro im) simp
  show "file_byte p 0 t \<noteq> 0" using p fb [of 0] fld by (auto simp: live_def)
  show "indirect t p \<noteq> 0 \<Longrightarrow> types s (indirect t p) = BLOCK_INDEX \<and> (\<forall>q. isnode s q \<longrightarrow> q \<noteq> p \<longrightarrow> indirect s q \<noteq> indirect t p)"
    using fmt_inv_node [OF s np] fmt_inv_sole [OF s np] unfolding ind node_inv_def by metis
qed

end
