(* ===== verification/MOS_FsTree.thy ===== *)
theory MOS_FsTree
  imports MOS_FsImage
begin

text \<open>
  The files and directories of the image that \<^verbatim>\<open>tools/fsformat.c\<close> builds are those of the host: creating a node,
  writing a file, and a whole directory tree.
\<close>

section \<open>Creating a node\<close>

text \<open>The nodes in use of a directory, in the order of its blocks.\<close>

definition entries :: "fmt \<Rightarrow> fptr \<Rightarrow> fptr list" where
  "entries s d = filter (live s) (dslots s d)"

lemma find_append: "find P (xs @ ys) = (case find P xs of None \<Rightarrow> find P ys | Some x \<Rightarrow> Some x)"
  by (induction xs) simp_all

lemma find_slots:
  assumes "types s b = BLOCK_FILE"
  shows "find (\<lambda>x. \<not> live s x) (slots b) = map_option (Node b) (find (\<lambda>j. img s b (of_nat (256 * j)) = 0) [0..<16])"
proof -
  have "find (\<lambda>x. \<not> live s x) (map (Node b) js) = map_option (Node b) (find (\<lambda>j. img s b (of_nat (256 * j)) = 0) js)"
    if "\<forall>j\<in>set js. j < 16" for js
    using that assms by (induction js) (auto simp: live_def isnode_def file_byte_def)
  then show ?thesis by (simp add: slots_def del: upt.simps)
qed

lemma find_slot_eq:
  assumes "fmt_inv s" "\<And>i. i \<in> set is \<Longrightarrow> \<exists>b. block_link d i s = Some b \<and> types s b = BLOCK_FILE"
  shows "find_slot is d s = Some (find (\<lambda>x. \<not> live s x) (concat (map (\<lambda>i. slots (the (block_link d i s))) is)))"
  using assms(2)
proof (induction "is")
  case (Cons i is')
  obtain b where b: "block_link d i s = Some b" "types s b = BLOCK_FILE" using Cons.prems [of i] by auto
  have "b < 1024" using fmt_inv_type [OF assms(1), of b] b by simp
  moreover have "find_slot is' d s = Some (find (\<lambda>x. \<not> live s x) (concat (map (\<lambda>i. slots (the (block_link d i s))) is')))"
    using Cons by simp
  ultimately show ?case
    using b by (simp add: find_append find_slots del: upt.simps split: option.split)
qed simp

lemma dir_find_slot:
  assumes "fmt_inv s" "isdir s d"
  shows "find_slot [0..<unat (file_ld32 d F_SIZE s) div 4096] d s = Some (find (\<lambda>x. \<not> live s x) (dslots s d))"
proof -
  have "length (dblocks s d) = unat (file_ld32 d F_SIZE s) div 4096" by (simp add: dblocks_def)
  then have "\<exists>b. block_link d i s = Some b \<and> types s b = BLOCK_FILE" if "i < unat (file_ld32 d F_SIZE s) div 4096" for i
    using fmt_inv_dir [OF assms] that by (auto simp: dir_inv_def)
  then show ?thesis
    by (subst find_slot_eq [OF assms(1)]) (auto simp: dslots_def dblocks_def comp_def)
qed

text \<open>A directory takes over a block of unused nodes that no directory has yet.\<close>

lemma st_size:
  assumes s: "fmt_inv s" and d: "isdir s d" and b: "block_link d (length (dblocks s d)) s = Some b" "types s b = BLOCK_FILE"
    and new: "\<And>x. x \<in> set (slots b) \<Longrightarrow> \<not> live s x" "\<And>q. isdir s q \<Longrightarrow> b \<notin> set (dblocks s q)"
    and full: "\<And>x. x \<in> set (dslots s d) \<Longrightarrow> live s x" and room: "length (dblocks s d) + 4 \<le> nextbno s"
  defines "t \<equiv> file_st32 d F_SIZE (file_ld32 d F_SIZE s + BLOCK_SIZE) s"
  shows "fmt_inv t" "frame {d} s t" "live t q \<longleftrightarrow> live s q" "dblocks t d = dblocks s d @ [b]" "isdir t d" "indirect t d = indirect s d"
    "k < 128 \<Longrightarrow> file_byte d k t = file_byte d k s"
proof -
  have liv: "live s d" by (rule isdir_live [OF d])
  note st = st_word [OF s liv, where fld = F_SIZE and w = "file_ld32 d F_SIZE s + BLOCK_SIZE", folded t_def, simplified]
  note f = st(1) and bl = st(3) and l = st(2)
  show "frame {d} s t" "live t q \<longleftrightarrow> live s q" "indirect t d = indirect s d"
    "k < 128 \<Longrightarrow> file_byte d k t = file_byte d k s" using st by simp_all
  show "isdir t d" using d st(6) [of F_TYPE] by (simp add: isdir_def l)
  let ?n = "length (dblocks s d)"
  have di: "dir_inv s d" by (rule fmt_inv_dir [OF s d])
  have n: "?n = unat (file_ld32 d F_SIZE s) div 4096" by (simp add: dblocks_def)
  have "nextbno s \<le> 1024" using s by (simp add: fmt_inv_def)
  then have "unat (file_ld32 d F_SIZE s) < 1024 * 4096" using room n by (simp add: div_less_iff_less_mult [symmetric])
  then have "unat (file_ld32 d F_SIZE s + BLOCK_SIZE) = unat (file_ld32 d F_SIZE s) + 4096"
    by (subst unat_add_lem [THEN iffD1]) simp_all
  then have "unat (file_ld32 d F_SIZE t) div 4096 = Suc ?n" using st(6) [of F_SIZE] n by simp
  then show db: "dblocks t d = dblocks s d @ [b]"
    using b(1) n unfolding dblocks_def bl by simp
  show "fmt_inv t"
  proof (rule inv_update [OF s f _ _ st(7) liv])
    have "block_link d i t = Some ((dblocks s d @ [b]) ! i) \<and> types t ((dblocks s d @ [b]) ! i) = BLOCK_FILE" if "i < Suc ?n" for i
      using that di b unfolding bl dir_inv_def by (cases "i = ?n") (auto simp: nth_append t_def)
    moreover have "dslots t d = dslots s d @ slots b" by (simp add: dslots_def db)
    then have "\<exists>us fs. dslots t d = us @ fs \<and> (\<forall>x\<in>set us. live t x) \<and> (\<forall>x\<in>set fs. \<not> live t x)"
      using full new(1) unfolding l by blast
    ultimately have "dir_inv t d"
      using di room new(2) [OF d] unfolding dir_inv_def db by (simp add: t_def)
    moreover have "set (dblocks t d) \<inter> set (dblocks s q) = {}" if "isdir s q" "q \<noteq> d" for q
      using that new(2) [of q] fmt_inv_apart [OF s d that(1)] unfolding db by auto
    ultimately show "dir_inv t d \<and> (\<forall>q. isdir s q \<longrightarrow> q \<noteq> d \<longrightarrow> set (dblocks t d) \<inter> set (dblocks s q) = {})" by blast
  qed (use st in \<open>simp_all add: t_def\<close>)
qed

lemma make_link_block_ok:
  assumes s: "fmt_inv s" and d: "isdir s d" and full: "\<And>x. x \<in> set (dslots s d) \<Longrightarrow> live s x"
    and sp: "nextbno s + 1 + slack s d \<le> 1024"
  obtains b t where "make_link_block d (length (dblocks s d)) s = Some (b, t)" "fmt_inv t" "frame {d} s t"
    "\<And>q. live t q \<longleftrightarrow> live s q" "dslots t d = dslots s d @ slots b" "isdir t d" "types t b = BLOCK_FILE"
    "\<And>x. x \<in> set (slots b) \<Longrightarrow> \<not> live s x"
    "\<And>k. k < 128 \<Longrightarrow> file_byte d k t = file_byte d k s" "nextbno t + slack t d \<le> nextbno s + 1 + slack s d"
proof -
  let ?b = "nextbno s" and ?n = "length (dblocks s d)" and ?g = "grab_block BLOCK_FILE (\<lambda>_. 0) s"
  note nd = isdir_isnode [OF d]
  have lt: "?b < 1024" using sp by simp
  have nb: "next_block BLOCK_FILE s = Some (?b, ?g)" using next_block_eq [OF lt] fmt_inv_zero [OF s, of ?b] by simp
  note g = grab_block_ok [OF s lt, of BLOCK_FILE "\<lambda>_. 0", simplified]
  have free: "types s ?b = BLOCK_FREE" using fmt_inv_zero [OF s, of ?b] by simp
  have gt: "types ?g ?b = BLOCK_FILE" "nextbno ?g = Suc ?b" by (simp_all add: grab_block_def)
  have gd: "isdir ?g q \<longleftrightarrow> isdir s q" for q
    using frame_ld32 [OF g(2), of q F_TYPE] by (auto simp: isdir_def g(3) dest: live_isnode)
  have gb: "dblocks ?g q = dblocks s q" if "isdir s q" for q using frame_dblocks [OF g(2) isdir_isnode [OF that]] by simp
  have gs: "slack ?g d = slack s d" using frame_ld32 [OF g(2) nd, of F_INDIRECT] by (simp add: slack_def)
  have n: "?n + 3 \<le> ?b" using fmt_inv_dir [OF s d] by (simp add: dir_inv_def)
  have liv: "live ?g d" using isdir_live [OF d] g(3) by simp
  obtain t where t: "save_block_link d ?n ?b ?g = Some t" "fmt_inv t" "frame {d} ?g t" "\<And>q. live t q \<longleftrightarrow> live ?g q"
    "\<And>i. block_link d i t = (if i = ?n then Some ?b else block_link d i ?g)"
    "\<And>k. k < 136 \<Longrightarrow> file_byte d k t = file_byte d k ?g" "nextbno t + slack t d \<le> Suc ?b + slack s d"
  proof (rule save_block_link_ok [OF g(1) liv, of ?n ?b])
    show "isdir ?g d \<Longrightarrow> length (dblocks ?g d) \<le> ?n" using gb [OF d] by simp
  qed (use lt n gt gs sp that in auto)
  have w: "file_ld32 d k t = file_ld32 d k s" if "k + 4 \<le> 136" for k
    using that t(6) frame_byte [OF g(2) nd] by (intro file_ld32_cong) simp
  have dt: "isdir t d" using d w [of F_TYPE] by (simp add: isdir_def t(4) g(3))
  have bt: "dblocks t d = dblocks s d"
    using w [of F_SIZE] t(5) frame_link [OF g(2) nd] by (simp add: dblocks_def)
  have ty: "types t ?b = BLOCK_FILE" using t(3) gt(1) by (simp add: frame_def)
  have nl: "\<not> live s x" if "x \<in> set (slots ?b)" for x
    using that free by (auto simp: set_slots live_def isnode_def)
  have "?b \<notin> set (dblocks t q)" if "isdir t q" for q
  proof (cases "q = d")
    case True
    then show ?thesis using dir_inv_block [OF fmt_inv_dir [OF s d]] free bt by auto
  next
    case False
    have "isnode ?g q" using isdir_live [OF that] t(4) live_isnode by blast
    then have "isdir s q" "dblocks t q = dblocks s q"
      using False that frame_ld32 [OF t(3), of q F_TYPE] frame_dblocks [OF t(3), of q] gd [of q] gb [of q]
      by (auto simp: isdir_def t(4))
    then show ?thesis using dir_inv_block [OF fmt_inv_dir [OF s], of q ?b] free by auto
  qed
  moreover have "live t x" if "x \<in> set (dslots t d)" for x
    using that full by (simp add: t(4) g(3) dslots_def bt)
  moreover have "Suc ?b \<le> nextbno t" using t(3) gt(2) by (simp add: frame_def)
  ultimately have st: "fmt_inv u" "frame {d} t u" "\<And>q. live u q \<longleftrightarrow> live t q" "dblocks u d = dblocks t d @ [?b]" "isdir u d"
    "indirect u d = indirect t d" "\<And>k. k < 128 \<Longrightarrow> file_byte d k u = file_byte d k t"
    if "u = file_st32 d F_SIZE (file_ld32 d F_SIZE t + BLOCK_SIZE) t" for u
    unfolding that using st_size [OF t(2) dt _ ty] t(4,5) nl n bt g(3) by simp_all
  define u where "u = file_st32 d F_SIZE (file_ld32 d F_SIZE t + BLOCK_SIZE) t"
  note st = st [OF u_def]
  have "make_link_block d ?n s = Some (?b, u)" by (simp add: make_link_block_def nb t(1) u_def)
  moreover have "frame {d} s u"
    by (rule frame_trans [OF frame_mono [OF g(2)] frame_trans [OF t(3) st(2)]]) auto
  moreover have "nextbno u + slack u d \<le> ?b + 1 + slack s d"
    using t(7) st(6) by (simp add: slack_def u_def)
  moreover have "types u ?b = BLOCK_FILE" using ty by (simp add: u_def)
  ultimately show thesis
    using st t(4,6) g(3) nl frame_byte [OF g(2) nd] by (intro that [of ?b u]) (simp_all add: dslots_def bt)
qed

lemma create_file_ok:
  assumes s: "fmt_inv s" and d: "isdir s d" and sp: "nextbno s + 1 + slack s d \<le> 1024"
  obtains x t fs where "create_file d s = Some (x, t)" "fmt_inv t" "frame {d} s t" "\<And>q. live t q \<longleftrightarrow> live s q"
    "isnode t x" "\<not> live t x" "isdir t d" "dslots t d = entries s d @ x # fs" "\<And>y. y \<in> set fs \<Longrightarrow> \<not> live s y"
    "\<And>k. k < 128 \<Longrightarrow> file_byte d k t = file_byte d k s" "nextbno t + slack t d \<le> nextbno s + 1 + slack s d"
proof -
  note di = fmt_inv_dir [OF s d]
  obtain us fs where uf: "dslots s d = us @ fs" "\<forall>x\<in>set us. live s x" "\<forall>x\<in>set fs. \<not> live s x"
    using di by (auto simp: dir_inv_def)
  then have en: "entries s d = us" by (simp add: entries_def)
  have fus: "find (\<lambda>x. \<not> live s x) us = None" using uf(2) by (simp add: find_None_iff)
  have len: "unat (file_ld32 d F_SIZE s) div 4096 = length (dblocks s d)" by (simp add: dblocks_def)
  show thesis
  proof (cases fs)
    case (Cons x fs')
    have "create_file d s = Some (x, s)"
      using dir_find_slot [OF s d] uf Cons fus by (simp add: create_file_def find_append)
    moreover have "isnode s x" using dir_inv_slot [OF di, of x] uf(1) Cons by simp
    ultimately show thesis using that [of x s fs'] s d uf Cons en by simp
  next
    case Nil
    then have "\<And>x. x \<in> set (dslots s d) \<Longrightarrow> live s x" using uf by simp
    then obtain b t where t: "make_link_block d (length (dblocks s d)) s = Some (b, t)" "fmt_inv t" "frame {d} s t"
      "\<And>q. live t q \<longleftrightarrow> live s q" "dslots t d = dslots s d @ slots b" "isdir t d" "types t b = BLOCK_FILE"
      "\<And>x. x \<in> set (slots b) \<Longrightarrow> \<not> live s x"
      "\<And>k. k < 128 \<Longrightarrow> file_byte d k t = file_byte d k s" "nextbno t + slack t d \<le> nextbno s + 1 + slack s d"
      using make_link_block_ok [OF s d _ sp] by metis
    have sl: "slots b = Node b 0 # map (Node b) [1..<16]" by (simp add: slots_def upt_conv_Cons)
    have "create_file d s = Some (Node b 0, t)"
      using dir_find_slot [OF s d] uf Nil fus t(1) len by (simp add: create_file_def)
    moreover have "isnode t (Node b 0)" using t(7) by (simp add: isnode_def)
    moreover have "\<not> live t (Node b 0)" using t(8) [of "Node b 0"] sl t(4) by simp
    moreover have "dslots t d = entries s d @ Node b 0 # map (Node b) [1..<16]" using t(5) uf(1) Nil en sl by simp
    moreover have "\<not> live s y" if "y \<in> set (map (Node b) [1..<16])" for y using t(8) [of y] that unfolding sl by simp
    ultimately show thesis using t(2-4,6,9,10) by (intro that [of "Node b 0" t "map (Node b) [1..<16]"])
  qed
qed

section \<open>Naming a node\<close>

lemma distinct_dslots: "dir_inv s d \<Longrightarrow> distinct (dslots s d)"
proof -
  have "distinct bs \<Longrightarrow> distinct (concat (map slots bs))" for bs
    by (induction bs) (auto simp: slots_def distinct_map inj_on_def)
  then show "dir_inv s d \<Longrightarrow> distinct (dslots s d)" by (simp add: dir_inv_def dslots_def)
qed

lemma store_name_frame:
  assumes s: "fmt_inv s" and x: "isnode s x" "x \<noteq> RootFile" and bs: "length bs \<le> 128"
  obtains t where "store_name x bs s = Some t" "frame {x} s t" "types t = types s" "nextbno t = nextbno s"
    "\<And>c. types s c \<noteq> BLOCK_FILE \<Longrightarrow> img t c = img s c"
    "\<And>k. k < 256 \<Longrightarrow> file_byte x k t = (if k < length bs then bs ! k else file_byte x k s)"
proof -
  obtain b i where xn: "x = Node b i" "types s b = BLOCK_FILE" "i < 16"
    using x by (cases x) (auto simp: isnode_def)
  define t where "t = s\<lparr>img := (img s)(b := store_bytes (256 * i) bs (img s b))\<rparr>"
  have at: "img t b (of_nat k) = (if 256 * i \<le> k \<and> k < 256 * i + length bs then bs ! (k - 256 * i) else img s b (of_nat k))"
    if "k < 8192" for k
    using store_bytes_at [of "256 * i" bs k "img s b"] that xn(3) bs by (simp add: t_def)
  have im: "img t c = img s c" if "c \<noteq> b" for c using that by (simp add: t_def)
  have fb: "file_byte q k t = file_byte q k s" if nq: "isnode s q" "q \<noteq> x" "k < 256" for q k
  proof (cases "\<exists>j. q = Node b j")
    case True
    then obtain j where j: "q = Node b j" by blast
    have "j < 16" "j \<noteq> i" using j nq(1,2) xn by (auto simp: isnode_def)
    then have "\<not> (256 * i \<le> 256 * j + k \<and> 256 * j + k < 256 * i + length bs)"
      using nq(3) bs by (cases j i rule: linorder_cases) linarith+
    then show ?thesis using at [of "256 * j + k"] j \<open>j < 16\<close> nq(3) by (auto simp: file_byte_def simp del: of_nat_add of_nat_mult)
  next
    case False
    then show ?thesis using im by (cases q) (auto simp: file_byte_def t_def)
  qed
  have "block_link q j t = block_link q j s" if "isnode s q" "q \<noteq> x" for q j
  proof -
    have "file_ld32 q k t = file_ld32 q k s" if "k + 4 \<le> 256" for k
      using that fb \<open>isnode s q\<close> \<open>q \<noteq> x\<close> by (intro file_ld32_cong) simp
    moreover have "img t (indirect s q) = img s (indirect s q)"
      using fmt_inv_indirect(3) [OF s that(1)] xn(2) by (intro im) auto
    ultimately show ?thesis by (simp add: block_link_def Let_def)
  qed
  with fb im xn(2) have "frame {x} s t" by (auto simp: frame_def t_def)
  moreover have "store_name x bs s = Some t" using xn bs by (simp add: store_name_def t_def)
  moreover have "file_byte x k t = (if k < length bs then bs ! k else file_byte x k s)" if "k < 256" for k
    using at [of "256 * i + k"] that xn by (simp add: file_byte_def del: of_nat_add of_nat_mult)
  ultimately show thesis using im xn(2) by (intro that [of t]) (auto simp: t_def)
qed

text \<open>A free slot of a directory, with only free ones after it, gets a name.\<close>

lemma store_name_ok:
  assumes s: "fmt_inv s" and x: "isnode s x" "\<not> live s x" and bs: "length bs \<le> 128" "bs \<noteq> []" "bs ! 0 \<noteq> 0"
    and d: "isdir s d" "dslots s d = us @ x # fs" "\<And>y. y \<in> set us \<Longrightarrow> live s y" "\<And>y. y \<in> set fs \<Longrightarrow> \<not> live s y"
  obtains t where "store_name x bs s = Some t" "fmt_inv t" "frame {x} s t" "nextbno t = nextbno s"
    "\<And>q. live t q \<longleftrightarrow> q = x \<or> live s q" "\<And>k. k < 256 \<Longrightarrow> file_byte x k t = (if k < length bs then bs ! k else 0)"
proof -
  have xr: "x \<noteq> RootFile" using x fmt_inv_root [OF s] by (auto simp: isdir_def)
  obtain t where t: "store_name x bs s = Some t" and f: "frame {x} s t" and e: "types t = types s" "nextbno t = nextbno s"
    and im: "\<And>c. types s c \<noteq> BLOCK_FILE \<Longrightarrow> img t c = img s c"
    and "\<And>k. k < 256 \<Longrightarrow> file_byte x k t = (if k < length bs then bs ! k else file_byte x k s)"
    by (rule store_name_frame [OF s x(1) xr bs(1)]) (rule that; blast)
  moreover have zx: "\<forall>k<256. file_byte x k s = 0" using fmt_inv_node [OF s x(1)] x(2) by (simp add: node_inv_def)
  ultimately have xb: "file_byte x k t = (if k < length bs then bs ! k else 0)" if "k < 256" for k using that by simp
  have n: "isnode t q \<longleftrightarrow> isnode s q" for q using e by (simp add: isnode_def split: fptr.splits)
  have lx: "live t x" using xb [of 0] bs x(1) by (simp add: live_def n)
  have l: "live t q \<longleftrightarrow> q = x \<or> live s q" for q
    using lx frame_byte [OF f, of q 0] by (cases "q = x") (auto simp: live_def n)
  have zw: "file_ld32 x k t = 0" if "128 \<le> k" "k + 4 \<le> 256" for k
    using that xb bs(1) by (intro file_ld32_zero) simp
  have xd: "\<not> isdir t x" using zw [of F_TYPE] by (simp add: isdir_def)
  have dd: "isdir t q \<longleftrightarrow> isdir s q" for q
    using frame_ld32 [OF f, of q F_TYPE] xd x(2) by (cases "q = x") (auto simp: isdir_def l dest: live_isnode)
  have ne: "q \<noteq> x" if "isdir s q" for q using that x(2) isdir_live by blast
  have db: "dblocks t q = dblocks s q" "dslots t q = dslots s q" if "isdir s q" for q
    using frame_dblocks [OF f isdir_isnode [OF that]] frame_dslots [OF f isdir_isnode [OF that]] ne [OF that] by simp_all
  have ind: "indirect t q = indirect s q" if "isnode s q" for q
  proof (cases "q = x")
    case True
    have "file_ld32 x F_INDIRECT s = 0" using zx by (intro file_ld32_zero) simp
    with True zw [of F_INDIRECT] show ?thesis by simp
  qed (use frame_ld32 [OF f that, of F_INDIRECT] in simp)
  have "node_inv t q" if "isnode t q" for q
  proof (cases "q = x")
    case True
    then show ?thesis using lx zw [of F_INDIRECT] by (simp add: node_inv_def)
  next
    case False
    with fmt_inv_node [OF s, of q] that show ?thesis
      using frame_byte [OF f, of q] ind [of q] e(1) by (auto simp: node_inv_def l n)
  qed
  moreover have "dir_inv t q" if "isdir t q" for q
  proof (cases "q = d")
    case True
    have di: "dir_inv s d" by (rule fmt_inv_dir [OF s d(1)])
    have "x \<notin> set fs" using distinct_dslots [OF di] d(2) by simp
    then have "\<exists>us' fs'. dslots t d = us' @ fs' \<and> (\<forall>x\<in>set us'. live t x) \<and> (\<forall>x\<in>set fs'. \<not> live t x)"
      using d(2-4) db(2) [OF d(1)] lx by (intro exI [of _ "us @ [x]"] exI [of _ fs]) (auto simp: l)
    then show ?thesis
      using di frame_link [OF f isdir_isnode [OF d(1)]] ne [OF d(1)] e unfolding True dir_inv_def db(1) [OF d(1)] by auto
  next
    case False
    have q: "isdir s q" using that dd by simp
    have "x \<in> set (dslots s d)" using d(2) by simp
    then have "x \<notin> set (dslots s q)" using fmt_inv_apart [OF s q d(1) False] by (auto simp: set_dslots)
    then show ?thesis
      using frame_dir_inv [OF f isdir_isnode [OF q] _ fmt_inv_dir [OF s q]] ne [OF q] l by auto
  qed
  moreover have "indirect t q \<noteq> indirect t r" if "isnode t q" "isnode t r" "q \<noteq> r" "indirect t q \<noteq> 0" for q r
    using that fmt_inv_sole [OF s, of q r] ind [of q] ind [of r] by (auto simp: n)
  moreover have "set (dblocks t q) \<inter> set (dblocks t r) = {}" if "isdir t q" "isdir t r" "q \<noteq> r" for q r
    using that fmt_inv_apart [OF s, of q r] db(1) [of q] db(1) [of r] by (simp add: dd)
  moreover have "isdir t RootFile" using fmt_inv_root [OF s] dd by simp
  moreover have "img t b = img s b" if "nextbno s \<le> b" for b using fmt_inv_zero [OF s that] by (intro im) simp
  moreover have "img t 0 = img s 0" using s by (intro im) (simp add: fmt_inv_def)
  ultimately have "fmt_inv t" using s e by (simp add: fmt_inv_def)
  then show thesis using that [OF t _ f e(2) l xb] by simp
qed

text \<open>The size of a file, and the type of a node.\<close>

lemma st_file_size:
  assumes s: "fmt_inv s" and x: "live s x" "\<not> isdir s x"
  shows "fmt_inv (file_st32 x F_SIZE w s)"
  by (rule inv_update [OF s st_word(1) [OF s x(1)] _ _ st_word(7) [OF s x(1)] x(1)])
    (use st_word [OF s x(1), where fld = F_SIZE and w = w] x(2) in simp_all)

lemma st_type:
  assumes s: "fmt_inv s" and x: "live s x" "x \<noteq> RootFile" and ty: "ty = FTYPE_REG \<or> file_ld32 x F_SIZE s = 0"
  shows "fmt_inv (file_st32 x F_TYPE ty s)" (is "fmt_inv ?t")
proof (rule inv_update_type [OF s st_word(1) [OF s x(1)] _ _ st_word(7) [OF s x(1)] x(1)])
  note st = st_word [OF s x(1), where fld = F_TYPE and w = ty, simplified]
  assume "isdir ?t x"
  then have "dblocks ?t x = []" using ty st(6) [of F_TYPE] st(6) [of F_SIZE] by (auto simp: isdir_def dblocks_def)
  moreover have "3 \<le> nextbno s" using s by (simp add: fmt_inv_def)
  ultimately show "dir_inv ?t x \<and> (\<forall>q. isdir s q \<longrightarrow> q \<noteq> x \<longrightarrow> set (dblocks ?t x) \<inter> set (dblocks s q) = {})"
    by (simp add: dir_inv_def dslots_def)
qed (use st_word [OF s x(1), where fld = F_TYPE and w = ty] x(2) in simp_all)

section \<open>Writing a file\<close>

definition chunks :: "nat \<Rightarrow> nat" where
  "chunks n = (n + 4095) div 4096"

lemma chunks_drop: "data \<noteq> [] \<Longrightarrow> chunks (length data) = Suc (chunks (length (drop 4096 data)))"
proof -
  assume "data \<noteq> []"
  then have "length data + 4095 = (length data - 1) + 4096" by (cases data) simp_all
  then have "chunks (length data) = Suc ((length data - 1) div 4096)" by (simp add: chunks_def)
  moreover have "chunks (length (drop 4096 data)) = (length data - 1) div 4096"
  proof (cases "length data \<le> 4096")
    case True
    with \<open>data \<noteq> []\<close> show ?thesis by (simp add: chunks_def)
  next
    case False
    then have "length (drop 4096 data) + 4095 = length data - 1" by simp
    then show ?thesis by (simp add: chunks_def)
  qed
  ultimately show ?thesis by simp
qed

text \<open>The bytes of a node's blocks from the \<open>n\<close>-th on.\<close>

definition holds :: "fmt \<Rightarrow> fptr \<Rightarrow> nat \<Rightarrow> u8 list \<Rightarrow> bool" where
  "holds s x n data \<longleftrightarrow> (\<forall>k<length data. \<exists>b. block_link x (n + k div 4096) s = Some b \<and> types s b = BLOCK_DATA \<and>
     img s b (of_nat (k mod 4096)) = data ! k)"

lemma holds_Suc:
  assumes "holds s x (Suc n) (drop 4096 data)" "block_link x n s = Some b" "types s b = BLOCK_DATA"
    and "\<And>k. k < 4096 \<Longrightarrow> k < length data \<Longrightarrow> img s b (of_nat k) = data ! k"
  shows "holds s x n data"
  unfolding holds_def
proof (intro allI impI)
  fix k assume k: "k < length data"
  show "\<exists>b. block_link x (n + k div 4096) s = Some b \<and> types s b = BLOCK_DATA \<and> img s b (of_nat (k mod 4096)) = data ! k"
  proof (cases "k < 4096")
    case True
    with k assms(2-4) show ?thesis by simp
  next
    case False
    then have "k div 4096 = Suc ((k - 4096) div 4096)" "k mod 4096 = (k - 4096) mod 4096"
      by (simp_all add: le_div_geq le_mod_geq)
    moreover have "k - 4096 < length (drop 4096 data)" "drop 4096 data ! (k - 4096) = data ! k" using k False by auto
    ultimately show ?thesis using assms(1) [unfolded holds_def, rule_format, of "k - 4096"] by simp
  qed
qed

lemma holds_frame: "frame P s t \<Longrightarrow> isnode s x \<Longrightarrow> x \<notin> P \<Longrightarrow> holds s x n data \<Longrightarrow> holds t x n data"
  unfolding holds_def by (fastforce simp: frame_def)

lemma write_chunks_ok:
  assumes "fmt_inv s" "live s x" "\<not> isdir s x" "nextbno s + chunks (length data) + slack s x \<le> 1024" "iblk + chunks (length data) \<le> 1024"
  shows "\<exists>t. write_chunks x iblk data s = Some t \<and> fmt_inv t \<and> frame {x} s t \<and> (\<forall>q. live t q \<longleftrightarrow> live s q) \<and>
    (\<forall>k<136. file_byte x k t = file_byte x k s) \<and> (\<forall>i<iblk. block_link x i t = block_link x i s) \<and>
    holds t x iblk data \<and> nextbno t + slack t x \<le> nextbno s + chunks (length data) + slack s x"
  using assms
proof (induction x iblk data s rule: write_chunks.induct)
  case (1 x iblk data s)
  show ?case
  proof (cases "data = []")
    case True
    then show ?thesis using 1(2) by (simp add: write_chunks.simps holds_def chunks_def)
  next
    case False
    let ?b = "nextbno s" and ?m = "store_bytes 0 (take 4096 data) (img s (nextbno s))"
    let ?s = "s\<lparr>img := (img s)(?b := ?m)\<rparr>" and ?g = "grab_block BLOCK_DATA ?m s"
    note ch = chunks_drop [OF False]
    have lt: "?b < 1024" using 1(5) ch by simp
    have nb: "next_block BLOCK_DATA ?s = Some (?b, ?g)" using lt by (simp add: next_block_def grab_block_def)
    note g = grab_block_ok [OF 1(2) lt, of BLOCK_DATA ?m, simplified]
    note nx = live_isnode [OF 1(3)]
    have gx: "live ?g x" "\<not> isdir ?g x" "slack ?g x = slack s x" "nextbno ?g = Suc ?b"
      using 1(3,4) g(3) frame_ld32 [OF g(2) nx, of F_TYPE] frame_ld32 [OF g(2) nx, of F_INDIRECT]
      by (simp_all add: isdir_def slack_def grab_block_def)
    obtain t where t: "save_block_link x iblk ?b ?g = Some t" "fmt_inv t" "frame {x} ?g t" "\<And>q. live t q \<longleftrightarrow> live ?g q"
      "\<And>i. block_link x i t = (if i = iblk then Some ?b else block_link x i ?g)"
      "\<And>k. k < 136 \<Longrightarrow> file_byte x k t = file_byte x k ?g" "nextbno t + slack t x \<le> nextbno ?g + slack ?g x"
      by (rule save_block_link_ok [OF g(1) gx(1), of iblk ?b]) (use 1(5,6) ch lt gx that in auto)
    have tx: "live t x" "\<not> isdir t x"
      using gx t(4) file_ld32_cong [of x F_TYPE t x ?g] t(6) by (auto simp: isdir_def)
    have "nextbno t + chunks (length (drop 4096 data)) + slack t x \<le> 1024" "iblk + 1 + chunks (length (drop 4096 data)) \<le> 1024"
      using 1(5,6) ch t(7) gx(3,4) by simp_all
    from 1(1) [OF False _ refl nb refl t(1) t(2) tx this] lt
    obtain u where u: "write_chunks x (iblk + 1) (drop 4096 data) t = Some u" "fmt_inv u" "frame {x} t u"
      "\<forall>q. live u q \<longleftrightarrow> live t q" "\<forall>k<136. file_byte x k u = file_byte x k t" "\<forall>i<iblk + 1. block_link x i u = block_link x i t"
      "holds u x (iblk + 1) (drop 4096 data)" "nextbno u + slack u x \<le> nextbno t + chunks (length (drop 4096 data)) + slack t x"
      by auto
    have "write_chunks x iblk data s = Some u"
      using False lt nb t(1) u(1) by (subst write_chunks.simps) (simp add: Let_def)
    moreover have fr: "frame {x} ?g u" by (rule frame_trans [OF t(3) u(3)]) auto
    moreover have "frame {x} s u" by (rule frame_trans [OF frame_mono [OF g(2)] fr]) auto
    moreover have "holds u x iblk data"
    proof (rule holds_Suc)
      have gb: "types ?g ?b = BLOCK_DATA" "img ?g ?b = ?m" by (simp_all add: grab_block_def)
      then show "types u ?b = BLOCK_DATA" using fr by (simp add: frame_def)
      have "img u ?b = ?m" using fr gb by (simp add: frame_def)
      then show "img u ?b (of_nat k) = data ! k" if "k < 4096" "k < length data" for k
        using store_bytes_at [of 0 "take 4096 data" k "img s ?b"] that by simp
      show "block_link x iblk u = Some ?b" using u(6) t(5) [of iblk] by simp
    qed (use u(7) in simp)
    ultimately show ?thesis
      using u(2,4-6,8) t(4-7) g(3) gx(3,4) ch frame_byte [OF g(2) nx] frame_link [OF g(2) nx] by auto
  qed
qed

section \<open>Adding entries to a directory\<close>

definition fname :: "fmt \<Rightarrow> fptr \<Rightarrow> u8 list" where
  "fname s x = takeWhile (\<lambda>b. b \<noteq> 0) (map (\<lambda>k. file_byte x k s) [0..<128])"

text \<open>The directory \<open>d\<close> has got the entries \<open>xs\<close>, and every node that was in use is what it was.\<close>

definition adds :: "fptr \<Rightarrow> fptr list \<Rightarrow> fmt \<Rightarrow> fmt \<Rightarrow> bool" where
  "adds d xs s t \<longleftrightarrow> fmt_inv t \<and> isdir t d \<and> frame (insert d {q. \<not> live s q}) s t \<and> (\<forall>q. live s q \<longrightarrow> live t q) \<and>
     (\<forall>q. isdir s q \<longrightarrow> q \<noteq> d \<longrightarrow> entries t q = entries s q) \<and> entries t d = entries s d @ xs \<and>
     (\<forall>k<128. file_byte d k t = file_byte d k s) \<and> (\<forall>x\<in>set xs. \<not> live s x \<and> live t x)"

lemma adds_Nil: "fmt_inv s \<Longrightarrow> isdir s d \<Longrightarrow> adds d [] s s"
  by (simp add: adds_def)

lemma adds_live: "adds d xs s t \<Longrightarrow> live s q \<Longrightarrow> live t q"
  by (simp add: adds_def)

lemma adds_dir: "adds d xs s t \<Longrightarrow> isdir s q \<Longrightarrow> isdir t q"
  using frame_ld32 [of "insert d {q. \<not> live s q}" s t q F_TYPE]
  by (cases "q = d") (auto simp: adds_def isdir_def dest: live_isnode)

lemma adds_append:
  assumes "adds d xs s t" "adds d ys t u"
  shows "adds d (xs @ ys) s u"
proof -
  have "frame (insert d {q. \<not> live s q}) s u"
    by (rule frame_trans [of _ s t "insert d {q. \<not> live t q}"]) (use assms adds_live [OF assms(1)] in \<open>auto simp: adds_def\<close>)
  then show ?thesis
    using assms adds_dir [OF assms(1)] unfolding adds_def by auto
qed

text \<open>Entries added to the new directory \<open>x\<close> do not show in its parent.\<close>

lemma adds_inner:
  assumes "adds d [x] s t" "isdir s d" "adds x ys t u"
  shows "adds d [x] s u"
proof -
  have x: "\<not> live s x" "live t x" and dt: "isdir t d" using assms(1) by (simp_all add: adds_def)
  then have ne: "d \<noteq> x" using assms(2) isdir_live by blast
  have "frame (insert d {q. \<not> live s q}) s u"
    by (rule frame_trans [of _ s t "insert x {q. \<not> live t q}"])
      (use assms adds_live [OF assms(1)] x in \<open>auto simp: adds_def\<close>)
  moreover have "file_byte d k u = file_byte d k t" if "k < 128" for k
    using frame_byte [of "insert x {q. \<not> live t q}" t u d k] assms(3) dt ne that isdir_live [OF dt] isdir_isnode [OF dt]
    by (simp add: adds_def)
  moreover have "isdir u d" using adds_dir [OF assms(3) dt] .
  moreover have "entries u q = entries t q" if "isdir t q" "q \<noteq> x" for q using assms(3) that by (simp add: adds_def)
  moreover have "q \<noteq> x" if "isdir s q" for q using that x(1) isdir_live by blast
  ultimately show ?thesis
    using assms(1,3) adds_dir [OF assms(1)] ne dt unfolding adds_def by auto
qed

lemma fname_adds: "adds d xs s t \<Longrightarrow> live s q \<Longrightarrow> fname t q = fname s q"
proof -
  assume *: "adds d xs s t" "live s q"
  then have "file_byte q k t = file_byte q k s" if "k < 128" for k
    using that frame_byte [of "insert d {q. \<not> live s q}" s t q k] by (cases "q = d") (auto simp: adds_def dest: live_isnode)
  then show ?thesis unfolding fname_def by (intro arg_cong [of _ _ "takeWhile _"]) simp
qed

lemma named_node:
  assumes s: "fmt_inv s" and d: "isdir s d" and sp: "nextbno s + 2 \<le> 1024"
    and bs: "length bs \<le> 128" "bs \<noteq> []" "bs ! 0 \<noteq> 0"
  obtains x t u where "create_file d s = Some (x, t)" "store_name x bs t = Some u" "adds d [x] s u" "x \<noteq> RootFile"
    "\<And>k. k < 256 \<Longrightarrow> file_byte x k u = (if k < length bs then bs ! k else 0)" "nextbno u \<le> nextbno s + 2"
proof -
  have "slack s d \<le> 1" by (simp add: slack_def)
  then have sp': "nextbno s + 1 + slack s d \<le> 1024" using sp by simp
  obtain x t fs where t: "create_file d s = Some (x, t)" "fmt_inv t" "frame {d} s t" "\<And>q. live t q \<longleftrightarrow> live s q"
    "isnode t x" "\<not> live t x" "isdir t d" "dslots t d = entries s d @ x # fs" "\<And>y. y \<in> set fs \<Longrightarrow> \<not> live s y"
    "\<And>k. k < 128 \<Longrightarrow> file_byte d k t = file_byte d k s" "nextbno t + slack t d \<le> nextbno s + 1 + slack s d"
    by (rule create_file_ok [OF s d sp']) (rule that; blast)
  have lu: "live t y" if "y \<in> set (entries s d)" for y using that t(4) by (simp add: entries_def)
  have lf: "\<not> live t y" if "y \<in> set fs" for y using that t(4,9) by simp
  obtain u where u: "store_name x bs t = Some u" "fmt_inv u" "frame {x} t u" "nextbno u = nextbno t"
    "\<And>q. live u q \<longleftrightarrow> q = x \<or> live t q" "\<And>k. k < 256 \<Longrightarrow> file_byte x k u = (if k < length bs then bs ! k else 0)"
    by (rule store_name_ok [OF t(2,5,6) bs t(7,8) lu lf]) (assumption, assumption, (rule that; blast))
  have ne: "d \<noteq> x" using t(6,7) isdir_live by blast
  note nd = isdir_isnode [OF t(7)]
  have xs: "\<not> live s x" using t(4,6) by simp
  have fr: "frame (insert d {q. \<not> live s q}) s u"
    by (rule frame_trans [OF frame_mono [OF t(3)] u(3)]) (use xs in auto)
  have "isdir u d" using t(7) frame_ld32 [OF u(3) nd, of F_TYPE] ne u(5) by (auto simp: isdir_def)
  moreover have "entries u d = entries s d @ [x]"
  proof -
    have "dslots u d = entries s d @ x # fs" using frame_dslots [OF u(3) nd] ne t(8) by simp
    moreover have "x \<notin> set fs" using distinct_dslots [OF fmt_inv_dir [OF t(2,7)]] t(8) by simp
    then have "filter (live u) fs = []" using t(4,9) u(5) by (auto simp: filter_empty_conv)
    moreover have "filter (live u) (entries s d) = entries s d"
      using u(5) lu by (simp add: filter_id_conv)
    ultimately show ?thesis using u(5) unfolding entries_def [of u] by simp
  qed
  moreover have "entries u q = entries s q" if q: "isdir s q" "q \<noteq> d" for q
  proof -
    have nq: "isnode s q" "isnode t q" using isdir_isnode [OF q(1)] frame_isnode [OF t(3)] by auto
    have qt: "isdir t q" using q frame_ld32 [OF t(3) nq(1), of F_TYPE] t(4) by (auto simp: isdir_def)
    have "q \<noteq> x" using t(6) isdir_live [OF qt] by blast
    then have ds: "dslots u q = dslots s q" "dslots t q = dslots s q"
      using frame_dslots [OF u(3) nq(2)] frame_dslots [OF t(3) nq(1)] q(2) by simp_all
    have "x \<in> set (dslots t d)" using t(8) by simp
    then have "x \<notin> set (dslots t q)" using fmt_inv_apart [OF t(2) qt t(7) q(2)] by (auto simp: set_dslots)
    then show ?thesis using ds u(5) t(4) unfolding entries_def by (auto intro: filter_cong)
  qed
  moreover have "file_byte d k u = file_byte d k s" if "k < 128" for k
    using that t(10) frame_byte [OF u(3) nd] ne by simp
  ultimately have "adds d [x] s u" using u(2,5) t(4) xs fr unfolding adds_def by auto
  moreover have "nextbno u \<le> nextbno s + 2" using u(4) t(11) \<open>slack s d \<le> 1\<close> by simp
  moreover have "x \<noteq> RootFile" using xs fmt_inv_root [OF s] isdir_live by blast
  ultimately show thesis using that [OF t(1) u(1)] u(6) by simp
qed

text \<open>Later changes of the new node itself.\<close>

lemma adds_touch:
  assumes a: "adds d [x] s t" and d: "isdir s d" and u: "frame {x} t u" "fmt_inv u" "\<And>q. live u q \<longleftrightarrow> live t q"
  shows "adds d [x] s u"
proof -
  have x: "\<not> live s x" "live t x" and dt: "isdir t d" using a by (simp_all add: adds_def)
  have ne: "q \<noteq> x" if "isdir s q" for q using that x(1) isdir_live by blast
  note nd = isdir_isnode [OF dt]
  have en: "entries u q = entries t q" if "isdir t q" "q \<noteq> x" for q
    using frame_dslots [OF u(1) isdir_isnode [OF that(1)]] that(2) u(3) [abs_def] by (simp add: entries_def cong: filter_cong)
  have "frame (insert d {q. \<not> live s q}) s u"
    by (rule frame_trans [of _ s t "{x}"]) (use a u x in \<open>auto simp: adds_def\<close>)
  moreover have "isdir u d" using dt frame_ld32 [OF u(1) nd, of F_TYPE] ne [OF d] u(3) by (simp add: isdir_def)
  moreover have "file_byte d k u = file_byte d k t" if "k < 128" for k using frame_byte [OF u(1) nd] ne [OF d] that by simp
  ultimately show ?thesis
    using a u(2,3) en adds_dir [OF a] ne dt d unfolding adds_def by auto
qed

section \<open>Files and directories of the host\<close>

definition name_ok :: "u8 list \<Rightarrow> bool" where
  "name_ok n \<longleftrightarrow> n \<noteq> [] \<and> length n < 128 \<and> 0 \<notin> set n \<and> 0x2F \<notin> set n"

definition dots :: "u8 list \<Rightarrow> bool" where
  "dots n \<longleftrightarrow> n = [0x2E] \<or> n = [0x2E, 0x2E]"

text \<open>Trees of directories and readable files with proper names; the blocks that writing one takes at most.\<close>

fun plain :: "host \<Rightarrow> bool" where
  "plain (Dir es) \<longleftrightarrow> (\<forall>e\<in>set es. dots (fst e) \<or> name_ok (fst e) \<and> plain (snd e))"
| "plain (Reg data) \<longleftrightarrow> data \<noteq> None"
| "plain _ \<longleftrightarrow> False"

fun host_cost :: "host \<Rightarrow> nat" where
  "host_cost (Dir es) = 2 + sum_list (map (\<lambda>e. if dots (fst e) then 0 else host_cost (snd e)) es)"
| "host_cost (Reg (Some data)) = 3 + chunks (length data)"
| "host_cost _ = 0"

text \<open>The node \<open>x\<close> of the image holds what the host has, on nodes of \<open>A\<close> only.\<close>

inductive holds_tree :: "fmt \<Rightarrow> fptr set \<Rightarrow> fptr \<Rightarrow> host \<Rightarrow> bool" for s A where
  reg: "\<lbrakk>x \<in> A; live s x; file_ld32 x F_TYPE s = FTYPE_REG; file_ld32 x F_SIZE s = of_nat (length data); holds s x 0 data\<rbrakk>
    \<Longrightarrow> holds_tree s A x (Reg (Some data))"
| dir: "\<lbrakk>x \<in> A; isdir s x;
     list_all2 (\<lambda>q e. fname s q = fst e \<and> holds_tree s A q (snd e)) (entries s x) (filter (\<lambda>e. \<not> dots (fst e)) es)\<rbrakk>
    \<Longrightarrow> holds_tree s A x (Dir es)"

lemma holds_tree_mono:
  assumes "holds_tree s A x h" "A \<subseteq> B"
  shows "holds_tree s B x h"
  using assms(1)
proof (induction rule: holds_tree.induct)
  case (reg x data)
  then show ?case using assms(2) by (intro holds_tree.reg) auto
next
  case (dir x es)
  then show ?case using assms(2) by (intro holds_tree.dir) (auto elim: list_all2_mono)
qed

text \<open>What has been written stays.\<close>

lemma holds_tree_adds:
  assumes "holds_tree s A x h" "adds d xs s t" "d \<notin> A"
  shows "holds_tree t A x h"
  using assms(1)
proof (induction rule: holds_tree.induct)
  case (reg x data)
  have fr: "frame (insert d {q. \<not> live s q}) s t" and "x \<noteq> d" using assms(2,3) reg(1) by (auto simp: adds_def)
  note n = fr live_isnode [OF reg(2)]
  have m: "x \<notin> insert d {q. \<not> live s q}" using reg(2) \<open>x \<noteq> d\<close> by simp
  show ?case
    using reg adds_live [OF assms(2)] frame_ld32 [OF n m] holds_frame [OF n m] by (intro holds_tree.reg) simp_all
next
  case (dir x es)
  have ne: "x \<noteq> d" using assms(3) dir(1) by auto
  then have "entries t x = entries s x" using assms(2) dir(2) by (simp add: adds_def)
  moreover have "fname t q = fname s q" if "q \<in> set (entries s x)" for q
    using that fname_adds [OF assms(2)] by (simp add: entries_def)
  ultimately show ?case
    using dir adds_dir [OF assms(2)] by (intro holds_tree.dir) (auto elim!: list.rel_mono_strong)
qed

lemma fname_eq:
  assumes "name_ok n" "\<And>k. k < length n \<Longrightarrow> file_byte x k s = n ! k" "file_byte x (length n) s = 0"
  shows "fname s x = n"
proof -
  let ?f = "\<lambda>k. file_byte x k s"
  have l: "length n < 128" using assms(1) by (simp add: name_ok_def)
  then have "[0..<128] = [0..<length n] @ length n # [Suc (length n)..<128]"
    using upt_add_eq_append [of 0 "length n" "128 - length n"] by (simp add: upt_conv_Cons del: upt.simps)
  then have "map ?f [0..<128] = map ?f [0..<length n] @ 0 # map ?f [Suc (length n)..<128]"
    using assms(3) by (simp del: upt.simps)
  moreover have "map ?f [0..<length n] = n" using assms(2) by (intro nth_equalityI) simp_all
  moreover have "\<forall>b\<in>set n. b \<noteq> 0" using assms(1) by (auto simp: name_ok_def)
  ultimately show ?thesis by (simp add: fname_def takeWhile_append2)
qed

lemma write_file_ok:
  assumes s: "fmt_inv s" and d: "isdir s d" and n: "name_ok (after_slash path)" and sp: "nextbno s + 3 + chunks (length data) \<le> 1024"
  obtains x t where "write_file d path (Some data) s = Some t" "adds d [x] s t" "fname t x = after_slash path"
    "holds_tree t {q. live t q \<and> \<not> live s q} x (Reg (Some data))" "nextbno t \<le> nextbno s + 3 + chunks (length data)"
proof -
  let ?n = "after_slash path"
  have bs: "length (?n @ [0]) \<le> 128" "?n @ [0] \<noteq> []" "(?n @ [0]) ! 0 \<noteq> 0"
    using n by (auto simp: name_ok_def nth_append in_set_conv_nth)
  have sp2: "nextbno s + 2 \<le> 1024" using sp by simp
  obtain x t u where u: "create_file d s = Some (x, t)" "store_name x (?n @ [0]) t = Some u" "adds d [x] s u" "x \<noteq> RootFile"
    "\<And>k. k < 256 \<Longrightarrow> file_byte x k u = (if k < length (?n @ [0]) then (?n @ [0]) ! k else 0)" "nextbno u \<le> nextbno s + 2"
    by (rule named_node [OF s d sp2 bs]) (rule that; blast)
  have ui: "fmt_inv u" "live u x" using u(3) by (simp_all add: adds_def)
  have z: "file_ld32 x k u = 0" if "128 \<le> k" "k + 4 \<le> 256" for k using that u(5) bs(1) by (intro file_ld32_zero) simp
  define v where "v = file_st32 x F_SIZE (of_nat (length data)) u"
  have nd: "\<not> isdir u x" using z [of F_TYPE] by (simp add: isdir_def)
  note sv = st_word [OF ui, where fld = F_SIZE and w = "of_nat (length data)", folded v_def, simplified]
  have v: "fmt_inv v" "live v x" using st_file_size [OF ui nd] sv(2) ui by (simp_all add: v_def)
  define w where "w = file_st32 x F_TYPE FTYPE_REG v"
  note sw = st_word [OF v, where fld = F_TYPE and w = FTYPE_REG, folded w_def, simplified]
  have w: "fmt_inv w" "live w x" using st_type [OF v u(4)] sw(2) v by (simp_all add: w_def)
  have wt: "file_ld32 x F_TYPE w = FTYPE_REG" "file_ld32 x F_SIZE w = of_nat (length data)" "indirect w x = 0"
    using sw(6) [of F_TYPE] sw(6) [of F_SIZE] sv(6) [of F_SIZE] sw(4) sv(4) z [of F_INDIRECT] by simp_all
  have nw: "\<not> isdir w x" "slack w x = 1" "nextbno w = nextbno u" using wt by (simp_all add: isdir_def slack_def w_def v_def)
  obtain t' where t': "write_chunks x 0 data w = Some t'" "fmt_inv t'" "frame {x} w t'" "\<forall>q. live t' q \<longleftrightarrow> live w q"
    "\<forall>k<136. file_byte x k t' = file_byte x k w" "holds t' x 0 data" "nextbno t' + slack t' x \<le> nextbno w + chunks (length data) + slack w x"
    using write_chunks_ok [OF w nw(1), of data 0] nw(2,3) u(6) sp by auto
  have "write_file d path (Some data) s = Some t'"
    using u(1,2) t'(1) by (simp add: write_file_def v_def w_def Let_def)
  moreover have "frame {x} u t'" by (rule frame_trans [OF frame_trans [OF sv(1) sw(1)] t'(3)]) auto
  then have a: "adds d [x] s t'" using adds_touch [OF u(3) d _ t'(2)] t'(4) sw(2) sv(2) by simp
  moreover have "file_byte x k t' = file_byte x k u" if "k < 128" for k
    using that t'(5) sw(5) [of k] sv(5) [of k] by simp
  then have "fname t' x = ?n" using u(5) n by (intro fname_eq) (auto simp: name_ok_def nth_append)
  moreover have "file_ld32 x k t' = file_ld32 x k w" if "k + 4 \<le> 136" for k using that t'(5) by (intro file_ld32_cong) simp
  then have "holds_tree t' {q. live t' q \<and> \<not> live s q} x (Reg (Some data))"
    using a wt t'(6) by (intro holds_tree.reg) (simp_all add: adds_def)
  moreover have "nextbno t' \<le> nextbno s + 3 + chunks (length data)" using t'(7) nw(2,3) u(6) by simp
  ultimately show thesis by (rule that)
qed

section \<open>Trees\<close>

definition entry_name :: "u8 list \<Rightarrow> host \<Rightarrow> u8 list" where
  "entry_name path h = (case h of Dir _ \<Rightarrow> basename path | _ \<Rightarrow> after_slash path)"

lemma after_slash_join: "0x2F \<notin> set n \<Longrightarrow> after_slash (path @ 0x2F # n) = n"
proof -
  assume "0x2F \<notin> set n"
  then have "takeWhile (\<lambda>c. c \<noteq> 0x2F) (rev n) = rev n" by (auto simp: takeWhile_eq_all_conv)
  then show ?thesis by (simp add: after_slash_def takeWhile_tail del: takeWhile_eq_all_conv)
qed

lemma basename_join:
  assumes "name_ok n"
  shows "basename (path @ 0x2F # n) = n"
proof -
  have "dropWhile (\<lambda>c. c = 0x2F) (rev n @ 0x2F # rev path) = rev n @ 0x2F # rev path"
    using assms by (cases "rev n") (auto simp: name_ok_def dest: arg_cong [of _ _ set])
  then show ?thesis using assms after_slash_join [of n path] by (simp add: basename_def Let_def name_ok_def)
qed

lemma entry_name_join: "name_ok n \<Longrightarrow> entry_name (path @ 0x2F # n) h = n"
  by (simp add: entry_name_def basename_join after_slash_join name_ok_def split: host.split)

text \<open>What writing \<open>h\<close> into any directory gives.\<close>

definition entry_spec :: "host \<Rightarrow> bool" where
  "entry_spec h \<longleftrightarrow> (\<forall>d path s. fmt_inv s \<longrightarrow> isdir s d \<longrightarrow> name_ok (entry_name path h) \<longrightarrow> nextbno s + host_cost h \<le> 1024 \<longrightarrow>
     (\<exists>x t. write_entry d path h s = Some (Inr t) \<and> adds d [x] s t \<and> fname t x = entry_name path h \<and>
       holds_tree t {q. live t q \<and> \<not> live s q} x h \<and> nextbno t \<le> nextbno s + host_cost h))"

definition tree_cost :: "(u8 list \<times> host) list \<Rightarrow> nat" where
  "tree_cost es = sum_list (map (\<lambda>e. if dots (fst e) then 0 else host_cost (snd e)) es)"

lemma write_entries_ok:
  assumes "\<And>e. e \<in> set es \<Longrightarrow> \<not> dots (fst e) \<Longrightarrow> name_ok (fst e) \<and> entry_spec (snd e)"
    and "fmt_inv s" "isdir s p" "nextbno s + tree_cost es \<le> 1024"
  shows "\<exists>xs t. write_entries p path es s = Some (Inr t) \<and> adds p xs s t \<and>
    list_all2 (\<lambda>q e. fname t q = fst e \<and> holds_tree t {q. live t q \<and> \<not> live s q} q (snd e)) xs (filter (\<lambda>e. \<not> dots (fst e)) es) \<and>
    nextbno t \<le> nextbno s + tree_cost es"
  using assms
proof (induction es arbitrary: s)
  case Nil
  then show ?case using adds_Nil by (auto simp: tree_cost_def)
next
  case (Cons e es)
  obtain n h where e: "e = (n, h)" by (cases e)
  show ?case
  proof (cases "dots n")
    case True
    then show ?thesis using Cons e by (auto simp: tree_cost_def dots_def)
  next
    case False
    have c: "tree_cost (e # es) = host_cost h + tree_cost es" using False e by (simp add: tree_cost_def)
    have n: "name_ok n" "entry_spec h" using Cons.prems(1) [of e] e False by auto
    obtain x t where t: "write_entry p (path @ 0x2F # n) h s = Some (Inr t)" "adds p [x] s t" "fname t x = n"
      "holds_tree t {q. live t q \<and> \<not> live s q} x h" "nextbno t \<le> nextbno s + host_cost h"
      using n(2) [unfolded entry_spec_def, rule_format, of s p "path @ 0x2F # n"] Cons.prems(2-4) n(1) c
      by (auto simp: entry_name_join)
    have ti: "fmt_inv t" "isdir t p" "live t x" "\<And>q. live s q \<Longrightarrow> live t q" using t(2) by (simp_all add: adds_def)
    obtain xs u where u: "write_entries p path es t = Some (Inr u)" "adds p xs t u"
      "list_all2 (\<lambda>q e. fname u q = fst e \<and> holds_tree u {q. live u q \<and> \<not> live t q} q (snd e)) xs (filter (\<lambda>e. \<not> dots (fst e)) es)"
      "nextbno u \<le> nextbno t + tree_cost es"
      using Cons.IH [of t] Cons.prems(1,4) ti c t(5) by auto
    let ?A = "{q. live u q \<and> \<not> live s q}"
    have "list_all2 (\<lambda>q e. fname u q = fst e \<and> holds_tree u ?A q (snd e)) xs (filter (\<lambda>e. \<not> dots (fst e)) es)"
      using u(3) by (rule list_all2_mono) (use ti(4) in \<open>auto elim: holds_tree_mono\<close>)
    moreover have "fname u x = n" using fname_adds [OF u(2) ti(3)] t(3) by simp
    moreover have "holds_tree u ?A x h"
    proof (rule holds_tree_mono)
      show "holds_tree u {q. live t q \<and> \<not> live s q} x h"
        by (rule holds_tree_adds [OF t(4) u(2)]) (use Cons.prems(3) isdir_live in auto)
    qed (use adds_live [OF u(2)] in auto)
    moreover have "write_entries p path (e # es) s = Some (Inr u)"
      using False t(1) u(1) e by (simp add: dots_def)
    moreover have "adds p (x # xs) s u" using adds_append [OF t(2) u(2)] by simp
    ultimately show ?thesis using False e c t(5) u(4) by (intro exI [of _ "x # xs"] exI [of _ u]) simp
  qed
qed

text \<open>A directory gets the first 127 bytes of its name: the test for a longer one reads a byte that is never written.\<close>

lemma write_directory_ok:
  assumes kids: "\<And>e. e \<in> set es \<Longrightarrow> \<not> dots (fst e) \<Longrightarrow> name_ok (fst e) \<and> entry_spec (snd e)"
    and s: "fmt_inv s" and d: "isdir s d" and n: "name_ok (take 127 (basename path))" and sp: "nextbno s + 2 + tree_cost es \<le> 1024"
  shows "\<exists>x t. write_directory d path es s = Some (Inr t) \<and> adds d [x] s t \<and> fname t x = take 127 (basename path) \<and>
    holds_tree t {q. live t q \<and> \<not> live s q} x (Dir es) \<and> nextbno t \<le> nextbno s + 2 + tree_cost es"
proof -
  let ?n = "take 127 (basename path)" and ?f = "name_field (basename path)"
  have nf: "?f = ?n @ replicate (127 - length ?n) 0" "length ?f = 127"
    by (simp_all add: name_field_def min_def)
  have "?f ! 0 = ?n ! 0" "?n ! 0 \<noteq> 0" using n unfolding nf(1) by (auto simp: name_ok_def nth_append in_set_conv_nth)
  then have bs: "length (?f) \<le> 128" "?f \<noteq> []" "?f ! 0 \<noteq> 0" using nf(2) by auto
  have sp2: "nextbno s + 2 \<le> 1024" using sp by simp
  obtain x t u where u: "create_file d s = Some (x, t)" "store_name x (?f) t = Some u" "adds d [x] s u" "x \<noteq> RootFile"
    "\<And>k. k < 256 \<Longrightarrow> file_byte x k u = (if k < length (?f) then ?f ! k else 0)" "nextbno u \<le> nextbno s + 2"
    by (rule named_node [OF s d sp2 bs]) (rule that; blast)
  have ui: "fmt_inv u" "live u x" using u(3) by (simp_all add: adds_def)
  define v where "v = file_st32 x F_TYPE FTYPE_DIR u"
  have z: "file_ld32 x F_SIZE u = 0" using u(5) nf(2) by (intro file_ld32_zero) simp
  note sv = st_word [OF ui, where fld = F_TYPE and w = FTYPE_DIR, folded v_def, simplified]
  have v: "fmt_inv v" "isdir v x" "nextbno v = nextbno u"
    using st_type [OF ui u(4)] z sv(2,6) ui(2) by (simp_all add: v_def isdir_def)
  have a: "adds d [x] s v" using adds_touch [OF u(3) d sv(1) v(1) sv(2)] .
  have "file_ld32 x F_SIZE v = 0" using z sv(6) [of F_SIZE] by simp
  then have e0: "entries v x = []" by (simp add: entries_def dslots_def dblocks_def)
  have room: "nextbno v + tree_cost es \<le> 1024" using v(3) u(6) sp by simp
  obtain xs t' where t': "write_entries x path es v = Some (Inr t')" "adds x xs v t'"
    "list_all2 (\<lambda>q e. fname t' q = fst e \<and> holds_tree t' {q. live t' q \<and> \<not> live v q} q (snd e)) xs (filter (\<lambda>e. \<not> dots (fst e)) es)"
    "nextbno t' \<le> nextbno v + tree_cost es"
    using write_entries_ok [where es = es and path = path, OF kids v(1,2) room] by blast
  have at: "adds d [x] s t'" by (rule adds_inner [OF a d t'(2)])
  have chk: "(case x of RootFile \<Rightarrow> sup u (8 + 127) | Node b i \<Rightarrow> img u b (of_nat (256 * i + 127))) = 0"
    using u(4) u(5) [of 127] nf(2) by (cases x) (simp_all add: file_byte_def)
  have "write_directory d path es s = Some (Inr t')"
    using u(1,2) chk t'(1) by (simp add: v_def)
  moreover have "fname v x = ?n"
  proof (rule fname_eq [OF n])
    have b: "file_byte x k v = file_byte x k u" if "k < 132" for k using that sv(5) [of k] by simp
    have l: "length ?n < 128" using n by (simp add: name_ok_def)
    then show "file_byte x (length ?n) v = 0"
      using b [of "length ?n"] u(5) [of "length ?n"] nf(2) unfolding nf(1) by (auto simp: nth_append)
    show "file_byte x k v = ?n ! k" if "k < length ?n" for k
      using that l b [of k] u(5) [of k] nf(2) unfolding nf(1) by (simp add: nth_append)
  qed
  then have "fname t' x = ?n" using fname_adds [OF t'(2)] isdir_live [OF v(2)] by simp
  moreover have "holds_tree t' {q. live t' q \<and> \<not> live s q} x (Dir es)"
  proof (rule holds_tree.dir)
    show "x \<in> {q. live t' q \<and> \<not> live s q}" using at by (simp add: adds_def)
    show "isdir t' x" using t'(2) by (simp add: adds_def)
    have "entries t' x = xs" using t'(2) e0 by (simp add: adds_def)
    then show "list_all2 (\<lambda>q e. fname t' q = fst e \<and> holds_tree t' {q. live t' q \<and> \<not> live s q} q (snd e))
        (entries t' x) (filter (\<lambda>e. \<not> dots (fst e)) es)"
      using t'(3) adds_live [OF a] by (auto elim!: list_all2_mono elim: holds_tree_mono)
  qed
  ultimately show ?thesis using at t'(4) v(3) u(6) by (intro exI [of _ x] exI [of _ t']) simp
qed

lemma write_entry_ok: "plain h \<Longrightarrow> entry_spec h"
proof (induction h)
  case (Dir es)
  have kids: "name_ok (fst e) \<and> entry_spec (snd e)" if "e \<in> set es" "\<not> dots (fst e)" for e
    using Dir that by (cases e) auto
  have c: "host_cost (Dir es) = 2 + tree_cost es" by (simp add: tree_cost_def)
  show ?case
    unfolding entry_spec_def
  proof (intro allI impI)
    fix d path s
    assume *: "fmt_inv s" "isdir s d" "name_ok (entry_name path (Dir es))" "nextbno s + host_cost (Dir es) \<le> 1024"
    have n: "entry_name path (Dir es) = basename path" "take 127 (basename path) = basename path"
      using *(3) by (simp_all add: entry_name_def name_ok_def)
    have "nextbno s + 2 + tree_cost es \<le> 1024" "name_ok (take 127 (basename path))" using * n c by simp_all
    then have "\<exists>x t. write_directory d path es s = Some (Inr t) \<and> adds d [x] s t \<and> fname t x = take 127 (basename path) \<and>
        holds_tree t {q. live t q \<and> \<not> live s q} x (Dir es) \<and> nextbno t \<le> nextbno s + 2 + tree_cost es"
      using kids *(1,2) by (intro write_directory_ok) auto
    then show "\<exists>x t. write_entry d path (Dir es) s = Some (Inr t) \<and> adds d [x] s t \<and> fname t x = entry_name path (Dir es) \<and>
        holds_tree t {q. live t q \<and> \<not> live s q} x (Dir es) \<and> nextbno t \<le> nextbno s + host_cost (Dir es)"
      unfolding n c by (simp only: write_entry.simps host.case add.assoc)
  qed
next
  case (Reg data)
  then obtain d where "data = Some d" by auto
  then show ?case
    unfolding entry_spec_def using write_file_ok [where data = d]
    by (simp add: entry_name_def add.assoc) metis
qed simp_all

end
