(* ===== verification/MOS_Format.thy ===== *)
theory MOS_Format
  imports MOS_FsTree
begin

text \<open>
  The formatter and the server together: the image that \<^verbatim>\<open>tools/fsformat.c\<close> writes holds the host's files, the
  server of \<^verbatim>\<open>fs/fs.c\<close> mounts it, and the free blocks are those the formatter did not use.
\<close>

section \<open>The start\<close>

lemma bit_byte: "bit (w::u32) n \<longleftrightarrow> bit (word_byte w (n div 8)) (n mod 8)"
  by (simp add: word_byte_def bit_ucast_iff bit_drop_bit_eq)

definition fmt_start :: fmt where
  "fmt_start = init_disk fmt_zero"

lemma fmt_start_simps:
  "nextbno fmt_start = 3" "types fmt_start = (\<lambda>_. 0)(0 := BLOCK_BOOT, 2 := BLOCK_BMAP, 1 := BLOCK_SUPER)"
  "img fmt_start = (\<lambda>_ _. 0)(2 := filled 128 0 3968 (filled 0 0xFF 4096 (\<lambda>_. 0)))"
  "sup fmt_start = store_bytes 8 [0x2F, 0] (st32 140 FTYPE_DIR (st32 4 1024 (st32 0 FS_MAGIC (\<lambda>_. 0))))"
  by (simp_all add: fmt_start_def init_disk_def fmt_zero_def numeral_2_eq_2)

lemma sup_start:
  assumes "k < 8192"
  shows "sup fmt_start (of_nat k) = (if k < 4 then word_byte FS_MAGIC k else if k < 8 then word_byte 1024 (k - 4)
    else if k = 8 then 0x2F else if 140 \<le> k \<and> k < 144 then word_byte FTYPE_DIR (k - 140) else 0)"
  using assms store_bytes_at [of 8 "[0x2F, 0]" k] st32_byte [of 140 k] st32_byte [of 4 k] st32_byte [of 0 k]
  by (auto simp: fmt_start_simps nth_Cons split: nat.split)

lemma fmt_start_node: "isnode fmt_start p \<longleftrightarrow> p = RootFile"
  by (auto simp: isnode_def fmt_start_simps split: fptr.splits)

lemma fmt_start_root:
  "live fmt_start RootFile" "file_ld32 RootFile F_TYPE fmt_start = FTYPE_DIR"
  "file_ld32 RootFile F_SIZE fmt_start = 0" "file_ld32 RootFile F_INDIRECT fmt_start = 0"
proof -
  have b: "file_byte RootFile k fmt_start = (if k = 0 then 0x2F else if 132 \<le> k \<and> k < 136 then word_byte FTYPE_DIR (k - 132) else 0)"
    if "k < 256" for k
    using sup_start [of "8 + k"] that by (auto simp: file_byte_def)
  show "live fmt_start RootFile" using b [of 0] by (simp add: live_def isnode_def)
  show "file_ld32 RootFile F_TYPE fmt_start = FTYPE_DIR" by (rule word_byte_eqI) (simp add: file_ld32_byte b)
  show "file_ld32 RootFile F_SIZE fmt_start = 0" "file_ld32 RootFile F_INDIRECT fmt_start = 0"
    by (rule file_ld32_zero, simp add: b)+
qed

lemma fmt_start_inv: "fmt_inv fmt_start" "isdir fmt_start RootFile" "entries fmt_start RootFile = []"
proof -
  have d: "isdir fmt_start p \<longleftrightarrow> p = RootFile" for p
    using fmt_start_root by (auto simp: isdir_def fmt_start_node dest: live_isnode)
  then show "isdir fmt_start RootFile" by simp
  have b: "dblocks fmt_start RootFile = []" by (simp add: dblocks_def fmt_start_root)
  then show "entries fmt_start RootFile = []" by (simp add: entries_def dslots_def)
  show "fmt_inv fmt_start"
    using fmt_start_root d b
    by (auto simp: fmt_inv_def fmt_start_node node_inv_def dir_inv_def dslots_def fmt_start_simps)
qed

lemma start_bitmap:
  assumes "b < 1024"
  shows "bit (ld32 (img fmt_start 2) (of_nat (4 * (b div 32)))) (b mod 32)"
proof -
  have j: "b mod 32 div 8 < 4" by (simp add: less_mult_imp_div_less)
  moreover have "b div 32 < 32" using assms by (simp add: less_mult_imp_div_less)
  ultimately have "4 * (b div 32) + b mod 32 div 8 < 128" by linarith
  then have "img fmt_start 2 (of_nat (4 * (b div 32) + b mod 32 div 8)) = 0xFF"
    by (simp add: fmt_start_simps filled_def unat_of_nat32 unat_sub_if' del: of_nat_add of_nat_mult)
  moreover have "bit (0xFF :: u8) (b mod 32 mod 8)"
  proof -
    have m: "(0xFF :: u8) = mask 8" by (simp add: mask_eq_exp_minus_1)
    show ?thesis unfolding m bit_mask_iff by simp
  qed
  ultimately show ?thesis using j by (subst bit_byte) (simp add: word_byte_ld32)
qed

section \<open>The arguments\<close>

definition args_cost :: "(u8 list \<times> host option) list \<Rightarrow> nat" where
  "args_cost args = sum_list (map (\<lambda>(_, h). case h of None \<Rightarrow> 0 | Some h \<Rightarrow> host_cost h) args)"

definition arg_ok :: "u8 list \<times> host option \<Rightarrow> bool" where
  "arg_ok a = (case a of (_, None) \<Rightarrow> False | (path, Some h) \<Rightarrow> plain h \<and> name_ok (entry_name path h))"

lemma write_args_ok:
  assumes "\<And>a. a \<in> set args \<Longrightarrow> arg_ok a" "fmt_inv s" "isdir s RootFile" "nextbno s + args_cost args \<le> 1024"
  shows "\<exists>xs t. write_args args s = Some (Inr t) \<and> adds RootFile xs s t \<and>
    list_all2 (\<lambda>q (path, h). fname t q = entry_name path (the h) \<and> holds_tree t {q. live t q \<and> \<not> live s q} q (the h)) xs args \<and>
    nextbno t \<le> nextbno s + args_cost args"
  using assms
proof (induction args arbitrary: s)
  case Nil
  then show ?case using adds_Nil by (auto simp: args_cost_def)
next
  case (Cons a args)
  obtain path h where a: "a = (path, Some h)" "plain h" "name_ok (entry_name path h)"
    using Cons.prems(1) [of a] by (auto simp: arg_ok_def split: prod.splits option.splits)
  have c: "args_cost (a # args) = host_cost h + args_cost args" using a by (simp add: args_cost_def)
  obtain x t where t: "write_entry RootFile path h s = Some (Inr t)" "adds RootFile [x] s t" "fname t x = entry_name path h"
    "holds_tree t {q. live t q \<and> \<not> live s q} x h" "nextbno t \<le> nextbno s + host_cost h"
    using write_entry_ok [OF a(2), unfolded entry_spec_def, rule_format, of s RootFile path] Cons.prems(2-4) a(3) c by auto
  have ti: "fmt_inv t" "isdir t RootFile" "live t x" "\<And>q. live s q \<Longrightarrow> live t q" using t(2) by (simp_all add: adds_def)
  obtain xs u where u: "write_args args t = Some (Inr u)" "adds RootFile xs t u"
    "list_all2 (\<lambda>q (path, h). fname u q = entry_name path (the h) \<and> holds_tree u {q. live u q \<and> \<not> live t q} q (the h)) xs args"
    "nextbno u \<le> nextbno t + args_cost args"
    using Cons.IH [of t] Cons.prems(1,4) ti c t(5) by auto
  let ?A = "{q. live u q \<and> \<not> live s q}"
  have "list_all2 (\<lambda>q (path, h). fname u q = entry_name path (the h) \<and> holds_tree u ?A q (the h)) xs args"
    using u(3) by (rule list_all2_mono) (use ti(4) in \<open>auto elim: holds_tree_mono\<close>)
  moreover have "fname u x = entry_name path h" using fname_adds [OF u(2) ti(3)] t(3) by simp
  moreover have "holds_tree u ?A x h"
  proof (rule holds_tree_mono)
    show "holds_tree u {q. live t q \<and> \<not> live s q} x h"
      by (rule holds_tree_adds [OF t(4) u(2)]) (use Cons.prems(3) isdir_live in auto)
  qed (use adds_live [OF u(2)] in auto)
  moreover have "write_args (a # args) s = Some (Inr u)"
    using t(1) u(1) a(1,2) by (cases h) simp_all
  moreover have "adds RootFile (x # xs) s u" using adds_append [OF t(2) u(2)] by simp
  ultimately show ?case using a(1) c t(5) u(4) by (intro exI [of _ "x # xs"] exI [of _ u]) simp
qed

section \<open>The image\<close>

lemma clear_used_ok:
  assumes "i < 1024"
  shows "c \<noteq> 2 \<Longrightarrow> img (clear_used i s) c = img s c" "sup (clear_used i s) = sup s" "types (clear_used i s) = types s"
    "b < 32768 \<Longrightarrow> bit (ld32 (img (clear_used i s) 2) (of_nat (4 * (b div 32)))) (b mod 32) \<longleftrightarrow>
       b \<noteq> i \<and> bit (ld32 (img s 2) (of_nat (4 * (b div 32)))) (b mod 32)"
proof -
  have i: "i div 32768 = 0" "i mod 32768 = i" using assms by simp_all
  show "c \<noteq> 2 \<Longrightarrow> img (clear_used i s) c = img s c" "sup (clear_used i s) = sup s" "types (clear_used i s) = types s"
    by (simp_all add: clear_used_def Let_def i)
  assume b: "b < 32768"
  let ?k = "4 * (i div 32)"
  have im: "img (clear_used i s) 2 = st32 (of_nat ?k) (ld32 (img s 2) (of_nat ?k) AND NOT (push_bit (i mod 32) 1)) (img s 2)"
    unfolding clear_used_def Let_def i by simp
  have "b div 32 < 1024" "i div 32 < 1024" using b assms by (simp_all add: less_mult_imp_div_less)
  then have ld: "ld32 (img (clear_used i s) 2) (of_nat (4 * (b div 32))) =
      (if i div 32 = b div 32 then ld32 (img s 2) (of_nat ?k) AND NOT (push_bit (i mod 32) 1) else ld32 (img s 2) (of_nat (4 * (b div 32))))"
    unfolding im by (subst ld32_st32_aligned) simp_all
  show "bit (ld32 (img (clear_used i s) 2) (of_nat (4 * (b div 32)))) (b mod 32) \<longleftrightarrow>
      b \<noteq> i \<and> bit (ld32 (img s 2) (of_nat (4 * (b div 32)))) (b mod 32)"
  proof (cases "i div 32 = b div 32")
    case True
    then have "b = i \<longleftrightarrow> b mod 32 = i mod 32" using div_mod_32_eq [of b i] by auto
    then show ?thesis unfolding ld if_P [OF True] bit_clear_push_bit_1 by (simp add: True)
  next
    case False
    then have "b \<noteq> i" by auto
    then show ?thesis unfolding ld if_not_P [OF False] by simp
  qed
qed

lemma clear_all_ok:
  assumes "n \<le> 1024"
  shows "c \<noteq> 2 \<Longrightarrow> img (fold clear_used [0..<n] s) c = img s c" "sup (fold clear_used [0..<n] s) = sup s"
    "b < 32768 \<Longrightarrow> bit (ld32 (img (fold clear_used [0..<n] s) 2) (of_nat (4 * (b div 32)))) (b mod 32) \<longleftrightarrow>
       n \<le> b \<and> bit (ld32 (img s 2) (of_nat (4 * (b div 32)))) (b mod 32)"
proof -
  have "n \<le> 1024 \<longrightarrow> (c \<noteq> 2 \<longrightarrow> img (fold clear_used [0..<n] s) c = img s c) \<and> sup (fold clear_used [0..<n] s) = sup s \<and>
      (b < 32768 \<longrightarrow> bit (ld32 (img (fold clear_used [0..<n] s) 2) (of_nat (4 * (b div 32)))) (b mod 32) =
        (n \<le> b \<and> bit (ld32 (img s 2) (of_nat (4 * (b div 32)))) (b mod 32)))"
  proof (induction n)
    case (Suc n)
    have st: "fold clear_used [0..<Suc n] s = clear_used n (fold clear_used [0..<n] s)" by simp
    have "Suc n \<le> b \<longleftrightarrow> b \<noteq> n \<and> n \<le> b" by auto
    then show ?case unfolding st using Suc clear_used_ok [of n] by (simp del: of_nat_mult)
  qed simp
  with assms show "c \<noteq> 2 \<Longrightarrow> img (fold clear_used [0..<n] s) c = img s c" "sup (fold clear_used [0..<n] s) = sup s"
    "b < 32768 \<Longrightarrow> bit (ld32 (img (fold clear_used [0..<n] s) 2) (of_nat (4 * (b div 32)))) (b mod 32) \<longleftrightarrow>
       n \<le> b \<and> bit (ld32 (img s 2) (of_nat (4 * (b div 32)))) (b mod 32)" by blast+
qed

text \<open>The image file as the disk of the server.\<close>

definition sectors_of :: "(nat \<Rightarrow> bytemem) \<Rightarrow> u32 \<Rightarrow> nat \<Rightarrow> u8" where
  "sectors_of dsk = (\<lambda>sec off. dsk (unat sec div 8) (of_nat (512 * (unat sec mod 8) + off)))"

lemma disk_block_sectors: "b < 0xF0000 \<Longrightarrow> k < 4096 \<Longrightarrow> disk_block (sectors_of dsk) b k = dsk b (of_nat k)"
proof -
  assume b: "b < 0xF0000" and k: "k < 4096"
  have j: "k div 512 < 8" using k by (simp add: less_mult_imp_div_less)
  have "unat (of_nat (8 * b) + of_nat (k div 512) :: u32) = k div 512 + b * 8"
    using b j by (simp add: unat_of_nat32 flip: of_nat_add of_nat_mult)
  with j show ?thesis by (simp add: disk_block_def sectors_of_def flip: of_nat_add)
qed

lemma disk_mem_word:
  assumes "b < 0xF0000" "k + 4 \<le> 4096"
  shows "ld32 (disk_mem (sectors_of dsk)) (disk_addr (of_nat b) + of_nat k) = ld32 (dsk b) (of_nat k)"
proof (rule word_byte_eqI)
  fix j :: nat assume j: "j < 4"
  then have "disk_mem (sectors_of dsk) (disk_addr (of_nat b) + of_nat (k + j)) = dsk b (of_nat (k + j))"
    using assms by (simp add: disk_mem_block disk_block_sectors del: of_nat_add)
  with j show "word_byte (ld32 (disk_mem (sectors_of dsk)) (disk_addr (of_nat b) + of_nat k)) j = word_byte (ld32 (dsk b) (of_nat k)) j"
    by (simp add: word_byte_ld32 add.assoc)
qed

lemma bitmap_word_block: "b \<le> 1024 \<Longrightarrow> bitmap_word b = disk_addr (of_nat 2) + of_nat (4 * (b div 32))"
proof -
  assume b: "b \<le> 1024"
  then have "b div 32 \<le> 32" by linarith
  then show ?thesis using b unat_in_block [of 2 "4 * (b div 32)"] by (simp add: word_unat_eq_iff unat_bitmap_word)
qed

text \<open>The finished image: the super block and the bitmap are written last, the other blocks are as they were.\<close>

lemma finished:
  assumes t: "frame P fmt_start t" "3 \<le> nextbno t" "nextbno t \<le> 1024"
  defines "dsk \<equiv> finish_fs False (flush_bitmap t)"
  shows "3 \<le> b \<Longrightarrow> dsk b = img t b" "k < 264 \<Longrightarrow> dsk 1 (of_nat k) = sup t (of_nat k)"
    "b < 1024 \<Longrightarrow> bit (ld32 (disk_mem (sectors_of dsk)) (bitmap_word b)) (b mod 32) \<longleftrightarrow> nextbno t \<le> b"
    "image_ok 1024 (sectors_of dsk)"
proof -
  note m = clear_all_ok [OF t(3), where s = t, folded flush_bitmap_def]
  show "3 \<le> b \<Longrightarrow> dsk b = img t b" for b by (simp add: dsk_def finish_fs_def Let_def m(1))
  show s: "dsk 1 (of_nat k) = sup t (of_nat k)" if "k < 264" for k
    using that by (simp add: dsk_def finish_fs_def Let_def m(2) unat_of_nat32)
  have "img t 2 = img fmt_start 2" using t(1) by (simp add: frame_def fmt_start_simps)
  then show bits: "bit (ld32 (disk_mem (sectors_of dsk)) (bitmap_word b)) (b mod 32) \<longleftrightarrow> nextbno t \<le> b" if b: "b < 1024" for b
  proof -
    assume i: "img t 2 = img fmt_start 2"
    have k: "4 * (b div 32) + 4 \<le> 4096" using b by linarith
    have "dsk 2 = img (flush_bitmap t) 2" by (simp add: dsk_def finish_fs_def Let_def)
    then show ?thesis
      using disk_mem_word [of 2 "4 * (b div 32)", OF _ k, of dsk] m(3) [of b] start_bitmap [OF b] b i
      by (simp add: bitmap_word_block del: of_nat_mult)
  qed
  have w: "ld32 (disk_mem (sectors_of dsk)) (disk_addr 1 + of_nat k) = v"
    if "k \<le> 4" "\<And>j. j < 4 \<Longrightarrow> sup fmt_start (of_nat (k + j)) = word_byte v j" for k v
  proof -
    have "word_byte (ld32 (dsk 1) (of_nat k)) j = word_byte v j" if "j < 4" for j
      using s [of "k + j"] t(1) that \<open>k \<le> 4\<close> \<open>\<And>j. j < 4 \<Longrightarrow> sup fmt_start (of_nat (k + j)) = word_byte v j\<close>
      by (simp add: word_byte_ld32 frame_def flip: of_nat_add)
    then have "ld32 (dsk 1) (of_nat k) = v" by (rule word_byte_eqI)
    then show ?thesis using disk_mem_word [of 1 k dsk] that(1) by simp
  qed
  have "ld32 (disk_mem (sectors_of dsk)) (disk_addr 1) = FS_MAGIC" using w [of 0 FS_MAGIC] by (simp add: sup_start)
  moreover have "ld32 (disk_mem (sectors_of dsk)) (disk_addr 1 + 4) = 1024" using w [of 4 1024] sup_start [of "4 + _"] by simp
  moreover have "\<not> bit (ld32 (disk_mem (sectors_of dsk)) (bitmap_word b)) (b mod 32)" if "b \<le> 2" for b using bits [of b] t(2) that by simp
  ultimately show "image_ok 1024 (sectors_of dsk)" by (simp add: image_ok_def)
qed

lemma fsformat_ok:
  assumes "args \<noteq> []" "\<And>a. a \<in> set args \<Longrightarrow> arg_ok a" "args_cost args \<le> 1021"
  obtains t where "write_args args (init_disk fmt_zero) = Some (Inr t)"
    "fsformat_main False args = Some (Inr (finish_fs False (flush_bitmap t)))" "nextbno t \<le> 3 + args_cost args"
    "list_all2 (\<lambda>q (path, h). fname t q = entry_name path (the h) \<and> holds_tree t UNIV q (the h)) (entries t RootFile) args"
    "fmt_inv t" "frame (insert RootFile {q. \<not> live fmt_start q}) fmt_start t"
proof -
  have room: "nextbno fmt_start + args_cost args \<le> 1024" using assms(3) by (simp add: fmt_start_simps)
  obtain xs t where t: "write_args args fmt_start = Some (Inr t)" "adds RootFile xs fmt_start t"
    "list_all2 (\<lambda>q (path, h). fname t q = entry_name path (the h) \<and> holds_tree t {q. live t q \<and> \<not> live fmt_start q} q (the h)) xs args"
    "nextbno t \<le> nextbno fmt_start + args_cost args"
    using write_args_ok [OF assms(2) fmt_start_inv(1,2) room] by blast
  have "entries t RootFile = xs" using t(2) fmt_start_inv(3) by (simp add: adds_def)
  moreover have "list_all2 (\<lambda>q (path, h). fname t q = entry_name path (the h) \<and> holds_tree t UNIV q (the h)) xs args"
    using t(3) by (rule list_all2_mono) (auto elim: holds_tree_mono)
  ultimately show thesis
    using t assms(1) by (intro that [of t]) (simp_all add: fmt_start_def fsformat_main_def adds_def fmt_start_simps [unfolded fmt_start_def])
qed

section \<open>The blocks in use\<close>

text \<open>Every block below the next one to use has been taken: it has a type.\<close>

definition no_gaps :: "fmt \<Rightarrow> bool" where
  "no_gaps s \<longleftrightarrow> (\<forall>b<nextbno s. types s b \<noteq> BLOCK_FREE)"

lemma no_gaps_cong: "types t = types s \<Longrightarrow> nextbno t = nextbno s \<Longrightarrow> no_gaps s \<Longrightarrow> no_gaps t"
  by (simp add: no_gaps_def)

lemma no_gaps_st32 [simp]: "no_gaps (file_st32 f k w s) = no_gaps s"
  by (simp add: no_gaps_def)

lemma no_gaps_next: "next_block ty s = Some (b, t) \<Longrightarrow> ty \<noteq> BLOCK_FREE \<Longrightarrow> no_gaps s \<Longrightarrow> no_gaps t"
  by (auto simp: next_block_def no_gaps_def split: if_splits)

lemma no_gaps_link: "save_block_link f n b s = Some t \<Longrightarrow> no_gaps s \<Longrightarrow> no_gaps t"
  using no_gaps_next [of BLOCK_INDEX s]
  by (auto simp: save_block_link_def Let_def split: if_splits bind_splits intro: no_gaps_cong [rotated 2])

lemma no_gaps_create: "create_file d s = Some (f, t) \<Longrightarrow> no_gaps s \<Longrightarrow> no_gaps t"
  using no_gaps_next [of BLOCK_FILE s] no_gaps_link
  by (auto simp: create_file_def make_link_block_def Let_def split: bind_splits option.splits)

lemma no_gaps_name: "store_name f bs s = Some t \<Longrightarrow> no_gaps s \<Longrightarrow> no_gaps t"
  by (auto simp: store_name_def no_gaps_def split: fptr.splits if_splits)

lemma no_gaps_chunks: "write_chunks f i data s = Some t \<Longrightarrow> no_gaps s \<Longrightarrow> no_gaps t"
proof (induction f i data s rule: write_chunks.induct)
  case (1 f i data s)
  show ?case
  proof (cases "data = []")
    case True
    then show ?thesis using 1 by (simp add: write_chunks.simps)
  next
    case False
    let ?s = "s\<lparr>img := (img s)(nextbno s := store_bytes 0 (take 4096 data) (img s (nextbno s)))\<rparr>"
    obtain bno s1 s2 where s: "nextbno s < NBLOCK" "next_block BLOCK_DATA ?s = Some (bno, s1)"
      "save_block_link f i bno s1 = Some s2" "write_chunks f (i + 1) (drop 4096 data) s2 = Some t"
      using 1(2) False by (auto simp: write_chunks.simps [of f i data] Let_def split: if_splits bind_splits)
    have "no_gaps ?s" using 1(3) by (auto intro: no_gaps_cong [rotated 2])
    then have "no_gaps s2" using no_gaps_link [OF s(3) no_gaps_next [OF s(2)]] by simp
    then show ?thesis using 1(1) [OF False _ refl s(2) refl s(3,4)] s(1) by simp
  qed
qed

lemma no_gaps_file: "write_file d path data s = Some t \<Longrightarrow> no_gaps s \<Longrightarrow> no_gaps t"
  by (auto simp: write_file_def Let_def split: bind_splits dest!: no_gaps_chunks no_gaps_name no_gaps_create)

lemma no_gaps_tree:
  "write_directory d path es s = Some (Inr t) \<Longrightarrow> no_gaps s \<Longrightarrow> no_gaps t"
  "write_entry d path h s = Some (Inr t) \<Longrightarrow> no_gaps s \<Longrightarrow> no_gaps t"
  "write_entries d path es s = Some (Inr t) \<Longrightarrow> no_gaps s \<Longrightarrow> no_gaps t"
proof (induction d path es s and d path h s and d path es s arbitrary: t and t and t
    rule: write_directory_write_entry_write_entries.induct)
  case (1 d path es s)
  obtain pdir s1 s2 where s: "create_file d s = Some (pdir, s1)"
    "store_name pdir (name_field (basename path)) s1 = Some s2"
    "write_entries pdir path es (file_st32 pdir F_TYPE FTYPE_DIR s2) = Some (Inr t)"
    using 1(2) by (auto split: bind_splits if_splits)
  moreover have "no_gaps (file_st32 pdir F_TYPE FTYPE_DIR s2)"
    using no_gaps_name [OF s(2) no_gaps_create [OF s(1) 1(3)]] by simp
  ultimately show ?case using 1(1) 1(2) by (auto split: bind_splits if_splits)
next
  case (2 d path h s)
  then show ?case by (auto split: host.splits intro: no_gaps_file)
next
  case (4 d path name h es s)
  then show ?case by (auto split: if_splits bind_splits sum.splits)
qed auto

lemma no_gaps_args: "write_args args s = Some (Inr t) \<Longrightarrow> no_gaps s \<Longrightarrow> no_gaps t"
proof (induction args arbitrary: s)
  case (Cons a args)
  obtain name h where a: "a = (name, h)" by (cases a)
  obtain g s1 where s1: "write_entry RootFile name g s = Some (Inr s1)" "write_args args s1 = Some (Inr t)"
    using Cons.prems(1) a by (auto simp del: write_entry.simps split: bind_splits sum.splits option.splits host.splits)
  then show ?case
    using Cons.IH [OF s1(2) no_gaps_tree(2) [OF s1(1) Cons.prems(2)]] by simp
qed simp

lemma no_gaps_start: "no_gaps fmt_start"
  by (auto simp: no_gaps_def fmt_start_simps less_Suc_eq eval_nat_numeral)

text \<open>The nodes below a node, and the blocks a node in use refers to: the blocks of a directory or of
  the bytes of a file, and the block of links.\<close>

inductive below :: "fmt \<Rightarrow> fptr \<Rightarrow> fptr \<Rightarrow> bool" for t x where
  self: "below t x x"
| entry: "below t x d \<Longrightarrow> isdir t d \<Longrightarrow> q \<in> set (entries t d) \<Longrightarrow> below t x q"

definition node_blocks :: "fmt \<Rightarrow> fptr \<Rightarrow> nat set" where
  "node_blocks t p =
     (if isdir t p then set (dblocks t p)
      else {b. \<exists>i. i * 4096 < unat (file_ld32 p F_SIZE t) \<and> block_link p i t = Some b}) \<union>
     (if indirect t p = 0 then {} else {indirect t p})"

lemma dir_blocks_used:
  assumes "fmt_inv t" "isdir t p" "b \<in> node_blocks t p"
  shows "3 \<le> b \<and> types t b \<noteq> BLOCK_FREE"
proof -
  have "types t b = BLOCK_FILE \<or> types t b = BLOCK_INDEX"
    using assms dir_inv_block [OF fmt_inv_dir [OF assms(1,2)]] fmt_inv_node [OF assms(1) isdir_isnode [OF assms(2)]]
    by (auto simp: node_blocks_def node_inv_def split: if_splits)
  then show ?thesis using assms(1) by (auto simp: fmt_inv_def)
qed

lemma file_blocks_used:
  assumes "fmt_inv t" "live t p" "\<not> isdir t p" "file_ld32 p F_SIZE t = of_nat (length data)" "holds t p 0 data"
    and b: "b \<in> node_blocks t p"
  shows "3 \<le> b \<and> types t b \<noteq> BLOCK_FREE"
proof -
  have "types t b = BLOCK_DATA" if "i * 4096 < unat (file_ld32 p F_SIZE t)" "block_link p i t = Some b" for i
  proof -
    have "unat (file_ld32 p F_SIZE t) \<le> length data" by (simp add: assms(4) unat_of_nat take_bit_eq_mod)
    with that(1) have "i * 4096 < length data" by simp
    then show ?thesis using assms(5) that(2) unfolding holds_def by fastforce
  qed
  then have "types t b = BLOCK_DATA \<or> types t b = BLOCK_INDEX"
    using assms(3) b fmt_inv_node [OF assms(1) live_isnode [OF assms(2)]]
    by (auto simp: node_blocks_def node_inv_def split: if_splits)
  then show ?thesis using assms(1) by (auto simp: fmt_inv_def)
qed

lemma tree_blocks_used:
  assumes inv: "fmt_inv t" and h: "holds_tree t UNIV q h" and b: "b \<in> node_blocks t q"
  shows "3 \<le> b \<and> types t b \<noteq> BLOCK_FREE"
  using h
proof cases
  case (reg data)
  then show ?thesis using file_blocks_used [OF inv, of q data b] b by (auto simp: isdir_def)
next
  case dir
  then show ?thesis using dir_blocks_used [OF inv _ b] by simp
qed

lemma below_tree:
  assumes "below t RootFile q" "\<forall>x\<in>set (entries t RootFile). \<exists>h. holds_tree t UNIV x h"
  shows "q = RootFile \<or> (\<exists>h. holds_tree t UNIV q h)"
  using assms
proof (induction rule: below.induct)
  case (entry d q)
  from entry.IH [OF entry.prems] consider "d = RootFile" | h where "holds_tree t UNIV d h" by (elim disjE exE)
  then show ?case
  proof cases
    case 1
    then show ?thesis using entry(3) entry.prems by simp
  next
    case 2
    then show ?thesis
    proof cases
      case (dir es)
      obtain e where "holds_tree t UNIV q (snd e)"
        using dir entry(3) by (auto simp: list_all2_conv_all_nth in_set_conv_nth)
      then show ?thesis by blast
    qed (use entry(2) in \<open>simp add: isdir_def\<close>)
  qed
qed simp

section \<open>Properties\<close>

text \<open>C12. An image for the server: for host files and directories with proper names that fit on the disk,
  \<^verbatim>\<open>fsformat\<close> ends with an image, the server's \<^verbatim>\<open>fs_init\<close> mounts it on every disk that holds it, and the blocks that
  are free then are exactly those the formatter has not taken: with \<open>t\<close> the state of the tool after the last
  argument, the blocks from \<^verbatim>\<open>nextbno\<close> on, which are the blocks without a type. Among the blocks that are not
  free are the boot block, the super block, the bitmap, and every block of every node of the tree: the blocks of the
  directories, the blocks that hold the bytes of the files, and the blocks of links. So the server never hands out a
  block the image uses.\<close>

theorem fsformat_mounts:
  assumes "args \<noteq> []" "\<And>a. a \<in> set args \<Longrightarrow> arg_ok a" "args_cost args \<le> 1021"
  shows "\<exists>t dsk. write_args args (init_disk fmt_zero) = Some (Inr t) \<and> fsformat_main False args = Some (Inr dsk) \<and>
    3 \<le> nextbno t \<and> nextbno t \<le> 3 + args_cost args \<and> (\<forall>b. types t b = BLOCK_FREE \<longleftrightarrow> nextbno t \<le> b) \<and>
    (\<forall>q. below t RootFile q \<longrightarrow> node_blocks t q \<subseteq> {3..<nextbno t}) \<and>
    (\<forall>s. disk s = sectors_of dsk \<and> super s = 0 \<and> bitmap s = 0 \<and> (\<forall>i. \<not> oom s i) \<and>
        (\<forall>b<0xF0000. \<not> block_is_mapped (of_nat b) s) \<longrightarrow>
      (\<exists>s'. fs_init s = Some s' \<and> fs_ready 1024 s' \<and> disk s' = disk s \<and>
        (\<forall>b<1024. blk_free s' b \<longleftrightarrow> types t b = BLOCK_FREE)))"
proof -
  obtain t where w: "write_args args (init_disk fmt_zero) = Some (Inr t)"
    and t: "fsformat_main False args = Some (Inr (finish_fs False (flush_bitmap t)))" "nextbno t \<le> 3 + args_cost args"
      "fmt_inv t" "frame (insert RootFile {q. \<not> live fmt_start q}) fmt_start t"
    and tree: "list_all2 (\<lambda>q (path, h). fname t q = entry_name path (the h) \<and> holds_tree t UNIV q (the h)) (entries t RootFile) args"
    by (rule fsformat_ok [OF assms]) (assumption, rule that)
  have n: "3 \<le> nextbno t" "nextbno t \<le> 1024" using t(3) by (simp_all add: fmt_inv_def)
  note fin = finished [OF t(4) n]
  have free: "types t b = BLOCK_FREE \<longleftrightarrow> nextbno t \<le> b" for b
    using no_gaps_args [OF w [folded fmt_start_def] no_gaps_start] fmt_inv_zero [OF t(3), of b]
    by (cases "nextbno t \<le> b") (auto simp: no_gaps_def)
  have "\<forall>x\<in>set (entries t RootFile). \<exists>h. holds_tree t UNIV x h"
    using tree by (fastforce simp: list_all2_conv_all_nth in_set_conv_nth)
  note sub = below_tree [OF _ this]
  have "node_blocks t q \<subseteq> {3..<nextbno t}" if "below t RootFile q" for q
    using sub [OF that] dir_blocks_used [OF t(3) fmt_inv_root [OF t(3)]] tree_blocks_used [OF t(3)] free by fastforce
  moreover have "\<exists>s'. fs_init s = Some s' \<and> fs_ready 1024 s' \<and> disk s' = disk s \<and>
      (\<forall>b<1024. blk_free s' b \<longleftrightarrow> types t b = BLOCK_FREE)"
    if "disk s = sectors_of (finish_fs False (flush_bitmap t))" "super s = 0" "bitmap s = 0" "\<forall>i. \<not> oom s i"
      "\<forall>b<0xF0000. \<not> block_is_mapped (of_nat b) s" for s
    unfolding free using fs_init_ready [of 1024 s] fin(3,4) that by auto
  ultimately show ?thesis using w t(1,2) n(1) free by blast
qed

text \<open>A file of three bytes and a directory with a file of 5000 bytes.\<close>

definition demo_args :: "(u8 list \<times> host option) list" where
  "demo_args = [([0x78, 0x2F, 0x61], Some (Reg (Some [1, 2, 3]))),
     ([0x64, 0x2F], Some (Dir [([0x2E], Sealed), ([0x62], Reg (Some (replicate 5000 7)))]))]"

lemma demo_args_ok: "demo_args \<noteq> []" "a \<in> set demo_args \<Longrightarrow> arg_ok a" "args_cost demo_args \<le> 1021"
  by (auto simp: demo_args_def arg_ok_def entry_name_def after_slash_def basename_def name_ok_def dots_def Let_def
      args_cost_def chunks_def)

theorem fsformat_mounts_witness:
  "\<exists>t dsk s'. write_args demo_args (init_disk fmt_zero) = Some (Inr t) \<and> fsformat_main False demo_args = Some (Inr dsk) \<and>
    fs_init (demo_boot\<lparr>disk := sectors_of dsk\<rparr>) = Some s' \<and> fs_ready 1024 s' \<and>
    (\<forall>b<1024. blk_free s' b \<longleftrightarrow> types t b = BLOCK_FREE) \<and>
    (\<forall>q. below t RootFile q \<longrightarrow> (\<forall>b\<in>node_blocks t q. b < 1024 \<longrightarrow> \<not> blk_free s' b))"
proof -
  obtain t dsk where d: "write_args demo_args (init_disk fmt_zero) = Some (Inr t)" "fsformat_main False demo_args = Some (Inr dsk)"
    "\<forall>b. types t b = BLOCK_FREE \<longleftrightarrow> nextbno t \<le> b" "\<forall>q. below t RootFile q \<longrightarrow> node_blocks t q \<subseteq> {3..<nextbno t}"
    "\<forall>s. disk s = sectors_of dsk \<and> super s = 0 \<and> bitmap s = 0 \<and> (\<forall>i. \<not> oom s i) \<and> (\<forall>b<0xF0000. \<not> block_is_mapped (of_nat b) s) \<longrightarrow>
      (\<exists>s'. fs_init s = Some s' \<and> fs_ready 1024 s' \<and> disk s' = disk s \<and> (\<forall>b<1024. blk_free s' b \<longleftrightarrow> types t b = BLOCK_FREE))"
    using fsformat_mounts [OF demo_args_ok] by blast
  obtain s' where s': "fs_init (demo_boot\<lparr>disk := sectors_of dsk\<rparr>) = Some s'" "fs_ready 1024 s'"
      "\<forall>b<1024. blk_free s' b \<longleftrightarrow> types t b = BLOCK_FREE"
    using d(5) [rule_format, of "demo_boot\<lparr>disk := sectors_of dsk\<rparr>"]
    by (auto simp: demo_boot_def demo_fs_def block_is_mapped_def va_is_mapped_def)
  have "\<forall>q. below t RootFile q \<longrightarrow> (\<forall>b\<in>node_blocks t q. b < 1024 \<longrightarrow> \<not> blk_free s' b)"
    using s'(3) d(3,4) by fastforce
  with d(1,2) s' show ?thesis by blast
qed

text \<open>C11. The image holds the host's files: the nodes in use of the root directory are the arguments in their
  order, each with its name; a file has its size and, through its direct and indirect links, its bytes in data
  blocks; a directory has its entries in the order of the host, without the two dot entries, to any depth. The blocks
  that hold them are written to the image unchanged, and the root node with the super block.\<close>

theorem fsformat_holds_tree:
  assumes "args \<noteq> []" "\<And>a. a \<in> set args \<Longrightarrow> arg_ok a" "args_cost args \<le> 1021"
  shows "\<exists>t dsk. fsformat_main False args = Some (Inr dsk) \<and>
    (\<forall>b\<ge>3. dsk b = img t b) \<and> (\<forall>k<264. dsk 1 (of_nat k) = sup t (of_nat k)) \<and> distinct (entries t RootFile) \<and>
    list_all2 (\<lambda>q (path, h). fname t q = entry_name path (the h) \<and> holds_tree t UNIV q (the h)) (entries t RootFile) args"
proof -
  obtain t where t: "fsformat_main False args = Some (Inr (finish_fs False (flush_bitmap t)))"
    "list_all2 (\<lambda>q (path, h). fname t q = entry_name path (the h) \<and> holds_tree t UNIV q (the h)) (entries t RootFile) args"
    "fmt_inv t" "frame (insert RootFile {q. \<not> live fmt_start q}) fmt_start t"
    by (rule fsformat_ok [OF assms]) (assumption, rule that)
  have n: "3 \<le> nextbno t" "nextbno t \<le> 1024" using t(3) by (simp_all add: fmt_inv_def)
  have "distinct (entries t RootFile)"
    using distinct_dslots [OF fmt_inv_dir [OF t(3) fmt_inv_root [OF t(3)]]] by (simp add: entries_def)
  with finished(1,2) [OF t(4) n] t(1,2) show ?thesis by blast
qed

theorem fsformat_holds_tree_witness:
  "\<exists>t dsk q. fsformat_main False demo_args = Some (Inr dsk) \<and> (\<forall>b\<ge>3. dsk b = img t b) \<and> q \<in> set (entries t RootFile) \<and>
    fname t q = [0x64] \<and> holds_tree t UNIV q (Dir [([0x2E], Sealed), ([0x62], Reg (Some (replicate 5000 7)))])"
proof -
  obtain t dsk where t: "fsformat_main False demo_args = Some (Inr dsk)" "\<forall>b\<ge>3. dsk b = img t b"
    "list_all2 (\<lambda>q (path, h). fname t q = entry_name path (the h) \<and> holds_tree t UNIV q (the h)) (entries t RootFile) demo_args"
    using fsformat_holds_tree [OF demo_args_ok] by blast
  have "entry_name [0x64, 0x2F] (Dir es) = [0x64]" for es
    by (simp add: entry_name_def basename_def after_slash_def Let_def)
  with t(3) have "\<exists>q \<in> set (entries t RootFile). fname t q = [0x64] \<and>
      holds_tree t UNIV q (Dir [([0x2E], Sealed), ([0x62], Reg (Some (replicate 5000 7)))])"
    unfolding demo_args_def by (auto simp: list_all2_Cons2)
  with t(1,2) show ?thesis by blast
qed

end
