(* ===== verification/MOS_History.thy ===== *)
theory MOS_History
  imports MOS_Prelude
begin

text \<open>
  Reading command lines and the history of the shell: \<^verbatim>\<open>readline\<close>, \<^verbatim>\<open>tackle_dir\<close>, \<^verbatim>\<open>save_line\<close>,
  \<^verbatim>\<open>init_mosh_history\<close> and the loop of \<^verbatim>\<open>main\<close> in \<^verbatim>\<open>user/sh.c\<close>.

  The rows of \<^verbatim>\<open>all_lines\<close> are byte strings without their terminator, the line buffer is the array of 1024
  bytes. The history file is the list of its bytes, or \<open>None\<close> when it does not exist; what the
  descriptor layer makes of \<^verbatim>\<open>open\<close>, \<^verbatim>\<open>read\<close> and \<^verbatim>\<open>write\<close> is shown with the file descriptors. The input is
  what is still to be read from descriptor 0. \<open>None\<close> is a panic, the end of the process at the end of the
  input, or an access outside an array.
\<close>

section \<open>The history\<close>

record hist =
  all_lines :: "nat \<Rightarrow> u8 list"
  all_line_count :: nat
  now_line_index :: int
  hist_file :: "u8 list option"

abbreviation NL :: u8 where "NL \<equiv> 0x0A"

fun read_lines :: "nat \<Rightarrow> u8 list \<Rightarrow> u8 list \<Rightarrow> (nat \<Rightarrow> u8 list) \<Rightarrow> ((nat \<Rightarrow> u8 list) \<times> nat) option" where
  "read_lines n cur [] rows = Some (rows, n)"
| "read_lines n cur (c # cs) rows =
    (if 25 \<le> n \<or> 1024 < length cur then None
     else if c = NL then if length cur = 1024 then None else read_lines (n + 1) [] cs (rows(n := takeWhile (\<lambda>b. b \<noteq> 0) (cur @ [NL])))
     else read_lines n (cur @ [c]) cs rows)"

definition init_mosh_history :: "hist \<Rightarrow> hist option" where
  "init_mosh_history h = do {
     let f = (case hist_file h of None \<Rightarrow> [] | Some f \<Rightarrow> f);
     (rows, n) \<leftarrow> read_lines 0 [] f (all_lines h);
     Some (h\<lparr>all_lines := rows, all_line_count := n, now_line_index := int n - 1, hist_file := Some f\<rparr>)
   }"

text \<open>The file is truncated when it is opened, or created when it is not there; then all rows are written.\<close>

definition save_line :: "u8 list \<Rightarrow> hist \<Rightarrow> hist option" where
  "save_line line h =
    (if 1023 < length line then None
     else
       let h = (if hist_file h = None then h\<lparr>all_line_count := 0, now_line_index := 0\<rparr> else h);
           h = (if 20 \<le> all_line_count h then
                  h\<lparr>all_line_count := 20, all_lines := (\<lambda>i. if i < 19 then all_lines h (i + 1) else all_lines h i)(19 := line)\<rparr>
                else h\<lparr>all_lines := (all_lines h)(all_line_count h := line), all_line_count := all_line_count h + 1\<rparr>);
           last = all_line_count h - 1;
           h = h\<lparr>now_line_index := int last, all_lines := (all_lines h)(last := all_lines h last @ [NL])\<rparr>
       in Some (h\<lparr>hist_file := Some (concat (map (all_lines h) [0..<all_line_count h]))\<rparr>))"

section \<open>Reading a line\<close>

datatype direction = UP | DOWN | OTHER

fun read_dir :: "u8 list \<Rightarrow> (direction \<times> u8 list) option" where
  "read_dir [] = None"
| "read_dir (c # cs) =
    (if c = 91 then
       (case cs of [] \<Rightarrow> None
        | d # cs \<Rightarrow> Some (if d = 0x41 then UP else if d = 0x42 then DOWN else OTHER, cs))
     else Some (OTHER, cs))"

text \<open>An array of 1024 bytes that holds a string.\<close>

definition line_array :: "u8 list \<Rightarrow> u8 list" where
  "line_array cs = cs @ replicate (1024 - length cs) 0"

definition tackle_dir :: "u8 list \<Rightarrow> u8 list \<Rightarrow> hist \<Rightarrow> (u8 list \<times> u8 list \<times> hist) option" where
  "tackle_dir buf inp h = do {
     (d, inp) \<leftarrow> read_dir inp;
     if d = UP \<and> now_line_index h > - 1 then
       let row = all_lines h (nat (now_line_index h)) in
       if row = [] \<or> 1024 \<le> length row then None
       else Some (line_array (butlast row), inp, h\<lparr>now_line_index := now_line_index h - 1\<rparr>)
     else Some (buf, inp, h)
   }"

text \<open>\<open>pre\<close> is the byte in front of the buffer, which the code reads after it has moved back from the first
  position.\<close>

definition buf_at :: "u8 \<Rightarrow> u8 list \<Rightarrow> int \<Rightarrow> u8" where
  "buf_at pre buf i = (if i < 0 then pre else buf ! nat i)"

lemma tackle_dir_shorter: "tackle_dir buf inp h = Some (b, inp', h') \<Longrightarrow> length inp' < length inp"
  by (cases inp) (auto simp: tackle_dir_def Let_def split: if_splits list.splits bind_splits)

function readline_loop :: "u8 \<Rightarrow> nat \<Rightarrow> u8 list \<Rightarrow> u8 list \<Rightarrow> hist \<Rightarrow> (u8 list \<times> u8 list \<times> hist) option" where
  "readline_loop pre i buf inp h =
    (if 1024 \<le> i then
       (case dropWhile (\<lambda>c. c \<noteq> 0x0D \<and> c \<noteq> NL) inp of
          [] \<Rightarrow> Some (buf[0 := 0], [], h) | _ # inp \<Rightarrow> Some (buf[0 := 0], inp, h))
     else
       case inp of
         [] \<Rightarrow> None
       | c # inp \<Rightarrow>
           (let buf = buf[i := c];
                j = (if c = 0x08 \<or> c = 0x7F then if 0 < i then int i - 2 else - 1 else int i)
            in
            case (if buf_at pre buf j = 0x1B then
                    if j < 0 then None
                    else map_option (\<lambda>r. (j - 1, r)) (tackle_dir (buf[nat j := 0]) inp h)
                  else Some (j, buf, inp, h)) of
              None \<Rightarrow> None
            | Some (j, buf, inp, h) \<Rightarrow>
                if buf_at pre buf j = 0x0D \<or> buf_at pre buf j = NL then Some (if j < 0 then buf else buf[nat j := 0], inp, h)
                else readline_loop pre (nat (j + 1)) buf inp h))"
  by pat_completeness auto
termination
  by (relation "measure (\<lambda>(_, _, _, inp, _). length inp)")
    (auto split: if_splits dest!: tackle_dir_shorter)

declare readline_loop.simps [simp del]

definition readline :: "u8 \<Rightarrow> u8 list \<Rightarrow> hist \<Rightarrow> (u8 list \<times> u8 list \<times> hist) option" where
  "readline pre inp h = readline_loop pre 0 (replicate 1024 0) inp h"

text \<open>One turn of the loop in \<^verbatim>\<open>main\<close>: the command that the child runs, if any.\<close>

definition sh_turn :: "u8 \<Rightarrow> u8 list \<Rightarrow> hist \<Rightarrow> (u8 list option \<times> u8 list \<times> hist) option" where
  "sh_turn pre inp h = do {
     (buf, inp, h) \<leftarrow> readline pre inp h;
     let line = takeWhile (\<lambda>c. c \<noteq> 0) buf;
     if line = [] then Some (None, inp, h)
     else do {
       h \<leftarrow> save_line line h;
       if hd line = 0x23 then Some (None, inp, h)
       else Some (Some (takeWhile (\<lambda>c. c \<noteq> 0x23) line), inp, h)
     }
   }"

section \<open>The history as a bounded queue\<close>

definition hist_lines :: "hist \<Rightarrow> u8 list list" where
  "hist_lines h = map (all_lines h) [0..<all_line_count h]"

definition line_ok :: "u8 list \<Rightarrow> bool" where
  "line_ok l \<longleftrightarrow> length l \<le> 1023 \<and> 0 \<notin> set l \<and> NL \<notin> set l"

definition hist_inv :: "hist \<Rightarrow> bool" where
  "hist_inv h \<longleftrightarrow> all_line_count h \<le> 20 \<and> (\<forall>r\<in>set (hist_lines h). \<exists>l. r = l @ [NL] \<and> line_ok l) \<and>
     (hist_file h = None \<or> hist_file h = Some (concat (hist_lines h)))"

definition last20 :: "'a list \<Rightarrow> 'a list" where
  "last20 xs = drop (length xs - 20) xs"

lemma last20_append: "last20 (last20 xs @ ys) = last20 (xs @ ys)"
  by (cases "length xs \<le> 20") (simp_all add: last20_def add.commute)

lemma hist_lines_length [simp]: "length (hist_lines h) = all_line_count h"
  by (simp add: hist_lines_def)

lemma hist_lines_nth: "i < all_line_count h \<Longrightarrow> hist_lines h ! i = all_lines h i"
  by (simp add: hist_lines_def)

text \<open>The lines a new one is added to: none when the file has been removed.\<close>

definition old_lines :: "hist \<Rightarrow> u8 list list" where
  "old_lines h = (if hist_file h = None then [] else hist_lines h)"

lemma save_line_ok:
  assumes h: "hist_inv h" and l: "line_ok line"
  obtains h' where "save_line line h = Some h'" "hist_inv h'" "hist_lines h' = last20 (old_lines h @ [line @ [NL]])"
    "now_line_index h' = int (all_line_count h') - 1" "hist_file h' = Some (concat (hist_lines h'))"
proof -
  define g where "g = (if hist_file h = None then h\<lparr>all_line_count := 0, now_line_index := 0\<rparr> else h)"
  have g: "hist_lines g = old_lines h" "all_line_count g \<le> 20"
    using h by (auto simp: g_def old_lines_def hist_lines_def hist_inv_def)
  define u where "u = (if 20 \<le> all_line_count g then
      g\<lparr>all_line_count := 20, all_lines := (\<lambda>i. if i < 19 then all_lines g (i + 1) else all_lines g i)(19 := line)\<rparr>
    else g\<lparr>all_lines := (all_lines g)(all_line_count g := line), all_line_count := all_line_count g + 1\<rparr>)"
  define v where "v = u\<lparr>now_line_index := int (all_line_count u - 1),
    all_lines := (all_lines u)(all_line_count u - 1 := all_lines u (all_line_count u - 1) @ [NL])\<rparr>"
  define h' where "h' = v\<lparr>hist_file := Some (concat (map (all_lines v) [0..<all_line_count v]))\<rparr>"
  have pos: "1 \<le> all_line_count u" by (simp add: u_def)
  have s: "save_line line h = Some h'"
    using l pos by (simp add: save_line_def line_ok_def Let_def g_def [symmetric] u_def [symmetric] v_def h'_def of_nat_diff)
  have len: "all_line_count h' = min 20 (all_line_count g + 1)" using g(2) by (simp add: h'_def v_def u_def)
  have rows: "all_lines h' i =
      (if i = all_line_count h' - 1 then line @ [NL] else all_lines g (i + (if 20 \<le> all_line_count g then 1 else 0)))"
    if "i < all_line_count h'" for i
    using that g(2) by (auto simp: h'_def v_def u_def)
  have now: "now_line_index h' = int (all_line_count h') - 1" and f: "hist_file h' = Some (concat (hist_lines h'))"
    by (auto simp: h'_def v_def u_def hist_lines_def)
  have eq: "hist_lines h' = last20 (old_lines h @ [line @ [NL]])"
  proof (rule nth_equalityI)
    have n: "length (old_lines h) = all_line_count g" using g(1) hist_lines_length [of g] by simp
    then show "length (hist_lines h') = length (last20 (old_lines h @ [line @ [NL]]))"
      using len by (simp add: last20_def)
    fix i assume i: "i < length (hist_lines h')"
    then show "hist_lines h' ! i = last20 (old_lines h @ [line @ [NL]]) ! i"
      using len rows [of i] g n hist_lines_nth [of _ g] by (auto simp: last20_def nth_append hist_lines_nth split: if_splits)
  qed
  moreover have "\<exists>l. r = l @ [NL] \<and> line_ok l" if "r \<in> set (hist_lines h')" for r
  proof -
    have "r \<in> set (old_lines h @ [line @ [NL]])" using that unfolding eq last20_def by (rule in_set_dropD)
    then show ?thesis using l h by (auto simp: old_lines_def hist_inv_def split: if_splits)
  qed
  moreover have "all_line_count h' \<le> 20" using len by simp
  ultimately show thesis using s now f by (intro that [of h']) (simp_all add: hist_inv_def)
qed

lemma read_lines_one:
  assumes "line_ok l" "NL \<notin> set cur" "length cur + length l \<le> 1023" "n < 25" "0 \<notin> set cur"
  shows "read_lines n cur (l @ NL # rest) rows = read_lines (n + 1) [] rest (rows(n := cur @ l @ [NL]))"
  using assms
proof (induction l arbitrary: cur)
  case Nil
  have "takeWhile (\<lambda>b. b \<noteq> 0) (cur @ [NL]) = cur @ [NL]" using Nil by (auto simp: takeWhile_eq_all_conv)
  then show ?case using Nil by (simp del: takeWhile_eq_all_conv fun_upd_apply)
next
  case (Cons c l)
  then show ?case using Cons.IH [of "cur @ [c]"] by (auto simp: line_ok_def)
qed

lemma read_lines_all:
  assumes "\<forall>r\<in>set rs. \<exists>l. r = l @ [NL] \<and> line_ok l" "n + length rs \<le> 25"
  shows "\<exists>rows'. read_lines n [] (concat rs) rows = Some (rows', n + length rs) \<and> (\<forall>i<n. rows' i = rows i) \<and>
    (\<forall>i<length rs. rows' (n + i) = rs ! i)"
  using assms
proof (induction rs arbitrary: n rows)
  case (Cons r rs)
  obtain l where l: "r = l @ [NL]" "line_ok l" using Cons.prems(1) by auto
  have "read_lines n [] (concat (r # rs)) rows = read_lines (n + 1) [] (concat rs) (rows(n := r))"
    using read_lines_one [OF l(2), of "[]" n "concat rs" rows] l Cons.prems(2) by (simp add: line_ok_def)
  moreover obtain rows' where "read_lines (n + 1) [] (concat rs) (rows(n := r)) = Some (rows', n + 1 + length rs)"
    "\<forall>i<n + 1. rows' i = (rows(n := r)) i" "\<forall>i<length rs. rows' (n + 1 + i) = rs ! i"
    using Cons.IH [of "n + 1" "rows(n := r)"] Cons.prems by (auto simp del: fun_upd_apply)
  ultimately show ?case by (auto simp: nth_Cons split: nat.split)
qed simp

lemma init_history_ok:
  assumes "hist_inv h" "hist_file h = Some (concat (hist_lines h))" "hist_file g = hist_file h"
  shows "\<exists>g'. init_mosh_history g = Some g' \<and> hist_lines g' = hist_lines h \<and> now_line_index g' = int (all_line_count h) - 1 \<and>
    hist_file g' = hist_file h"
proof -
  have "\<forall>r\<in>set (hist_lines h). \<exists>l. r = l @ [NL] \<and> line_ok l" "0 + length (hist_lines h) \<le> 25" using assms(1) by (auto simp: hist_inv_def)
  from read_lines_all [OF this, of "all_lines g"] obtain rows' where
    r: "read_lines 0 [] (concat (hist_lines h)) (all_lines g) = Some (rows', all_line_count h)" "\<forall>i<all_line_count h. rows' i = hist_lines h ! i"
    by auto
  then have "map rows' [0..<all_line_count h] = hist_lines h" by (intro nth_equalityI) simp_all
  with r(1) assms(2,3) show ?thesis by (simp add: init_mosh_history_def hist_lines_def)
qed

section \<open>Typed lines\<close>

definition ordinary :: "u8 \<Rightarrow> bool" where
  "ordinary c \<longleftrightarrow> c \<notin> {0x08, 0x7F, 0x1B, 0x0D, NL}"

lemma readline_loop_plain:
  assumes "\<forall>c\<in>set cs. ordinary c" "length typed + length cs < 1024" "e = 0x0D \<or> e = NL"
  shows "readline_loop pre (length typed) (line_array typed) (cs @ e # rest) h = Some (line_array (typed @ cs), rest, h)"
  using assms
proof (induction cs arbitrary: typed)
  case Nil
  have "(line_array typed)[length typed := e, length typed := 0] = line_array typed"
    using Nil(2) by (intro nth_equalityI) (auto simp: line_array_def nth_list_update nth_append)
  then show ?case using Nil by (subst readline_loop.simps) (auto simp: buf_at_def line_array_def Let_def)
next
  case (Cons c cs)
  have "(line_array typed)[length typed := c] = line_array (typed @ [c])"
    using Cons(3) by (intro nth_equalityI) (auto simp: line_array_def nth_list_update nth_append)
  moreover have "line_array (typed @ [c]) ! length typed = c" by (simp add: line_array_def nth_append)
  moreover have "c \<noteq> 0x08" "c \<noteq> 0x7F" "c \<noteq> 0x1B" "c \<noteq> 0x0D" "c \<noteq> NL" using Cons(2) by (simp_all add: ordinary_def)
  ultimately have "readline_loop pre (length typed) (line_array typed) ((c # cs) @ e # rest) h =
      readline_loop pre (length (typed @ [c])) (line_array (typed @ [c])) (cs @ e # rest) h"
    using Cons(3) by (subst readline_loop.simps) (simp add: buf_at_def Let_def nat_add_distrib)
  then show ?case using Cons.IH [of "typed @ [c]"] Cons.prems by simp
qed

lemma readline_plain:
  "\<forall>c\<in>set cs. ordinary c \<Longrightarrow> length cs < 1024 \<Longrightarrow> e = 0x0D \<or> e = NL \<Longrightarrow>
    readline pre (cs @ e # rest) h = Some (line_array cs, rest, h)"
  using readline_loop_plain [of cs "[]" e pre rest h] by (simp add: readline_def line_array_def)

lemma line_array_string: "0 \<notin> set cs \<Longrightarrow> takeWhile (\<lambda>c. c \<noteq> 0) (line_array cs) = cs"
  unfolding line_array_def by (subst takeWhile_append2) auto

section \<open>Properties\<close>

text \<open>The shell's main loop over some typed lines, each ended by a newline.\<close>

fun sh_turns :: "u8 \<Rightarrow> nat \<Rightarrow> u8 list \<Rightarrow> hist \<Rightarrow> (u8 list option list \<times> hist) option" where
  "sh_turns pre 0 inp h = Some ([], h)"
| "sh_turns pre (Suc n) inp h = do {
     (c, inp, h) \<leftarrow> sh_turn pre inp h;
     (cs, h) \<leftarrow> sh_turns pre n inp h;
     Some (c # cs, h)
   }"

definition typed_ok :: "u8 list \<Rightarrow> bool" where
  "typed_ok l \<longleftrightarrow> l \<noteq> [] \<and> line_ok l \<and> (\<forall>c\<in>set l. ordinary c)"

lemma sh_turn_plain:
  assumes "hist_inv h" "typed_ok l"
  obtains h' where "sh_turn pre (l @ NL # rest) h =
      Some (if hd l = 0x23 then None else Some (takeWhile (\<lambda>c. c \<noteq> 0x23) l), rest, h')"
    "hist_inv h'" "hist_lines h' = last20 (old_lines h @ [l @ [NL]])" "hist_file h' = Some (concat (hist_lines h'))"
proof -
  have l: "line_ok l" "l \<noteq> []" "length l < 1024" "0 \<notin> set l" "\<forall>c\<in>set l. ordinary c" using assms(2) by (auto simp: typed_ok_def line_ok_def)
  obtain h' where "save_line l h = Some h'" "hist_inv h'" "hist_lines h' = last20 (old_lines h @ [l @ [NL]])"
    "hist_file h' = Some (concat (hist_lines h'))"
    using save_line_ok [OF assms(1) l(1)] by metis
  then show thesis using l readline_plain [OF l(5,3), of NL pre rest h]
    by (intro that [of h']) (simp_all add: sh_turn_def line_array_string)
qed

lemma sh_turns_plain:
  assumes "hist_inv h" "hist_file h \<noteq> None" "\<And>l. l \<in> set ls \<Longrightarrow> typed_ok l"
  shows "\<exists>h'. sh_turns pre (length ls) (concat (map (\<lambda>l. l @ [NL]) ls) @ rest) h =
      Some (map (\<lambda>l. if hd l = 0x23 then None else Some (takeWhile (\<lambda>c. c \<noteq> 0x23) l)) ls, h') \<and>
    hist_inv h' \<and> hist_file h' \<noteq> None \<and> hist_lines h' = last20 (hist_lines h @ map (\<lambda>l. l @ [NL]) ls)"
  using assms
proof (induction ls arbitrary: h)
  case Nil
  then show ?case by (simp add: last20_def hist_inv_def)
next
  case (Cons l ls)
  obtain h1 where 1: "sh_turn pre (l @ NL # concat (map (\<lambda>l. l @ [NL]) ls) @ rest) h =
      Some (if hd l = 0x23 then None else Some (takeWhile (\<lambda>c. c \<noteq> 0x23) l), concat (map (\<lambda>l. l @ [NL]) ls) @ rest, h1)"
    "hist_inv h1" "hist_lines h1 = last20 (old_lines h @ [l @ [NL]])" "hist_file h1 = Some (concat (hist_lines h1))"
    using sh_turn_plain [OF Cons.prems(1), of l pre] Cons.prems(3) by (metis list.set_intros(1))
  obtain h2 where 2: "sh_turns pre (length ls) (concat (map (\<lambda>l. l @ [NL]) ls) @ rest) h1 =
      Some (map (\<lambda>l. if hd l = 0x23 then None else Some (takeWhile (\<lambda>c. c \<noteq> 0x23) l)) ls, h2)"
    "hist_inv h2" "hist_file h2 \<noteq> None" "hist_lines h2 = last20 (hist_lines h1 @ map (\<lambda>l. l @ [NL]) ls)"
    using Cons.IH [OF 1(2)] 1(4) Cons.prems(3) by auto
  have "hist_lines h2 = last20 (hist_lines h @ map (\<lambda>l. l @ [NL]) (l # ls))"
    using 2(4) 1(3) Cons.prems(2) by (simp add: last20_append old_lines_def)
  with 1(1) 2(1-3) show ?case by simp
qed

text \<open>C34. Lines that are typed are run and remembered: for lines of ordinary characters the main loop runs each
  one up to its comment, in order, and a shell that is started later finds in its history exactly the last
  twenty of the lines of before and of now.\<close>

theorem history_roundtrip:
  assumes "hist_inv h" "hist_file h \<noteq> None" "\<And>l. l \<in> set ls \<Longrightarrow> typed_ok l"
  shows "\<exists>h'. sh_turns pre (length ls) (concat (map (\<lambda>l. l @ [NL]) ls) @ rest) h =
      Some (map (\<lambda>l. if hd l = 0x23 then None else Some (takeWhile (\<lambda>c. c \<noteq> 0x23) l)) ls, h') \<and>
    (\<forall>g. hist_file g = hist_file h' \<longrightarrow> (\<exists>g'. init_mosh_history g = Some g' \<and>
      hist_lines g' = last20 (hist_lines h @ map (\<lambda>l. l @ [NL]) ls) \<and> now_line_index g' = int (all_line_count g') - 1))"
proof -
  obtain h' where h': "sh_turns pre (length ls) (concat (map (\<lambda>l. l @ [NL]) ls) @ rest) h =
      Some (map (\<lambda>l. if hd l = 0x23 then None else Some (takeWhile (\<lambda>c. c \<noteq> 0x23) l)) ls, h')"
    "hist_inv h'" "hist_file h' \<noteq> None" "hist_lines h' = last20 (hist_lines h @ map (\<lambda>l. l @ [NL]) ls)"
    using sh_turns_plain [OF assms] by blast
  have f: "hist_file h' = Some (concat (hist_lines h'))" using h'(2,3) by (auto simp: hist_inv_def)
  have "\<exists>g'. init_mosh_history g = Some g' \<and> hist_lines g' = hist_lines h' \<and> now_line_index g' = int (all_line_count g') - 1"
    if "hist_file g = hist_file h'" for g
    using init_history_ok [OF h'(2) f that] by (metis hist_lines_length)
  with h'(1,4) show ?thesis by auto
qed

definition demo_hist :: hist where
  "demo_hist = \<lparr>all_lines = (\<lambda>i. if i = 0 then [0x6C, 0x73, NL] else []), all_line_count = 1, now_line_index = 0,
     hist_file = Some [0x6C, 0x73, NL]\<rparr>"

lemma demo_hist_inv: "hist_inv demo_hist" "hist_lines demo_hist = [[0x6C, 0x73, NL]]"
  by (auto simp: hist_inv_def hist_lines_def demo_hist_def line_ok_def)

theorem history_roundtrip_witness:
  "\<exists>h'. sh_turns 0 1 [0x61, 0x20, 0x23, 0x62, NL] demo_hist = Some ([Some [0x61, 0x20]], h') \<and>
    (\<exists>g'. init_mosh_history h' = Some g' \<and> hist_lines g' = [[0x6C, 0x73, NL], [0x61, 0x20, 0x23, 0x62, NL]])"
proof -
  let ?ls = "[[0x61, 0x20, 0x23, 0x62]] :: u8 list list"
  have "typed_ok l" if "l \<in> set ?ls" for l
    using that by (auto simp: typed_ok_def line_ok_def ordinary_def)
  moreover have "hist_file demo_hist \<noteq> None" by (simp add: demo_hist_def)
  ultimately obtain h' where h': "sh_turns 0 (length ?ls)
      (concat (map (\<lambda>l. l @ [NL]) ?ls) @ []) demo_hist =
      Some (map (\<lambda>l. if hd l = 0x23 then None else Some (takeWhile (\<lambda>c. c \<noteq> 0x23) l)) ?ls, h')"
    "\<forall>g. hist_file g = hist_file h' \<longrightarrow> (\<exists>g'. init_mosh_history g = Some g' \<and>
      hist_lines g' = last20 (hist_lines demo_hist @ map (\<lambda>l. l @ [NL]) ?ls) \<and>
      now_line_index g' = int (all_line_count g') - 1)"
    using history_roundtrip [OF demo_hist_inv(1), of ?ls 0 "[]"] by blast
  then show ?thesis by (auto simp: demo_hist_inv(2) last20_def)
qed

text \<open>The line that the up key recalls is lost: the key copies the last line of the history into the buffer but
  leaves the position at its start, so the newline that follows overwrites the first character and the
  shell reads an empty line.\<close>

theorem recalled_line_lost:
  assumes "0 \<le> now_line_index h" "all_lines h (nat (now_line_index h)) = l @ [NL]" "length l \<le> 1022"
    and "pre \<notin> {0x0D, NL, 0x1B}"
  shows "\<exists>buf. readline pre (0x1B # 0x5B # 0x41 # NL # rest) h = Some (buf, rest, h\<lparr>now_line_index := now_line_index h - 1\<rparr>) \<and>
    takeWhile (\<lambda>c. c \<noteq> 0) buf = []"
proof -
  let ?b = "line_array l" and ?h = "h\<lparr>now_line_index := now_line_index h - 1\<rparr>"
  have "tackle_dir b (0x5B # 0x41 # NL # rest) h = Some (?b, NL # rest, ?h)" for b
    using assms(1-3) by (simp add: tackle_dir_def Let_def)
  then have 1: "readline pre (0x1B # 0x5B # 0x41 # NL # rest) h = readline_loop pre 0 ?b (NL # rest) ?h"
    using assms(4) unfolding readline_def by (subst readline_loop.simps) (simp add: buf_at_def Let_def)
  have "length ?b = 1024" using assms(3) by (simp add: line_array_def)
  then have "readline_loop pre 0 ?b (NL # rest) ?h = Some (?b[0 := 0], rest, ?h)" "takeWhile (\<lambda>c. c \<noteq> 0) (?b[0 := 0]) = []"
    by (subst readline_loop.simps, simp add: buf_at_def Let_def) (cases ?b, simp_all)
  with 1 show ?thesis by auto
qed

theorem recalled_line_lost_witness:
  "\<exists>buf h'. readline 0 [0x1B, 0x5B, 0x41, NL] demo_hist = Some (buf, [], h') \<and> takeWhile (\<lambda>c. c \<noteq> 0) buf = []"
  using recalled_line_lost [of demo_hist "[0x6C, 0x73]" 0 "[]"] by (auto simp: demo_hist_def)

end
