(* ===== verification/MOS_ShellRun.thy ===== *)
theory MOS_ShellRun
  imports MOS_Shell
begin

text \<open>
  The parser and the execution of command lines: \<^verbatim>\<open>parsecmd\<close> and \<^verbatim>\<open>runcmd\<close> of \<^verbatim>\<open>user/sh.c\<close>.

  The two functions parse and act at once: they fork, open files and make pipes while they read tokens, and both
  sides of a fork go on in the same code. A process is therefore a tree: what it does until its
  next library call, and for every result of that call the rest. \<^verbatim>\<open>fork\<close> continues with 0 in the
  child and with the id in the parent. Pointers into the line are indices, as in \<open>MOS_Shell\<close>; an access outside
  an array or through a null pointer is \<open>Fault\<close>.
\<close>

section \<open>Processes\<close>

datatype sh_call =
    Open "u8 list" u32 | Dup int int | Close int | CloseAll
  | Fork | Wait int | IpcRecv | IpcSendParent int
  | Spawn "u8 list list" | AddJob int "u8 list" | PrintJobs | KillJob u32 | EnvidByJob u32
  | CopyOut int | Debugf string "u8 list" | Printf string

text \<open>\<open>CopyOut\<close> is the loop that prints what it reads from a descriptor. \<open>Nested\<close> is the call of \<^verbatim>\<open>runcmd\<close> on another text,
  followed by \<^verbatim>\<open>exit\<close>. A pipe gives the result and its two descriptors, a read gives the result and the bytes.\<close>

datatype 'a proc =
    Ret 'a
  | Exit
  | Fault
  | Nested "u8 list"
  | Call sh_call "int \<Rightarrow> 'a proc"
  | MkPipe "int \<Rightarrow> int \<Rightarrow> int \<Rightarrow> 'a proc"
  | ReadFd int nat "int \<Rightarrow> u8 list \<Rightarrow> 'a proc"

primrec proc_bind :: "'a proc \<Rightarrow> ('a \<Rightarrow> 'b proc) \<Rightarrow> 'b proc" where
  "proc_bind (Ret x) f = f x"
| "proc_bind Exit f = Exit"
| "proc_bind Fault f = Fault"
| "proc_bind (Nested s) f = Nested s"
| "proc_bind (Call c k) f = Call c (\<lambda>r. proc_bind (k r) f)"
| "proc_bind (MkPipe k) f = MkPipe (\<lambda>r p q. proc_bind (k r p q) f)"
| "proc_bind (ReadFd d n k) f = ReadFd d n (\<lambda>r bs. proc_bind (k r bs) f)"

definition die :: "string \<Rightarrow> u8 list \<Rightarrow> 'a proc" where
  "die msg t = Call (Debugf msg t) (\<lambda>_. Exit)"

section \<open>Redirections\<close>

definition redir_in :: "u8 list \<Rightarrow> 'a proc \<Rightarrow> 'a proc" where
  "redir_in t k =
    Call (Open t 0) (\<lambda>fd. if fd < 0 then die ''failed to open'' t
      else Call (Dup fd 0) (\<lambda>r. if r < 0 then die ''failed to duplicate file to <stdin>'' []
        else Call (Close fd) (\<lambda>_. k)))"

definition dup_out :: "int \<Rightarrow> 'a proc \<Rightarrow> 'a proc" where
  "dup_out fd k =
    Call (Dup fd 1) (\<lambda>r. if r < 0 then die ''failed to duplicate file to <stdout>'' []
      else Call (Close fd) (\<lambda>_. k))"

definition open_or :: "u8 list \<Rightarrow> u32 \<Rightarrow> (int \<Rightarrow> 'a proc) \<Rightarrow> 'a proc" where
  "open_or t mode k = Call (Open t mode) (\<lambda>fd. if fd < 0 then die ''error in open'' t else k fd)"

definition create_or :: "u8 list \<Rightarrow> u32 \<Rightarrow> (int \<Rightarrow> 'a proc) \<Rightarrow> 'a proc" where
  "create_or t mode k = Call (Open t mode) (\<lambda>fd. if fd < 0 then open_or t 0x100 k else k fd)"

definition redir_out :: "u8 list \<Rightarrow> 'a proc \<Rightarrow> 'a proc" where
  "redir_out t k =
    create_or t 1 (\<lambda>fd. Call (Close fd) (\<lambda>_.
      open_or t 0x200 (\<lambda>fd. Call (Close fd) (\<lambda>_.
        open_or t 1 (\<lambda>fd. dup_out fd k)))))"

definition redir_app :: "u8 list \<Rightarrow> 'a proc \<Rightarrow> 'a proc" where
  "redir_app t k =
    create_or t 0 (\<lambda>fd. Call (Close fd) (\<lambda>_.
      open_or t 5 (\<lambda>fd. dup_out fd k)))"

section \<open>The parser\<close>

text \<open>What the lexer has still to read.\<close>

definition lex_left :: "lexer \<Rightarrow> nat" where
  "lex_left l = (if nc l = 0 then 0 else 1) + (case np2 l of None \<Rightarrow> 0 | Some i \<Rightarrow> Suc (length (lbuf l) - i))"

lemma skip_white_spec:
  "skip_white b i = Some (b', j) \<Longrightarrow> i \<le> j \<and> j < length b \<and> length b' = length b \<and> take i b' = take i b \<and>
    drop j b' = drop j b \<and> (i < j \<longrightarrow> b' ! i = 0) \<and> \<not> is_white (b' ! j)"
proof (induction b i rule: skip_white.induct)
  case (1 b i)
  show ?case
  proof (cases "i < length b \<and> is_white (b ! i)")
    case True
    then have "skip_white (b[i := 0]) (i + 1) = Some (b', j)" using "1.prems" by (simp add: skip_white.simps [of b])
    note IH = "1.IH" [OF _ _ this]
    then have *: "i + 1 \<le> j" "j < length b" "length b' = length b" "take (i + 1) b' = take (i + 1) (b[i := 0])"
      "drop j b' = drop j (b[i := 0])" "\<not> is_white (b' ! j)"
      using True by auto
    have "take i b' = take i b" using arg_cong [OF *(4), of "take i"] by (simp add: min_def)
    moreover have "b' ! i = 0" using arg_cong [OF *(4), of "\<lambda>xs. xs ! i"] True by simp
    ultimately show ?thesis using * by simp
  qed (use "1.prems" in \<open>auto simp: skip_white.simps [of b] split: if_splits\<close>)
qed

lemma close_quote_range: "close_quote q b i = Some j \<Longrightarrow> i < j \<and> j < length b"
  by (induction q b i rule: close_quote.induct) (subst (asm) (2) close_quote.simps, fastforce split: if_splits)

lemma word_end_range:
  "word_end b i = Some j \<Longrightarrow> i \<le> j \<and> j < length b \<and> (b ! j = 0 \<or> is_white (b ! j) \<or> is_symbol (b ! j)) \<and>
    (b ! i \<noteq> 0 \<and> \<not> is_white (b ! i) \<and> \<not> is_symbol (b ! i) \<longrightarrow> i < j)"
  by (induction b i rule: word_end.induct) (subst (asm) (2) word_end.simps, fastforce split: if_splits)

text \<open>One call of \<^verbatim>\<open>_gettoken\<close> moves forward, leaves what lies before its start alone, and ends the word before it.\<close>

definition ends_word :: "u8 list \<Rightarrow> nat \<Rightarrow> bool" where
  "ends_word b j \<longleftrightarrow> b ! (j - 1) = 0 \<or> j < length b \<and> (b ! j = 0 \<or> is_white (b ! j) \<or> is_symbol (b ! j))"

lemma gettoken1_forward:
  assumes "gettoken1 b (Some i) = Some (c, p1, p2, b')"
  shows "length b' = length b" "take i b' = take i b" "i < length b"
    and "c = 0 \<and> p1 = None \<and> p2 = None \<or> c \<noteq> 0 \<and> (\<exists>p j. p1 = Some p \<and> p2 = Some j \<and> i \<le> p \<and> p < j \<and> j \<le> length b \<and>
      (c = 0x77 \<longrightarrow> ends_word b' j))"
    and "b ! i = 0 \<or> is_white (b ! i) \<or> is_symbol (b ! i) \<Longrightarrow> b' ! i = 0"
proof -
  obtain d k where sk: "skip_white b i = Some (d, k)" using assms by (auto simp: gettoken1_def split: bind_splits)
  note s = skip_white_spec [OF sk]
  have same: "d ! k = b ! k" using s by (metis hd_drop_conv_nth)
  have step: "(\<exists>j. c = 0x77 \<and> b' = d[j := 0] \<and> k < j \<and> j < length b \<and> p1 = Some k \<and> p2 = Some (j + 1) \<and> \<not> is_symbol (d ! k) \<and> d ! k \<noteq> 0) \<or>
      (c = 0 \<and> b' = d \<and> d ! k = 0 \<and> p1 = None \<and> p2 = None) \<or>
      (c \<noteq> 0 \<and> c \<noteq> 0x77 \<and> b' = d[k := 0, k + 1 := 0] \<and> k + 1 < length b \<and> p1 = Some k \<and> p2 = Some (k + 2)) \<or>
      (c \<noteq> 0 \<and> c \<noteq> 0x77 \<and> b' = d[k := 0] \<and> p1 = Some k \<and> p2 = Some (k + 1)) \<or>
      (\<exists>j. c = 0x77 \<and> b' = d \<and> k < j \<and> j < length b \<and> p1 = Some k \<and> p2 = Some j \<and>
        (d ! j = 0 \<or> is_white (d ! j) \<or> is_symbol (d ! j)) \<and> \<not> is_symbol (d ! k) \<and> d ! k \<noteq> 0)" (is ?step)
  proof -
    have len: "length d = length b" and nw: "\<not> is_white (d ! k)" using s by auto
    consider (eol) "d ! k = 0" | (quoted) q where "q = 0x22 \<or> q = 0x60" "d ! k = q"
      | (dbl) x where "d ! k \<noteq> 0" "d ! k \<notin> {0x22, 0x60}" "double x d k" "x \<in> {0x3E, 0x7C, 0x26}"
      | (sym) "d ! k \<noteq> 0" "d ! k \<notin> {0x22, 0x60}" "\<not> double 0x3E d k" "\<not> double 0x7C d k" "\<not> double 0x26 d k" "is_symbol (d ! k)"
      | (wrd) "d ! k \<noteq> 0" "d ! k \<notin> {0x22, 0x60}" "\<not> double 0x3E d k" "\<not> double 0x7C d k" "\<not> double 0x26 d k" "\<not> is_symbol (d ! k)"
      by blast
    then show ?step
    proof cases
      case eol
      then show ?thesis using assms by (simp add: gettoken1_def sk)
    next
      case quoted
      then obtain j where "close_quote q d k = Some j" "c = 0x77" "b' = d[j := 0]" "p1 = Some k" "p2 = Some (j + 1)"
        using assms by (auto simp: gettoken1_def sk split: bind_splits)
      then show ?thesis using quoted close_quote_range [of q d k j] len by auto
    next
      case dbl
      then have "c \<in> {0x61, 0x4F, 0x41}" "b' = d[k := 0, k + 1 := 0]" "p1 = Some k" "p2 = Some (k + 2)" "k + 1 < length b"
        using assms len by (auto simp: gettoken1_def sk double_def)
      then show ?thesis by auto
    next
      case sym
      then have "c = d ! k" "b' = d[k := 0]" "p1 = Some k" "p2 = Some (k + 1)" using assms by (auto simp: gettoken1_def sk)
      then show ?thesis using sym by auto
    next
      case wrd
      then obtain j where "word_end d k = Some j" "c = 0x77" "b' = d" "p1 = Some k" "p2 = Some j"
        using assms by (auto simp: gettoken1_def sk split: bind_splits)
      then show ?thesis using wrd nw word_end_range [of d k j] len by auto
    qed
  qed
  show "length b' = length b" "take i b' = take i b" "i < length b" using step s by (auto simp: take_update_cancel)
  show "c = 0 \<and> p1 = None \<and> p2 = None \<or> c \<noteq> 0 \<and> (\<exists>p j. p1 = Some p \<and> p2 = Some j \<and> i \<le> p \<and> p < j \<and> j \<le> length b \<and>
      (c = 0x77 \<longrightarrow> ends_word b' j))"
    using step s by (auto simp: ends_word_def)
  show "b' ! i = 0" if "b ! i = 0 \<or> is_white (b ! i) \<or> is_symbol (b ! i)"
  proof (cases "i < k")
    case True
    then show ?thesis using step s by (auto simp: nth_list_update)
  next
    case False
    then have "k = i" using s by simp
    then show ?thesis using step s that same by (auto simp: nth_list_update)
  qed
qed

text \<open>The static state after a call: a word that was read ahead is not yet ended, unless it was quoted.\<close>

definition lexer_ok :: "lexer \<Rightarrow> bool" where
  "lexer_ok l \<longleftrightarrow> (nc l = 0 \<and> np1 l = None \<and> np2 l = None) \<or>
     (nc l \<noteq> 0 \<and> (\<exists>p j. np1 l = Some p \<and> np2 l = Some j \<and> p < j \<and> j \<le> length (lbuf l) \<and> (nc l = 0x77 \<longrightarrow> ends_word (lbuf l) j)))"

text \<open>A word that no later call changes.\<close>

definition settled :: "lexer \<Rightarrow> nat \<Rightarrow> bool" where
  "settled l i \<longleftrightarrow> (\<exists>q. i \<le> q \<and> q < length (lbuf l) \<and> lbuf l ! q = 0 \<and> (case np2 l of None \<Rightarrow> True | Some j \<Rightarrow> q < j))"

lemma word_at_take:
  assumes "i \<le> q" "q < n" "b ! q = 0" "take n b' = take n b" "length b' = length b" "q < length b"
  shows "word_at b' i = word_at b i" "b' ! q = 0"
proof -
  have split: "takeWhile (\<lambda>c. c \<noteq> 0) (drop i x) = takeWhile (\<lambda>c. c \<noteq> 0) (drop i (take n x))"
    if "x ! q = 0" "q < length x" for x :: "u8 list"
  proof -
    have "drop i (take n x @ drop n x) = drop i (take n x) @ drop n x"
      using assms(1,2) that(2) by (simp del: append_take_drop_id)
    then have "drop i x = drop i (take n x) @ drop n x" by simp
    moreover have "0 \<in> set (drop i (take n x))"
      using that assms(1,2) by (auto simp: in_set_conv_nth intro!: exI [of _ "q - i"])
    ultimately show ?thesis by (metis (mono_tags, lifting) takeWhile_append1)
  qed
  show b'q: "b' ! q = 0" using assms(2,3,4) by (metis nth_take)
  show "word_at b' i = word_at b i"
    unfolding word_at_def using split [OF b'q] split [OF assms(3,6)] assms(4,5,6) by simp
qed

lemma gettoken1_lexer:
  assumes "gettoken1 b s = Some (c, p1, p2, b')"
  shows "lexer_ok \<lparr>nc = c, np1 = p1, np2 = p2, lbuf = b'\<rparr> \<and> length b' = length b"
proof (cases s)
  case None
  then show ?thesis using assms by (simp add: gettoken1_def lexer_ok_def)
next
  case (Some i)
  note f = gettoken1_forward(1,4) [OF assms [unfolded Some]]
  show ?thesis using f(2) f(1) by (elim disjE conjE exE) (simp_all add: lexer_ok_def)
qed

lemma gettoken_start_ok: "gettoken_start b i = Some l \<Longrightarrow> lexer_ok l \<and> length (lbuf l) = length b"
  by (auto simp: gettoken_start_def split: bind_splits dest: gettoken1_lexer)

lemma gettoken_ok:
  assumes "gettoken l = Some (c, p, l')" "lexer_ok l"
  shows "lexer_ok l'" "c = nc l" "p = np1 l" "length (lbuf l') = length (lbuf l)"
    and "settled l i \<Longrightarrow> settled l' i \<and> word_at (lbuf l') i = word_at (lbuf l) i"
    and "c = 0x77 \<Longrightarrow> \<exists>i. p = Some i \<and> settled l' i"
proof -
  obtain p1 p2 b where g: "gettoken1 (lbuf l) (np2 l) = Some (nc l', p1, p2, b)" "l' = \<lparr>nc = nc l', np1 = p1, np2 = p2, lbuf = b\<rparr>"
    and cp: "c = nc l" "p = np1 l"
    using assms(1) by (auto simp: gettoken_def split: bind_splits)
  have l': "np1 l' = p1" "np2 l' = p2" "lbuf l' = b" by (subst g(2), simp)+
  show "c = nc l" "p = np1 l" by (fact cp)+
  show "lexer_ok l'" "length (lbuf l') = length (lbuf l)"
    using gettoken1_lexer [OF g(1)] g(2) l' by simp_all
  show "settled l' i \<and> word_at (lbuf l') i = word_at (lbuf l) i" if st: "settled l i"
  proof (cases "np2 l")
    case None
    then have "nc l' = 0" "p2 = None" "b = lbuf l" using g(1) by (auto simp: gettoken1_def)
    then show ?thesis using st None by (auto simp: settled_def l')
  next
    case (Some j)
    then obtain q where q: "i \<le> q" "q < j" "lbuf l ! q = 0" "q < length (lbuf l)" using st by (auto simp: settled_def)
    note f = gettoken1_forward [OF g(1) [unfolded Some]]
    note w = word_at_take [OF q(1,2,3) f(2,1) q(4)]
    have "case p2 of None \<Rightarrow> True | Some k \<Rightarrow> q < k" using f(4) q(2) by (auto split: option.split)
    then show ?thesis using w q(1,4) f(1) by (auto simp: settled_def l')
  qed
  show "\<exists>i. p = Some i \<and> settled l' i" if word: "c = 0x77"
  proof -
    obtain i j where ij: "np1 l = Some i" "np2 l = Some j" "i < j" "j \<le> length (lbuf l)" "ends_word (lbuf l) j"
      using assms(2) cp word by (auto simp: lexer_ok_def)
    note f = gettoken1_forward [OF g(1) [unfolded ij(2)]]
    show ?thesis
    proof (cases "lbuf l ! (j - 1) = 0")
      case True
      have j: "i \<le> j - 1" "j - 1 < j" "j - 1 < length (lbuf l)" using ij(3,4) by auto
      then have "b ! (j - 1) = 0" using word_at_take(2) [OF j(1,2) True f(2,1) j(3)] by simp
      moreover have "case p2 of None \<Rightarrow> True | Some k \<Rightarrow> j - 1 < k" using f(4) ij(3) by (auto split: option.split)
      ultimately show ?thesis using cp ij(1) j f(1)
        by (auto simp: settled_def l' simp del: One_nat_def intro!: exI [of _ "j - 1"])
    next
      case False
      then have "b ! j = 0" "j < length (lbuf l)" using ij(5) f(5) by (auto simp: ends_word_def)
      moreover have "case p2 of None \<Rightarrow> True | Some k \<Rightarrow> j < k" using f(4) by (auto split: option.split)
      ultimately show ?thesis using cp ij(1,3) f(1) by (auto simp: settled_def l' intro!: exI [of _ j])
    qed
  qed
qed

lemma gettoken_shorter: "gettoken l = Some (c, p, l') \<Longrightarrow> c \<noteq> 0 \<Longrightarrow> lex_left l' < lex_left l"
proof -
  assume "gettoken l = Some (c, p, l')" "c \<noteq> 0"
  then obtain c' p1 p2 b where g: "gettoken1 (lbuf l) (np2 l) = Some (c', p1, p2, b)" "l' = \<lparr>nc = c', np1 = p1, np2 = p2, lbuf = b\<rparr>" "nc l \<noteq> 0"
    by (auto simp: gettoken_def split: bind_splits)
  show ?thesis
  proof (cases "np2 l")
    case None
    then show ?thesis using g by (auto simp: gettoken1_def lex_left_def)
  next
    case (Some i)
    note f = gettoken1_forward [OF g(1) [unfolded Some]]
    then show ?thesis using g(2,3) Some by (auto simp: lex_left_def)
  qed
qed

text \<open>\<^verbatim>\<open>while (1) { op = gettoken(0, &t); if (op == 0) return 0; else if (op == 'A') ... }\<close>\<close>

function skip_to_and :: "lexer \<Rightarrow> lexer option option" where
  "skip_to_and l =
    (case gettoken l of
       None \<Rightarrow> None
     | Some (c, _, l) \<Rightarrow> if c = 0 then Some None else if c = 0x41 then Some (Some l) else skip_to_and l)"
  by pat_completeness auto
termination by (relation "measure lex_left") (auto dest: gettoken_shorter)

declare skip_to_and.simps [simp del]

lemma skip_to_and_shorter: "skip_to_and l = Some (Some l') \<Longrightarrow> lex_left l' < lex_left l"
proof (induction l rule: skip_to_and.induct)
  case (1 l)
  obtain c p l1 where g: "gettoken l = Some (c, p, l1)" "c \<noteq> 0"
    using "1.prems" by (subst (asm) skip_to_and.simps) (auto split: option.splits if_splits)
  note s = gettoken_shorter [OF g]
  show ?case
  proof (cases "c = 0x41")
    case True
    then show ?thesis using "1.prems" g s by (subst (asm) skip_to_and.simps) simp
  next
    case False
    then have "skip_to_and l1 = Some (Some l')" using "1.prems" g by (subst (asm) skip_to_and.simps) simp
    then show ?thesis using "1.IH" [OF g(1) refl refl g(2) False] s by simp
  qed
qed

text \<open>The result: the arguments, the value left in \<^verbatim>\<open>*rightpipe\<close>, the two flags, and the tokenizer.\<close>

record parsed =
  argv :: "nat list"
  rightpipe :: int
  flag_next_is_condition :: bool
  flag_is_in_back :: bool
  lexst :: lexer

definition parsed0 :: "nat list \<Rightarrow> int \<Rightarrow> lexer \<Rightarrow> parsed" where
  "parsed0 av rp l = \<lparr>argv = av, rightpipe = rp, flag_next_is_condition = False, flag_is_in_back = False, lexst = l\<rparr>"

abbreviation MAXARGS :: nat where "MAXARGS \<equiv> 128"

text \<open>\<open>fork_or\<close> forks for the left side \<open>k0\<close> and goes on with \<open>k\<close>.\<close>

definition fork_or :: "'a proc \<Rightarrow> (int \<Rightarrow> 'a proc) \<Rightarrow> 'a proc" where
  "fork_or left k = Call Fork (\<lambda>id. if id < 0 then die ''failed to fork in sh.c'' [] else if id = 0 then left else k id)"

lemma fork_or_cong [fundef_cong]:
  "left = left' \<Longrightarrow> (\<And>id. k id = k' id) \<Longrightarrow> fork_or left k = fork_or left' k'"
  by (metis ext)

definition redirect :: "u8 \<Rightarrow> u8 list \<Rightarrow> 'a proc \<Rightarrow> 'a proc" where
  "redirect c t k = (if c = 0x3C then redir_in t k else if c = 0x3E then redir_out t k else redir_app t k)"

definition no_word :: "u8 \<Rightarrow> 'a proc" where
  "no_word c = die (if c = 0x3C then ''syntax error: < not followed by word'' else ''syntax error: > not followed by word'') []"

definition pipe_right :: "int \<Rightarrow> int \<Rightarrow> 'a proc \<Rightarrow> 'a proc" where
  "pipe_right p0 p1 k = Call (Dup p0 0) (\<lambda>_. Call (Close p0) (\<lambda>_. Call (Close p1) (\<lambda>_. k)))"

definition pipe_left :: "int \<Rightarrow> int \<Rightarrow> 'a proc \<Rightarrow> 'a proc" where
  "pipe_left p0 p1 k = Call (Dup p1 1) (\<lambda>_. Call (Close p1) (\<lambda>_. Call (Close p0) (\<lambda>_. k)))"

function parsecmd :: "nat list \<Rightarrow> int \<Rightarrow> lexer \<Rightarrow> parsed proc" where
  "parsecmd av rp l =
    (case gettoken l of
       None \<Rightarrow> Fault
     | Some (c, t, l) \<Rightarrow>
         if c = 0 then Ret (parsed0 av rp l)
         else if c = 0x77 then
           if MAXARGS \<le> length av then die ''too many arguments'' []
           else (case t of None \<Rightarrow> Fault | Some i \<Rightarrow> parsecmd (av @ [i]) rp l)
         else if c = 0x3C \<or> c = 0x3E \<or> c = 0x61 then
           (case gettoken l of
              None \<Rightarrow> Fault
            | Some (c', t, l') \<Rightarrow>
                if c' \<noteq> 0x77 then no_word c
                else case t of None \<Rightarrow> Fault | Some i \<Rightarrow> redirect c (word_at (lbuf l') i) (parsecmd av rp l'))
         else if c = 0x7C then
           MkPipe (\<lambda>r p0 p1. if r < 0 then die ''failed to create pipe'' []
             else Call Fork (\<lambda>id. if id = 0 then pipe_right p0 p1 (parsecmd [] 0 l)
               else pipe_left p0 p1 (Ret (parsed0 av id l))))
         else if c = 0x3B then fork_or (Ret (parsed0 av rp l)) (\<lambda>id. Call (Wait id) (\<lambda>_. parsecmd [] rp l))
         else if c = 0x4F then
           fork_or (Ret ((parsed0 av rp l)\<lparr>flag_next_is_condition := True\<rparr>))
             (\<lambda>id. Call IpcRecv (\<lambda>res. if res = 0 then
                  (case skip_to_and l of None \<Rightarrow> Fault | Some None \<Rightarrow> Ret (parsed0 [] rp l) | Some (Some l') \<Rightarrow> parsecmd [] rp l')
                else parsecmd [] rp l))
         else if c = 0x41 then
           fork_or (Ret ((parsed0 av rp l)\<lparr>flag_next_is_condition := True\<rparr>))
             (\<lambda>id. Call IpcRecv (\<lambda>res. if res \<noteq> 0 then
                  (case gettoken l of
                     None \<Rightarrow> Fault
                   | Some (op, _, l') \<Rightarrow> if op = 0 then Ret (parsed0 [] rp l')
                       else if op = 0x4F then parsecmd [] rp l' else parsecmd av rp l')
                else parsecmd [] rp l))
         else if c = 0x26 then
           fork_or (Ret ((parsed0 av rp l)\<lparr>flag_is_in_back := True\<rparr>)) (\<lambda>id. parsecmd [] rp l)
         else parsecmd av rp l)"
  by pat_completeness auto
termination
  by (relation "measure (\<lambda>(_, _, l). lex_left l)") (fastforce dest: gettoken_shorter skip_to_and_shorter)+

declare parsecmd.simps [simp del]

section \<open>Running a command\<close>

text \<open>An argument is a pointer into the line or to \<^verbatim>\<open>outbuf\<close>.\<close>

datatype arg = InLine nat | InOutbuf

definition arg_str :: "u8 list \<Rightarrow> u8 list \<Rightarrow> arg \<Rightarrow> u8 list" where
  "arg_str b out a = (case a of InLine i \<Rightarrow> word_at b i | InOutbuf \<Rightarrow> takeWhile (\<lambda>c. c \<noteq> 0) out)"

text \<open>\<^verbatim>\<open>for (j = 0; argv[i][j] != 0; j++) argv[i][j] = argv[i][j + 1]\<close>\<close>

function unquote :: "u8 list \<Rightarrow> nat \<Rightarrow> u8 list" where
  "unquote b j = (if j + 1 < length b \<and> b ! j \<noteq> 0 then unquote (b[j := b ! (j + 1)]) (j + 1) else b)"
  by pat_completeness auto
termination by (relation "measure (\<lambda>(b, j). length b - j)") auto

declare unquote.simps [simp del]

text \<open>The output of the command in backquotes, at most 19995 bytes of it.\<close>

function read_out :: "int \<Rightarrow> u8 list \<Rightarrow> (u8 list \<Rightarrow> 'a proc) \<Rightarrow> 'a proc" where
  "read_out fd acc k =
    ReadFd fd (20000 - length acc - 5) (\<lambda>n bs.
      if n > 0 then if length bs = nat n \<and> length acc + length bs \<le> 19995 then read_out fd (acc @ bs) k else Fault
      else if n < 0 then die ''error in `'' [] else k acc)"
  by pat_completeness auto
termination by (relation "measure (\<lambda>(_, acc, _). 20000 - length acc)") auto

declare read_out.simps [simp del]

fun echo_args :: "nat list \<Rightarrow> arg list \<Rightarrow> u8 list \<Rightarrow> u8 list \<Rightarrow> (arg list \<Rightarrow> u8 list \<Rightarrow> u8 list \<Rightarrow> 'a proc) \<Rightarrow> 'a proc" where
  "echo_args [] as b out k = k as b out"
| "echo_args (i # is) as b out k =
    (if length b \<le> i then Fault
     else if b ! i = 0x22 then echo_args is (as @ [InLine i]) (unquote b i) out k
     else if b ! i = 0x60 then
       let b = b[i := 0x20] in
       MkPipe (\<lambda>r p0 p1. if r < 0 then die ''failed to create pipe'' []
         else fork_or
           (Call (Close p0) (\<lambda>_. Call (Dup p1 1) (\<lambda>_. Call (Close p1) (\<lambda>_.
              if 1024 \<le> length (word_at b i) then Fault else Nested (word_at b i)))))
           (\<lambda>_. Call (Close p1) (\<lambda>_. read_out p0 [] (\<lambda>out. Call (Close p0) (\<lambda>_.
              echo_args is (as @ [InOutbuf]) b out k)))))
     else echo_args is (as @ [InLine i]) b out k)"

abbreviation cmd_echo :: "u8 list" where "cmd_echo \<equiv> [0x65, 0x63, 0x68, 0x6F]"
abbreviation cmd_history :: "u8 list" where "cmd_history \<equiv> [0x68, 0x69, 0x73, 0x74, 0x6F, 0x72, 0x79]"
abbreviation cmd_jobs :: "u8 list" where "cmd_jobs \<equiv> [0x6A, 0x6F, 0x62, 0x73]"
abbreviation cmd_kill :: "u8 list" where "cmd_kill \<equiv> [0x6B, 0x69, 0x6C, 0x6C]"
abbreviation cmd_fg :: "u8 list" where "cmd_fg \<equiv> [0x66, 0x67]"
abbreviation mosh_history :: "u8 list" where
  "mosh_history \<equiv> [0x2F, 0x2E, 0x6D, 0x6F, 0x73, 0x68, 0x5F, 0x68, 0x69, 0x73, 0x74, 0x6F, 0x72, 0x79]"

definition job_number :: "u8 list \<Rightarrow> u32" where
  "job_number cs = foldl (\<lambda>n c. 10 * n + scast c - 48) 0 cs"

text \<open>The text of a background job: from the first argument to the \<^verbatim>\<open>&\<close> after the last one.\<close>

definition job_text :: "u8 list \<Rightarrow> arg list \<Rightarrow> u8 list \<Rightarrow> u8 list option" where
  "job_text copy as b =
    (case (hd as, last as) of
       (InLine begin, InLine i) \<Rightarrow>
         (case find (\<lambda>i. i < length copy \<and> copy ! i = 0x26) [i + length (word_at b i)..<1024] of
            Some e \<Rightarrow> if length copy - begin < 1000 then Some (take (e + 1 - begin) (drop begin copy)) else None
          | None \<Rightarrow> None)
     | _ \<Rightarrow> None)"

definition finish :: "int \<Rightarrow> 'a proc" where
  "finish rp = (if rp \<noteq> 0 then Call (Wait rp) (\<lambda>_. Exit) else Exit)"

definition spawn_cmd :: "u8 list option \<Rightarrow> bool \<Rightarrow> int \<Rightarrow> u8 list list \<Rightarrow> 'a proc" where
  "spawn_cmd job cond rp ws =
    Call (Spawn ws) (\<lambda>child.
      let rest = Call CloseAll (\<lambda>_.
            if child \<ge> 0 then Call IpcRecv (\<lambda>res. if cond then Call (IpcSendParent res) (\<lambda>_. finish rp) else finish rp)
            else Call (Debugf ''spawn'' (hd ws)) (\<lambda>_. finish rp))
      in case job of None \<Rightarrow> rest | Some text \<Rightarrow> Call (AddJob child text) (\<lambda>_. rest))"

definition exec_args :: "u8 list \<Rightarrow> parsed \<Rightarrow> arg list \<Rightarrow> u8 list \<Rightarrow> u8 list \<Rightarrow> unit proc" where
  "exec_args copy p as b out =
    (let ws = map (arg_str b out) as;
         go = (if flag_is_in_back p then
                 (case job_text copy as b of None \<Rightarrow> Fault
                  | Some text \<Rightarrow> spawn_cmd (Some text) (flag_next_is_condition p) (rightpipe p) ws)
               else spawn_cmd None (flag_next_is_condition p) (rightpipe p) ws)
     in
     if hd ws = cmd_history then
       Call (Open mosh_history 0) (\<lambda>fd. if fd < 0 then Call (Printf ''error in history.b'') (\<lambda>_. Exit)
         else Call (CopyOut fd) (\<lambda>_. Call (Close fd) (\<lambda>_. Ret ())))
     else if hd ws = cmd_jobs then Call PrintJobs (\<lambda>_. Call CloseAll (\<lambda>_. finish (rightpipe p)))
     else if hd ws = cmd_kill then
       (if length ws < 2 then Fault else Call (KillJob (job_number (ws ! 1))) (\<lambda>_. go))
     else if hd ws = cmd_fg then
       (if length ws < 2 then Fault else Call (EnvidByJob (job_number (ws ! 1))) (\<lambda>e. Call (Wait e) (\<lambda>_. go)))
     else go)"

definition exec_cmd :: "u8 list \<Rightarrow> parsed \<Rightarrow> unit proc" where
  "exec_cmd copy p =
    (if argv p = [] then Ret ()
     else if MAXARGS \<le> length (argv p) then Fault
     else let b = lbuf (lexst p) in
       if word_at b (hd (argv p)) = cmd_echo then
         echo_args (tl (argv p)) [InLine (hd (argv p))] b [] (exec_args copy p)
       else exec_args copy p (map InLine (argv p)) b [])"

definition runcmd :: "u8 list \<Rightarrow> unit proc" where
  "runcmd b =
    (let copy = takeWhile (\<lambda>c. c \<noteq> 0) b in
     if 1025 \<le> length copy then Fault
     else case gettoken_start b 0 of None \<Rightarrow> Fault | Some l \<Rightarrow> proc_bind (parsecmd [] 0 l) (exec_cmd copy))"

end
