(* ===== verification/MOS_ShellExec.thy ===== *)
theory MOS_ShellExec
  imports MOS_ShellRun
begin

text \<open>
  What command lines do: the processes of \<open>MOS_ShellRun\<close> run against their library calls, and the theorems on
  lists, pipelines and redirections.

  A process has a descriptor table and a mailbox for the value of the next \<^verbatim>\<open>ipc_recv\<close>. A forked
  process is run until it ends or blocks before its parent goes on; where the parent waits for it, by \<^verbatim>\<open>wait\<close>
  or \<^verbatim>\<open>ipc_recv\<close>, this is the only order. Which programs exist and what they send when they
  end, and which files can be opened, are parameters.
\<close>

section \<open>Running a process\<close>

datatype target = Console | FileAt "u8 list" u32 | PipeR nat | PipeW nat

type_synonym fdtab = "int \<Rightarrow> target option"

datatype event = Started "u8 list list" fdtab | RanLine "u8 list" fdtab | JobAdded int "u8 list"

text \<open>A program that returns from \<^verbatim>\<open>main\<close> sends its status to its parent; one that calls \<^verbatim>\<open>exit\<close> is silent.\<close>

datatype program = Missing | Returns int | Silent

record shell_env =
  prog :: "u8 list list \<Rightarrow> program"
  opens :: "u8 list \<Rightarrow> u32 \<Rightarrow> bool"
  reads_from :: "target option \<Rightarrow> nat \<Rightarrow> int \<times> u8 list"

record world =
  next_env :: int
  npipes :: nat
  stuck :: "int list"
  events :: "event list"

datatype fate = Ended | Blocked | Crashed

definition log_event :: "event \<Rightarrow> world \<Rightarrow> world" where
  "log_event e w = w\<lparr>events := events w @ [e]\<rparr>"

definition free_fds :: "fdtab \<Rightarrow> int list" where
  "free_fds T = filter (\<lambda>i. T i = None) (map int [0..<31])"

definition step_call :: "shell_env \<Rightarrow> sh_call \<Rightarrow> fdtab \<Rightarrow> int option \<Rightarrow> world \<Rightarrow> (int \<times> fdtab \<times> int option \<times> world) option" where
  "step_call E c T mb w =
    (case c of
       Open t m \<Rightarrow> Some (if opens E t m \<and> free_fds T \<noteq> [] then (hd (free_fds T), T(hd (free_fds T) \<mapsto> FileAt t m), mb, w) else (- 1, T, mb, w))
     | Dup a b \<Rightarrow> Some (case T a of None \<Rightarrow> (- 1, T, mb, w) | Some x \<Rightarrow> (b, T(b \<mapsto> x), mb, w))
     | Close a \<Rightarrow> Some (0, T(a := None), mb, w)
     | CloseAll \<Rightarrow> Some (0, \<lambda>_. None, mb, w)
     | Wait e \<Rightarrow> if e \<in> set (stuck w) then None else Some (0, T, mb, w)
     | IpcRecv \<Rightarrow> (case mb of None \<Rightarrow> None | Some v \<Rightarrow> Some (v, T, None, w))
     | Spawn ws \<Rightarrow>
         Some (case prog E ws of
           Missing \<Rightarrow> (- 10, T, mb, w)
         | Returns v \<Rightarrow> (next_env w, T, Some v, log_event (Started ws T) (w\<lparr>next_env := next_env w + 1\<rparr>))
         | Silent \<Rightarrow> (next_env w, T, mb, log_event (Started ws T) (w\<lparr>next_env := next_env w + 1\<rparr>)))
     | AddJob e text \<Rightarrow> Some (0, T, mb, log_event (JobAdded e text) w)
     | _ \<Rightarrow> Some (0, T, mb, w))"

text \<open>The fate of the process, the value it sends to its parent, and the world.\<close>

primrec run :: "shell_env \<Rightarrow> 'a proc \<Rightarrow> fdtab \<Rightarrow> int option \<Rightarrow> world \<Rightarrow> fate \<times> int option \<times> world" where
  "run E (Ret x) = (\<lambda>T mb w. (Ended, None, w))"
| "run E Exit = (\<lambda>T mb w. (Ended, None, w))"
| "run E Fault = (\<lambda>T mb w. (Crashed, None, w))"
| "run E (Nested s) = (\<lambda>T mb w. (Ended, None, log_event (RanLine s T) w))"
| "run E (MkPipe k) = (\<lambda>T mb w.
     case free_fds T of
       a # b # _ \<Rightarrow> run E (k 0 a b) (T(a \<mapsto> PipeR (npipes w), b \<mapsto> PipeW (npipes w))) mb (w\<lparr>npipes := npipes w + 1\<rparr>)
     | _ \<Rightarrow> run E (k (- 1) 0 0) T mb w)"
| "run E (ReadFd d n k) = (\<lambda>T mb w. run E (k (fst (reads_from E (T d) n)) (snd (reads_from E (T d) n))) T mb w)"
| "run E (Call c k) = (\<lambda>T mb w.
     case c of
       Fork \<Rightarrow>
         (let e = next_env w;
              (f, sent, w) = run E (k 0) T None (w\<lparr>next_env := e + 1\<rparr>);
              w = (if f = Ended then w else w\<lparr>stuck := e # stuck w\<rparr>)
          in run E (k e) T (case sent of None \<Rightarrow> mb | Some v \<Rightarrow> Some v) w)
     | IpcSendParent v \<Rightarrow> (let (f, sent, w) = run E (k 0) T mb w in (f, Some v, w))
     | _ \<Rightarrow> (case step_call E c T mb w of None \<Rightarrow> (Blocked, None, w) | Some (r, T, mb, w) \<Rightarrow> run E (k r) T mb w))"

section \<open>Lines as tokens\<close>

inductive reads :: "lexer \<Rightarrow> token list \<Rightarrow> bool" where
  reads_end: "lexer_ok l \<Longrightarrow> gettoken l = Some (0, p, l') \<Longrightarrow> reads l []"
| reads_word: "lexer_ok l \<Longrightarrow> gettoken l = Some (0x77, Some i, l') \<Longrightarrow> settled l' i \<Longrightarrow> reads l' ts \<Longrightarrow>
    reads l (Word (word_at (lbuf l') i) # ts)"
| reads_op: "lexer_ok l \<Longrightarrow> gettoken l = Some (c, p, l') \<Longrightarrow> c \<noteq> 0 \<Longrightarrow> c \<noteq> 0x77 \<Longrightarrow> reads l' ts \<Longrightarrow> reads l (Op c # ts)"

inductive_cases reads_NilE: "reads l []"
inductive_cases reads_WordE: "reads l (Word w # ts)"
inductive_cases reads_OpE: "reads l (Op c # ts)"

lemma tokens_reads:
  "tokens l = Some (toks, b) \<Longrightarrow> lexer_ok l \<Longrightarrow>
    reads l (map (token_of b) toks) \<and> (\<forall>i. settled l i \<longrightarrow> word_at b i = word_at (lbuf l) i)"
proof (induction toks arbitrary: l)
  case Nil
  then obtain p l' where g: "gettoken l = Some (0, p, l')" "b = lbuf l'"
    by (subst (asm) tokens.simps) (auto split: bind_splits if_splits)
  then show ?case using gettoken_ok(5) [OF g(1) Nil.prems(2)] reads_end [OF Nil.prems(2) g(1)] by auto
next
  case (Cons t toks)
  then obtain c p l' where g: "gettoken l = Some (c, p, l')" "c \<noteq> 0" "tokens l' = Some (toks, b)" "t = (c, p)"
    by (subst (asm) (2) tokens.simps) (auto split: bind_splits if_splits)
  note ok = gettoken_ok [OF g(1) Cons.prems(2)]
  note IH = Cons.IH [OF g(3) ok(1)]
  have "reads l (token_of b t # map (token_of b) toks)"
  proof (cases "c = 0x77")
    case True
    then obtain i where i: "p = Some i" "settled l' i" using ok(6) by blast
    have "token_of b t = Word (word_at (lbuf l') i)" using True g(4) i IH by (simp add: token_of_def)
    then show ?thesis using reads_word [OF Cons.prems(2), of i l'] g(1) True i IH by simp
  next
    case False
    then show ?thesis using reads_op [OF Cons.prems(2) g(1,2)] IH g(4) by (simp add: token_of_op)
  qed
  then show ?case using IH ok(5) by auto
qed

lemma lex_reads:
  assumes "lex line = Some ts" "0 \<notin> set line"
  obtains l where "gettoken_start (line @ 0 # post) 0 = Some l" "reads l ts"
proof -
  obtain toks mid where t: "tokens_from (line @ 0 # post) 0 = Some (toks, mid @ 0 # post)" "map (token_of (mid @ 0 # post)) toks = ts"
    using lex_lexes [OF assms, of "[]" post] unfolding lexes_def by auto
  then obtain l where l: "gettoken_start (line @ 0 # post) 0 = Some l" "tokens l = Some (toks, mid @ 0 # post)"
    by (auto simp: tokens_from_def split: bind_splits)
  then show thesis using tokens_reads [OF l(2)] gettoken_start_ok [OF l(1)] t(2) that by auto
qed

section \<open>The parser on tokens\<close>

definition args :: "lexer \<Rightarrow> nat list \<Rightarrow> u8 list list \<Rightarrow> bool" where
  "args l av ws \<longleftrightarrow> list_all2 (\<lambda>i w. settled l i \<and> word_at (lbuf l) i = w) av ws"

lemma args_Nil [simp]: "args l [] []"
  by (simp add: args_def)

lemma args_length: "args l av ws \<Longrightarrow> length av = length ws"
  by (auto simp: args_def dest: list_all2_lengthD)

lemma args_gettoken: "gettoken l = Some (c, p, l') \<Longrightarrow> lexer_ok l \<Longrightarrow> args l av ws \<Longrightarrow> args l' av ws"
  unfolding args_def by (erule list_all2_mono) (use gettoken_ok(5) in auto)

lemma reads_lexer_ok: "reads l ts \<Longrightarrow> lexer_ok l"
  by (auto elim: reads.cases)

lemma parse_word:
  assumes "reads l (Word w # ts)" "args l av vs" "length vs < 128"
  obtains l' i where "parsecmd av rp l = parsecmd (av @ [i]) rp l'" "reads l' ts" "args l' (av @ [i]) (vs @ [w])"
proof -
  obtain i l' where g: "gettoken l = Some (0x77, Some i, l')" "settled l' i" "reads l' ts" "w = word_at (lbuf l') i" "lexer_ok l"
    using assms(1) by (auto elim: reads_WordE)
  have "parsecmd av rp l = parsecmd (av @ [i]) rp l'"
    using assms(3) args_length [OF assms(2)] by (subst parsecmd.simps) (simp add: g(1))
  moreover have "args l' (av @ [i]) (vs @ [w])"
    using args_gettoken [OF g(1,5) assms(2)] g(2,4) unfolding args_def by (intro list_all2_appendI) auto
  ultimately show thesis using g(3) that by blast
qed

lemma parse_words:
  assumes "reads l (map Word ws @ ts)" "args l av vs" "length vs + length ws \<le> 128"
  obtains l' av' where "parsecmd av rp l = parsecmd av' rp l'" "reads l' ts" "args l' av' (vs @ ws)"
  using assms
proof (induction ws arbitrary: l av vs thesis)
  case Nil
  then show ?case by simp
next
  case (Cons w ws)
  obtain l1 i where 1: "parsecmd av rp l = parsecmd (av @ [i]) rp l1" "reads l1 (map Word ws @ ts)" "args l1 (av @ [i]) (vs @ [w])"
    by (rule parse_word [of l w "map Word ws @ ts" av vs rp]) (use Cons.prems(2-4) in auto)
  show ?case
    by (rule Cons.IH [OF _ 1(2,3)]) (use Cons.prems(1,4) 1(1) in auto)
qed

lemma parse_op:
  assumes "reads l (Op c # ts)" "args l av ws"
  obtains p l' where "gettoken l = Some (c, p, l')" "c \<noteq> 0" "c \<noteq> 0x77" "reads l' ts" "args l' av ws"
  using assms(1) by (rule reads_OpE) (use args_gettoken assms(2) that in blast)

lemma parse_end:
  assumes "reads l []" "args l av ws"
  obtains l' where "parsecmd av rp l = Ret (parsed0 av rp l')" "args l' av ws"
proof -
  obtain p l' where g: "lexer_ok l" "gettoken l = Some (0, p, l')" using assms(1) by (auto elim: reads_NilE)
  show thesis using args_gettoken [OF g(2,1) assms(2)] by (intro that [of l']) (subst parsecmd.simps, simp_all add: g(2))
qed

text \<open>Skipping after a successful left side of \<^verbatim>\<open>||\<close>: up to the next \<^verbatim>\<open>&&\<close>.\<close>

lemma skip_to_and_reads:
  assumes "reads l ts"
  shows "case dropWhile (\<lambda>t. t \<noteq> Op 0x41) ts of
      [] \<Rightarrow> skip_to_and l = Some None
    | _ # rest \<Rightarrow> \<exists>l'. skip_to_and l = Some (Some l') \<and> reads l' rest"
  using assms
proof (induction rule: reads.induct)
  case (reads_end l p l')
  then show ?case by (subst skip_to_and.simps) simp
next
  case (reads_word l i l' ts)
  then have "skip_to_and l = skip_to_and l'" by (subst skip_to_and.simps) simp
  then show ?case using reads_word.IH
    by (cases "dropWhile (\<lambda>t. t \<noteq> Op 0x41) ts") (simp_all del: dropWhile_eq_Nil_conv)
next
  case (reads_op l c p l' ts)
  then have "skip_to_and l = (if c = 0x41 then Some (Some l') else skip_to_and l')" by (subst skip_to_and.simps) simp
  then show ?case using reads_op
    by (cases "dropWhile (\<lambda>t. t \<noteq> Op 0x41) ts") (auto simp del: dropWhile_eq_Nil_conv)
qed

section \<open>One command\<close>

text \<open>A command that is no built-in, and \<^verbatim>\<open>echo\<close> without quotes.\<close>

definition plain :: "u8 list list \<Rightarrow> bool" where
  "plain ws \<longleftrightarrow> ws \<noteq> [] \<and> length ws < 128 \<and> hd ws \<notin> {cmd_history, cmd_jobs, cmd_kill, cmd_fg} \<and>
     (hd ws = cmd_echo \<longrightarrow> (\<forall>w\<in>set (tl ws). w \<noteq> [] \<and> hd w \<noteq> 0x22 \<and> hd w \<noteq> 0x60))"

lemma settled_head: "settled l i \<Longrightarrow> word_at (lbuf l) i = w \<Longrightarrow> w \<noteq> [] \<Longrightarrow> i < length (lbuf l) \<and> lbuf l ! i = hd w"
  by (auto simp: settled_def word_at_def Cons_nth_drop_Suc [symmetric] split: if_splits)

lemma echo_args_plain:
  "args l av ws \<Longrightarrow> \<forall>w\<in>set ws. w \<noteq> [] \<and> hd w \<noteq> 0x22 \<and> hd w \<noteq> 0x60 \<Longrightarrow>
    echo_args av as (lbuf l) out k = k (as @ map InLine av) (lbuf l) out"
proof (induction av arbitrary: ws as)
  case (Cons i av)
  then obtain w ws' where ws: "ws = w # ws'" by (cases ws) (auto simp: args_def)
  have "i < length (lbuf l) \<and> lbuf l ! i = hd w" using Cons.prems settled_head [of l i w] by (simp add: args_def ws)
  then show ?case using Cons.prems Cons.IH [of ws' "as @ [InLine i]"] by (auto simp: args_def ws)
qed (simp add: args_def)

lemma arg_str_args: "args l av ws \<Longrightarrow> map (arg_str (lbuf l) out) (map InLine av) = ws"
  unfolding args_def by (induction rule: list_all2_induct) (auto simp: arg_str_def)

lemma exec_plain:
  assumes "args (lexst p) (argv p) ws" "plain ws" "\<not> flag_is_in_back p"
  shows "exec_cmd copy p = spawn_cmd None (flag_next_is_condition p) (rightpipe p) ws"
proof -
  have len: "length (argv p) = length ws" using args_length [OF assms(1)] .
  then obtain i av where av: "argv p = i # av" using assms(2) by (cases "argv p") (auto simp: plain_def)
  then obtain w vs where ws: "ws = w # vs" using len by (cases ws) auto
  have a: "args (lexst p) av vs" "word_at (lbuf (lexst p)) i = w" using assms(1) by (auto simp: args_def av ws)
  have e: "exec_args copy p (map InLine (argv p)) (lbuf (lexst p)) [] = spawn_cmd None (flag_next_is_condition p) (rightpipe p) ws"
    using assms(2,3) unfolding exec_args_def arg_str_args [OF assms(1)] by (simp add: Let_def plain_def)
  show ?thesis
  proof (cases "w = cmd_echo")
    case True
    then have "echo_args av [InLine i] (lbuf (lexst p)) [] (exec_args copy p) = exec_args copy p ([InLine i] @ map InLine av) (lbuf (lexst p)) []"
      using echo_args_plain [OF a(1), of "[InLine i]" "[]" "exec_args copy p"] assms(2) by (simp add: plain_def ws)
    then show ?thesis using True assms(2) e a(2) len by (simp add: exec_cmd_def av plain_def ws Let_def)
  next
    case False
    then show ?thesis using assms(2) e a(2) len by (simp add: exec_cmd_def av plain_def ws Let_def)
  qed
qed

definition started :: "u8 list list \<Rightarrow> fdtab \<Rightarrow> world \<Rightarrow> world" where
  "started ws T w = log_event (Started ws T) (w\<lparr>next_env := next_env w + 1\<rparr>)"

lemma run_spawn:
  "prog E ws = Returns v \<Longrightarrow> 0 \<le> next_env w \<Longrightarrow> rp = 0 \<or> rp \<notin> set (stuck w) \<Longrightarrow>
    run E (spawn_cmd None cond rp ws) T mb w = (Ended, if cond then Some v else None, started ws T w)"
  by (auto simp: spawn_cmd_def step_call_def Let_def finish_def started_def log_event_def)

section \<open>Lists of commands\<close>

datatype conn = Semi | OrElse | AndThen

definition conn_op :: "conn \<Rightarrow> u8" where
  "conn_op k = (case k of Semi \<Rightarrow> 0x3B | OrElse \<Rightarrow> 0x4F | AndThen \<Rightarrow> 0x41)"

definition tail_tokens :: "(conn \<times> u8 list list) list \<Rightarrow> token list" where
  "tail_tokens rs = concat (map (\<lambda>(k, d). Op (conn_op k) # map Word d) rs)"

definition list_tokens :: "u8 list list \<Rightarrow> (conn \<times> u8 list list) list \<Rightarrow> token list" where
  "list_tokens c rs = map Word c @ tail_tokens rs"

text \<open>The commands a shell runs after one that ended with status \<open>v\<close>, from left to right.\<close>

fun posix_list :: "(u8 list list \<Rightarrow> int) \<Rightarrow> int \<Rightarrow> (conn \<times> u8 list list) list \<Rightarrow> u8 list list list" where
  "posix_list st v [] = []"
| "posix_list st v ((k, d) # rs) =
    (if k = Semi \<or> k = OrElse \<and> v \<noteq> 0 \<or> k = AndThen \<and> v = 0 then d # posix_list st (st d) rs else posix_list st v rs)"

text \<open>The lists on which the code agrees: every left side of \<^verbatim>\<open>&&\<close> succeeds, and no \<^verbatim>\<open>;\<close> comes after a \<^verbatim>\<open>||\<close>.\<close>

fun list_ok :: "(u8 list list \<Rightarrow> int) \<Rightarrow> u8 list list \<Rightarrow> (conn \<times> u8 list list) list \<Rightarrow> bool" where
  "list_ok st c [] = True"
| "list_ok st c ((k, d) # rs) = ((k = AndThen \<longrightarrow> st c = 0) \<and> (k = OrElse \<longrightarrow> Semi \<notin> fst ` set rs) \<and> list_ok st d rs)"

fun after_and :: "(conn \<times> u8 list list) list \<Rightarrow> (u8 list list \<times> (conn \<times> u8 list list) list) option" where
  "after_and [] = None"
| "after_and ((k, d) # rs) = (if k = AndThen then Some (d, rs) else after_and rs)"

lemma tail_tokens_simps [simp]:
  "tail_tokens [] = []" "tail_tokens ((k, d) # rs) = Op (conn_op k) # list_tokens d rs"
  by (simp_all add: tail_tokens_def list_tokens_def)

lemma conn_op_and [simp]: "conn_op k = 0x41 \<longleftrightarrow> k = AndThen"
  by (cases k) (simp_all add: conn_op_def)

lemma drop_words: "dropWhile (\<lambda>t. t \<noteq> Op x) (map Word ws @ ts) = dropWhile (\<lambda>t. t \<noteq> Op x) ts"
  by (induction ws) auto

lemma drop_to_and:
  "dropWhile (\<lambda>t. t \<noteq> Op 0x41) (tail_tokens rs) = (case after_and rs of None \<Rightarrow> [] | Some (e, rs') \<Rightarrow> Op 0x41 # list_tokens e rs')"
  by (induction rs rule: after_and.induct) (auto simp: list_tokens_def drop_words simp del: dropWhile_eq_Nil_conv)

lemma posix_after_and:
  "Semi \<notin> fst ` set rs \<Longrightarrow> posix_list st 0 rs = (case after_and rs of None \<Rightarrow> [] | Some (e, rs') \<Rightarrow> e # posix_list st (st e) rs')"
  by (induction rs rule: after_and.induct) (auto split: option.splits)

lemma after_and_suffix:
  "after_and rs = Some (e, rs') \<Longrightarrow> list_ok st c rs \<Longrightarrow> length rs' < length rs \<and> list_ok st e rs' \<and> e \<in> snd ` set rs \<and> set rs' \<subseteq> set rs"
  by (induction rs arbitrary: c rule: after_and.induct) (fastforce split: if_splits)+

definition sh_line :: "u8 list \<Rightarrow> lexer \<Rightarrow> unit proc" where
  "sh_line copy l = proc_bind (parsecmd [] 0 l) (exec_cmd copy)"

text \<open>A run that ends without a message and starts the given commands.\<close>

definition runs_as :: "fate \<times> int option \<times> world \<Rightarrow> world \<Rightarrow> event list \<Rightarrow> bool" where
  "runs_as r w es \<longleftrightarrow> (\<exists>w'. r = (Ended, None, w') \<and> events w' = events w @ es \<and> stuck w' = stuck w \<and> next_env w < next_env w')"

lemma runs_as_later:
  "runs_as r w' es' \<Longrightarrow> events w' = events w @ es \<Longrightarrow> stuck w' = stuck w \<Longrightarrow> next_env w < next_env w' \<Longrightarrow> runs_as r w (es @ es')"
  by (auto simp: runs_as_def)

lemma started_simps [simp]:
  "events (started ws T w) = events w @ [Started ws T]" "stuck (started ws T w) = stuck w" "next_env (started ws T w) = next_env w + 1"
  by (simp_all add: started_def log_event_def)

lemma run_Fork:
  "0 < next_env w \<Longrightarrow> run E (k 0) T None (w\<lparr>next_env := next_env w + 1\<rparr>) = (Ended, sent, w') \<Longrightarrow>
    run E (Call Fork k) T mb w = run E (k (next_env w)) T (case sent of None \<Rightarrow> mb | Some v \<Rightarrow> Some v) w'"
  by (simp add: Let_def)

lemma last_command:
  assumes "reads l []" "args l av ws" "plain ws" "prog E ws = Returns v" "0 < next_env w" "rp = 0 \<or> rp \<notin> set (stuck w)"
  shows "run E (proc_bind (parsecmd av rp l) (exec_cmd copy)) T mb w = (Ended, None, started ws T w)"
proof -
  obtain l' where "parsecmd av rp l = Ret (parsed0 av rp l')" "args l' av ws" using parse_end [OF assms(1,2)] by blast
  then show ?thesis using exec_plain [of "parsed0 av rp l'" ws copy] run_spawn [OF assms(4) _ assms(6), of False T mb] assms(3,5)
    by (simp add: parsed0_def)
qed

text \<open>A fork for the left side: the child starts the command, and sends its status when a condition follows.\<close>

lemma fork_left:
  assumes "args l av ws" "plain ws" "prog E ws = Returns v" "0 < next_env w"
    and "lexst p = l" "argv p = av" "rightpipe p = 0" "\<not> flag_is_in_back p"
  shows "run E (proc_bind (fork_or (Ret p) k) (exec_cmd copy)) T mb w =
    run E (proc_bind (k (next_env w)) (exec_cmd copy)) T (if flag_next_is_condition p then Some v else mb)
      (started ws T (w\<lparr>next_env := next_env w + 1\<rparr>))"
proof -
  let ?w = "w\<lparr>next_env := next_env w + 1\<rparr>"
  have "run E (exec_cmd copy p) T None ?w = (Ended, if flag_next_is_condition p then Some v else None, started ws T ?w)"
    using exec_plain [of p ws copy] assms run_spawn [OF assms(3), of ?w 0 "flag_next_is_condition p" T None] by simp
  then show ?thesis using assms(4) by (simp add: fork_or_def Let_def)
qed

lemma plain_words:
  assumes "reads l (map Word c @ ts)" "plain c"
  shows "\<exists>l' av. parsecmd [] rp l = parsecmd av rp l' \<and> reads l' ts \<and> args l' av c"
proof -
  have "length ([] :: u8 list list) + length c \<le> 128" using assms(2) by (simp add: plain_def)
  from parse_words [OF assms(1) args_Nil this, of rp] show ?thesis by (metis append_Nil)
qed

text \<open>The connectives, after the command on their left has been read.\<close>

definition after_left :: "u8 list list \<Rightarrow> fdtab \<Rightarrow> world \<Rightarrow> world" where
  "after_left c T w = started c T (w\<lparr>next_env := next_env w + 1\<rparr>)"

lemma after_left_simps [simp]:
  "events (after_left c T w) = events w @ [Started c T]" "stuck (after_left c T w) = stuck w" "next_env (after_left c T w) = next_env w + 2"
  by (simp_all add: after_left_def)

lemma run_semi:
  assumes "gettoken l = Some (0x3B, q, l')" "args l' av c" "plain c" "prog E c = Returns v" "0 < next_env w" "stuck w = []"
  shows "run E (proc_bind (parsecmd av 0 l) (exec_cmd copy)) T mb w = run E (sh_line copy l') T mb (after_left c T w)"
proof -
  have "parsecmd av 0 l = fork_or (Ret (parsed0 av 0 l')) (\<lambda>id. Call (Wait id) (\<lambda>_. parsecmd [] 0 l'))"
    by (subst parsecmd.simps) (simp add: assms(1))
  then show ?thesis using fork_left [OF assms(2-5), of "parsed0 av 0 l'"] assms(6)
    by (simp add: sh_line_def parsed0_def step_call_def after_left_def)
qed

lemma run_or:
  assumes "gettoken l = Some (0x4F, q, l')" "args l' av c" "plain c" "prog E c = Returns v" "0 < next_env w"
  shows "run E (proc_bind (parsecmd av 0 l) (exec_cmd copy)) T mb w =
    (if v \<noteq> 0 then run E (sh_line copy l') T None (after_left c T w)
     else case skip_to_and l' of
       None \<Rightarrow> (Crashed, None, after_left c T w)
     | Some None \<Rightarrow> (Ended, None, after_left c T w)
     | Some (Some l') \<Rightarrow> run E (sh_line copy l') T None (after_left c T w))"
proof -
  let ?k = "\<lambda>res. if res = 0 then
      (case skip_to_and l' of None \<Rightarrow> Fault | Some None \<Rightarrow> Ret (parsed0 [] 0 l') | Some (Some l') \<Rightarrow> parsecmd [] 0 l')
    else parsecmd [] 0 l'"
  have "parsecmd av 0 l = fork_or (Ret ((parsed0 av 0 l')\<lparr>flag_next_is_condition := True\<rparr>)) (\<lambda>id. Call IpcRecv ?k)"
    by (subst parsecmd.simps) (simp add: assms(1))
  then show ?thesis using fork_left [OF assms(2-5), of "(parsed0 av 0 l')\<lparr>flag_next_is_condition := True\<rparr>"]
    by (auto simp: sh_line_def parsed0_def step_call_def after_left_def exec_cmd_def split: option.split)
qed

lemma run_and:
  assumes "gettoken l = Some (0x41, q, l')" "args l' av c" "plain c" "prog E c = Returns v" "0 < next_env w"
  shows "run E (proc_bind (parsecmd av 0 l) (exec_cmd copy)) T mb w =
    (if v = 0 then run E (sh_line copy l') T None (after_left c T w)
     else case gettoken l' of
       None \<Rightarrow> (Crashed, None, after_left c T w)
     | Some (op, _, l') \<Rightarrow> if op = 0 then (Ended, None, after_left c T w)
         else run E (proc_bind (parsecmd (if op = 0x4F then [] else av) 0 l') (exec_cmd copy)) T None (after_left c T w))"
proof -
  let ?k = "\<lambda>res. if res \<noteq> 0 then
      (case gettoken l' of None \<Rightarrow> Fault
       | Some (op, _, l') \<Rightarrow> if op = 0 then Ret (parsed0 [] 0 l') else if op = 0x4F then parsecmd [] 0 l' else parsecmd av 0 l')
    else parsecmd [] 0 l'"
  have "parsecmd av 0 l = fork_or (Ret ((parsed0 av 0 l')\<lparr>flag_next_is_condition := True\<rparr>)) (\<lambda>id. Call IpcRecv ?k)"
    by (subst parsecmd.simps) (simp add: assms(1))
  then show ?thesis using fork_left [OF assms(2-5), of "(parsed0 av 0 l')\<lparr>flag_next_is_condition := True\<rparr>"]
    by (auto simp: sh_line_def parsed0_def step_call_def after_left_def exec_cmd_def split: option.split)
qed

lemma run_list:
  assumes "reads l (list_tokens c rs)" "list_ok st c rs"
    and "\<And>d. d \<in> insert c (snd ` set rs) \<Longrightarrow> plain d \<and> prog E d = Returns (st d)" "0 < next_env w" "stuck w = []"
  shows "runs_as (run E (sh_line copy l) T mb w) w (map (\<lambda>d. Started d T) (c # posix_list st (st c) rs))"
  using assms
proof (induction rs arbitrary: l c mb w rule: measure_induct_rule [of length])
  case (less rs)
  have c: "plain c" "prog E c = Returns (st c)" using less.prems(3) by auto
  obtain l1 av where p: "parsecmd [] 0 l = parsecmd av 0 l1" "reads l1 (tail_tokens rs)" "args l1 av c"
    using plain_words [OF _ c(1), of l "tail_tokens rs" 0] less.prems(1) by (auto simp: list_tokens_def)
  show ?case
  proof (cases rs)
    case Nil
    then show ?thesis using last_command [OF _ p(3) c less.prems(4), of 0 copy T mb] p(1,2)
      by (simp add: sh_line_def runs_as_def)
  next
    case (Cons kd rs')
    obtain k d where kd: "kd = (k, d)" by (cases kd)
    have "reads l1 (Op (conn_op k) # list_tokens d rs')" using p(2) Cons kd by simp
    then obtain q l2 where g: "gettoken l1 = Some (conn_op k, q, l2)" "reads l2 (list_tokens d rs')" "args l2 av c"
      using parse_op [OF _ p(3)] by blast
    let ?w = "after_left c T w"
    have w: "0 < next_env ?w" "next_env w < next_env ?w" using less.prems(4) by auto
    have IH: "runs_as (run E (sh_line copy l') T mb' ?w) w (Started c T # map (\<lambda>d. Started d T) (e # posix_list st (st e) rs''))"
      if "reads l' (list_tokens e rs'')" "length rs'' < length rs" "list_ok st e rs''" "e \<in> snd ` set rs" "set rs'' \<subseteq> set rs" for l' e rs'' mb'
    proof -
      have "runs_as (run E (sh_line copy l') T mb' ?w) ?w (map (\<lambda>d. Started d T) (e # posix_list st (st e) rs''))"
        by (rule less.IH [OF that(2,1,3)]) (use that(4,5) less.prems(3,5) w(1) in \<open>auto simp: subset_eq\<close>)
      from runs_as_later [OF this, of w "[Started c T]"] show ?thesis using w(2) by simp
    qed
    have ok: "list_ok st d rs'" "k = AndThen \<longrightarrow> st c = 0" "k = OrElse \<longrightarrow> Semi \<notin> fst ` set rs'" using less.prems(2) Cons kd by auto
    have here: "runs_as (run E (sh_line copy l2) T mb' ?w) w (Started c T # map (\<lambda>d. Started d T) (d # posix_list st (st d) rs'))" for mb'
      by (rule IH [OF g(2) _ ok(1)]) (auto simp: Cons kd)
    show ?thesis
    proof (cases k)
      case Semi
      then show ?thesis using run_semi [OF _ g(3) c less.prems(4,5), of l1] g(1) here p(1)
        by (simp add: Cons kd sh_line_def conn_op_def)
    next
      case OrElse
      note r = run_or [OF g(1) [unfolded conn_op_def OrElse conn.case] g(3) c less.prems(4), of copy T mb]
      note sk = skip_to_and_reads [OF g(2), unfolded list_tokens_def drop_words drop_to_and]
      consider (failed) "st c \<noteq> 0" | (none) "st c = 0" "after_and rs' = None" | (some) e rs'' where "st c = 0" "after_and rs' = Some (e, rs'')"
        by (cases "after_and rs'") auto
      then show ?thesis
      proof cases
        case failed
        then show ?thesis using r here p(1) by (simp add: Cons kd OrElse sh_line_def)
      next
        case none
        then have "posix_list st 0 rs' = []" using posix_after_and [of rs' st] ok(3) OrElse by simp
        then show ?thesis using r sk none p(1) by (simp add: Cons kd OrElse sh_line_def runs_as_def)
      next
        case some
        then obtain l3 where l3: "skip_to_and l2 = Some (Some l3)" "reads l3 (list_tokens e rs'')" using sk by (auto simp: list_tokens_def)
        have "posix_list st 0 rs' = e # posix_list st (st e) rs''" using posix_after_and [of rs' st] ok(3) OrElse some by simp
        moreover have "runs_as (run E (sh_line copy l3) T None ?w) w (Started c T # map (\<lambda>d. Started d T) (e # posix_list st (st e) rs''))"
          using after_and_suffix [OF some(2) ok(1)] by (intro IH [OF l3(2)]) (auto simp: Cons)
        ultimately show ?thesis using r some(1) l3(1) p(1) by (simp add: Cons kd OrElse sh_line_def)
      qed
    next
      case AndThen
      then show ?thesis using run_and [OF _ g(3) c less.prems(4), of l1] g(1) here p(1) ok(2)
        by (simp add: Cons kd sh_line_def conn_op_def)
    qed
  qed
qed

end
