(* ===== verification/MOS_ShellProps.thy ===== *)
theory MOS_ShellProps
  imports MOS_ShellExec
begin

text \<open>
  Properties of the shell's parser and of the commands it runs: lists, pipelines, redirections, and
  the cases in which the code departs from what a shell does.
\<close>

lemma runcmd_line:
  assumes "lex line = Some ts" "0 \<notin> set line" "length line \<le> 1024"
  obtains l where "reads l ts" "runcmd (line @ 0 # post) = sh_line line l"
proof -
  obtain l where "gettoken_start (line @ 0 # post) 0 = Some l" "reads l ts" using lex_reads [OF assms(1,2)] by blast
  then show thesis using assms(2,3) by (intro that [of l]) (simp_all add: runcmd_def takeWhile_nz sh_line_def)
qed

section \<open>Type safety of the parser\<close>

primrec fine :: "('a \<Rightarrow> bool) \<Rightarrow> 'a proc \<Rightarrow> bool" where
  "fine P (Ret x) = P x"
| "fine P Exit = True"
| "fine P Fault = False"
| "fine P (Nested s) = True"
| "fine P (Call c k) = (\<forall>r. fine P (k r))"
| "fine P (MkPipe k) = (\<forall>r a b. fine P (k r a b))"
| "fine P (ReadFd d n k) = (\<forall>r bs. fine P (k r bs))"

definition parsed_ok :: "token set \<Rightarrow> parsed \<Rightarrow> bool" where
  "parsed_ok S p \<longleftrightarrow> length (argv p) \<le> 128 \<and> (\<exists>ws. args (lexst p) (argv p) ws \<and> Word ` set ws \<subseteq> S)"

lemma fine_calls [simp]:
  "fine P (die msg t)" "fine P (no_word c)"
  "fine P (fork_or left k) \<longleftrightarrow> fine P left \<and> (\<forall>e>0. fine P (k e))"
  "fine P p \<Longrightarrow> fine P (redirect c t p)" "fine P p \<Longrightarrow> fine P (pipe_left a b p)" "fine P p \<Longrightarrow> fine P (pipe_right a b p)"
  by (auto simp: die_def no_word_def fork_or_def redirect_def redir_in_def redir_out_def redir_app_def create_or_def open_or_def
      dup_out_def pipe_left_def pipe_right_def)

lemma parsed_ok_simps [simp]:
  "parsed_ok S (p\<lparr>flag_next_is_condition := x\<rparr>) = parsed_ok S p" "parsed_ok S (p\<lparr>flag_is_in_back := x\<rparr>) = parsed_ok S p"
  by (simp_all add: parsed_ok_def)

lemma parsed0_ok: "args l av ws \<Longrightarrow> length av \<le> 128 \<Longrightarrow> Word ` set ws \<subseteq> S \<Longrightarrow> parsed_ok S (parsed0 av rp l)"
  by (auto simp: parsed_ok_def parsed0_def)

lemma parsed0_Nil [simp]: "parsed_ok S (parsed0 [] rp l)"
  by (rule parsed0_ok [of l "[]" "[]"]) simp_all

text \<open>The next token of a lexer that is in step with a token list.\<close>

lemma reads_next:
  assumes "reads l ts"
  obtains (eol) p l' where "ts = []" "gettoken l = Some (0, p, l')"
  | (word) i l' ts' where "ts = Word (word_at (lbuf l') i) # ts'" "gettoken l = Some (0x77, Some i, l')" "settled l' i" "reads l' ts'"
  | (op) c p l' ts' where "ts = Op c # ts'" "gettoken l = Some (c, p, l')" "c \<noteq> 0" "c \<noteq> 0x77" "reads l' ts'"
  using assms by (cases rule: reads.cases) auto

lemma gettoken_rest:
  assumes "reads l ts" "args l av ws"
  shows "\<exists>c t l'. gettoken l = Some (c, t, l') \<and> (c = 0x77 \<longrightarrow> t \<noteq> None) \<and> args l' av ws \<and>
    (c \<noteq> 0 \<longrightarrow> (\<exists>rs. reads l' rs \<and> length rs \<le> length ts \<and> set rs \<subseteq> set ts))"
  using assms(1) args_gettoken [OF _ reads_lexer_ok [OF assms(1)] assms(2)] by (cases rule: reads_next) (fastforce intro: exI)+

lemma skip_to_and_rest:
  assumes "reads l ts"
  shows "skip_to_and l = Some None \<or>
    (\<exists>l' rs. skip_to_and l = Some (Some l') \<and> reads l' rs \<and> length rs \<le> length ts \<and> set rs \<subseteq> set ts)"
proof (cases "dropWhile (\<lambda>t. t \<noteq> Op 0x41) ts")
  case Nil
  then show ?thesis using skip_to_and_reads [OF assms] by (simp del: dropWhile_eq_Nil_conv)
next
  case (Cons t rs)
  then have "length rs \<le> length ts" "set rs \<subseteq> set ts"
    using length_dropWhile_le [of "\<lambda>t. t \<noteq> Op 0x41" ts] set_dropWhileD [of _ "\<lambda>t. t \<noteq> Op 0x41" ts] by auto
  then show ?thesis using skip_to_and_reads [OF assms] Cons by auto
qed

lemma parse_fine:
  assumes "reads l ts" "args l av ws" "length av \<le> 128" "Word ` set ws \<subseteq> S" "set ts \<subseteq> S"
  shows "fine (parsed_ok S) (parsecmd av rp l)"
  using assms
proof (induction ts arbitrary: l av ws rp rule: measure_induct_rule [of length])
  case (less ts)
  note lok = reads_lexer_ok [OF less.prems(1)]
  from less.prems(1) show ?case
  proof (cases rule: reads_next)
    case (eol p l')
    then show ?thesis using args_gettoken [OF eol(2) lok less.prems(2)] less.prems(3,4)
      by (subst parsecmd.simps) (auto intro: parsed0_ok)
  next
    case (word i l' ts')
    have "args l' (av @ [i]) (ws @ [word_at (lbuf l') i])"
      using args_gettoken [OF word(2) lok less.prems(2)] word(3) unfolding args_def by (intro list_all2_appendI) auto
    then have "fine (parsed_ok S) (parsecmd (av @ [i]) rp l')" if "length av < 128"
      using that less.prems(4,5) word(1,4) by (intro less.IH [of ts' l' "av @ [i]" "ws @ [word_at (lbuf l') i]"]) auto
    then show ?thesis using word(2) by (subst parsecmd.simps) simp
  next
    case (op c p l' ts')
    have a: "args l' av ws" using args_gettoken [OF op(2) lok less.prems(2)] .
    have p0: "parsed_ok S (parsed0 av r l')" for r using a less.prems(3,4) by (intro parsed0_ok)
    have IH: "fine (parsed_ok S) (parsecmd av' r l'')"
      if "reads l'' rs" "length rs \<le> length ts'" "set rs \<subseteq> set ts'" "args l'' av' vs" "av' = [] \<or> av' = av \<and> vs = ws" for l'' rs av' vs r
      using that less.prems(3-5) op(1) by (intro less.IH [of rs l'' av' vs]) (auto simp: args_def)
    have here: "fine (parsed_ok S) (parsecmd [] r l')" "fine (parsed_ok S) (parsecmd av r l')" for r
      using IH [OF op(5), of "[]" "[]"] IH [OF op(5), of av ws] a by auto
    obtain c' t l'' where n: "gettoken l' = Some (c', t, l'')" "c' = 0x77 \<longrightarrow> t \<noteq> None"
      "c' \<noteq> 0 \<longrightarrow> fine (parsed_ok S) (parsecmd [] rp l'') \<and> fine (parsed_ok S) (parsecmd av rp l'')"
      using gettoken_rest [OF op(5) a] IH [of _ _ _ _ rp] args_Nil by metis
    have skip: "case skip_to_and l' of None \<Rightarrow> False | Some None \<Rightarrow> True | Some (Some l'') \<Rightarrow> fine (parsed_ok S) (parsecmd [] rp l'')"
      using skip_to_and_rest [OF op(5)] IH [of _ _ "[]" "[]" rp] by auto
    show ?thesis
      using op(2-4) p0 here n skip by (subst parsecmd.simps) (auto split: option.splits)
  qed
qed

text \<open>C33. The parser is type safe: on every line the tokenizer's reference accepts, whatever the library calls
  return, \<^verbatim>\<open>parsecmd\<close> ends without leaving the line or reading through a null pointer, and it returns at most 128
  arguments, each a terminated word of the line.\<close>

theorem parsecmd_safe:
  assumes "lex line = Some ts" "0 \<notin> set line"
  shows "\<exists>l. gettoken_start (line @ 0 # post) 0 = Some l \<and> fine (parsed_ok (set ts)) (parsecmd [] rp l)"
proof -
  obtain l where "gettoken_start (line @ 0 # post) 0 = Some l" "reads l ts" using lex_reads [OF assms] by blast
  then show ?thesis using parse_fine [of l ts "[]" "[]" "set ts" rp] by auto
qed

text \<open>The line \<^verbatim>\<open>a|b\<close>.\<close>

theorem parsecmd_safe_witness:
  "\<exists>l. gettoken_start ([0x61, 0x7C, 0x62] @ 0 # []) 0 = Some l \<and> fine (parsed_ok {Word [0x61], Op 0x7C, Word [0x62]}) (parsecmd [] 0 l)"
proof -
  have "lex [0x61, 0x7C, 0x62] = Some [Word [0x61], Op 0x7C, Word [0x62]]"
    by (simp add: is_white_def is_symbol_def word_char_def)
  from parsecmd_safe [OF this, of "[]" 0] show ?thesis by simp
qed

section \<open>Lists\<close>

text \<open>C32. Command lists run as in a shell: a line of commands joined by \<^verbatim>\<open>;\<close>, \<^verbatim>\<open>||\<close> and \<^verbatim>\<open>&&\<close>, in which every left side of
  \<^verbatim>\<open>&&\<close> succeeds and no \<^verbatim>\<open>;\<close> comes after a \<^verbatim>\<open>||\<close>, starts exactly the commands that the left-to-right evaluation of the
  list runs, in that order and with the descriptors of the shell, and then ends.\<close>

theorem command_lists:
  assumes "lex line = Some (list_tokens c rs)" "0 \<notin> set line" "length line \<le> 1024" "list_ok st c rs"
    and "\<And>d. d \<in> insert c (snd ` set rs) \<Longrightarrow> plain d \<and> prog E d = Returns (st d)" "0 < next_env w" "stuck w = []"
  shows "\<exists>w'. run E (runcmd (line @ 0 # post)) T None w = (Ended, None, w') \<and>
    events w' = events w @ map (\<lambda>d. Started d T) (c # posix_list st (st c) rs)"
proof -
  obtain l where "reads l (list_tokens c rs)" "runcmd (line @ 0 # post) = sh_line line l" using runcmd_line [OF assms(1-3)] by blast
  then show ?thesis using run_list [OF _ assms(4-7), of l line T None] by (auto simp: runs_as_def)
qed

definition demo_env :: shell_env where
  "demo_env = \<lparr>prog = (\<lambda>ws. if hd ws = [0x66] then Returns 1 else if hd ws = [0x78] then Missing else Returns 0),
     opens = (\<lambda>_ _. True), reads_from = (\<lambda>_ _. (0, []))\<rparr>"

definition demo_world :: world where
  "demo_world = \<lparr>next_env = 1, npipes = 0, stuck = [], events = []\<rparr>"

abbreviation demo_fds :: fdtab where "demo_fds \<equiv> [0 \<mapsto> Console, 1 \<mapsto> Console]"

text \<open>The line \<^verbatim>\<open>f||a||b&&c\<close>, where \<^verbatim>\<open>f\<close> fails: \<^verbatim>\<open>b\<close> is not run.\<close>

theorem command_lists_witness:
  "\<exists>w'. run demo_env (runcmd ([0x66, 0x7C, 0x7C, 0x61, 0x7C, 0x7C, 0x62, 0x26, 0x26, 0x63] @ 0 # [])) demo_fds None demo_world = (Ended, None, w') \<and>
    events w' = [Started [[0x66]] demo_fds, Started [[0x61]] demo_fds, Started [[0x63]] demo_fds]"
proof -
  let ?line = "[0x66, 0x7C, 0x7C, 0x61, 0x7C, 0x7C, 0x62, 0x26, 0x26, 0x63] :: u8 list"
  let ?rs = "[(OrElse, [[0x61]]), (OrElse, [[0x62]]), (AndThen, [[0x63]])] :: (conn \<times> u8 list list) list"
  let ?st = "\<lambda>ws :: u8 list list. if hd ws = [0x66] then 1 else 0 :: int"
  have "lex ?line = Some (list_tokens [[0x66]] ?rs)"
    by (simp add: is_white_def is_symbol_def word_char_def list_tokens_def conn_op_def tail_tokens_def)
  moreover have "d \<in> insert [[0x66]] (snd ` set ?rs) \<Longrightarrow> plain d \<and> prog demo_env d = Returns (?st d)" for d
    by (auto simp: plain_def demo_env_def)
  ultimately show ?thesis
    using command_lists [of ?line "[[0x66]]" ?rs ?st demo_env demo_world "[]" demo_fds] by (auto simp: demo_world_def)
qed

text \<open>C36. The left side of \<^verbatim>\<open>&&\<close> runs twice when it fails: one token after the \<^verbatim>\<open>&&\<close> is skipped and the arguments of the
  command that failed are kept, so \<^verbatim>\<open>c && b x y\<close> runs \<^verbatim>\<open>c\<close> and then \<^verbatim>\<open>c x y\<close>.\<close>

theorem failed_and_repeats:
  assumes "lex line = Some (map Word c @ Op 0x41 # Word b # map Word ds)" "0 \<notin> set line" "length line \<le> 1024"
    and "plain c" "plain (c @ ds)" "prog E c = Returns v" "v \<noteq> 0" "prog E (c @ ds) = Returns u" "0 < next_env w" "stuck w = []"
  shows "\<exists>w'. run E (runcmd (line @ 0 # post)) T None w = (Ended, None, w') \<and>
    events w' = events w @ [Started c T, Started (c @ ds) T]"
proof -
  obtain l where l: "reads l (map Word c @ Op 0x41 # Word b # map Word ds)" "runcmd (line @ 0 # post) = sh_line line l"
    using runcmd_line [OF assms(1-3)] by blast
  obtain l1 av where p: "parsecmd [] 0 l = parsecmd av 0 l1" "reads l1 (Op 0x41 # Word b # map Word ds)" "args l1 av c"
    using plain_words [OF l(1) assms(4)] by blast
  obtain q l2 where g: "gettoken l1 = Some (0x41, q, l2)" "reads l2 (Word b # map Word ds)" "args l2 av c"
    using parse_op [OF p(2,3)] by blast
  obtain i l3 where g3: "gettoken l2 = Some (0x77, Some i, l3)" "reads l3 (map Word ds)" "args l3 av c"
    using g(2) args_gettoken [OF _ reads_lexer_ok [OF g(2)] g(3)] by (auto elim!: reads_WordE)
  have len: "length c + length ds \<le> 128" using assms(5) by (simp add: plain_def)
  obtain l4 av' where p4: "parsecmd av 0 l3 = parsecmd av' 0 l4" "reads l4 []" "args l4 av' (c @ ds)"
    by (rule parse_words [OF _ g3(3) len, of "[]" 0]) (use g3(2) in auto)
  have "run E (sh_line line l) T None w = (Ended, None, started (c @ ds) T (after_left c T w))"
    using run_and [OF g(1,3) assms(4,6,9), of line T None] last_command [OF p4(2,3) assms(5,8), of "after_left c T w" 0 line T None]
      p(1) g3(1) p4(1) assms(7,9) by (simp add: sh_line_def)
  then show ?thesis using l(2) by simp
qed

text \<open>The line \<^verbatim>\<open>f&&a b\<close>.\<close>

theorem failed_and_repeats_witness:
  "\<exists>w'. run demo_env (runcmd ([0x66, 0x26, 0x26, 0x61, 0x20, 0x62] @ 0 # [])) demo_fds None demo_world = (Ended, None, w') \<and>
    events w' = [Started [[0x66]] demo_fds, Started [[0x66], [0x62]] demo_fds]"
proof -
  have "lex [0x66, 0x26, 0x26, 0x61, 0x20, 0x62] = Some (map Word [[0x66]] @ Op 0x41 # Word [0x61] # map Word [[0x62]])"
    by (simp add: is_white_def is_symbol_def word_char_def)
  from failed_and_repeats [OF this, of demo_env 1 1 demo_world "[]" demo_fds] show ?thesis
    by (auto simp: plain_def demo_env_def demo_world_def)
qed

text \<open>C37. A name that cannot be started hangs the line: when the program on the left of \<^verbatim>\<open>||\<close> or \<^verbatim>\<open>&&\<close> is missing, the child
  ends without a message, its parent waits for one for ever, and nothing of the line is run.\<close>

theorem missing_left_blocks:
  assumes "lex line = Some (map Word c @ Op x # ts)" "0 \<notin> set line" "length line \<le> 1024" "x = 0x4F \<or> x = 0x41"
    and "plain c" "prog E c = Missing" "0 < next_env w" "stuck w = []"
  shows "\<exists>w'. run E (runcmd (line @ 0 # post)) T None w = (Blocked, None, w') \<and> events w' = events w"
proof -
  obtain l where l: "reads l (map Word c @ Op x # ts)" "runcmd (line @ 0 # post) = sh_line line l"
    using runcmd_line [OF assms(1-3)] by blast
  obtain l1 av where p: "parsecmd [] 0 l = parsecmd av 0 l1" "reads l1 (Op x # ts)" "args l1 av c"
    using plain_words [OF l(1) assms(5)] by blast
  obtain q l2 where g: "gettoken l1 = Some (x, q, l2)" "reads l2 ts" "args l2 av c" using parse_op [OF p(2,3)] by blast
  let ?p = "(parsed0 av 0 l2)\<lparr>flag_next_is_condition := True\<rparr>"
  have "exec_cmd line ?p = spawn_cmd None True 0 c"
    using exec_plain [of ?p c line] g(3) assms(5) by (simp add: parsed0_def)
  moreover have "\<exists>k. parsecmd av 0 l1 = fork_or (Ret ?p) (\<lambda>id. Call IpcRecv k)"
    using assms(4) by (subst parsecmd.simps) (auto simp: g(1))
  ultimately show ?thesis using assms(6,7) p(1) l(2)
    by (auto simp: sh_line_def fork_or_def spawn_cmd_def step_call_def Let_def finish_def)
qed

text \<open>The line \<^verbatim>\<open>x||a\<close>.\<close>

theorem missing_left_blocks_witness:
  "\<exists>w'. run demo_env (runcmd ([0x78, 0x7C, 0x7C, 0x61] @ 0 # [])) demo_fds None demo_world = (Blocked, None, w') \<and> events w' = []"
proof -
  have "lex [0x78, 0x7C, 0x7C, 0x61] = Some (map Word [[0x78]] @ Op 0x4F # [Word [0x61]])"
    by (simp add: is_white_def is_symbol_def word_char_def)
  from missing_left_blocks [OF this, of demo_env demo_world "[]" demo_fds] show ?thesis
    by (auto simp: plain_def demo_env_def demo_world_def)
qed

section \<open>Pipelines\<close>

text \<open>Standard input and output are open, nothing else.\<close>

definition std :: "target \<Rightarrow> target \<Rightarrow> fdtab" where
  "std i out = [0 \<mapsto> i, 1 \<mapsto> out]"

lemma free_std: "free_fds (std i out) = map int [2..<31]"
  by (simp add: free_fds_def std_def upt_rec)

fun pipe_tokens :: "u8 list list list \<Rightarrow> token list" where
  "pipe_tokens [] = []"
| "pipe_tokens [c] = map Word c"
| "pipe_tokens (c # cs) = map Word c @ Op 0x7C # pipe_tokens cs"

text \<open>Command \<open>j\<close> of a pipeline whose first pipe is number \<open>n\<close>.\<close>

definition stage :: "nat \<Rightarrow> target \<Rightarrow> target \<Rightarrow> u8 list list list \<Rightarrow> nat \<Rightarrow> event" where
  "stage n i out cs j = Started (cs ! j) (std (if j = 0 then i else PipeR (n + j - 1)) (if j + 1 = length cs then out else PipeW (n + j)))"

lemma stages_Cons:
  assumes "cs \<noteq> []"
  shows "map (stage n i out (c # cs)) [0..<length (c # cs)] =
    Started c (std i (PipeW n)) # map (stage (n + 1) (PipeR n) out cs) [0..<length cs]"
proof -
  have "stage n i out (c # cs) (Suc j) = stage (n + 1) (PipeR n) out cs j" for j
    by (cases j) (simp_all add: stage_def)
  then have "map (stage n i out (c # cs)) (map Suc [0..<length cs]) = map (stage (n + 1) (PipeR n) out cs) [0..<length cs]" by simp
  moreover have "[0..<length (c # cs)] = 0 # map Suc [0..<length cs]" by (simp add: map_Suc_upt upt_conv_Cons del: upt_Suc)
  moreover have "stage n i out (c # cs) 0 = Started c (std i (PipeW n))" using assms by (simp add: stage_def)
  ultimately show ?thesis by (simp only: list.map)
qed

lemma pipe_fds:
  "(std i out)(2 \<mapsto> r, 3 \<mapsto> x, 0 \<mapsto> r, 2 := None, 3 := None) = std r out"
  "(std i out)(2 \<mapsto> r, 3 \<mapsto> x, 1 \<mapsto> x, 3 := None, 2 := None) = std i x"
  by (auto simp: std_def fun_eq_iff)

lemma run_pipe:
  assumes "gettoken l = Some (0x7C, q, l')" "args l' av c" "plain c" "prog E c = Returns v" "0 < next_env w" "stuck w = []"
    and "run E (sh_line copy l') (std (PipeR (npipes w)) out) None (w\<lparr>npipes := npipes w + 1, next_env := next_env w + 1\<rparr>) = (Ended, None, w')"
    and "stuck w' = []" "0 < next_env w'"
  shows "run E (proc_bind (parsecmd av rp l) (exec_cmd copy)) (std i out) mb w = (Ended, None, started c (std i (PipeW (npipes w))) w')"
proof -
  let ?id = "next_env w"
  have e: "exec_cmd copy (parsed0 av ?id l') = spawn_cmd None False ?id c"
    using exec_plain [of "parsed0 av ?id l'" c copy] assms(2,3) by (simp add: parsed0_def)
  have "free_fds (std i out) = 2 # 3 # map int [4..<31]" by (simp add: free_std upt_rec)
  moreover have "std i out 0 = Some i" by (simp add: std_def)
  ultimately show ?thesis
    using assms(1,5,7) run_spawn [OF assms(4), of w' ?id False "std i (PipeW (npipes w))" mb] assms(8,9) pipe_fds e
    by (subst parsecmd.simps) (simp add: pipe_left_def pipe_right_def step_call_def Let_def sh_line_def)
qed

lemma run_pipeline:
  assumes "reads l (pipe_tokens cs)" "cs \<noteq> []" "\<And>c. c \<in> set cs \<Longrightarrow> plain c \<and> (\<exists>v. prog E c = Returns v)"
    and "0 < next_env w" "stuck w = []"
  shows "runs_as (run E (sh_line copy l) (std i out) mb w) w (rev (map (stage (npipes w) i out cs) [0..<length cs]))"
  using assms
proof (induction cs arbitrary: l i w mb rule: pipe_tokens.induct)
  case (2 c)
  obtain v where c: "plain c" "prog E c = Returns v" using "2.prems"(3) [of c] by auto
  obtain l1 av where "parsecmd [] 0 l = parsecmd av 0 l1" "reads l1 []" "args l1 av c"
    using plain_words [of l c "[]" 0] "2.prems"(1) c(1) by auto
  then show ?case using last_command [OF _ _ c "2.prems"(4), of l1 av 0 copy "std i out" mb] "2.prems"
    by (simp add: sh_line_def runs_as_def stage_def)
next
  case (3 c d ds)
  obtain v where c: "plain c" "prog E c = Returns v" using "3.prems"(3) [of c] by auto
  obtain l1 av where p: "parsecmd [] 0 l = parsecmd av 0 l1" "reads l1 (Op 0x7C # pipe_tokens (d # ds))" "args l1 av c"
    using plain_words [of l c "Op 0x7C # pipe_tokens (d # ds)" 0] "3.prems"(1) c(1) by auto
  obtain q l2 where g: "gettoken l1 = Some (0x7C, q, l2)" "reads l2 (pipe_tokens (d # ds))" "args l2 av c"
    using parse_op [OF p(2,3)] by blast
  let ?w = "w\<lparr>npipes := npipes w + 1, next_env := next_env w + 1\<rparr>"
  have "runs_as (run E (sh_line copy l2) (std (PipeR (npipes w)) out) None ?w) ?w
      (rev (map (stage (npipes ?w) (PipeR (npipes w)) out (d # ds)) [0..<length (d # ds)]))"
    by (rule "3.IH" [OF g(2)]) (use "3.prems"(3-5) in auto)
  then obtain w' where r: "run E (sh_line copy l2) (std (PipeR (npipes w)) out) None ?w = (Ended, None, w')"
    "events w' = events w @ rev (map (stage (npipes w + 1) (PipeR (npipes w)) out (d # ds)) [0..<length (d # ds)])"
    "stuck w' = []" "next_env w + 1 < next_env w'"
    using "3.prems"(5) by (auto simp: runs_as_def)
  have "run E (sh_line copy l) (std i out) mb w = (Ended, None, started c (std i (PipeW (npipes w))) w')"
    using run_pipe [OF g(1,3) c "3.prems"(4,5) r(1,3)] r(4) "3.prems"(4) p(1) by (simp add: sh_line_def)
  then show ?case using r "3.prems"(4,5) unfolding runs_as_def by (subst stages_Cons) (auto simp del: upt_Suc)
qed simp

text \<open>C31. A pipeline is wired from left to right: every command of \<^verbatim>\<open>c1 | c2 | ... | cn\<close> is started, with the read end of
  the pipe before it as its input and the write end of the pipe after it as its output, the first with the
  input of the shell and the last with its output, and with no other descriptor, so that every pipe
  ends when its writer does. The shell ends after all of them.\<close>

theorem pipeline_wired:
  assumes "lex line = Some (pipe_tokens cs)" "0 \<notin> set line" "length line \<le> 1024" "cs \<noteq> []"
    and "\<And>c. c \<in> set cs \<Longrightarrow> plain c \<and> (\<exists>v. prog E c = Returns v)" "0 < next_env w" "stuck w = []"
  shows "\<exists>w'. run E (runcmd (line @ 0 # post)) (std i out) None w = (Ended, None, w') \<and>
    events w' = events w @ rev (map (\<lambda>j. Started (cs ! j) (std
      (if j = 0 then i else PipeR (npipes w + j - 1)) (if j + 1 = length cs then out else PipeW (npipes w + j)))) [0..<length cs])"
proof -
  obtain l where "reads l (pipe_tokens cs)" "runcmd (line @ 0 # post) = sh_line line l" using runcmd_line [OF assms(1-3)] by blast
  then show ?thesis using run_pipeline [OF _ assms(4-7), of l line i out None] by (auto simp: runs_as_def stage_def)
qed

text \<open>The line \<^verbatim>\<open>a|b\<close>.\<close>

theorem pipeline_wired_witness:
  "\<exists>w'. run demo_env (runcmd ([0x61, 0x7C, 0x62] @ 0 # [])) (std Console Console) None demo_world = (Ended, None, w') \<and>
    events w' = [Started [[0x62]] (std (PipeR 0) Console), Started [[0x61]] (std Console (PipeW 0))]"
proof -
  have "lex [0x61, 0x7C, 0x62] = Some (pipe_tokens [[[0x61]], [[0x62]]])"
    by (simp add: is_white_def is_symbol_def word_char_def)
  moreover have "c \<in> set [[[0x61]], [[0x62 :: u8]]] \<Longrightarrow> plain c \<and> (\<exists>v. prog demo_env c = Returns v)" for c
    by (auto simp: plain_def demo_env_def)
  ultimately show ?thesis
    using pipeline_wired [of "[0x61, 0x7C, 0x62]" "[[[0x61]], [[0x62]]]" demo_env demo_world "[]" Console Console]
    by (auto simp: demo_world_def)
qed

section \<open>Redirections\<close>

definition redir_op :: "u8 \<Rightarrow> bool" where
  "redir_op k \<longleftrightarrow> k = 0x3C \<or> k = 0x3E \<or> k = 0x61"

definition redir_tokens :: "(u8 \<times> u8 list) list \<Rightarrow> token list" where
  "redir_tokens rs = concat (map (\<lambda>(k, f). [Op k, Word f]) rs)"

fun redir_std :: "(u8 \<times> u8 list) list \<Rightarrow> target \<Rightarrow> target \<Rightarrow> target \<times> target" where
  "redir_std [] i out = (i, out)"
| "redir_std ((k, f) # rs) i out =
    (if k = 0x3C then redir_std rs (FileAt f 0) out else redir_std rs i (FileAt f (if k = 0x3E then 1 else 5)))"

text \<open>All files can be opened as the redirections need it.\<close>

definition can_redirect :: "shell_env \<Rightarrow> u8 \<times> u8 list \<Rightarrow> bool" where
  "can_redirect E r \<longleftrightarrow> (case r of (k, f) \<Rightarrow> redir_op k \<and>
     (if k = 0x3C then opens E f 0
      else if k = 0x3E then opens E f 1 \<and> opens E f 0x200
      else (opens E f 0 \<or> opens E f 0x100) \<and> opens E f 5))"

lemma run_std_calls:
  "opens E t m \<Longrightarrow> run E (Call (Open t m) k) (std i out) mb w = run E (k 2) ((std i out)(2 \<mapsto> FileAt t m)) mb w"
  "\<not> opens E t m \<Longrightarrow> run E (Call (Open t m) k) (std i out) mb w = run E (k (- 1)) (std i out) mb w"
  "run E (Call (Close 2) k) ((std i out)(2 \<mapsto> x)) mb w = run E (k 0) (std i out) mb w"
  "run E (Call (Dup 2 0) k) ((std i out)(2 \<mapsto> x)) mb w = run E (k 0) ((std x out)(2 \<mapsto> x)) mb w"
  "run E (Call (Dup 2 1) k) ((std i out)(2 \<mapsto> x)) mb w = run E (k 1) ((std i x)(2 \<mapsto> x)) mb w"
proof -
  have "(std i out)(2 := None) = std i out" by (simp add: std_def fun_eq_iff)
  moreover have "(std i out)(2 \<mapsto> x, 0 \<mapsto> x) = (std x out)(2 \<mapsto> x)" "(std i out)(2 \<mapsto> x, 1 \<mapsto> x) = (std i x)(2 \<mapsto> x)"
    by (auto simp: std_def fun_eq_iff)
  moreover have "free_fds (std i out) = 2 # map int [3..<31]" by (simp add: free_std upt_rec)
  ultimately show "opens E t m \<Longrightarrow> run E (Call (Open t m) k) (std i out) mb w = run E (k 2) ((std i out)(2 \<mapsto> FileAt t m)) mb w"
    "\<not> opens E t m \<Longrightarrow> run E (Call (Open t m) k) (std i out) mb w = run E (k (- 1)) (std i out) mb w"
    "run E (Call (Close 2) k) ((std i out)(2 \<mapsto> x)) mb w = run E (k 0) (std i out) mb w"
    "run E (Call (Dup 2 0) k) ((std i out)(2 \<mapsto> x)) mb w = run E (k 0) ((std x out)(2 \<mapsto> x)) mb w"
    "run E (Call (Dup 2 1) k) ((std i out)(2 \<mapsto> x)) mb w = run E (k 1) ((std i x)(2 \<mapsto> x)) mb w"
    by (simp_all add: step_call_def)
qed

lemma run_redirect:
  assumes "can_redirect E (k, f)"
  shows "run E (redirect k f p) (std i out) mb w = run E p (if k = 0x3C then std (FileAt f 0) out else std i (FileAt f (if k = 0x3E then 1 else 5))) mb w"
proof -
  note defs = redirect_def redir_in_def redir_out_def redir_app_def create_or_def open_or_def dup_out_def
  consider "k = 0x3C" "opens E f 0" | "k = 0x3E" "opens E f 1" "opens E f 0x200" | "k = 0x61" "opens E f 0" "opens E f 5"
    | "k = 0x61" "\<not> opens E f 0" "opens E f 0x100" "opens E f 5"
    using assms by (auto simp: can_redirect_def redir_op_def split: if_splits)
  then show ?thesis by cases (simp_all add: defs run_std_calls del: run.simps fun_upd_apply)
qed

lemma bind_die [simp]: "proc_bind (die msg t) f = die msg t"
  by (simp add: die_def)

lemma bind_if: "proc_bind (if b then p else q) f = (if b then proc_bind p f else proc_bind q f)"
  by simp

lemma bind_open [simp]:
  "proc_bind (open_or t m k) f = open_or t m (\<lambda>fd. proc_bind (k fd) f)"
  "proc_bind (create_or t m k) f = create_or t m (\<lambda>fd. proc_bind (k fd) f)"
  "proc_bind (dup_out d p) f = dup_out d (proc_bind p f)"
  by (simp_all add: open_or_def create_or_def dup_out_def bind_if cong: if_cong)

lemma bind_redirect [simp]: "proc_bind (redirect c t p) f = redirect c t (proc_bind p f)"
  by (simp add: redirect_def redir_in_def redir_out_def redir_app_def bind_if cong: if_cong)

lemma run_redirs:
  assumes "reads l (redir_tokens rs @ ts)" "args l av ws" "\<And>r. r \<in> set rs \<Longrightarrow> can_redirect E r" "redir_std rs i out = (i', out')"
  shows "\<exists>l'. reads l' ts \<and> args l' av ws \<and>
    run E (proc_bind (parsecmd av rp l) f) (std i out) mb w = run E (proc_bind (parsecmd av rp l') f) (std i' out') mb w"
  using assms
proof (induction rs arbitrary: l i out)
  case Nil
  then show ?case by (auto simp: redir_tokens_def)
next
  case (Cons r rs)
  obtain k g where r: "r = (k, g)" by (cases r)
  have can: "can_redirect E (k, g)" using Cons.prems(3) [of r] r by simp
  then have op: "redir_op k" by (simp add: can_redirect_def)
  have "reads l (Op k # Word g # redir_tokens rs @ ts)" using Cons.prems(1) r by (simp add: redir_tokens_def)
  then obtain q l1 where g1: "gettoken l = Some (k, q, l1)" "k \<noteq> 0" "k \<noteq> 0x77" "reads l1 (Word g # redir_tokens rs @ ts)" "args l1 av ws"
    using parse_op [OF _ Cons.prems(2)] by blast
  obtain j l2 where g2: "gettoken l1 = Some (0x77, Some j, l2)" "reads l2 (redir_tokens rs @ ts)" "args l2 av ws" "word_at (lbuf l2) j = g"
    using g1(4) args_gettoken [OF _ reads_lexer_ok [OF g1(4)] g1(5)] by (auto elim!: reads_WordE)
  have "proc_bind (parsecmd av rp l) f = redirect k g (proc_bind (parsecmd av rp l2) f)"
    using g1(1-3) g2(1,4) op by (subst parsecmd.simps) (auto simp: redir_op_def)
  moreover obtain i1 out1 where s: "redir_std rs i1 out1 = (i', out')"
    "(if k = 0x3C then std (FileAt g 0) out else std i (FileAt g (if k = 0x3E then 1 else 5))) = std i1 out1"
    using Cons.prems(4) r by (cases "k = 0x3C") auto
  moreover have "\<exists>l'. reads l' ts \<and> args l' av ws \<and>
      run E (proc_bind (parsecmd av rp l2) f) (std i1 out1) mb w = run E (proc_bind (parsecmd av rp l') f) (std i' out') mb w"
    by (rule Cons.IH [OF g2(2,3) _ s(1)]) (use Cons.prems(3) in simp)
  ultimately show ?case by (simp add: run_redirect [OF can])
qed

text \<open>C35. Redirections apply, and they stay: in \<^verbatim>\<open>c < f > g ; d\<close> with any number of redirections, the command \<^verbatim>\<open>c\<close> is started
  with the input and output its redirections name, the last of each kind; but they change the
  descriptors of the shell process that reads the line, so that \<^verbatim>\<open>d\<close> after the \<^verbatim>\<open>;\<close> is started with them too.\<close>

theorem redirections_stay:
  assumes "lex line = Some (map Word c @ redir_tokens rs @ Op 0x3B # map Word d)" "0 \<notin> set line" "length line \<le> 1024"
    and "\<And>r. r \<in> set rs \<Longrightarrow> can_redirect E r" "plain c" "prog E c = Returns v" "plain d" "prog E d = Returns u"
    and "0 < next_env w" "stuck w = []" "redir_std rs i out = (i', out')"
  shows "\<exists>w'. run E (runcmd (line @ 0 # post)) (std i out) None w = (Ended, None, w') \<and>
    events w' = events w @ [Started c (std i' out'), Started d (std i' out')]"
proof -
  obtain l where l: "reads l (map Word c @ redir_tokens rs @ Op 0x3B # map Word d)" "runcmd (line @ 0 # post) = sh_line line l"
    using runcmd_line [OF assms(1-3)] by blast
  obtain l1 av where p: "parsecmd [] 0 l = parsecmd av 0 l1" "reads l1 (redir_tokens rs @ Op 0x3B # map Word d)" "args l1 av c"
    using plain_words [OF l(1) assms(5)] by blast
  obtain l2 where r: "reads l2 (Op 0x3B # map Word d)" "args l2 av c"
    "run E (sh_line line l) (std i out) None w = run E (proc_bind (parsecmd av 0 l2) (exec_cmd line)) (std i' out') None w"
    using run_redirs [OF p(2,3) assms(4,11), of 0 "exec_cmd line" None w] p(1) by (auto simp: sh_line_def)
  obtain q l3 where g: "gettoken l2 = Some (0x3B, q, l3)" "reads l3 (map Word d)" "args l3 av c" using parse_op [OF r(1,2)] by blast
  obtain l4 av' where p4: "parsecmd [] 0 l3 = parsecmd av' 0 l4" "reads l4 []" "args l4 av' d"
    using plain_words [of l3 d "[]" 0] g(2) assms(7) by auto
  have "run E (sh_line line l) (std i out) None w = (Ended, None, started d (std i' out') (after_left c (std i' out') w))"
    using run_semi [OF g(1,3) assms(5,6,9,10), of line "std i' out'" None] r(3) p4(1)
      last_command [OF p4(2,3) assms(7,8), of "after_left c (std i' out') w" 0 line "std i' out'" None] assms(9)
    by (simp add: sh_line_def)
  then show ?thesis using l(2) by simp
qed

text \<open>The line \<^verbatim>\<open>a>g;b\<close>.\<close>

theorem redirections_stay_witness:
  "\<exists>w'. run demo_env (runcmd ([0x61, 0x3E, 0x67, 0x3B, 0x62] @ 0 # [])) (std Console Console) None demo_world = (Ended, None, w') \<and>
    events w' = [Started [[0x61]] (std Console (FileAt [0x67] 1)), Started [[0x62]] (std Console (FileAt [0x67] 1))]"
proof -
  have "lex [0x61, 0x3E, 0x67, 0x3B, 0x62] = Some (map Word [[0x61]] @ redir_tokens [(0x3E, [0x67])] @ Op 0x3B # map Word [[0x62]])"
    by (simp add: is_white_def is_symbol_def word_char_def redir_tokens_def)
  from redirections_stay [OF this, of demo_env 0 0 demo_world Console Console Console "FileAt [0x67] 1" "[]"] show ?thesis
    by (auto simp: plain_def demo_env_def demo_world_def can_redirect_def redir_op_def)
qed

end
