(* ===== verification/MOS_Progs.thy ===== *)
theory MOS_Progs
  imports MOS_FileDesc
begin

text \<open>
  User programs: \<^verbatim>\<open>user/cat.c\<close>, \<^verbatim>\<open>user/touch.c\<close>, \<^verbatim>\<open>user/rm.c\<close> and \<^verbatim>\<open>user/mkdir.c\<close> on the descriptors of \<open>MOS_Fd\<close>.

  The arguments of a program are given without its name. \<^verbatim>\<open>user_panic\<close> ends the program with \<open>Panicked\<close>; its message
  is left out.
\<close>

datatype ending = Fine | Panicked

section \<open>cat\<close>

partial_function (option) cat :: "dev \<Rightarrow> u32 \<Rightarrow> u32 \<Rightarrow> client \<Rightarrow> (ending \<times> client) option" where
  "cat devpipe f buf c = do {
     (n, c) \<leftarrow> read devpipe f buf 8192 c;
     if 0 <s n then do {
       (r, c) \<leftarrow> write_fd devpipe 1 buf n c;
       if r \<noteq> n then Some (Panicked, c) else cat devpipe f buf c
     }
     else Some (if n <s 0 then Panicked else Fine, c)
   }"

fun cat_files :: "dev \<Rightarrow> u32 \<Rightarrow> u8 list list \<Rightarrow> client \<Rightarrow> (ending \<times> client) option" where
  "cat_files devpipe buf [] c = Some (Fine, c)"
| "cat_files devpipe buf (s # ss) c = do {
     (f, c) \<leftarrow> open_file_desc s 0 c;
     if f <s 0 then Some (Panicked, c)
     else do {
       (e, c) \<leftarrow> cat devpipe f buf c;
       if e = Panicked then Some (e, c)
       else do { (_, c) \<leftarrow> close devpipe f c; cat_files devpipe buf ss c }
     }
   }"

definition cat_main :: "dev \<Rightarrow> u32 \<Rightarrow> u8 list list \<Rightarrow> client \<Rightarrow> (ending \<times> client) option" where
  "cat_main devpipe buf as c = (if as = [] then cat devpipe 0 buf c else cat_files devpipe buf as c)"

section \<open>touch\<close>

definition open_close :: "dev \<Rightarrow> u8 list \<Rightarrow> u32 \<Rightarrow> client \<Rightarrow> (ending \<times> client) option" where
  "open_close devpipe path mode c = do {
     (fd, c) \<leftarrow> open_file_desc path mode c;
     if fd <s 0 then Some (Panicked, c) else do { (_, c) \<leftarrow> close devpipe fd c; Some (Fine, c) }
   }"

definition touch :: "dev \<Rightarrow> u8 list \<Rightarrow> client \<Rightarrow> (ending \<times> client) option" where
  "touch devpipe path c = do {
     (e, c) \<leftarrow> open_close devpipe path 0 c;
     if e = Fine then Some (Fine, c) else open_close devpipe path O_CREAT c
   }"

text \<open>The loop over the arguments, which a panic ends.\<close>

fun each_arg :: "('a \<Rightarrow> client \<Rightarrow> (ending \<times> client) option) \<Rightarrow> 'a list \<Rightarrow> client \<Rightarrow> (ending \<times> client) option" where
  "each_arg f [] c = Some (Fine, c)"
| "each_arg f (a # as) c = do { (e, c) \<leftarrow> f a c; if e = Panicked then Some (e, c) else each_arg f as c }"

definition touch_main :: "dev \<Rightarrow> u8 list list \<Rightarrow> client \<Rightarrow> (ending \<times> client) option" where
  "touch_main devpipe as c = (if as = [] then Some (Panicked, c) else each_arg (touch devpipe) as c)"

section \<open>rm\<close>

definition rm :: "dev \<Rightarrow> bool \<Rightarrow> bool \<Rightarrow> u8 list \<Rightarrow> client \<Rightarrow> (ending \<times> client) option" where
  "rm devpipe flag_r flag_f path c = do {
     (fd, c) \<leftarrow> open_file_desc path 0 c;
     if fd <s 0 then Some (if flag_f then Fine else Panicked, c)
     else do {
       (_, c) \<leftarrow> close devpipe fd c;
       (_, st, c) \<leftarrow> stat_path devpipe path \<lparr>st_name = [], st_size = 0, st_isdir = False, st_dev = 0\<rparr> c;
       if st_isdir st \<and> \<not> flag_r then Some (Panicked, c)
       else do { (_, c) \<leftarrow> remove_path path c; Some (Fine, c) }
     }
   }"

abbreviation opt_r :: "u8 list" where "opt_r \<equiv> [0x2D, 0x72]"
abbreviation opt_rf :: "u8 list" where "opt_rf \<equiv> [0x2D, 0x72, 0x66]"
abbreviation opt_p :: "u8 list" where "opt_p \<equiv> [0x2D, 0x70]"

definition rm_main :: "dev \<Rightarrow> u8 list list \<Rightarrow> client \<Rightarrow> (ending \<times> client) option" where
  "rm_main devpipe as c =
    (if as = [] then Some (Panicked, c)
     else each_arg (rm devpipe (opt_r \<in> set as \<or> opt_rf \<in> set as) (opt_rf \<in> set as))
       (filter (\<lambda>a. a \<noteq> opt_r \<and> a \<noteq> opt_rf) as) c)"

section \<open>mkdir\<close>

text \<open>The first loop tries the whole path at every \<^verbatim>\<open>/\<close>, up to the first failure; its counter is a variable of its own.\<close>

fun mkdir_probe :: "dev \<Rightarrow> u8 list \<Rightarrow> u8 list \<Rightarrow> client \<Rightarrow> client option" where
  "mkdir_probe devpipe path [] c = Some c"
| "mkdir_probe devpipe path (ch # rest) c =
    (if ch = 0x2F then do {
       (e, c) \<leftarrow> open_close devpipe path 0 c;
       if e = Fine then mkdir_probe devpipe path rest c else Some c
     } else mkdir_probe devpipe path rest c)"

text \<open>The second loop makes a directory of every prefix that ends before a \<^verbatim>\<open>/\<close>, then of the path.\<close>

fun mkdir_loop :: "dev \<Rightarrow> u8 list \<Rightarrow> u8 list \<Rightarrow> client \<Rightarrow> (ending \<times> client) option" where
  "mkdir_loop devpipe str [] c = open_close devpipe str O_MKDIR c"
| "mkdir_loop devpipe str (ch # rest) c =
    (if ch = 0x2F then do {
       (e, c) \<leftarrow> open_close devpipe str O_MKDIR c;
       if e = Panicked then Some (e, c) else mkdir_loop devpipe (str @ [ch]) rest c
     } else mkdir_loop devpipe (str @ [ch]) rest c)"

definition mkdir :: "dev \<Rightarrow> bool \<Rightarrow> u8 list \<Rightarrow> client \<Rightarrow> (ending \<times> client) option" where
  "mkdir devpipe flag path c = do {
     (e, c) \<leftarrow> open_close devpipe path 0 c;
     if flag then
       if e = Fine then Some (Fine, c)
       else if 1024 \<le> length path then None
       else do { c \<leftarrow> mkdir_probe devpipe path path c; mkdir_loop devpipe [] path c }
     else if e = Fine then Some (Panicked, c)
     else open_close devpipe path O_MKDIR c
   }"

definition mkdir_main :: "dev \<Rightarrow> u8 list list \<Rightarrow> client \<Rightarrow> (ending \<times> client) option" where
  "mkdir_main devpipe as c =
    (if as = [] then Some (Panicked, c)
     else each_arg (mkdir devpipe (opt_p \<in> set as)) (remove1 opt_p as) c)"

text \<open>With \<^verbatim>\<open>-p\<close> every ancestor is opened for making it, from the first one on, whether it exists or not.\<close>

definition ancestors :: "u8 list \<Rightarrow> u8 list list" where
  "ancestors path = map (\<lambda>i. take i path) (filter (\<lambda>i. path ! i = 0x2F) [0..<length path])"

lemma ancestors_Cons: "ancestors (ch # rest) = (if ch = 0x2F then [[]] else []) @ map (Cons ch) (ancestors rest)"
proof -
  have "[0..<length (ch # rest)] = 0 # map Suc [0..<length rest]" by (simp add: map_Suc_upt upt_conv_Cons del: upt_Suc)
  then show ?thesis by (simp only: ancestors_def filter.simps list.map) (simp add: filter_map comp_def)
qed

lemma mkdir_loop_ancestors:
  "mkdir_loop devpipe str rest c = each_arg (\<lambda>p. open_close devpipe p O_MKDIR) (map ((@) str) (ancestors rest) @ [str @ rest]) c"
proof (induction devpipe str rest c rule: mkdir_loop.induct)
  case (1 devpipe str c)
  have "do { (e, c) \<leftarrow> x; if e = Panicked then Some (e, c) else Some (Fine, c) } = x" for x :: "(ending \<times> client) option"
    by (cases x) (auto, metis ending.exhaust)
  then show ?case by (simp add: ancestors_def cong: if_cong)
next
  case (2 devpipe str ch rest c)
  then show ?case by (auto simp: ancestors_Cons comp_def split: bind_split)
qed

section \<open>Writing to the console\<close>

definition cons_desc :: "u32 \<Rightarrow> page \<Rightarrow> client \<Rightarrow> bool" where
  "cons_desc i p c \<longleftrightarrow> client_ok c \<and> i < MAXFD \<and> (\<exists>fl. ptab c (VPN (INDEX2FD i)) = Some (p, fl) \<and> fl AND PTE_D \<noteq> 0) \<and>
     field p 0 c = 0x63 \<and> field p 8 c AND O_ACCMODE \<noteq> 0"

lemma shown_irrelevant [simp]:
  "load8 va (c\<lparr>shown := s\<rparr>) = load8 va c" "cell (c\<lparr>shown := s\<rparr>) x = cell c x" "field p k (c\<lparr>shown := s\<rparr>) = field p k c"
  "client_ok (c\<lparr>shown := s\<rparr>) = client_ok c" "loc va (c\<lparr>shown := s\<rparr>) = loc va c" "load32 va (c\<lparr>shown := s\<rparr>) = load32 va c"
  by (simp_all add: load8_def load32_def page_mem_def cell_def field_def client_ok_def loc_def split: option.split page.split)

lemma print_loop:
  "(\<And>k. k < n \<Longrightarrow> load8 (buf + of_nat k) c = Some (data ! k)) \<Longrightarrow> n \<le> length data \<Longrightarrow>
    foldM (\<lambda>i c. do { b \<leftarrow> load8 (buf + of_nat i) c; Some (c\<lparr>shown := shown c @ [b]\<rparr>) }) [0..<n] c =
      Some (c\<lparr>shown := shown c @ take n data\<rparr>)"
  by (induction n) (simp_all add: foldM_append take_Suc_conv_app_nth)

lemma print_cons_shows:
  assumes "\<And>k. k < length data \<Longrightarrow> load8 (buf + of_nat k) c = Some (data ! k)" "unat buf < unat UTOP" "unat buf + length data \<le> unat UTOP"
  shows "c_print_cons buf (of_nat (length data)) c = Some (0, c\<lparr>shown := shown c @ data\<rparr>)"
proof -
  have u: "unat UTOP < 2 ^ 32" by simp
  have l: "unat (of_nat (length data) :: u32) = length data" using assms(3) u by (simp add: unat_of_nat)
  have "unat (buf + of_nat (length data)) = unat buf + length data"
    using assms(3) u l by (subst unat_add_lem [THEN iffD1]) simp_all
  then have "\<not> (UTOP < buf + of_nat (length data) \<or> UTOP \<le> buf \<or> buf + of_nat (length data) < buf)"
    using assms(2,3) by (simp add: word_less_nat_alt word_le_nat_alt)
  then show ?thesis using print_loop [of "length data" buf c data] assms(1) by (simp add: c_print_cons_def l)
qed

lemma write_shows:
  assumes d: "cons_desc i p c" and "\<And>k. k < length data \<Longrightarrow> load8 (buf + of_nat k) c = Some (data ! k)"
    and "unat buf < unat UTOP" "unat buf + length data \<le> unat UTOP" "0 < length data" "length data \<le> 0x400000"
  shows "\<exists>c'. write_fd devpipe i buf (of_nat (length data)) c = Some (of_nat (length data), c') \<and> shown c' = shown c @ data \<and>
    ptab c' = ptab c \<and> cons_desc i p c' \<and> (\<forall>x. good x \<longrightarrow> fst x \<noteq> p \<longrightarrow> cell c' x = cell c x)"
proof -
  let ?fd = "INDEX2FD i" and ?c = "c\<lparr>shown := shown c @ data\<rparr>" and ?n = "of_nat (length data) :: u32"
  obtain fl where p: "i < MAXFD" "ptab c (VPN ?fd) = Some (p, fl)" "fl AND PTE_D \<noteq> 0" "field p 0 c = 0x63" "field p 8 c AND O_ACCMODE \<noteq> 0" "client_ok c"
    using d unfolding cons_desc_def by blast
  have al: "unat ?fd mod 4096 = 0" using INDEX2FD_aligned [OF p(1)] .
  have ok: "page_ok p" using p(2,6) unfolding client_ok_def by blast
  have l: "load32 ?fd c = Some 0x63" "load32 (?fd + 4) c = Some (field p 4 c)" "load32 (?fd + 8) c = Some (field p 8 c)"
    using load32_field [OF al p(2), of 0] load32_field [OF al p(2), of 4] load32_field [OF al p(2), of 8] p(4) by simp_all
  have dev: "on_dev devpipe i c k = k ?fd devcons" for k
    using fd_lookup_open [OF p(1)] p(2) l(1) by (simp add: on_dev_def on_fd_def dev_lookup_def devtab_def devfile_def devcons_def)
  have pos: "(0::u32) <s ?n" "\<not> (0::u32) <s 0"
    using assms(5,6) by (auto simp: small_sless unat_of_nat word_less_nat_alt)
  have le: "(4::nat) + 4 \<le> 4096" by simp
  have "ptab ?c (VPN ?fd) = Some (p, fl)" using p(2) by simp
  from store32_field [OF al this p(3) ok le] obtain c' where c': "store32 (?fd + of_nat 4) (field p 4 c + ?n) ?c = Some c'"
    "frame_of c' = frame_of ?c" "\<And>j. j + 4 \<le> 4096 \<Longrightarrow> j + 4 \<le> 4 \<or> 4 + 4 \<le> j \<Longrightarrow> field p j c' = field p j ?c"
    "\<And>x. good x \<Longrightarrow> fst x \<noteq> p \<Longrightarrow> cell c' x = cell ?c x" by blast
  have sh: "shown c' = shown ?c" using arg_cong [OF c'(2), of shown] by (simp add: frame_of_def)
  have pt: "ptab c' = ptab c" using ptab_frame [OF c'(2)] by simp
  have "cons_desc i p c'"
    unfolding cons_desc_def using p c'(3) [of 0] c'(3) [of 8] pt client_ok_frame [OF c'(2)] by simp
  moreover have "write_fd devpipe i buf ?n c = Some (?n, c')"
    using print_cons_shows [OF assms(2-4)] c'(1) l pos p(5)
    by (simp add: write_fd_def dev devcons_def cons_write_def advance_def)
  ultimately show ?thesis using sh pt c'(4) by simp
qed

section \<open>cat shows the file\<close>

lemma file_desc_other:
  assumes d: "file_desc i mode bs pos c" and pt: "ptab c' = ptab c"
    and "fst (the (loc (INDEX2FD i) c)) \<noteq> p" "\<And>k. k < length bs \<Longrightarrow> fst (the (loc (INDEX2DATA i + of_nat k) c)) \<noteq> p"
    and cells: "\<And>x. good x \<Longrightarrow> fst x \<noteq> p \<Longrightarrow> cell c' x = cell c x"
  shows "file_desc i mode bs pos c'"
proof -
  obtain q fl where q: "client_ok c" "ptab c (VPN (INDEX2FD i)) = Some (q, fl)" "page_ok q" "loc (INDEX2FD i) c = Some (q, 0)"
    using file_descE [OF d] by metis
  have l: "loc va c' = loc va c" for va by (simp add: loc_def pt)
  have f: "field q k c' = field q k c" if "k + 4 \<le> 4096" for k
    using that q(3,4) assms(3) by (intro field_cong cells) (auto simp: good_def)
  have b: "load8 (INDEX2DATA i + of_nat k) c' = load8 (INDEX2DATA i + of_nat k) c" if "k < length bs" for k
    using assms(4) [OF that] cells loc_good [OF q(1)] by (cases "loc (INDEX2DATA i + of_nat k) c") (auto simp: load8_loc l)
  show ?thesis
    using d q(2) f [of 0] f [of 4] f [of 8] f [of 144] b unfolding file_desc_def l pt writable_def client_ok_def by auto
qed

text \<open>Descriptor \<open>i\<close> reads a file and descriptor 1 writes to the console, through a buffer that shares
  no page with them.\<close>

definition cat_inv :: "u32 \<Rightarrow> u32 \<Rightarrow> u8 list \<Rightarrow> nat \<Rightarrow> page \<Rightarrow> u32 \<Rightarrow> client \<Rightarrow> bool" where
  "cat_inv i mode bs pos p buf c \<longleftrightarrow> file_desc i mode bs pos c \<and> cons_desc 1 p c \<and>
     apart i (length bs) buf 8192 c \<and> out_buffer buf 8192 c \<and>
     fst (the (loc (INDEX2FD i) c)) \<noteq> p \<and> (\<forall>k<length bs. fst (the (loc (INDEX2DATA i + of_nat k) c)) \<noteq> p) \<and>
     (\<forall>k<8192. fst (the (loc (buf + of_nat k) c)) \<noteq> p)"

lemma apart_ptab:
  assumes "ptab c' = ptab c"
  shows "apart i m buf n c' = apart i m buf n c" "out_buffer buf n c' = out_buffer buf n c" "loc va c' = loc va c"
  using assms by (simp_all add: apart_def out_buffer_def loc_def writable_def)

lemma cat_round:
  assumes inv: "cat_inv i mode bs pos p buf c" and "mode AND O_ACCMODE \<noteq> O_WRONLY" "pos < length bs" "unat buf + 8192 \<le> unat UTOP"
  shows "\<exists>c'. cat devpipe i buf c = cat devpipe i buf c' \<and> cat_inv i mode bs (pos + length (af_read 8192 bs pos)) p buf c' \<and>
    shown c' = shown c @ af_read 8192 bs pos"
proof -
  let ?d = "af_read 8192 bs pos"
  have v: "file_desc i mode bs pos c" "cons_desc 1 p c" "apart i (length bs) buf 8192 c" "out_buffer buf 8192 c"
    "fst (the (loc (INDEX2FD i) c)) \<noteq> p" "\<And>k. k < length bs \<Longrightarrow> fst (the (loc (INDEX2DATA i + of_nat k) c)) \<noteq> p"
    "\<And>k. k < 8192 \<Longrightarrow> fst (the (loc (buf + of_nat k) c)) \<noteq> p"
    using inv by (auto simp: cat_inv_def)
  have len: "length bs \<le> 0x400000" using file_descE [OF v(1)] by metis
  have d: "0 < length ?d" "length ?d \<le> 8192" using assms(3) by (auto simp: af_read_def)
  obtain c1 where c1: "read devpipe i buf 8192 c = Some (of_nat (length ?d), c1)" "file_desc i mode bs (pos + length ?d) c1"
    "\<And>k. k < length ?d \<Longrightarrow> load8 (buf + of_nat k) c1 = Some (?d ! k)" "frame_of c1 = frame_of c"
    "\<And>x. good x \<Longrightarrow> fst x \<noteq> fst (the (loc (INDEX2FD i) c)) \<Longrightarrow> (\<forall>k<8192. loc (buf + of_nat k) c \<noteq> Some x) \<Longrightarrow> cell c1 x = cell c x"
    using read_refines [OF v(1) assms(2) _ v(3,4), of devpipe] assms(3) len by auto
  have pt: "ptab c1 = ptab c" using ptab_frame [OF c1(4)] .
  have nb: "loc (buf + of_nat k) c \<noteq> Some (p, j)" if "k < 8192" for k j using v(7) [OF that] by auto
  have same: "field p k c1 = field p k c" if "k + 4 \<le> 4096" "page_ok p" for k
    using that v(5) nb by (intro field_cong c1(5)) (auto simp: good_def)
  have "page_ok p" using v(2) unfolding cons_desc_def client_ok_def by blast
  then have cd: "cons_desc 1 p c1" using v(2) same [of 0] same [of 8] client_ok_frame [OF c1(4)] by (auto simp: cons_desc_def pt)
  obtain c2 where c2: "write_fd devpipe 1 buf (of_nat (length ?d)) c1 = Some (of_nat (length ?d), c2)" "shown c2 = shown c1 @ ?d"
    "ptab c2 = ptab c1" "cons_desc 1 p c2" "\<And>x. good x \<Longrightarrow> fst x \<noteq> p \<Longrightarrow> cell c2 x = cell c1 x"
    using write_shows [OF cd c1(3), of devpipe] assms(4) d by auto
  have "file_desc i mode bs (pos + length ?d) c2"
    by (rule file_desc_other [OF c1(2) c2(3) _ _ c2(5)]) (use v(5,6) in \<open>auto simp: apart_ptab [OF pt]\<close>)
  then have "cat_inv i mode bs (pos + length ?d) p buf c2"
    using v c2(3,4) pt by (simp add: cat_inv_def apart_ptab [of c2 c])
  moreover have "shown c1 = shown c" using arg_cong [OF c1(4), of shown] by (simp add: frame_of_def)
  moreover have "(0::u32) <s of_nat (length ?d)" using d by (subst small_sless) (auto simp: unat_of_nat word_less_nat_alt)
  ultimately show ?thesis using c1(1) c2(1,2) by (intro exI [of _ c2]) (subst cat.simps, simp)
qed

lemma cat_rest:
  assumes "cat_inv i mode bs pos p buf c" "mode AND O_ACCMODE \<noteq> O_WRONLY" "unat buf + 8192 \<le> unat UTOP" "pos \<le> length bs"
  shows "\<exists>c'. cat devpipe i buf c = Some (Fine, c') \<and> shown c' = shown c @ drop pos bs"
  using assms
proof (induction "length bs - pos" arbitrary: pos c rule: less_induct)
  case less
  show ?case
  proof (cases "pos < length bs")
    case True
    let ?d = "af_read 8192 bs pos"
    obtain c1 where c1: "cat devpipe i buf c = cat devpipe i buf c1" "cat_inv i mode bs (pos + length ?d) p buf c1" "shown c1 = shown c @ ?d"
      using cat_round [OF less.prems(1,2) True less.prems(3)] by blast
    have d: "length bs - (pos + length ?d) < length bs - pos" "pos + length ?d \<le> length bs" using True by (auto simp: af_read_def)
    obtain c2 where "cat devpipe i buf c1 = Some (Fine, c2)" "shown c2 = shown c1 @ drop (pos + length ?d) bs"
      using less.hyps [OF d(1) c1(2) less.prems(2,3) d(2)] by blast
    moreover have "?d @ drop (pos + length ?d) bs = drop pos bs"
    proof -
      have "take n xs @ drop (length (take n xs)) xs = xs" for n and xs :: "u8 list" by (simp add: min_def)
      from this [of 8192 "drop pos bs"] show ?thesis by (simp add: af_read_def add.commute)
    qed
    ultimately show ?thesis using c1(1,3) by auto
  next
    case False
    then have "pos = length bs" using less.prems(4) by simp
    have v: "file_desc i mode bs pos c" "apart i (length bs) buf 8192 c" "out_buffer buf 8192 c" using less.prems(1) by (auto simp: cat_inv_def)
    have "length bs \<le> 0x400000" using file_descE [OF v(1)] by metis
    then obtain c1 where c1: "read devpipe i buf 8192 c = Some (0, c1)" "frame_of c1 = frame_of c"
      using read_refines [OF v(1) less.prems(2) _ v(2,3), of devpipe] \<open>pos = length bs\<close> by (auto simp: af_read_def)
    have "shown c1 = shown c" using arg_cong [OF c1(2), of shown] by (simp add: frame_of_def)
    then show ?thesis using c1(1) \<open>pos = length bs\<close> by (subst cat.simps) simp
  qed
qed

text \<open>C13. \<^verbatim>\<open>cat\<close> shows the file: with a file open for reading as its descriptor, the console as descriptor 1 and its buffer in
  pages of its own, \<^verbatim>\<open>cat\<close> ends normally and has written exactly the bytes from the position of the file to its
  end, whatever the size of the file.\<close>

theorem cat_shows_file:
  assumes "file_desc i mode bs pos c" "mode AND O_ACCMODE \<noteq> O_WRONLY" "pos \<le> length bs" "cons_desc 1 p c"
    and "apart i (length bs) buf 8192 c" "out_buffer buf 8192 c" "unat buf + 8192 \<le> unat UTOP"
    and "fst (the (loc (INDEX2FD i) c)) \<noteq> p" "\<And>k. k < length bs \<Longrightarrow> fst (the (loc (INDEX2DATA i + of_nat k) c)) \<noteq> p"
    and "\<And>k. k < 8192 \<Longrightarrow> fst (the (loc (buf + of_nat k) c)) \<noteq> p"
  shows "\<exists>c'. cat devpipe i buf c = Some (Fine, c') \<and> shown c' = shown c @ drop pos bs"
proof -
  have "cat_inv i mode bs pos p buf c" unfolding cat_inv_def using assms(1,4,5,6,8-10) by blast
  then show ?thesis using cat_rest assms(2,3,7) by blast
qed

text \<open>The two bytes of the file of a client with a console and a buffer of two pages.\<close>

definition cat_client :: "srv \<Rightarrow> client" where
  "cat_client sv = (demo_client sv)\<lparr>
     own := (own (demo_client sv))(3 := st32 0 0x63 (st32 8 O_RDWR (\<lambda>_. 0))),
     ptab := (ptab (demo_client sv))(0x5FC01 \<mapsto> (Own 3, PTE_D), 0x600 \<mapsto> (Own 4, PTE_D), 0x601 \<mapsto> (Own 5, PTE_D))\<rparr>"

lemma cat_client_sel:
  "ptab (cat_client sv) = [0x5FC00 \<mapsto> (Own 0, PTE_D), 0x60000 \<mapsto> (Own 1, PTE_D), 0x500 \<mapsto> (Own 2, PTE_D),
     0x5FC01 \<mapsto> (Own 3, PTE_D), 0x600 \<mapsto> (Own 4, PTE_D), 0x601 \<mapsto> (Own 5, PTE_D)]"
  "shown (cat_client sv) = []" "field (Own 3) 0 (cat_client sv) = 0x63" "field (Own 3) 8 (cat_client sv) = O_RDWR"
  "\<And>f k. f \<noteq> 3 \<Longrightarrow> field (Own f) k (cat_client sv) = field (Own f) k (demo_client sv)"
  "\<And>f k. f \<noteq> 3 \<Longrightarrow> cell (cat_client sv) (Own f, k) = cell (demo_client sv) (Own f, k)"
  by (simp_all add: cat_client_def demo_client_sel demo_client_def field_def cell_def page_mem_def ld32_st32 ld32_st32_other)

lemma cat_client_locs:
  "loc (INDEX2FD 0) (cat_client sv) = Some (Own 0, 0)" "loc (INDEX2DATA 0) (cat_client sv) = Some (Own 1, 0)"
  "loc (INDEX2DATA 0 + 1) (cat_client sv) = Some (Own 1, 1)"
  "k < 8192 \<Longrightarrow> loc (0x600000 + of_nat k) (cat_client sv) = Some (if k < 4096 then Own 4 else Own 5, k mod 4096)"
proof -
  show "loc (INDEX2FD 0) (cat_client sv) = Some (Own 0, 0)" "loc (INDEX2DATA 0) (cat_client sv) = Some (Own 1, 0)"
    "loc (INDEX2DATA 0 + 1) (cat_client sv) = Some (Own 1, 1)"
    by (simp_all add: loc_def VPN_div cat_client_sel INDEX2FD_def INDEX2DATA_def)
  assume k: "k < 8192"
  then have "unat (of_nat k :: u32) = k" by (simp add: unat_of_nat)
  then have u: "unat (0x600000 + of_nat k :: u32) = 0x600000 + k" using k by (subst unat_add_lem [THEN iffD1]) simp_all
  have "(k + 0x600 * 4096) div 4096 = 0x600 + k div 4096" "(k + 0x600 * 4096) mod 4096 = k mod 4096"
    by (rule div_mult_self1, simp) (rule mod_mult_self1)
  then have "(0x600000 + k) div 4096 = 0x600 + k div 4096" "(0x600000 + k) mod 4096 = k mod 4096" by (simp_all add: add.commute)
  moreover have "k div 4096 = (if k < 4096 then 0 else 1)" using k by auto
  ultimately show "loc (0x600000 + of_nat k) (cat_client sv) = Some (if k < 4096 then Own 4 else Own 5, k mod 4096)"
    by (simp add: loc_def VPN_div u cat_client_sel)
qed

lemma cat_client_file: "file_desc 0 O_RDWR [5, 6] 0 (cat_client sv)"
proof -
  have k: "k < length [5, 6 :: u8] \<longleftrightarrow> k = 0 \<or> k = 1" for k :: nat by auto
  have D: "PTE_D AND PTE_D \<noteq> 0" by (simp add: PTE_D_def)
  have w: "writable (INDEX2DATA 0) (cat_client sv)" "writable (INDEX2DATA 0 + 1) (cat_client sv)"
    using D by (simp_all add: writable_def demo_pages cat_client_sel)
  have "load8 (INDEX2DATA 0) (cat_client sv) = Some 5" "load8 (INDEX2DATA 0 + 1) (cat_client sv) = Some 6"
    by (simp_all add: load8_loc cat_client_locs cat_client_sel(6) cell_def [of "demo_client sv"] page_mem_def demo_client_sel del: One_nat_def)
  then show ?thesis
    unfolding file_desc_def k using demo_fields D w
    by (auto simp: demo_pages client_ok_def page_ok_def cat_client_sel cat_client_locs split: if_splits)
qed

theorem cat_shows_file_witness:
  "\<forall>sv. \<exists>c'. cat devcons 0 0x600000 (cat_client sv) = Some (Fine, c') \<and> shown c' = [5, 6]"
proof
  fix sv :: srv
  have k: "k < length [5, 6 :: u8] \<longleftrightarrow> k = 0 \<or> k = 1" for k :: nat by auto
  have D: "PTE_D AND PTE_D \<noteq> 0" by (simp add: PTE_D_def)
  note l = cat_client_locs [where sv = sv]
  have "VPN (INDEX2FD 1) = 0x5FC01" by (simp add: VPN_div INDEX2FD_def)
  then have c: "cons_desc 1 (Own 3) (cat_client sv)"
    using D by (auto simp: cons_desc_def cat_client_sel client_ok_def page_ok_def split: if_splits)
  have a: "apart 0 (length [5, 6 :: u8]) 0x600000 8192 (cat_client sv)"
    unfolding apart_def k by (auto simp: l)
  have w: "writable (0x600000 + of_nat n) (cat_client sv)" if "n < 8192" for n
    using l(4) [OF that] D by (auto simp: loc_def writable_def cat_client_sel split: if_splits)
  have "m = n" if "m < 8192" "n < 8192" "loc (0x600000 + of_nat m) (cat_client sv) = loc (0x600000 + of_nat n) (cat_client sv)" for m n
    using that l(4) [OF that(1)] l(4) [OF that(2)] by (auto simp: le_mod_geq split: if_splits)
  then have o: "out_buffer 0x600000 8192 (cat_client sv)" using w by (auto simp: out_buffer_def)
  have s: "fst (the (loc (INDEX2DATA 0 + of_nat n) (cat_client sv))) \<noteq> Own 3" if "n < length [5, 6 :: u8]" for n
    using that l unfolding k by auto
  have b: "fst (the (loc (0x600000 + of_nat n) (cat_client sv))) \<noteq> Own 3" if "n < 8192" for n using l(4) [OF that] by simp
  show "\<exists>c'. cat devcons 0 0x600000 (cat_client sv) = Some (Fine, c') \<and> shown c' = [5, 6]"
    using cat_shows_file [OF cat_client_file [of sv] _ _ c a o _ _ s b, of devcons] l(1) by (simp add: cat_client_sel)
qed

end
