(* ===== verification/MOS_PipeFd.thy ===== *)
theory MOS_PipeFd
  imports MOS_Dup MOS_Pipe
begin

text \<open>
  Making a pipe: \<^verbatim>\<open>pipe\<close> of \<^verbatim>\<open>user/lib/pipe.c\<close> on the address space of the client. It returns an error or the
  numbers of the two descriptors.
\<close>

abbreviation PIPE_PERM :: u32 where "PIPE_PERM \<equiv> PTE_D OR PTE_LIBRARY"

definition set_fd :: "u32 \<Rightarrow> u32 \<Rightarrow> client \<Rightarrow> client option" where
  "set_fd fd mode c = do { c \<leftarrow> store32 fd 0x70 c; store32 (fd_omode_of fd) mode c }"

definition pipe_err1 :: "u32 \<Rightarrow> u32 \<Rightarrow> client \<Rightarrow> ((u32 + u32 \<times> u32) \<times> client) option" where
  "pipe_err1 fd0 r c = Some (Inl r, snd (c_mem_unmap fd0 c))"

definition pipe_err2 :: "u32 \<Rightarrow> u32 \<Rightarrow> u32 \<Rightarrow> client \<Rightarrow> ((u32 + u32 \<times> u32) \<times> client) option" where
  "pipe_err2 fd0 fd1 r c = pipe_err1 fd0 r (snd (c_mem_unmap fd1 c))"

definition pipe_err3 :: "u32 \<Rightarrow> u32 \<Rightarrow> u32 \<Rightarrow> u32 \<Rightarrow> client \<Rightarrow> ((u32 + u32 \<times> u32) \<times> client) option" where
  "pipe_err3 va fd0 fd1 r c = pipe_err2 fd0 fd1 r (snd (c_mem_unmap va c))"

definition pipe :: "client \<Rightarrow> ((u32 + u32 \<times> u32) \<times> client) option" where
  "pipe c =
    (case fd_alloc c of
       Inl e \<Rightarrow> Some (Inl (of_int e), c)
     | Inr fd0 \<Rightarrow>
         let (r, c) = c_mem_alloc fd0 PIPE_PERM c in
         if r <s 0 then Some (Inl r, c)
         else case fd_alloc c of
           Inl e \<Rightarrow> pipe_err1 fd0 (of_int e) c
         | Inr fd1 \<Rightarrow>
             let (r, c) = c_mem_alloc fd1 PIPE_PERM c in
             if r <s 0 then pipe_err1 fd0 r c
             else
               let va = fd2data fd0;
                   (r, c) = c_mem_alloc va PIPE_PERM c in
               if r <s 0 then pipe_err2 fd0 fd1 r c
               else
                 let (r, c) = c_mem_map va (fd2data fd1) PIPE_PERM c in
                 if r <s 0 then pipe_err3 va fd0 fd1 r c
                 else do {
                   c \<leftarrow> set_fd fd0 0 c;
                   c \<leftarrow> set_fd fd1 1 c;
                   Some (Inr (fd2num fd0, fd2num fd1), c)
                 })"

text \<open>What \<^verbatim>\<open>_pipe_is_closed\<close> observes is given as in \<open>MOS_Pipe\<close>.\<close>

definition pipe_is_closed :: "u32 \<Rightarrow> (u32 \<times> nat \<times> nat \<times> u32) list \<Rightarrow> client \<Rightarrow> u32 option" where
  "pipe_is_closed fdnum obs c =
    (case fd_lookup fdnum c of
       Inl e \<Rightarrow> Some (of_int e)
     | Inr _ \<Rightarrow> map_option (\<lambda>b. if b then 1 else 0) (pipe_is_closed_loop obs))"

definition pipe_stat :: "u32 \<Rightarrow> stat \<Rightarrow> client \<Rightarrow> (u32 \<times> stat \<times> client) option" where
  "pipe_stat fd st c = Some (0, st, c)"

section \<open>Steps\<close>

definition fd_free :: "client \<Rightarrow> nat \<Rightarrow> bool" where
  "fd_free c n \<longleftrightarrow> n < 31 \<and> ptab c (VPN (INDEX2FD (of_nat n))) = None"

lemma fd_alloc_cases:
  obtains (full) e where "fd_alloc c = Inl e" "\<And>n. \<not> fd_free c n"
  | (free) n where "fd_alloc c = Inr (INDEX2FD (of_nat n))" "fd_free c n" "\<And>m. m < n \<Longrightarrow> \<not> fd_free c m"
proof (cases "find (\<lambda>n. ptab c (VPN (INDEX2FD (of_nat n))) = None) [0..<31]")
  case None
  then have "\<not> fd_free c n" for n by (auto simp: find_None_iff fd_free_def)
  then show ?thesis using None full by (simp add: fd_alloc_def)
next
  case (Some n)
  then obtain k where "k < 31" "n = k" "ptab c (VPN (INDEX2FD (of_nat n))) = None"
    "\<forall>m<k. ptab c (VPN (INDEX2FD (of_nat m))) \<noteq> None"
    unfolding find_Some_iff by auto
  then show ?thesis using Some free [of n] by (auto simp: fd_alloc_def fd_free_def)
qed

text \<open>The client with a new page of zeros at an address.\<close>

definition fresh :: "u32 \<Rightarrow> client \<Rightarrow> client" where
  "fresh va c = set_pte (VPN va) (Own (nown c)) PIPE_PERM (c\<lparr>clock := clock c + 1, nown := nown c + 1, own := (own c)(nown c := (\<lambda>_. 0))\<rparr>)"

lemma fresh_simps [simp]:
  "ptab (fresh va c) = (ptab c)(VPN va \<mapsto> (Own (nown c), mapped_flags PIPE_PERM))" "nown (fresh va c) = nown c + 1"
  "own (fresh va c) = (own c)(nown c := (\<lambda>_. 0))"
  by (simp_all add: fresh_def set_pte_def Let_def clear_pte_def upd_ref_def split: option.split page.split)

lemma mem_alloc_cases:
  "va_ok va \<Longrightarrow> c_mem_alloc va PIPE_PERM c = (ecode E_NO_MEM, c\<lparr>clock := clock c + 1\<rparr>) \<or> c_mem_alloc va PIPE_PERM c = (0, fresh va c)"
  by (cases "nopage c (clock c)") (auto simp: c_mem_alloc_def fresh_def)

lemma ecode_neg: "ecode E_NO_MEM <s 0" "\<not> (0 :: u32) <s 0"
  by code_simp+

lemma fd_small: "n < 31 \<Longrightarrow> (of_nat n :: u32) < MAXFD" "n < 31 \<Longrightarrow> unat (of_nat n :: u32) = n"
  by (simp_all add: word_less_nat_alt unat_of_nat)

lemma fd_pages:
  assumes "n < 31"
  shows "VPN (INDEX2FD (of_nat n)) = 0x5FC00 + n" "VPN (INDEX2DATA (of_nat n)) = 0x60000 + 1024 * n"
    "va_ok (INDEX2FD (of_nat n))" "va_ok (INDEX2DATA (of_nat n))" "fd2data (INDEX2FD (of_nat n)) = INDEX2DATA (of_nat n)"
    "fd2num (INDEX2FD (of_nat n)) = of_nat n" "unat (INDEX2FD (of_nat n)) mod 4096 = 0"
  using VPN_fd [OF fd_small(1) [OF assms]] VPN_data [OF fd_small(1) [OF assms], of 0] va_ok_fd [OF fd_small(1) [OF assms]]
    va_ok_window [OF fd_small(1) [OF assms], of 0] fd2data_INDEX2FD [OF fd_small(1) [OF assms]] fd2num_INDEX2FD [OF fd_small(1) [OF assms]]
    INDEX2FD_aligned [OF fd_small(1) [OF assms]]
  by (simp_all add: fd_small(2) [OF assms] dwin_def)

lemma set_fd_ok:
  assumes "unat fd mod 4096 = 0" "ptab c (VPN fd) = Some (Own n, fl)" "fl AND PTE_D \<noteq> 0"
  shows "\<exists>c'. set_fd fd mode c = Some c' \<and> frame_of c' = frame_of c \<and> field (Own n) 0 c' = 0x70 \<and> field (Own n) 8 c' = mode \<and>
    (\<forall>x. good x \<longrightarrow> fst x \<noteq> Own n \<longrightarrow> cell c' x = cell c x)"
proof -
  have le: "(0::nat) + 4 \<le> 4096" "(8::nat) + 4 \<le> 4096" and ok: "page_ok (Own n)" by (simp_all add: page_ok_def)
  obtain c1 where c1: "store32 (fd + of_nat 0) 0x70 c = Some c1" "frame_of c1 = frame_of c" "field (Own n) 0 c1 = 0x70"
    "\<And>x. good x \<Longrightarrow> fst x \<noteq> Own n \<Longrightarrow> cell c1 x = cell c x"
    using store32_field [OF assms ok le(1)] by blast
  have "ptab c1 (VPN fd) = Some (Own n, fl)" using assms(2) ptab_frame [OF c1(2)] by simp
  then obtain c2 where "store32 (fd + of_nat 8) mode c1 = Some c2" "frame_of c2 = frame_of c1" "field (Own n) 8 c2 = mode"
    "field (Own n) 0 c2 = field (Own n) 0 c1" "\<And>x. good x \<Longrightarrow> fst x \<noteq> Own n \<Longrightarrow> cell c2 x = cell c1 x"
    using store32_field [OF assms(1) _ assms(3) ok le(2), of c1] by fastforce
  then show ?thesis using c1 by (simp add: set_fd_def)
qed

lemma pipe_flags: "mapped_flags PIPE_PERM AND PTE_D \<noteq> 0"
  by (simp add: pte_bits bit_mapped_flags bit_and_iff bit_or_iff bit_D)

section \<open>The pipe\<close>

text \<open>After the two descriptor pages have been made.\<close>

definition two_fds :: "nat \<Rightarrow> nat \<Rightarrow> client \<Rightarrow> client" where
  "two_fds m n c = fresh (INDEX2FD (of_nat n)) (fresh (INDEX2FD (of_nat m)) c)"

definition undo :: "u32 \<Rightarrow> client \<Rightarrow> client" where
  "undo va c = snd (c_mem_unmap va c)"

lemma undo_ptab [simp]: "va_ok va \<Longrightarrow> ptab (undo va c) = (ptab c)(VPN va := None)"
  by (simp add: undo_def c_mem_unmap_def)

lemma fd_free_fresh:
  assumes "fd_free c m"
  shows "fd_free (fresh (INDEX2FD (of_nat m)) c) n \<longleftrightarrow> fd_free c n \<and> n \<noteq> m"
  using assms fd_pages(1) [of m] fd_pages(1) [of n] by (auto simp: fd_free_def split: if_splits)

text \<open>The four outcomes of the first part, by what is left of the mappings.\<close>

lemma pipe_step1:
  obtains (error) e c' where "pipe c = Some (Inl e, c')" "ptab c' = ptab c"
  | (fds) m n where "fd_free c m" "fd_free c n" "m < n" "\<And>k. k < n \<Longrightarrow> fd_free c k \<Longrightarrow> k = m"
    "pipe c = (let c = two_fds m n c; va = INDEX2DATA (of_nat m); fd0 = INDEX2FD (of_nat m); fd1 = INDEX2FD (of_nat n);
         (r, c) = c_mem_alloc va PIPE_PERM c in
       if r <s 0 then Some (Inl r, undo fd0 (undo fd1 c))
       else let (r, c) = c_mem_map va (INDEX2DATA (of_nat n)) PIPE_PERM c in
         if r <s 0 then Some (Inl r, undo fd0 (undo fd1 (undo va c)))
         else do { c \<leftarrow> set_fd fd0 0 c; c \<leftarrow> set_fd fd1 1 c; Some (Inr (of_nat m, of_nat n), c) })"
proof (cases rule: fd_alloc_cases [of c])
  case (full e)
  then show ?thesis using error by (simp add: pipe_def)
next
  case (free m)
  let ?fd0 = "INDEX2FD (of_nat m)"
  have m: "m < 31" "ptab c (VPN ?fd0) = None" using free(2) by (auto simp: fd_free_def)
  note pm = fd_pages [OF m(1)]
  from mem_alloc_cases [OF pm(3), of c]
  consider (no_mem) "c_mem_alloc ?fd0 PIPE_PERM c = (ecode E_NO_MEM, c\<lparr>clock := clock c + 1\<rparr>)"
    | (ok) "c_mem_alloc ?fd0 PIPE_PERM c = (0, fresh ?fd0 c)" by blast
  then show ?thesis
  proof cases
    case no_mem
    then show ?thesis using free(1) ecode_neg
      by (intro error [of "ecode E_NO_MEM" "c\<lparr>clock := clock c + 1\<rparr>"]) (auto simp: pipe_def)
  next
    case ok
    let ?c = "fresh ?fd0 c"
    note free' = fd_free_fresh [OF free(2)]
    show ?thesis
    proof (cases rule: fd_alloc_cases [of ?c])
      case (full e)
      then show ?thesis using free(1) ok ecode_neg m(2) pm(3)
        by (intro error [of "of_int e" "undo ?fd0 ?c"]) (auto simp: pipe_def pipe_err1_def undo_def [symmetric] fun_upd_idem)
    next
      case (free n)
      then have n: "fd_free c n" "n \<noteq> m" "n < 31" using free' by (auto simp: fd_free_def)
      note pn = fd_pages [OF n(3)]
      have lt: "m < n" using \<open>\<And>m'. m' < m \<Longrightarrow> \<not> fd_free c m'\<close> n(1,2) by (metis linorder_neqE_nat)
      have first: "k = m" if "k < n" "fd_free c k" for k using free(3) [OF that(1)] that(2) free' by blast
      let ?fd1 = "INDEX2FD (of_nat n)"
      from mem_alloc_cases [OF pn(3), of ?c]
      consider (no_mem) "c_mem_alloc ?fd1 PIPE_PERM ?c = (ecode E_NO_MEM, ?c\<lparr>clock := clock ?c + 1\<rparr>)"
        | (ok2) "c_mem_alloc ?fd1 PIPE_PERM ?c = (0, fresh ?fd1 ?c)" by blast
      then show ?thesis
      proof cases
        case no_mem
        then show ?thesis using \<open>fd_alloc c = Inr ?fd0\<close> ok free(1) ecode_neg m(2) pm(3)
          by (intro error [of "ecode E_NO_MEM" "undo ?fd0 (?c\<lparr>clock := clock ?c + 1\<rparr>)"])
            (auto simp: pipe_def pipe_err1_def undo_def [symmetric] fun_upd_idem)
      next
        case ok2
        show ?thesis
          by (rule fds [OF \<open>fd_free c m\<close> n(1) lt first])
            (auto simp: pipe_def \<open>fd_alloc c = Inr ?fd0\<close> ok free(1) ok2 ecode_neg pm pn two_fds_def pipe_err1_def pipe_err2_def pipe_err3_def
              undo_def Let_def split: prod.split cong: if_cong)
      qed
    qed
  qed
qed

text \<open>The mappings and pages of a new pipe between the descriptors \<open>m\<close> and \<open>n\<close>.\<close>

definition pipe_made :: "nat \<Rightarrow> nat \<Rightarrow> client \<Rightarrow> client \<Rightarrow> bool" where
  "pipe_made m n c c' \<longleftrightarrow>
     (let fl = mapped_flags PIPE_PERM; a = nown c in
      ptab c' = (ptab c)(VPN (INDEX2FD (of_nat m)) \<mapsto> (Own a, fl), VPN (INDEX2FD (of_nat n)) \<mapsto> (Own (a + 1), fl),
        VPN (INDEX2DATA (of_nat m)) \<mapsto> (Own (a + 2), fl), VPN (INDEX2DATA (of_nat n)) \<mapsto> (Own (a + 2), fl)) \<and>
      field (Own a) 0 c' = 0x70 \<and> field (Own a) 8 c' = 0 \<and> field (Own (a + 1)) 0 c' = 0x70 \<and> field (Own (a + 1)) 8 c' = O_WRONLY \<and>
      (\<forall>k<4096. cell c' (Own (a + 2), k) = 0))"

definition three_pages :: "nat \<Rightarrow> nat \<Rightarrow> client \<Rightarrow> client" where
  "three_pages m n c = fresh (INDEX2DATA (of_nat m)) (two_fds m n c)"

lemma set_both:
  assumes "m < 31" "n < 31" "m \<noteq> n"
    and pt: "ptab d = (ptab (three_pages m n c))(VPN (INDEX2DATA (of_nat n)) \<mapsto> (Own (nown c + 2), mapped_flags PIPE_PERM))"
    and ow: "own d = own (three_pages m n c)"
  shows "\<exists>c1 c2. set_fd (INDEX2FD (of_nat m)) 0 d = Some c1 \<and> set_fd (INDEX2FD (of_nat n)) 1 c1 = Some c2 \<and> pipe_made m n c c2"
proof -
  note pm = fd_pages [OF assms(1)] and pn = fd_pages [OF assms(2)]
  have v: "ptab d (VPN (INDEX2FD (of_nat m))) = Some (Own (nown c), mapped_flags PIPE_PERM)"
    "ptab d (VPN (INDEX2FD (of_nat n))) = Some (Own (nown c + 1), mapped_flags PIPE_PERM)"
    using assms(1-3) by (simp_all add: pt three_pages_def two_fds_def pm pn)
  obtain c1 where c1: "set_fd (INDEX2FD (of_nat m)) 0 d = Some c1" "frame_of c1 = frame_of d"
    "field (Own (nown c)) 0 c1 = 0x70" "field (Own (nown c)) 8 c1 = 0" "\<And>x. good x \<Longrightarrow> fst x \<noteq> Own (nown c) \<Longrightarrow> cell c1 x = cell d x"
    using set_fd_ok [OF pm(7) v(1) pipe_flags] by blast
  have "ptab c1 (VPN (INDEX2FD (of_nat n))) = Some (Own (nown c + 1), mapped_flags PIPE_PERM)" using v(2) ptab_frame [OF c1(2)] by simp
  from set_fd_ok [OF pn(7) this pipe_flags, of 1] obtain c2 where c2: "set_fd (INDEX2FD (of_nat n)) 1 c1 = Some c2" "frame_of c2 = frame_of c1"
    "field (Own (nown c + 1)) 0 c2 = 0x70" "field (Own (nown c + 1)) 8 c2 = 1" "\<And>x. good x \<Longrightarrow> fst x \<noteq> Own (nown c + 1) \<Longrightarrow> cell c2 x = cell c1 x"
    by blast
  have f: "field (Own (nown c)) k c2 = field (Own (nown c)) k c1" if "k + 4 \<le> 4096" for k
    using that by (intro field_cong c2(5)) (auto simp: good_def page_ok_def)
  have "cell c2 (Own (nown c + 2), k) = cell d (Own (nown c + 2), k)" if "k < 4096" for k
    using that c1(5) c2(5) by (simp add: good_def page_ok_def)
  moreover have "cell d (Own (nown c + 2), k) = 0" for k by (simp add: cell_def page_mem_def ow three_pages_def two_fds_def)
  moreover have "ptab c2 = ptab d" using ptab_frame [OF c1(2)] ptab_frame [OF c2(2)] by simp
  ultimately have "pipe_made m n c c2"
    using c1(3,4) c2(3,4) f [of 0] f [of 8] by (simp add: pipe_made_def Let_def pt three_pages_def two_fds_def)
  then show ?thesis using c1(1) c2(1) by blast
qed

text \<open>C17. A pipe is made completely or not at all: whenever memory or descriptors run out, \<^verbatim>\<open>pipe\<close> returns an error and leaves every
  mapping as it was; otherwise it returns the two lowest free descriptors, the first for reading and the second for
  writing, whose data windows are one and the same new page with both positions zero, and no other
  mapping has changed.\<close>

theorem pipe_all_or_nothing:
  assumes "\<And>k. fd_free c k \<Longrightarrow> ptab c (VPN (INDEX2DATA (of_nat k))) = None"
  shows "(\<exists>e c'. pipe c = Some (Inl e, c') \<and> ptab c' = ptab c) \<or>
    (\<exists>m n c'. pipe c = Some (Inr (of_nat m, of_nat n), c') \<and> m < n \<and> fd_free c m \<and> fd_free c n \<and>
      {k. k < n \<and> fd_free c k} = {m} \<and> pipe_made m n c c')"
proof (cases rule: pipe_step1 [of c])
  case (error e c')
  then show ?thesis by blast
next
  case (fds m n)
  have mn: "m < 31" "n < 31" "m \<noteq> n" using fds(1-3) by (auto simp: fd_free_def)
  note pm = fd_pages [OF mn(1)] and pn = fd_pages [OF mn(2)]
  let ?c = "two_fds m n c" and ?va = "INDEX2DATA (of_nat m)" and ?vb = "INDEX2DATA (of_nat n)"
  let ?fd0 = "INDEX2FD (of_nat m)" and ?fd1 = "INDEX2FD (of_nat n)"
  have none: "ptab c (VPN ?fd0) = None" "ptab c (VPN ?fd1) = None" "ptab c (VPN ?va) = None" "ptab c (VPN ?vb) = None"
    using fds(1,2) assms by (auto simp: fd_free_def)
  have sep: "VPN ?va \<noteq> VPN ?fd0" "VPN ?va \<noteq> VPN ?fd1" "VPN ?vb \<noteq> VPN ?fd0" "VPN ?vb \<noteq> VPN ?fd1" "VPN ?fd0 \<noteq> VPN ?fd1" "VPN ?va \<noteq> VPN ?vb"
    using mn by (simp_all add: pm pn)
  have undone: "ptab (undo ?fd0 (undo ?fd1 d)) = ptab c" if "ptab d = ptab ?c" for d
    using that none(1,2) sep pm(3) pn(3) by (auto simp: two_fds_def fun_eq_iff)
  have first: "{k. k < n \<and> fd_free c k} = {m}" using fds(1,3,4) by blast
  from mem_alloc_cases [OF pm(4), of ?c]
  consider (no_mem) "c_mem_alloc ?va PIPE_PERM ?c = (ecode E_NO_MEM, ?c\<lparr>clock := clock ?c + 1\<rparr>)"
    | (ok) "c_mem_alloc ?va PIPE_PERM ?c = (0, three_pages m n c)" unfolding three_pages_def by blast
  then show ?thesis
  proof cases
    case no_mem
    then show ?thesis using fds(5) ecode_neg(1) undone [of "?c\<lparr>clock := clock ?c + 1\<rparr>"] by (simp add: Let_def)
  next
    case ok
    let ?t = "three_pages m n c"
    have p: "ptab ?t (VPN ?va) = Some (Own (nown c + 2), mapped_flags PIPE_PERM)" "ptab ?t (VPN ?vb) = None"
      using none(4) sep by (simp_all add: three_pages_def two_fds_def)
    show ?thesis
    proof (cases "nopage ?t (clock ?t)")
      case True
      then have "c_mem_map ?va ?vb PIPE_PERM ?t = (ecode E_NO_MEM, ?t\<lparr>clock := clock ?t + 1\<rparr>)" using p pm(4) pn(4) by (simp add: c_mem_map_def)
      moreover have "ptab (undo ?va (?t\<lparr>clock := clock ?t + 1\<rparr>)) = ptab ?c"
        using none(3) sep pm(4) by (simp add: three_pages_def two_fds_def fun_upd_idem)
      ultimately show ?thesis using fds(5) ok ecode_neg undone by (simp add: Let_def)
    next
      case False
      let ?d = "set_pte (VPN ?vb) (Own (nown c + 2)) PIPE_PERM (?t\<lparr>clock := clock ?t + 1\<rparr>)"
      have mp: "c_mem_map ?va ?vb PIPE_PERM ?t = (0, ?d)" using False p pm(4) pn(4) by (simp add: c_mem_map_def upd_ref_def)
      obtain c1 c2 where "set_fd ?fd0 0 ?d = Some c1" "set_fd ?fd1 1 c1 = Some c2" "pipe_made m n c c2"
        using set_both [OF mn, of ?d c] by auto
      then show ?thesis using fds(1-3,5) first ok mp ecode_neg by (intro disjI2 exI [of _ m] exI [of _ n] exI [of _ c2]) (simp add: Let_def)
    qed
  qed
qed

theorem pipe_all_or_nothing_witness:
  "\<forall>sv. (\<exists>e c'. pipe (demo_client sv) = Some (Inl e, c') \<and> ptab c' = ptab (demo_client sv)) \<or>
    (\<exists>m n c'. pipe (demo_client sv) = Some (Inr (of_nat m, of_nat n), c') \<and> m < n \<and> fd_free (demo_client sv) m \<and> fd_free (demo_client sv) n \<and>
      {k. k < n \<and> fd_free (demo_client sv) k} = {m} \<and> pipe_made m n (demo_client sv) c')"
proof
  fix sv :: srv
  have "ptab (demo_client sv) (VPN (INDEX2DATA (of_nat k))) = None" if "fd_free (demo_client sv) k" for k
  proof -
    have k: "k < 31" "k \<noteq> 0" using that fd_pages(1) [of k] by (auto simp: fd_free_def demo_client_sel split: if_splits)
    then show ?thesis by (simp add: fd_pages(2) [OF k(1)] demo_client_sel)
  qed
  then show "(\<exists>e c'. pipe (demo_client sv) = Some (Inl e, c') \<and> ptab c' = ptab (demo_client sv)) \<or>
    (\<exists>m n c'. pipe (demo_client sv) = Some (Inr (of_nat m, of_nat n), c') \<and> m < n \<and> fd_free (demo_client sv) m \<and> fd_free (demo_client sv) n \<and>
      {k. k < n \<and> fd_free (demo_client sv) k} = {m} \<and> pipe_made m n (demo_client sv) c')"
    by (rule pipe_all_or_nothing)
qed

end
