(* ===== verification/MOS_PrintProgs.thy ===== *)
theory MOS_PrintProgs
  imports MOS_Fd MOS_Debug
begin

text \<open>
  Programs that print: \<^verbatim>\<open>user/echo.c\<close>, \<^verbatim>\<open>user/num.c\<close> and \<^verbatim>\<open>user/ls.c\<close>, over the \<^verbatim>\<open>printf\<close> of \<open>MOS_Debug\<close>.

  The writer that \<^verbatim>\<open>printf\<close> calls is an argument; the locale \<open>appender\<close> states that it appends to what is shown, and is interpreted on
  the console of the client.
\<close>

type_synonym 's writer = "int \<Rightarrow> u8 list \<Rightarrow> 's \<Rightarrow> int \<times> 's"

definition print_to :: "'s writer \<Rightarrow> string \<Rightarrow> varg list \<Rightarrow> 's \<Rightarrow> 's option" where
  "print_to wr fmt ap s = map_option snd (printf wr (bytes_of fmt) ap s)"

section \<open>echo\<close>

fun echo_words :: "'s writer \<Rightarrow> bool \<Rightarrow> u8 list list \<Rightarrow> 's \<Rightarrow> 's option" where
  "echo_words wr first [] s = Some s"
| "echo_words wr first (w # ws) s = do {
     s \<leftarrow> (if first then Some s else print_to wr '' '' [] s);
     s \<leftarrow> print_to wr ''%s'' [StrArg w] s;
     echo_words wr False ws s
   }"

definition echo_main :: "'s writer \<Rightarrow> u8 list list \<Rightarrow> 's \<Rightarrow> 's option" where
  "echo_main wr as s = do {
     let nflag = (as \<noteq> [] \<and> hd as = [0x2D, 0x6E]);
     s \<leftarrow> echo_words wr True (if nflag then tl as else as) s;
     if nflag then Some s else print_to wr [CHR 0x0A] [] s
   }"

section \<open>num\<close>

text \<open>The bytes of the input, one for every call of \<^verbatim>\<open>read\<close>; the state of the program is \<^verbatim>\<open>bol\<close> and \<^verbatim>\<open>line\<close>.\<close>

fun num :: "'s writer \<Rightarrow> bool \<Rightarrow> u32 \<Rightarrow> u8 list \<Rightarrow> 's \<Rightarrow> (bool \<times> u32 \<times> 's) option" where
  "num wr bol line [] s = Some (bol, line, s)"
| "num wr bol line (c # cs) s = do {
     (line, s) \<leftarrow> (if bol then do { s \<leftarrow> print_to wr ''%5d '' [WordArg (line + 1)] s; Some (line + 1, s) } else Some (line, s));
     (r, s) \<leftarrow> printf wr (bytes_of ''%c'') [WordArg (scast c)] s;
     if r \<noteq> 1 then None else num wr (c = 0x0A) line cs s
   }"

section \<open>ls\<close>

record ls_flags =
  flag_d :: bool
  flag_F :: bool
  flag_l :: bool

definition ls1 :: "'s writer \<Rightarrow> ls_flags \<Rightarrow> u8 list option \<Rightarrow> bool \<Rightarrow> u32 \<Rightarrow> u8 list \<Rightarrow> 's \<Rightarrow> 's option" where
  "ls1 wr fl pre isdir sz name s = do {
     s \<leftarrow> (if flag_l fl then print_to wr ''%11d %c '' [WordArg sz, WordArg (if isdir then 0x64 else 0x2D)] s else Some s);
     s \<leftarrow> (case pre of
            None \<Rightarrow> Some s
          | Some p \<Rightarrow> print_to wr ''%s%s'' [StrArg p, StrArg (if p \<noteq> [] \<and> last p \<noteq> 0x2F then [0x2F] else [])] s);
     s \<leftarrow> print_to wr ''%s'' [StrArg name] s;
     s \<leftarrow> (if flag_F fl \<and> isdir then print_to wr ''/'' [] s else Some s);
     print_to wr '' '' [] s
   }"

text \<open>The structure \<^verbatim>\<open>struct File\<close> of 256 bytes is read to \<open>f\<close>. The descriptor is not closed. \<open>None\<close> includes \<^verbatim>\<open>user_panic\<close>.\<close>

partial_function (option) lsdir_loop ::
  "dev \<Rightarrow> client writer \<Rightarrow> ls_flags \<Rightarrow> u32 \<Rightarrow> u8 list \<Rightarrow> u32 \<Rightarrow> client \<Rightarrow> client option" where
  "lsdir_loop devpipe wr fl f pre fd c = do {
     (n, c) \<leftarrow> readn devpipe fd f 256 c;
     if n = 256 then do {
       b \<leftarrow> load8 f c;
       c \<leftarrow> (if b = 0 then Some c else do {
         ty \<leftarrow> load32 (f_type_of f) c;
         sz \<leftarrow> load32 (f_size_of f) c;
         name \<leftarrow> load_string f c;
         ls1 wr fl (Some pre) (ty = FTYPE_DIR) sz name c });
       lsdir_loop devpipe wr fl f pre fd c
     }
     else if n = 0 then Some c else None
   }"

definition lsdir :: "dev \<Rightarrow> client writer \<Rightarrow> ls_flags \<Rightarrow> u32 \<Rightarrow> u8 list \<Rightarrow> u8 list \<Rightarrow> client \<Rightarrow> client option" where
  "lsdir devpipe wr fl f path pre c = do {
     (fd, c) \<leftarrow> open_file_desc path 0 c;
     if fd <s 0 then None else lsdir_loop devpipe wr fl f pre fd c
   }"

definition ls :: "dev \<Rightarrow> client writer \<Rightarrow> ls_flags \<Rightarrow> u32 \<Rightarrow> u8 list \<Rightarrow> u8 list \<Rightarrow> client \<Rightarrow> client option" where
  "ls devpipe wr fl f path pre c = do {
     (r, st, c) \<leftarrow> stat_path devpipe path \<lparr>st_name = [], st_size = 0, st_isdir = False, st_dev = 0\<rparr> c;
     if r <s 0 then None
     else if st_isdir st \<and> \<not> flag_d fl then lsdir devpipe wr fl f path pre c
     else ls1 wr fl None (st_isdir st) (st_size st) path c
   }"

text \<open>The options, as \<^verbatim>\<open>ARGBEGIN\<close> reads them: \<^verbatim>\<open>--\<close> ends them, \<open>None\<close> is the message of \<^verbatim>\<open>usage\<close>.\<close>

fun ls_option :: "u8 list \<Rightarrow> ls_flags \<Rightarrow> ls_flags option" where
  "ls_option [] fl = Some fl"
| "ls_option (c # cs) fl =
    (if c = 0x64 then ls_option cs (fl\<lparr>flag_d := True\<rparr>)
     else if c = 0x46 then ls_option cs (fl\<lparr>flag_F := True\<rparr>)
     else if c = 0x6C then ls_option cs (fl\<lparr>flag_l := True\<rparr>)
     else None)"

fun ls_options :: "u8 list list \<Rightarrow> ls_flags \<Rightarrow> (ls_flags \<times> u8 list list) option" where
  "ls_options [] fl = Some (fl, [])"
| "ls_options (a # as) fl =
    (if length a < 2 \<or> hd a \<noteq> 0x2D then Some (fl, a # as)
     else if a = [0x2D, 0x2D] then Some (fl, as)
     else do { fl \<leftarrow> ls_option (tl a) fl; ls_options as fl })"

fun ls_each :: "dev \<Rightarrow> client writer \<Rightarrow> ls_flags \<Rightarrow> u32 \<Rightarrow> u8 list list \<Rightarrow> client \<Rightarrow> client option" where
  "ls_each devpipe wr fl f [] c = Some c"
| "ls_each devpipe wr fl f (a # as) c = do { c \<leftarrow> ls devpipe wr fl f a a c; ls_each devpipe wr fl f as c }"

definition ls_main :: "dev \<Rightarrow> client writer \<Rightarrow> u32 \<Rightarrow> u8 list list \<Rightarrow> client \<Rightarrow> client option" where
  "ls_main devpipe wr f as c =
    (case ls_options as \<lparr>flag_d = False, flag_F = False, flag_l = False\<rparr> of
       None \<Rightarrow> print_to wr (''usage: ls [-dFl] [file...]'' @ [CHR 0x0A]) [] c
     | Some (fl, as) \<Rightarrow> do {
         c \<leftarrow> (if as = [] then ls devpipe wr fl f [0x2F] [] c else ls_each devpipe wr fl f as c);
         print_to wr [CHR 0x0A] [] c
       })"

section \<open>What is printed\<close>

lemma formats:
  "vprintfmt (bytes_of '' '') [] = Some [[0x20]]" "vprintfmt (bytes_of ''/'') [] = Some [[0x2F]]"
  "vprintfmt (bytes_of [CHR 0x0A]) [] = Some [[0x0A]]"
  "vprintfmt (bytes_of ''%s'') [StrArg w] = Some [[], w, []]"
  "vprintfmt (bytes_of ''%s%s'') [StrArg v, StrArg w] = Some [[], v, [], w, []]"
  "vprintfmt (bytes_of ''%c'') [WordArg x] = Some [[], [ucast x], []]"
  by (simp_all add: bytes_of_def vprintfmt.simps get_spec_def get_flag_def convert_def take_str_def take_word_def print_str_def print_char_def)

definition join_words :: "u8 list list \<Rightarrow> u8 list" where
  "join_words ws = (case ws of [] \<Rightarrow> [] | w # ws \<Rightarrow> w @ concat (map (Cons 0x20) ws))"

definition echo_text :: "u8 list list \<Rightarrow> u8 list" where
  "echo_text as = (if as \<noteq> [] \<and> hd as = [0x2D, 0x6E] then join_words (tl as) else join_words as @ [0x0A])"

definition ls_entry :: "ls_flags \<Rightarrow> u8 list option \<Rightarrow> bool \<Rightarrow> u8 list \<Rightarrow> u8 list" where
  "ls_entry fl pre isdir name =
    (case pre of None \<Rightarrow> [] | Some p \<Rightarrow> p @ (if p \<noteq> [] \<and> last p \<noteq> 0x2F then [0x2F] else [])) @ name @
    (if flag_F fl \<and> isdir then [0x2F] else []) @ [0x20]"

locale appender =
  fixes wr :: "'s writer" and out :: "'s \<Rightarrow> u8 list"
  assumes appends: "wr 1 bs s = (r, s') \<Longrightarrow> r = int (length bs) \<and> out s' = out s @ bs"
begin

lemma fold_output:
  "0 \<le> n \<Longrightarrow> \<exists>s'. fold (print_output wr) bufs (\<lparr>pfd = 1, pret = n\<rparr>, s) = (\<lparr>pfd = 1, pret = n + int (length (concat bufs))\<rparr>, s') \<and>
    out s' = out s @ concat bufs"
proof (induction bufs arbitrary: n s)
  case (Cons b bufs)
  obtain r s1 where w: "wr 1 b s = (r, s1)" by fastforce
  then have "r = int (length b)" "out s1 = out s @ b" using appends by blast+
  then show ?case using Cons.IH [of "n + int (length b)" s1] Cons.prems w by (auto simp: print_output_def add.assoc)
qed simp

lemma printf_out:
  "vprintfmt fmt ap = Some bufs \<Longrightarrow> \<exists>s'. printf wr fmt ap s = Some (int (length (concat bufs)), s') \<and> out s' = out s @ concat bufs"
  using fold_output [of 0 bufs s] by (auto simp: printf_def vfprintf_def)

lemma print_to_out:
  "vprintfmt (bytes_of fmt) ap = Some bufs \<Longrightarrow> \<exists>s'. print_to wr fmt ap s = Some s' \<and> out s' = out s @ concat bufs"
  using printf_out [of "bytes_of fmt" ap bufs s] by (auto simp: print_to_def)

lemma echo_words_rest: "\<exists>s'. echo_words wr False ws s = Some s' \<and> out s' = out s @ concat (map (Cons 0x20) ws)"
proof (induction ws arbitrary: s)
  case (Cons w ws)
  obtain s1 where 1: "print_to wr '' '' [] s = Some s1" "out s1 = out s @ [0x20]" using print_to_out [OF formats(1)] by auto
  obtain s2 where 2: "print_to wr ''%s'' [StrArg w] s1 = Some s2" "out s2 = out s1 @ w" using print_to_out [OF formats(4)] by auto
  show ?case using Cons.IH [of s2] 1 2 by auto
qed simp

text \<open>\<^verbatim>\<open>echo\<close> prints its arguments with single blanks between them, and a newline unless the first one is \<^verbatim>\<open>-n\<close>.\<close>

lemma echo_out:
  "\<exists>s'. echo_main wr as s = Some s' \<and> out s' = out s @ echo_text as"
proof -
  have words: "\<exists>s'. echo_words wr True ws s = Some s' \<and> out s' = out s @ join_words ws" for ws
  proof (cases ws)
    case (Cons w ws')
    obtain s1 where "print_to wr ''%s'' [StrArg w] s = Some s1" "out s1 = out s @ w" using print_to_out [OF formats(4)] by auto
    then show ?thesis using echo_words_rest [of ws' s1] Cons by (auto simp: join_words_def)
  qed (simp add: join_words_def)
  show ?thesis
  proof (cases "as \<noteq> [] \<and> hd as = [0x2D, 0x6E]")
    case True
    then show ?thesis using words [of "tl as"] by (auto simp: echo_main_def echo_text_def)
  next
    case False
    obtain s1 where 1: "echo_words wr True as s = Some s1" "out s1 = out s @ join_words as" using words by blast
    obtain s2 where "print_to wr [CHR 0x0A] [] s1 = Some s2" "out s2 = out s1 @ [0x0A]" using print_to_out [OF formats(3)] by auto
    then show ?thesis using 1 False by (auto simp: echo_main_def echo_text_def Let_def)
  qed
qed

text \<open>An entry of \<^verbatim>\<open>ls\<close> without \<^verbatim>\<open>-l\<close>.\<close>

lemma ls1_out:
  assumes "\<not> flag_l fl"
  shows "\<exists>s'. ls1 wr fl pre isdir sz name s = Some s' \<and> out s' = out s @ ls_entry fl pre isdir name"
proof -
  let ?p = "case pre of None \<Rightarrow> [] | Some p \<Rightarrow> p @ (if p \<noteq> [] \<and> last p \<noteq> 0x2F then [0x2F] else [])"
  have "\<exists>s1. (case pre of None \<Rightarrow> Some s
      | Some p \<Rightarrow> print_to wr ''%s%s'' [StrArg p, StrArg (if p \<noteq> [] \<and> last p \<noteq> 0x2F then [0x2F] else [])] s) = Some s1 \<and> out s1 = out s @ ?p"
    using print_to_out [OF formats(5)] by (cases pre) auto
  then obtain s1 where 1: "(case pre of None \<Rightarrow> Some s
      | Some p \<Rightarrow> print_to wr ''%s%s'' [StrArg p, StrArg (if p \<noteq> [] \<and> last p \<noteq> 0x2F then [0x2F] else [])] s) = Some s1" "out s1 = out s @ ?p" by blast
  obtain s2 where 2: "print_to wr ''%s'' [StrArg name] s1 = Some s2" "out s2 = out s1 @ name" using print_to_out [OF formats(4)] by auto
  have "\<exists>s3. (if flag_F fl \<and> isdir then print_to wr ''/'' [] s2 else Some s2) = Some s3 \<and> out s3 = out s2 @ (if flag_F fl \<and> isdir then [0x2F] else [])"
    using print_to_out [OF formats(2), of s2] by auto
  then obtain s3 where 3: "(if flag_F fl \<and> isdir then print_to wr ''/'' [] s2 else Some s2) = Some s3"
    "out s3 = out s2 @ (if flag_F fl \<and> isdir then [0x2F] else [])" by blast
  obtain s4 where 4: "print_to wr '' '' [] s3 = Some s4" "out s4 = out s3 @ [0x20]" using print_to_out [OF formats(1)] by auto
  show ?thesis using assms 1 2 3 4 by (simp add: ls1_def ls_entry_def)
qed

end

text \<open>The console of the client: what \<^verbatim>\<open>write\<close> on it does with the bytes of a buffer.\<close>

definition cons_writer :: "client writer" where
  "cons_writer fd bs c = (int (length bs), c\<lparr>shown := shown c @ bs\<rparr>)"

interpretation console: appender cons_writer shown
  by unfold_locales (auto simp: cons_writer_def)

lemma echo_shows: "\<exists>c'. echo_main cons_writer as c = Some c' \<and> shown c' = shown c @ echo_text as"
  by (rule console.echo_out)

lemma ls1_shows:
  "\<not> flag_l fl \<Longrightarrow> \<exists>c'. ls1 cons_writer fl pre isdir sz name c = Some c' \<and> shown c' = shown c @ ls_entry fl pre isdir name"
  by (rule console.ls1_out)

end
