(* ===== verification/Spec2Isabelle.thy ===== *)
theory Spec2Isabelle
  imports MOS_SyscallProps MOS_Debug MOS_FsDisk MOS_Paths MOS_Serv MOS_Pipe MOS_Fork MOS_Shell MOS_SpawnStack MOS_Format MOS_History MOS_ShellProps MOS_Progs MOS_PipeFd MOS_PrintProgs
begin

text \<open>
  MOS: a verification of a teaching operating system for MIPS.

  \<^bold>\<open>The program.\<close> MOS is a small kernel (\<^verbatim>\<open>kern/\<close>, \<^verbatim>\<open>include/\<close>, \<^verbatim>\<open>lib/\<close>) with a file system server that runs
  as a user process (\<^verbatim>\<open>fs/\<close>), a user library (\<^verbatim>\<open>user/lib/\<close>) and programs. The kernel owns physical
  pages with reference counts, two-level page tables, at most 1024 environments with an
  address space identifier (ASID) each, and a round-robin run queue. It is entered by TLB misses, stores to
  read-only pages, timer interrupts and system calls. Environments talk by IPC that can carry a page;
  the file server owns the disk, caches blocks in its address space and answers requests by
  sending pages. Fork is a library routine on top of the memory system calls.

  \<^bold>\<open>The theories\<close>, from the bottom up (file names under the source directory in parentheses):

  \<^item> \<open>MOS_Prelude\<close>: machine words, error codes, page-table macros (\<^verbatim>\<open>include/types.h\<close>, \<^verbatim>\<open>include/mmu.h\<close>,
    \<^verbatim>\<open>include/error.h\<close>), and the generic lemmas.
  \<^item> \<open>MOS_Queue\<close>: the list and tail-queue macros on explicit links (\<^verbatim>\<open>include/queue.h\<close>). The locales
    \<open>intrusive_list\<close> and \<open>intrusive_tailq\<close> state what the kernel relies on and are interpreted on the
    macros.
  \<^item> \<open>MOS_Pmap\<close>, \<open>MOS_PmapInv\<close>: physical pages, page tables, TLB (\<^verbatim>\<open>kern/pmap.c\<close>, \<^verbatim>\<open>include/pmap.h\<close>). State:
    record \<open>pmap\<close>. The invariant \<open>pm_inv\<close> relates page tables to reference counts and the free list;
    each operation has its effect on the abstract address space of a page directory.
  \<^item> \<open>MOS_Elf\<close>: the loader (\<^verbatim>\<open>lib/elfloader.c\<close>) over an arbitrary page mapper, and the image it leaves in memory.
  \<^item> \<open>MOS_Bitmap\<close>: the locale \<open>bit_allocator\<close> of an allocator with one bit per resource, interpreted for
    ASIDs (\<open>MOS_EnvInv\<close>) and for disk blocks (\<open>MOS_Blocks\<close>).
  \<^item> \<open>MOS_Env\<close>, \<open>MOS_EnvMem\<close>, \<open>MOS_EnvInv\<close>, \<open>MOS_EnvProps\<close>: environments and scheduling (\<^verbatim>\<open>kern/env.c\<close>,
    \<^verbatim>\<open>kern/sched.c\<close>). State: record \<open>kstate\<close>. Lemmas: the kernel invariant, allocation and destruction,
    context switches, round robin.
  \<^item> \<open>MOS_Trap\<close>: TLB refill, copy-on-write faults, exception dispatch (\<^verbatim>\<open>kern/tlbex.c\<close>, \<^verbatim>\<open>kern/traps.c\<close>).
  \<^item> \<open>MOS_Syscall\<close>, \<open>MOS_SyscallInv\<close>, \<open>MOS_SyscallProps\<close>: the 24 system calls and the dispatcher
    (\<^verbatim>\<open>kern/syscall_all.c\<close>, \<^verbatim>\<open>include/io.h\<close>, \<^verbatim>\<open>kern/machine.c\<close>), each with the invariant it keeps.
  \<^item> \<open>MOS_Reach\<close>, \<open>MOS_Entry\<close>: the kernel as a whole, as a step relation of user stores, timer
    interrupts and system calls, with the invariant on all reachable states.
  \<^item> \<open>MOS_String\<close>, \<open>MOS_Print\<close>, \<open>MOS_Debug\<close>: \<^verbatim>\<open>lib/string.c\<close>, \<^verbatim>\<open>lib/print.c\<close> and the users of the formatter
    (\<^verbatim>\<open>kern/printk.c\<close>, \<^verbatim>\<open>user/lib/debugf.c\<close>, \<^verbatim>\<open>user/lib/fprintf.c\<close>), against byte-wise and positional references.
  \<^item> \<open>MOS_Ide\<close>: the disk driver (\<^verbatim>\<open>fs/ide.c\<close>) over any controller that meets the locale \<open>ide_device\<close>, which is
    interpreted on a controller with delays.
  \<^item> \<open>MOS_Fs\<close>: block cache, bitmap, files, directories, paths (\<^verbatim>\<open>fs/fs.c\<close>), over the memory of the server
    (record \<open>fss\<close>). \<open>MOS_Blocks\<close>: the mounted state \<open>fs_ready\<close>, the block allocator, blocks written
    and read back. \<open>MOS_FsDisk\<close>: the driver implements the transfers the cache uses. \<open>MOS_Paths\<close>: path
    resolution against path components, files with holes.
  \<^item> \<open>MOS_Mount\<close>: the start of the server on a disk image. \<open>MOS_Fsformat\<close>: the tool that builds the image
    (\<^verbatim>\<open>tools/fsformat.c\<close>), state: record \<open>fmt\<close>, over the files of the host. \<open>MOS_FsImage\<close>: the invariant of the image, which
    block holds what. \<open>MOS_FsTree\<close>: files and directories written to it. \<open>MOS_Format\<close>: the whole tool, and the server on its image.
  \<^item> \<open>MOS_Serv\<close>: the requests and the server's loop (\<^verbatim>\<open>fs/serv.c\<close>, \<^verbatim>\<open>user/lib/pageref.c\<close>).
  \<^item> \<open>MOS_Pipe\<close>: pipes as interleaved state machines of a reader and a writer (\<^verbatim>\<open>user/lib/pipe.c\<close>).
  \<^item> \<open>MOS_Fork\<close>: fork, the kernel's entry of the user's TLB Mod handler on the exception stack and the copy-on-write
    handler (\<^verbatim>\<open>user/lib/fork.c\<close>, \<^verbatim>\<open>do_tlb_mod\<close> of \<^verbatim>\<open>kern/tlbex.c\<close>) over the mappings of all environments.
  \<^item> \<open>MOS_Fd\<close>: descriptors, the client side of files, the console (\<^verbatim>\<open>user/lib/fd.c\<close>, \<^verbatim>\<open>file.c\<close>, \<^verbatim>\<open>fsipc.c\<close>,
    \<^verbatim>\<open>console.c\<close>). State: record \<open>client\<close>, one process with the server and the pages they share. \<open>MOS_FdMem\<close>:
    memory as cells that several addresses may name. \<open>MOS_FileDesc\<close>: open files refine a list of bytes with a position.
    \<open>MOS_Dup\<close>: duplicated descriptors are the same open file.
  \<^item> \<open>MOS_PipeFd\<close>: making a pipe on the address space of the client (\<^verbatim>\<open>user/lib/pipe.c\<close>), completely or not at all.
  \<^item> \<open>MOS_Progs\<close>: \<^verbatim>\<open>cat\<close>, \<^verbatim>\<open>touch\<close>, \<^verbatim>\<open>rm\<close> and \<^verbatim>\<open>mkdir\<close> (\<^verbatim>\<open>user/\<close>) on these descriptors; \<^verbatim>\<open>cat\<close> shows the file.
    \<open>MOS_PrintProgs\<close>: \<^verbatim>\<open>echo\<close>, \<^verbatim>\<open>num\<close> and \<^verbatim>\<open>ls\<close> over a writer that meets the locale \<open>appender\<close>, interpreted on the console.
  \<^item> \<open>MOS_Spawn\<close>, \<open>MOS_SpawnStack\<close>: starting a program from a file (\<^verbatim>\<open>user/lib/spawn.c\<close>), with the loader of \<open>MOS_Elf\<close> and
    the files of \<open>MOS_Fd\<close>; waiting and sending (\<^verbatim>\<open>wait.c\<close>, \<^verbatim>\<open>ipc.c\<close>). State: record \<open>spawner\<close>, the client and its child.
  \<^item> \<open>MOS_Shell\<close>: the tokenizer of the shell (\<^verbatim>\<open>user/sh.c\<close>) on the line it changes in place, against a reference.
    \<open>MOS_History\<close>: reading lines, and the history as a file and a bounded queue. \<open>MOS_ShellRun\<close>: the parser and the
    execution of commands, as trees of library calls in which a fork goes on in both processes. \<open>MOS_ShellExec\<close>: these trees run against
    descriptors, pipes and messages. \<open>MOS_ShellProps\<close>: lists, pipelines and redirections.

  \<^bold>\<open>Conventions.\<close> A panic, a failed assertion or an access that would fault in the kernel is \<open>None\<close>; an
  error code is the left side of a sum or a negative integer. Machine integers are words and
  wrap around. Loops that may run for ever are partial functions to \<open>option\<close>; those that end are
  recursions with a termination proof. No fuel is used.

  \<^bold>\<open>What the theorems show.\<close> The kernel invariant holds in every reachable state and the kernel
  returns (\<open>kernel_safety\<close>); page insertion, removal and lookup are those of a map from addresses
  to pages with exact reference counts; system calls that change mappings change the one they name,
  in the caller or its child; a store of user code changes one byte of one mapped page and nothing else any
  environment maps; scheduling is fair; IPC delivers; destroying an environment gives exactly the pages it alone held
  back to the free list; the loader leaves the image in memory. On the user side, fork copies
  and copy-on-write isolates, a pipe is a bounded FIFO channel, the file server's allocator hands out no block twice,
  a block survives eviction, the driver refines the transfers, paths are resolved by component,
  each request is answered once; the image the formatter writes holds the host's tree and is mounted by the server with the right
  free blocks; an open file refines a list of bytes with a position, whose reads, writes and seeks round trip,
  duplicated descriptors are one open file, \<^verbatim>\<open>cat\<close> shows it to its end; a spawned program finds its arguments on its stack and shares exactly the
  library pages; the shell's tokenizer splits a line as its reference does, its parser never leaves the line, pipelines are wired
  as they are written, lists run as a shell runs them within stated limits, and the history survives. Several theorems state defects of the code as it is: stale blocks,
  sparse files that stop the server, lost data at the end of a pipe, environments that cannot be
  destroyed, requests that repeat for ever, commands that run twice or wait for ever.

  \<^bold>\<open>Not modelled.\<close> Assembly (exception entry, TLB instructions, context restore) is represented by its
  effect on the trap frame and the TLB; the controller, the console and the host's files are parameters. The self tests in the
  kernel and in the server, the start and exit of programs, the programs without a loop of their own, the prompt and the options of the shell, and the other
  host tools have no model. In \<open>MOS_ShellExec\<close> a forked process runs to its end before its parent goes on, one of
  the orders in which the two sides of a pipe can run, which files can be opened is fixed, so that a redirection does not
  create one for a later command, and the line in backquotes is recorded, not run.

  \<^bold>\<open>Where parts meet.\<close> The kernel's page tables (\<open>MOS_PmapInv\<close>) are a map from page numbers to pages for each address
  space; the user library's theories (\<open>MOS_Fork\<close>, \<open>MOS_Fd\<close>, \<open>MOS_Spawn\<close>) start from such maps and state the system calls on them,
  instead of running the handlers of \<open>MOS_Syscall\<close>. The loader's theorem on memory is for a mapper that always succeeds
  (\<open>spec_mapper\<close>); the kernel's and the library's mappers are modelled, and can fail. \<open>pm_inv\<close> says that listed free pages are
  unreferenced; that no unreferenced page is missing from the list is not part of it but of the exact free lists of
  \<open>page_remove_spec\<close>, \<open>env_alloc_spec\<close> and \<open>env_free_spec\<close>. A request to the server is a datatype, so the jump table of
  \<^verbatim>\<open>serve\<close> and the unmapping of the request page have no counterpart.
\<close>

end
